(* ===== verification/Prelude.thy ===== *)
theory Prelude imports Main "HOL-Library.Word" "HOL-Library.AList" begin

text \<open>
  Shared vocabulary of the development: the types of the Go program (bytes, fixed-width integers,
  times), the result type of a Go function, checked indexing and slicing, and the big- and
  little-endian readers of \<^verbatim>\<open>encoding/binary\<close>.

  A Go \<^verbatim>\<open>string\<close> and a \<^verbatim>\<open>[]byte\<close> are both byte sequences, so both are \<open>bytes\<close>; a string literal of
  the source is \<open>lit ''...''\<close>.  A Go function that can fail or index out of range returns a value of
  type \<open>'a go\<close>: \<open>Ret\<close> its result, \<open>Fail\<close> the \<^verbatim>\<open>error\<close> it returns, \<open>Panic\<close> the run-time panic of an
  index or a slice bound out of range (and, where a definition says so, a loop that would spin forever).  \<open>gwp m P\<close> says that \<open>m\<close> does not panic and that its result, if
  it has one, satisfies \<open>P\<close>; its equations turn a parser into its verification condition.
\<close>

unbundle bit_operations_syntax

named_theorems go_simps "evaluation of the model's primitives"
named_theorems wp_simps "verification conditions of the go monad"
named_theorems ret_simps "verification conditions for returning without an error"

section \<open>Types\<close>

type_synonym byte = "8 word"
type_synonym bytes = "byte list"
type_synonym u8 = "8 word"
type_synonym u16 = "16 word"
type_synonym u32 = "32 word"
type_synonym u64 = "64 word"

definition lit :: "string \<Rightarrow> bytes" where
  [go_simps]: "lit s = map of_char s"

text \<open>A \<^verbatim>\<open>time.Time\<close>: \<open>None\<close> is the zero time, \<open>Some t\<close> an instant in nanoseconds.\<close>

type_synonym gotime = "int option"

abbreviation second :: int where
  "second \<equiv> 1000000000"

text \<open>\<^verbatim>\<open>now.Sub(t)\<close>: a duration saturates at the largest 64-bit value, which the zero time reaches.\<close>

definition max_duration :: int where
  "max_duration = 2 ^ 63 - 1"

definition time_sub :: "int \<Rightarrow> gotime \<Rightarrow> int" where
  "time_sub now t = (case t of None \<Rightarrow> max_duration
     | Some u \<Rightarrow> max (- (2 ^ 63)) (min max_duration (now - u)))"

section \<open>Errors and results\<close>

text \<open>
  The errors of the source: a fixed message, a message that ends
  in a decimal or hexadecimal number, the two errors of
  \<^verbatim>\<open>strconv.ParseUint\<close> with the text that was parsed, an error wrapped by \<^verbatim>\<open>%w\<close>, and the text of an
  error that comes from a package outside the repository.
\<close>

datatype err =
    Msg string
  | MsgNum string nat
  | MsgHex string nat
  | NumSyntax bytes
  | NumRange bytes
  | Wrapped string err
  | External bytes

datatype 'a go = Ret 'a | Fail err | Panic

fun gbind :: "'a go \<Rightarrow> ('a \<Rightarrow> 'b go) \<Rightarrow> 'b go" where
  "gbind (Ret x) f = f x"
| "gbind (Fail e) f = Fail e"
| "gbind Panic f = Panic"

text \<open>\<^verbatim>\<open>if err != nil { return fmt.Errorf(msg) }\<close>: the callee's error is replaced.\<close>

fun gfail_as :: "'a go \<Rightarrow> err \<Rightarrow> 'a go" where
  "gfail_as (Fail e) e' = Fail e'"
| "gfail_as m e' = m"

text \<open>\<^verbatim>\<open>if err != nil { handle }\<close>, where the caller keeps its own state: \<open>h\<close> handles the error.\<close>

fun gtry :: "'a go \<Rightarrow> (err \<Rightarrow> 'b go) \<Rightarrow> ('a \<Rightarrow> 'b go) \<Rightarrow> 'b go" where
  "gtry (Ret x) h f = f x"
| "gtry (Fail e) h f = h e"
| "gtry Panic h f = Panic"

lemma gbind_cong [fundef_cong]:
  "m = m' \<Longrightarrow> (\<And>x. m' = Ret x \<Longrightarrow> f x = f' x) \<Longrightarrow> gbind m f = gbind m' f'"
  by (cases m') auto

lemma gtry_cong [fundef_cong]:
  "m = m' \<Longrightarrow> (\<And>x. m' = Ret x \<Longrightarrow> f x = f' x) \<Longrightarrow> (\<And>e. m' = Fail e \<Longrightarrow> h e = h' e)
   \<Longrightarrow> gtry m h f = gtry m' h' f'"
  by (cases m') auto

fun gwp :: "'a go \<Rightarrow> ('a \<Rightarrow> bool) \<Rightarrow> bool" where
  "gwp (Ret x) P = P x"
| "gwp (Fail e) P = True"
| "gwp Panic P = False"

lemma gwp_bind [wp_simps]: "gwp (gbind m f) P = gwp m (\<lambda>x. gwp (f x) P)"
  by (cases m) auto

lemma gwp_fail_as [wp_simps]: "gwp (gfail_as m e) P = gwp m P"
  by (cases m) auto

lemma gwp_if [wp_simps]: "gwp (if c then a else b) P = ((c \<longrightarrow> gwp a P) \<and> (\<not> c \<longrightarrow> gwp b P))"
  by simp

lemma gwp_mono: "gwp m P \<Longrightarrow> (\<And>x. P x \<Longrightarrow> Q x) \<Longrightarrow> gwp m Q"
  by (cases m) auto

lemma gwp_Ret: "gwp m P \<Longrightarrow> m = Ret x \<Longrightarrow> P x"
  by simp

lemma gwp_not_Panic: "gwp m P \<Longrightarrow> m \<noteq> Panic"
  by auto

lemma gwp_conj: "gwp m P \<Longrightarrow> gwp m Q \<Longrightarrow> gwp m (\<lambda>x. P x \<and> Q x)"
  by (cases m) auto

lemma gwp_try:
  "gwp m Q \<Longrightarrow> (\<And>x. m = Ret x \<Longrightarrow> Q x \<Longrightarrow> gwp (f x) P) \<Longrightarrow> (\<And>e. m = Fail e \<Longrightarrow> gwp (h e) P) \<Longrightarrow> gwp (gtry m h f) P"
  by (cases m) auto

lemma gwp_bindI: "gwp m Q \<Longrightarrow> (\<And>x. m = Ret x \<Longrightarrow> Q x \<Longrightarrow> gwp (f x) P) \<Longrightarrow> gwp (gbind m f) P"
  by (cases m) auto

text \<open>\<open>returns m P\<close>: the function returns, without an error and without a panic.\<close>

definition returns :: "'a go \<Rightarrow> ('a \<Rightarrow> bool) \<Rightarrow> bool" where
  "returns m P \<longleftrightarrow> (\<exists>x. m = Ret x \<and> P x)"

lemma returns_Ret [simp]: "returns (Ret x) P = P x"
  by (simp add: returns_def)

lemma returns_mono: "returns m P \<Longrightarrow> (\<And>x. P x \<Longrightarrow> Q x) \<Longrightarrow> returns m Q"
  by (auto simp: returns_def)

lemma returns_bind: "returns m Q \<Longrightarrow> (\<And>x. m = Ret x \<Longrightarrow> Q x \<Longrightarrow> returns (f x) P) \<Longrightarrow> returns (gbind m f) P"
  by (auto simp: returns_def)

lemma returns_try:
  "gwp m Q \<Longrightarrow> (\<And>x. m = Ret x \<Longrightarrow> Q x \<Longrightarrow> returns (f x) P) \<Longrightarrow> (\<And>e. m = Fail e \<Longrightarrow> returns (h e) P)
   \<Longrightarrow> returns (gtry m h f) P"
  by (cases m) (auto simp: returns_def)

lemma returns_bindT: "returns m (\<lambda>_. True) \<Longrightarrow> (\<And>x. returns (f x) P) \<Longrightarrow> returns (gbind m f) P"
  by (auto simp: returns_def)

lemma returns_if: "(c \<Longrightarrow> returns a P) \<Longrightarrow> (\<not> c \<Longrightarrow> returns b P) \<Longrightarrow> returns (if c then a else b) P"
  by simp

lemma gwp_True_iff: "gwp m (\<lambda>_. True) \<longleftrightarrow> m \<noteq> Panic"
  by (cases m) auto

lemma gwpI: "m \<noteq> Panic \<Longrightarrow> (\<And>x. m = Ret x \<Longrightarrow> P x) \<Longrightarrow> gwp m P"
  by (cases m) auto

lemma gwp_const: "gwp m P \<Longrightarrow> (\<And>x. m = Ret x \<Longrightarrow> P x \<Longrightarrow> Q x) \<Longrightarrow> gwp m Q"
  by (cases m) auto

lemma gbind_eq_Ret: "gbind m f = Ret y \<longleftrightarrow> (\<exists>x. m = Ret x \<and> f x = Ret y)"
  by (cases m) auto

lemma gtry_eq_Ret:
  "gtry m h f = Ret y \<longleftrightarrow> (\<exists>x. m = Ret x \<and> f x = Ret y) \<or> (\<exists>e. m = Fail e \<and> h e = Ret y)"
  by (cases m) auto

lemma gtry_eq_Panic: "gtry m h f = Panic \<longleftrightarrow> m = Panic \<or> (\<exists>x. m = Ret x \<and> f x = Panic) \<or> (\<exists>e. m = Fail e \<and> h e = Panic)"
  by (cases m) auto

lemma gbind_eq_Panic: "gbind m f = Panic \<longleftrightarrow> m = Panic \<or> (\<exists>x. m = Ret x \<and> f x = Panic)"
  by (cases m) auto

lemma gbind_eq_Fail: "gbind m f = Fail e \<longleftrightarrow> m = Fail e \<or> (\<exists>x. m = Ret x \<and> f x = Fail e)"
  by (cases m) auto

lemma gbind_assoc: "gbind (gbind m f) g = gbind m (\<lambda>x. gbind (f x) g)"
  by (cases m) auto

section \<open>Indexing and slicing\<close>

definition gidx :: "'a list \<Rightarrow> nat \<Rightarrow> 'a go" where
  "gidx b i = (if i < length b then Ret (b ! i) else Panic)"

text \<open>\<^verbatim>\<open>b[i:j]\<close>.  Go bounds \<open>j\<close> by the capacity; the model bounds it by the length, which is stricter.\<close>

definition gslice :: "'a list \<Rightarrow> nat \<Rightarrow> nat \<Rightarrow> 'a list go" where
  "gslice b i j = (if i \<le> j \<and> j \<le> length b then Ret (take (j - i) (drop i b)) else Panic)"

definition gfrom :: "'a list \<Rightarrow> nat \<Rightarrow> 'a list go" where
  "gfrom b i = (if i \<le> length b then Ret (drop i b) else Panic)"

lemma gwp_gidx [wp_simps]: "gwp (gidx b i) P \<longleftrightarrow> i < length b \<and> P (b ! i)"
  by (auto simp: gidx_def)

lemma gwp_gslice [wp_simps]:
  "gwp (gslice b i j) P \<longleftrightarrow> i \<le> j \<and> j \<le> length b \<and> P (take (j - i) (drop i b))"
  by (auto simp: gslice_def)

lemma gwp_gfrom [wp_simps]: "gwp (gfrom b i) P \<longleftrightarrow> i \<le> length b \<and> P (drop i b)"
  by (auto simp: gfrom_def)

lemma gidx_in [simp]: "i < length b \<Longrightarrow> gidx b i = Ret (b ! i)"
  by (simp add: gidx_def)

lemma gslice_in [simp]: "i \<le> j \<Longrightarrow> j \<le> length b \<Longrightarrow> gslice b i j = Ret (take (j - i) (drop i b))"
  by (simp add: gslice_def)

lemma gfrom_in [simp]: "i \<le> length b \<Longrightarrow> gfrom b i = Ret (drop i b)"
  by (simp add: gfrom_def)

lemma gidx_eq_Ret: "gidx b i = Ret x \<longleftrightarrow> i < length b \<and> x = b ! i"
  by (auto simp: gidx_def)

lemma gslice_eq_Ret: "gslice b i j = Ret x \<longleftrightarrow> i \<le> j \<and> j \<le> length b \<and> x = take (j - i) (drop i b)"
  by (auto simp: gslice_def)

lemma gfrom_eq_Ret: "gfrom b i = Ret x \<longleftrightarrow> i \<le> length b \<and> x = drop i b"
  by (auto simp: gfrom_def)

lemma gidx_gslice_not_Fail [simp]: "gidx b i \<noteq> Fail e" "gslice b i j \<noteq> Fail e" "gfrom b i \<noteq> Fail e"
  by (auto simp: gidx_def gslice_def gfrom_def)

lemmas go_eqs = gbind_eq_Ret gidx_eq_Ret gslice_eq_Ret gfrom_eq_Ret

section \<open>Short-circuit conditions\<close>

text \<open>
  \<open>all_c [c1, c2, ...]\<close> is \<^verbatim>\<open>c1 && c2 && ...\<close> and \<open>any_c\<close> is \<^verbatim>\<open>c1 || c2 || ...\<close>, evaluated left to right:
  a later condition that would panic is not reached once the value is known.
\<close>

fun all_c :: "bool go list \<Rightarrow> bool go" where
  "all_c [] = Ret True"
| "all_c (c # cs) = gbind c (\<lambda>v. if v then all_c cs else Ret False)"

fun any_c :: "bool go list \<Rightarrow> bool go" where
  "any_c [] = Ret False"
| "any_c (c # cs) = gbind c (\<lambda>v. if v then Ret True else any_c cs)"

text \<open>Conditions on one byte and on a slice.\<close>

definition gbyte :: "bytes \<Rightarrow> nat \<Rightarrow> (byte \<Rightarrow> bool) \<Rightarrow> bool go" where
  "gbyte b i P = gbind (gidx b i) (\<lambda>x. Ret (P x))"

definition gsub :: "bytes \<Rightarrow> nat \<Rightarrow> nat \<Rightarrow> (bytes \<Rightarrow> bool) \<Rightarrow> bool go" where
  "gsub b i j P = gbind (gslice b i j) (\<lambda>x. Ret (P x))"

lemma gwp_gbyte [wp_simps]: "gwp (gbyte b i P) Q \<longleftrightarrow> i < length b \<and> Q (P (b ! i))"
  by (simp add: gbyte_def wp_simps)

lemma gwp_gsub [wp_simps]:
  "gwp (gsub b i j P) Q \<longleftrightarrow> i \<le> j \<and> j \<le> length b \<and> Q (P (take (j - i) (drop i b)))"
  by (simp add: gsub_def wp_simps)

section \<open>Byte order\<close>

definition be_val :: "bytes \<Rightarrow> nat" where
  "be_val bs = foldl (\<lambda>acc b. acc * 256 + unat b) 0 bs"

lemma be_val_Nil [simp]: "be_val [] = 0"
  by (simp add: be_val_def)

lemma be_val_snoc [simp]: "be_val (bs @ [b]) = be_val bs * 256 + unat b"
  by (simp add: be_val_def)

lemma unat_byte_less [simp]: "unat (b :: byte) < 256"
  using unsigned_less [of b, where ?'a = nat] by simp

lemma unat_byte_le [simp]: "unat (b :: byte) \<le> 255"
  using unat_byte_less [of b] by linarith

lemma be_val_less: "be_val bs < 256 ^ length bs"
proof (induction bs rule: rev_induct)
  case Nil
  then show ?case by simp
next
  case (snoc b bs)
  have "be_val bs * 256 + unat b < (be_val bs + 1) * 256"
    using unat_byte_less [of b] by simp
  also have "\<dots> \<le> 256 ^ length bs * 256"
    using snoc by (intro mult_le_mono1) simp
  finally show ?case by simp
qed

text \<open>\<^verbatim>\<open>binary.BigEndian.Uint16\<close> and its kin read the first bytes of the slice they are given.\<close>

definition be16 :: "bytes \<Rightarrow> u16 go" where
  "be16 b = gbind (gslice b 0 2) (\<lambda>x. Ret (of_nat (be_val x)))"

definition be32 :: "bytes \<Rightarrow> u32 go" where
  "be32 b = gbind (gslice b 0 4) (\<lambda>x. Ret (of_nat (be_val x)))"

definition le16 :: "bytes \<Rightarrow> u16 go" where
  "le16 b = gbind (gslice b 0 2) (\<lambda>x. Ret (of_nat (be_val (rev x))))"

definition le32 :: "bytes \<Rightarrow> u32 go" where
  "le32 b = gbind (gslice b 0 4) (\<lambda>x. Ret (of_nat (be_val (rev x))))"

text \<open>The same on a sub-slice: \<^verbatim>\<open>binary.BigEndian.Uint16(b[i:i+2])\<close>.\<close>

definition be16_at :: "bytes \<Rightarrow> nat \<Rightarrow> u16 go" where
  "be16_at b i = gbind (gfrom b i) be16"

definition be32_at :: "bytes \<Rightarrow> nat \<Rightarrow> u32 go" where
  "be32_at b i = gbind (gfrom b i) be32"

definition le16_at :: "bytes \<Rightarrow> nat \<Rightarrow> u16 go" where
  "le16_at b i = gbind (gfrom b i) le16"

definition le32_at :: "bytes \<Rightarrow> nat \<Rightarrow> u32 go" where
  "le32_at b i = gbind (gfrom b i) le32"

text \<open>\<^verbatim>\<open>int(b[i])<<16 | int(b[i+1])<<8 | int(b[i+2])\<close>: the three parts share no bit.\<close>

definition be24 :: "bytes \<Rightarrow> nat \<Rightarrow> nat go" where
  "be24 b i = gbind (gidx b i) (\<lambda>x. gbind (gidx b (i + 1)) (\<lambda>y. gbind (gidx b (i + 2)) (\<lambda>z.
     Ret (unat x * 65536 + unat y * 256 + unat z))))"

lemma gwp_be24 [wp_simps]: "gwp (be24 b i) P \<longleftrightarrow> i + 2 < length b
    \<and> P (unat (b ! i) * 65536 + unat (b ! (i + 1)) * 256 + unat (b ! (i + 2)))"
  by (auto simp: be24_def wp_simps)

lemma be24_in: "i + 2 < length b \<Longrightarrow>
    be24 b i = Ret (unat (b ! i) * 65536 + unat (b ! (i + 1)) * 256 + unat (b ! (i + 2)))"
  by (simp add: be24_def)

lemma gwp_be16 [wp_simps]: "gwp (be16 b) P \<longleftrightarrow> 2 \<le> length b \<and> P (of_nat (be_val (take 2 b)))"
  by (simp add: be16_def wp_simps)

lemma gwp_be32 [wp_simps]: "gwp (be32 b) P \<longleftrightarrow> 4 \<le> length b \<and> P (of_nat (be_val (take 4 b)))"
  by (simp add: be32_def wp_simps)

lemma gwp_le16 [wp_simps]: "gwp (le16 b) P \<longleftrightarrow> 2 \<le> length b \<and> P (of_nat (be_val (rev (take 2 b))))"
  by (simp add: le16_def wp_simps)

lemma gwp_le32 [wp_simps]: "gwp (le32 b) P \<longleftrightarrow> 4 \<le> length b \<and> P (of_nat (be_val (rev (take 4 b))))"
  by (simp add: le32_def wp_simps)

lemma gwp_be16_at [wp_simps]:
  "gwp (be16_at b i) P \<longleftrightarrow> i + 2 \<le> length b \<and> P (of_nat (be_val (take 2 (drop i b))))"
  by (auto simp: be16_at_def wp_simps)

lemma gwp_be32_at [wp_simps]:
  "gwp (be32_at b i) P \<longleftrightarrow> i + 4 \<le> length b \<and> P (of_nat (be_val (take 4 (drop i b))))"
  by (auto simp: be32_at_def wp_simps)

lemma gwp_le16_at [wp_simps]:
  "gwp (le16_at b i) P \<longleftrightarrow> i + 2 \<le> length b \<and> P (of_nat (be_val (rev (take 2 (drop i b)))))"
  by (auto simp: le16_at_def wp_simps)

lemma gwp_le32_at [wp_simps]:
  "gwp (le32_at b i) P \<longleftrightarrow> i + 4 \<le> length b \<and> P (of_nat (be_val (rev (take 4 (drop i b)))))"
  by (auto simp: le32_at_def wp_simps)

lemma be16_in: "2 \<le> length b \<Longrightarrow> be16 b = Ret (of_nat (be_val (take 2 b)))"
  by (simp add: be16_def)

lemma be16_at_in: "i + 2 \<le> length b \<Longrightarrow> be16_at b i = Ret (of_nat (be_val (take 2 (drop i b))))"
  by (simp add: be16_at_def be16_in)

lemma be_val_take2_less: "be_val (take 2 b) < 65536"
proof -
  have "be_val (take 2 b) < 256 ^ length (take 2 b)" by (rule be_val_less)
  also have "\<dots> \<le> 256 ^ 2" by (rule power_increasing) auto
  finally show ?thesis by simp
qed

lemma unat_u16_be [simp]: "unat (of_nat (be_val (take 2 b)) :: u16) = be_val (take 2 b)"
  using be_val_take2_less [of b] by (simp add: unat_of_nat)

text \<open>The same conditions for \<open>returns\<close>: none of these readers fails.\<close>

lemma returns_gbind [ret_simps]: "returns (gbind m f) P = returns m (\<lambda>x. returns (f x) P)"
  by (cases m) (auto simp: returns_def)

lemma returns_gidx [ret_simps]: "returns (gidx b i) P \<longleftrightarrow> i < length b \<and> P (b ! i)"
  by (auto simp: gidx_def returns_def)

lemma returns_gslice [ret_simps]: "returns (gslice b i j) P \<longleftrightarrow> i \<le> j \<and> j \<le> length b \<and> P (take (j - i) (drop i b))"
  by (auto simp: gslice_def returns_def)

lemma returns_gfrom [ret_simps]: "returns (gfrom b i) P \<longleftrightarrow> i \<le> length b \<and> P (drop i b)"
  by (auto simp: gfrom_def returns_def)

lemma returns_gbyte [ret_simps]: "returns (gbyte b i Q) P \<longleftrightarrow> i < length b \<and> P (Q (b ! i))"
  by (simp add: gbyte_def ret_simps)

lemma returns_gsub [ret_simps]:
  "returns (gsub b i j Q) P \<longleftrightarrow> i \<le> j \<and> j \<le> length b \<and> P (Q (take (j - i) (drop i b)))"
  by (simp add: gsub_def ret_simps)

lemma returns_be16 [ret_simps]: "returns (be16 b) P \<longleftrightarrow> 2 \<le> length b \<and> P (of_nat (be_val (take 2 b)))"
  by (simp add: be16_def ret_simps)

lemma returns_be32 [ret_simps]: "returns (be32 b) P \<longleftrightarrow> 4 \<le> length b \<and> P (of_nat (be_val (take 4 b)))"
  by (simp add: be32_def ret_simps)

lemma returns_all_c [ret_simps]:
  "returns (all_c []) P = P True"
  "returns (all_c (c # cs)) P = returns c (\<lambda>v. (v \<longrightarrow> returns (all_c cs) P) \<and> (\<not> v \<longrightarrow> P False))"
  by (auto simp: ret_simps intro!: arg_cong [of _ _ "returns c"] ext)

lemma returns_any_c [ret_simps]:
  "returns (any_c []) P = P False"
  "returns (any_c (c # cs)) P = returns c (\<lambda>v. (v \<longrightarrow> P True) \<and> (\<not> v \<longrightarrow> returns (any_c cs) P))"
  by (auto simp: ret_simps intro!: arg_cong [of _ _ "returns c"] ext)

lemma returns_cond [ret_simps]: "returns (if c then a else b) P = ((c \<longrightarrow> returns a P) \<and> (\<not> c \<longrightarrow> returns b P))"
  by simp

section \<open>More bytes\<close>

text \<open>
  \<open>stable P m m'\<close>: a result of \<open>m\<close> that satisfies \<open>P\<close> is also the result of \<open>m'\<close>.  With \<open>m\<close> a parser on
  \<open>b\<close> and \<open>m'\<close> the same parser on \<open>b @ c\<close>, the rules follow the code: a reader keeps what it read, and a test
  that asks for more bytes can only turn false.
\<close>

definition stable :: "('a \<Rightarrow> bool) \<Rightarrow> 'a go \<Rightarrow> 'a go \<Rightarrow> bool" where
  "stable P m m' \<longleftrightarrow> (\<forall>x. m = Ret x \<longrightarrow> P x \<longrightarrow> m' = Ret x)"

abbreviation keeps :: "'a go \<Rightarrow> 'a go \<Rightarrow> bool" where
  "keeps \<equiv> stable (\<lambda>_. True)"

named_theorems stable_intros "introduction rules for stable"

lemma stableD: "stable P m m' \<Longrightarrow> m = Ret x \<Longrightarrow> P x \<Longrightarrow> m' = Ret x"
  by (simp add: stable_def)

lemma stable_refl [stable_intros]: "stable P m m"
  by (simp add: stable_def)

lemma stable_bind [stable_intros]:
  "keeps m m' \<Longrightarrow> (\<And>x. m = Ret x \<Longrightarrow> stable P (f x) (f' x)) \<Longrightarrow> stable P (gbind m f) (gbind m' f')"
  by (auto simp: stable_def gbind_eq_Ret)

lemma stable_if [stable_intros]:
  "(c \<Longrightarrow> stable P a a') \<Longrightarrow> (\<not> c \<Longrightarrow> stable P b b') \<Longrightarrow> stable P (if c then a else b) (if c then a' else b')"
  by simp

lemma stable_short [stable_intros]:
  "(\<not> length x < n \<Longrightarrow> stable P b b')
   \<Longrightarrow> \<forall>r. a = Ret r \<longrightarrow> \<not> P r
   \<Longrightarrow> stable P (if length x < n then a else b) (if length (x @ y) < n then a' else b')"
  by (auto simp: stable_def)

lemma keeps_gidx [stable_intros]: "keeps (gidx b i) (gidx (b @ c) i)"
  by (auto simp: stable_def gidx_def nth_append)

lemma keeps_gslice [stable_intros]: "keeps (gslice b i j) (gslice (b @ c) i j)"
  by (auto simp: stable_def gslice_def)

lemma keeps_gbyte [stable_intros]: "keeps (gbyte b i P) (gbyte (b @ c) i P)"
  unfolding gbyte_def by (intro stable_intros)

lemma keeps_any_c [stable_intros]: "keeps (any_c []) (any_c [])"
  "keeps x x' \<Longrightarrow> keeps (any_c xs) (any_c xs') \<Longrightarrow> keeps (any_c (x # xs)) (any_c (x' # xs'))"
  by (auto simp: stable_def gbind_eq_Ret)

section \<open>Sequences\<close>

text \<open>\<^verbatim>\<open>bytes.HasPrefix(b, p)\<close> and \<^verbatim>\<open>bytes.HasSuffix(b, s)\<close>.\<close>

fun has_prefix :: "'a list \<Rightarrow> 'a list \<Rightarrow> bool" where
  "has_prefix b [] = True"
| "has_prefix [] (p # ps) = False"
| "has_prefix (x # b) (p # ps) = (x = p \<and> has_prefix b ps)"

definition has_suffix :: "'a list \<Rightarrow> 'a list \<Rightarrow> bool" where
  "has_suffix b s = has_prefix (rev b) (rev s)"

text \<open>\<^verbatim>\<open>bytes.Index(b, p)\<close>: \<open>None\<close> is -1.  \<^verbatim>\<open>bytes.IndexByte\<close> is the case of one byte.\<close>

fun index_of :: "'a list \<Rightarrow> 'a list \<Rightarrow> nat option" where
  "index_of [] p = (if p = [] then Some 0 else None)"
| "index_of (x # b) p = (if has_prefix (x # b) p then Some 0 else map_option Suc (index_of b p))"

definition index_byte :: "bytes \<Rightarrow> byte \<Rightarrow> nat option" where
  "index_byte b c = index_of b [c]"

definition contains :: "'a list \<Rightarrow> 'a list \<Rightarrow> bool" where
  "contains b p = (index_of b p \<noteq> None)"

text \<open>\<^verbatim>\<open>bytes.Cut(b, sep)\<close>.\<close>

definition cut :: "'a list \<Rightarrow> 'a list \<Rightarrow> 'a list \<times> 'a list \<times> bool" where
  "cut b sep = (case index_of b sep of None \<Rightarrow> (b, [], False)
     | Some i \<Rightarrow> (take i b, drop (i + length sep) b, True))"

lemma has_prefix_iff: "has_prefix b p \<longleftrightarrow> (\<exists>r. b = p @ r)"
  by (induction b p rule: has_prefix.induct) auto

lemma has_prefix_append [simp]: "has_prefix (p @ r) p"
  by (simp add: has_prefix_iff)

lemma has_prefix_take: "has_prefix b p \<Longrightarrow> take (length p) b = p"
  by (auto simp: has_prefix_iff)

lemma has_prefix_length: "has_prefix b p \<Longrightarrow> length p \<le> length b"
  by (auto simp: has_prefix_iff)

lemma has_prefix_mono: "has_prefix b p \<Longrightarrow> has_prefix (b @ c) p"
  by (auto simp: has_prefix_iff)

lemma has_prefix_long: "length p \<le> length b \<Longrightarrow> has_prefix (b @ c) p = has_prefix b p"
  by (auto simp: has_prefix_iff append_eq_append_conv2)

lemma index_of_Some:
  assumes "index_of b p = Some i"
  shows "i + length p \<le> length b" and "has_prefix (drop i b) p"
proof -
  have "i + length p \<le> length b \<and> has_prefix (drop i b) p"
    using assms
  proof (induction b arbitrary: i)
    case Nil
    then show ?case by (simp split: if_splits)
  next
    case (Cons x b)
    show ?case
    proof (cases "has_prefix (x # b) p")
      case True
      then have "length p \<le> Suc (length b)" using has_prefix_length by fastforce
      then show ?thesis using Cons.prems True by simp
    next
      case False
      then show ?thesis using Cons by auto
    qed
  qed
  then show "i + length p \<le> length b" "has_prefix (drop i b) p" by auto
qed

lemma index_of_append:
  assumes "index_of b p = Some i"
  shows "index_of (b @ c) p = Some i"
  using assms
proof (induction b arbitrary: i)
  case Nil
  then show ?case by (cases c) (auto split: if_splits)
next
  case (Cons x b)
  show ?case
  proof (cases "has_prefix (x # b) p")
    case True
    then have "has_prefix (x # b @ c) p" using has_prefix_mono [of "x # b" p c] by simp
    then show ?thesis using Cons.prems True by simp
  next
    case False
    from Cons.prems False obtain j where j: "index_of b p = Some j" "i = Suc j" by auto
    have "j + length p \<le> length b" by (rule index_of_Some [OF j(1)])
    then have "has_prefix ((x # b) @ c) p = has_prefix (x # b) p"
      by (intro has_prefix_long) simp
    then have "\<not> has_prefix (x # b @ c) p" using False by simp
    then show ?thesis using Cons.IH [OF j(1)] j(2) by simp
  qed
qed

end
