(* ===== verification/GoText.thy ===== *)
theory GoText imports Prelude begin

text \<open>
  The text functions of Go's standard library that the program calls: \<^verbatim>\<open>strings\<close> and \<^verbatim>\<open>bytes\<close>
  trimming, splitting and case mapping, \<^verbatim>\<open>strconv.ParseUint\<close>, the decimal and hexadecimal verbs of
  \<^verbatim>\<open>fmt\<close>, and the address types of \<^verbatim>\<open>net/netip\<close> with their parser and printer.  Nothing here models
  a line of the repository; the components call these definitions by their Go names.

  Case mapping follows the library's own split: a text of ASCII bytes is mapped byte by byte, any
  other text is decoded as UTF-8 and goes through the Unicode tables, which are the parameter \<open>uni\<close>.
\<close>

section \<open>White space\<close>

definition ascii_space :: "byte \<Rightarrow> bool" where
  "ascii_space x \<longleftrightarrow> x = 32 \<or> (9 \<le> x \<and> x \<le> 13)"

text \<open>The UTF-8 encodings of the characters above ASCII for which \<^verbatim>\<open>unicode.IsSpace\<close> holds.\<close>

definition wide_spaces :: "bytes list" where
  "wide_spaces = [[0xC2, 0x85], [0xC2, 0xA0], [0xE1, 0x9A, 0x80],
     [0xE2, 0x80, 0x80], [0xE2, 0x80, 0x81], [0xE2, 0x80, 0x82], [0xE2, 0x80, 0x83],
     [0xE2, 0x80, 0x84], [0xE2, 0x80, 0x85], [0xE2, 0x80, 0x86], [0xE2, 0x80, 0x87],
     [0xE2, 0x80, 0x88], [0xE2, 0x80, 0x89], [0xE2, 0x80, 0x8A], [0xE2, 0x80, 0xA8],
     [0xE2, 0x80, 0xA9], [0xE2, 0x80, 0xAF], [0xE2, 0x81, 0x9F], [0xE3, 0x80, 0x80]]"

text \<open>The number of bytes of the space character that starts the text, 0 when there is none.\<close>

fun space_width :: "bytes \<Rightarrow> nat" where
  "space_width [] = 0"
| "space_width (x # b) = (if x < 128 then (if ascii_space x then 1 else 0)
     else (case find (has_prefix (x # b)) wide_spaces of None \<Rightarrow> 0 | Some s \<Rightarrow> length s))"

lemma space_width_le: "space_width b \<le> length b"
proof (cases b)
  case (Cons x r)
  show ?thesis
  proof (cases "find (has_prefix (x # r)) wide_spaces")
    case (Some s)
    then have "has_prefix (x # r) s" by (auto simp: find_Some_iff)
    then have "length s \<le> length (x # r)" by (rule has_prefix_length)
    then show ?thesis using Some Cons by simp
  qed (simp add: Cons)
qed simp

function trim_left :: "bytes \<Rightarrow> bytes" where
  "trim_left b = (if space_width b = 0 then b else trim_left (drop (space_width b) b))"
  by pat_completeness auto
termination
proof (relation "measure length", goal_cases)
  case (2 b)
  then show ?case using space_width_le [of b] by simp
qed simp

declare trim_left.simps [simp del]

fun space_width_end :: "bytes \<Rightarrow> nat" where
  "space_width_end [] = 0"
| "space_width_end (x # r) = (if x < 128 then (if ascii_space x then 1 else 0)
     else (case find (\<lambda>s. has_prefix (x # r) (rev s)) wide_spaces of None \<Rightarrow> 0 | Some s \<Rightarrow> length s))"

lemma space_width_end_le: "space_width_end b \<le> length b"
proof (cases b)
  case (Cons x r)
  show ?thesis
  proof (cases "find (\<lambda>s. has_prefix (x # r) (rev s)) wide_spaces")
    case (Some s)
    then have "has_prefix (x # r) (rev s)" by (auto simp: find_Some_iff)
    then have "length (rev s) \<le> length (x # r)" by (rule has_prefix_length)
    then show ?thesis using Some Cons by simp
  qed (simp add: Cons)
qed simp

text \<open>\<open>trim_right_rev\<close> works on the reversed text.\<close>

function trim_right_rev :: "bytes \<Rightarrow> bytes" where
  "trim_right_rev b = (if space_width_end b = 0 then b else trim_right_rev (drop (space_width_end b) b))"
  by pat_completeness auto
termination
proof (relation "measure length", goal_cases)
  case (2 b)
  then show ?case using space_width_end_le [of b] by simp
qed simp

declare trim_right_rev.simps [simp del]

text \<open>\<^verbatim>\<open>strings.TrimSpace\<close> and \<^verbatim>\<open>bytes.TrimSpace\<close>.\<close>

definition trim_space :: "bytes \<Rightarrow> bytes" where
  "trim_space b = rev (trim_right_rev (rev (trim_left b)))"

text \<open>\<^verbatim>\<open>strings.Fields\<close> and \<^verbatim>\<open>bytes.Fields\<close>; \<open>cur\<close> is the current field, reversed.\<close>

function text_fields_from :: "bytes \<Rightarrow> bytes \<Rightarrow> bytes list" where
  "text_fields_from cur [] = (if cur = [] then [] else [rev cur])"
| "text_fields_from cur (x # b) = (let w = space_width (x # b) in
     if w = 0 then text_fields_from (x # cur) b
     else (if cur = [] then [] else [rev cur]) @ text_fields_from [] (drop w (x # b)))"
  by pat_completeness auto
termination
proof (relation "measure (\<lambda>(cur, b). length b)", goal_cases)
  case (3 cur x b w)
  then show ?case using space_width_le [of "x # b"] by simp
qed auto

definition text_fields :: "bytes \<Rightarrow> bytes list" where
  "text_fields b = text_fields_from [] b"

text \<open>\<^verbatim>\<open>bytes.Split(b, sep)\<close> for a separator that is not empty.\<close>

function split_on :: "bytes \<Rightarrow> bytes \<Rightarrow> bytes list" where
  "split_on b sep = (case (if sep = [] then None else index_of b sep) of None \<Rightarrow> [b]
     | Some i \<Rightarrow> take i b # split_on (drop (i + length sep) b) sep)"
  by pat_completeness auto
termination
proof (relation "measure (\<lambda>(b, sep). length b)", goal_cases)
  case (2 b sep i)
  then have i: "index_of b sep = Some i" "sep \<noteq> []" by (auto split: if_splits)
  have "i + length sep \<le> length b" by (rule index_of_Some [OF i(1)])
  then show ?case using i(2) by (cases sep) auto
qed simp

declare split_on.simps [simp del]

section \<open>Case\<close>

definition up_byte :: "byte \<Rightarrow> byte" where
  "up_byte x = (if 97 \<le> x \<and> x \<le> 122 then x - 32 else x)"

definition down_byte :: "byte \<Rightarrow> byte" where
  "down_byte x = (if 65 \<le> x \<and> x \<le> 90 then x + 32 else x)"

definition is_ascii :: "bytes \<Rightarrow> bool" where
  "is_ascii b \<longleftrightarrow> (\<forall>x \<in> set b. x < 128)"

text \<open>
  \<^verbatim>\<open>utf8.DecodeRune\<close>: the first character and its width.  Bytes that are not UTF-8 are the
  replacement character with width 1.
\<close>

definition rune_error :: nat where
  "rune_error = 0xFFFD"

definition cont_byte :: "nat \<Rightarrow> bool" where
  "cont_byte x \<longleftrightarrow> 0x80 \<le> x \<and> x \<le> 0xBF"

definition decode_rune :: "bytes \<Rightarrow> nat \<times> nat" where
  "decode_rune b = (let n = map unat (take 4 b) in case n of
     [] \<Rightarrow> (rune_error, 0)
   | x # r \<Rightarrow>
     if x < 0x80 then (x, 1)
     else if 0xC2 \<le> x \<and> x \<le> 0xDF then
       (case r of y # _ \<Rightarrow> if cont_byte y then ((x - 0xC0) * 64 + (y - 0x80), 2) else (rune_error, 1) | _ \<Rightarrow> (rune_error, 1))
     else if 0xE0 \<le> x \<and> x \<le> 0xEF then
       (case r of y # z # _ \<Rightarrow>
          if (if x = 0xE0 then 0xA0 \<le> y \<and> y \<le> 0xBF else if x = 0xED then 0x80 \<le> y \<and> y \<le> 0x9F else cont_byte y)
            \<and> cont_byte z
          then ((x - 0xE0) * 4096 + (y - 0x80) * 64 + (z - 0x80), 3) else (rune_error, 1)
        | _ \<Rightarrow> (rune_error, 1))
     else if 0xF0 \<le> x \<and> x \<le> 0xF4 then
       (case r of y # z # w # _ \<Rightarrow>
          if (if x = 0xF0 then 0x90 \<le> y \<and> y \<le> 0xBF else if x = 0xF4 then 0x80 \<le> y \<and> y \<le> 0x8F else cont_byte y)
            \<and> cont_byte z \<and> cont_byte w
          then ((x - 0xF0) * 262144 + (y - 0x80) * 4096 + (z - 0x80) * 64 + (w - 0x80), 4) else (rune_error, 1)
        | _ \<Rightarrow> (rune_error, 1))
     else (rune_error, 1))"

text \<open>\<^verbatim>\<open>utf8.AppendRune\<close>.\<close>

definition encode_rune :: "nat \<Rightarrow> bytes" where
  "encode_rune r = map of_nat (
     if r < 0x80 then [r]
     else if r < 0x800 then [0xC0 + r div 64, 0x80 + r mod 64]
     else if 0xD800 \<le> r \<and> r \<le> 0xDFFF \<or> 0x10FFFF < r then [0xEF, 0xBF, 0xBD]
     else if r < 0x10000 then [0xE0 + r div 4096, 0x80 + r div 64 mod 64, 0x80 + r mod 64]
     else [0xF0 + r div 262144, 0x80 + r div 4096 mod 64, 0x80 + r div 64 mod 64, 0x80 + r mod 64])"

lemma decode_rune_width: "b \<noteq> [] \<Longrightarrow> 0 < snd (decode_rune b)"
  by (cases b) (auto simp: decode_rune_def Let_def split: list.splits)

text \<open>\<^verbatim>\<open>strings.Map\<close> and \<^verbatim>\<open>bytes.Map\<close>: decode, map, encode.  The text may become longer.\<close>

function map_runes :: "(nat \<Rightarrow> nat) \<Rightarrow> bytes \<Rightarrow> bytes" where
  "map_runes f b = (if b = [] then [] else
     case decode_rune b of (r, w) \<Rightarrow> encode_rune (f r) @ map_runes f (drop w b))"
  by pat_completeness auto
termination
proof (relation "measure (\<lambda>(f, b). length b)", goal_cases)
  case (2 f b r w)
  then have "b \<noteq> []" "w = snd (decode_rune b)" by (simp, metis snd_conv)
  then show ?case using decode_rune_width [of b] by simp
qed simp

declare map_runes.simps [simp del]

definition to_upper :: "(nat \<Rightarrow> nat) \<Rightarrow> bytes \<Rightarrow> bytes" where
  "to_upper uni b = (if is_ascii b then map up_byte b else map_runes uni b)"

definition to_lower :: "(nat \<Rightarrow> nat) \<Rightarrow> bytes \<Rightarrow> bytes" where
  "to_lower uni b = (if is_ascii b then map down_byte b else map_runes uni b)"

text \<open>
  \<^verbatim>\<open>strings.EqualFold(s, t)\<close> for an ASCII text \<open>t\<close>.  Beside the ASCII letters, simple folding makes
  the Kelvin sign equal to k and the long s equal to s; no other character folds to ASCII.
\<close>

fun equal_fold :: "bytes \<Rightarrow> bytes \<Rightarrow> bool" where
  "equal_fold s [] = (s = [])"
| "equal_fold s (c # t) = (case s of [] \<Rightarrow> False
     | x # s' \<Rightarrow> if down_byte x = down_byte c \<and> x < 128 then equal_fold s' t
         else if down_byte c = 107 \<and> has_prefix s [0xE2, 0x84, 0xAA] then equal_fold (drop 3 s) t
         else if down_byte c = 115 \<and> has_prefix s [0xC5, 0xBF] then equal_fold (drop 2 s) t
         else False)"

definition trim_suffix :: "bytes \<Rightarrow> bytes \<Rightarrow> bytes" where
  "trim_suffix b s = (if has_suffix b s then take (length b - length s) b else b)"

definition trim_prefix :: "bytes \<Rightarrow> bytes \<Rightarrow> bytes" where
  "trim_prefix b s = (if has_prefix b s then drop (length s) b else b)"

text \<open>\<^verbatim>\<open>strings.ContainsAny(b, chars)\<close> and \<^verbatim>\<open>strings.Trim(b, cutset)\<close> for ASCII sets.\<close>

definition contains_any :: "bytes \<Rightarrow> bytes \<Rightarrow> bool" where
  "contains_any b chars \<longleftrightarrow> (\<exists>x \<in> set b. x \<in> set chars)"

definition trim_set :: "bytes \<Rightarrow> bytes \<Rightarrow> bytes" where
  "trim_set b s = rev (dropWhile (\<lambda>x. x \<in> set s) (rev (dropWhile (\<lambda>x. x \<in> set s) b)))"

fun join :: "bytes list \<Rightarrow> bytes \<Rightarrow> bytes" where
  "join [] sep = []"
| "join [x] sep = x"
| "join (x # y # xs) sep = x @ sep @ join (y # xs) sep"

section \<open>Numbers\<close>

text \<open>
  \<^verbatim>\<open>strconv.ParseUint(s, base, bits)\<close>: the first bad digit is a syntax error, the first digit that
  takes the value past \<open>2 ^ bits - 1\<close> a range error.
\<close>

definition digit_value :: "byte \<Rightarrow> nat option" where
  "digit_value c = (if 48 \<le> c \<and> c \<le> 57 then Some (unat c - 48)
     else if 97 \<le> c \<and> c \<le> 122 then Some (unat c - 87)
     else if 65 \<le> c \<and> c \<le> 90 then Some (unat c - 55) else None)"

fun parse_uint_from :: "bytes \<Rightarrow> nat \<Rightarrow> nat \<Rightarrow> nat \<Rightarrow> bytes \<Rightarrow> nat go" where
  "parse_uint_from s base bits n [] = Ret n"
| "parse_uint_from s base bits n (c # cs) = (case digit_value c of None \<Rightarrow> Fail (NumSyntax s)
     | Some d \<Rightarrow> if base \<le> d then Fail (NumSyntax s)
         else if 2 ^ bits \<le> n * base + d then Fail (NumRange s)
         else parse_uint_from s base bits (n * base + d) cs)"

definition parse_uint :: "bytes \<Rightarrow> nat \<Rightarrow> nat \<Rightarrow> nat go" where
  "parse_uint s base bits = (if s = [] then Fail (NumSyntax s) else parse_uint_from s base bits 0 s)"

lemma gwp_parse_uint_from: "n < 2 ^ bits \<Longrightarrow> gwp (parse_uint_from s base bits n cs) (\<lambda>v. v < 2 ^ bits)"
  by (induction s base bits n cs rule: parse_uint_from.induct) (auto split: option.splits)

lemma gwp_parse_uint: "gwp (parse_uint s base bits) (\<lambda>v. v < 2 ^ bits)"
  by (simp add: parse_uint_def gwp_parse_uint_from)

definition digit_char :: "nat \<Rightarrow> byte" where
  "digit_char d = (if d < 10 then of_nat (48 + d) else of_nat (87 + d))"

function num_text :: "nat \<Rightarrow> nat \<Rightarrow> bytes" where
  "num_text base n = (if n < base \<or> base < 2 then [digit_char n]
     else num_text base (n div base) @ [digit_char (n mod base)])"
  by pat_completeness auto
termination
  by (relation "measure snd") (auto intro: div_less_dividend)

declare num_text.simps [simp del]

text \<open>\<^verbatim>\<open>%d\<close>, \<^verbatim>\<open>%x\<close>, and the zero-padded \<^verbatim>\<open>%02d\<close> and \<^verbatim>\<open>%04x\<close>.\<close>

definition dec :: "nat \<Rightarrow> bytes" where
  "dec n = num_text 10 n"

definition hex :: "nat \<Rightarrow> bytes" where
  "hex n = num_text 16 n"

definition pad_zero :: "nat \<Rightarrow> bytes \<Rightarrow> bytes" where
  "pad_zero w s = replicate (w - length s) 48 @ s"

definition hex_bytes :: "bytes \<Rightarrow> bytes" where
  "hex_bytes b = concat (map (\<lambda>x. [digit_char (unat x div 16), digit_char (unat x mod 16)]) b)"

section \<open>Addresses\<close>

text \<open>\<^verbatim>\<open>netip.Addr\<close>: the zero address, four bytes, or sixteen bytes with a zone.\<close>

datatype addr = NoAddr | V4 bytes | V6 bytes bytes

type_synonym addrport = "addr \<times> u16"

definition addr_valid :: "addr \<Rightarrow> bool" where
  "addr_valid a \<longleftrightarrow> a \<noteq> NoAddr"

definition v4_prefix :: bytes where
  "v4_prefix = replicate 10 0 @ [255, 255]"

fun unmap :: "addr \<Rightarrow> addr" where
  "unmap (V6 b z) = (if has_prefix b v4_prefix then V4 (drop 12 b) else V6 b z)"
| "unmap a = a"

definition dotted :: "bytes \<Rightarrow> bytes" where
  "dotted b = join (map (\<lambda>x. dec (unat x)) b) (lit ''.'')"

fun groups :: "bytes \<Rightarrow> nat list" where
  "groups (x # y # b) = (unat x * 256 + unat y) # groups b"
| "groups b = []"

text \<open>The longest run of zero groups of \<^verbatim>\<open>Addr.appendTo6\<close>: the first of the longest, at least two.\<close>

fun zero_run :: "nat list \<Rightarrow> nat" where
  "zero_run [] = 0"
| "zero_run (g # gs) = (if g = 0 then Suc (zero_run gs) else 0)"

fun best_run :: "nat \<Rightarrow> nat list \<Rightarrow> nat \<times> nat \<Rightarrow> nat \<times> nat" where
  "best_run i [] best = best"
| "best_run i (g # gs) (s, n) = (let l = zero_run (g # gs) in
     best_run (Suc i) gs (if 2 \<le> l \<and> n < l then (i, l) else (s, n)))"

definition v6_text :: "bytes \<Rightarrow> bytes" where
  "v6_text b = (let gs = groups b; (s, n) = best_run 0 gs (0, 0); part = (\<lambda>xs. join (map hex xs) (lit '':'')) in
     if n = 0 then part gs else part (take s gs) @ lit ''::'' @ part (drop (s + n) gs))"

fun addr_text :: "addr \<Rightarrow> bytes" where
  "addr_text NoAddr = lit ''invalid IP''"
| "addr_text (V4 b) = dotted b"
| "addr_text (V6 b z) = (if has_prefix b v4_prefix then lit ''::ffff:'' @ dotted (drop 12 b) else v6_text b)
     @ (if z = [] then [] else lit ''%'' @ z)"

fun addrport_text :: "addrport \<Rightarrow> bytes" where
  "addrport_text (NoAddr, p) = lit ''invalid AddrPort''"
| "addrport_text (V4 b, p) = dotted b @ lit '':'' @ dec (unat p)"
| "addrport_text (V6 b z, p) = lit ''['' @ addr_text (V6 b z) @ lit '']:'' @ dec (unat p)"

text \<open>The digits of one IPv4 field; \<open>n\<close> is the number of digits read so far.\<close>

fun v4_fields :: "nat \<Rightarrow> nat \<Rightarrow> bytes \<Rightarrow> bytes \<Rightarrow> bytes option" where
  "v4_fields v n acc [] = (if n = 0 \<or> length acc \<noteq> 3 then None else Some (acc @ [of_nat v]))"
| "v4_fields v n acc (c # s) =
     (if 48 \<le> c \<and> c \<le> 57 then
        (if n = 1 \<and> v = 0 then None
         else let v' = v * 10 + (unat c - 48) in if 255 < v' then None else v4_fields v' (Suc n) acc s)
      else if c = 46 then (if n = 0 \<or> length acc = 3 then None else v4_fields 0 0 (acc @ [of_nat v]) s)
      else None)"

fun hex_field :: "bytes \<Rightarrow> nat \<Rightarrow> nat \<Rightarrow> (nat \<times> nat \<times> bytes) option" where
  "hex_field [] acc n = Some (acc, n, [])"
| "hex_field (c # s) acc n = (case digit_value c of
       Some d \<Rightarrow> if 16 \<le> d then Some (acc, n, c # s)
         else if 3 < n \<or> 65535 < acc * 16 + d then None else hex_field s (acc * 16 + d) (Suc n)
     | None \<Rightarrow> Some (acc, n, c # s))"

text \<open>
  The loop of \<^verbatim>\<open>parseIPv6\<close>: \<open>ip\<close> are the bytes so far, \<open>e\<close> the place of the ellipsis.  Each turn adds
  a group, so sixteen bytes end it; \<open>k\<close> counts the turns that are left.
\<close>

fun v6_loop :: "nat \<Rightarrow> bytes \<Rightarrow> nat option \<Rightarrow> bytes \<Rightarrow> (bytes \<times> nat option \<times> bytes) option" where
  "v6_loop 0 ip e s = Some (ip, e, s)"
| "v6_loop (Suc k) ip e s = (case hex_field s 0 0 of None \<Rightarrow> None
     | Some (acc, n, r) \<Rightarrow>
       if n = 0 then None
       else if r \<noteq> [] \<and> hd r = 46 then
         (if e = None \<and> length ip \<noteq> 12 \<or> 16 < length ip + 4 then None
          else case v4_fields 0 0 [] s of None \<Rightarrow> None | Some q \<Rightarrow> Some (ip @ q, e, []))
       else let ip' = ip @ [of_nat (acc div 256), of_nat (acc mod 256)] in
         (case r of [] \<Rightarrow> Some (ip', e, [])
          | c # r' \<Rightarrow> if c \<noteq> 58 \<or> r' = [] then None
              else if hd r' = 58 then
                (if e \<noteq> None then None
                 else if tl r' = [] then Some (ip', Some (length ip'), [])
                 else v6_loop k ip' (Some (length ip')) (tl r'))
              else v6_loop k ip' e r'))"

definition parse_v6 :: "bytes \<Rightarrow> addr option" where
  "parse_v6 text = (let (s, zone, has_zone) = cut text (lit ''%'');
     e = (if has_prefix s (lit ''::'') then Some 0 else None);
     s' = (if has_prefix s (lit ''::'') then drop 2 s else s) in
     if has_zone \<and> zone = [] then None
     else if e = Some 0 \<and> s' = [] then Some (V6 (replicate 16 0) zone)
     else case v6_loop 8 [] e s' of None \<Rightarrow> None
       | Some (ip, e', r) \<Rightarrow> if r \<noteq> [] then None
           else if length ip < 16 then
             (case e' of None \<Rightarrow> None
              | Some p \<Rightarrow> Some (V6 (take p ip @ replicate (16 - length ip) 0 @ drop p ip) zone))
           else if e' \<noteq> None then None else Some (V6 ip zone))"

text \<open>\<^verbatim>\<open>netip.ParseAddr\<close>: the first dot or colon decides.\<close>

definition parse_addr :: "bytes \<Rightarrow> addr option" where
  "parse_addr s = (case find (\<lambda>c. c = 46 \<or> c = 58 \<or> c = 37) s of None \<Rightarrow> None
     | Some c \<Rightarrow> if c = 46 then map_option V4 (v4_fields 0 0 [] s)
         else if c = 58 then parse_v6 s else None)"

text \<open>\<^verbatim>\<open>net.JoinHostPort\<close>, and the host of \<^verbatim>\<open>net.SplitHostPort\<close> for a text that starts with a bracket.\<close>

definition join_host_port :: "bytes \<Rightarrow> bytes \<Rightarrow> bytes" where
  "join_host_port host port = (if 58 \<in> set host then lit ''['' @ host @ lit '']:'' @ port
     else host @ lit '':'' @ port)"

definition split_bracket_host :: "bytes \<Rightarrow> bytes option" where
  "split_bracket_host s = (case index_byte s 93 of None \<Rightarrow> None
     | Some e \<Rightarrow> if e + 1 < length s \<and> s ! (e + 1) = 58 \<and> 58 \<notin> set (drop (e + 2) s)
           \<and> 91 \<notin> set (drop 1 s) \<and> 93 \<notin> set (drop (e + 1) s)
         then Some (take (e - 1) (drop 1 s)) else None)"

section \<open>What the model takes as parameters\<close>

text \<open>
  The Unicode case tables (\<^verbatim>\<open>unicode.ToUpper\<close>, \<^verbatim>\<open>unicode.ToLower\<close> on code points), \<^verbatim>\<open>strconv.Quote\<close>, SHA-256, and the HPACK decoder of
  \<^verbatim>\<open>golang.org/x/net/http2/hpack\<close>.  A decoder is identified with the list of the blocks it has decoded,
  since its dynamic table is a function of them: \<open>hpack history block\<close> is the header fields of
  \<open>block\<close> for a decoder that has decoded \<open>history\<close>, or the text of its error.
\<close>

record env =
  uni_upper :: "nat \<Rightarrow> nat"
  uni_lower :: "nat \<Rightarrow> nat"
  quote :: "bytes \<Rightarrow> bytes"
  sha256 :: "bytes \<Rightarrow> bytes"
  hpack :: "bytes list \<Rightarrow> bytes \<Rightarrow> bytes + (bytes \<times> bytes) list"

text \<open>\<^verbatim>\<open>err.Error()\<close>.\<close>

fun err_text :: "env \<Rightarrow> err \<Rightarrow> bytes" where
  "err_text \<Gamma> (Msg s) = lit s"
| "err_text \<Gamma> (MsgNum s n) = lit s @ dec n"
| "err_text \<Gamma> (MsgHex s n) = lit s @ hex n"
| "err_text \<Gamma> (NumSyntax b) = lit ''strconv.ParseUint: parsing '' @ quote \<Gamma> b @ lit '': invalid syntax''"
| "err_text \<Gamma> (NumRange b) = lit ''strconv.ParseUint: parsing '' @ quote \<Gamma> b @ lit '': value out of range''"
| "err_text \<Gamma> (Wrapped s e) = lit s @ err_text \<Gamma> e"
| "err_text \<Gamma> (External b) = b"

end
