(* ===== verification/Names.thy ===== *)
theory Names imports GoText begin

text \<open>
  The name and request-line checks every parser of \<^verbatim>\<open>internal/domain\<close> shares: which bytes may be a host
  name, how a name is normalised, how a Host header becomes a destination, and when the start of a
  byte stream looks like an HTTP/1 request (\<^verbatim>\<open>stream.go\<close>, \<^verbatim>\<open>tls.go\<close>, \<^verbatim>\<open>http.go\<close>).

  The lemmas show which texts can come out: a name that passed \<open>valid_hostname\<close> and was normalised is
  printable, so it cannot carry a terminal control sequence.
\<close>

definition valid_hostname :: "bytes \<Rightarrow> bool" where
  "valid_hostname name \<longleftrightarrow> name \<noteq> [] \<and> length name \<le> 253 \<and>
     (\<forall>b \<in> set name. \<not> (b < 33 \<or> b > 126 \<or> b = 47 \<or> b = 58 \<or> b = 92))"

definition printable :: "bytes \<Rightarrow> bool" where
  "printable b \<longleftrightarrow> (\<forall>c \<in> set b. \<not> (c < 33 \<or> c > 126))"

definition normalize_name :: "env \<Rightarrow> bytes \<Rightarrow> bytes" where
  "normalize_name \<Gamma> name = to_lower (uni_lower \<Gamma>) (trim_suffix (trim_space name) (lit ''.''))"

definition normalize_http_host :: "env \<Rightarrow> bytes \<Rightarrow> bytes" where
  "normalize_http_host \<Gamma> value0 = (let value = trim_space value0 in
     if value = [] \<or> contains_any value (lit ''/'' @ [92] @ lit ''@ '' @ [9, 13, 10]) then []
     else let host =
       (if has_prefix value (lit ''['') then
          (case split_bracket_host value of Some h \<Rightarrow> h | None \<Rightarrow> trim_set value (lit ''[]''))
        else (case cut value (lit '':'') of (h, port, ok) \<Rightarrow>
          if ok then (case parse_uint port 10 16 of Ret n \<Rightarrow> h | _ \<Rightarrow> value) else value)) in
     (case parse_addr host of Some a \<Rightarrow> addr_text a
      | None \<Rightarrow> if valid_hostname host then normalize_name \<Gamma> host else []))"

definition http_methods :: "bytes list" where
  "http_methods = map lit [''GET'', ''HEAD'', ''POST'', ''PUT'', ''DELETE'', ''OPTIONS'', ''PATCH'', ''TRACE'', ''CONNECT'']"

definition http_line_end :: "bytes \<Rightarrow> bool" where
  "http_line_end line \<longleftrightarrow> has_suffix line (lit '' HTTP/1.1'') \<or> has_suffix line (lit '' HTTP/1.0'')"

definition crlf :: bytes where
  "crlf = [13, 10]"

definition looks_like_http :: "bytes \<Rightarrow> bool go" where
  "looks_like_http data = (case index_byte data 32 of None \<Rightarrow> Ret False
     | Some space \<Rightarrow>
       if space < 3 \<or> space > 10 then Ret False
       else gbind (gslice data 0 space) (\<lambda>method.
         if method \<notin> set http_methods then Ret False
         else if space + 1 = length data then Ret False
         else gbind (gidx data (space + 1)) (\<lambda>t.
           if t \<noteq> 47 \<and> t \<noteq> 42 \<and> t \<noteq> 91 \<and> \<not> (97 \<le> t \<and> t \<le> 122 \<or> 65 \<le> t \<and> t \<le> 90 \<or> 48 \<le> t \<and> t \<le> 57)
           then Ret False
           else case cut data crlf of (line, rest, complete) \<Rightarrow>
             if complete then Ret (http_line_end line) else Ret True)))"

section \<open>What a name can hold\<close>

lemma valid_hostname_printable: "valid_hostname b \<Longrightarrow> printable b"
  by (auto simp: valid_hostname_def printable_def)

lemma printable_ascii: "printable b \<Longrightarrow> is_ascii b"
  by (auto simp: printable_def is_ascii_def word_less_nat_alt word_le_nat_alt not_less)

lemma set_trim_left: "set (trim_left b) \<subseteq> set b"
proof (induction b rule: trim_left.induct)
  case (1 b)
  show ?case
  proof (cases "space_width b = 0")
    case False
    then have "set (trim_left (drop (space_width b) b)) \<subseteq> set (drop (space_width b) b)" by (rule 1)
    also have "\<dots> \<subseteq> set b" by (rule set_drop_subset)
    finally show ?thesis using False by (subst trim_left.simps) simp
  qed (subst trim_left.simps, simp)
qed

lemma set_trim_right_rev: "set (trim_right_rev b) \<subseteq> set b"
proof (induction b rule: trim_right_rev.induct)
  case (1 b)
  show ?case
  proof (cases "space_width_end b = 0")
    case False
    then have "set (trim_right_rev (drop (space_width_end b) b)) \<subseteq> set (drop (space_width_end b) b)" by (rule 1)
    also have "\<dots> \<subseteq> set b" by (rule set_drop_subset)
    finally show ?thesis using False by (subst trim_right_rev.simps) simp
  qed (subst trim_right_rev.simps, simp)
qed

lemma set_trim_space: "set (trim_space b) \<subseteq> set b"
  using set_trim_left [of b] set_trim_right_rev [of "rev (trim_left b)"] by (auto simp: trim_space_def)

lemma set_trim_suffix: "set (trim_suffix b s) \<subseteq> set b"
  by (auto simp: trim_suffix_def dest: in_set_takeD)

lemma printable_subset: "printable b \<Longrightarrow> set c \<subseteq> set b \<Longrightarrow> printable c"
  by (auto simp: printable_def)

lemma down_byte_printable: "\<not> (c < 33 \<or> c > 126) \<Longrightarrow> \<not> (down_byte c < 33 \<or> down_byte c > 126)"
  by (auto simp: down_byte_def word_less_nat_alt word_le_nat_alt unat_word_ariths)

lemma printable_map_down: "printable b \<Longrightarrow> printable (map down_byte b)"
  using down_byte_printable by (auto simp: printable_def)

lemma normalize_name_printable:
  assumes "printable b"
  shows "printable (normalize_name \<Gamma> b)"
proof -
  let ?t = "trim_suffix (trim_space b) (lit ''.'')"
  have "set ?t \<subseteq> set b" using set_trim_suffix set_trim_space by (rule subset_trans)
  with assms have p: "printable ?t" by (rule printable_subset)
  then have "to_lower (uni_lower \<Gamma>) ?t = map down_byte ?t"
    by (simp add: to_lower_def printable_ascii)
  then show ?thesis using p by (simp add: normalize_name_def printable_map_down)
qed

lemma valid_hostname_normal_printable: "valid_hostname b \<Longrightarrow> printable (normalize_name \<Gamma> b)"
  by (intro normalize_name_printable valid_hostname_printable)

lemma gwp_looks_like_http [wp_simps]: "gwp (looks_like_http d) P \<longleftrightarrow> P (looks_like_http d = Ret True)"
proof (cases "index_byte d 32")
  case None
  then show ?thesis by (simp add: looks_like_http_def)
next
  case (Some i)
  then have "i + 1 \<le> length d" using index_of_Some(1) [of d "[32]" i] by (simp add: index_byte_def)
  then show ?thesis using Some by (auto simp: looks_like_http_def split: prod.splits)
qed

lemma looks_like_http_total: "\<exists>v. looks_like_http d = Ret v"
proof (cases "index_byte d 32")
  case None
  then have "looks_like_http d = Ret False" by (simp add: looks_like_http_def)
  then show ?thesis by blast
next
  case (Some i)
  then have i: "i + 1 \<le> length d" using index_of_Some(1) [of d "[32]" i] by (simp add: index_byte_def)
  obtain l r f where c: "cut d crlf = (l, r, f)" by (metis prod_cases3)
  have "returns (looks_like_http d) (\<lambda>_. True)"
    unfolding looks_like_http_def Some option.case c
    by (intro returns_if returns_bindT) (use i in simp_all)
  then show ?thesis by (auto simp: returns_def)
qed

text \<open>The zone of an IPv6 literal is not checked: its bytes are returned as they are.\<close>

definition bad_zone :: bytes where
  "bad_zone = lit ''::%'' @ [27] @ lit ''[31m''"

lemma addr_text_zone: "addr_text (V6 (replicate 16 0) z) = lit ''::'' @ (if z = [] then [] else lit ''%'' @ z)"
proof -
  have "has_prefix (replicate 16 0 :: bytes) v4_prefix = False" "v6_text (replicate 16 0) = lit ''::''" by code_simp+
  then show ?thesis by (simp only: addr_text.simps if_False)
qed

lemma bad_zone_parts:
  "trim_space bad_zone = bad_zone" "bad_zone \<noteq> []"
  "contains_any bad_zone (lit ''/'' @ [92] @ lit ''@ '' @ [9, 13, 10]) = False"
  "has_prefix bad_zone (lit ''['') = False" "cut bad_zone (lit '':'') = ([], drop 1 bad_zone, True)"
  "parse_uint (drop 1 bad_zone) 10 16 = Fail (NumSyntax (drop 1 bad_zone))"
  by code_simp+

lemma bad_zone_addr: "parse_addr bad_zone = Some (V6 (replicate 16 0) (drop 3 bad_zone))"
  by (simp add: parse_addr_def parse_v6_def lit_def cut_def bad_zone_def)

lemma bad_zone_host: "normalize_http_host \<Gamma> bad_zone = bad_zone"
proof -
  have "addr_text (V6 (replicate 16 0) (drop 3 bad_zone)) = bad_zone"
    unfolding addr_text_zone by (simp add: bad_zone_def lit_def)
  then show ?thesis 
    by (simp only: normalize_http_host_def Let_def bad_zone_parts prod.case go.case bad_zone_addr option.case if_True if_False simp_thms)
qed

end
