(* ===== verification/Evidence.thy ===== *)
theory Evidence imports Names begin

text \<open>
  The evidence of one connection (\<^verbatim>\<open>Evidence\<close> in \<^verbatim>\<open>internal/domain/stream.go\<close>): the record the parsers
  fill, the group and label it gives the domain page, and the HTTP and HTTP/2 host counter.

  \<^verbatim>\<open>Kind\<close> is a Go string that only ever holds the values of \<open>kind\<close>; \<^verbatim>\<open>Hosts\<close> is a map from names to
  64-bit counts, kept as an association list with distinct keys, so that its size is the length of the
  list.  A nil pointer is \<open>None\<close>; \<^verbatim>\<open>ParseError\<close> is \<open>None\<close> where the code holds the empty string.
\<close>

datatype kind = KNone | KHttp | KHttp2 | KTls | KQuic | KOpenssl | KProxy | KDns | KDnsProcess
  | KRecorded | KUpgrade | KOther

fun kind_text :: "kind \<Rightarrow> bytes" where
  "kind_text KNone = []"
| "kind_text KHttp = lit ''http''"
| "kind_text KHttp2 = lit ''http2''"
| "kind_text KTls = lit ''tls''"
| "kind_text KQuic = lit ''quic''"
| "kind_text KOpenssl = lit ''openssl''"
| "kind_text KProxy = lit ''proxy''"
| "kind_text KDns = lit ''dns''"
| "kind_text KDnsProcess = lit ''dns_process''"
| "kind_text KRecorded = lit ''recorded''"
| "kind_text KUpgrade = lit ''upgrade''"
| "kind_text KOther = lit ''other''"

record evidence =
  e_kind :: kind
  e_hosts :: "(bytes \<times> u64) list"
  e_sni :: bytes
  e_alpn :: "bytes list"
  e_ja4 :: "bytes option"
  e_proxy :: bytes
  e_proxy_via :: bytes
  e_proxy_client :: bytes
  e_proxy_authority :: "bytes option"
  e_upgrade :: "bytes option"
  e_encrypted_dns :: "bytes option"
  e_dns :: bytes
  e_parse_error :: "err option"
  e_tls_version :: bytes
  e_server_alpn :: bytes
  e_certificate :: "bytes list"
  e_alert :: bytes
  e_grpc :: bool
  e_no_sni :: bool
  e_ech :: bool
  e_no_handshake :: bool

definition evidence0 :: evidence where
  "evidence0 = \<lparr>e_kind = KNone, e_hosts = [], e_sni = [], e_alpn = [], e_ja4 = None, e_proxy = [],
     e_proxy_via = [], e_proxy_client = [], e_proxy_authority = None, e_upgrade = None,
     e_encrypted_dns = None, e_dns = [], e_parse_error = None, e_tls_version = [],
     e_server_alpn = [], e_certificate = [], e_alert = [], e_grpc = False, e_no_sni = False,
     e_ech = False, e_no_handshake = False\<rparr>"

definition group_unknown :: bytes where "group_unknown = lit ''unknown''"

definition group_no_sni :: bytes where "group_no_sni = lit ''no SNI''"

definition group_no_handshake :: bytes where "group_no_handshake = lit ''handshake not captured''"

definition group_parse_failed :: bytes where "group_parse_failed = lit ''parse failed''"

definition group_encrypted_dns :: bytes where "group_encrypted_dns = lit ''encrypted DNS''"

text \<open>The second switch of \<^verbatim>\<open>Group\<close>, reached when the kind names nothing.\<close>

definition group_fallback :: "evidence \<Rightarrow> bytes" where
  "group_fallback e = (case e_proxy_authority e of Some a \<Rightarrow> a
     | None \<Rightarrow> if e_proxy e \<noteq> [] then e_proxy e
         else if e_encrypted_dns e \<noteq> None then group_encrypted_dns
         else if e_no_handshake e then group_no_handshake
         else if e_parse_error e \<noteq> None then group_parse_failed
         else if e_no_sni e then group_no_sni
         else group_unknown)"

definition group :: "evidence \<Rightarrow> bytes" where
  "group e =
     (if e_kind e \<in> {KTls, KQuic, KOpenssl} \<and> e_sni e \<noteq> [] then e_sni e
      else if e_kind e \<in> {KTls, KQuic, KOpenssl} \<and> e_certificate e \<noteq> [] then hd (e_certificate e)
      else if e_kind e \<in> {KHttp, KHttp2} \<and> length (e_hosts e) = 1 then fst (hd (e_hosts e))
      else if e_kind e \<in> {KHttp, KHttp2} \<and> length (e_hosts e) > 1 then lit ''multiple Hosts''
      else if e_kind e \<in> {KDns, KDnsProcess} then e_dns e
      else if e_kind e = KRecorded then (case cut (e_dns e) (lit '' '') of (a, name, b) \<Rightarrow> name)
      else group_fallback e)"

definition named :: "evidence \<Rightarrow> bool" where
  "named e \<longleftrightarrow> group e \<notin> {group_unknown, group_no_sni, group_no_handshake, group_parse_failed, group_encrypted_dns}"

definition listed :: "evidence \<Rightarrow> bool" where
  "listed e \<longleftrightarrow> e_encrypted_dns e \<noteq> None \<or> e_kind e \<noteq> KNone \<and> e_kind e \<noteq> KOther \<and> e_kind e \<noteq> KUpgrade"

definition label :: "evidence \<Rightarrow> bytes" where
  "label e = (if e_kind e = KRecorded then e_dns e else
     let unknown = e_kind e \<in> {KOther, KNone};
         kind1 = (if e_encrypted_dns e = Some (lit ''DoT'') \<and> unknown then lit ''TLS''
           else if e_encrypted_dns e = Some (lit ''DoQ'') \<and> unknown then lit ''QUIC''
           else map up_byte (kind_text (e_kind e)));
         kind2 = (if e_kind e = KHttp2 then lit ''HTTP/2'' else kind1)
     in kind2 @ lit '' '' @ group e @ (if e_ech e then lit '' [ECH]'' else [])
       @ (case e_encrypted_dns e of Some d \<Rightarrow> lit '' ['' @ d @ lit '']'' | None \<Rightarrow> [])
       @ (if e_sni e = [] \<and> e_certificate e \<noteq> [] then lit '' [cert]'' else []))"

definition detail :: "env \<Rightarrow> evidence \<Rightarrow> bytes" where
  "detail \<Gamma> e = join (
     (if e_proxy_via e \<noteq> [] then [trim_space (e_proxy_via e @ lit '' '' @ e_proxy e)] else [])
     @ (if e_proxy_client e \<noteq> [] then [lit ''PROXY protocol client '' @ e_proxy_client e] else [])
     @ (case e_proxy_authority e of Some a \<Rightarrow> [lit ''PROXY protocol authority '' @ a] | None \<Rightarrow> [])
     @ (case e_upgrade e of Some u \<Rightarrow> [lit ''TLS after '' @ u] | None \<Rightarrow> [])
     @ (case e_encrypted_dns e of Some d \<Rightarrow> [lit ''encrypted DNS transport '' @ d] | None \<Rightarrow> [])
     @ (if e_ech e then [lit ''ECH offered: on-wire SNI may be a provider'' @ [39] @ lit ''s public name''] else [])
     @ (if e_alpn e \<noteq> [] then [lit ''ALPN offered '' @ join (e_alpn e) (lit '','')] else [])
     @ (if e_tls_version e \<noteq> [] then [lit ''server chose '' @ e_tls_version e
          @ (if e_server_alpn e \<noteq> [] then lit '' ALPN '' @ e_server_alpn e else [])] else [])
     @ (if e_sni e = [] \<and> e_certificate e \<noteq> []
        then [lit ''name from the server certificate, not SNI: '' @ join (e_certificate e) (lit '','')]
        else if e_no_sni e \<and> e_tls_version e = lit ''TLS 1.3''
        then [lit ''no SNI, and TLS 1.3 encrypts the server certificate''] else [])
     @ (if e_kind e = KDnsProcess then [lit ''name from this process'' @ [39] @ lit ''s recent DNS answer for the peer'']
        else if e_kind e = KDns then [lit ''name from a DNS answer for the peer, not Host/SNI'']
        else if e_kind e = KRecorded then [lit ''label retained in the PCAPNG packet annotation''] else [])
     @ (case e_parse_error e of Some er \<Rightarrow> [lit ''parse error: '' @ err_text \<Gamma> er] | None \<Rightarrow> [])
     @ (case e_ja4 e of Some j \<Rightarrow> [lit ''JA4 '' @ j] | None \<Rightarrow> []))
   (lit ''; '')"

section \<open>The host counter\<close>

text \<open>
  \<^verbatim>\<open>if e.Hosts[host] == 0 && len(e.Hosts) >= maxHTTPHosts { return error }; e.Hosts[host]++\<close>, the same
  code in the HTTP/1 and the HTTP/2 parser.
\<close>

definition max_http_hosts :: nat where
  "max_http_hosts = 256"

definition host_count :: "evidence \<Rightarrow> bytes \<Rightarrow> u64" where
  "host_count e host = (case map_of (e_hosts e) host of Some n \<Rightarrow> n | None \<Rightarrow> 0)"

definition count_host :: "bytes \<Rightarrow> evidence \<Rightarrow> evidence go" where
  "count_host host e =
     (if host_count e host = 0 \<and> max_http_hosts \<le> length (e_hosts e)
      then Fail (Msg ''HTTP distinct Host limit'')
      else Ret (e\<lparr>e_hosts := AList.update host (host_count e host + 1) (e_hosts e)\<rparr>))"

definition hosts_ok :: "evidence \<Rightarrow> bool" where
  "hosts_ok e \<longleftrightarrow> distinct (map fst (e_hosts e)) \<and> length (e_hosts e) \<le> max_http_hosts"

lemma length_alist_update:
  "length (AList.update k v al) = (if k \<in> fst ` set al then length al else Suc (length al))"
  by (induction al) auto

lemma map_of_not_key: "map_of al k = None \<longleftrightarrow> k \<notin> fst ` set al"
  by (rule map_of_eq_None_iff)

lemma count_host_ok:
  assumes "hosts_ok e" and "count_host h e = Ret e'"
  shows "hosts_ok e'"
proof -
  let ?c = "host_count e h"
  from assms(2) have e': "e' = e\<lparr>e_hosts := AList.update h (?c + 1) (e_hosts e)\<rparr>"
    and room: "?c = 0 \<longrightarrow> length (e_hosts e) < max_http_hosts"
    by (auto simp: count_host_def split: if_splits)
  have "h \<in> fst ` set (e_hosts e)" if "?c \<noteq> 0"
    using that map_of_not_key [of "e_hosts e" h] by (auto simp: host_count_def split: option.splits)
  with room assms(1) show ?thesis
    by (cases "?c = 0") (auto simp: hosts_ok_def e' length_alist_update intro: distinct_update)
qed

lemma count_host_count:
  "count_host h e = Ret e' \<Longrightarrow> host_count e' g = (if g = h then host_count e h + 1 else host_count e g)"
  by (auto simp: count_host_def host_count_def update_conv' split: if_splits)

lemma gwp_count_host: "hosts_ok e \<Longrightarrow> gwp (count_host h e) hosts_ok"
  by (auto intro!: gwpI dest: count_host_ok) (simp add: count_host_def split: if_splits)

end
