(* ===== verification/Segments.thy ===== *)
theory Segments imports Prelude begin

text \<open>
  TCP segments that wait for the bytes before them: the \<^verbatim>\<open>map[uint32][]byte\<close> of both directions of a
  stream, the signed 32-bit distance of two sequence numbers, and the order of a \<^verbatim>\<open>range\<close> over a map.

  Go leaves the order of a \<^verbatim>\<open>range\<close> open.  Here a schedule \<open>\<rho>\<close> ranks the keys of a map of each size, and the
  order is that of the ranks; every order of every iteration is that of some schedule, because a map
  shrinks between two ranges of one operation.  Theorems hold for all schedules.

  The locale \<open>segmented\<close> is the contract of a consumer of a byte stream: what it makes of \<open>a\<close> and then \<open>b\<close> is
  what it makes of \<open>a @ b\<close>.  The protocol parsers provide it; a whole list of segments can then be fed as
  one.
\<close>

section \<open>Sequence numbers\<close>

definition seq_diff :: "u32 \<Rightarrow> u32 \<Rightarrow> int" where
  "seq_diff a b = sint (a - b)"

text \<open>\<^verbatim>\<open>-d\<close> on an \<^verbatim>\<open>int32\<close>: the least value is its own negation.\<close>

definition neg32 :: "int \<Rightarrow> int" where
  "neg32 d = (if d = - (2 ^ 31) then d else - d)"

text \<open>\<^verbatim>\<open>b[i:]\<close> for a signed index.\<close>

definition gfrom_int :: "bytes \<Rightarrow> int \<Rightarrow> bytes go" where
  "gfrom_int b i = (if 0 \<le> i \<and> i \<le> int (length b) then Ret (drop (nat i) b) else Panic)"

lemma seq_diff_range: "- (2 ^ 31) \<le> seq_diff a b" "seq_diff a b < 2 ^ 31"
  using sint_range_size [of "a - b"] by (auto simp: seq_diff_def word_size)

lemma seq_diff_offsets:
  assumes "m < 2 ^ 31" and "n < 2 ^ 31"
  shows "seq_diff (base + of_nat m) (base + of_nat n) = int m - int n"
proof -
  have "(base + of_nat m) - (base + of_nat n) = (of_int (int m - int n) :: u32)" by simp
  moreover have "sint (of_int k :: u32) = k" if "- (2 ^ 31) \<le> k" "k < 2 ^ 31" for k
    using that by (simp add: signed_of_int signed_take_bit_int_eq_self)
  then have "sint (of_int (int m - int n) :: u32) = int m - int n"
    using assms by (simp del: of_int_diff of_int_of_nat_eq)
  ultimately show ?thesis by (simp add: seq_diff_def)
qed

lemma seq_diff_advance:
  assumes "- (2 ^ 31) \<le> seq_diff a b - int n"
  shows "seq_diff a (b + of_nat n) = seq_diff a b - int n"
proof -
  have r: "sint (of_int k :: u32) = k" if "- (2 ^ 31) \<le> k" "k < 2 ^ 31" for k
    using that by (simp add: signed_of_int signed_take_bit_int_eq_self)
  have "(of_int (sint (a - b)) :: u32) = a - b" by simp
  then have "a - (b + of_nat n) = (of_int (seq_diff a b - int n) :: u32)"
    by (simp add: seq_diff_def)
  moreover have "seq_diff a b - int n < 2 ^ 31" using seq_diff_range(2) [of a b] by linarith
  ultimately show ?thesis using r [OF assms] by (simp add: seq_diff_def del: of_int_diff)
qed

lemma seq_diff_self [simp]: "seq_diff a a = 0"
  by (simp add: seq_diff_def)

section \<open>Pending segments\<close>

type_synonym pending = "(u32 \<times> bytes) list"
type_synonym schedule = "nat \<Rightarrow> u32 \<Rightarrow> nat"

definition pend_get :: "u32 \<Rightarrow> pending \<Rightarrow> bytes" where
  "pend_get k p = (case map_of p k of Some v \<Rightarrow> v | None \<Rightarrow> [])"

definition range_order :: "schedule \<Rightarrow> pending \<Rightarrow> pending" where
  "range_order \<rho> p = sort_key (\<lambda>x. \<rho> (length p) (fst x)) p"

definition pend_bytes :: "pending \<Rightarrow> nat" where
  "pend_bytes p = sum_list (map (\<lambda>x. length (snd x)) p)"

definition pend_ok :: "pending \<Rightarrow> bool" where
  "pend_ok p \<longleftrightarrow> distinct (map fst p) \<and> (\<forall>x \<in> set p. snd x \<noteq> [])"

lemma set_range_order [simp]: "set (range_order \<rho> p) = set p"
  by (simp add: range_order_def)

lemma pend_bytes_simps [simp]: "pend_bytes [] = 0" "pend_bytes (x # p) = length (snd x) + pend_bytes p"
  by (simp_all add: pend_bytes_def)

lemma pend_get_in: "distinct (map fst p) \<Longrightarrow> (k, v) \<in> set p \<Longrightarrow> pend_get k p = v"
  by (simp add: pend_get_def)

lemma pend_get_out: "k \<notin> fst ` set p \<Longrightarrow> pend_get k p = []"
  using map_of_eq_None_iff [of p k] by (simp add: pend_get_def)

lemma pend_bytes_delete:
  "distinct (map fst p) \<Longrightarrow> pend_bytes (AList.delete k p) + length (pend_get k p) = pend_bytes p"
proof (induction p)
  case Nil
  then show ?case by (simp add: pend_get_def)
next
  case (Cons x p)
  show ?case
  proof (cases "fst x = k")
    case True
    then have "k \<notin> fst ` set p" using Cons.prems by auto
    then have "AList.delete k p = p" by (simp add: AList.delete_eq filter_id_conv image_iff) force
    then show ?thesis using True by (cases x) (simp add: pend_get_def AList.delete_eq)
  next
    case False
    then have "pend_get k (x # p) = pend_get k p" by (cases x) (simp add: pend_get_def)
    then show ?thesis using False Cons by (cases x) (simp add: AList.delete_eq)
  qed
qed

lemma pend_bytes_update:
  "distinct (map fst p) \<Longrightarrow> pend_bytes (AList.update k v p) + length (pend_get k p) = pend_bytes p + length v"
proof (induction p)
  case Nil
  then show ?case by (simp add: pend_get_def)
next
  case (Cons x p)
  show ?case
  proof (cases "fst x = k")
    case True
    then show ?thesis by (cases x) (simp add: pend_get_def)
  next
    case False
    then have "pend_get k (x # p) = pend_get k p" by (cases x) (simp add: pend_get_def)
    then show ?thesis using False Cons by (cases x) simp
  qed
qed

lemma length_update_le: "length (AList.update k v p) \<le> Suc (length p)"
  by (induction p) auto

lemma pend_ok_delete: "pend_ok p \<Longrightarrow> pend_ok (AList.delete k p)"
  by (auto simp: pend_ok_def distinct_delete) (auto simp: AList.delete_eq)

lemma set_update_subset: "set (AList.update k v p) \<subseteq> insert (k, v) (set p)"
  by (induction p) auto

lemma pend_ok_update: "pend_ok p \<Longrightarrow> v \<noteq> [] \<Longrightarrow> pend_ok (AList.update k v p)"
  using set_update_subset [of k v p] by (auto simp: pend_ok_def distinct_update)

lemma length_delete_less: "k \<in> fst ` set p \<Longrightarrow> length (AList.delete k p) < length p"
  by (induction p) (auto simp: AList.delete_eq le_imp_less_Suc)

text \<open>
  No pending segment can fall behind the expected byte by \<open>2 ^ 31\<close>, whatever is delivered from the
  pending segments first.
\<close>

definition pend_near :: "u32 \<Rightarrow> pending \<Rightarrow> bool" where
  "pend_near expected p \<longleftrightarrow> (\<forall>x \<in> set p. - (2 ^ 31) + int (pend_bytes p) < seq_diff (fst x) expected)"

definition pend_ahead :: "u32 \<Rightarrow> pending \<Rightarrow> bool" where
  "pend_ahead expected p \<longleftrightarrow> (\<forall>x \<in> set p. 0 < seq_diff (fst x) expected)"

lemma pend_near_Nil [simp]: "pend_near e []" "pend_ahead e []"
  by (simp_all add: pend_near_def pend_ahead_def)

lemma pend_near_delete:
  assumes near: "pend_near e p" and "distinct (map fst p)" and "(k, v) \<in> set p" and n: "n \<le> length v"
  shows "pend_near (e + of_nat n) (AList.delete k p)"
proof -
  have b: "pend_bytes (AList.delete k p) + length v = pend_bytes p"
    using pend_bytes_delete [OF assms(2), of k] pend_get_in [OF assms(2,3)] by simp
  show ?thesis
    unfolding pend_near_def
  proof
    fix x assume "x \<in> set (AList.delete k p)"
    then have "x \<in> set p" by (auto simp: AList.delete_eq)
    then have "- (2 ^ 31) + int (pend_bytes p) < seq_diff (fst x) e" using near by (auto simp: pend_near_def)
    with b n have lt: "- (2 ^ 31) + int (pend_bytes (AList.delete k p)) < seq_diff (fst x) e - int n" by linarith
    then have "seq_diff (fst x) (e + of_nat n) = seq_diff (fst x) e - int n" by (intro seq_diff_advance) linarith
    with lt show "- (2 ^ 31) + int (pend_bytes (AList.delete k p)) < seq_diff (fst x) (e + of_nat n)" by simp
  qed
qed

lemma pend_near_advance:
  assumes "pend_ahead e p" and "int n + int (pend_bytes p) < 2 ^ 31"
  shows "pend_near (e + of_nat n) p"
  unfolding pend_near_def
proof
  fix x assume "x \<in> set p"
  then have a: "0 < seq_diff (fst x) e" using assms by (auto simp: pend_ahead_def)
  then have "seq_diff (fst x) (e + of_nat n) = seq_diff (fst x) e - int n" using assms by (intro seq_diff_advance) linarith
  with a assms show "- (2 ^ 31) + int (pend_bytes p) < seq_diff (fst x) (e + of_nat n)" by linarith
qed

lemma pend_ahead_update: "pend_ahead e p \<Longrightarrow> 0 < seq_diff k e \<Longrightarrow> pend_ahead e (AList.update k v p)"
  using set_update_subset [of k v p] by (auto simp: pend_ahead_def)

lemma gfrom_int_neg:
  assumes "d < 0" and "- (2 ^ 31) < d" and "neg32 d < int (length b)"
  shows "gfrom_int b (neg32 d) = Ret (drop (nat (- d)) b)"
  using assms by (simp add: gfrom_int_def neg32_def)

section \<open>Consumers of a byte stream\<close>

text \<open>Feeding a list of segments one by one, up to the first error.\<close>

fun feed_all :: "('s \<Rightarrow> bytes \<Rightarrow> ('s \<times> err option) go) \<Rightarrow> 's \<Rightarrow> bytes list \<Rightarrow> ('s \<times> err option) go" where
  "feed_all feed s [] = Ret (s, None)"
| "feed_all feed s (x # xs) = gbind (feed s x) (\<lambda>(s', er). if er \<noteq> None then Ret (s', er) else feed_all feed s' xs)"

lemma feed_all_snoc:
  "feed_all feed s (xs @ [x]) = gbind (feed_all feed s xs) (\<lambda>(s', er). if er \<noteq> None then Ret (s', er) else feed s' x)"
proof (induction xs arbitrary: s)
  case Nil
  then show ?case by (cases "feed s x") (auto split: option.splits)
next
  case (Cons y ys)
  then show ?case by (cases "feed s y") auto
qed

lemma feed_all_append:
  "feed_all feed s (xs @ ys) = gbind (feed_all feed s xs) (\<lambda>(s', er). if er \<noteq> None then Ret (s', er) else feed_all feed s' ys)"
proof (induction xs arbitrary: s)
  case (Cons x xs)
  then show ?case by (cases "feed s x") auto
qed simp

text \<open>\<open>fits s d\<close>: the consumer in state \<open>s\<close> may be fed \<open>d\<close>.\<close>

locale segmented =
  fixes feed :: "'s \<Rightarrow> bytes \<Rightarrow> ('s \<times> err option) go"
    and fits :: "'s \<Rightarrow> bytes \<Rightarrow> bool"
  assumes feed_append: "fits s (a @ b) \<Longrightarrow> feed s a = Ret (s', None) \<Longrightarrow> fits s' b \<Longrightarrow> b \<noteq> [] \<Longrightarrow> feed s (a @ b) = feed s' b"
begin

text \<open>Segments that arrive one by one give what their concatenation gives.\<close>

lemma feed_all_concat:
  assumes "feed_all feed s (x # xs) = Ret (s', None)" and "\<forall>y \<in> set xs. y \<noteq> []"
    and "\<And>ys t zs. x # xs = ys @ zs \<Longrightarrow> feed_all feed s ys = Ret (t, None) \<Longrightarrow> fits t (concat zs)"
  shows "feed s (concat (x # xs)) = Ret (s', None)"
  using assms
proof (induction xs arbitrary: s x)
  case Nil
  then show ?case by (auto simp: gbind_eq_Ret split: if_splits)
next
  case (Cons y ys)
  from Cons.prems(1) obtain t where t: "feed s x = Ret (t, None)" and rest: "feed_all feed t (y # ys) = Ret (s', None)"
    by (cases "feed s x") (auto split: if_splits)
  have fits: "fits u (concat zs)" if "y # ys = ws @ zs" "feed_all feed t ws = Ret (u, None)" for ws u zs
    using Cons.prems(3) [of "x # ws" zs u] that t by simp
  have "feed t (concat (y # ys)) = Ret (s', None)"
    using Cons.IH [OF rest] Cons.prems(2) fits by auto
  moreover have "feed s (x @ concat (y # ys)) = feed t (concat (y # ys))"
  proof (rule feed_append)
    show "fits s (x @ concat (y # ys))" using Cons.prems(3) [of "[]" "x # y # ys" s] by simp
    show "fits t (concat (y # ys))" using fits [of "[]" "y # ys" t] by simp
  qed (use t Cons.prems(2) in auto)
  ultimately show ?case by simp
qed

end

end
