(* ===== verification/Http_Parser.thy ===== *)
theory Http_Parser imports Evidence Segments begin

text \<open>
  The HTTP/1 request parser of \<^verbatim>\<open>internal/domain/http.go\<close>.  One turn of the loop in \<^verbatim>\<open>feed\<close> is
  \<open>http_step\<close>, a definition per state; \<open>http_loop\<close> repeats it the way the \<^verbatim>\<open>for\<close> loop does.

  The lemmas show that a feed always returns, what the buffer and the body counter can hold between
  feeds, that skipping an uncaptured part of a body equals feeding any bytes of that length, and that
  the result does not depend on how the byte stream is cut.
\<close>

definition max_http_header :: nat where "max_http_header = 16384"

definition max_chunk_line :: nat where "max_chunk_line = 256"

definition h2_preface :: bytes where
  "h2_preface = lit ''PRI * HTTP/2.0'' @ [13, 10, 13, 10] @ lit ''SM'' @ [13, 10, 13, 10]"

definition crlf2 :: bytes where "crlf2 = [13, 10, 13, 10]"

datatype http_state = HttpHeaders | HttpFixedBody | HttpChunkSize | HttpChunkData | HttpChunkEnd
  | HttpChunkTrailer | HttpTunnel | HttpH2C | HttpStopped

record http_parser =
  p_buffer :: bytes
  p_remaining :: nat
  p_state :: http_state
  p_h2c :: bool

definition http_parser0 :: http_parser where
  "http_parser0 = \<lparr>p_buffer = [], p_remaining = 0, p_state = HttpHeaders, p_h2c = False\<rparr>"

section \<open>The header block\<close>

record http_header =
  hh_method :: bytes
  hh_target :: bytes
  hh_length :: nat
  hh_chunked :: bool
  hh_upgrade :: bytes
  hh_host :: bytes

fun header_fields :: "env \<Rightarrow> bytes list \<Rightarrow> http_header \<Rightarrow> bool \<Rightarrow> bool \<Rightarrow> bool \<Rightarrow> http_header go" where
  "header_fields \<Gamma> [] h saw_host saw_length saw_encoding =
     (if saw_length \<and> saw_encoding then Fail (Msg ''conflicting HTTP body framing'') else Ret h)"
| "header_fields \<Gamma> (line # lines) h saw_host saw_length saw_encoding =
     (case cut line (lit '':'') of (name, raw, ok) \<Rightarrow>
      if \<not> ok then Fail (Msg ''invalid HTTP header field'')
      else let value = trim_space raw; key = to_lower (uni_lower \<Gamma>) name in
        if key = lit ''host'' then
          (if saw_host then Fail (Msg ''duplicate HTTP Host'')
           else header_fields \<Gamma> lines (h\<lparr>hh_host := normalize_http_host \<Gamma> value\<rparr>) True saw_length saw_encoding)
        else if key = lit ''content-length'' then
          (if saw_length then Fail (Msg ''duplicate HTTP Content-Length'')
           else gbind (parse_uint value 10 63) (\<lambda>n.
             header_fields \<Gamma> lines (h\<lparr>hh_length := n\<rparr>) saw_host True saw_encoding))
        else if key = lit ''transfer-encoding'' then
          (if \<not> equal_fold (trim_space value) (lit ''chunked'')
           then Fail (Msg ''unsupported HTTP Transfer-Encoding'')
           else header_fields \<Gamma> lines (h\<lparr>hh_chunked := True\<rparr>) saw_host saw_length True)
        else if key = lit ''upgrade'' then
          header_fields \<Gamma> lines (h\<lparr>hh_upgrade := value\<rparr>) saw_host saw_length saw_encoding
        else header_fields \<Gamma> lines h saw_host saw_length saw_encoding)"

definition parse_http_header :: "env \<Rightarrow> bytes \<Rightarrow> http_header go" where
  "parse_http_header \<Gamma> header = (let lines = split_on header crlf in
     gbind (gidx lines 0) (\<lambda>line0. let parts = text_fields line0 in
     gbind (any_c [Ret (length parts \<noteq> 3), gbind (looks_like_http line0) (\<lambda>v. Ret (\<not> v)),
         gbind (gidx parts 2) (\<lambda>v. Ret (v \<noteq> lit ''HTTP/1.1'' \<and> v \<noteq> lit ''HTTP/1.0''))]) (\<lambda>bad.
     if bad then Fail (Msg ''invalid HTTP/1.1 request line'')
     else gbind (gidx parts 0) (\<lambda>method. gbind (gidx parts 1) (\<lambda>target.
     gbind (gfrom lines 1) (\<lambda>rest. header_fields \<Gamma> rest
       \<lparr>hh_method = method, hh_target = target, hh_length = 0, hh_chunked = False, hh_upgrade = [], hh_host = []\<rparr>
       False False False))))))"

section \<open>One turn of the loop\<close>

text \<open>How a turn ends: \<^verbatim>\<open>return err\<close>, falling out of the switch, or \<^verbatim>\<open>continue\<close>.\<close>

datatype turn = Return "err option" | Next | Continue

type_synonym http_turn = "(http_parser \<times> evidence \<times> turn) go"

text \<open>A complete header block: what follows \<^verbatim>\<open>parseHTTPHeader\<close> in the code.\<close>

definition http_request :: "env \<Rightarrow> http_header \<Rightarrow> http_parser \<Rightarrow> evidence \<Rightarrow> http_turn" where
  "http_request \<Gamma> h p e =
     (if hh_method h = lit ''CONNECT'' then
        Ret (p\<lparr>p_state := HttpTunnel\<rparr>,
          e\<lparr>e_proxy := normalize_http_host \<Gamma> (hh_target h), e_proxy_via := lit ''CONNECT''\<rparr>, Return None)
      else gtry (if hh_host h \<noteq> [] then count_host (hh_host h) e else Ret e) (\<lambda>er. Ret (p, e, Return (Some er))) (\<lambda>e'.
        let p1 = (if equal_fold (hh_upgrade h) (lit ''h2c'') then p\<lparr>p_h2c := True\<rparr> else p) in
        if \<not> equal_fold (hh_upgrade h) (lit ''h2c'') \<and> hh_upgrade h \<noteq> [] then
          Ret (p\<lparr>p_state := HttpStopped, p_buffer := []\<rparr>, e', Return None)
        else if hh_chunked h then Ret (p1\<lparr>p_state := HttpChunkSize\<rparr>, e', Next)
        else if hh_length h > 0 then Ret (p1\<lparr>p_state := HttpFixedBody, p_remaining := hh_length h\<rparr>, e', Next)
        else Ret (p1, e', Next)))"

definition http_headers_step :: "env \<Rightarrow> http_parser \<Rightarrow> evidence \<Rightarrow> http_turn" where
  "http_headers_step \<Gamma> p0 e =
     (if p_h2c p0 \<and> has_prefix (p_buffer p0) h2_preface then Ret (p0\<lparr>p_state := HttpH2C\<rparr>, e, Return None)
      else if p_h2c p0 \<and> has_prefix h2_preface (p_buffer p0) then Ret (p0, e, Return None)
      else let p = p0\<lparr>p_h2c := False\<rparr> in
      (case index_of (p_buffer p) crlf2 of
         None \<Rightarrow> Ret (p, e, Return (if length (p_buffer p) > max_http_header
           then Some (Msg ''HTTP header size limit'') else None))
       | Some end \<Rightarrow>
         if end + 4 > max_http_header then Ret (p, e, Return (Some (Msg ''HTTP header size limit'')))
         else gbind (gslice (p_buffer p) 0 end) (\<lambda>block.
           gtry (parse_http_header \<Gamma> block) (\<lambda>er. Ret (p, e, Return (Some er))) (\<lambda>h.
             gbind (gfrom (p_buffer p) (end + 4)) (\<lambda>rest. http_request \<Gamma> h (p\<lparr>p_buffer := rest\<rparr>) e)))))"

definition http_body_step :: "http_parser \<Rightarrow> evidence \<Rightarrow> http_turn" where
  "http_body_step p e = (let consume = min (length (p_buffer p)) (p_remaining p) in
     gbind (gfrom (p_buffer p) consume) (\<lambda>rest.
       let p1 = p\<lparr>p_buffer := rest, p_remaining := p_remaining p - consume\<rparr> in
       if p_remaining p1 > 0 then Ret (p1, e, Return None)
       else Ret (p1\<lparr>p_state := (if p_state p = HttpFixedBody then HttpHeaders else HttpChunkEnd)\<rparr>, e, Next)))"

definition http_chunk_size_step :: "http_parser \<Rightarrow> evidence \<Rightarrow> http_turn" where
  "http_chunk_size_step p e = (case index_of (p_buffer p) crlf of
     None \<Rightarrow> Ret (p, e, Return (if length (p_buffer p) > max_chunk_line
       then Some (Msg ''HTTP chunk size line limit'') else None))
   | Some end \<Rightarrow>
     if end > max_chunk_line then Ret (p, e, Return (Some (Msg ''HTTP chunk size line limit'')))
     else gbind (gslice (p_buffer p) 0 end) (\<lambda>line. case cut line (lit '';'') of (size_text, ext, found) \<Rightarrow>
       gtry (parse_uint (trim_space size_text) 16 63)
         (\<lambda>er. Ret (p, e, Return (Some (Wrapped ''invalid HTTP chunk size: '' er)))) (\<lambda>size.
         gbind (gfrom (p_buffer p) (end + 2)) (\<lambda>rest. let p1 = p\<lparr>p_buffer := rest\<rparr> in
           if size = 0 then Ret (p1\<lparr>p_state := HttpChunkTrailer\<rparr>, e, Next)
           else Ret (p1\<lparr>p_state := HttpChunkData, p_remaining := size\<rparr>, e, Next)))))"

definition http_chunk_end_step :: "http_parser \<Rightarrow> evidence \<Rightarrow> http_turn" where
  "http_chunk_end_step p e = (if length (p_buffer p) < 2 then Ret (p, e, Return None)
     else gbind (any_c [gbyte (p_buffer p) 0 (\<lambda>x. x \<noteq> 13), gbyte (p_buffer p) 1 (\<lambda>x. x \<noteq> 10)]) (\<lambda>bad.
       if bad then Ret (p, e, Return (Some (Msg ''invalid HTTP chunk terminator'')))
       else gbind (gfrom (p_buffer p) 2) (\<lambda>rest.
         Ret (p\<lparr>p_buffer := rest, p_state := HttpChunkSize\<rparr>, e, Next))))"

definition http_trailer_step :: "http_parser \<Rightarrow> evidence \<Rightarrow> http_turn" where
  "http_trailer_step p e =
     gbind (all_c [Ret (2 \<le> length (p_buffer p)), gbyte (p_buffer p) 0 (\<lambda>x. x = 13), gbyte (p_buffer p) 1 (\<lambda>x. x = 10)]) (\<lambda>empty.
     if empty then gbind (gfrom (p_buffer p) 2) (\<lambda>rest.
       Ret (p\<lparr>p_buffer := rest, p_state := HttpHeaders\<rparr>, e, Continue))
     else (case index_of (p_buffer p) crlf2 of
       None \<Rightarrow> Ret (p, e, Return (if length (p_buffer p) > max_http_header
         then Some (Msg ''HTTP chunk trailer size limit'') else None))
     | Some end \<Rightarrow> gbind (gfrom (p_buffer p) (end + 4)) (\<lambda>rest.
         Ret (p\<lparr>p_buffer := rest, p_state := HttpHeaders\<rparr>, e, Next))))"

text \<open>
  The switch.  It has no case for a tunnel or an h2c connection: with bytes in the buffer the loop
  would spin there forever, which the model makes a \<open>Panic\<close>.
\<close>

definition http_step :: "env \<Rightarrow> http_parser \<Rightarrow> evidence \<Rightarrow> http_turn" where
  "http_step \<Gamma> p e = (case p_state p of
     HttpHeaders \<Rightarrow> http_headers_step \<Gamma> p e
   | HttpFixedBody \<Rightarrow> http_body_step p e
   | HttpChunkData \<Rightarrow> http_body_step p e
   | HttpChunkSize \<Rightarrow> http_chunk_size_step p e
   | HttpChunkEnd \<Rightarrow> http_chunk_end_step p e
   | HttpChunkTrailer \<Rightarrow> http_trailer_step p e
   | HttpStopped \<Rightarrow> Ret (p\<lparr>p_buffer := []\<rparr>, e, Return None)
   | _ \<Rightarrow> if p_buffer p = [] then Ret (p, e, Return None) else Panic)"

text \<open>What a turn that goes on consumes.\<close>

definition http_size :: "http_parser \<Rightarrow> nat" where
  "http_size p = 2 * length (p_buffer p) + (if p_state p \<in> {HttpFixedBody, HttpChunkData} then 1 else 0)"

lemma index_of_crlf2: "index_of b crlf2 = Some i \<Longrightarrow> i + 4 \<le> length b"
  using index_of_Some(1) [of b crlf2 i] by (simp add: crlf2_def)

lemma index_of_crlf: "index_of b crlf = Some i \<Longrightarrow> i + 2 \<le> length b"
  using index_of_Some(1) [of b crlf i] by (simp add: crlf_def)

lemma http_request_turn:
  "http_request \<Gamma> h p e = Ret (p', e', t) \<Longrightarrow> t = Next \<Longrightarrow> p_buffer p' = p_buffer p"
  by (cases "count_host (hh_host h) e") (auto simp: http_request_def Let_def split: if_splits)

lemma http_request_not_Continue: "http_request \<Gamma> h p e \<noteq> Ret (p', e', Continue)"
  by (cases "count_host (hh_host h) e") (auto simp: http_request_def Let_def split: if_splits)

lemma http_headers_step_shrinks:
  assumes "http_headers_step \<Gamma> p e = Ret (p', e', t)" and t: "\<not> (\<exists>er. t = Return er)"
  shows "length (p_buffer p') + 4 \<le> length (p_buffer p)"
proof -
  from assms obtain i h where i: "index_of (p_buffer p) crlf2 = Some i"
    and r: "http_request \<Gamma> h (p\<lparr>p_h2c := False, p_buffer := drop (i + 4) (p_buffer p)\<rparr>) e = Ret (p', e', t)"
    by (auto simp: http_headers_step_def Let_def gbind_eq_Ret gslice_eq_Ret gfrom_eq_Ret gtry_eq_Ret
        dest: index_of_crlf2 split: if_splits option.splits)
  from http_request_not_Continue r t have "t = Next" by (cases t) auto
  with r have "p_buffer p' = drop (i + 4) (p_buffer p)" by (auto dest: http_request_turn)
  then show ?thesis using index_of_crlf2 [OF i] by simp
qed

lemma http_step_shrinks:
  assumes s: "http_step \<Gamma> p e = Ret (p', e', t)" and t: "\<not> (\<exists>er. t = Return er)"
  shows "http_size p' < http_size p"
proof (cases "p_state p")
  case HttpHeaders
  then have "length (p_buffer p') + 4 \<le> length (p_buffer p)"
    using s http_headers_step_shrinks [OF _ t] by (simp add: http_step_def)
  then show ?thesis by (simp add: http_size_def)
next
  case HttpChunkSize
  then show ?thesis using s t
    by (auto simp: http_step_def http_chunk_size_step_def http_size_def gtry_eq_Ret go_eqs Let_def
        dest!: index_of_crlf split: option.splits if_splits prod.splits)
next
  case HttpChunkTrailer
  then show ?thesis using s t
    by (auto simp: http_step_def http_trailer_step_def http_size_def go_eqs gbyte_def
        dest!: index_of_crlf2 split: option.splits if_splits)
qed (use s t in \<open>auto simp: http_step_def http_body_step_def http_chunk_end_step_def http_size_def go_eqs
        gbyte_def Let_def split: if_splits\<close>)

function http_loop :: "env \<Rightarrow> http_parser \<Rightarrow> evidence \<Rightarrow> (http_parser \<times> evidence \<times> err option) go" where
  "http_loop \<Gamma> p e = gbind (http_step \<Gamma> p e) (\<lambda>(p', e', t). case t of
       Return er \<Rightarrow> Ret (p', e', er)
     | Next \<Rightarrow> if p_buffer p' = [] then Ret (p', e', None) else http_loop \<Gamma> p' e'
     | Continue \<Rightarrow> http_loop \<Gamma> p' e')"
  by pat_completeness auto
termination
  by (relation "measure (\<lambda>(\<Gamma>, p, e). http_size p)") (auto dest!: http_step_shrinks)

declare http_loop.simps [simp del]

definition http_feed :: "env \<Rightarrow> http_parser \<Rightarrow> bytes \<Rightarrow> evidence \<Rightarrow> (http_parser \<times> evidence \<times> err option) go" where
  "http_feed \<Gamma> p data e = (if p_state p = HttpStopped then Ret (p, e, None)
     else http_loop \<Gamma> (p\<lparr>p_buffer := p_buffer p @ data\<rparr>) e)"

text \<open>\<^verbatim>\<open>skip\<close>: \<open>None\<close> where the code returns false.\<close>

definition http_skip :: "http_parser \<Rightarrow> nat \<Rightarrow> http_parser option" where
  "http_skip p n = (if p_buffer p \<noteq> [] \<or> p_state p \<noteq> HttpFixedBody \<and> p_state p \<noteq> HttpChunkData \<or> n > p_remaining p
     then None
     else let p1 = p\<lparr>p_remaining := p_remaining p - n\<rparr> in
       if p_remaining p1 = 0 \<and> p_state p = HttpFixedBody then Some (p1\<lparr>p_state := HttpHeaders\<rparr>)
       else if p_remaining p1 = 0 then Some (p1\<lparr>p_state := HttpChunkEnd\<rparr>)
       else Some p1)"

section \<open>Every feed returns\<close>

definition body_limit :: nat where "body_limit = 2 ^ 63"

lemma body_limit_pos [simp]: "0 < body_limit"
  by (simp add: body_limit_def)

lemma gwp_body_length: "gwp (parse_uint b base 63) (\<lambda>n. n < body_limit)"
  unfolding body_limit_def by (rule gwp_parse_uint)

text \<open>The invariant of the state machine, and what a feed without an error leaves in the buffer.\<close>

definition http_inv :: "http_parser \<Rightarrow> bool" where
  "http_inv p \<longleftrightarrow> (p_state p \<in> {HttpFixedBody, HttpChunkData} \<longrightarrow> 0 < p_remaining p) \<and> p_remaining p < body_limit"

definition http_rest :: "http_parser \<Rightarrow> bool" where
  "http_rest p \<longleftrightarrow> (case p_state p of
     HttpHeaders \<Rightarrow> length (p_buffer p) \<le> max_http_header
   | HttpChunkTrailer \<Rightarrow> length (p_buffer p) \<le> max_http_header
   | HttpChunkSize \<Rightarrow> length (p_buffer p) \<le> max_chunk_line
   | HttpChunkEnd \<Rightarrow> length (p_buffer p) < 2
   | HttpTunnel \<Rightarrow> True
   | HttpH2C \<Rightarrow> has_prefix (p_buffer p) h2_preface
   | _ \<Rightarrow> p_buffer p = [])"

definition http_ok :: "http_parser \<Rightarrow> bool" where
  "http_ok p \<longleftrightarrow> http_inv p \<and> http_rest p \<and> p_state p \<notin> {HttpTunnel, HttpH2C}"

definition http_turn_ok :: "http_parser \<times> evidence \<times> turn \<Rightarrow> bool" where
  "http_turn_ok r \<longleftrightarrow> (case r of (p, e, t) \<Rightarrow> hosts_ok e \<and> http_inv p \<and> (t = Return None \<longrightarrow> http_rest p)
     \<and> ((\<nexists>er. t = Return er) \<longrightarrow> p_state p \<notin> {HttpTunnel, HttpH2C, HttpStopped}))"

lemma gwp_header_fields:
  "hh_length h < body_limit \<Longrightarrow> gwp (header_fields \<Gamma> ls h a b c) (\<lambda>h'. hh_length h' < body_limit)"
proof (induction ls arbitrary: h a b c)
  case (Cons line ls)
  have len: "gwp (gbind (parse_uint v 10 63) (\<lambda>n. header_fields \<Gamma> ls (h\<lparr>hh_length := n\<rparr>) a True c))
      (\<lambda>h'. hh_length h' < body_limit)" for v
    by (rule gwp_bindI [OF gwp_body_length]) (simp add: Cons.IH)
  obtain name raw ok where c: "cut line (lit '':'') = (name, raw, ok)" by (metis prod_cases3)
  show ?case
    using Cons.prems len by (simp add: c Let_def Cons.IH)
qed simp

lemma split_on_not_Nil: "split_on b sep \<noteq> []"
  by (subst split_on.simps) (simp split: option.splits)

lemma gwp_parse_http_header: "gwp (parse_http_header \<Gamma> b) (\<lambda>h. hh_length h < body_limit)"
proof -
  obtain l ls where s: "split_on b crlf = l # ls" using split_on_not_Nil by (cases "split_on b crlf") auto
  obtain v where v: "looks_like_http l = Ret v" using looks_like_http_total by blast
  show ?thesis
    by (auto simp: parse_http_header_def s v Let_def intro!: gwp_header_fields)
qed

lemma http_request_returns:
  assumes "hosts_ok e" and "http_inv p" and "hh_length h < body_limit" and "p_state p = HttpHeaders"
  shows "returns (http_request \<Gamma> h p e) http_turn_ok"
proof -
  have e: "hosts_ok (e\<lparr>e_proxy := x, e_proxy_via := y\<rparr>)" for x y
    using assms(1) by (simp add: hosts_ok_def)
  show ?thesis
    using gwp_count_host [OF assms(1), of "hh_host h"] assms e
    by (cases "count_host (hh_host h) e")
      (auto simp: http_request_def http_turn_ok_def http_inv_def http_rest_def Let_def)
qed

lemma http_headers_step_returns:
  assumes "hosts_ok e" and "http_inv p" and "p_state p = HttpHeaders"
  shows "returns (http_headers_step \<Gamma> p e) http_turn_ok"
proof (cases "p_h2c p \<and> (has_prefix (p_buffer p) h2_preface \<or> has_prefix h2_preface (p_buffer p))")
  case True
  then have "length (p_buffer p) \<le> length h2_preface" if "\<not> has_prefix (p_buffer p) h2_preface"
    using that has_prefix_length by blast
  also have "length h2_preface \<le> max_http_header" by (simp add: h2_preface_def lit_def max_http_header_def)
  finally show ?thesis using True assms
    by (auto simp: http_headers_step_def http_turn_ok_def http_inv_def http_rest_def)
next
  case False
  show ?thesis
  proof (cases "index_of (p_buffer p) crlf2")
    case None
    then show ?thesis using False assms
      by (auto simp: http_headers_step_def http_turn_ok_def http_inv_def http_rest_def Let_def)
  next
    case (Some i)
    let ?p = "p\<lparr>p_h2c := False, p_buffer := drop (i + 4) (p_buffer p)\<rparr>"
    from Some have i: "i + 4 \<le> length (p_buffer p)" by (rule index_of_crlf2)
    have p: "http_inv ?p" "http_inv (p\<lparr>p_h2c := False\<rparr>)" using assms by (simp_all add: http_inv_def)
    show ?thesis
    proof (cases "i + 4 > max_http_header")
      case True
      then show ?thesis using False Some assms p
        by (auto simp: http_headers_step_def http_turn_ok_def)
    next
      case small: False
      have "returns (gtry (parse_http_header \<Gamma> (take i (p_buffer p)))
          (\<lambda>er. Ret (p\<lparr>p_h2c := False\<rparr>, e, Return (Some er))) (\<lambda>h. http_request \<Gamma> h ?p e)) http_turn_ok"
        by (rule returns_try [OF gwp_parse_http_header])
          (use assms p in \<open>auto simp: http_turn_ok_def intro!: http_request_returns\<close>)
      then show ?thesis using False Some small i by (auto simp: http_headers_step_def Let_def)
    qed
  qed
qed

lemma http_chunk_size_step_returns:
  assumes "hosts_ok e" and "http_inv p" and "p_state p = HttpChunkSize"
  shows "returns (http_chunk_size_step p e) http_turn_ok"
proof (cases "index_of (p_buffer p) crlf")
  case None
  then show ?thesis using assms
    by (auto simp: http_chunk_size_step_def http_turn_ok_def http_rest_def)
next
  case (Some i)
  then have i: "i + 2 \<le> length (p_buffer p)" by (rule index_of_crlf)
  obtain t x f where c: "cut (take i (p_buffer p)) (lit '';'') = (t, x, f)" by (metis prod_cases3)
  show ?thesis
  proof (cases "i > max_chunk_line")
    case True
    then show ?thesis using Some assms by (auto simp: http_chunk_size_step_def http_turn_ok_def)
  next
    case False
    have "returns (gtry (parse_uint (trim_space t) 16 63)
         (\<lambda>er. Ret (p, e, Return (Some (Wrapped ''invalid HTTP chunk size: '' er)))) (\<lambda>size.
           if size = 0 then Ret (p\<lparr>p_buffer := drop (i + 2) (p_buffer p), p_state := HttpChunkTrailer\<rparr>, e, Next)
           else Ret (p\<lparr>p_buffer := drop (i + 2) (p_buffer p), p_state := HttpChunkData, p_remaining := size\<rparr>, e, Next)))
         http_turn_ok"
      by (rule returns_try [OF gwp_body_length])
        (use assms in \<open>auto simp: http_turn_ok_def http_inv_def\<close>)
    then show ?thesis using Some False i c by (simp add: http_chunk_size_step_def Let_def del: add_2_eq_Suc')
  qed
qed

lemma http_trailer_step_returns:
  assumes "hosts_ok e" and "http_inv p" and "p_state p = HttpChunkTrailer"
  shows "returns (http_trailer_step p e) http_turn_ok"
proof (cases "2 \<le> length (p_buffer p) \<and> p_buffer p ! 0 = 13 \<and> p_buffer p ! 1 = 10")
  case True
  then have "p_buffer p \<noteq> []" by auto
  then show ?thesis using True assms
    by (auto simp: http_trailer_step_def gbyte_def http_turn_ok_def http_inv_def)
next
  case False
  have c: "all_c [Ret (2 \<le> length (p_buffer p)), gbyte (p_buffer p) 0 (\<lambda>x. x = 13),
      gbyte (p_buffer p) 1 (\<lambda>x. x = 10)] = Ret False"
  proof (cases "2 \<le> length (p_buffer p)")
    case True
    then have "p_buffer p \<noteq> []" "1 < length (p_buffer p)" by auto
    then show ?thesis using False True by (auto simp: gbyte_def)
  qed simp
  show ?thesis
  proof (cases "index_of (p_buffer p) crlf2")
    case None
    then show ?thesis using assms
      by (auto simp only: http_trailer_step_def c gbind.simps) (auto simp: http_turn_ok_def http_rest_def)
  next
    case (Some i)
    from index_of_crlf2 [OF this] Some show ?thesis using assms
      by (simp only: http_trailer_step_def c gbind.simps if_False option.case gfrom_in)
        (simp add: http_turn_ok_def http_inv_def)
  qed
qed

lemma http_step_returns:
  assumes e: "hosts_ok e" and p: "http_inv p" and st: "p_state p \<notin> {HttpTunnel, HttpH2C}"
  shows "returns (http_step \<Gamma> p e) http_turn_ok"
proof -
  have body: "returns (http_body_step p e) http_turn_ok" if "p_state p \<in> {HttpFixedBody, HttpChunkData}"
    using that e p by (auto simp: http_body_step_def http_turn_ok_def http_inv_def http_rest_def Let_def min_def)
  have chunk_end: "returns (http_chunk_end_step p e) http_turn_ok" if "p_state p = HttpChunkEnd"
  proof (cases "length (p_buffer p) < 2")
    case True
    then show ?thesis using that e p
      by (simp add: http_chunk_end_step_def http_turn_ok_def http_rest_def)
  next
    case False
    then have "p_buffer p \<noteq> []" by auto
    then show ?thesis using False that e p
      by (auto simp: http_chunk_end_step_def gbyte_def http_turn_ok_def http_inv_def)
  qed
  have stopped: "http_turn_ok (p\<lparr>p_buffer := []\<rparr>, e, Return None)" if "p_state p = HttpStopped"
    using that e p by (simp add: http_turn_ok_def http_inv_def http_rest_def)
  show ?thesis
    using st body chunk_end stopped http_headers_step_returns [OF e p] http_chunk_size_step_returns [OF e p]
      http_trailer_step_returns [OF e p]
    by (cases "p_state p") (simp_all add: http_step_def)
qed

definition http_post :: "http_parser \<times> evidence \<times> err option \<Rightarrow> bool" where
  "http_post r \<longleftrightarrow> (case r of (p, e, er) \<Rightarrow> hosts_ok e \<and> (er = None \<longrightarrow> http_inv p \<and> http_rest p))"

lemma http_loop_returns:
  "hosts_ok e \<Longrightarrow> http_inv p \<Longrightarrow> p_state p \<notin> {HttpTunnel, HttpH2C} \<Longrightarrow> returns (http_loop \<Gamma> p e) http_post"
proof (induction p arbitrary: e rule: measure_induct_rule [where f = http_size])
  case (less p)
  obtain p' e' t where s: "http_step \<Gamma> p e = Ret (p', e', t)" and ok: "http_turn_ok (p', e', t)"
    using http_step_returns [OF less.prems, of \<Gamma>] by (auto simp: returns_def)
  show ?case
  proof (cases t)
    case (Return er)
    then show ?thesis using s ok by (auto simp: http_loop.simps [of \<Gamma> p] http_turn_ok_def http_post_def)
  next
    case Next
    have "http_size p' < http_size p" using http_step_shrinks [OF s] Next by simp
    then have "returns (http_loop \<Gamma> p' e') http_post"
      using less.IH ok Next by (simp add: http_turn_ok_def)
    moreover have "http_post (p', e', None)" if "p_buffer p' = []"
      using that ok Next by (auto simp: http_turn_ok_def http_post_def http_rest_def split: http_state.splits)
    ultimately show ?thesis using s Next by (simp add: http_loop.simps [of \<Gamma> p])
  next
    case Continue
    have "http_size p' < http_size p" using http_step_shrinks [OF s] Continue by simp
    then have "returns (http_loop \<Gamma> p' e') http_post"
      using less.IH ok Continue by (simp add: http_turn_ok_def)
    then show ?thesis using s Continue by (simp add: http_loop.simps [of \<Gamma> p])
  qed
qed

lemma http_feed_returns:
  assumes "hosts_ok e" and "http_ok p"
  shows "returns (http_feed \<Gamma> p d e) http_post"
  using assms http_loop_returns [of e "p\<lparr>p_buffer := p_buffer p @ d\<rparr>" \<Gamma>]
  by (auto simp: http_feed_def http_ok_def http_inv_def http_post_def)

section \<open>Skipping and segmentation\<close>

text \<open>An uncaptured part of a body moves the parser like any bytes of that length.\<close>

lemma http_skip_feed:
  assumes "http_ok p" and "http_skip p (length d) = Some p'" and "d \<noteq> []"
  shows "http_feed \<Gamma> p d e = Ret (p', e, None)"
proof -
  from assms(2) have b: "p_buffer p = []" and st: "p_state p = HttpFixedBody \<or> p_state p = HttpChunkData"
    and n: "length d \<le> p_remaining p"
    by (auto simp: http_skip_def split: if_splits)
  have p: "p\<lparr>p_buffer := []\<rparr> = p" using b by simp
  have m: "min (length d) (p_remaining p) = length d" using n by simp
  show ?thesis
  proof (cases "p_remaining p = length d")
    case True
    then show ?thesis using assms b st
      by (auto simp: http_feed_def http_loop.simps [of \<Gamma> "p\<lparr>p_buffer := d\<rparr>"] http_step_def
          http_body_step_def http_skip_def Let_def)
  next
    case False
    then have "\<not> p_remaining p - length d = 0" using n by simp
    then show ?thesis using assms b st m False n
      by (auto simp: http_feed_def http_loop.simps [of \<Gamma> "p\<lparr>p_buffer := d\<rparr>"] http_step_def
          http_body_step_def http_skip_def Let_def)
  qed
qed

text \<open>How a turn goes when \<open>b\<close> follows in the buffer.\<close>

abbreviation grown :: "http_parser \<Rightarrow> bytes \<Rightarrow> http_parser" where
  "grown p b \<equiv> p\<lparr>p_buffer := p_buffer p @ b\<rparr>"

definition step_append :: "env \<Rightarrow> http_parser \<Rightarrow> evidence \<Rightarrow> bytes \<Rightarrow> http_parser \<times> evidence \<times> turn \<Rightarrow> bool" where
  "step_append \<Gamma> p e b r \<longleftrightarrow> (case r of (p', e', t) \<Rightarrow> (case t of
      Return (Some er) \<Rightarrow> True
    | Return None \<Rightarrow>
        if p_state p' \<in> {HttpTunnel, HttpH2C} then http_step \<Gamma> (grown p b) e = Ret (grown p' b, e', t)
        else if p_state p' = HttpStopped then http_step \<Gamma> (grown p b) e = Ret (p', e', t)
        else http_step \<Gamma> (grown p b) e = http_step \<Gamma> (grown p' b) e'
    | _ \<Rightarrow> http_step \<Gamma> (grown p b) e = Ret (grown p' b, e', t)))"

lemma step_append_same: "p_state p \<notin> {HttpTunnel, HttpH2C, HttpStopped} \<Longrightarrow> step_append \<Gamma> p e b (p, e, Return None)"
  by (auto simp: step_append_def)

lemma step_append_error [simp]: "step_append \<Gamma> p e b (p', e', Return (Some er))"
  by (simp add: step_append_def)

lemma http_request_append:
  assumes "http_request \<Gamma> h p e = Ret (p', e', t)" and "t \<noteq> Return (Some er)" and "p_state p = HttpHeaders"
  shows "http_request \<Gamma> h (grown p b) e = Ret (if t = Return None \<and> p_state p' = HttpStopped then p' else grown p' b, e', t)
    \<and> (t = Return None \<longrightarrow> p_state p' \<in> {HttpTunnel, HttpStopped}) \<or> (\<exists>er. t = Return (Some er))"
proof (cases "hh_method h = lit ''CONNECT''")
  case True
  then show ?thesis using assms by (auto simp: http_request_def)
next
  case False
  define r where "r = (if hh_host h \<noteq> [] then count_host (hh_host h) e else Ret e)"
  define h2c where "h2c = equal_fold (hh_upgrade h) (lit ''h2c'')"
  have req: "http_request \<Gamma> h q e = gtry r (\<lambda>er. Ret (q, e, Return (Some er))) (\<lambda>e'.
        let p1 = (if h2c then q\<lparr>p_h2c := True\<rparr> else q) in
        if \<not> h2c \<and> hh_upgrade h \<noteq> [] then Ret (q\<lparr>p_state := HttpStopped, p_buffer := []\<rparr>, e', Return None)
        else if hh_chunked h then Ret (p1\<lparr>p_state := HttpChunkSize\<rparr>, e', Next)
        else if hh_length h > 0 then Ret (p1\<lparr>p_state := HttpFixedBody, p_remaining := hh_length h\<rparr>, e', Next)
        else Ret (p1, e', Next))" for q
    using False by (simp only: http_request_def r_def h2c_def if_False)
  show ?thesis
  proof (cases r)
    case (Ret e2)
    show ?thesis
    proof (cases "\<not> h2c \<and> hh_upgrade h \<noteq> []")
      case True
      then show ?thesis using assms Ret by (auto simp: req)
    next
      case go: False
      show ?thesis using assms Ret go
        by (cases h2c; cases "hh_chunked h"; cases "hh_length h = 0") (auto simp: req Let_def)
    qed
  qed (use assms in \<open>auto simp: req\<close>)
qed

lemma has_prefix_shorter: "has_prefix p (x @ y) \<Longrightarrow> has_prefix p x"
  by (auto simp: has_prefix_iff)

lemma has_prefix_appendD:
  assumes "has_prefix (x @ y) p"
  shows "has_prefix x p \<or> has_prefix p x"
proof -
  from assms obtain r where "x @ y = p @ r" by (auto simp: has_prefix_iff)
  then obtain u where "x = p @ u \<or> x @ u = p" by (auto simp: append_eq_append_conv2)
  then show ?thesis by (auto simp: has_prefix_iff)
qed

lemma http_headers_append:
  assumes st: "p_state p = HttpHeaders" and s: "http_headers_step \<Gamma> p e = Ret (p', e', t)"
  shows "step_append \<Gamma> p e b (p', e', t)"
proof (cases "p_h2c p \<and> (has_prefix (p_buffer p) h2_preface \<or> has_prefix h2_preface (p_buffer p))")
  case True
  then show ?thesis using st s has_prefix_mono [of "p_buffer p" h2_preface b]
    by (cases "has_prefix (p_buffer p) h2_preface")
      (auto simp: http_headers_step_def step_append_def http_step_def)
next
  case no: False
  have no': "\<not> (p_h2c p \<and> has_prefix (p_buffer p @ b) h2_preface)"
    "\<not> (p_h2c p \<and> has_prefix h2_preface (p_buffer p @ b))"
    using no has_prefix_appendD [of "p_buffer p" b h2_preface] has_prefix_shorter [of h2_preface "p_buffer p" b]
    by auto
  define q where "q = p\<lparr>p_h2c := False\<rparr>"
  have q: "p_state q = HttpHeaders" "p_buffer q = p_buffer p" "p_h2c q = False" "q\<lparr>p_h2c := False\<rparr> = q"
    "\<And>x. q\<lparr>p_buffer := x, p_h2c := False\<rparr> = q\<lparr>p_buffer := x\<rparr>"
    "\<And>x. q\<lparr>p_h2c := False, p_buffer := x\<rparr> = q\<lparr>p_buffer := x\<rparr>"
    by (simp_all add: q_def st)
  have eq: "http_step \<Gamma> (grown p b) e = http_headers_step \<Gamma> (grown q b) e"
    using no' by (auto simp: http_step_def http_headers_step_def st q_def)
  have s': "http_headers_step \<Gamma> q e = Ret (p', e', t)"
    using s no by (auto simp: http_headers_step_def q_def)
  show ?thesis
  proof (cases "index_of (p_buffer p) crlf2")
    case None
    then have "p' = q" "e' = e" "\<exists>er. t = Return er" using s' q by (auto simp: http_headers_step_def)
    then show ?thesis using eq q by (auto simp: step_append_def http_step_def split: option.splits)
  next
    case (Some i)
    from index_of_crlf2 [OF Some] have i: "i + 4 \<le> length (p_buffer p)" .
    note Some' = index_of_append [OF Some, of b]
    consider (err) er where "t = Return (Some er)"
      | (req) h where "\<not> i + 4 > max_http_header" "parse_http_header \<Gamma> (take i (p_buffer p)) = Ret h"
          "http_request \<Gamma> h (q\<lparr>p_buffer := drop (i + 4) (p_buffer p)\<rparr>) e = Ret (p', e', t)"
      using s' Some i q
      by (auto simp: http_headers_step_def Let_def gtry_eq_Ret gslice_eq_Ret gbind_eq_Ret gfrom_eq_Ret
          split: if_splits)
    then show ?thesis
    proof cases
      case req
      have "http_step \<Gamma> (grown p b) e = http_request \<Gamma> h (grown (q\<lparr>p_buffer := drop (i + 4) (p_buffer p)\<rparr>) b) e"
        unfolding eq using req(1,2) Some' i by (simp add: http_headers_step_def q)
      then show ?thesis using http_request_append [OF req(3), of _ b] q
        by (cases t) (auto simp: step_append_def split: option.splits)
    qed simp
  qed
qed

lemma http_step_next_state:
  assumes "http_step \<Gamma> p e = Ret (p', e', t)" and "p_state p \<notin> {HttpTunnel, HttpH2C, HttpStopped}"
    and "\<nexists>er. t = Return er"
  shows "p_state p' \<notin> {HttpTunnel, HttpH2C, HttpStopped}"
proof (cases "p_state p")
  case HttpHeaders
  from assms HttpHeaders obtain h q where "http_request \<Gamma> h q e = Ret (p', e', t)" "p_state q = HttpHeaders"
    by (auto simp: http_step_def http_headers_step_def Let_def gtry_eq_Ret go_eqs split: if_splits option.splits)
  then show ?thesis using assms(3)
    by (cases "count_host (hh_host h) e") (auto simp: http_request_def Let_def split: if_splits)
next
  case HttpChunkSize
  then show ?thesis using assms
    by (auto simp: http_step_def http_chunk_size_step_def gtry_eq_Ret go_eqs Let_def
        split: if_splits option.splits prod.splits)
next
  case HttpChunkTrailer
  then show ?thesis using assms
    by (auto simp: http_step_def http_trailer_step_def go_eqs gbyte_def split: if_splits option.splits)
qed (use assms in \<open>auto simp: http_step_def http_body_step_def http_chunk_end_step_def go_eqs gbyte_def
        Let_def split: if_splits\<close>)

lemma http_step_append:
  assumes s: "http_step \<Gamma> p e = Ret (p', e', t)" and st: "p_state p \<notin> {HttpTunnel, HttpH2C, HttpStopped}"
  shows "step_append \<Gamma> p e b (p', e', t)"
proof (cases "p_state p")
  case HttpHeaders
  then show ?thesis using s http_headers_append by (simp add: http_step_def)
next
  case HttpChunkSize
  show ?thesis
  proof (cases "index_of (p_buffer p) crlf")
    case None
    then show ?thesis using s HttpChunkSize
      by (auto simp: http_step_def http_chunk_size_step_def step_append_def split: if_splits)
  next
    case (Some i)
    note i = index_of_crlf [OF this] index_of_append [OF this, of b] Some
    obtain w x f where c: "cut (take i (p_buffer p)) (lit '';'') = (w, x, f)" by (metis prod_cases3)
    show ?thesis
    proof (cases "parse_uint (trim_space w) 16 63")
      case (Ret size)
      then show ?thesis using s HttpChunkSize i c
        by (cases "size = 0"; cases "i > max_chunk_line")
          (auto simp: http_step_def http_chunk_size_step_def step_append_def Let_def)
    qed (use s HttpChunkSize i c in \<open>cases "i > max_chunk_line";
        auto simp: http_step_def http_chunk_size_step_def step_append_def Let_def\<close>)+
  qed
next
  case HttpChunkTrailer
  show ?thesis
  proof (cases "all_c [Ret (2 \<le> length (p_buffer p)), gbyte (p_buffer p) 0 (\<lambda>x. x = 13),
      gbyte (p_buffer p) 1 (\<lambda>x. x = 10)] = Ret True")
    case True
    then show ?thesis using s HttpChunkTrailer
      by (auto simp: http_step_def http_trailer_step_def step_append_def gbyte_def go_eqs nth_append split: if_splits)
  next
    case False
    show ?thesis
    proof (cases "index_of (p_buffer p) crlf2")
      case None
      then show ?thesis using s HttpChunkTrailer False
        by (auto simp: http_step_def http_trailer_step_def step_append_def go_eqs split: if_splits)
    next
      case (Some i)
      from index_of_crlf2 [OF this] index_of_append [OF this, of b] Some show ?thesis using s HttpChunkTrailer False
        by (auto simp: http_step_def http_trailer_step_def step_append_def gbyte_def go_eqs nth_append split: if_splits)
    qed
  qed
next
  case HttpChunkEnd
  then show ?thesis using s
    by (auto simp: http_step_def http_chunk_end_step_def step_append_def gbyte_def go_eqs nth_append split: if_splits)
qed (use s st in \<open>auto simp: http_step_def http_body_step_def step_append_def Let_def min_def split: if_splits\<close>)

lemma http_loop_append:
  "p_state p \<notin> {HttpTunnel, HttpH2C, HttpStopped} \<Longrightarrow> b \<noteq> [] \<Longrightarrow> http_loop \<Gamma> p e = Ret (p1, e1, None) \<Longrightarrow>
   http_loop \<Gamma> (grown p b) e = (if p_state p1 \<in> {HttpTunnel, HttpH2C} then Ret (grown p1 b, e1, None)
     else if p_state p1 = HttpStopped then Ret (p1, e1, None) else http_loop \<Gamma> (grown p1 b) e1)"
proof (induction p arbitrary: e rule: measure_induct_rule [where f = http_size])
  case (less p)
  obtain p' e' t where s: "http_step \<Gamma> p e = Ret (p', e', t)"
    using less.prems(3) by (auto simp: http_loop.simps [of \<Gamma> p] gbind_eq_Ret)
  note app = http_step_append [OF s less.prems(1), of b]
  have next_state: "p_state p' \<notin> {HttpTunnel, HttpH2C, HttpStopped}" if "\<nexists>er. t = Return er"
    using http_step_next_state [OF s less.prems(1) that] .
  show ?case
  proof (cases t)
    case (Return er)
    then have "p1 = p'" "e1 = e'" "er = None" using less.prems(3) s by (auto simp: http_loop.simps [of \<Gamma> p])
    then show ?thesis using app Return
      by (auto simp: step_append_def http_loop.simps [of \<Gamma> "grown p b"] http_loop.simps [of \<Gamma> "grown p' b"]
          split: if_splits)
  next
    case Next
    then have smaller: "http_size p' < http_size p" using http_step_shrinks [OF s] by simp
    have step: "http_loop \<Gamma> (grown p b) e = http_loop \<Gamma> (grown p' b) e'"
      using app Next less.prems(2) by (simp add: step_append_def http_loop.simps [of \<Gamma> "grown p b"])
    show ?thesis
    proof (cases "p_buffer p' = []")
      case True
      then have "p1 = p'" "e1 = e'" using less.prems(3) s Next by (auto simp: http_loop.simps [of \<Gamma> p])
      then show ?thesis using step next_state Next by simp
    next
      case False
      then have "http_loop \<Gamma> p' e' = Ret (p1, e1, None)"
        using less.prems(3) s Next by (simp add: http_loop.simps [of \<Gamma> p])
      then show ?thesis using less.IH [OF smaller _ less.prems(2)] next_state Next step by simp
    qed
  next
    case Continue
    then have smaller: "http_size p' < http_size p" using http_step_shrinks [OF s] by simp
    have "http_loop \<Gamma> p' e' = Ret (p1, e1, None)"
      using less.prems(3) s Continue by (simp add: http_loop.simps [of \<Gamma> p])
    moreover have "http_loop \<Gamma> (grown p b) e = http_loop \<Gamma> (grown p' b) e'"
      using app Continue less.prems(2) by (simp add: step_append_def http_loop.simps [of \<Gamma> "grown p b"])
    ultimately show ?thesis using less.IH [OF smaller _ less.prems(2)] next_state Continue by simp
  qed
qed

lemma http_feed_append:
  assumes "http_feed \<Gamma> p a e = Ret (p1, e1, None)" and "p_state p \<notin> {HttpTunnel, HttpH2C}" and "b \<noteq> []"
  shows "http_feed \<Gamma> p (a @ b) e = (if p_state p1 \<in> {HttpTunnel, HttpH2C} then Ret (grown p1 b, e1, None)
    else http_feed \<Gamma> p1 b e1)"
proof (cases "p_state p = HttpStopped")
  case True
  then show ?thesis using assms by (auto simp: http_feed_def)
next
  case False
  then show ?thesis using http_loop_append [of "p\<lparr>p_buffer := p_buffer p @ a\<rparr>" b \<Gamma> e p1 e1] assms
    by (auto simp: http_feed_def)
qed

section \<open>The consumer\<close>

definition http_consumer :: "env \<Rightarrow> http_parser \<times> evidence \<Rightarrow> bytes \<Rightarrow> ((http_parser \<times> evidence) \<times> err option) go" where
  "http_consumer \<Gamma> s d = gbind (http_feed \<Gamma> (fst s) d (snd s)) (\<lambda>(p, e, er). Ret ((p, e), er))"

definition http_fits :: "http_parser \<times> evidence \<Rightarrow> bytes \<Rightarrow> bool" where
  "http_fits s d \<longleftrightarrow> p_state (fst s) \<notin> {HttpTunnel, HttpH2C}"

interpretation http_stream: segmented "http_consumer \<Gamma>" http_fits for \<Gamma>
proof
  fix s a b s'
  assume "http_fits s (a @ b)" "http_consumer \<Gamma> s a = Ret (s', None)" "http_fits s' b" "b \<noteq> []"
  then show "http_consumer \<Gamma> s (a @ b) = http_consumer \<Gamma> s' b"
    using http_feed_append [of \<Gamma> "fst s" a "snd s" "fst s'" "snd s'" b]
    by (auto simp: http_consumer_def http_fits_def gbind_eq_Ret)
qed

text \<open>Tunnel states are reached only by the last segment, so they are left out of the segmented reading.\<close>

lemma http_feed_segments:
  assumes "feed_all (http_consumer \<Gamma>) s (x # xs) = Ret (t, None)" and "\<forall>y \<in> set xs. y \<noteq> []"
    and "\<And>ys u zs. x # xs = ys @ zs \<Longrightarrow> feed_all (http_consumer \<Gamma>) s ys = Ret (u, None) \<Longrightarrow> http_fits u (concat zs)"
  shows "http_consumer \<Gamma> s (concat (x # xs)) = Ret (t, None)"
  by (rule http_stream.feed_all_concat [OF assms])

text \<open>A tunnel is not fed: its bytes go to the parser of the protocol inside.\<close>

lemma http_tunnel_stuck: "p_state p \<in> {HttpTunnel, HttpH2C} \<Longrightarrow> d \<noteq> [] \<Longrightarrow> http_feed \<Gamma> p d e = Panic"
  by (auto simp: http_feed_def http_loop.simps [of \<Gamma> "p\<lparr>p_buffer := p_buffer p @ d\<rparr>"] http_step_def)

lemma http_feed_pieces:
  assumes r: "feed_all (http_consumer \<Gamma>) s (x # xs) = Ret (t, None)" and ne: "\<forall>y \<in> set xs. y \<noteq> []"
    and st: "p_state (fst s) \<notin> {HttpTunnel, HttpH2C}" "p_state (fst t) \<notin> {HttpTunnel, HttpH2C}"
  shows "http_consumer \<Gamma> s (concat (x # xs)) = Ret (t, None)"
proof (rule http_feed_segments [OF r ne])
  fix ys u zs
  assume split: "x # xs = ys @ zs" and u: "feed_all (http_consumer \<Gamma>) s ys = Ret (u, None)"
  show "http_fits u (concat zs)"
  proof (cases "ys = []")
    case True
    then show ?thesis using u st(1) by (simp add: http_fits_def)
  next
    case False
    have rest: "feed_all (http_consumer \<Gamma>) u zs = Ret (t, None)" using r u by (simp only: split feed_all_append) simp
    show ?thesis
    proof (cases zs)
      case Nil
      then show ?thesis using rest st(2) by (simp add: http_fits_def)
    next
      case (Cons z zs')
      then have "z \<noteq> []" using split False ne by (cases ys) auto
      then have "p_state (fst u) \<notin> {HttpTunnel, HttpH2C}"
        using rest Cons http_tunnel_stuck [of "fst u" z \<Gamma> "snd u"] by (auto simp: http_consumer_def)
      then show ?thesis by (simp add: http_fits_def)
    qed
  qed
qed

text \<open>An incomplete request header waits for more bytes.\<close>

lemma http_header_waits:
  assumes "p_state p = HttpHeaders" and "\<not> p_h2c p" and "index_of (p_buffer p @ d) crlf2 = None" and "length (p_buffer p @ d) \<le> max_http_header"
  shows "http_feed \<Gamma> p d e = Ret (p\<lparr>p_buffer := p_buffer p @ d\<rparr>, e, None)"
  using assms by (simp add: http_feed_def http_loop.simps [of \<Gamma> "p\<lparr>p_buffer := p_buffer p @ d\<rparr>"] http_step_def http_headers_step_def)

end
