(* ===== verification/Chunk_Line.thy ===== *)
theory Chunk_Line imports Http_Parser begin

text \<open>
  The limit of a chunk-size line (\<^verbatim>\<open>maxChunkLine\<close> in \<^verbatim>\<open>internal/domain/http.go\<close>) counts the carriage return
  while the line feed has not come: a line of the greatest length is taken whole and refused when it is cut between the two.
\<close>

text \<open>A chunk-size line of the greatest length: 256 bytes.\<close>

definition long_chunk_line :: bytes where
  "long_chunk_line = lit ''1;'' @ replicate 254 120"

lemma long_line_read:
  "index_of (long_chunk_line @ [13]) crlf = None" "index_of (long_chunk_line @ [13, 10]) crlf = Some 256"
  "length long_chunk_line = 256" "cut long_chunk_line (lit '';'') = (lit ''1'', replicate 254 120, True)" "trim_space (lit ''1'') = [49]"
  "long_chunk_line \<noteq> []"
  by code_simp+

lemma long_line_number: "parse_uint [49] 16 63 = Ret 1"
  by (simp add: parse_uint_def digit_value_def)

lemma long_line_step:
  assumes "p_state p = HttpChunkSize"
  shows "p_buffer p = long_chunk_line @ [13, 10] \<Longrightarrow> http_step \<Gamma> p e = Ret (p\<lparr>p_buffer := [], p_state := HttpChunkData, p_remaining := 1\<rparr>, e, Next)"
    and "p_buffer p = long_chunk_line @ [13] \<Longrightarrow> http_step \<Gamma> p e = Ret (p, e, Return (Some (Msg ''HTTP chunk size line limit'')))"
  using assms by (simp_all add: http_step_def http_chunk_size_step_def long_line_read long_line_number max_chunk_line_def gslice_def gfrom_def)

lemma buffer0: "p_buffer http_parser0 = []"
  by (simp add: http_parser0_def)

lemma long_line_whole:
  "http_consumer \<Gamma> (http_parser0\<lparr>p_state := HttpChunkSize\<rparr>, e) (long_chunk_line @ [13, 10])
     = Ret ((http_parser0\<lparr>p_state := HttpChunkData, p_remaining := 1\<rparr>, e), None)"
proof -
  let ?p = "http_parser0\<lparr>p_state := HttpChunkSize\<rparr>" and ?q = "http_parser0\<lparr>p_state := HttpChunkData, p_remaining := 1\<rparr>"
  have q: "(?p\<lparr>p_buffer := long_chunk_line @ [13, 10]\<rparr>)\<lparr>p_buffer := [], p_state := HttpChunkData, p_remaining := 1\<rparr> = ?q" by (simp add: http_parser0_def)
  have "http_loop \<Gamma> (?p\<lparr>p_buffer := long_chunk_line @ [13, 10]\<rparr>) e = Ret (?q, e, None)"
    unfolding http_loop.simps [of \<Gamma> "?p\<lparr>p_buffer := long_chunk_line @ [13, 10]\<rparr>"]
    by (subst long_line_step(1)) (simp_all add: q [simplified] buffer0)
  then show ?thesis by (simp add: http_consumer_def http_feed_def http_parser0_def)
qed

lemma long_line_pieces:
  "\<exists>s. http_consumer \<Gamma> (http_parser0\<lparr>p_state := HttpChunkSize\<rparr>, e) (long_chunk_line @ [13]) = Ret (s, Some (Msg ''HTTP chunk size line limit''))"
proof -
  let ?p = "http_parser0\<lparr>p_state := HttpChunkSize, p_buffer := long_chunk_line @ [13]\<rparr>"
  have "http_loop \<Gamma> ?p e = Ret (?p, e, Some (Msg ''HTTP chunk size line limit''))"
    unfolding http_loop.simps [of \<Gamma> ?p] by (subst long_line_step(2)) simp_all
  then show ?thesis by (simp add: http_consumer_def http_feed_def http_parser0_def)
qed
end
