(* ===== verification/Wire.thy ===== *)
theory Wire imports Prelude begin

text \<open>
  Fields of a packet or a file by their offset, and the writers of \<^verbatim>\<open>encoding/binary\<close>
  (\<^verbatim>\<open>AppendUint16\<close> and its kin), with the lemmas that a field that was written is read back.
\<close>

section \<open>Reading a field\<close>

definition u16_at :: "bytes \<Rightarrow> nat \<Rightarrow> u16 go" where
  "u16_at b i = gbind (gslice b i (i + 2)) be16"

definition u32_at :: "bytes \<Rightarrow> nat \<Rightarrow> u32 go" where
  "u32_at b i = gbind (gslice b i (i + 4)) be32"

lemma returns_u16_at [ret_simps]: "returns (u16_at b i) P \<longleftrightarrow> i + 2 \<le> length b \<and> P (of_nat (be_val (take 2 (drop i b))))"
  by (auto simp: u16_at_def ret_simps)

lemma returns_u32_at [ret_simps]: "returns (u32_at b i) P \<longleftrightarrow> i + 4 \<le> length b \<and> P (of_nat (be_val (take 4 (drop i b))))"
  by (auto simp: u32_at_def ret_simps)

lemma returns_fields_at [ret_simps]:
  "returns (be16_at b i) P \<longleftrightarrow> i + 2 \<le> length b \<and> P (of_nat (be_val (take 2 (drop i b))))"
  "returns (be32_at b i) Q \<longleftrightarrow> i + 4 \<le> length b \<and> Q (of_nat (be_val (take 4 (drop i b))))"
  by (auto simp: be16_at_def be32_at_def ret_simps)

section \<open>Writing a field\<close>

text \<open>The last \<open>k\<close> bytes of a number, the most significant first.\<close>

fun be_bytes :: "nat \<Rightarrow> nat \<Rightarrow> bytes" where
  "be_bytes 0 n = []"
| "be_bytes (Suc k) n = be_bytes k (n div 256) @ [of_nat n]"

definition be16_bytes :: "u16 \<Rightarrow> bytes" where
  "be16_bytes v = [ucast (drop_bit 8 v), ucast v]"

definition be32_bytes :: "u32 \<Rightarrow> bytes" where
  "be32_bytes v = be_bytes 4 (unat v)"

definition le16_bytes :: "u16 \<Rightarrow> bytes" where
  "le16_bytes v = rev (be_bytes 2 (unat v))"

definition le32_bytes :: "u32 \<Rightarrow> bytes" where
  "le32_bytes v = rev (be_bytes 4 (unat v))"

lemma length_be_bytes [simp]: "length (be_bytes k n) = k"
  by (induction k arbitrary: n) simp_all

lemma be_val_be_bytes [simp]: "be_val (be_bytes k n) = n mod 256 ^ k"
proof (induction k arbitrary: n)
  case (Suc k)
  have "n div 256 mod 256 ^ k * 256 + n mod 256 = n mod (256 * 256 ^ k)"
    by (simp add: mod_mult2_eq mult.commute)
  then show ?case by (simp add: Suc unat_of_nat)
qed simp

lemma be16_bytes [simp]: "length (be16_bytes v) = 2" "be16 (be16_bytes v) = Ret v" "of_nat (be_val (be16_bytes v)) = v"
proof -
  show "length (be16_bytes v) = 2" by (simp add: be16_bytes_def)
  have "of_nat (be_val (be16_bytes v)) = (of_nat (unat (drop_bit 8 v) mod 256 * 256 + unat v mod 256) :: u16)"
    by (simp add: be16_bytes_def be_val_def unsigned_ucast_eq take_bit_eq_mod)
  also have "unat (drop_bit 8 v) mod 256 * 256 + unat v mod 256 = unat v"
  proof -
    have lt: "unat v < 65536" using unsigned_less [of v, where ?'a = nat] by simp
    moreover have "unat (drop_bit 8 v) = unat v div 256" by (simp only: unsigned_drop_bit_eq) (simp add: drop_bit_eq_div take_bit_eq_mod lt)
    ultimately show ?thesis by (simp add: less_mult_imp_div_less)
  qed
  finally show v: "of_nat (be_val (be16_bytes v)) = v" by simp
  then show "be16 (be16_bytes v) = Ret v" by (simp add: be16_def be16_bytes_def)
qed

lemma u16_at_bytes: "length x = i \<Longrightarrow> u16_at (x @ be16_bytes v @ y) i = Ret v"
  by (simp add: u16_at_def)

lemma unat_u32_less: "unat (v :: u32) < 4294967296"
  using unsigned_less [of v, where ?'a = nat] by simp

lemma unat_u16_less: "unat (v :: u16) < 65536"
  using unsigned_less [of v, where ?'a = nat] by simp

lemma be32_bytes [simp]: "length (be32_bytes v) = 4" "be32 (be32_bytes v) = Ret v" "be_val (be32_bytes v) = unat v"
  by (simp_all add: be32_bytes_def be32_def unat_u32_less)

lemma le32_bytes [simp]: "length (le32_bytes v) = 4" "le32 (le32_bytes v) = Ret v" "be_val (rev (le32_bytes v)) = unat v"
  by (simp_all add: le32_bytes_def le32_def unat_u32_less)

lemma le16_bytes [simp]: "length (le16_bytes v) = 2" "le16 (le16_bytes v) = Ret v" "be_val (rev (le16_bytes v)) = unat v"
  by (simp_all add: le16_bytes_def le16_def unat_u16_less)

lemma unat_small16: "n < 65536 \<Longrightarrow> unat (of_nat n :: u16) = n"
  by (simp add: unat_of_nat)

text \<open>A field between other bytes.\<close>

lemma field_bytes:
  "length x = i \<Longrightarrow> be16_at (x @ be16_bytes v @ y) i = Ret v"
  "length x = i \<Longrightarrow> be32_at (x @ be32_bytes w @ y) i = Ret w"
  "length x = i \<Longrightarrow> le16_at (x @ le16_bytes v @ y) i = Ret v"
  "length x = i \<Longrightarrow> le32_at (x @ le32_bytes w @ y) i = Ret w"
  "length x = i \<Longrightarrow> u32_at (x @ be32_bytes w @ y) i = Ret w"
  by (auto simp: be16_at_def be32_at_def le16_at_def le32_at_def u32_at_def gfrom_def be16_def be32_def le16_def le32_def)

end
