(* ===== verification/Packet.thy ===== *)
theory Packet imports GoText Wire begin

text \<open>
  The decoder of captured frames (\<^verbatim>\<open>internal/capture/packet.go\<close>): Ethernet with VLAN tags and PPPoE, ARP, IPv4
  and IPv6 with its extension headers, the transport headers, and what an ICMP message quotes.

  A frame comes from the network, and the decoder runs on every one of them.  The lemmas show that no frame
  makes an index or slice go out of range, that every frame with an Ethernet header that is not a malformed
  IP packet is counted, and what a decoded packet can hold.
\<close>

definition ethernet_header :: nat where "ethernet_header = 14"

definition ether_ipv4 :: u16 where "ether_ipv4 = 0x0800"

definition ether_arp :: u16 where "ether_arp = 0x0806"

definition ether_ipv6 :: u16 where "ether_ipv6 = 0x86dd"

definition ether_vlan :: u16 where "ether_vlan = 0x8100"

definition ether_qinq :: u16 where "ether_qinq = 0x88a8"

definition ether_pppoe :: u16 where "ether_pppoe = 0x8864"

definition ether_llc :: u16 where "ether_llc = 1"

definition max_tcp_payload :: nat where "max_tcp_payload = 16384"

definition snap_length :: nat where "snap_length = max_tcp_payload + 256"

definition ip_snap_length :: nat where "ip_snap_length = snap_length - 22"

record packet =
  k_interface :: bytes
  k_source :: addrport
  k_destination :: addrport
  k_protocol :: u8
  k_ip_bytes :: u32
  k_ether_type :: u16
  k_arp_op :: u16
  k_hardware_addr :: bytes
  k_tcp_seq :: u32
  k_tcp_ack :: u32
  k_payload :: bytes
  k_payload_len :: nat
  k_frame :: bytes
  k_frame_len :: nat
  k_captured_at :: gotime
  k_payload_truncated :: bool
  k_outgoing :: bool
  k_truncated :: bool
  k_has_ports :: bool
  k_syn :: bool
  k_ack :: bool
  k_fin :: bool
  k_rst :: bool
  k_fragmented :: bool
  k_fragment_id :: u32
  k_fragment_offset :: u16
  k_icmp_type :: u8
  k_icmp_code :: u8
  k_icmp_id :: u16
  k_icmp_seq :: u16
  k_icmp_has_echo :: bool
  k_icmp_value :: u32
  k_icmp_target :: addr
  k_quoted_protocol :: u8
  k_quoted_source :: addrport
  k_quoted_destination :: addrport

definition packet0 :: packet where
  "packet0 = \<lparr>k_interface = [], k_source = (NoAddr, 0), k_destination = (NoAddr, 0), k_protocol = 0, k_ip_bytes = 0,
     k_ether_type = 0, k_arp_op = 0, k_hardware_addr = replicate 6 0, k_tcp_seq = 0, k_tcp_ack = 0, k_payload = [],
     k_payload_len = 0, k_frame = [], k_frame_len = 0, k_captured_at = None, k_payload_truncated = False,
     k_outgoing = False, k_truncated = False, k_has_ports = False, k_syn = False, k_ack = False, k_fin = False,
     k_rst = False, k_fragmented = False, k_fragment_id = 0, k_fragment_offset = 0, k_icmp_type = 0, k_icmp_code = 0,
     k_icmp_id = 0, k_icmp_seq = 0, k_icmp_has_echo = False, k_icmp_value = 0, k_icmp_target = NoAddr,
     k_quoted_protocol = 0, k_quoted_source = (NoAddr, 0), k_quoted_destination = (NoAddr, 0)\<rparr>"

section \<open>ICMP\<close>

text \<open>\<^verbatim>\<open>netip.AddrFrom4([4]byte(b[i:i+4]))\<close> and its 16-byte kin.\<close>

definition addr4_at :: "bytes \<Rightarrow> nat \<Rightarrow> addr go" where
  "addr4_at b i = gbind (gslice b i (i + 4)) (\<lambda>x. Ret (V4 x))"

definition addr16_at :: "bytes \<Rightarrow> nat \<Rightarrow> addr go" where
  "addr16_at b i = gbind (gslice b i (i + 16)) (\<lambda>x. Ret (V6 x []))"

text \<open>The header an ICMP error quotes: its protocol, its addresses and the bytes after it.\<close>

definition quoted_header :: "bytes \<Rightarrow> bool \<Rightarrow> (u8 \<times> addr \<times> addr \<times> bytes) option go" where
  "quoted_header inner v6 =
     gbind (all_c [Ret (\<not> v6), Ret (20 \<le> length inner), gbyte inner 0 (\<lambda>x. drop_bit 4 x = 4)]) (\<lambda>four.
     if four then gbind (gidx inner 0) (\<lambda>b0. let header_len = unat (b0 AND 0x0f) * 4 in
       if header_len < 20 \<or> length inner < header_len then Ret None
       else gbind (gidx inner 9) (\<lambda>protocol. gbind (addr4_at inner 12) (\<lambda>src. gbind (addr4_at inner 16) (\<lambda>dst.
         gbind (gfrom inner header_len) (\<lambda>transport. Ret (Some (protocol, src, dst, transport)))))))
     else gbind (all_c [Ret v6, Ret (40 \<le> length inner), gbyte inner 0 (\<lambda>x. drop_bit 4 x = 6)]) (\<lambda>six.
       if six then gbind (gidx inner 6) (\<lambda>protocol. gbind (addr16_at inner 8) (\<lambda>src. gbind (addr16_at inner 24) (\<lambda>dst.
         gbind (gfrom inner 40) (\<lambda>transport. Ret (Some (protocol, src, dst, transport))))))
       else Ret None))"

definition decode_quoted :: "packet \<Rightarrow> bytes \<Rightarrow> bool \<Rightarrow> packet go" where
  "decode_quoted p inner v6 = gbind (quoted_header inner v6) (\<lambda>r. case r of None \<Rightarrow> Ret p
   | Some (protocol, src, dst, transport) \<Rightarrow>
     let p1 = p\<lparr>k_quoted_protocol := protocol, k_quoted_source := (src, 0), k_quoted_destination := (dst, 0)\<rparr> in
     if (protocol = 6 \<or> protocol = 17) \<and> 4 \<le> length transport then
       gbind (u16_at transport 0) (\<lambda>sp. gbind (u16_at transport 2) (\<lambda>dp.
         Ret (p1\<lparr>k_quoted_source := (src, sp), k_quoted_destination := (dst, dp)\<rparr>)))
     else Ret p1)"

definition decode_icmp_detail :: "packet \<Rightarrow> bytes \<Rightarrow> packet go" where
  "decode_icmp_detail p data = (if length data < 8 then Ret p
     else let v6 = (k_protocol p = 58); t = k_icmp_type p in
       if \<not> v6 \<and> (t = 3 \<or> t = 4 \<or> t = 11 \<or> t = 12) then
         gbind (if t = 3 \<and> k_icmp_code p = 4 then gbind (u16_at data 6) (\<lambda>v. Ret (p\<lparr>k_icmp_value := ucast v\<rparr>)) else Ret p) (\<lambda>p1.
           gbind (gfrom data 8) (\<lambda>inner. decode_quoted p1 inner False))
       else if \<not> v6 \<and> t = 5 then
         gbind (addr4_at data 4) (\<lambda>target. gbind (gfrom data 8) (\<lambda>inner. decode_quoted (p\<lparr>k_icmp_target := target\<rparr>) inner False))
       else if v6 \<and> 1 \<le> t \<and> t \<le> 4 then
         gbind (if t = 2 then gbind (u32_at data 4) (\<lambda>v. Ret (p\<lparr>k_icmp_value := v\<rparr>)) else Ret p) (\<lambda>p1.
           gbind (gfrom data 8) (\<lambda>inner. decode_quoted p1 inner True))
       else if v6 \<and> (t = 135 \<or> t = 136 \<or> t = 137) \<and> 24 \<le> length data then
         gbind (addr16_at data 8) (\<lambda>target. Ret (p\<lparr>k_icmp_target := target\<rparr>))
       else Ret p)"

definition decode_icmp :: "packet \<Rightarrow> bytes \<Rightarrow> packet go" where
  "decode_icmp p data = (if 2 \<le> length data then
       gbind (gidx data 0) (\<lambda>t. gbind (gidx data 1) (\<lambda>c. let p1 = p\<lparr>k_icmp_type := t, k_icmp_code := c\<rparr> in
         gbind (if 8 \<le> length data \<and> (k_protocol p = 1 \<and> (t = 0 \<or> t = 8) \<or> k_protocol p = 58 \<and> (t = 128 \<or> t = 129)) then
             gbind (u16_at data 4) (\<lambda>i. gbind (u16_at data 6) (\<lambda>n.
               Ret (p1\<lparr>k_icmp_id := i, k_icmp_seq := n, k_icmp_has_echo := True\<rparr>)))
           else Ret p1) (\<lambda>p2. decode_icmp_detail p2 data)))
     else Ret p)"

section \<open>Transport\<close>

definition decode_tcp :: "packet \<Rightarrow> bytes \<Rightarrow> int \<Rightarrow> packet go" where
  "decode_tcp p data wire_length =
     gbind (u32_at data 4) (\<lambda>sq. gbind (u32_at data 8) (\<lambda>ackno. gbind (gidx data 13) (\<lambda>flags. gbind (gidx data 12) (\<lambda>b12.
       let header_len = unat (drop_bit 4 b12) * 4;
           p1 = p\<lparr>k_tcp_seq := sq, k_tcp_ack := ackno, k_syn := flags AND 0x02 \<noteq> 0, k_ack := flags AND 0x10 \<noteq> 0,
             k_fin := flags AND 0x01 \<noteq> 0, k_rst := flags AND 0x04 \<noteq> 0\<rparr>;
           p2 = (if 20 \<le> header_len then p1\<lparr>k_payload_len := nat (max 0 (wire_length - int header_len))\<rparr> else p1) in
       gbind (if 20 \<le> header_len \<and> header_len \<le> length data
         then gbind (gslice data header_len (min (length data) (header_len + max_tcp_payload))) (\<lambda>b. Ret (p2\<lparr>k_payload := b\<rparr>))
         else Ret p2) (\<lambda>p3. Ret (p3\<lparr>k_payload_truncated := length (k_payload p3) < k_payload_len p3\<rparr>))))))"

definition decode_udp :: "packet \<Rightarrow> bytes \<Rightarrow> packet go" where
  "decode_udp p data = gbind (u16_at data 4) (\<lambda>len16. let udp_length = unat len16 in
     if 8 \<le> udp_length then
       gbind (all_c [Ret (8 + 7 \<le> length data), gbyte data 8 (\<lambda>x. x AND 0xc0 = 0xc0), gbind (u32_at data 9) (\<lambda>v. Ret (v \<noteq> 0))]) (\<lambda>quic.
         let limit = (if quic then 16384 else if snd (k_source p) = 53 \<or> snd (k_destination p) = 53 then 4096 else 1024) in
         gbind (gslice data 8 (min (min (length data) udp_length) (8 + limit))) (\<lambda>b.
           Ret (p\<lparr>k_payload_truncated := limit < udp_length - 8 \<or> length data < udp_length, k_payload := b\<rparr>)))
     else Ret p)"

definition decode_transport :: "packet \<Rightarrow> bytes \<Rightarrow> int \<Rightarrow> packet go" where
  "decode_transport p data wire_length =
     (if k_protocol p = 6 \<or> k_protocol p = 17 \<or> k_protocol p = 132 \<or> k_protocol p = 136 then
        (if length data < 4 then Ret p
         else gbind (u16_at data 0) (\<lambda>sp. gbind (u16_at data 2) (\<lambda>dp.
           let p1 = p\<lparr>k_source := (fst (k_source p), sp), k_destination := (fst (k_destination p), dp), k_has_ports := True\<rparr> in
           if k_protocol p = 6 \<and> 20 \<le> length data then decode_tcp p1 data wire_length
           else if k_protocol p = 17 \<and> 8 \<le> length data then decode_udp p1 data
           else Ret p1)))
      else if k_protocol p = 1 \<or> k_protocol p = 58 then decode_icmp p data
      else Ret p)"

section \<open>Network\<close>

definition decode_arp :: "bytes \<Rightarrow> bool \<Rightarrow> packet option go" where
  "decode_arp arp outgoing =
     gbind (any_c [Ret (length arp < 28), gbind (u16_at arp 0) (\<lambda>v. Ret (v \<noteq> 1)), gbind (u16_at arp 2) (\<lambda>v. Ret (v \<noteq> ether_ipv4)),
         gbyte arp 4 (\<lambda>x. x \<noteq> 6), gbyte arp 5 (\<lambda>x. x \<noteq> 4)]) (\<lambda>bad.
     if bad then Ret None
     else gbind (u16_at arp 6) (\<lambda>op. gbind (addr4_at arp 14) (\<lambda>src. gbind (addr4_at arp 24) (\<lambda>dst. gbind (gslice arp 8 14) (\<lambda>hw.
       Ret (Some (packet0\<lparr>k_ether_type := ether_arp, k_ip_bytes := 28, k_outgoing := outgoing, k_arp_op := op,
         k_source := (src, 0), k_destination := (dst, 0), k_hardware_addr := hw\<rparr>)))))))"

definition decode_ipv4 :: "bytes \<Rightarrow> bool \<Rightarrow> packet option go" where
  "decode_ipv4 ip outgoing =
     gbind (any_c [Ret (length ip < 20), gbyte ip 0 (\<lambda>x. drop_bit 4 x \<noteq> 4)]) (\<lambda>bad.
     if bad then Ret None
     else gbind (gidx ip 0) (\<lambda>b0. gbind (u16_at ip 2) (\<lambda>total16.
       let header_len = unat (b0 AND 0x0f) * 4; total_len = unat total16 in
       if header_len < 20 \<or> total_len < header_len \<or> length ip < header_len then Ret None
       else gbind (addr4_at ip 12) (\<lambda>src. gbind (addr4_at ip 16) (\<lambda>dst. gbind (gidx ip 9) (\<lambda>protocol.
         let p = packet0\<lparr>k_source := (src, 0), k_destination := (dst, 0), k_protocol := protocol, k_ip_bytes := of_nat total_len,
               k_outgoing := outgoing, k_truncated := length ip < min total_len ip_snap_length\<rparr> in
         gbind (u16_at ip 6) (\<lambda>flags. gbind (u16_at ip 4) (\<lambda>ident.
           let fragmented = flags AND 0x3fff \<noteq> 0;
               p1 = (if fragmented then p\<lparr>k_fragmented := True, k_fragment_id := ucast ident, k_fragment_offset := flags AND 0x1fff\<rparr> else p) in
           if fragmented \<and> k_fragment_offset p1 \<noteq> 0 then Ret (Some p1)
           else gbind (gslice ip header_len (min (length ip) total_len)) (\<lambda>data.
             gbind (decode_transport p1 data (int (total_len - header_len))) (\<lambda>p2. Ret (Some p2)))))))))))"

text \<open>
  The walk over the extension headers: it ends with the packet (\<open>Inl\<close>), or with the packet, the last
  next-header value and the offset behind the headers (\<open>Inr\<close>).
\<close>

definition ext_header :: "u8 \<Rightarrow> bool" where
  "ext_header next \<longleftrightarrow> \<not> (next \<noteq> 0 \<and> next \<noteq> 43 \<and> next \<noteq> 44 \<and> next \<noteq> 60 \<and> next \<noteq> 51)"

definition ipv6_fragment :: "packet \<Rightarrow> bytes \<Rightarrow> nat \<Rightarrow> (packet + packet) go" where
  "ipv6_fragment p ip offset = (if length ip < offset + 8 then Ret (Inl p)
     else gbind (u32_at ip (offset + 4)) (\<lambda>ident. gbind (u16_at ip (offset + 2)) (\<lambda>v.
       let p1 = p\<lparr>k_fragmented := True, k_fragment_id := ident, k_fragment_offset := drop_bit 3 v\<rparr> in
       if k_fragment_offset p1 \<noteq> 0 then gbind (gidx ip offset) (\<lambda>x. Ret (Inl (p1\<lparr>k_protocol := x\<rparr>)))
       else Ret (Inr p1))))"

fun ipv6_headers :: "nat \<Rightarrow> packet \<Rightarrow> bytes \<Rightarrow> nat \<Rightarrow> u8 \<Rightarrow> nat \<Rightarrow> (packet + packet \<times> u8 \<times> nat) go" where
  "ipv6_headers 0 p ip len next offset = Ret (Inr (p, next, offset))"
| "ipv6_headers (Suc n) p ip len next offset = (if \<not> ext_header next then Ret (Inr (p, next, offset))
     else if length ip < offset + 2 then Ret (Inl p)
     else gbind (gidx ip (offset + 1)) (\<lambda>x.
       gbind (if next = 44 then ipv6_fragment p ip offset else Ret (Inr p)) (\<lambda>r. case r of
         Inl p1 \<Rightarrow> Ret (Inl p1)
       | Inr p1 \<Rightarrow> let step = (if next = 44 then 8 else if next = 51 then (unat x + 2) * 4 else (unat x + 1) * 8) in
           if length ip < offset + step \<or> len < offset + step then Ret (Inl p1)
           else gbind (gidx ip offset) (\<lambda>next'. ipv6_headers n p1 ip len next' (offset + step)))))"

definition decode_ipv6 :: "bytes \<Rightarrow> bool \<Rightarrow> packet option go" where
  "decode_ipv6 ip outgoing =
     gbind (any_c [Ret (length ip < 40), gbyte ip 0 (\<lambda>x. drop_bit 4 x \<noteq> 6)]) (\<lambda>bad.
     if bad then Ret None
     else gbind (u16_at ip 4) (\<lambda>len16. let len = 40 + unat len16 in
       gbind (addr16_at ip 8) (\<lambda>src. gbind (addr16_at ip 24) (\<lambda>dst. gbind (gidx ip 6) (\<lambda>next.
         let p = packet0\<lparr>k_source := (src, 0), k_destination := (dst, 0), k_protocol := next, k_ip_bytes := of_nat len,
               k_outgoing := outgoing, k_truncated := length ip < min len ip_snap_length\<rparr> in
         gbind (ipv6_headers 8 p ip len next 40) (\<lambda>r. case r of
           Inl p1 \<Rightarrow> Ret (Some p1)
         | Inr (p1, next', offset) \<Rightarrow> let p2 = p1\<lparr>k_protocol := next'\<rparr> in
             if offset \<le> length ip then
               gbind (gslice ip offset (min (length ip) len)) (\<lambda>data.
                 gbind (decode_transport p2 data (int len - int offset)) (\<lambda>p3. Ret (Some p3)))
             else Ret (Some p2)))))))"

definition decode_network :: "bytes \<Rightarrow> u16 \<Rightarrow> bool \<Rightarrow> packet option go" where
  "decode_network data ether_type outgoing =
     (if ether_type = ether_ipv4 then decode_ipv4 data outgoing
      else if ether_type = ether_ipv6 then decode_ipv6 data outgoing
      else gbind (if ether_type = ether_arp then decode_arp data outgoing else Ret None) (\<lambda>r. case r of
        Some p \<Rightarrow> Ret (Some p)
      | None \<Rightarrow> let t = (if ether_type < 0x0600 then ether_llc else ether_type) in
          Ret (Some (packet0\<lparr>k_ether_type := t, k_ip_bytes := of_nat (length data), k_outgoing := outgoing\<rparr>))))"

section \<open>Ethernet\<close>

text \<open>The VLAN tags, at most two: \<open>None\<close> where a tag is cut off.\<close>

fun vlan_tags :: "nat \<Rightarrow> bytes \<Rightarrow> u16 \<Rightarrow> nat \<Rightarrow> (u16 \<times> nat) option go" where
  "vlan_tags 0 frame t offset = Ret (Some (t, offset))"
| "vlan_tags (Suc n) frame t offset = (if t \<noteq> ether_vlan \<and> t \<noteq> ether_qinq then Ret (Some (t, offset))
     else if length frame < offset + 4 then Ret None
     else gbind (u16_at frame (offset + 2)) (\<lambda>t'. vlan_tags n frame t' (offset + 4)))"

definition pppoe_session :: "bytes \<Rightarrow> u16 \<Rightarrow> nat \<Rightarrow> (u16 \<times> nat) go" where
  "pppoe_session frame t offset = (if t = ether_pppoe \<and> offset + 8 \<le> length frame then
       gbind (u16_at frame (offset + 6)) (\<lambda>ppp.
         Ret (if ppp = 0x0021 then (ether_ipv4, offset + 8) else if ppp = 0x0057 then (ether_ipv6, offset + 8) else (t, offset)))
     else Ret (t, offset))"

definition decode :: "bytes \<Rightarrow> bool \<Rightarrow> packet option go" where
  "decode frame outgoing = (if length frame < ethernet_header then Ret None
     else gbind (u16_at frame 12) (\<lambda>t0. gbind (vlan_tags 2 frame t0 ethernet_header) (\<lambda>r. case r of
       None \<Rightarrow> Ret None
     | Some (t, offset) \<Rightarrow> gbind (pppoe_session frame t offset) (\<lambda>(t', offset').
         gbind (gfrom frame offset') (\<lambda>data. decode_network data t' outgoing)))))"

definition ethernet_frame :: "u16 \<Rightarrow> bytes \<Rightarrow> bytes" where
  "ethernet_frame t data = replicate 12 0 @ be16_bytes t @ data"

section \<open>Every frame is decoded\<close>

lemma returns_addr4_at [ret_simps]: "returns (addr4_at b i) P \<longleftrightarrow> i + 4 \<le> length b \<and> P (V4 (take 4 (drop i b)))"
  by (auto simp: addr4_at_def ret_simps)

lemma returns_addr16_at [ret_simps]: "returns (addr16_at b i) P \<longleftrightarrow> i + 16 \<le> length b \<and> P (V6 (take 16 (drop i b)) [])"
  by (auto simp: addr16_at_def ret_simps)

definition slice_of :: "bytes \<Rightarrow> bytes \<Rightarrow> bool" where
  "slice_of x b \<longleftrightarrow> (\<exists>i n. x = take n (drop i b))"

lemma slice_of_Nil [simp]: "slice_of [] b"
  unfolding slice_of_def by (rule exI [of _ 0], rule exI [of _ 0]) simp

lemma slice_of_self: "slice_of (take n (drop i b)) b"
  unfolding slice_of_def by blast

lemma slice_of_trans: "slice_of x y \<Longrightarrow> slice_of y b \<Longrightarrow> slice_of x b"
proof -
  have t: "take n (drop i (take m (drop j b))) = take (min n (m - i)) (drop (i + j) b)" for i j m n
    by (simp add: drop_take)
  show "slice_of x y \<Longrightarrow> slice_of y b \<Longrightarrow> slice_of x b"
    unfolding slice_of_def by (elim exE) (simp only: t, blast)
qed

text \<open>
  \<open>packet_ok\<close>: what holds of every decoded packet; \<open>bare\<close>: a packet before its transport header was read.
\<close>

definition packet_ok :: "bytes \<Rightarrow> packet \<Rightarrow> bool" where
  "packet_ok b p \<longleftrightarrow> slice_of (k_payload p) b \<and> length (k_payload p) \<le> max_tcp_payload
     \<and> (k_payload p \<noteq> [] \<longrightarrow> k_has_ports p) \<and> (k_has_ports p \<longrightarrow> k_fragment_offset p = 0)
     \<and> (\<not> k_payload_truncated p \<longrightarrow> k_protocol p = 6 \<longrightarrow> k_payload_len p \<le> length (k_payload p))"

definition bare :: "packet \<Rightarrow> bool" where
  "bare p \<longleftrightarrow> k_payload p = [] \<and> k_payload_len p = 0 \<and> \<not> k_has_ports p"

lemma bare_ok: "bare p \<Longrightarrow> packet_ok b p"
  by (simp add: bare_def packet_ok_def)

lemma packet_ok_mono: "packet_ok x p \<Longrightarrow> slice_of x b \<Longrightarrow> packet_ok b p"
  by (auto simp: packet_ok_def intro: slice_of_trans)

lemma bare_packet0 [simp]: "bare packet0"
  by (simp add: bare_def packet0_def)

lemma quoted_header_returns: "returns (quoted_header inner v6) (\<lambda>r. True)"
  by (auto simp: quoted_header_def ret_simps Let_def simp del: all_c.simps)

lemma decode_quoted_bare: "bare p \<Longrightarrow> returns (decode_quoted p inner v6) bare"
  unfolding decode_quoted_def
  by (rule returns_bind [OF quoted_header_returns]) (auto simp: ret_simps Let_def bare_def split: option.split)

lemma decode_icmp_detail_bare: "bare p \<Longrightarrow> returns (decode_icmp_detail p data) bare"
proof -
  assume b: "bare p"
  have q: "returns (decode_quoted (p\<lparr>k_icmp_value := v\<rparr>) i s) bare" "returns (decode_quoted (p\<lparr>k_icmp_target := t\<rparr>) i s) bare"
    "returns (decode_quoted p i s) bare" for v t i s
    by (rule decode_quoted_bare; use b in \<open>simp add: bare_def\<close>)+
  show ?thesis using b q
    by (auto simp: decode_icmp_detail_def ret_simps Let_def) (auto simp: bare_def)
qed

lemma decode_icmp_bare: "bare p \<Longrightarrow> returns (decode_icmp p data) bare"
proof -
  assume b: "bare p"
  have "returns (decode_icmp_detail (p\<lparr>k_icmp_type := t, k_icmp_code := c\<rparr>) data) bare"
    "returns (decode_icmp_detail (p\<lparr>k_icmp_type := t, k_icmp_code := c, k_icmp_id := i, k_icmp_seq := n, k_icmp_has_echo := True\<rparr>) data) bare" for t c i n
    by (rule decode_icmp_detail_bare; use b in \<open>simp add: bare_def\<close>)+
  then show ?thesis using b by (auto simp: decode_icmp_def ret_simps Let_def)
qed

lemma decode_tcp_ok:
  assumes "20 \<le> length data" and "bare (p\<lparr>k_has_ports := False\<rparr>)" and "k_has_ports p" and "k_fragment_offset p = 0"
  shows "returns (decode_tcp p data n) (packet_ok data)"
  using assms slice_of_self
  by (auto simp: decode_tcp_def ret_simps Let_def packet_ok_def bare_def min_def)

lemma decode_udp_ok:
  assumes "8 \<le> length data" and "bare (p\<lparr>k_has_ports := False\<rparr>)" and "k_has_ports p" and "k_fragment_offset p = 0" and "k_protocol p = 17"
  shows "returns (decode_udp p data) (packet_ok data)"
proof -
  have "returns (all_c [Ret (8 + 7 \<le> length data), gbyte data 8 (\<lambda>x. x AND 0xc0 = 0xc0), gbind (u32_at data 9) (\<lambda>v. Ret (v \<noteq> 0))]) (\<lambda>_. True)"
    by (auto simp: ret_simps simp del: all_c.simps)
  then obtain q where q: "all_c [Ret (8 + 7 \<le> length data), gbyte data 8 (\<lambda>x. x AND 0xc0 = 0xc0), gbind (u32_at data 9) (\<lambda>v. Ret (v \<noteq> 0))] = Ret q"
    unfolding returns_def by blast
  show ?thesis unfolding decode_udp_def q gbind.simps Let_def using assms slice_of_self [of _ 8 data]
    by (simp add: ret_simps packet_ok_def bare_def max_tcp_payload_def) (auto simp: min_def)
qed

lemma decode_transport_ok:
  assumes "bare p" and "k_fragment_offset p = 0"
  shows "returns (decode_transport p data n) (packet_ok data)"
proof -
  have i: "returns (decode_icmp p data) (packet_ok data)" by (rule returns_mono [OF decode_icmp_bare [OF assms(1)]]) (rule bare_ok)
  have t: "returns (decode_tcp (p\<lparr>k_source := s, k_destination := d, k_has_ports := True\<rparr>) data n) (packet_ok data)" if "20 \<le> length data" for s d
    by (rule decode_tcp_ok) (use that assms in \<open>auto simp: bare_def\<close>)
  have u: "returns (decode_udp (p\<lparr>k_source := s, k_destination := d, k_has_ports := True\<rparr>) data) (packet_ok data)" if "8 \<le> length data" "k_protocol p = 17" for s d
    by (rule decode_udp_ok) (use that assms in \<open>auto simp: bare_def\<close>)
  show ?thesis using i t u assms bare_ok [OF assms(1)]
    by (auto simp: decode_transport_def ret_simps Let_def) (auto simp: packet_ok_def bare_def)
qed

section \<open>Headers\<close>

text \<open>What a walk over extension headers ends with.\<close>

definition walk_ok :: "packet + packet \<times> u8 \<times> nat \<Rightarrow> bool" where
  "walk_ok r \<longleftrightarrow> (case r of Inl p \<Rightarrow> bare p | Inr (p, next, offset) \<Rightarrow> bare p \<and> k_fragment_offset p = 0)"

lemma ipv6_fragment_returns:
  "bare p \<Longrightarrow> k_fragment_offset p = 0 \<Longrightarrow> returns (ipv6_fragment p ip offset) (\<lambda>r. case r of Inl p' \<Rightarrow> bare p' | Inr p' \<Rightarrow> bare p' \<and> k_fragment_offset p' = 0)"
  by (auto simp: ipv6_fragment_def ret_simps Let_def) (auto simp: bare_def)

lemma ipv6_headers_returns:
  "bare p \<Longrightarrow> k_fragment_offset p = 0 \<Longrightarrow> offset \<le> len \<Longrightarrow>
   returns (ipv6_headers n p ip len next offset) (\<lambda>r. walk_ok r \<and> (\<forall>p' x o'. r = Inr (p', x, o') \<longrightarrow> o' \<le> len))"
proof (induction n p ip len "next" offset rule: ipv6_headers.induct)
  case (1 p ip len "next" offset)
  then show ?case by (simp add: walk_ok_def)
next
  case (2 n p ip len "next" offset)
  show ?case
  proof (cases "ext_header next \<and> \<not> length ip < offset + 2")
    case False
    then show ?thesis using "2.prems" by (auto simp: walk_ok_def)
  next
    case True
    then have x: "gidx ip (offset + 1) = Ret (ip ! (offset + 1))" by simp
    have "returns (if next = 44 then ipv6_fragment p ip offset else Ret (Inr p)) (\<lambda>r. case r of Inl p' \<Rightarrow> bare p' | Inr p' \<Rightarrow> bare p' \<and> k_fragment_offset p' = 0)"
      using ipv6_fragment_returns "2.prems" by auto
    then obtain r where r: "(if next = 44 then ipv6_fragment p ip offset else Ret (Inr p)) = Ret r"
      and post: "case r of Inl p' \<Rightarrow> bare p' | Inr p' \<Rightarrow> bare p' \<and> k_fragment_offset p' = 0"
      unfolding returns_def by blast
    have eq: "ipv6_headers (Suc n) p ip len next offset = (case r of
         Inl p1 \<Rightarrow> Ret (Inl p1)
       | Inr p1 \<Rightarrow> let step = (if next = 44 then 8 else if next = 51 then (unat (ip ! (offset + 1)) + 2) * 4 else (unat (ip ! (offset + 1)) + 1) * 8) in
           if length ip < offset + step \<or> len < offset + step then Ret (Inl p1)
           else gbind (gidx ip offset) (\<lambda>next'. ipv6_headers n p1 ip len next' (offset + step)))"
      using True by (simp only: ipv6_headers.simps x r gbind.simps) simp
    show ?thesis
    proof (cases r)
      case (Inl p1)
      then show ?thesis unfolding eq using post by (simp add: walk_ok_def)
    next
      case (Inr p1)
      let ?step = "if next = 44 then 8 else if next = 51 then (unat (ip ! (offset + 1)) + 2) * 4 else (unat (ip ! (offset + 1)) + 1) * 8"
      show ?thesis
      proof (cases "length ip < offset + ?step \<or> len < offset + ?step")
        case True
        then show ?thesis unfolding eq using post Inr by (simp add: walk_ok_def Let_def)
      next
        case False
        have g: "gidx ip offset = Ret (ip ! offset)" using True by simp
        have "returns (ipv6_headers n p1 ip len (ip ! offset) (offset + ?step)) (\<lambda>r. walk_ok r \<and> (\<forall>p' x o'. r = Inr (p', x, o') \<longrightarrow> o' \<le> len))"
          by (rule "2.IH") (use True False post Inr g x r in \<open>auto simp del: gidx_in\<close>)
        then show ?thesis unfolding eq using False Inr g by (simp add: Let_def)
      qed
    qed
  qed
qed

definition counted :: "bytes \<Rightarrow> packet option \<Rightarrow> bool" where
  "counted b r \<longleftrightarrow> (case r of None \<Rightarrow> True | Some p \<Rightarrow> packet_ok b p)"

lemma decode_arp_returns: "returns (decode_arp arp outgoing) (counted b)"
  by (auto simp: decode_arp_def ret_simps counted_def packet_ok_def packet0_def simp del: any_c.simps)

lemma decode_ipv4_returns: "returns (decode_ipv4 ip outgoing) (counted ip)"
proof -
  have t: "returns (decode_transport p (take n (drop i ip)) m) (packet_ok ip)" if "bare p" "k_fragment_offset p = 0" for p n i m
    by (rule returns_mono [OF decode_transport_ok [OF that]]) (rule packet_ok_mono [OF _ slice_of_self])
  have b: "k_payload packet0 = []" "k_payload_len packet0 = 0" "\<not> k_has_ports packet0" "k_fragment_offset packet0 = 0"
    by (simp_all add: packet0_def)
  show ?thesis
    unfolding decode_ipv4_def Let_def
    by (auto simp: ret_simps counted_def simp del: any_c.simps intro!: t bare_ok) (simp_all add: bare_def b)
qed

lemma decode_ipv6_returns: "returns (decode_ipv6 ip outgoing) (counted ip)"
proof -
  have t: "returns (decode_transport p (take n (drop i ip)) m) (packet_ok ip)" if "bare p" "k_fragment_offset p = 0" for p n i m
    by (rule returns_mono [OF decode_transport_ok [OF that]]) (rule packet_ok_mono [OF _ slice_of_self])
  have b: "k_payload packet0 = []" "k_payload_len packet0 = 0" "\<not> k_has_ports packet0" "k_fragment_offset packet0 = 0"
    by (simp_all add: packet0_def)
  have w: "returns (gbind (ipv6_headers 8 p ip len next 40) (\<lambda>r. case r of
           Inl p1 \<Rightarrow> Ret (Some p1)
         | Inr (p1, next', offset) \<Rightarrow>
             if offset \<le> length ip then
               gbind (gslice ip offset (min (length ip) len)) (\<lambda>data.
                 gbind (decode_transport (p1\<lparr>k_protocol := next'\<rparr>) data (int len - int offset)) (\<lambda>p3. Ret (Some p3)))
             else Ret (Some (p1\<lparr>k_protocol := next'\<rparr>)))) (counted ip)"
    if p: "bare p" "k_fragment_offset p = 0" "40 \<le> len" for p len "next"
  proof (rule returns_bind [OF ipv6_headers_returns [OF p]])
    fix r assume post: "walk_ok r \<and> (\<forall>p' x o'. r = Inr (p', x, o') \<longrightarrow> o' \<le> len)"
    show "returns (case r of
           Inl p1 \<Rightarrow> Ret (Some p1)
         | Inr (p1, next', offset) \<Rightarrow>
             if offset \<le> length ip then
               gbind (gslice ip offset (min (length ip) len)) (\<lambda>data.
                 gbind (decode_transport (p1\<lparr>k_protocol := next'\<rparr>) data (int len - int offset)) (\<lambda>p3. Ret (Some p3)))
             else Ret (Some (p1\<lparr>k_protocol := next'\<rparr>))) (counted ip)"
    proof (cases r)
      case (Inl p1)
      then show ?thesis using post by (simp add: walk_ok_def counted_def bare_ok)
    next
      case (Inr x)
      obtain p1 n o1 where x: "x = (p1, n, o1)" by (cases x)
      then have q: "bare (p1\<lparr>k_protocol := n\<rparr>)" "k_fragment_offset (p1\<lparr>k_protocol := n\<rparr>) = 0" "o1 \<le> len"
        using post Inr by (auto simp: walk_ok_def bare_def)
      show ?thesis using t [OF q(1,2)] bare_ok [OF q(1)] q(3) Inr x by (simp add: ret_simps counted_def)
    qed
  qed
  show ?thesis
  proof (cases "length ip < 40 \<or> drop_bit 4 (ip ! 0) \<noteq> 6")
    case True
    then have "any_c [Ret (length ip < 40), gbyte ip 0 (\<lambda>x. drop_bit 4 x \<noteq> 6)] = Ret True" by (auto simp: gbyte_def gidx_def)
    then show ?thesis by (simp add: decode_ipv6_def counted_def del: any_c.simps)
  next
    case False
    then have c: "any_c [Ret (length ip < 40), gbyte ip 0 (\<lambda>x. drop_bit 4 x \<noteq> 6)] = Ret False" by (auto simp: gbyte_def gidx_def)
    have g: "u16_at ip 4 = Ret (of_nat (be_val (take 2 (drop 4 ip))))" "addr16_at ip 8 = Ret (V6 (take 16 (drop 8 ip)) [])"
      "addr16_at ip 24 = Ret (V6 (take 16 (drop 24 ip)) [])" "gidx ip 6 = Ret (ip ! 6)"
      using False by (auto simp: u16_at_def addr16_at_def be16_def)
    show ?thesis unfolding decode_ipv6_def c gbind.simps if_False g Let_def
      by (rule w) (simp_all add: bare_def b)
  qed
qed

lemma decode_network_returns:
  "returns (decode_network data t outgoing) (\<lambda>r. counted data r \<and> (t \<noteq> ether_ipv4 \<longrightarrow> t \<noteq> ether_ipv6 \<longrightarrow> r \<noteq> None))"
proof (cases "t = ether_ipv4 \<or> t = ether_ipv6")
  case True
  then show ?thesis using decode_ipv4_returns [of data outgoing] decode_ipv6_returns [of data outgoing]
    by (auto simp: decode_network_def ether_ipv4_def ether_ipv6_def)
next
  case False
  have "returns (if t = ether_arp then decode_arp data outgoing else Ret None) (counted data)"
    using decode_arp_returns by (auto simp: counted_def)
  then obtain r where r: "(if t = ether_arp then decode_arp data outgoing else Ret None) = Ret r" "counted data r"
    unfolding returns_def by blast
  have "packet_ok data (packet0\<lparr>k_ether_type := x, k_ip_bytes := n, k_outgoing := outgoing\<rparr>)" for x n
    by (rule bare_ok) (simp add: bare_def packet0_def)
  then show ?thesis using False r(2) unfolding decode_network_def r(1)
    by (cases r) (simp_all add: counted_def Let_def)
qed

lemma vlan_tags_returns:
  "offset \<le> length frame \<Longrightarrow> returns (vlan_tags n frame t offset) (\<lambda>r. case r of None \<Rightarrow> True | Some (t', o') \<Rightarrow> o' \<le> length frame)"
  by (induction n arbitrary: t offset) (auto simp: ret_simps)

lemma pppoe_session_returns:
  "offset \<le> length frame \<Longrightarrow> returns (pppoe_session frame t offset) (\<lambda>(t', o'). o' \<le> length frame)"
  by (auto simp: pppoe_session_def ret_simps)

lemma decode_returns: "returns (decode frame outgoing) (counted frame)"
proof (cases "length frame < ethernet_header")
  case True
  then show ?thesis by (simp add: decode_def counted_def)
next
  case False
  then have l: "12 + 2 \<le> length frame" "ethernet_header \<le> length frame" by (auto simp: ethernet_header_def)
  have d: "returns (decode_network (drop i frame) t outgoing) (counted frame)" for i t
  proof (rule returns_mono [OF decode_network_returns])
    fix r assume "counted (drop i frame) r \<and> (t \<noteq> ether_ipv4 \<longrightarrow> t \<noteq> ether_ipv6 \<longrightarrow> r \<noteq> None)"
    moreover have "slice_of (drop i frame) frame" using slice_of_self [of "length frame" i frame] by simp
    ultimately show "counted frame r" by (auto simp: counted_def intro: packet_ok_mono split: option.splits)
  qed
  have "returns (gbind (vlan_tags 2 frame t0 ethernet_header) (\<lambda>r. case r of
       None \<Rightarrow> Ret None
     | Some (t, offset) \<Rightarrow> gbind (pppoe_session frame t offset) (\<lambda>(t', offset').
         gbind (gfrom frame offset') (\<lambda>data. decode_network data t' outgoing)))) (counted frame)" for t0
    using d
    by (intro returns_bind [OF vlan_tags_returns [OF l(2)]])
      (auto simp: counted_def [of _ None] ret_simps intro!: returns_mono [OF pppoe_session_returns] split: option.splits)
  then show ?thesis using l False by (auto simp: decode_def ret_simps)
qed

section \<open>Encapsulation\<close>

text \<open>A frame that \<^verbatim>\<open>EthernetFrame\<close> built is decoded as the packet it wraps.\<close>

lemma decode_ethernet_frame:
  assumes "t \<notin> {ether_vlan, ether_qinq, ether_pppoe}"
  shows "decode (ethernet_frame t data) outgoing = decode_network data t outgoing"
proof -
  have u: "u16_at (ethernet_frame t data) 12 = Ret t" by (simp add: ethernet_frame_def u16_at_bytes)
  have v: "vlan_tags 2 (ethernet_frame t data) t 14 = Ret (Some (t, 14))" using assms by (simp add: numeral_2_eq_2)
  have l: "length (ethernet_frame t data) = 14 + length data" "drop 14 (ethernet_frame t data) = data"
    by (simp_all add: ethernet_frame_def)
  show ?thesis using assms by (simp add: decode_def u v l ethernet_header_def pppoe_session_def gfrom_def)
qed

text \<open>One VLAN tag, of either kind, changes nothing but the offset.\<close>

lemma decode_vlan_frame:
  assumes "length macs = 12" and "length tci = 2" and "v \<in> {ether_vlan, ether_qinq}" and "t \<notin> {ether_vlan, ether_qinq, ether_pppoe}"
  shows "decode (macs @ be16_bytes v @ tci @ be16_bytes t @ data) outgoing = decode_network data t outgoing"
proof -
  let ?f = "macs @ be16_bytes v @ tci @ be16_bytes t @ data"
  have u: "u16_at ?f 12 = Ret v" using assms by (simp add: u16_at_bytes)
  have u2: "u16_at ?f 16 = Ret t" using assms u16_at_bytes [of "macs @ be16_bytes v @ tci" 16 t data] by simp
  have l: "length ?f = 18 + length data" "drop 18 ?f = data" using assms by simp_all
  have v: "vlan_tags 2 ?f v 14 = Ret (Some (t, 18))" using assms u2 l by (auto simp: numeral_2_eq_2)
  show ?thesis using assms by (simp add: decode_def u v l ethernet_header_def pppoe_session_def gfrom_def)
qed

section \<open>A packet that was built is read back\<close>

text \<open>An IPv4 packet without options that carries a UDP datagram; checksums are not looked at.\<close>

definition ipv4_udp :: "bytes \<Rightarrow> bytes \<Rightarrow> u16 \<Rightarrow> u16 \<Rightarrow> bytes \<Rightarrow> bytes" where
  "ipv4_udp src dst sp dp data = [0x45, 0] @ be16_bytes (of_nat (28 + length data)) @ [0, 0, 0, 0, 64, 17, 0, 0] @ src @ dst
     @ be16_bytes sp @ be16_bytes dp @ be16_bytes (of_nat (8 + length data)) @ [0, 0] @ data"

definition udp_packet :: "bytes \<Rightarrow> bytes \<Rightarrow> u16 \<Rightarrow> u16 \<Rightarrow> bytes \<Rightarrow> bool \<Rightarrow> packet" where
  "udp_packet src dst sp dp data outgoing = packet0\<lparr>k_source := (V4 src, sp), k_destination := (V4 dst, dp), k_protocol := 17,
     k_ip_bytes := of_nat (28 + length data), k_outgoing := outgoing, k_has_ports := True, k_payload := data\<rparr>"

lemma decode_udp_built:
  assumes "length data \<le> 1024" and "k_payload p = []" and "\<not> k_payload_truncated p"
  shows "decode_udp p (be16_bytes sp @ be16_bytes dp @ be16_bytes (of_nat (8 + length data)) @ [0, 0] @ data)
    = Ret (p\<lparr>k_payload_truncated := False, k_payload := data\<rparr>)"
proof -
  let ?d = "be16_bytes sp @ be16_bytes dp @ be16_bytes (of_nat (8 + length data)) @ [0, 0] @ data"
  have l: "u16_at ?d 4 = Ret (of_nat (8 + length data))" using u16_at_bytes [of "be16_bytes sp @ be16_bytes dp" 4] by simp
  have u: "unat (of_nat (8 + length data) :: u16) = 8 + length data" using assms by (intro unat_small16) simp
  have n: "length ?d = 8 + length data" "drop 8 ?d = data" by simp_all
  have "returns (all_c [Ret (8 + 7 \<le> length ?d), gbyte ?d 8 (\<lambda>x. x AND 0xc0 = 0xc0), gbind (u32_at ?d 9) (\<lambda>v. Ret (v \<noteq> 0))]) (\<lambda>_. True)"
    by (auto simp: ret_simps simp del: all_c.simps)
  then obtain q where q: "all_c [Ret (8 + 7 \<le> length ?d), gbyte ?d 8 (\<lambda>x. x AND 0xc0 = 0xc0), gbind (u32_at ?d 9) (\<lambda>v. Ret (v \<noteq> 0))] = Ret q"
    unfolding returns_def by blast
  have g: "gslice ?d 8 (min (min (length ?d) (8 + length data)) (8 + limit)) = Ret data" if "1024 \<le> limit" for limit
    using assms n that by (simp add: gslice_def min_def)
  show ?thesis unfolding decode_udp_def l q gbind.simps Let_def u g
    using assms n by (simp add: g [unfolded n] min_def gslice_def)
qed

lemma decode_ipv4_built:
  assumes len: "length data \<le> 1024" and "length src = 4" and "length dst = 4"
  shows "decode_ipv4 (ipv4_udp src dst sp dp data) outgoing = Ret (Some (udp_packet src dst sp dp data outgoing))"
proof -
  let ?ip = "ipv4_udp src dst sp dp data"
  let ?udp = "be16_bytes sp @ be16_bytes dp @ be16_bytes (of_nat (8 + length data)) @ [0, 0] @ data"
  let ?total = "28 + length data"
  have ut: "unat (of_nat ?total :: u16) = ?total" using len by (intro unat_small16) simp
  have n: "length ?ip = ?total" using assms by (simp add: ipv4_udp_def)
  have c: "any_c [Ret (length ?ip < 20), gbyte ?ip 0 (\<lambda>x. drop_bit 4 x \<noteq> 4)] = Ret False"
    by (simp add: ipv4_udp_def gbyte_def)
  have g0: "gidx ?ip 0 = Ret 0x45" "gidx ?ip 9 = Ret 17" by (simp_all add: ipv4_udp_def be16_bytes_def gidx_def)
  have g2: "u16_at ?ip 2 = Ret (of_nat ?total)" using u16_at_bytes [of "[0x45, 0]" 2] by (simp add: ipv4_udp_def)
  have g4: "u16_at ?ip 4 = Ret 0" "u16_at ?ip 6 = Ret 0"
    by (simp_all add: ipv4_udp_def be16_bytes_def u16_at_def gslice_def be16_def be_val_def)
  have a: "addr4_at ?ip 12 = Ret (V4 src)" "addr4_at ?ip 16 = Ret (V4 dst)"
    using assms by (simp_all add: ipv4_udp_def be16_bytes_def addr4_at_def gslice_def)
  have hl: "unat ((0x45 :: byte) AND 0x0f) * 4 = 20" by simp
  have s: "gslice ?ip 20 (min (length ?ip) ?total) = Ret ?udp"
    using assms n by (simp add: gslice_def) (simp add: ipv4_udp_def)
  have m: "(0 :: u16) AND 0x3fff \<noteq> 0 \<longleftrightarrow> False" by simp
  let ?p = "packet0\<lparr>k_source := (V4 src, 0), k_destination := (V4 dst, 0), k_protocol := 17, k_ip_bytes := of_nat ?total,
    k_outgoing := outgoing, k_truncated := False\<rparr>"
  have ports: "u16_at ?udp 0 = Ret sp" "u16_at ?udp 2 = Ret dp"
    using u16_at_bytes [of "[]" 0] u16_at_bytes [of "be16_bytes sp" 2] by simp_all
  have tr: "decode_transport ?p ?udp k = Ret (udp_packet src dst sp dp data outgoing)" for k
    unfolding decode_transport_def ports gbind.simps Let_def
    using decode_udp_built [OF len, of "?p\<lparr>k_source := (V4 src, sp), k_destination := (V4 dst, dp), k_has_ports := True\<rparr>" sp dp]
    by (simp add: udp_packet_def packet0_def)
  have trunc: "(length ?ip < min ?total ip_snap_length) = False" using n by simp
  have sizes: "((20 :: nat) < 20 \<or> ?total < 20 \<or> length ?ip < 20) = False" using n by simp
  show ?thesis
    unfolding decode_ipv4_def c gbind.simps if_False g0 g2 ut Let_def hl sizes a g4 m simp_thms s trunc
    by (simp only: tr gbind.simps)
qed

end
