(* ===== verification/Flow_Key.thy ===== *)
theory Flow_Key imports Packet "HOL-Library.List_Lexorder" "HOL-Library.Product_Lexorder" begin

text \<open>
  The key of a flow: \<^verbatim>\<open>flowKey\<close>, \<^verbatim>\<open>keyFor\<close> and \<^verbatim>\<open>packetKey\<close> in \<^verbatim>\<open>internal/app/app_linux.go\<close>.

  The order of addresses is \<^verbatim>\<open>netip.Addr.Compare\<close>: the length of the address, then its bytes, then its zone.  It is the
  \<open>linorder\<close> instance of \<open>addr\<close>, and with the lexicographic order of pairs it is \<^verbatim>\<open>netip.AddrPort.Compare\<close>.

  The lemmas show that both directions of a connection have one key, and that a key has one pair of endpoints.
\<close>

section \<open>The order of addresses\<close>

fun addr_key :: "addr \<Rightarrow> nat \<times> bytes \<times> bytes" where
  "addr_key NoAddr = (0, [], [])"
| "addr_key (V4 b) = (32, b, [])"
| "addr_key (V6 b zone) = (128, b, zone)"

lemma addr_key_inject: "addr_key a = addr_key b \<longleftrightarrow> a = b"
  by (cases a; cases b) auto

instantiation addr :: linorder
begin

definition less_eq_addr :: "addr \<Rightarrow> addr \<Rightarrow> bool" where
  "a \<le> b \<longleftrightarrow> addr_key a \<le> addr_key b"

definition less_addr :: "addr \<Rightarrow> addr \<Rightarrow> bool" where
  "a < b \<longleftrightarrow> addr_key a < addr_key b"

instance
  by standard (auto simp: less_eq_addr_def less_addr_def less_le_not_le antisym simp flip: addr_key_inject)

end

lemma invalid_least: "NoAddr \<le> a"
  by (cases a) (simp_all add: less_eq_addr_def less_eq_prod_def)

section \<open>Keys\<close>

record flow_key =
  fk_a :: addrport
  fk_b :: addrport
  fk_ether_type :: u16
  fk_icmp_id :: u16
  fk_protocol :: u8
  fk_icmp_type :: u8
  fk_icmp_code :: u8
  fk_icmp_echo :: bool

definition key_for :: "addrport \<Rightarrow> addrport \<Rightarrow> u8 \<Rightarrow> flow_key" where
  "key_for a0 b0 protocol = (let (a, b) = (if b0 < a0 then (b0, a0) else (a0, b0)) in
     \<lparr>fk_a = a, fk_b = b, fk_ether_type = 0, fk_icmp_id = 0, fk_protocol = protocol, fk_icmp_type = 0, fk_icmp_code = 0,
      fk_icmp_echo = False\<rparr>)"

definition packet_key :: "packet \<Rightarrow> flow_key" where
  "packet_key p = (let key = (key_for (k_source p) (k_destination p) (k_protocol p))\<lparr>fk_ether_type := k_ether_type p\<rparr> in
     if k_ether_type p = 0 \<and> (k_protocol p = 1 \<or> k_protocol p = 58) then
       (if k_icmp_has_echo p then key\<lparr>fk_icmp_id := k_icmp_id p, fk_icmp_echo := True\<rparr>
        else key\<lparr>fk_icmp_type := k_icmp_type p, fk_icmp_code := k_icmp_code p\<rparr>)
     else key)"

lemma key_for_swap: "key_for a b protocol = key_for b a protocol"
  by (auto simp: key_for_def Let_def)

lemma key_for_eq:
  "key_for a b protocol = key_for c d protocol' \<longleftrightarrow> protocol = protocol' \<and> (a = c \<and> b = d \<or> a = d \<and> b = c)"
  by (auto simp: key_for_def Let_def not_less)

lemma key_for_fields [simp]:
  "fk_protocol (key_for a b protocol) = protocol" "fk_ether_type (key_for a b protocol) = 0"
  "fk_icmp_echo (key_for a b protocol) = False" "fk_icmp_id (key_for a b protocol) = 0"
  by (auto simp: key_for_def Let_def split: prod.split)

text \<open>The reply to a packet: the same protocol with the endpoints exchanged; to an echo request, a reply with its identifier.\<close>

definition answers :: "packet \<Rightarrow> packet \<Rightarrow> bool" where
  "answers q p \<longleftrightarrow> k_source q = k_destination p \<and> k_destination q = k_source p \<and> k_protocol q = k_protocol p
     \<and> k_ether_type q = k_ether_type p \<and> k_icmp_has_echo q = k_icmp_has_echo p
     \<and> (if k_icmp_has_echo p then k_icmp_id q = k_icmp_id p else k_icmp_type q = k_icmp_type p \<and> k_icmp_code q = k_icmp_code p)"

lemma packet_key_answers: "answers q p \<Longrightarrow> packet_key q = packet_key p"
  by (auto simp: answers_def packet_key_def Let_def key_for_swap [of "k_destination p"])

lemma packet_key_plain:
  assumes "k_ether_type p = 0" and "k_protocol p \<notin> {1, 58}"
  shows "packet_key p = key_for (k_source p) (k_destination p) (k_protocol p)"
  using assms by (auto simp: packet_key_def Let_def key_for_def split: prod.split)

end
