(* ===== verification/Go_Map.thy ===== *)
theory Go_Map imports Prelude begin

text \<open>
  A Go \<^verbatim>\<open>map\<close> as an association list with distinct keys: \<^verbatim>\<open>m[k]\<close> is \<open>map_of m k\<close>, \<^verbatim>\<open>m[k] = v\<close> is
  \<open>AList.update k v m\<close>, \<^verbatim>\<open>delete(m, k)\<close> is \<open>AList.delete k m\<close> and \<^verbatim>\<open>len(m)\<close> is \<open>length m\<close>.  A \<^verbatim>\<open>range\<close> loop that only
  updates or deletes the entry it is at is \<open>map_sweep\<close>; its order does not matter, because
  \<open>map_of_sweep\<close> gives the result of each key.

  \<open>map_ok\<close> is the invariant of a bounded map: distinct keys, at most \<open>limit\<close> of them, every value in order.
\<close>

definition map_sweep :: "('k \<Rightarrow> 'v \<Rightarrow> 'w option) \<Rightarrow> ('k \<times> 'v) list \<Rightarrow> ('k \<times> 'w) list" where
  "map_sweep f m = List.map_filter (\<lambda>(k, v). map_option (Pair k) (f k v)) m"

definition map_ok :: "nat \<Rightarrow> ('k \<Rightarrow> 'v \<Rightarrow> bool) \<Rightarrow> ('k \<times> 'v) list \<Rightarrow> bool" where
  "map_ok limit Q m \<longleftrightarrow> distinct (map fst m) \<and> length m \<le> limit \<and> list_all (\<lambda>(k, v). Q k v) m"

section \<open>Updates\<close>

lemma length_update: "length (AList.update k v m) = (if k \<in> set (map fst m) then length m else Suc (length m))"
  by (induction m) auto

lemma update_entry: "x \<in> set (AList.update k v m) \<Longrightarrow> x = (k, v) \<or> x \<in> set m"
  by (induction m) (auto split: if_splits)

lemma map_ok_Nil [simp]: "map_ok limit Q []"
  by (simp add: map_ok_def)

lemma map_ok_get: "map_ok limit Q m \<Longrightarrow> map_of m k = Some v \<Longrightarrow> Q k v"
  by (auto simp: map_ok_def list_all_iff dest!: map_of_SomeD)

lemma map_ok_put:
  assumes "map_ok limit Q m" and "map_of m k \<noteq> None \<or> length m < limit" and "Q k v"
  shows "map_ok limit Q (AList.update k v m)"
proof -
  have "length (AList.update k v m) \<le> limit"
    using assms(1,2) by (auto simp: map_ok_def length_update map_of_eq_None_iff)
  moreover have "list_all (\<lambda>(k, v). Q k v) (AList.update k v m)"
    using assms(1,3) by (auto simp: map_ok_def list_all_iff dest!: update_entry)
  ultimately show ?thesis using assms(1) by (simp add: map_ok_def distinct_update)
qed

lemma map_ok_delete: "map_ok limit Q m \<Longrightarrow> map_ok limit Q (AList.delete k m)"
  by (auto simp: map_ok_def list_all_iff distinct_map_filter AList.delete_eq case_prod_unfold
      intro: order_trans [OF length_filter_le])

lemma map_ok_mono: "map_ok limit Q m \<Longrightarrow> (\<And>k v. (k, v) \<in> set m \<Longrightarrow> Q k v \<Longrightarrow> R k v) \<Longrightarrow> map_ok limit R m"
  by (auto simp: map_ok_def list_all_iff)

section \<open>Sweeps\<close>

lemma map_sweep_simps [simp]:
  "map_sweep f [] = []"
  "map_sweep f ((k, v) # m) = (case f k v of None \<Rightarrow> map_sweep f m | Some w \<Rightarrow> (k, w) # map_sweep f m)"
  by (auto simp: map_sweep_def List.map_filter_simps split: option.splits)

lemma sweep_entry: "(k, w) \<in> set (map_sweep f m) \<Longrightarrow> \<exists>v. (k, v) \<in> set m \<and> f k v = Some w"
  by (induction m) (fastforce split: option.splits if_splits)+

lemma fst_sweep: "(k, w) \<in> set (map_sweep f m) \<Longrightarrow> k \<in> fst ` set m"
  using sweep_entry by force

lemma distinct_sweep: "distinct (map fst m) \<Longrightarrow> distinct (map fst (map_sweep f m))"
proof (induction m)
  case (Cons x m)
  have "fst x \<notin> fst ` set (map_sweep f m)" using Cons.prems fst_sweep [of "fst x" _ f m] by force
  then show ?case using Cons by (cases x) (simp split: option.splits)
qed simp

lemma length_sweep: "length (map_sweep f m) \<le> length m"
  by (induction m) (auto split: option.splits)

lemma map_of_sweep: "distinct (map fst m) \<Longrightarrow> map_of (map_sweep f m) k = Option.bind (map_of m k) (f k)"
proof (induction m)
  case (Cons x m)
  obtain a v where x: "x = (a, v)" by (cases x)
  have "a \<notin> fst ` set (map_sweep f m)" using Cons.prems by (auto simp: x dest: fst_sweep)
  then have n: "map_of (map_sweep f m) a = None" by (simp add: map_of_eq_None_iff)
  show ?case
  proof (cases "f a v")
    case None
    then show ?thesis using Cons n by (auto simp: x)
  next
    case (Some w)
    then show ?thesis using Cons by (simp add: x)
  qed
qed simp

lemma map_ok_sweep:
  assumes "map_ok limit Q m" and "\<And>k v w. Q k v \<Longrightarrow> f k v = Some w \<Longrightarrow> R k w"
  shows "map_ok limit R (map_sweep f m)"
proof -
  have "list_all (\<lambda>(k, v). Q k v) m \<Longrightarrow> list_all (\<lambda>(k, v). R k v) (map_sweep f m)"
    using assms(2) by (induction m) (auto split: option.splits)
  then show ?thesis using assms(1) distinct_sweep [of m f] length_sweep [of f m] by (simp add: map_ok_def)
qed

end
