(* ===== verification/Go_Store.thy ===== *)
theory Go_Store imports Go_Map "HOL-Library.Multiset" begin

text \<open>
  Stores into arrays, comparisons of times, and the order of a \<^verbatim>\<open>range\<close> over a map.

  \<open>gput\<close> is \<^verbatim>\<open>a[i] = v\<close>, which panics outside the array, \<open>gidx_int\<close> and \<open>gput_int\<close> take a signed index.  The order in
  which a \<^verbatim>\<open>range\<close> visits a map is a parameter \<open>\<rho>\<close>: \<open>ranged \<rho> m\<close> is some order of the entries, and a lemma that holds
  for every \<open>\<rho>\<close> does not depend on it.
\<close>

section \<open>Arrays\<close>

definition gput :: "'a list \<Rightarrow> nat \<Rightarrow> 'a \<Rightarrow> 'a list go" where
  "gput xs i v = (if i < length xs then Ret (xs[i := v]) else Panic)"

definition gidx_int :: "'a list \<Rightarrow> int \<Rightarrow> 'a go" where
  "gidx_int xs i = (if i < 0 then Panic else gidx xs (nat i))"

definition gput_int :: "'a list \<Rightarrow> int \<Rightarrow> 'a \<Rightarrow> 'a list go" where
  "gput_int xs i v = (if i < 0 then Panic else gput xs (nat i) v)"

lemma gput_in [simp]: "i < length xs \<Longrightarrow> gput xs i v = Ret (xs[i := v])"
  by (simp add: gput_def)

lemma gidx_int_in: "0 \<le> i \<Longrightarrow> nat i < length xs \<Longrightarrow> gidx_int xs i = Ret (xs ! nat i)"
  by (simp add: gidx_int_def gidx_in)

lemma gput_int_in: "0 \<le> i \<Longrightarrow> nat i < length xs \<Longrightarrow> gput_int xs i v = Ret (xs[nat i := v])"
  by (simp add: gput_int_def)

section \<open>Times\<close>

text \<open>The zero time is before every other; \<^verbatim>\<open>now.Sub\<close> of the zero time saturates.\<close>

definition time_before :: "gotime \<Rightarrow> gotime \<Rightarrow> bool" where
  "time_before a b = (case b of None \<Rightarrow> False | Some y \<Rightarrow> (case a of None \<Rightarrow> True | Some x \<Rightarrow> x < y))"

definition time_diff :: "gotime \<Rightarrow> gotime \<Rightarrow> int" where
  "time_diff now t = (case now of Some n \<Rightarrow> time_sub n t | None \<Rightarrow> (case t of None \<Rightarrow> 0 | Some u \<Rightarrow> - (2 ^ 63)))"

lemma time_before_simps [simp]:
  "\<not> time_before a None"
  "time_before None (Some y)"
  "time_before (Some x) (Some y) \<longleftrightarrow> x < y"
  by (simp_all add: time_before_def)

lemma time_before_irrefl [simp]: "\<not> time_before a a"
  by (cases a) simp_all

lemma time_before_trans: "time_before a b \<Longrightarrow> time_before b c \<Longrightarrow> time_before a c"
  by (cases a; cases b; cases c) simp_all

lemma time_before_linear: "\<not> time_before a b \<Longrightarrow> \<not> time_before b c \<Longrightarrow> \<not> time_before a c"
  by (cases a; cases b; cases c) simp_all

section \<open>Ranges over a map\<close>

definition ranged :: "('k \<Rightarrow> nat) \<Rightarrow> ('k \<times> 'v) list \<Rightarrow> ('k \<times> 'v) list" where
  "ranged \<rho> m = sort_key (\<lambda>(k, v). \<rho> k) m"

lemma set_ranged [simp]: "set (ranged \<rho> m) = set m"
  by (simp add: ranged_def)

lemma ranged_Nil [simp]: "ranged \<rho> [] = []"
  by (simp add: ranged_def)

lemma ranged_eq_Nil [simp]: "ranged \<rho> m = [] \<longleftrightarrow> m = []"
  by (metis set_empty set_ranged)

lemma mset_ranged [simp]: "mset (ranged \<rho> m) = mset m"
  unfolding ranged_def by (rule mset_sort)

lemma length_ranged [simp]: "length (ranged \<rho> m) = length m"
  by (simp add: ranged_def)

lemma distinct_ranged: "distinct (map fst m) \<Longrightarrow> distinct (map fst (ranged \<rho> m))"
  by (metis mset_ranged mset_map mset_eq_imp_distinct_iff)

lemma delete_filter: "AList.delete k m = filter (\<lambda>x. fst x \<noteq> k) m"
  by (induction m) auto

lemma delete_keys: "fst ` set (AList.delete k m) = fst ` set m - {k}"
  by (auto simp: delete_filter)

lemma length_delete_in:
  assumes "distinct (map fst m)" and "k \<in> fst ` set m"
  shows "length (AList.delete k m) = length m - 1"
  using assms
proof (induction m)
  case (Cons x m)
  show ?case
  proof (cases "fst x = k")
    case True
    then have "k \<notin> fst ` set m" using Cons.prems(1) by auto
    then have "AList.delete k m = m" by (auto simp: delete_filter intro!: filter_True)
    then show ?thesis using True by (cases x) simp
  next
    case False
    then have "k \<in> fst ` set m" using Cons.prems(2) by auto
    moreover have "m \<noteq> []" using calculation by auto
    ultimately show ?thesis using Cons False by (cases x) (simp add: Suc_diff_le)
  qed
qed simp

section \<open>Logs of bounded length\<close>

text \<open>
  The contract of a ring buffer: an addition returns, keeps the invariant, and leaves the newest \<open>limit\<close> items, newest
  first.  \<open>gfold\<close> runs a list of additions.
\<close>

fun gfold :: "('a \<Rightarrow> 's \<Rightarrow> 's go) \<Rightarrow> 'a list \<Rightarrow> 's \<Rightarrow> 's go" where
  "gfold f [] s = Ret s"
| "gfold f (a # as) s = gbind (f a s) (gfold f as)"

locale bounded_log =
  fixes add :: "'a \<Rightarrow> 's \<Rightarrow> 's go"
    and items :: "'s \<Rightarrow> 'b list"
    and ok :: "'s \<Rightarrow> bool"
    and limit :: nat
    and view :: "'a \<Rightarrow> 'b"
  assumes added: "ok s \<Longrightarrow> returns (add a s) (\<lambda>s'. ok s' \<and> items s' = take limit (view a # items s))"
    and within_limit: "ok s \<Longrightarrow> length (items s) \<le> limit"
begin

lemma all_added:
  "ok s \<Longrightarrow> returns (gfold add as s) (\<lambda>s'. ok s' \<and> items s' = take limit (rev (map view as) @ items s))"
proof (induction as arbitrary: s)
  case Nil
  then show ?case using within_limit by simp
next
  case (Cons a as)
  have t: "take limit (xs @ take limit ys) = take limit (xs @ ys)" for xs ys :: "'b list" by simp
  show ?case unfolding gfold.simps
    by (rule returns_bind [OF added [OF Cons.prems]]) (use Cons.IH t in \<open>fastforce intro: returns_mono\<close>)
qed

lemma newest:
  assumes "ok s" and "0 < limit"
  shows "returns (add a s) (\<lambda>s'. items s' \<noteq> [] \<and> hd (items s') = view a)"
  by (rule returns_mono [OF added [OF assms(1)]]) (use assms(2) in \<open>cases limit; auto\<close>)

end

end
