(* ===== verification/Tcp_Health.thy ===== *)
theory Tcp_Health imports Segments Flow_Key Go_Store begin

text \<open>
  What is known of a TCP connection's health (\<^verbatim>\<open>internal/app/tcp_health.go\<close>): the round trip of its handshake, its
  retransmissions as the capture sees them, and the state of its sockets as the kernel reports it.

  A Go array of two, indexed by direction or side, is a pair.  Durations are \<open>int\<close>s of nanoseconds.  \<open>clock\<close> is what
  \<^verbatim>\<open>time.Now()\<close> gives during the call.

  The lemmas show that the ring of ranges is the list of the last 128, that the shortcut for in-order data misses no
  retransmission, and that the kernel's counters only grow.
\<close>

section \<open>State\<close>

type_synonym 'a two = "'a \<times> 'a"

fun at_side :: "nat \<Rightarrow> 'a two \<Rightarrow> 'a" where
  "at_side i (a, b) = (if i = 0 then a else b)"

fun put_side :: "nat \<Rightarrow> 'a \<Rightarrow> 'a two \<Rightarrow> 'a two" where
  "put_side i v (a, b) = (if i = 0 then (v, b) else (a, v))"

lemma at_put_side [simp]: "at_side i (put_side j v p) = (if (i = 0) = (j = 0) then v else at_side i p)"
  by (cases p) auto

record tcp_metrics =
  tm_sampled_ns :: u64
  tm_jiffies :: u64
  tm_busy :: u64
  tm_rwnd_limited :: u64
  tm_sndbuf_limited :: u64
  tm_delivery_rate :: u64
  tm_send_window :: u32
  tm_app_limited :: bool
  tm_hz :: u32

record tcp_info =
  ti_rtt :: int
  ti_rtt_var :: int
  ti_cwnd :: u32
  ti_segs_out :: u32
  ti_retransmits :: u32
  ti_metrics :: tcp_metrics

definition tcp_metrics0 :: tcp_metrics where
  "tcp_metrics0 = \<lparr>tm_sampled_ns = 0, tm_jiffies = 0, tm_busy = 0, tm_rwnd_limited = 0, tm_sndbuf_limited = 0, tm_delivery_rate = 0,
     tm_send_window = 0, tm_app_limited = False, tm_hz = 0\<rparr>"

definition tcp_info0 :: tcp_info where
  "tcp_info0 = \<lparr>ti_rtt = 0, ti_rtt_var = 0, ti_cwnd = 0, ti_segs_out = 0, ti_retransmits = 0, ti_metrics = tcp_metrics0\<rparr>"

definition max_tracked_tcp_segments :: nat where
  "max_tracked_tcp_segments = 128"

type_synonym sequence_range = "u32 \<times> u32"

definition overlaps :: "sequence_range \<Rightarrow> sequence_range \<Rightarrow> bool" where
  "overlaps r other \<longleftrightarrow> seq_diff (fst r) (snd other) < 0 \<and> seq_diff (fst other) (snd r) < 0"

record tcp_health =
  h_syn_rtt :: int
  h_retransmits :: u64
  h_connect_result :: int
  h_connect_latency :: u32
  h_kernel :: "tcp_info two option"
  h_syn_at :: gotime
  h_syn_from :: addrport
  h_syn_seq :: u32
  h_syn_seen :: "bool two"
  h_syn_seq_by_dir :: "u32 two"
  h_seen :: "sequence_range list two"
  h_seen_next :: "u8 two"
  h_seen_end :: "u32 two"

definition tcp_health0 :: tcp_health where
  "tcp_health0 = \<lparr>h_syn_rtt = 0, h_retransmits = 0, h_connect_result = 0, h_connect_latency = 0, h_kernel = None, h_syn_at = None,
     h_syn_from = (NoAddr, 0), h_syn_seq = 0, h_syn_seen = (False, False), h_syn_seq_by_dir = (0, 0), h_seen = ([], []),
     h_seen_next = (0, 0), h_seen_end = (0, 0)\<rparr>"

section \<open>The kernel's reports\<close>

definition hz_estimate :: "tcp_metrics \<Rightarrow> tcp_metrics \<Rightarrow> u64" where
  "hz_estimate previous m = (tm_jiffies m - tm_jiffies previous) * 1000000000 div (tm_sampled_ns m - tm_sampled_ns previous)"

definition merge_metrics :: "tcp_metrics \<Rightarrow> tcp_metrics \<Rightarrow> tcp_metrics" where
  "merge_metrics previous m = (if tm_sampled_ns m = 0 then previous
     else if tm_sampled_ns m < tm_sampled_ns previous then previous
     else if 0 < tm_sampled_ns previous \<and> tm_jiffies previous < tm_jiffies m then
       (if 0 < tm_sampled_ns m - tm_sampled_ns previous
        then m\<lparr>tm_hz := if hz_estimate previous m \<le> 10000 then ucast (hz_estimate previous m) else tm_hz previous\<rparr> else m)
     else m\<lparr>tm_hz := tm_hz previous\<rparr>)"

definition merge_info :: "tcp_info \<Rightarrow> tcp_info \<Rightarrow> tcp_info" where
  "merge_info k info0 = (let info = (if tm_sampled_ns (ti_metrics info0) \<noteq> 0 then k\<lparr>ti_metrics := ti_metrics info0\<rparr> else info0) in
     info\<lparr>ti_metrics := merge_metrics (ti_metrics k) (ti_metrics info),
       ti_retransmits := max (ti_retransmits k) (ti_retransmits info), ti_segs_out := max (ti_segs_out k) (ti_segs_out info)\<rparr>)"

definition observe_kernel :: "nat \<Rightarrow> tcp_info \<Rightarrow> tcp_health \<Rightarrow> tcp_health" where
  "observe_kernel side info h = (let kernel = (case h_kernel h of None \<Rightarrow> (tcp_info0, tcp_info0) | Some k \<Rightarrow> k) in
     h\<lparr>h_kernel := Some (put_side side (merge_info (at_side side kernel) info) kernel)\<rparr>)"

section \<open>What limits a connection\<close>

definition tcp_limit :: "tcp_info \<Rightarrow> string" where
  "tcp_limit k = (let m = ti_metrics k in
     if tm_sampled_ns m = 0 then ''''
     else if 0 < tm_hz m \<and> ucast (tm_hz m) div 10 \<le> tm_busy m \<and> tm_busy m \<le> tm_rwnd_limited m * 5 then ''peer window''
     else if 0 < tm_hz m \<and> ucast (tm_hz m) div 10 \<le> tm_busy m \<and> tm_busy m \<le> tm_sndbuf_limited m * 5 then ''send buffer''
     else if tm_app_limited m \<and> 0 < tm_hz m \<and> tm_busy m < ucast (tm_hz m) div 10 then ''application''
     else if 20 \<le> ti_segs_out k \<and> ti_segs_out k \<le> ti_retransmits k * 20 \<or> 0 < ti_rtt k \<and> ti_rtt k div 2 \<le> ti_rtt_var k then ''network''
     else '''')"

definition percent :: "u64 \<Rightarrow> u64 \<Rightarrow> u64" where
  "percent part whole = (if whole = 0 then 0 else min 100 (part * 100 div whole))"

section \<open>Packets\<close>

text \<open>The ring of ranges of one direction.\<close>

definition note_range :: "sequence_range \<Rightarrow> sequence_range list \<times> u8 \<Rightarrow> (sequence_range list \<times> u8) go" where
  "note_range span ring = (case ring of (seen, next_) \<Rightarrow>
     if length seen < max_tracked_tcp_segments then Ret (seen @ [span], next_)
     else gbind (gput seen (unat next_) span) (\<lambda>seen'. Ret (seen', (next_ + 1) mod of_nat max_tracked_tcp_segments)))"

definition direction_index :: "packet \<Rightarrow> nat" where
  "direction_index p = (if k_destination p < k_source p then 1 else 0)"

definition observe_syn :: "packet \<Rightarrow> nat \<Rightarrow> tcp_health \<Rightarrow> tcp_health \<times> bool" where
  "observe_syn p index h = (if k_syn p \<and> \<not> k_ack p then
     (if at_side index (h_syn_seen h) \<and> at_side index (h_syn_seq_by_dir h) = k_tcp_seq p then (h, True)
      else (h\<lparr>h_syn_seen := put_side index True (h_syn_seen h), h_syn_seq_by_dir := put_side index (k_tcp_seq p) (h_syn_seq_by_dir h)\<rparr>, False))
     else (h, False))"

definition observe_handshake :: "packet \<Rightarrow> bool \<Rightarrow> int \<Rightarrow> tcp_health \<Rightarrow> tcp_health" where
  "observe_handshake p loopback now h0 = (let
     h1 = (if k_syn p \<and> \<not> k_ack p \<and> k_outgoing p \<and> \<not> loopback
         \<and> (h_syn_at h0 = None \<or> h_syn_seq h0 \<noteq> k_tcp_seq p \<or> h_syn_from h0 \<noteq> k_source p)
       then h0\<lparr>h_syn_at := Some now, h_syn_seq := k_tcp_seq p, h_syn_from := k_source p\<rparr> else h0) in
     if k_syn p \<and> k_ack p \<and> \<not> k_outgoing p \<and> h_syn_at h1 \<noteq> None \<and> h_syn_rtt h1 = 0 \<and> k_destination p = h_syn_from h1
       \<and> k_tcp_ack p = h_syn_seq h1 + 1 \<and> time_before (h_syn_at h1) (Some now)
     then h1\<lparr>h_syn_rtt := time_sub now (h_syn_at h1)\<rparr> else h1)"

text \<open>
  The payload of a segment.  \<open>fast\<close> is the shortcut of the code: data that starts where the furthest range ends, or
  behind it, is not compared with the ranges.
\<close>

definition packet_span :: "packet \<Rightarrow> sequence_range" where
  "packet_span p = (let start = (if k_syn p then k_tcp_seq p + 1 else k_tcp_seq p) in (start, start + of_nat (length (k_payload p))))"

definition observe_payload :: "bool \<Rightarrow> packet \<Rightarrow> nat \<Rightarrow> tcp_health \<Rightarrow> (tcp_health \<times> bool) go" where
  "observe_payload fast p index h = (if k_payload p \<noteq> [] \<and> \<not> k_payload_truncated p \<and> \<not> k_truncated p then
     let span = packet_span p; seen = at_side index (h_seen h); furthest = at_side index (h_seen_end h);
       again = ((\<not> fast \<or> seq_diff (fst span) furthest < 0) \<and> list_ex (overlaps span) seen);
       furthest' = (if length seen = 0 \<or> 0 < seq_diff (snd span) furthest then snd span else furthest) in
     gbind (note_range span (seen, at_side index (h_seen_next h))) (\<lambda>(seen', next').
       Ret (h\<lparr>h_seen_end := put_side index furthest' (h_seen_end h), h_seen := put_side index seen' (h_seen h),
         h_seen_next := put_side index next' (h_seen_next h)\<rparr>, again))
     else Ret (h, False))"

definition health_observe_with :: "bool \<Rightarrow> packet \<Rightarrow> bool \<Rightarrow> int \<Rightarrow> tcp_health \<Rightarrow> tcp_health go" where
  "health_observe_with fast p loopback clock h = (if k_protocol p \<noteq> 6 then Ret h
     else let now = (case k_captured_at p of None \<Rightarrow> clock | Some t \<Rightarrow> t); index = direction_index p in
       case observe_syn p index h of (h1, again1) \<Rightarrow>
         gbind (observe_payload fast p index (observe_handshake p loopback now h1)) (\<lambda>(h2, again2).
         Ret (if again1 \<or> again2 then h2\<lparr>h_retransmits := h_retransmits h2 + 1\<rparr> else h2)))"

definition health_observe :: "packet \<Rightarrow> bool \<Rightarrow> int \<Rightarrow> tcp_health \<Rightarrow> tcp_health go" where
  "health_observe p loopback clock h = health_observe_with True p loopback clock h"

section \<open>The ring is the list of the last ranges\<close>

definition seen_ok :: "sequence_range list \<times> u8 \<Rightarrow> bool" where
  "seen_ok ring \<longleftrightarrow> (case ring of (seen, next_) \<Rightarrow> length seen \<le> max_tracked_tcp_segments \<and> unat next_ < max_tracked_tcp_segments
     \<and> (length seen < max_tracked_tcp_segments \<longrightarrow> next_ = 0))"

definition seen_items :: "sequence_range list \<times> u8 \<Rightarrow> sequence_range list" where
  "seen_items ring = (case ring of (seen, next_) \<Rightarrow> rev (take (unat next_) seen) @ rev (drop (unat next_) seen))"

interpretation seen_log: bounded_log note_range seen_items seen_ok max_tracked_tcp_segments "\<lambda>span. span"
proof
  fix span ring
  assume ok: "seen_ok ring"
  obtain seen m where ring: "ring = (seen, m)" by (cases ring)
  let ?n = "unat m"
  note ok = ok [unfolded ring seen_ok_def prod.case max_tracked_tcp_segments_def]
  show "returns (note_range span ring) (\<lambda>ring'. seen_ok ring' \<and> seen_items ring' = take max_tracked_tcp_segments (span # seen_items ring))"
  proof (cases "length seen < 128")
    case True
    then show ?thesis using ok by (auto simp: ring note_range_def seen_ok_def seen_items_def max_tracked_tcp_segments_def)
  next
    case False
    then have full: "length seen = 128" "?n < 128" using ok by auto
    have next_: "unat ((m + 1) mod of_nat 128) = (?n + 1) mod 128" using full(2) by (simp add: unat_mod unat_word_ariths)
    have rest: "rev (drop ?n seen) = rev (drop (Suc ?n) seen) @ [seen ! ?n]" using full by (simp flip: Cons_nth_drop_Suc)
    have up: "take (Suc ?n) (seen[?n := span]) = take ?n seen @ [span]" using full by (simp add: take_Suc_conv_app_nth)
    show ?thesis
    proof (cases "Suc ?n < 128")
      case True
      then show ?thesis using full next_ up rest
        by (simp add: ring note_range_def seen_ok_def seen_items_def max_tracked_tcp_segments_def)
    next
      case last: False
      then have n: "?n = 127" using full(2) by simp
      then have "seen[127 := span] = take 127 seen @ [span]" using up full(1) by (simp add: take_all_iff [THEN iffD2])
      then show ?thesis using full next_ n rest
        by (simp add: ring note_range_def seen_ok_def seen_items_def max_tracked_tcp_segments_def)
    qed
  qed
qed (auto simp: seen_ok_def seen_items_def)

definition health_ok :: "tcp_health \<Rightarrow> bool" where
  "health_ok h \<longleftrightarrow> (\<forall>i. seen_ok (at_side i (h_seen h), at_side i (h_seen_next h)))"

lemma health_ok0 [simp]: "health_ok tcp_health0"
  by (simp add: health_ok_def tcp_health0_def seen_ok_def max_tracked_tcp_segments_def)

lemma observe_syn_frame:
  "h_seen (fst (observe_syn p i h)) = h_seen h" "h_seen_next (fst (observe_syn p i h)) = h_seen_next h"
  "h_seen_end (fst (observe_syn p i h)) = h_seen_end h" "h_retransmits (fst (observe_syn p i h)) = h_retransmits h"
  by (simp_all add: observe_syn_def)

lemma observe_handshake_frame:
  "h_seen (observe_handshake p l now h) = h_seen h" "h_seen_next (observe_handshake p l now h) = h_seen_next h"
  "h_seen_end (observe_handshake p l now h) = h_seen_end h" "h_retransmits (observe_handshake p l now h) = h_retransmits h"
  by (simp_all add: observe_handshake_def Let_def)

lemma observe_payload_returns:
  assumes "health_ok h"
  shows "returns (observe_payload fast p i h) (\<lambda>(h', again). health_ok h')"
proof -
  have ok: "seen_ok (at_side i (h_seen h), at_side i (h_seen_next h))" using assms by (simp add: health_ok_def)
  show ?thesis
    using assms seen_log.added [OF ok, of "packet_span p"]
    by (auto simp: observe_payload_def Let_def health_ok_def returns_gbind split: prod.splits elim!: returns_mono)
qed

lemma health_observe_with_alt:
  "health_observe_with fast p loopback clock h = (if k_protocol p \<noteq> 6 then Ret h
     else gbind (observe_payload fast p (direction_index p) (observe_handshake p loopback (case k_captured_at p of None \<Rightarrow> clock | Some t \<Rightarrow> t)
         (fst (observe_syn p (direction_index p) h)))) (\<lambda>(h2, again2).
       Ret (if snd (observe_syn p (direction_index p) h) \<or> again2 then h2\<lparr>h_retransmits := h_retransmits h2 + 1\<rparr> else h2)))"
  by (simp add: health_observe_with_def Let_def split: prod.split)

lemma health_observe_returns:
  assumes "health_ok h"
  shows "returns (health_observe_with fast p loopback clock h) health_ok"
proof -
  have "health_ok (observe_handshake p l now (fst (observe_syn p i h)))" for l now i
    using assms by (simp add: health_ok_def observe_handshake_frame observe_syn_frame)
  note payload = observe_payload_returns [OF this]
  show ?thesis using assms unfolding health_observe_with_alt
    by (cases "k_protocol p = 6") (auto intro!: returns_bind [OF payload] simp: health_ok_def)
qed

section \<open>The shortcut misses no retransmission\<close>

text \<open>Sequence numbers that lie within \<open>2 ^ 30\<close> of a base do not wrap around it.\<close>

definition ranged_from :: "u32 \<Rightarrow> sequence_range \<Rightarrow> nat \<Rightarrow> bool" where
  "ranged_from base r bound \<longleftrightarrow> (\<exists>m n. r = (base + of_nat m, base + of_nat n) \<and> m < n \<and> n \<le> bound)"

definition seen_from :: "u32 \<Rightarrow> nat \<Rightarrow> tcp_health \<Rightarrow> bool" where
  "seen_from base i h \<longleftrightarrow> at_side i (h_seen h) = [] \<or> (\<exists>e < 2 ^ 30. at_side i (h_seen_end h) = base + of_nat e
     \<and> list_all (\<lambda>r. ranged_from base r e) (at_side i (h_seen h)))"

definition payload_from :: "u32 \<Rightarrow> packet \<Rightarrow> bool" where
  "payload_from base p \<longleftrightarrow> (\<exists>m. fst (packet_span p) = base + of_nat m \<and> m + length (k_payload p) < 2 ^ 30)"

lemma ranged_from_mono: "ranged_from base r e \<Longrightarrow> e \<le> e' \<Longrightarrow> ranged_from base r e'"
  unfolding ranged_from_def using le_trans by blast

lemma no_overlap_behind:
  assumes "ranged_from base r e" and "e \<le> m" and "m < 2 ^ 30"
  shows "\<not> overlaps (base + of_nat m, x) r"
  using assms by (auto simp: ranged_from_def overlaps_def seq_diff_offsets)

lemma note_range_entries: "note_range span (seen, n) = Ret (seen', n') \<Longrightarrow> set seen' \<subseteq> insert span (set seen)"
  using set_update_subset_insert [of seen "unat n" span]
  by (auto simp: note_range_def gput_def split: if_splits)

lemma payload_shortcut:
  assumes "seen_from base i h" and "payload_from base p"
  shows "observe_payload True p i h = observe_payload False p i h"
proof -
  obtain m where m: "fst (packet_span p) = base + of_nat m" "m + length (k_payload p) < 2 ^ 30"
    using assms(2) by (auto simp: payload_from_def)
  have "\<not> list_ex (overlaps (packet_span p)) (at_side i (h_seen h))"
    if "\<not> seq_diff (fst (packet_span p)) (at_side i (h_seen_end h)) < 0"
  proof (cases "at_side i (h_seen h) = []")
    case False
    then obtain e where e: "e < 2 ^ 30" "at_side i (h_seen_end h) = base + of_nat e" "list_all (\<lambda>r. ranged_from base r e) (at_side i (h_seen h))"
      using assms(1) by (auto simp: seen_from_def)
    then have "e \<le> m" using that m by (simp add: seq_diff_offsets)
    moreover have "packet_span p = (base + of_nat m, snd (packet_span p))" using m(1) by (simp add: prod_eq_iff)
    ultimately show ?thesis
      using no_overlap_behind [of base _ e m] e(3) m(2) by (metis (no_types, lifting) add_leD1 le_add1 le_less_trans list_all_iff list_ex_iff)
  qed simp
  then have eq: "(seq_diff (fst (packet_span p)) (at_side i (h_seen_end h)) < 0 \<and> list_ex (overlaps (packet_span p)) (at_side i (h_seen h)))
      = list_ex (overlaps (packet_span p)) (at_side i (h_seen h))" by blast
  show ?thesis by (simp add: observe_payload_def Let_def eq)
qed

lemma payload_from_kept:
  assumes "seen_from base i h" and "payload_from base p" and "observe_payload fast p i h = Ret (h', again)"
  shows "seen_from base i h'"
proof (cases "k_payload p \<noteq> [] \<and> \<not> k_payload_truncated p \<and> \<not> k_truncated p")
  case True
  obtain m where "packet_span p = (base + of_nat m, base + of_nat (m + length (k_payload p)))" "m + length (k_payload p) < 2 ^ 30"
    using assms(2) by (auto simp: payload_from_def packet_span_def Let_def add.assoc)
  then obtain n where m: "packet_span p = (base + of_nat m, base + of_nat n)" "n < 2 ^ 30" "m < n" using True by fastforce
  then have span: "ranged_from base (packet_span p) n" by (auto simp: ranged_from_def)
  obtain seen' n' where note_: "note_range (packet_span p) (at_side i (h_seen h), at_side i (h_seen_next h)) = Ret (seen', n')"
      and h': "at_side i (h_seen h') = seen'"
        "at_side i (h_seen_end h') = (if at_side i (h_seen h) = [] \<or> 0 < seq_diff (snd (packet_span p)) (at_side i (h_seen_end h))
           then snd (packet_span p) else at_side i (h_seen_end h))"
    using assms(3) True by (auto simp: observe_payload_def Let_def gbind_eq_Ret split: prod.splits)
  note entries = note_range_entries [OF note_]
  show ?thesis
  proof (cases "at_side i (h_seen h) = []")
    case True
    then have "list_all (\<lambda>r. ranged_from base r n) seen'" using entries span by (auto simp: list_all_iff)
    then show ?thesis using True m h' by (auto simp: seen_from_def intro!: exI [of _ n])
  next
    case False
    then obtain e where e: "e < 2 ^ 30" "at_side i (h_seen_end h) = base + of_nat e" "list_all (\<lambda>r. ranged_from base r e) (at_side i (h_seen h))"
      using assms(1) by (auto simp: seen_from_def)
    have d: "seq_diff (snd (packet_span p)) (at_side i (h_seen_end h)) = int n - int e"
      unfolding m(1) e(2) snd_conv using m(2) e(1) by (intro seq_diff_offsets) simp_all
    have "at_side i (h_seen_end h') = base + of_nat (max e n)" using False h'(2) d e(2) m(1) by (simp add: max_def)
    moreover have "list_all (\<lambda>r. ranged_from base r (max e n)) seen'"
      using entries span e(3) ranged_from_mono [OF _ max.cobounded1 [of e n]] ranged_from_mono [OF _ max.cobounded2 [of n e]]
      unfolding list_all_iff by blast
    ultimately show ?thesis using h'(1) e(1) m(2) by (auto simp: seen_from_def intro!: exI [of _ "max e n"])
  qed
qed (use assms in \<open>auto simp: observe_payload_def\<close>)

lemma payload_other_side:
  assumes "observe_payload fast p i h = Ret (h', again)" and "(i = 0) \<noteq> (j = 0)"
  shows "at_side j (h_seen h') = at_side j (h_seen h)" "at_side j (h_seen_end h') = at_side j (h_seen_end h)"
  using assms by (auto simp: observe_payload_def Let_def gbind_eq_Ret split: prod.splits if_splits)

text \<open>A packet of one of two directions, with a base for each.\<close>

definition packet_from :: "u32 two \<Rightarrow> packet \<Rightarrow> bool" where
  "packet_from bases p \<longleftrightarrow> payload_from (at_side (direction_index p) bases) p"

definition health_from :: "u32 two \<Rightarrow> tcp_health \<Rightarrow> bool" where
  "health_from bases h \<longleftrightarrow> seen_from (fst bases) 0 h \<and> seen_from (snd bases) 1 h"

lemma health_from_frame:
  "h_seen h' = h_seen h \<Longrightarrow> h_seen_end h' = h_seen_end h \<Longrightarrow> health_from bases h' = health_from bases h"
  by (simp add: health_from_def seen_from_def)

lemma at_side_0: "at_side i bases = (if i = 0 then fst bases else snd bases)"
  by (cases bases) simp

lemma health_shortcut:
  assumes "health_from bases h" and "packet_from bases p"
  shows "health_observe_with True p loopback clock h = health_observe_with False p loopback clock h"
    and "health_observe_with fast p loopback clock h = Ret h' \<Longrightarrow> health_from bases h'"
proof -
  let ?i = "direction_index p" and ?h = "\<lambda>now. observe_handshake p loopback now (fst (observe_syn p (direction_index p) h))"
  have i: "?i = 0 \<or> ?i = 1" by (simp add: direction_index_def)
  have h: "health_from bases (?h now)" for now
    using assms(1) by (simp add: health_from_frame [of "?h now" h] observe_handshake_frame observe_syn_frame)
  then have seen: "seen_from (at_side ?i bases) ?i (?h now)" for now
    using i h [of now] unfolding health_from_def by (elim disjE) (simp_all add: at_side_0)
  note pay = assms(2) [unfolded packet_from_def]
  show "health_observe_with True p loopback clock h = health_observe_with False p loopback clock h"
    unfolding health_observe_with_alt payload_shortcut [OF seen pay] ..
  assume r: "health_observe_with fast p loopback clock h = Ret h'"
  show "health_from bases h'"
  proof (cases "k_protocol p = 6")
    case True
    then obtain now h2 again where h2: "observe_payload fast p ?i (?h now) = Ret (h2, again)"
        and h': "h' = h2 \<or> h' = h2\<lparr>h_retransmits := h_retransmits h2 + 1\<rparr>"
      using r unfolding health_observe_with_alt by (auto simp: gbind_eq_Ret split: if_splits)
    have same: "seen_from (at_side ?i bases) ?i h2" by (rule payload_from_kept [OF seen pay h2])
    have other: "seen_from base j h2 = seen_from base j (?h now)" if "(?i = 0) \<noteq> (j = 0)" for base j
      using payload_other_side [OF h2 that] by (simp add: seen_from_def)
    have "health_from bases h2"
      using i same other [of 0] other [of 1] h [of now] by (elim disjE) (simp_all add: health_from_def at_side_0)
    then show ?thesis using h' by (auto simp: health_from_frame [of "h2\<lparr>h_retransmits := h_retransmits h2 + 1\<rparr>" h2])
  qed (use r assms(1) in \<open>simp add: health_observe_with_alt\<close>)
qed

lemma health_from0 [simp]: "health_from bases tcp_health0"
  by (simp add: health_from_def seen_from_def tcp_health0_def)

lemma health_run_shortcut:
  assumes "health_from bases h" and "list_all (\<lambda>(p, clock). packet_from bases p) ps"
  shows "gfold (\<lambda>(p, clock). health_observe_with True p loopback clock) ps h
    = gfold (\<lambda>(p, clock). health_observe_with False p loopback clock) ps h"
  using assms
proof (induction ps arbitrary: h)
  case (Cons x ps)
  obtain p clock where x: "x = (p, clock)" by (cases x)
  have p: "packet_from bases p" using Cons.prems(2) by (simp add: x)
  show ?case
  proof (cases "health_observe_with False p loopback clock h")
    case (Ret h')
    have "health_from bases h'" by (rule health_shortcut(2) [OF Cons.prems(1) p Ret])
    then show ?thesis using Ret Cons.IH Cons.prems(2) health_shortcut(1) [OF Cons.prems(1) p] by (simp add: x)
  qed (simp_all add: x health_shortcut(1) [OF Cons.prems(1) p])
qed simp

section \<open>The kernel's counters only grow\<close>

lemma merge_metrics_sampled: "tm_sampled_ns (merge_metrics previous m) = max (tm_sampled_ns previous) (tm_sampled_ns m)"
proof (cases "tm_sampled_ns m < tm_sampled_ns previous \<or> tm_sampled_ns m = 0")
  case True
  then have "max (tm_sampled_ns previous) (tm_sampled_ns m) = tm_sampled_ns previous" by (auto intro: max.absorb1)
  then show ?thesis using True by (auto simp: merge_metrics_def)
next
  case False
  then have "max (tm_sampled_ns previous) (tm_sampled_ns m) = tm_sampled_ns m" by (simp add: max.absorb2 not_less)
  then show ?thesis using False by (simp add: merge_metrics_def)
qed

lemma merge_info_grows:
  "ti_retransmits (merge_info k info) = (if tm_sampled_ns (ti_metrics info) \<noteq> 0 then ti_retransmits k else max (ti_retransmits k) (ti_retransmits info))"
  "ti_segs_out (merge_info k info) = (if tm_sampled_ns (ti_metrics info) \<noteq> 0 then ti_segs_out k else max (ti_segs_out k) (ti_segs_out info))"
  "tm_sampled_ns (ti_metrics (merge_info k info)) = max (tm_sampled_ns (ti_metrics k)) (tm_sampled_ns (ti_metrics info))"
  by (simp_all add: merge_info_def Let_def merge_metrics_sampled)

lemma percent_le: "percent part whole \<le> 100"
  by (simp add: percent_def)

end
