(* ===== verification/Ja4.thy ===== *)
theory Ja4 imports GoText "HOL-Library.Multiset" begin

text \<open>
  The JA4 fingerprint of a ClientHello (\<^verbatim>\<open>internal/domain/ja4.go\<close>).  SHA-256 is the field \<open>sha256\<close> of the
  environment.  The lemmas show that the fingerprint depends only on the multiset of cipher suites
  and extensions, and not on GREASE values, and that it always has 36 characters.
\<close>

record ja4_fields =
  j_version :: u16
  j_versions :: "u16 list"
  j_ciphers :: "u16 list"
  j_extensions :: "u16 list"
  j_signatures :: "u16 list"
  j_alpn :: bytes

definition ja4_fields0 :: ja4_fields where
  "ja4_fields0 = \<lparr>j_version = 0, j_versions = [], j_ciphers = [], j_extensions = [], j_signatures = [], j_alpn = []\<rparr>"

definition is_grease :: "u16 \<Rightarrow> bool" where
  "is_grease v \<longleftrightarrow> v AND 0x0f0f = 0x0a0a \<and> drop_bit 8 v = v AND 0xff"

definition without_grease :: "u16 list \<Rightarrow> u16 list" where
  "without_grease values = filter (\<lambda>v. \<not> is_grease v) values"

definition ja4_version :: "u16 \<Rightarrow> bytes" where
  "ja4_version v = (if v = 0x0304 then lit ''13'' else if v = 0x0303 then lit ''12''
     else if v = 0x0302 then lit ''11'' else if v = 0x0301 then lit ''10''
     else if v = 0x0300 then lit ''s3'' else if v = 0x0002 then lit ''s2''
     else if v = 0xfeff then lit ''d1'' else if v = 0xfefd then lit ''d2''
     else if v = 0xfefc then lit ''d3'' else lit ''00'')"

definition alphanumeric :: "byte \<Rightarrow> bool" where
  "alphanumeric b \<longleftrightarrow> 48 \<le> b \<and> b \<le> 57 \<or> 65 \<le> b \<and> b \<le> 90 \<or> 97 \<le> b \<and> b \<le> 122"

definition ja4_alpn :: "bytes \<Rightarrow> bytes" where
  "ja4_alpn alpn = (if alpn = [] then lit ''00''
     else let first = hd alpn; last_byte = last alpn in
       if alphanumeric first \<and> alphanumeric last_byte then [first, last_byte]
       else let h = hex_bytes [first, last_byte] in take 1 h @ drop 3 h)"

definition hex_list :: "u16 list \<Rightarrow> bytes" where
  "hex_list values = join (map (\<lambda>v. pad_zero 4 (hex (unat v))) values) (lit '','')"

definition ja4_hash :: "env \<Rightarrow> bytes \<Rightarrow> bytes" where
  "ja4_hash \<Gamma> s = hex_bytes (take 6 (sha256 \<Gamma> s))"

definition ja4_zero :: bytes where
  "ja4_zero = lit ''000000000000''"

definition fingerprint :: "env \<Rightarrow> ja4_fields \<Rightarrow> byte \<Rightarrow> bytes" where
  "fingerprint \<Gamma> f transport = (let
     ciphers = without_grease (j_ciphers f);
     extensions = without_grease (j_extensions f);
     sni = (if 0 \<in> set extensions then 100 else 105);
     versions = without_grease (j_versions f);
     version = (if versions \<noteq> [] then Max (set versions) else j_version f);
     a = [transport] @ ja4_version version @ [sni] @ pad_zero 2 (dec (min (length ciphers) 99))
       @ pad_zero 2 (dec (min (length extensions) 99)) @ ja4_alpn (j_alpn f);
     b = (if ciphers \<noteq> [] then ja4_hash \<Gamma> (hex_list (sort ciphers)) else ja4_zero);
     hashed = filter (\<lambda>e. \<not> (e = 0 \<or> e = 16)) extensions;
     signatures = without_grease (j_signatures f);
     c = (if hashed \<noteq> [] then ja4_hash \<Gamma> (hex_list (sort hashed)
            @ (if signatures \<noteq> [] then lit ''_'' @ hex_list signatures else [])) else ja4_zero)
     in a @ lit ''_'' @ b @ lit ''_'' @ c)"

section \<open>Order and GREASE\<close>

lemma sort_mset_eq: "mset xs = mset ys \<Longrightarrow> sort xs = sort (ys :: 'a::linorder list)"
  by (metis sorted_list_of_multiset_mset)

lemma mset_filter_eq: "mset xs = mset ys \<Longrightarrow> mset (filter P xs) = mset (filter P ys)"
  by simp

lemma mset_eq_Nil_iff: "mset xs = mset ys \<Longrightarrow> xs = [] \<longleftrightarrow> ys = []"
  by (metis mset_zero_iff)

lemma hex_of_sorted_eq:
  "mset xs = mset ys \<Longrightarrow> hex_list (sort xs) = hex_list (sort ys)"
  using sort_mset_eq by fastforce

lemma fingerprint_perm:
  assumes c: "mset (without_grease (j_ciphers f)) = mset (without_grease (j_ciphers g))"
    and e: "mset (without_grease (j_extensions f)) = mset (without_grease (j_extensions g))"
    and s: "without_grease (j_signatures f) = without_grease (j_signatures g)"
    and v: "set (without_grease (j_versions f)) = set (without_grease (j_versions g))"
    and r: "j_version f = j_version g" "j_alpn f = j_alpn g"
  shows "fingerprint \<Gamma> f t = fingerprint \<Gamma> g t"
proof -
  let ?h = "\<lambda>x. filter (\<lambda>e. \<not> (e = 0 \<or> e = 16)) (without_grease (j_extensions x))"
  from e have h: "mset (?h f) = mset (?h g)" by (rule mset_filter_eq)
  have nv: "without_grease (j_versions f) = [] \<longleftrightarrow> without_grease (j_versions g) = []"
    using v by (metis set_empty)
  note facts = mset_eq_setD [OF e] mset_eq_length [OF c] mset_eq_length [OF e] mset_eq_Nil_iff [OF c]
    mset_eq_Nil_iff [OF h] hex_of_sorted_eq [OF c] hex_of_sorted_eq [OF h]
  show ?thesis
    unfolding fingerprint_def Let_def by (simp only: facts s v r nv)
qed

lemma without_grease_remove:
  "is_grease x \<Longrightarrow> without_grease (as @ x # bs) = without_grease (as @ bs)"
  by (simp add: without_grease_def)

section \<open>Length\<close>

lemma length_ja4_version: "length (ja4_version v) = 2"
  by (simp add: ja4_version_def lit_def)

lemma length_hex_bytes [simp]: "length (hex_bytes b) = 2 * length b"
  by (induction b) (auto simp: hex_bytes_def)

lemma length_ja4_alpn: "length (ja4_alpn a) = 2"
  by (simp add: ja4_alpn_def lit_def Let_def)

lemma dec_small: "n < 10 \<Longrightarrow> dec n = [digit_char n]"
  by (simp add: dec_def num_text.simps [of 10 n])

lemma length_dec_99: "n < 100 \<Longrightarrow> length (dec n) \<le> 2"
  by (cases "n < 10")
     (auto simp: dec_def num_text.simps [of 10 n] num_text.simps [of 10 "n div 10"])

lemma length_pad_dec: "n < 100 \<Longrightarrow> length (pad_zero 2 (dec n)) = 2"
  using length_dec_99 [of n] by (simp add: pad_zero_def)

lemma length_ja4_hash: "6 \<le> length (sha256 \<Gamma> s) \<Longrightarrow> length (ja4_hash \<Gamma> s) = 12"
  by (simp add: ja4_hash_def)

lemma length_ja4_zero: "length ja4_zero = 12"
  by (simp add: ja4_zero_def lit_def)

lemma length_fingerprint:
  assumes "\<And>s. length (sha256 \<Gamma> s) = 32"
  shows "length (fingerprint \<Gamma> f t) = 36"
proof -
  have h: "length (ja4_hash \<Gamma> s) = 12" for s using assms by (intro length_ja4_hash) simp
  have d: "length (pad_zero 2 (dec (min n 99))) = 2" for n by (rule length_pad_dec) simp
  show ?thesis
    unfolding fingerprint_def Let_def
    by (simp add: h d length_ja4_version length_ja4_alpn length_ja4_zero lit_def)
qed

end
