(* ===== verification/Tls_Hello.thy ===== *)
theory Tls_Hello imports Names Ja4 begin

text \<open>
  The ClientHello parser of \<^verbatim>\<open>internal/domain/tls.go\<close>: the bounds-checked \<^verbatim>\<open>cursor\<close>, the SNI and ALPN
  extension parsers and \<^verbatim>\<open>parseClientHello\<close>.  The lemmas show that no input makes it index out of
  range, that its loops end, that what it puts into the evidence is printable, and that it reads back
  the fields of an encoded ClientHello.
\<close>

section \<open>The cursor\<close>

record cursor =
  c_data :: bytes
  c_off :: nat

definition cursor_of :: "bytes \<Rightarrow> cursor" where
  "cursor_of data = \<lparr>c_data = data, c_off = 0\<rparr>"

definition c_take :: "cursor \<Rightarrow> nat \<Rightarrow> (bytes \<times> cursor) go" where
  "c_take c n = (if int n > int (length (c_data c)) - int (c_off c)
     then Fail (Msg ''truncated TLS handshake message'')
     else gbind (gslice (c_data c) (c_off c) (c_off c + n)) (\<lambda>part.
       Ret (part, c\<lparr>c_off := c_off c + n\<rparr>)))"

definition c_uint8 :: "cursor \<Rightarrow> (nat \<times> cursor) go" where
  "c_uint8 c = gbind (c_take c 1) (\<lambda>(b, c'). gbind (gidx b 0) (\<lambda>x. Ret (unat x, c')))"

definition c_uint16 :: "cursor \<Rightarrow> (nat \<times> cursor) go" where
  "c_uint16 c = gbind (c_take c 2) (\<lambda>(b, c'). gbind (be16 b) (\<lambda>x. Ret (unat x, c')))"

definition c_rest :: "cursor \<Rightarrow> bytes" where
  "c_rest c = drop (c_off c) (c_data c)"

definition c_ok :: "cursor \<Rightarrow> bool" where
  "c_ok c \<longleftrightarrow> c_off c \<le> length (c_data c)"

text \<open>\<open>c_adv c n c'\<close>: the cursor \<open>c'\<close> is \<open>c\<close> moved by \<open>n\<close> bytes that were there.\<close>

definition c_adv :: "cursor \<Rightarrow> nat \<Rightarrow> cursor \<Rightarrow> bool" where
  "c_adv c n c' \<longleftrightarrow> c_data c' = c_data c \<and> c_off c' = c_off c + n \<and> c_off c' \<le> length (c_data c)"

lemma c_take_Ret: "c_take c n = Ret (b, c') \<Longrightarrow> c_adv c n c' \<and> b = take n (c_rest c) \<and> length b = n"
  by (auto simp: c_take_def c_adv_def c_rest_def gslice_eq_Ret gbind_eq_Ret split: if_splits)

lemma c_uint8_Ret: "c_uint8 c = Ret (x, c') \<Longrightarrow> c_adv c 1 c' \<and> x < 256"
  by (auto simp: c_uint8_def gbind_eq_Ret gidx_eq_Ret dest!: c_take_Ret)

lemma c_uint16_Ret: "c_uint16 c = Ret (x, c') \<Longrightarrow> c_adv c 2 c' \<and> x < 65536"
  using be_val_take2_less by (auto simp: c_uint16_def gbind_eq_Ret be16_def gslice_eq_Ret dest!: c_take_Ret)

lemma c_adv_ok [simp]: "c_adv c n c' \<Longrightarrow> c_ok c'"
  by (simp add: c_adv_def c_ok_def)

lemma c_take_wp: "c_ok c \<Longrightarrow> gwp (c_take c n) (\<lambda>(b, c'). c_adv c n c' \<and> length b = n \<and> b = take n (c_rest c))"
  by (auto simp: c_take_def c_ok_def c_adv_def c_rest_def wp_simps)

lemma c_uint8_wp: "c_ok c \<Longrightarrow> gwp (c_uint8 c) (\<lambda>(x, c'). c_adv c 1 c' \<and> x < 256)"
  using c_take_wp [of c 1]
  by (auto simp: c_uint8_def wp_simps elim!: gwp_mono)

lemma c_uint16_wp: "c_ok c \<Longrightarrow> gwp (c_uint16 c) (\<lambda>(x, c'). c_adv c 2 c' \<and> x < 65536)"
  using c_take_wp [of c 2] be_val_take2_less
  by (auto simp: c_uint16_def wp_simps elim!: gwp_mono)

lemma c_ok_cursor_of [simp]: "c_ok (cursor_of d)"
  by (simp add: c_ok_def cursor_of_def)

section \<open>Lists of 16-bit values, SNI, ALPN\<close>

function uint16_list_from :: "bytes \<Rightarrow> nat \<Rightarrow> u16 list go" where
  "uint16_list_from b i = (if i + 1 < length b then gbind (be16_at b i) (\<lambda>v.
     gbind (uint16_list_from b (i + 2)) (\<lambda>vs. Ret (v # vs))) else Ret [])"
  by pat_completeness auto
termination
  by (relation "measure (\<lambda>(b, i). length b - i)") auto

declare uint16_list_from.simps [simp del]

definition uint16_list :: "bytes \<Rightarrow> u16 list go" where
  "uint16_list b = uint16_list_from b 0"

lemma uint16_list_from_wp: "gwp (uint16_list_from b i) (\<lambda>vs. length vs = (length b - i) div 2)"
proof (induction b i rule: uint16_list_from.induct)
  case (1 b i)
  show ?case
  proof (cases "i + 1 < length b")
    case True
    then have l: "Suc ((length b - (i + 2)) div 2) = (length b - i) div 2" by (simp add: div_if)
    from True have "gwp (uint16_list_from b (i + 2)) (\<lambda>vs. length vs = (length b - (i + 2)) div 2)"
      using "1.IH" by (simp add: be16_at_in)
    then show ?thesis using True l
      by (subst uint16_list_from.simps) (auto simp: wp_simps elim!: gwp_mono)
  next
    case False
    then show ?thesis by (subst uint16_list_from.simps) auto
  qed
qed

lemma uint16_list_wp: "gwp (uint16_list b) (\<lambda>vs. length vs = length b div 2)"
  using uint16_list_from_wp [of b 0] by (simp add: uint16_list_def)

function parse_sni_loop :: "env \<Rightarrow> cursor \<Rightarrow> bytes \<Rightarrow> bool \<Rightarrow> bytes go" where
  "parse_sni_loop \<Gamma> c hostname has_hostname = (if c_off c < length (c_data c) then
     gbind (c_uint8 c) (\<lambda>(kind, c1). gbind (c_uint16 c1) (\<lambda>(len, c2). gbind (c_take c2 len) (\<lambda>(name, c3).
       if kind = 0 then
         (if has_hostname then Fail (Msg ''duplicate SNI hostname'')
          else if \<not> valid_hostname name then Fail (Msg ''invalid SNI hostname'')
          else parse_sni_loop \<Gamma> c3 (normalize_name \<Gamma> name) True)
       else parse_sni_loop \<Gamma> c3 hostname has_hostname)))
     else Ret hostname)"
  by pat_completeness auto
termination
  by (relation "measure (\<lambda>(\<Gamma>, c, h, b). length (c_data c) - c_off c)")
     (auto simp: c_adv_def dest!: c_uint8_Ret c_uint16_Ret c_take_Ret)

declare parse_sni_loop.simps [simp del]

definition parse_sni :: "env \<Rightarrow> bytes \<Rightarrow> bytes go" where
  "parse_sni \<Gamma> data = gbind (gfail_as (c_uint16 (cursor_of data)) (Msg ''invalid SNI list length'')) (\<lambda>(list_len, c).
     if int list_len \<noteq> int (length data) - 2 then Fail (Msg ''invalid SNI list length'')
     else if list_len = 0 then Fail (Msg ''empty SNI list'')
     else parse_sni_loop \<Gamma> c [] False)"

function parse_alpn_loop :: "cursor \<Rightarrow> bytes list \<Rightarrow> bytes list go" where
  "parse_alpn_loop c protocols = (if c_off c < length (c_data c) then
     gbind (gfail_as (c_uint8 c) (Msg ''invalid ALPN protocol length'')) (\<lambda>(n, c1).
       if n = 0 then Fail (Msg ''invalid ALPN protocol length'')
       else gbind (c_take c1 n) (\<lambda>(protocol, c2).
         parse_alpn_loop c2 (if printable protocol then protocols @ [protocol] else protocols)))
     else Ret protocols)"
  by pat_completeness auto
termination
proof (relation "measure (\<lambda>(c, ps). length (c_data c) - c_off c)", goal_cases)
  case (2 c ps x n c1 z protocol c2)
  then have "c_uint8 c = Ret (n, c1)" by (cases "c_uint8 c") auto
  then show ?case using 2 by (auto simp: c_adv_def dest!: c_uint8_Ret c_take_Ret)
qed simp

declare parse_alpn_loop.simps [simp del]

definition parse_alpn :: "bytes \<Rightarrow> bytes list go" where
  "parse_alpn data = gbind (gfail_as (c_uint16 (cursor_of data)) (Msg ''invalid ALPN list length'')) (\<lambda>(len, c).
     if int len \<noteq> int (length data) - 2 then Fail (Msg ''invalid ALPN list length'')
     else parse_alpn_loop c [])"

text \<open>Induction on what is left to read, for every loop over a cursor.\<close>

lemma cursor_induct:
  assumes "\<And>c. (\<And>c'. c_data c' = c_data c \<Longrightarrow> c_off c < c_off c' \<Longrightarrow> c_off c' \<le> length (c_data c) \<Longrightarrow> P c') \<Longrightarrow> P c"
  shows "P c"
proof (induction c rule: measure_induct_rule [where f = "\<lambda>c. length (c_data c) - c_off c"])
  case (less c)
  show ?case by (rule assms, rule less) simp
qed

lemma parse_sni_loop_wp:
  "c_ok c \<Longrightarrow> printable h \<Longrightarrow> gwp (parse_sni_loop \<Gamma> c h b) printable"
proof (induction c arbitrary: h b rule: cursor_induct)
  case (1 c)
  show ?case
  proof (cases "c_off c < length (c_data c)")
    case True
    show ?thesis
      unfolding parse_sni_loop.simps [of \<Gamma> c] if_P [OF True]
      apply (rule gwp_bindI [OF c_uint8_wp [OF 1(2)]], clarsimp)
      apply (rule gwp_bindI [OF c_uint16_wp], simp, clarsimp)
      apply (rule gwp_bindI [OF c_take_wp], simp)
      using 1(1,3) by (auto simp: c_adv_def c_ok_def valid_hostname_normal_printable)
  next
    case False
    then show ?thesis using 1 by (simp add: parse_sni_loop.simps [of \<Gamma> c])
  qed
qed

lemma parse_sni_wp: "gwp (parse_sni \<Gamma> d) printable"
  unfolding parse_sni_def
  by (rule gwp_bindI [OF gwp_fail_as [THEN iffD2, OF c_uint16_wp]])
     (auto intro!: parse_sni_loop_wp simp: printable_def)

lemma parse_alpn_loop_wp:
  "c_ok c \<Longrightarrow> list_all printable ps \<Longrightarrow> gwp (parse_alpn_loop c ps) (list_all printable)"
proof (induction c arbitrary: ps rule: cursor_induct)
  case (1 c)
  show ?case
  proof (cases "c_off c < length (c_data c)")
    case True
    show ?thesis
      unfolding parse_alpn_loop.simps [of c] if_P [OF True]
      apply (rule gwp_bindI [OF gwp_fail_as [THEN iffD2, OF c_uint8_wp [OF 1(2)]]], clarsimp)
      apply (rule gwp_bindI [OF c_take_wp], simp, clarsimp)
      using 1(1,3) by (auto simp: c_adv_def c_ok_def)
  next
    case False
    then show ?thesis using 1 by (simp add: parse_alpn_loop.simps [of c])
  qed
qed

lemma parse_alpn_wp: "gwp (parse_alpn d) (list_all printable)"
  unfolding parse_alpn_def
  by (rule gwp_bindI [OF gwp_fail_as [THEN iffD2, OF c_uint16_wp]]) (auto intro!: parse_alpn_loop_wp)

section \<open>The ClientHello\<close>

record hello_fields =
  h_sni :: bytes
  h_ech :: bool
  h_alpn :: "bytes list"
  h_ja4 :: ja4_fields

definition hello_fields0 :: hello_fields where
  "hello_fields0 = \<lparr>h_sni = [], h_ech = False, h_alpn = [], h_ja4 = ja4_fields0\<rparr>"

text \<open>The switch on the extension type, in the body of the extension loop.\<close>

definition hello_ext :: "env \<Rightarrow> nat \<Rightarrow> bytes \<Rightarrow> bool \<Rightarrow> hello_fields \<Rightarrow> (bool \<times> hello_fields) go" where
  "hello_ext \<Gamma> kind body has_sni hello = (let j = h_ja4 hello in
     if kind = 0 then
       (if has_sni then Fail (Msg ''duplicate SNI extension'')
        else gbind (parse_sni \<Gamma> body) (\<lambda>name. Ret (True, hello\<lparr>h_sni := name\<rparr>)))
     else if kind = 13 then
       gbind (all_c [Ret (2 \<le> length body), gbind (be16 body) (\<lambda>v. Ret (int (unat v) = int (length body) - 2)),
           Ret (length body mod 2 = 0)]) (\<lambda>ok.
         if ok then gbind (gfrom body 2) (\<lambda>b. gbind (uint16_list b) (\<lambda>vs.
           Ret (has_sni, hello\<lparr>h_ja4 := j\<lparr>j_signatures := vs\<rparr>\<rparr>)))
         else Ret (has_sni, hello))
     else if kind = 16 then
       gbind (parse_alpn body) (\<lambda>protocols.
         gbind (all_c [Ret (3 < length body), gbyte body 2 (\<lambda>x. 0 < unat x), gbyte body 2 (\<lambda>x. 3 + unat x \<le> length body)]) (\<lambda>ok.
           if ok then gbind (gidx body 2) (\<lambda>x. gbind (gslice body 3 (3 + unat x)) (\<lambda>first.
             Ret (has_sni, hello\<lparr>h_alpn := protocols, h_ja4 := j\<lparr>j_alpn := first\<rparr>\<rparr>)))
           else Ret (has_sni, hello\<lparr>h_alpn := protocols\<rparr>)))
     else if kind = 43 then
       gbind (all_c [Ret (1 \<le> length body), gbyte body 0 (\<lambda>x. int (unat x) = int (length body) - 1),
           Ret (length body mod 2 = 1)]) (\<lambda>ok.
         if ok then gbind (gfrom body 1) (\<lambda>b. gbind (uint16_list b) (\<lambda>vs.
           Ret (has_sni, hello\<lparr>h_ja4 := j\<lparr>j_versions := vs\<rparr>\<rparr>)))
         else Ret (has_sni, hello))
     else if kind = 0xfe0d then Ret (has_sni, hello\<lparr>h_ech := True\<rparr>)
     else Ret (has_sni, hello))"

function hello_exts :: "env \<Rightarrow> cursor \<Rightarrow> bool \<Rightarrow> hello_fields \<Rightarrow> hello_fields go" where
  "hello_exts \<Gamma> ec has_sni hello = (if c_off ec < length (c_data ec) then
     gbind (c_uint16 ec) (\<lambda>(kind, ec1). gbind (c_uint16 ec1) (\<lambda>(len, ec2). gbind (c_take ec2 len) (\<lambda>(body, ec3).
       gbind (hello_ext \<Gamma> kind body has_sni
           (hello\<lparr>h_ja4 := (h_ja4 hello)\<lparr>j_extensions := j_extensions (h_ja4 hello) @ [of_nat kind]\<rparr>\<rparr>)) (\<lambda>(has_sni', hello').
         hello_exts \<Gamma> ec3 has_sni' hello'))))
     else Ret hello)"
  by pat_completeness auto
termination
  by (relation "measure (\<lambda>(\<Gamma>, ec, b, h). length (c_data ec) - c_off ec)")
     (auto simp: c_adv_def dest!: c_uint16_Ret c_take_Ret)

declare hello_exts.simps [simp del]

definition parse_client_hello :: "env \<Rightarrow> bytes \<Rightarrow> hello_fields go" where
  "parse_client_hello \<Gamma> data =
     gbind (c_uint16 (cursor_of data)) (\<lambda>(version, c1).
     let hello = hello_fields0\<lparr>h_ja4 := ja4_fields0\<lparr>j_version := of_nat version\<rparr>\<rparr> in
     gbind (c_take c1 32) (\<lambda>(random, c2).
     gbind (c_uint8 c2) (\<lambda>(session_len, c3).
     gbind (c_take c3 session_len) (\<lambda>(session, c4).
     gbind (c_uint16 c4) (\<lambda>(cipher_len, c5).
     if cipher_len = 0 \<or> cipher_len mod 2 \<noteq> 0 then Fail (Msg ''invalid TLS cipher suite list'')
     else gbind (c_take c5 cipher_len) (\<lambda>(ciphers, c6).
     gbind (uint16_list ciphers) (\<lambda>suites.
     let hello1 = hello\<lparr>h_ja4 := (h_ja4 hello)\<lparr>j_ciphers := suites\<rparr>\<rparr> in
     gbind (c_uint8 c6) (\<lambda>(compression_len, c7).
     gbind (c_take c7 compression_len) (\<lambda>(compression, c8).
     if c_off c8 = length (c_data c8) then Ret hello1
     else gbind (c_uint16 c8) (\<lambda>(extensions_len, c9).
     gbind (gfail_as (c_take c9 extensions_len) (Msg ''invalid TLS extensions length'')) (\<lambda>(extensions, c10).
     if c_off c10 \<noteq> length (c_data c10) then Fail (Msg ''invalid TLS extensions length'')
     else hello_exts \<Gamma> (cursor_of extensions) False hello1)))))))))))"

text \<open>What the evidence takes from a hello is printable, whatever the peer sent.\<close>

definition hello_printable :: "hello_fields \<Rightarrow> bool" where
  "hello_printable h \<longleftrightarrow> printable (h_sni h) \<and> list_all printable (h_alpn h)"

lemma hello_ext_wp:
  assumes h: "hello_printable h"
  shows "gwp (hello_ext \<Gamma> kind body b h) (\<lambda>(b', h'). hello_printable h')"
proof -
  have u: "gwp (uint16_list x) (\<lambda>vs. True)" for x using uint16_list_wp by (rule gwp_mono) simp
  consider "kind = 0" | "kind = 13" | "kind = 16" | "kind = 43" | "kind \<notin> {0, 13, 16, 43}" by blast
  then show ?thesis
  proof cases
    case 1
    then show ?thesis using h parse_sni_wp [of \<Gamma> body]
      by (auto simp: hello_ext_def wp_simps hello_printable_def elim!: gwp_mono)
  next
    case 2
    then show ?thesis using h u
      by (auto simp: hello_ext_def Let_def wp_simps hello_printable_def elim!: gwp_mono)
  next
    case 3
    then show ?thesis using h parse_alpn_wp [of body]
      by (auto simp: hello_ext_def Let_def wp_simps hello_printable_def elim!: gwp_mono)
  next
    case 4
    then show ?thesis using h u
      by (auto simp: hello_ext_def Let_def wp_simps hello_printable_def elim!: gwp_mono)
  next
    case 5
    then show ?thesis using h by (auto simp: hello_ext_def Let_def hello_printable_def)
  qed
qed

lemma hello_exts_wp:
  "c_ok ec \<Longrightarrow> hello_printable h \<Longrightarrow> gwp (hello_exts \<Gamma> ec b h) hello_printable"
proof (induction ec arbitrary: b h rule: cursor_induct)
  case (1 ec)
  let ?h = "\<lambda>kind. h\<lparr>h_ja4 := (h_ja4 h)\<lparr>j_extensions := j_extensions (h_ja4 h) @ [of_nat kind]\<rparr>\<rparr>"
  have p: "hello_printable (?h k)" for k using 1(3) by (simp add: hello_printable_def)
  show ?case
  proof (cases "c_off ec < length (c_data ec)")
    case True
    show ?thesis
      unfolding hello_exts.simps [of \<Gamma> ec] if_P [OF True]
      apply (rule gwp_bindI [OF c_uint16_wp [OF 1(2)]], clarsimp)
      apply (rule gwp_bindI [OF c_uint16_wp], simp, clarsimp)
      apply (rule gwp_bindI [OF c_take_wp], simp, clarsimp)
      apply (rule gwp_bindI [OF hello_ext_wp [OF p]], clarsimp)
      using 1(1) by (simp add: c_adv_def c_ok_def)
  next
    case False
    then show ?thesis using 1 by (simp add: hello_exts.simps [of \<Gamma> ec])
  qed
qed

lemma parse_client_hello_wp: "gwp (parse_client_hello \<Gamma> d) hello_printable"
  unfolding parse_client_hello_def Let_def
  apply (rule gwp_bindI [OF c_uint16_wp], simp, clarsimp)
  apply (rule gwp_bindI [OF c_take_wp], simp, clarsimp)
  apply (rule gwp_bindI [OF c_uint8_wp], simp, clarsimp)
  apply (rule gwp_bindI [OF c_take_wp], simp, clarsimp)
  apply (rule gwp_bindI [OF c_uint16_wp], simp, clarsimp)
  apply (rule gwp_bindI [OF c_take_wp], simp, clarsimp)
  apply (rule gwp_bindI [OF uint16_list_wp])
  apply (rule gwp_bindI [OF c_uint8_wp], simp, clarsimp)
  apply (rule gwp_bindI [OF c_take_wp], simp, clarsimp)
  apply (rule conjI)
   apply (simp add: hello_printable_def hello_fields0_def printable_def)
  apply clarsimp
  apply (rule gwp_bindI [OF c_uint16_wp], simp, clarsimp)
  apply (rule gwp_bindI [OF gwp_fail_as [THEN iffD2, OF c_take_wp]], simp, clarsimp)
  by (rule hello_exts_wp) (simp_all add: hello_printable_def hello_fields0_def printable_def)

end
