(* ===== verification/Tls_Parser.thy ===== *)
theory Tls_Parser imports Tls_Hello Evidence Segments begin

text \<open>
  The TLS client parser of \<^verbatim>\<open>internal/domain/tls.go\<close> (\<^verbatim>\<open>tlsParser.feed\<close>): records are collected until
  they hold the ClientHello, which then becomes evidence.  A feed returns the parser, the evidence and
  the error, since the evidence outlives an error.

  The lemmas show that a feed always returns, that what it buffers is bounded, that it only adds
  printable names, and that its result does not depend on how the byte stream is cut into segments.
\<close>

definition max_client_hello :: nat where
  "max_client_hello = 65536"

record tls_parser =
  t_record :: bytes
  t_handshake :: bytes
  t_done :: bool

definition tls_parser0 :: tls_parser where
  "tls_parser0 = \<lparr>t_record = [], t_handshake = [], t_done = False\<rparr>"

definition tls_evidence :: "env \<Rightarrow> hello_fields \<Rightarrow> evidence \<Rightarrow> evidence" where
  "tls_evidence \<Gamma> hello e = e\<lparr>e_sni := h_sni hello, e_no_sni := h_sni hello = [], e_ech := h_ech hello,
     e_alpn := h_alpn hello, e_ja4 := Some (fingerprint \<Gamma> (h_ja4 hello) 116)\<rparr>"

function tls_loop :: "env \<Rightarrow> tls_parser \<Rightarrow> evidence \<Rightarrow> (tls_parser \<times> evidence \<times> err option) go" where
  "tls_loop \<Gamma> p e = (if length (t_record p) < 5 then Ret (p, e, None) else
     gbind (any_c [gbyte (t_record p) 0 (\<lambda>x. x \<noteq> 22), gbyte (t_record p) 1 (\<lambda>x. x \<noteq> 3)]) (\<lambda>bad.
     if bad then Ret (p, e, Some (Msg ''unexpected TLS record before ClientHello''))
     else gbind (gbind (gslice (t_record p) 3 5) be16) (\<lambda>len16. let len = unat len16 in
     if len < 1 \<or> len > 18432 then Ret (p, e, Some (Msg ''invalid TLS record length''))
     else if length (t_record p) < 5 + len then Ret (p, e, None)
     else gbind (gslice (t_record p) 5 (5 + len)) (\<lambda>body. gbind (gfrom (t_record p) (5 + len)) (\<lambda>rest.
     let p1 = p\<lparr>t_handshake := t_handshake p @ body, t_record := rest\<rparr>; hs = t_handshake p @ body in
     if length hs < 4 then tls_loop \<Gamma> p1 e
     else gbind (gidx hs 0) (\<lambda>h0.
     if h0 \<noteq> 1 then Ret (p1, e, Some (Msg ''first TLS handshake is not ClientHello''))
     else gbind (be24 hs 1) (\<lambda>message_len.
     if message_len > max_client_hello then Ret (p1, e, Some (Msg ''TLS ClientHello size limit''))
     else if length hs < 4 + message_len then tls_loop \<Gamma> p1 e
     else gbind (gslice hs 4 (4 + message_len)) (\<lambda>message.
       gtry (parse_client_hello \<Gamma> message) (\<lambda>er. Ret (p1, e, Some er)) (\<lambda>hello.
         Ret (p1\<lparr>t_done := True, t_record := [], t_handshake := []\<rparr>, tls_evidence \<Gamma> hello e, None))))))))))"
  by pat_completeness auto
termination
  by (relation "measure (\<lambda>(\<Gamma>, p, e). length (t_record p))") (auto simp: gfrom_def split: if_splits)

declare tls_loop.simps [simp del]

definition tls_feed :: "env \<Rightarrow> tls_parser \<Rightarrow> bytes \<Rightarrow> evidence \<Rightarrow> (tls_parser \<times> evidence \<times> err option) go" where
  "tls_feed \<Gamma> p data e = (if t_done p then Ret (p, e, None)
     else if length (t_record p) + length data > max_client_hello + 2 * 18432
     then Ret (p, e, Some (Msg ''TLS ClientHello size limit''))
     else tls_loop \<Gamma> (p\<lparr>t_record := t_record p @ data\<rparr>) e)"

section \<open>Every feed returns, with bounded buffers and printable evidence\<close>

text \<open>What the parser holds between two feeds.\<close>

definition tls_ok :: "tls_parser \<Rightarrow> bool" where
  "tls_ok p \<longleftrightarrow> (if t_done p then t_record p = [] \<and> t_handshake p = []
     else length (t_record p) < 5 + 18432 \<and> length (t_handshake p) < 4 + max_client_hello)"

definition ev_printable :: "evidence \<Rightarrow> bool" where
  "ev_printable e \<longleftrightarrow> printable (e_sni e) \<and> list_all printable (e_alpn e)"

lemma tls_evidence_frame [simp]: "e_hosts (tls_evidence \<Gamma> h e) = e_hosts e" "e_kind (tls_evidence \<Gamma> h e) = e_kind e"
  by (simp_all add: tls_evidence_def)

lemma tls_evidence_printable: "hello_printable h \<Longrightarrow> ev_printable (tls_evidence \<Gamma> h e)"
  by (simp add: tls_evidence_def ev_printable_def hello_printable_def)

lemma parse_client_hello_cases:
  obtains h where "parse_client_hello \<Gamma> d = Ret h" "hello_printable h"
  | er where "parse_client_hello \<Gamma> d = Fail er"
  using parse_client_hello_wp [of \<Gamma> d] by (cases "parse_client_hello \<Gamma> d") auto

definition tls_post :: "evidence \<Rightarrow> tls_parser \<times> evidence \<times> err option \<Rightarrow> bool" where
  "tls_post e r \<longleftrightarrow> (case r of (p', e', er) \<Rightarrow> ev_printable e' \<and> (er = None \<longrightarrow> tls_ok p') \<and>
     (t_done p' \<longrightarrow> er = None) \<and> (\<not> t_done p' \<longrightarrow> e' = e) \<and> e_hosts e' = e_hosts e \<and> e_kind e' = e_kind e)"

lemma tls_loop_returns:
  "\<not> t_done p \<Longrightarrow> ev_printable e \<Longrightarrow> length (t_handshake p) < 4 + max_client_hello
   \<Longrightarrow> returns (tls_loop \<Gamma> p e) (tls_post e)"
proof (induction p rule: measure_induct_rule [where f = "\<lambda>p. length (t_record p)"])
  case (less p)
  let ?r = "t_record p"
  show ?case
  proof (cases "length ?r < 5")
    case True
    then show ?thesis using less.prems by (simp add: tls_loop.simps [of \<Gamma> p] tls_post_def tls_ok_def)
  next
    case long0: False
    then have long: "\<not> length ?r < 5" "?r \<noteq> []" by auto
    define len where "len = be_val (take 2 (drop 3 ?r))"
    have len16: "be16 (take 2 (drop 3 ?r)) = Ret (of_nat len)" and ulen: "unat (of_nat len :: u16) = len"
      using long by (simp_all add: be16_in len_def)
    let ?p1 = "p\<lparr>t_handshake := t_handshake p @ take len (drop 5 ?r), t_record := drop (5 + len) ?r\<rparr>"
    have IH: "returns (tls_loop \<Gamma> ?p1 e) (tls_post e)"
      if "5 + len \<le> length ?r" "length (t_handshake ?p1) < 4 + max_client_hello"
      using less.IH [of ?p1] less.prems that by simp
    let ?hs = "t_handshake p @ take len (drop 5 ?r)"
    consider "?r ! 0 \<noteq> 22 \<or> ?r ! 1 \<noteq> 3 \<or> len < 1 \<or> len > 18432 \<or> length ?r < 5 + len"
      | (rec) "?r ! 0 = 22" "?r ! 1 = 3" "1 \<le> len" "len \<le> 18432" "5 + len \<le> length ?r"
      by linarith
    then show ?thesis
    proof cases
      case 1
      then show ?thesis using long less.prems
        by (auto simp: tls_loop.simps [of \<Gamma> p] gbyte_def len16 ulen Let_def tls_post_def tls_ok_def)
    next
      case rec
      note unfold = tls_loop.simps [of \<Gamma> p] gbyte_def len16 ulen Let_def
      show ?thesis
      proof (cases "length ?hs < 4")
        case True
        then show ?thesis using long rec IH by (simp add: unfold max_client_hello_def)
      next
        case big0: False
        then have big: "\<not> length ?hs < 4" "?hs \<noteq> []" by auto
        define ml where "ml = unat (?hs ! 1) * 65536 + unat (?hs ! 2) * 256 + unat (?hs ! 3)"
        have m: "be24 ?hs 1 = Ret ml" using big by (simp add: be24_in ml_def numeral_2_eq_2 numeral_3_eq_3)
        consider "?hs ! 0 \<noteq> 1 \<or> ml > max_client_hello"
          | "?hs ! 0 = 1" "ml \<le> max_client_hello" "length ?hs < 4 + ml"
          | "?hs ! 0 = 1" "ml \<le> max_client_hello" "4 + ml \<le> length ?hs" by linarith
        then show ?thesis
        proof cases
          case 1
          then show ?thesis using long rec big m less.prems
            by (auto simp: unfold tls_post_def)
        next
          case 2
          then show ?thesis using long rec big m IH by (simp add: unfold)
        next
          case 3
          show ?thesis
            by (rule parse_client_hello_cases [of \<Gamma> "take ml (drop 4 ?hs)"])
               (use long rec big m 3 less.prems in
                 \<open>auto simp: unfold tls_post_def tls_ok_def tls_evidence_printable\<close>)
        qed
      qed
    qed
  qed
qed

lemma tls_feed_returns:
  assumes "tls_ok p" and "ev_printable e"
  shows "returns (tls_feed \<Gamma> p d e) (tls_post e)"
  using assms tls_loop_returns [of "p\<lparr>t_record := t_record p @ d\<rparr>" e \<Gamma>]
  by (auto simp: tls_feed_def tls_post_def tls_ok_def)

section \<open>Segmentation\<close>

text \<open>
  What a loop leaves behind can be continued: more bytes at the end of the record buffer give what the
  loop would have given with those bytes there from the start.
\<close>

lemma tls_loop_append:
  "\<not> t_done p \<Longrightarrow> tls_loop \<Gamma> p e = Ret (p1, e1, None) \<Longrightarrow>
   tls_loop \<Gamma> (p\<lparr>t_record := t_record p @ b\<rparr>) e =
     (if t_done p1 then Ret (p1, e1, None) else tls_loop \<Gamma> (p1\<lparr>t_record := t_record p1 @ b\<rparr>) e1)"
proof (induction p rule: measure_induct_rule [where f = "\<lambda>p. length (t_record p)"])
  case (less p)
  let ?r = "t_record p" and ?pb = "p\<lparr>t_record := t_record p @ b\<rparr>"
  show ?case
  proof (cases "p1 = p \<and> e1 = e")
    case True
    then show ?thesis using less.prems by simp
  next
    case moved: False
    then have long: "\<not> length ?r < 5" "?r \<noteq> []" using less.prems by (auto simp: tls_loop.simps [of \<Gamma> p])
    define len where "len = be_val (take 2 (drop 3 ?r))"
    have len16: "be16 (take 2 (drop 3 ?r)) = Ret (of_nat len)" and ulen: "unat (of_nat len :: u16) = len"
      using long by (simp_all add: be16_in len_def)
    note unfold = tls_loop.simps [of \<Gamma> p] tls_loop.simps [of \<Gamma> ?pb] gbyte_def len16 ulen Let_def nth_append
    have rec: "?r ! 0 = 22" "?r ! 1 = 3" "1 \<le> len" "len \<le> 18432" "5 + len \<le> length ?r"
      using less.prems long moved by (auto simp: unfold split: if_splits)
    let ?p1 = "p\<lparr>t_handshake := t_handshake p @ take len (drop 5 ?r), t_record := drop (5 + len) ?r\<rparr>"
    let ?hs = "t_handshake p @ take len (drop 5 ?r)"
    have IH: "tls_loop \<Gamma> (?p1\<lparr>t_record := drop (5 + len) ?r @ b\<rparr>) e =
        (if t_done p1 then Ret (p1, e1, None) else tls_loop \<Gamma> (p1\<lparr>t_record := t_record p1 @ b\<rparr>) e1)"
      if "tls_loop \<Gamma> ?p1 e = Ret (p1, e1, None)"
      using less.IH [of ?p1] that less.prems rec by simp
    show ?thesis
    proof (cases "length ?hs < 4")
      case True
      then have "tls_loop \<Gamma> ?p1 e = Ret (p1, e1, None)"
        using less.prems long rec by (simp add: unfold)
      from IH [OF this] show ?thesis using True long rec by (simp add: unfold)
    next
      case big0: False
      then have big: "\<not> length ?hs < 4" "?hs \<noteq> []" by auto
      define ml where "ml = unat (?hs ! 1) * 65536 + unat (?hs ! 2) * 256 + unat (?hs ! 3)"
      have m: "be24 ?hs 1 = Ret ml" using big by (simp add: be24_in ml_def numeral_2_eq_2 numeral_3_eq_3)
      have h: "?hs ! 0 = 1" "ml \<le> max_client_hello"
        using less.prems(2) long rec big m
        by (auto simp: tls_loop.simps [of \<Gamma> p] gbyte_def len16 ulen Let_def split: if_splits)
      note unfold' = tls_loop.simps [of \<Gamma> p] tls_loop.simps [of \<Gamma> ?pb] gbyte_def len16 ulen Let_def
      show ?thesis
      proof (cases "length ?hs < 4 + ml")
        case True
        then have "tls_loop \<Gamma> ?p1 e = Ret (p1, e1, None)"
          using less.prems long rec big m h by (simp add: unfold')
        from IH [OF this] show ?thesis using True long rec big m h
          by (simp add: unfold' nth_append [of ?r b])
      next
        case False
        then show ?thesis
          by (cases rule: parse_client_hello_cases [of \<Gamma> "take ml (drop 4 ?hs)"])
             (use less.prems long rec big m h in
               \<open>auto simp: unfold' nth_append [of ?r b]\<close>)
      qed
    qed
  qed
qed

lemma tls_loop_not_done_evidence:
  "\<not> t_done p \<Longrightarrow> ev_printable e \<Longrightarrow> length (t_handshake p) < 4 + max_client_hello
   \<Longrightarrow> tls_loop \<Gamma> p e = Ret (p', e', er) \<Longrightarrow> tls_post e (p', e', er)"
  using tls_loop_returns [of p e \<Gamma>] by (simp add: returns_def)

lemma tls_feed_append:
  assumes first: "tls_feed \<Gamma> p a e = Ret (p1, e1, None)"
    and room: "length (t_record p) + length a + length b \<le> max_client_hello + 2 * 18432"
    and room1: "length (t_record p1) + length b \<le> max_client_hello + 2 * 18432"
  shows "tls_feed \<Gamma> p (a @ b) e = tls_feed \<Gamma> p1 b e1"
proof (cases "t_done p")
  case True
  then show ?thesis using first by (simp add: tls_feed_def)
next
  case False
  then have loop: "tls_loop \<Gamma> (p\<lparr>t_record := t_record p @ a\<rparr>) e = Ret (p1, e1, None)"
    using first room by (simp add: tls_feed_def)
  have "tls_feed \<Gamma> p (a @ b) e = tls_loop \<Gamma> (p\<lparr>t_record := t_record p @ a @ b\<rparr>) e"
    using False room by (simp add: tls_feed_def)
  also have "\<dots> = (if t_done p1 then Ret (p1, e1, None)
      else tls_loop \<Gamma> (p1\<lparr>t_record := t_record p1 @ b\<rparr>) e1)"
    using tls_loop_append [OF _ loop, of b] False by simp
  also have "\<dots> = tls_feed \<Gamma> p1 b e1"
    using room1 by (simp add: tls_feed_def)
  finally show ?thesis .
qed

section \<open>The consumer\<close>

text \<open>The parser with its evidence as a consumer of the client's bytes.\<close>

definition tls_consumer :: "env \<Rightarrow> tls_parser \<times> evidence \<Rightarrow> bytes \<Rightarrow> ((tls_parser \<times> evidence) \<times> err option) go" where
  "tls_consumer \<Gamma> s d = gbind (tls_feed \<Gamma> (fst s) d (snd s)) (\<lambda>(p, e, er). Ret ((p, e), er))"

definition tls_fits :: "tls_parser \<times> evidence \<Rightarrow> bytes \<Rightarrow> bool" where
  "tls_fits s d \<longleftrightarrow> length (t_record (fst s)) + length d \<le> max_client_hello + 2 * 18432"

interpretation tls_stream: segmented "tls_consumer \<Gamma>" tls_fits for \<Gamma>
proof
  fix s a b s'
  assume "tls_fits s (a @ b)" "tls_consumer \<Gamma> s a = Ret (s', None)" "tls_fits s' b"
  then show "tls_consumer \<Gamma> s (a @ b) = tls_consumer \<Gamma> s' b"
    using tls_feed_append [of \<Gamma> "fst s" a "snd s" "fst s'" "snd s'" b]
    by (auto simp: tls_consumer_def tls_fits_def gbind_eq_Ret)
qed

lemma tls_loop_record:
  "tls_loop \<Gamma> p e = Ret (p', e', er) \<Longrightarrow> length (t_record p') \<le> length (t_record p)"
proof (induction p rule: measure_induct_rule [where f = "\<lambda>p. length (t_record p)"])
  case (less p)
  let ?r = "t_record p"
  show ?case
  proof (cases "length ?r < 5")
    case True
    then show ?thesis using less.prems by (simp add: tls_loop.simps [of \<Gamma> p])
  next
    case long0: False
    then have long: "\<not> length ?r < 5" "?r \<noteq> []" by auto
    define len where "len = be_val (take 2 (drop 3 ?r))"
    have len16: "be16 (take 2 (drop 3 ?r)) = Ret (of_nat len)" and ulen: "unat (of_nat len :: u16) = len"
      using long by (simp_all add: be16_in len_def)
    note unfold = tls_loop.simps [of \<Gamma> p] gbyte_def len16 ulen Let_def
    let ?hs = "t_handshake p @ take len (drop 5 ?r)"
    let ?p1 = "p\<lparr>t_handshake := ?hs, t_record := drop (5 + len) ?r\<rparr>"
    show ?thesis
    proof (cases "?r ! 0 = 22 \<and> ?r ! 1 = 3 \<and> 1 \<le> len \<and> len \<le> 18432 \<and> 5 + len \<le> length ?r")
      case False
      then have "p' = p" using long less.prems by (auto simp: unfold split: if_splits)
      then show ?thesis by simp
    next
      case rec: True
      have IH: "length (t_record p') \<le> length ?r" if "tls_loop \<Gamma> ?p1 e = Ret (p', e', er)"
      proof -
        have "length (t_record ?p1) < length ?r" using long rec by simp
        from less.IH [OF this that] show ?thesis by simp
      qed
      show ?thesis
      proof (cases "length ?hs < 4")
        case True
        then have "tls_loop \<Gamma> ?p1 e = Ret (p', e', er)" using long rec less.prems by (simp add: unfold)
        then show ?thesis by (rule IH)
      next
        case big0: False
        then have big: "\<not> length ?hs < 4" "?hs \<noteq> []" by auto
        define ml where "ml = unat (?hs ! 1) * 65536 + unat (?hs ! 2) * 256 + unat (?hs ! 3)"
        have m: "be24 ?hs 1 = Ret ml" using big by (simp add: be24_in ml_def numeral_2_eq_2 numeral_3_eq_3)
        consider "?hs ! 0 \<noteq> 1 \<or> ml > max_client_hello"
          | "?hs ! 0 = 1" "ml \<le> max_client_hello" "length ?hs < 4 + ml"
          | "?hs ! 0 = 1" "ml \<le> max_client_hello" "4 + ml \<le> length ?hs" by linarith
        then show ?thesis
        proof cases
          case 1
          then have "\<exists>er0. tls_loop \<Gamma> p e = Ret (?p1, e, er0)" using long rec big m by (auto simp: unfold)
          then have "p' = ?p1" using less.prems(1) by auto
          then show ?thesis by simp
        next
          case 2
          then have "tls_loop \<Gamma> ?p1 e = Ret (p', e', er)" using long rec big m less.prems by (simp add: unfold)
          then show ?thesis by (rule IH)
        next
          case 3
          show ?thesis
            by (rule parse_client_hello_cases [of \<Gamma> "take ml (drop 4 ?hs)"])
               (use long rec big m 3 less.prems in \<open>auto simp: unfold\<close>)
        qed
      qed
    qed
  qed
qed

lemma tls_feed_record: "tls_feed \<Gamma> p d e = Ret (p', e', er) \<Longrightarrow> length (t_record p') \<le> length (t_record p) + length d"
  using tls_loop_record [of \<Gamma> "p\<lparr>t_record := t_record p @ d\<rparr>" e p' e' er] by (auto simp: tls_feed_def split: if_splits)

lemma tls_feed_all_record:
  "feed_all (tls_consumer \<Gamma>) s xs = Ret (t, None) \<Longrightarrow> length (t_record (fst t)) \<le> length (t_record (fst s)) + length (concat xs)"
proof (induction xs arbitrary: s)
  case (Cons x xs)
  then obtain u where u: "tls_consumer \<Gamma> s x = Ret (u, None)" and r: "feed_all (tls_consumer \<Gamma>) u xs = Ret (t, None)"
    by (cases "tls_consumer \<Gamma> s x") (auto split: if_splits)
  from u have "length (t_record (fst u)) \<le> length (t_record (fst s)) + length x"
    using tls_feed_record by (fastforce simp: tls_consumer_def gbind_eq_Ret)
  with Cons.IH [OF r] show ?case by simp
qed simp

text \<open>However a ClientHello is cut into segments, the parser ends in the same state.\<close>

lemma tls_feed_segments:
  assumes "feed_all (tls_consumer \<Gamma>) s (x # xs) = Ret (t, None)" and "\<forall>y \<in> set xs. y \<noteq> []"
    and "length (t_record (fst s)) + length (concat (x # xs)) \<le> max_client_hello + 2 * 18432"
  shows "tls_consumer \<Gamma> s (concat (x # xs)) = Ret (t, None)"
proof (rule tls_stream.feed_all_concat [OF assms(1,2)])
  fix ys u zs
  assume "x # xs = ys @ zs" and u: "feed_all (tls_consumer \<Gamma>) s ys = Ret (u, None)"
  then have "length (concat (x # xs)) = length (concat ys) + length (concat zs)" by (metis concat_append length_append)
  then show "tls_fits u (concat zs)" using tls_feed_all_record [OF u] assms(3) by (simp add: tls_fits_def)
qed

end
