(* ===== verification/Http2_Parser.thy ===== *)
theory Http2_Parser imports Http_Parser begin

text \<open>
  The cleartext HTTP/2 parser of \<^verbatim>\<open>internal/domain/http2.go\<close>: frames are cut out of the byte stream,
  header blocks are collected across CONTINUATION frames and decoded with HPACK, and each new stream
  counts one request for its authority.  The HPACK decoder is the parameter \<open>hpack \<Gamma>\<close>; the parser
  keeps the history of the blocks it gave to the decoder, \<open>None\<close> before the first.

  The lemmas show that a feed returns, that its buffers stay within one header block, that a stream is
  counted once, that skipping an uncaptured part of a frame equals feeding any bytes of that length,
  and that the result does not depend on how the byte stream is cut.
\<close>

definition max_h2_block :: nat where "max_h2_block = 65536"

definition h2_frame_headers :: u8 where "h2_frame_headers = 1"

definition h2_frame_continue :: u8 where "h2_frame_continue = 9"

record h2_parser =
  h2_header :: bytes
  h2_kind :: u8
  h2_flags :: u8
  h2_stream :: u32
  h2_remaining :: nat
  h2_frame :: bytes
  h2_block :: bytes
  h2_last :: u32
  h2_decoder :: "bytes list option"
  h2_stopped :: bool

definition h2_parser0 :: h2_parser where
  "h2_parser0 = \<lparr>h2_header = [], h2_kind = 0, h2_flags = 0, h2_stream = 0, h2_remaining = 0, h2_frame = [],
     h2_block = [], h2_last = 0, h2_decoder = None, h2_stopped = False\<rparr>"

definition header_frame :: "h2_parser \<Rightarrow> bool" where
  "header_frame p \<longleftrightarrow> h2_kind p = h2_frame_headers \<or> h2_kind p = h2_frame_continue"

section \<open>A header block\<close>

fun h2_fields :: "(bytes \<times> bytes) list \<Rightarrow> bytes \<Rightarrow> bool \<Rightarrow> bytes \<times> bool" where
  "h2_fields [] authority grpc = (authority, grpc)"
| "h2_fields ((name, value) # fs) authority grpc =
     (if name = lit '':authority'' \<or> name = lit ''host''
      then h2_fields fs (if authority \<noteq> [] then authority else value) grpc
      else if name = lit ''content-type''
      then h2_fields fs authority (grpc \<or> has_prefix value (lit ''application/grpc''))
      else h2_fields fs authority grpc)"

text \<open>The payload of a HEADERS frame without its padding and its priority.\<close>

definition h2_unpad :: "u8 \<Rightarrow> bytes \<Rightarrow> bytes go" where
  "h2_unpad flags fragment0 =
     gbind (if flags AND 8 \<noteq> 0 then
         gbind (any_c [Ret (fragment0 = []), gbyte fragment0 0 (\<lambda>x. unat x \<ge> length fragment0)]) (\<lambda>bad.
           if bad then Fail (Msg ''HTTP/2 padding'')
           else gbind (gidx fragment0 0) (\<lambda>pad. gslice fragment0 1 (length fragment0 - unat pad)))
       else Ret fragment0) (\<lambda>fragment.
     if flags AND 32 \<noteq> 0 then
       (if length fragment < 5 then Fail (Msg ''HTTP/2 priority'') else gfrom fragment 5)
     else Ret fragment)"

text \<open>What follows the decoding: the fields become evidence, a new stream counts its authority.\<close>

definition h2_request :: "env \<Rightarrow> (bytes \<times> bytes) list \<Rightarrow> h2_parser \<Rightarrow> evidence
    \<Rightarrow> (h2_parser \<times> evidence \<times> err option) go" where
  "h2_request \<Gamma> fs p e = (case h2_fields fs [] (e_grpc e) of (authority, grpc) \<Rightarrow>
     let e1 = e\<lparr>e_grpc := grpc\<rparr> in
     if h2_stream p \<le> h2_last p then Ret (p, e1, None)
     else let p1 = p\<lparr>h2_last := h2_stream p\<rparr>; host = normalize_http_host \<Gamma> authority in
       gtry (if host \<noteq> [] then count_host host e1 else Ret e1)
         (\<lambda>er. Ret (p1, e1, Some er)) (\<lambda>e2. Ret (p1, e2, None)))"

definition h2_headers :: "env \<Rightarrow> h2_parser \<Rightarrow> evidence \<Rightarrow> (h2_parser \<times> evidence \<times> err option) go" where
  "h2_headers \<Gamma> p e =
     gtry (if h2_kind p = h2_frame_headers then h2_unpad (h2_flags p) (h2_frame p) else Ret (h2_frame p))
       (\<lambda>er. Ret (p, e, Some er)) (\<lambda>fragment.
     let p1 = (if h2_kind p = h2_frame_headers then p\<lparr>h2_block := []\<rparr> else p) in
     if length (h2_block p1) + length fragment > max_h2_block
     then Ret (p1, e, Some (Msg ''HTTP/2 header block limit''))
     else let p2 = p1\<lparr>h2_block := h2_block p1 @ fragment\<rparr> in
     if h2_flags p AND 4 = 0 then Ret (p2, e, None)
     else let history = (case h2_decoder p2 of None \<Rightarrow> [] | Some h \<Rightarrow> h);
              p3 = p2\<lparr>h2_decoder := Some (history @ [h2_block p2])\<rparr> in
     (case hpack \<Gamma> history (h2_block p2) of
        Inl er \<Rightarrow> Ret (p3, e, Some (Wrapped ''HTTP/2 HPACK: '' (External er)))
      | Inr fs \<Rightarrow> h2_request \<Gamma> fs p3 e))"

section \<open>Frames\<close>

type_synonym h2_turn = "(h2_parser \<times> bytes \<times> evidence \<times> turn) go"

definition h2_payload :: "env \<Rightarrow> h2_parser \<Rightarrow> bytes \<Rightarrow> evidence \<Rightarrow> h2_turn" where
  "h2_payload \<Gamma> p data e = (let n = min (length data) (h2_remaining p);
       p0 = (if header_frame p then p\<lparr>h2_frame := h2_frame p @ take n data\<rparr> else p);
       p1 = p0\<lparr>h2_remaining := h2_remaining p - n\<rparr>; rest = drop n data in
     if h2_remaining p1 > 0 then Ret (p1, rest, e, Return None)
     else if header_frame p1 then
       gbind (h2_headers \<Gamma> p1 e) (\<lambda>(p2, e2, er). case er of
         Some x \<Rightarrow> Ret (p2\<lparr>h2_stopped := True\<rparr>, rest, e2, Return (Some x))
       | None \<Rightarrow> Ret (p2\<lparr>h2_header := [], h2_frame := []\<rparr>, rest, e2, Next))
     else Ret (p1\<lparr>h2_header := [], h2_frame := []\<rparr>, rest, e, Next))"

text \<open>The frame header, once its nine bytes are there.\<close>

definition h2_read_header :: "h2_parser \<Rightarrow> h2_parser go" where
  "h2_read_header p = (let h = h2_header p in
     gbind (be24 h 0) (\<lambda>len. gbind (gidx h 3) (\<lambda>kind. gbind (gidx h 4) (\<lambda>flags.
     gbind (gbind (gslice h 5 9) be32) (\<lambda>stream.
       Ret (p\<lparr>h2_remaining := len, h2_kind := kind, h2_flags := flags,
         h2_stream := stream AND 0x7fffffff\<rparr>))))))"

definition h2_step :: "env \<Rightarrow> h2_parser \<Rightarrow> bytes \<Rightarrow> evidence \<Rightarrow> h2_turn" where
  "h2_step \<Gamma> p data e =
     (if length (h2_header p) < 9 then
        let n = min (length data) (9 - length (h2_header p));
            p1 = p\<lparr>h2_header := h2_header p @ take n data\<rparr>; rest = drop n data in
        if length (h2_header p1) < 9 then Ret (p1, rest, e, Return None)
        else gbind (h2_read_header p1) (\<lambda>p2.
          if header_frame p2 \<and> h2_remaining p2 > max_h2_block
          then Ret (p2\<lparr>h2_stopped := True\<rparr>, rest, e, Return (Some (Msg ''HTTP/2 header block limit'')))
          else h2_payload \<Gamma> p2 rest e)
      else h2_payload \<Gamma> p data e)"

lemma h2_request_header:
  "h2_request \<Gamma> fs p e = Ret (p', e', er) \<Longrightarrow>
     p' = p \<or> p' = p\<lparr>h2_last := h2_stream p\<rparr> \<and> h2_last p < h2_stream p"
  by (auto simp: h2_request_def Let_def gtry_eq_Ret not_le split: prod.splits if_splits)

lemma h2_payload_next:
  assumes "h2_payload \<Gamma> p data e = Ret (p', rest, e', Next)"
  shows "h2_header p' = []" and "length rest \<le> length data"
  using assms by (auto simp: h2_payload_def Let_def gbind_eq_Ret split: if_splits option.splits)

lemma h2_step_shrinks:
  assumes "h2_step \<Gamma> p data e = Ret (p', rest, e', Next)" and "data \<noteq> []"
  shows "2 * length rest + (if 9 \<le> length (h2_header p') then 1 else 0)
     < 2 * length data + (if 9 \<le> length (h2_header p) then 1 else 0)"
proof (cases "length (h2_header p) < 9")
  case True
  let ?n = "min (length data) (9 - length (h2_header p))"
  from assms True obtain p2 where "h2_payload \<Gamma> p2 (drop ?n data) e = Ret (p', rest, e', Next)"
    by (auto simp: h2_step_def Let_def gbind_eq_Ret split: if_splits)
  from h2_payload_next [OF this] have "h2_header p' = []" "length rest \<le> length data - ?n" by auto
  moreover have "0 < length data" using assms(2) by simp
  ultimately show ?thesis using True by (simp add: min_def split: if_splits)
next
  case False
  then have "h2_payload \<Gamma> p data e = Ret (p', rest, e', Next)" using assms by (simp add: h2_step_def)
  from h2_payload_next [OF this] False show ?thesis by simp
qed

lemma h2_payload_not_Continue: "h2_payload \<Gamma> p data e \<noteq> Ret (p', rest, e', Continue)"
  unfolding h2_payload_def Let_def by (auto simp: gbind_eq_Ret split: option.splits)

lemma h2_step_not_Continue: "h2_step \<Gamma> p data e \<noteq> Ret (p', rest, e', Continue)"
  unfolding h2_step_def Let_def by (auto simp: gbind_eq_Ret h2_payload_not_Continue)

function h2_feed :: "env \<Rightarrow> h2_parser \<Rightarrow> bytes \<Rightarrow> evidence \<Rightarrow> (h2_parser \<times> evidence \<times> err option) go" where
  "h2_feed \<Gamma> p data e = (if data = [] \<or> h2_stopped p then Ret (p, e, None)
     else gbind (h2_step \<Gamma> p data e) (\<lambda>(p', rest, e', t). case t of
       Return er \<Rightarrow> Ret (p', e', er)
     | _ \<Rightarrow> h2_feed \<Gamma> p' rest e'))"
  by pat_completeness auto
termination
  by (relation "measure (\<lambda>(\<Gamma>, p, data, e). 2 * length data + (if 9 \<le> length (h2_header p) then 1 else 0))")
    (auto dest: h2_step_shrinks simp: h2_step_not_Continue)

declare h2_feed.simps [simp del]

text \<open>\<^verbatim>\<open>skip\<close>: \<open>None\<close> where the code returns false.\<close>

definition h2_skip :: "h2_parser \<Rightarrow> nat \<Rightarrow> h2_parser option" where
  "h2_skip p n = (if length (h2_header p) < 9 \<or> header_frame p \<or> n > h2_remaining p then None
     else let p1 = p\<lparr>h2_remaining := h2_remaining p - n\<rparr> in
       if h2_remaining p1 = 0 then Some (p1\<lparr>h2_header := []\<rparr>) else Some p1)"

section \<open>Every feed returns\<close>

definition h2_ok :: "h2_parser \<Rightarrow> bool" where
  "h2_ok p \<longleftrightarrow> length (h2_header p) \<le> 9 \<and> length (h2_block p) \<le> max_h2_block \<and>
     (h2_stopped p \<or> (if length (h2_header p) < 9 then h2_frame p = []
       else 0 < h2_remaining p \<and> (if header_frame p then length (h2_frame p) + h2_remaining p \<le> max_h2_block
         else h2_frame p = [])))"

text \<open>The same in the middle of a turn, where a frame may have no payload left.\<close>

definition h2_mid :: "h2_parser \<Rightarrow> bool" where
  "h2_mid p \<longleftrightarrow> length (h2_header p) = 9 \<and> length (h2_block p) \<le> max_h2_block \<and>
     (if header_frame p then length (h2_frame p) + h2_remaining p \<le> max_h2_block else h2_frame p = [])"

lemma h2_unpad_not_Panic: "h2_unpad flags b \<noteq> Panic"
proof -
  have "gwp (h2_unpad flags b) (\<lambda>_. True)"
    by (cases b) (auto simp: h2_unpad_def wp_simps gbyte_def)
  then show ?thesis by (simp add: gwp_True_iff)
qed

definition h2_headers_post :: "h2_parser \<Rightarrow> evidence \<Rightarrow> h2_parser \<times> evidence \<times> err option \<Rightarrow> bool" where
  "h2_headers_post p e r \<longleftrightarrow> (case r of (p', e', er) \<Rightarrow> hosts_ok e' \<and> length (h2_block p') \<le> max_h2_block \<and>
     h2_last p \<le> h2_last p' \<and> h2_header p' = h2_header p \<and> h2_stopped p' = h2_stopped p)"

lemma h2_request_returns:
  assumes "hosts_ok e" and "length (h2_block p) \<le> max_h2_block"
  shows "returns (h2_request \<Gamma> fs p e) (h2_headers_post p e)"
proof -
  obtain a g where f: "h2_fields fs [] (e_grpc e) = (a, g)" by (cases "h2_fields fs [] (e_grpc e)")
  have e: "hosts_ok (e\<lparr>e_grpc := g\<rparr>)" using assms(1) by (simp add: hosts_ok_def)
  show ?thesis
    using gwp_count_host [OF e, of "normalize_http_host \<Gamma> a"] e assms
    by (cases "count_host (normalize_http_host \<Gamma> a) (e\<lparr>e_grpc := g\<rparr>)")
      (auto simp: h2_request_def f h2_headers_post_def Let_def)
qed

lemma h2_headers_returns:
  assumes "hosts_ok e" and "length (h2_block p) \<le> max_h2_block"
  shows "returns (h2_headers \<Gamma> p e) (h2_headers_post p e)"
proof -
  define m where "m = (if h2_kind p = h2_frame_headers then h2_unpad (h2_flags p) (h2_frame p) else Ret (h2_frame p))"
  have m: "gwp m (\<lambda>_. True)" using h2_unpad_not_Panic by (simp add: m_def gwp_True_iff)
  show ?thesis
    unfolding h2_headers_def m_def [symmetric]
  proof (rule returns_try [OF m], goal_cases)
    case (1 x)
    define p1 where "p1 = (if h2_kind p = h2_frame_headers then p\<lparr>h2_block := []\<rparr> else p)"
    define q where "q = p1\<lparr>h2_block := h2_block p1 @ x,
        h2_decoder := Some ((case h2_decoder p1 of None \<Rightarrow> [] | Some h \<Rightarrow> h) @ [h2_block p1 @ x])\<rparr>"
    have p1: "length (h2_block p1) \<le> max_h2_block" "h2_last p1 = h2_last p" "h2_header p1 = h2_header p"
      "h2_stopped p1 = h2_stopped p" using assms by (simp_all add: p1_def)
    have q: "h2_last q = h2_last p" "h2_header q = h2_header p" "h2_stopped q = h2_stopped p"
      by (simp_all add: q_def p1)
    have "returns (h2_request \<Gamma> fs q e) (h2_headers_post p e)" if "length (h2_block q) \<le> max_h2_block" for fs
      by (rule returns_mono [OF h2_request_returns [OF assms(1) that]])
        (auto simp: h2_headers_post_def q)
    then show ?case using p1 assms q
      by (auto simp: p1_def [symmetric] Let_def h2_headers_post_def q_def split: sum.splits option.splits)
  next
    case (2 er)
    then show ?case using assms by (simp add: h2_headers_post_def)
  qed
qed

definition h2_step_post :: "h2_parser \<Rightarrow> h2_parser \<times> bytes \<times> evidence \<times> turn \<Rightarrow> bool" where
  "h2_step_post p r \<longleftrightarrow> (case r of (p', rest, e', t) \<Rightarrow> hosts_ok e' \<and> h2_ok p' \<and> h2_last p \<le> h2_last p'
     \<and> (t = Return None \<longrightarrow> rest = []) \<and> (h2_stopped p' \<longleftrightarrow> (\<exists>er. t = Return (Some er))))"

lemma h2_payload_returns:
  assumes "hosts_ok e" and "h2_mid p" and "\<not> h2_stopped p"
  shows "returns (h2_payload \<Gamma> p data e) (h2_step_post p)"
proof -
  define n where "n = min (length data) (h2_remaining p)"
  define p1 where "p1 = (if header_frame p then p\<lparr>h2_frame := h2_frame p @ take n data\<rparr> else p)
      \<lparr>h2_remaining := h2_remaining p - n\<rparr>"
  have p1: "header_frame p1 = header_frame p" "h2_block p1 = h2_block p" "h2_header p1 = h2_header p"
    "h2_remaining p1 = h2_remaining p - n" "h2_stopped p1 = h2_stopped p" "h2_last p1 = h2_last p"
    "header_frame p \<Longrightarrow> length (h2_frame p1) \<le> length (h2_frame p) + n"
    "\<not> header_frame p \<Longrightarrow> h2_frame p1 = h2_frame p"
    by (simp_all add: p1_def header_frame_def)
  have unfold: "h2_payload \<Gamma> p data e =
     (if h2_remaining p1 > 0 then Ret (p1, drop n data, e, Return None)
     else if header_frame p1 then
       gbind (h2_headers \<Gamma> p1 e) (\<lambda>(p2, e2, er). case er of
         Some x \<Rightarrow> Ret (p2\<lparr>h2_stopped := True\<rparr>, drop n data, e2, Return (Some x))
       | None \<Rightarrow> Ret (p2\<lparr>h2_header := [], h2_frame := []\<rparr>, drop n data, e2, Next))
     else Ret (p1\<lparr>h2_header := [], h2_frame := []\<rparr>, drop n data, e, Next))"
    unfolding h2_payload_def Let_def n_def p1_def by (rule refl)
  show ?thesis
  proof (cases "h2_remaining p1 > 0")
    case True
    then show ?thesis using assms p1
      by (auto simp: unfold h2_step_post_def h2_ok_def h2_mid_def n_def min_def split: if_splits)
  next
    case False
    have "returns (gbind (h2_headers \<Gamma> p1 e) (\<lambda>(p2, e2, er). case er of
         Some x \<Rightarrow> Ret (p2\<lparr>h2_stopped := True\<rparr>, drop n data, e2, Return (Some x))
       | None \<Rightarrow> Ret (p2\<lparr>h2_header := [], h2_frame := []\<rparr>, drop n data, e2, Next))) (h2_step_post p)"
      by (rule returns_bind [OF h2_headers_returns])
        (use assms p1 in \<open>auto simp: h2_mid_def h2_headers_post_def h2_step_post_def h2_ok_def split: option.splits\<close>)
    then show ?thesis using False assms p1
      by (auto simp: unfold h2_step_post_def h2_ok_def h2_mid_def)
  qed
qed

lemma h2_read_header_returns:
  "length (h2_header p) = 9 \<Longrightarrow> \<exists>len k f st. h2_read_header p = Ret (p\<lparr>h2_remaining := len, h2_kind := k,
     h2_flags := f, h2_stream := st\<rparr>)"
  unfolding h2_read_header_def Let_def by (simp add: be24_in be32_def) (intro exI, rule refl)

lemma h2_step_short:
  assumes "length (h2_header p) + length d < 9"
  shows "h2_step \<Gamma> p d e = Ret (p\<lparr>h2_header := h2_header p @ d\<rparr>, [], e, Return None)"
proof -
  have m: "min (length d) (9 - length (h2_header p)) = length d" using assms by simp
  show ?thesis using assms by (simp add: h2_step_def m Let_def)
qed

text \<open>The parser with a complete frame header, and the turn that goes on from it.\<close>

lemma h2_step_full:
  assumes "length (h2_header p) < 9" and "9 \<le> length (h2_header p) + length d"
    and n: "n = 9 - length (h2_header p)" and r: "h2_read_header (p\<lparr>h2_header := h2_header p @ take n d\<rparr>) = Ret p2"
  shows "h2_step \<Gamma> p d e = (if header_frame p2 \<and> h2_remaining p2 > max_h2_block
      then Ret (p2\<lparr>h2_stopped := True\<rparr>, drop n d, e, Return (Some (Msg ''HTTP/2 header block limit'')))
      else h2_payload \<Gamma> p2 (drop n d) e)"
proof -
  have m: "min (length d) (9 - length (h2_header p)) = n" using assms by simp
  have l: "\<not> length (h2_header (p\<lparr>h2_header := h2_header p @ take n d\<rparr>)) < 9" using assms by simp
  show ?thesis by (simp only: h2_step_def Let_def m assms(1) l if_True if_False r gbind.simps)
qed

lemma h2_step_short_append:
  assumes "length (h2_header p) + length d < 9"
  shows "h2_step \<Gamma> p (d @ b) e = h2_step \<Gamma> (p\<lparr>h2_header := h2_header p @ d\<rparr>) b e"
proof (cases "length (h2_header p) + length d + length b < 9")
  case True
  then show ?thesis by (simp add: h2_step_short)
next
  case False
  define n where "n = 9 - length (h2_header p)"
  define q where "q = p\<lparr>h2_header := h2_header p @ d @ take (n - length d) b\<rparr>"
  have "length (h2_header q) = 9" using assms False by (simp add: q_def n_def)
  from h2_read_header_returns [OF this] obtain p2 where r: "h2_read_header q = Ret p2" by blast
  have n: "n = length d + (n - length d)" "length d \<le> n" using assms by (auto simp: n_def)
  show ?thesis
    using assms False n r
      h2_step_full [of p "d @ b" n p2 \<Gamma> e] h2_step_full [of "p\<lparr>h2_header := h2_header p @ d\<rparr>" b "n - length d" p2 \<Gamma> e]
    by (simp add: q_def n_def)
qed

lemma h2_step_returns:
  assumes "hosts_ok e" and "h2_ok p" and "\<not> h2_stopped p"
  shows "returns (h2_step \<Gamma> p data e) (h2_step_post p)"
proof (cases "length (h2_header p) < 9")
  case True
  show ?thesis
  proof (cases "length (h2_header p) + length data < 9")
    case short: True
    then show ?thesis using True assms by (simp add: h2_step_short h2_step_post_def h2_ok_def)
  next
    case full: False
    define n where "n = 9 - length (h2_header p)"
    define p1 where "p1 = p\<lparr>h2_header := h2_header p @ take n data\<rparr>"
    have l9: "length (h2_header p1) = 9" and f: "h2_frame p1 = []"
      using True full assms by (simp_all add: p1_def n_def h2_ok_def)
    obtain l k fl st where r: "h2_read_header p1 = Ret (p1\<lparr>h2_remaining := l, h2_kind := k, h2_flags := fl, h2_stream := st\<rparr>)"
      using h2_read_header_returns [OF l9] by blast
    define p2 where "p2 = p1\<lparr>h2_remaining := l, h2_kind := k, h2_flags := fl, h2_stream := st\<rparr>"
    have p2: "h2_header p2 = h2_header p1" "h2_block p2 = h2_block p" "h2_frame p2 = []" "h2_stopped p2 = h2_stopped p"
      "h2_last p2 = h2_last p" using f by (simp_all add: p2_def p1_def)
    have step: "h2_step \<Gamma> p data e = (if header_frame p2 \<and> h2_remaining p2 > max_h2_block
          then Ret (p2\<lparr>h2_stopped := True\<rparr>, drop n data, e, Return (Some (Msg ''HTTP/2 header block limit'')))
          else h2_payload \<Gamma> p2 (drop n data) e)"
      using True full r by (intro h2_step_full) (auto simp: n_def p1_def p2_def)
    show ?thesis
    proof (cases "header_frame p2 \<and> h2_remaining p2 > max_h2_block")
      case True
      then show ?thesis using step p2 l9 assms by (simp add: h2_step_post_def h2_ok_def)
    next
      case False
      then have "h2_mid p2" using p2 l9 assms by (auto simp: h2_mid_def h2_ok_def)
      then have "returns (h2_payload \<Gamma> p2 (drop n data) e) (h2_step_post p2)"
        using h2_payload_returns [OF assms(1)] p2 assms by simp
      moreover have "h2_step_post p2 = h2_step_post p" using p2 by (auto simp: h2_step_post_def fun_eq_iff)
      ultimately show ?thesis using step False by simp
    qed
  qed
next
  case False
  then have "h2_mid p" using assms by (auto simp: h2_mid_def h2_ok_def split: if_splits)
  from h2_payload_returns [OF assms(1) this assms(3)] False show ?thesis by (simp add: h2_step_def)
qed

definition h2_post :: "h2_parser \<Rightarrow> h2_parser \<times> evidence \<times> err option \<Rightarrow> bool" where
  "h2_post p r \<longleftrightarrow> (case r of (p', e', er) \<Rightarrow> hosts_ok e' \<and> h2_ok p' \<and> h2_last p \<le> h2_last p')"

abbreviation h2_measure :: "h2_parser \<times> bytes \<Rightarrow> nat" where
  "h2_measure x \<equiv> 2 * length (snd x) + (if 9 \<le> length (h2_header (fst x)) then 1 else 0)"

lemma h2_feed_returns':
  "hosts_ok e \<Longrightarrow> h2_ok (fst x) \<Longrightarrow> returns (h2_feed \<Gamma> (fst x) (snd x) e) (h2_post (fst x))"
proof (induction x arbitrary: e rule: measure_induct_rule [where f = h2_measure])
  case (less x)
  obtain p data where x: "x = (p, data)" by (cases x)
  show ?case
  proof (cases "data = [] \<or> h2_stopped p")
    case True
    then show ?thesis using less.prems x by (auto simp: h2_feed.simps [of \<Gamma> p] h2_post_def)
  next
    case False
    obtain p' rest e' t where s: "h2_step \<Gamma> p data e = Ret (p', rest, e', t)" and ok: "h2_step_post p (p', rest, e', t)"
      using h2_step_returns [of e p \<Gamma> data] less.prems x False by (auto simp: returns_def)
    show ?thesis
    proof (cases "\<exists>er. t = Return er")
      case True
      then show ?thesis using s ok x False by (auto simp: h2_feed.simps [of \<Gamma> p] h2_step_post_def h2_post_def)
    next
      case not: False
      then have t: "t = Next" using s h2_step_not_Continue by (cases t) auto
      have "h2_measure (p', rest) < h2_measure (p, data)" using h2_step_shrinks s t False by auto
      then have "returns (h2_feed \<Gamma> p' rest e') (h2_post p')"
        using less.IH [of "(p', rest)"] ok x by (simp add: h2_step_post_def)
      then show ?thesis using s t ok False x
        by (auto simp: h2_feed.simps [of \<Gamma> p] h2_step_post_def h2_post_def returns_def)
    qed
  qed
qed

lemma h2_feed_returns:
  "hosts_ok e \<Longrightarrow> h2_ok p \<Longrightarrow> returns (h2_feed \<Gamma> p data e) (h2_post p)"
  using h2_feed_returns' [of e "(p, data)" \<Gamma>] by simp

section \<open>Requests, skipping and segmentation\<close>

text \<open>A header block of a stream that was counted before, a trailer block, counts nothing.\<close>

lemma h2_request_trailer:
  "h2_stream p \<le> h2_last p \<Longrightarrow> h2_request \<Gamma> fs p e = Ret (p', e', er) \<Longrightarrow> e_hosts e' = e_hosts e \<and> er = None"
  by (auto simp: h2_request_def Let_def split: prod.splits)

lemma h2_skip_feed:
  assumes "h2_ok p" and "\<not> h2_stopped p" and "h2_skip p (length d) = Some p'" and "d \<noteq> []"
  shows "h2_feed \<Gamma> p d e = Ret (p', e, None)"
proof -
  from assms(3) have p: "\<not> length (h2_header p) < 9" "\<not> header_frame p" "length d \<le> h2_remaining p"
    by (auto simp: h2_skip_def split: if_splits)
  have "h2_frame p = []" using assms p by (simp add: h2_ok_def)
  then have f: "p\<lparr>h2_frame := []\<rparr> = p" "\<And>x y. p\<lparr>h2_remaining := x, h2_header := y, h2_frame := []\<rparr> = p\<lparr>h2_remaining := x, h2_header := y\<rparr>"
    "\<And>x y. p\<lparr>h2_header := y, h2_remaining := x, h2_frame := []\<rparr> = p\<lparr>h2_header := y, h2_remaining := x\<rparr>"
    by simp_all
  show ?thesis
    using assms p f by (auto simp: h2_feed.simps [of \<Gamma> p] h2_feed.simps [of \<Gamma> _ "[]"] h2_step_def h2_payload_def h2_skip_def Let_def
        header_frame_def split: if_splits)
qed

lemma h2_payload_append:
  assumes s: "h2_payload \<Gamma> p data e = Ret (p', rest, e', t)"
  shows "t = Return None \<and> e' = e \<and> rest = [] \<and> h2_stopped p' = h2_stopped p \<and> h2_header p' = h2_header p
      \<and> h2_payload \<Gamma> p (data @ b) e = h2_payload \<Gamma> p' b e'
    \<or> t \<noteq> Return None \<and> h2_payload \<Gamma> p (data @ b) e = Ret (p', rest @ b, e', t)"
proof (cases "length data < h2_remaining p")
  case True
  define q where "q = (if header_frame p then p\<lparr>h2_frame := h2_frame p @ data\<rparr> else p)
      \<lparr>h2_remaining := h2_remaining p - length data\<rparr>"
  have "p' = q" "t = Return None" "e' = e" "rest = []"
    using s True by (cases "header_frame p"; simp add: h2_payload_def q_def Let_def)+
  moreover have "h2_payload \<Gamma> p (data @ b) e = h2_payload \<Gamma> q b e"
  proof -
    have m: "min (length (data @ b)) (h2_remaining p) = length data + min (length b) (h2_remaining p - length data)"
      using True by simp
    have hf: "header_frame q = header_frame p" "\<And>x y. header_frame (q\<lparr>h2_frame := x, h2_remaining := y\<rparr>) = header_frame p"
      by (simp_all add: q_def header_frame_def)
    show ?thesis using True unfolding h2_payload_def m
      by (cases "header_frame p"; cases "length b < h2_remaining p - length data")
        (simp_all add: hf Let_def, simp_all add: q_def header_frame_def)
  qed
  ultimately show ?thesis by (simp add: q_def)
next
  case False
  then have m: "min (length data) (h2_remaining p) = h2_remaining p"
    "min (length (data @ b)) (h2_remaining p) = h2_remaining p" by auto
  show ?thesis using s False
    by (auto simp: h2_payload_def m Let_def gbind_eq_Ret split: if_splits option.splits)
qed

lemma h2_step_append:
  assumes s: "h2_step \<Gamma> p data e = Ret (p', rest, e', t)" and "data \<noteq> []" and st: "\<not> h2_stopped p"
  shows "t = Return None \<and> rest = [] \<and> \<not> h2_stopped p' \<and> h2_step \<Gamma> p (data @ b) e = h2_step \<Gamma> p' b e'
    \<or> t \<noteq> Return None \<and> h2_step \<Gamma> p (data @ b) e = Ret (p', rest @ b, e', t)"
proof (cases "length (h2_header p) < 9")
  case True
  show ?thesis
  proof (cases "length (h2_header p) + length data < 9")
    case short: True
    have "p' = p\<lparr>h2_header := h2_header p @ data\<rparr>" "t = Return None" "e' = e" "rest = []"
      using s short by (auto simp: h2_step_short)
    moreover have "h2_step \<Gamma> p (data @ b) e = h2_step \<Gamma> (p\<lparr>h2_header := h2_header p @ data\<rparr>) b e"
      by (rule h2_step_short_append [OF short])
    ultimately show ?thesis using st by simp
  next
    case full: False
    define n where "n = 9 - length (h2_header p)"
    have n: "n \<le> length data" using full by (auto simp: n_def)
    define p1 where "p1 = p\<lparr>h2_header := h2_header p @ take n data\<rparr>"
    have l9: "length (h2_header p1) = 9" using True full by (simp add: p1_def n_def)
    obtain l k f si where r: "h2_read_header p1 = Ret (p1\<lparr>h2_remaining := l, h2_kind := k, h2_flags := f, h2_stream := si\<rparr>)"
      using h2_read_header_returns [OF l9] by blast
    define p2 where "p2 = p1\<lparr>h2_remaining := l, h2_kind := k, h2_flags := f, h2_stream := si\<rparr>"
    have p2: "length (h2_header p2) = 9" "h2_stopped p2 = h2_stopped p" using l9 by (simp_all add: p2_def p1_def)
    have step: "h2_step \<Gamma> p d e = (if header_frame p2 \<and> h2_remaining p2 > max_h2_block
          then Ret (p2\<lparr>h2_stopped := True\<rparr>, drop n d, e, Return (Some (Msg ''HTTP/2 header block limit'')))
          else h2_payload \<Gamma> p2 (drop n d) e)" if "d = data \<or> d = data @ b" for d
      using that True full r n by (intro h2_step_full) (auto simp: n_def p1_def p2_def)
    show ?thesis
    proof (cases "header_frame p2 \<and> h2_remaining p2 > max_h2_block")
      case True
      then show ?thesis using s step [of data] step [of "data @ b"] n by auto
    next
      case False
      then have "h2_payload \<Gamma> p2 (drop n data) e = Ret (p', rest, e', t)"
        "h2_step \<Gamma> p (data @ b) e = h2_payload \<Gamma> p2 (drop n data @ b) e"
        using s step [of data] step [of "data @ b"] n by auto
      with h2_payload_append [of \<Gamma> p2 "drop n data" e p' rest e' t b] p2 st show ?thesis
        by (auto simp: h2_step_def)
    qed
  qed
next
  case False
  then show ?thesis using h2_payload_append [of \<Gamma> p data e p' rest e' t b] s st by (auto simp: h2_step_def)
qed

lemma h2_feed_append':
  "h2_feed \<Gamma> (fst x) (snd x) e = Ret (p1, e1, None)
   \<Longrightarrow> h2_feed \<Gamma> (fst x) (snd x @ b) e = h2_feed \<Gamma> p1 b e1"
proof (induction x arbitrary: e rule: measure_induct_rule [where f = h2_measure])
  case (less x)
  obtain p data where x: "x = (p, data)" by (cases x)
  show ?case
  proof (cases "data = [] \<or> h2_stopped p")
    case True
    then show ?thesis using less.prems x
      by (auto simp: h2_feed.simps [of \<Gamma> p] h2_feed.simps [of \<Gamma> p1])
  next
    case False
    obtain p' rest e' t where s: "h2_step \<Gamma> p data e = Ret (p', rest, e', t)"
      using less.prems x False by (auto simp: h2_feed.simps [of \<Gamma> p] gbind_eq_Ret)
    note app = h2_step_append [OF s, of b]
    show ?thesis
    proof (cases "\<exists>er. t = Return er")
      case True
      then have r: "t = Return None" "p1 = p'" "e1 = e'"
        using less.prems x False s by (auto simp: h2_feed.simps [of \<Gamma> p])
      show ?thesis
      proof (cases "b = []")
        case True
        then show ?thesis using less.prems x by (simp add: h2_feed.simps [of \<Gamma> p1 "[]"])
      next
        case b: False
        then have "h2_step \<Gamma> p (data @ b) e = h2_step \<Gamma> p1 b e1" "\<not> h2_stopped p1"
          using app False r by auto
        then show ?thesis using b False x by (simp add: h2_feed.simps [of \<Gamma> p] h2_feed.simps [of \<Gamma> p1 b])
      qed
    next
      case not: False
      then have t: "t = Next" using s h2_step_not_Continue by (cases t) auto
      have "h2_measure (p', rest) < h2_measure x" using h2_step_shrinks s t False x by auto
      moreover have "h2_feed \<Gamma> p' rest e' = Ret (p1, e1, None)"
        using less.prems x False s t by (simp add: h2_feed.simps [of \<Gamma> p])
      ultimately have "h2_feed \<Gamma> p' (rest @ b) e' = h2_feed \<Gamma> p1 b e1"
        using less.IH [of "(p', rest)" e'] by simp
      then show ?thesis using app False t x by (simp add: h2_feed.simps [of \<Gamma> p])
    qed
  qed
qed

lemma h2_feed_append:
  "h2_feed \<Gamma> p a e = Ret (p1, e1, None) \<Longrightarrow> h2_feed \<Gamma> p (a @ b) e = h2_feed \<Gamma> p1 b e1"
  using h2_feed_append' [of \<Gamma> "(p, a)"] by simp

section \<open>The consumer\<close>

definition h2_consumer :: "env \<Rightarrow> h2_parser \<times> evidence \<Rightarrow> bytes \<Rightarrow> ((h2_parser \<times> evidence) \<times> err option) go" where
  "h2_consumer \<Gamma> s d = gbind (h2_feed \<Gamma> (fst s) d (snd s)) (\<lambda>(p, e, er). Ret ((p, e), er))"

interpretation h2_stream: segmented "h2_consumer \<Gamma>" "\<lambda>s d. True" for \<Gamma>
proof
  fix s a b s'
  assume "h2_consumer \<Gamma> s a = Ret (s', None)"
  then show "h2_consumer \<Gamma> s (a @ b) = h2_consumer \<Gamma> s' b"
    using h2_feed_append [of \<Gamma> "fst s" a "snd s" "fst s'" "snd s'" b]
    by (auto simp: h2_consumer_def gbind_eq_Ret)
qed

text \<open>However the frames are cut into segments, the parser ends in the same state.\<close>

lemma h2_feed_segments:
  assumes "feed_all (h2_consumer \<Gamma>) s (x # xs) = Ret (t, None)" and "\<forall>y \<in> set xs. y \<noteq> []"
  shows "h2_consumer \<Gamma> s (concat (x # xs)) = Ret (t, None)"
  by (rule h2_stream.feed_all_concat [OF assms]) simp

end
