(* ===== verification/Upgrade.thy ===== *)
theory Upgrade imports Evidence begin

text \<open>
  Protocols that start in plaintext and turn to TLS (\<^verbatim>\<open>internal/domain/upgrade.go\<close>): how the first bytes
  name the protocol, where the upgrade command ends, and the search for the ClientHello behind it.

  The code looks for the command in \<^verbatim>\<open>bytes.ToUpper(b)\<close> and cuts \<^verbatim>\<open>b\<close> at the position it found.  On
  ASCII bytes, which upper-casing leaves in place, the position is within \<open>b\<close>; on others the upper-cased text can be longer than \<open>b\<close>.
  The lemmas show both: a feed of ASCII bytes returns with a bounded buffer, and a feed of bytes that
  are not UTF-8 can panic.
\<close>

definition max_upgrade_bytes :: nat where "max_upgrade_bytes = 16384"

record upgrade_state =
  u_data :: bytes
  u_protocol :: bytes
  u_ready :: bool
  u_bytes :: nat

definition upgrade_state0 :: "bytes \<Rightarrow> upgrade_state" where
  "upgrade_state0 protocol = \<lparr>u_data = [], u_protocol = protocol, u_ready = False, u_bytes = 0\<rparr>"

definition ldap_starttls_oid :: bytes where
  "ldap_starttls_oid = [0x06, 0x0A, 0x2B, 0x06, 0x01, 0x04, 0x01, 0x8B, 0x3A, 0x81, 0x9C, 0x45]"

definition imap_commands :: "bytes list" where
  "imap_commands = [lit ''CAPABILITY'', lit ''LOGIN'', lit ''STARTTLS'', lit ''AUTHENTICATE'', lit ''SELECT'']"

definition postgres_prefix :: "bytes \<Rightarrow> bool" where
  "postgres_prefix x \<longleftrightarrow> x = [0, 0, 0, 8, 4, 210, 22, 47] \<or> x = [0, 0, 0, 8, 4, 210, 22, 48]"

text \<open>The loop over the IMAP commands, after the tag.\<close>

definition imap_command :: "bytes \<Rightarrow> bool" where
  "imap_command command \<longleftrightarrow> (\<exists>known \<in> set imap_commands.
     has_prefix command known \<or> 3 \<le> length command \<and> has_prefix known command)"

definition upgrade_protocol :: "env \<Rightarrow> bytes \<Rightarrow> bytes go" where
  "upgrade_protocol \<Gamma> b = (if b = [] then Ret [] else
     gbind (gidx b 0) (\<lambda>c.
     if c \<noteq> 0 \<and> c \<noteq> 48 \<and> c \<noteq> 32 \<and> c \<noteq> 60 \<and> \<not> (65 \<le> c \<and> c \<le> 90) \<and> \<not> (97 \<le> c \<and> c \<le> 122) then Ret []
     else gbind (gslice b 0 (min (length b) 32)) (\<lambda>start. let upper = to_upper (uni_upper \<Gamma>) start in
     if has_prefix upper (lit ''EHLO '') \<or> has_prefix upper (lit ''HELO '') \<or> has_prefix upper (lit ''LHLO '')
     then Ret (lit ''smtp-starttls'')
     else if has_prefix upper (lit ''CAPA'' @ [13, 10]) \<or> has_prefix upper (lit ''STLS'' @ [13, 10])
     then Ret (lit ''pop3-stls'')
     else if has_prefix upper (lit ''AUTH TLS'') then Ret (lit ''ftp-auth-tls'')
     else if has_prefix upper (lit ''USER '') then Ret (lit ''user-upgrade'')
     else if has_prefix b (lit ''<stream:stream'') \<or> has_prefix b (lit ''<?xml'') then Ret (lit ''xmpp-starttls'')
     else gbind (all_c [Ret (6 \<le> length b), gbyte b 0 (\<lambda>x. x = 48), gbyte b 2 (\<lambda>x. x = 2)]) (\<lambda>ldap.
     if ldap then Ret (lit ''ldap-starttls'')
     else gbind (all_c [Ret (8 \<le> length b), gsub b 0 8 postgres_prefix]) (\<lambda>postgres.
     if postgres then Ret (lit ''postgres-ssl'')
     else gbind (all_c [Ret (36 \<le> length b), gbyte b 0 (\<lambda>x. x = 32), gbyte b 1 (\<lambda>x. x = 0),
         gbyte b 2 (\<lambda>x. x = 0), gbyte b 3 (\<lambda>x. x = 1), gbyte b 5 (\<lambda>x. x AND 8 \<noteq> 0)]) (\<lambda>mysql.
     if mysql then Ret (lit ''mysql-ssl'')
     else (case index_byte upper 32 of
         Some space \<Rightarrow> if 0 < space \<and> space \<le> 16 then
             gbind (gfrom upper (space + 1)) (\<lambda>command.
               Ret (if imap_command command then lit ''imap-starttls'' else []))
           else Ret []
       | None \<Rightarrow> Ret []))))))) "

text \<open>The loop over the markers of the default case: the word, and the protocol it names.\<close>

fun upgrade_markers :: "bytes \<Rightarrow> (bytes \<times> bytes) list \<Rightarrow> (nat \<times> bytes) option go" where
  "upgrade_markers upper [] = Ret None"
| "upgrade_markers upper ((word, name) # ms) = (case index_of upper word of
     Some i \<Rightarrow> gbind (gfrom upper i) (\<lambda>rest. case index_of rest crlf of
         Some j \<Rightarrow> Ret (Some (i + j + 2, name))
       | None \<Rightarrow> upgrade_markers upper ms)
   | None \<Rightarrow> upgrade_markers upper ms)"

text \<open>The end of the upgrade command, 0 while it has not arrived, and the protocol.\<close>

definition upgrade_point :: "env \<Rightarrow> bytes \<Rightarrow> bytes \<Rightarrow> (nat \<times> bytes) go" where
  "upgrade_point \<Gamma> b protocol =
     (if protocol = lit ''postgres-ssl'' then Ret (8, protocol)
      else if protocol = lit ''mysql-ssl'' then Ret (36, protocol)
      else if protocol = lit ''ldap-starttls'' then
        Ret (if contains b ldap_starttls_oid then length b else 0, protocol)
      else if protocol = lit ''xmpp-starttls'' then
        (case index_of (to_lower (uni_lower \<Gamma>) b) (lit ''<starttls'') of
           Some i \<Rightarrow> gbind (gfrom b i) (\<lambda>rest. case index_byte rest 62 of
               Some j \<Rightarrow> Ret (i + j + 1, protocol)
             | None \<Rightarrow> Ret (0, protocol))
         | None \<Rightarrow> Ret (0, protocol))
      else gbind (upgrade_markers (to_upper (uni_upper \<Gamma>) b)
            [(lit ''AUTH TLS'', lit ''ftp-auth-tls''), (lit ''STLS'', lit ''pop3-stls''), (lit ''STARTTLS'', protocol)])
          (\<lambda>r. Ret (case r of Some x \<Rightarrow> x | None \<Rightarrow> (0, protocol))))"

text \<open>The search for the start of a ClientHello record, from position \<open>i\<close> on.\<close>

function find_hello :: "bytes \<Rightarrow> nat \<Rightarrow> bytes option go" where
  "find_hello data i = (if i + 5 < length data then
      gbind (all_c [gbyte data i (\<lambda>x. x = 22), gbyte data (i + 1) (\<lambda>x. x = 3), gbyte data (i + 5) (\<lambda>x. x = 1)]) (\<lambda>found.
        if found then gbind (gfrom data i) (\<lambda>r. Ret (Some r)) else find_hello data (i + 1))
    else Ret None)"
  by pat_completeness auto
termination
  by (relation "measure (\<lambda>(data, i). length data - i)") auto

declare find_hello.simps [simp del]

text \<open>The end of \<^verbatim>\<open>feedUpgrade\<close>: the ClientHello, or the last five bytes, which may start one.\<close>

definition upgrade_search :: "upgrade_state \<Rightarrow> (upgrade_state option \<times> bytes) go" where
  "upgrade_search v = gbind (find_hello (u_data v) 0) (\<lambda>found. case found of
           Some hello \<Rightarrow> Ret (Some v, hello)
         | None \<Rightarrow> if length (u_data v) > 5 then
             gbind (gfrom (u_data v) (length (u_data v) - 5)) (\<lambda>tail. Ret (Some (v\<lparr>u_data := tail\<rparr>), []))
           else Ret (Some v, []))"

text \<open>
  \<^verbatim>\<open>feedUpgrade\<close> on the upgrade state: the new state, \<open>None\<close> when the parser gives the connection up
  as "other", and the bytes from the ClientHello on, \<open>[]\<close> while there are none.
\<close>

definition upgrade_feed :: "env \<Rightarrow> upgrade_state \<Rightarrow> bytes \<Rightarrow> (upgrade_state option \<times> bytes) go" where
  "upgrade_feed \<Gamma> u data = (let u1 = u\<lparr>u_bytes := u_bytes u + length data\<rparr> in
     if u_bytes u1 > max_upgrade_bytes then Ret (None, [])
     else let u2 = u1\<lparr>u_data := u_data u1 @ data\<rparr> in
     if u_ready u2 then upgrade_search u2
     else gbind (upgrade_point \<Gamma> (u_data u2) (u_protocol u2)) (\<lambda>(end, protocol).
       if end = 0 then Ret (Some u2, [])
       else gbind (gfrom (u_data u2) end) (\<lambda>rest.
         upgrade_search (u2\<lparr>u_protocol := protocol, u_ready := True, u_data := rest\<rparr>))))"

section \<open>ASCII bytes\<close>

lemma is_ascii_append [simp]: "is_ascii (a @ b) \<longleftrightarrow> is_ascii a \<and> is_ascii b"
  by (auto simp: is_ascii_def)

lemma is_ascii_drop: "is_ascii a \<Longrightarrow> is_ascii (drop n a)"
  by (auto simp: is_ascii_def dest: in_set_dropD)

lemma length_to_upper: "is_ascii b \<Longrightarrow> length (to_upper uni b) = length b"
  by (simp add: to_upper_def)

lemma length_to_lower: "is_ascii b \<Longrightarrow> length (to_lower uni b) = length b"
  by (simp add: to_lower_def)

text \<open>The number of bytes the sniffer saw before it named the protocol.\<close>

definition upgrade_start :: "bytes \<Rightarrow> nat" where
  "upgrade_start protocol = (if protocol = lit ''postgres-ssl'' then 8 else if protocol = lit ''mysql-ssl'' then 36 else 0)"

lemma upgrade_start_names [simp]:
  "upgrade_start [] = 0" "upgrade_start (lit ''smtp-starttls'') = 0" "upgrade_start (lit ''pop3-stls'') = 0"
  "upgrade_start (lit ''ftp-auth-tls'') = 0" "upgrade_start (lit ''user-upgrade'') = 0"
  "upgrade_start (lit ''xmpp-starttls'') = 0" "upgrade_start (lit ''ldap-starttls'') = 0"
  "upgrade_start (lit ''imap-starttls'') = 0" "upgrade_start (lit ''postgres-ssl'') = 8"
  "upgrade_start (lit ''mysql-ssl'') = 36"
  by (simp_all add: upgrade_start_def lit_def)

lemma upgrade_protocol_names: "returns (upgrade_protocol \<Gamma> b) (\<lambda>k. upgrade_start k \<le> length b)"
proof (cases "b = []")
  case False
  have tail: "returns (case index_byte upper 32 of
         Some space \<Rightarrow> if 0 < space \<and> space \<le> 16 then
             gbind (gfrom upper (space + 1)) (\<lambda>command.
               Ret (if imap_command command then lit ''imap-starttls'' else []))
           else Ret []
       | None \<Rightarrow> Ret []) (\<lambda>k. upgrade_start k \<le> length b)" for upper
  proof (cases "index_byte upper 32")
    case (Some i)
    then have "i + 1 \<le> length upper" using index_of_Some(1) [of upper "[32]" i] by (simp add: index_byte_def)
    then show ?thesis using Some by simp
  qed simp
  show ?thesis
    using False unfolding upgrade_protocol_def Let_def
    by (simp add: ret_simps tail del: all_c.simps)
qed (simp add: upgrade_protocol_def)

lemma upgrade_protocol_returns: "\<exists>k. upgrade_protocol \<Gamma> b = Ret k"
  using upgrade_protocol_names [of \<Gamma> b] by (auto simp: returns_def)

lemma upgrade_protocol_start: "upgrade_protocol \<Gamma> b = Ret k \<Longrightarrow> upgrade_start k \<le> length b"
  using upgrade_protocol_names [of \<Gamma> b] by (auto simp: returns_def)

lemma upgrade_markers_bound: "returns (upgrade_markers upper ms) (\<lambda>r. \<forall>i k. r = Some (i, k) \<longrightarrow> i \<le> length upper)"
proof (induction ms)
  case (Cons m ms)
  obtain word name where m: "m = (word, name)" by (cases m)
  show ?case
  proof (cases "index_of upper word")
    case (Some i)
    then have i: "i \<le> length upper" using index_of_Some(1) by fastforce
    show ?thesis
    proof (cases "index_of (drop i upper) crlf")
      case None
      then show ?thesis using Cons Some i m by simp
    next
      case s: (Some j)
      then have "i + j + 2 \<le> length upper"
        using index_of_Some(1) [of "drop i upper" crlf j] i by (simp add: crlf_def)
      then show ?thesis using Some i s m by simp
    qed
  qed (use Cons m in simp)
qed simp

lemma upgrade_point_bound:
  assumes "is_ascii b" and "upgrade_start protocol \<le> length b"
  shows "returns (upgrade_point \<Gamma> b protocol) (\<lambda>(end, k). end \<le> length b)"
proof -
  have m: "returns (gbind (upgrade_markers (to_upper (uni_upper \<Gamma>) b) ms)
      (\<lambda>r. Ret (case r of Some x \<Rightarrow> x | None \<Rightarrow> (0, protocol)))) (\<lambda>(end, k). end \<le> length b)" for ms
    by (rule returns_bind [OF upgrade_markers_bound])
      (auto simp: length_to_upper assms split: option.splits)
  have x: "returns (case index_of (to_lower (uni_lower \<Gamma>) b) (lit ''<starttls'') of
           Some i \<Rightarrow> gbind (gfrom b i) (\<lambda>rest. case index_byte rest 62 of
               Some j \<Rightarrow> Ret (i + j + 1, protocol)
             | None \<Rightarrow> Ret (0, protocol))
         | None \<Rightarrow> Ret (0, protocol)) (\<lambda>(end, k). end \<le> length b)"
  proof (cases "index_of (to_lower (uni_lower \<Gamma>) b) (lit ''<starttls'')")
    case (Some i)
    then have i: "i \<le> length b"
      using index_of_Some(1) [OF Some] length_to_lower [OF assms(1)] by fastforce
    show ?thesis
    proof (cases "index_byte (drop i b) 62")
      case None
      then show ?thesis using Some i by simp
    next
      case (Some j)
      then have "i + j + 1 \<le> length b"
        using index_of_Some(1) [of "drop i b" "[62]" j] i by (simp add: index_byte_def)
      then show ?thesis using \<open>index_of _ _ = Some i\<close> i Some by simp
    qed
  qed simp
  show ?thesis using assms m x
    by (auto simp: upgrade_point_def upgrade_start_def simp del: upgrade_markers.simps split: if_splits)
qed

definition hello_start :: "bytes \<Rightarrow> bool" where
  "hello_start h \<longleftrightarrow> 6 \<le> length h \<and> h ! 0 = 22 \<and> h ! 1 = 3 \<and> h ! 5 = 1"

lemma find_hello_returns:
  "returns (find_hello data i) (\<lambda>r. \<forall>h. r = Some h \<longrightarrow> hello_start h \<and> (\<exists>j. h = drop j data))"
proof (induction data i rule: find_hello.induct)
  case (1 data i)
  show ?case
  proof (cases "i + 5 < length data")
    case True
    then have c: "all_c [gbyte data i (\<lambda>x. x = 22), gbyte data (i + 1) (\<lambda>x. x = 3), gbyte data (i + 5) (\<lambda>x. x = 1)]
      = Ret (data ! i = 22 \<and> data ! (i + 1) = 3 \<and> data ! (i + 5) = 1)"
      by (simp add: gbyte_def)
    show ?thesis
    proof (cases "data ! i = 22 \<and> data ! (i + 1) = 3 \<and> data ! (i + 5) = 1")
      case hit: True
      have "find_hello data i = Ret (Some (drop i data))"
        by (subst find_hello.simps) (use True in \<open>simp only: c hit if_True gbind.simps gfrom_in\<close>, simp)
      moreover have "hello_start (drop i data)" using True hit by (simp add: hello_start_def)
      ultimately show ?thesis by auto
    next
      case False
      have "find_hello data i = find_hello data (i + 1)"
        by (subst find_hello.simps) (simp only: True c False if_True if_False gbind.simps)
      then show ?thesis using "1.IH" [OF True c False] by simp
    qed
  qed (subst find_hello.simps, simp)
qed

text \<open>What a feed keeps: at most the limit, and once the command was found only the last five bytes.\<close>

definition upgrade_ok :: "upgrade_state \<Rightarrow> bool" where
  "upgrade_ok u \<longleftrightarrow> length (u_data u) \<le> u_bytes u \<and> u_bytes u \<le> max_upgrade_bytes \<and> (u_ready u \<longrightarrow> length (u_data u) \<le> 5)"

definition upgrade_post :: "upgrade_state option \<times> bytes \<Rightarrow> bool" where
  "upgrade_post r \<longleftrightarrow> (case r of (u, hello) \<Rightarrow> (hello \<noteq> [] \<longrightarrow> u \<noteq> None \<and> hello_start hello) \<and>
     (\<forall>v. u = Some v \<longrightarrow> hello = [] \<longrightarrow> upgrade_ok v))"

lemma upgrade_search_returns:
  assumes "length (u_data v) \<le> u_bytes v" and "u_bytes v \<le> max_upgrade_bytes"
  shows "returns (upgrade_search v) upgrade_post"
  unfolding upgrade_search_def
  by (rule returns_bind [OF find_hello_returns])
    (use assms in \<open>auto simp: upgrade_post_def upgrade_ok_def hello_start_def split: option.splits\<close>)

lemma upgrade_feed_returns:
  assumes ok: "upgrade_ok u" and ascii: "u_ready u \<or> is_ascii (u_data u @ data)"
    and start: "u_ready u \<or> upgrade_start (u_protocol u) \<le> length (u_data u @ data)"
  shows "returns (upgrade_feed \<Gamma> u data) upgrade_post"
proof -
  define u2 where "u2 = u\<lparr>u_bytes := u_bytes u + length data, u_data := u_data u @ data\<rparr>"
  show ?thesis
  proof (cases "u_bytes u + length data > max_upgrade_bytes")
    case True
    then show ?thesis by (simp add: upgrade_feed_def upgrade_post_def)
  next
    case False
    then have u2: "length (u_data u2) \<le> u_bytes u2" "u_bytes u2 \<le> max_upgrade_bytes"
      using ok by (auto simp: u2_def upgrade_ok_def)
    show ?thesis
    proof (cases "u_ready u")
      case True
      from upgrade_search_returns [OF u2] show ?thesis using False True by (simp add: upgrade_feed_def u2_def Let_def)
    next
      case fresh: False
      have p: "returns (upgrade_point \<Gamma> (u_data u @ data) (u_protocol u)) (\<lambda>(end, k). end \<le> length (u_data u @ data))"
        using upgrade_point_bound ascii start fresh by blast
      have stay: "upgrade_ok u2" using u2 fresh by (simp add: upgrade_ok_def u2_def)
      have go: "returns (upgrade_search v) upgrade_post" if "v = u2\<lparr>u_protocol := k, u_ready := True, u_data := drop n (u_data u2)\<rparr>" for v k n
        by (rule upgrade_search_returns) (use u2 that in auto)
      show ?thesis
        using False fresh unfolding upgrade_feed_def Let_def
        by simp (rule returns_bind [OF p], use stay go in \<open>auto simp: u2_def upgrade_post_def\<close>)
    qed
  qed
qed

section \<open>Bytes that are not UTF-8\<close>

text \<open>
  What the lemmas use of the Unicode upper-case table: ASCII letters map as in ASCII, and the
  replacement character has no upper case.
\<close>

definition unicode_upper :: "(nat \<Rightarrow> nat) \<Rightarrow> bool" where
  "unicode_upper uni \<longleftrightarrow> (\<forall>x. x < 128 \<longrightarrow> uni (unat x) = unat (up_byte x)) \<and> uni rune_error = rune_error"

lemma map_runes_Nil [simp]: "map_runes uni [] = []"
  by (simp add: map_runes.simps)

lemma map_runes_ascii:
  assumes "unicode_upper uni" and "x < 128"
  shows "map_runes uni (x # b) = up_byte x # map_runes uni b"
proof -
  have d: "decode_rune (x # b) = (unat x, 1)"
    using assms(2) by (simp add: decode_rune_def word_less_nat_alt)
  have "up_byte x < 128"
    using assms(2) by (auto simp: up_byte_def word_less_nat_alt word_le_nat_alt unat_sub_if')
  then have "encode_rune (unat (up_byte x)) = [up_byte x]"
    by (simp add: encode_rune_def word_less_nat_alt)
  then show ?thesis using assms by (subst map_runes.simps) (simp add: d unicode_upper_def)
qed

lemma map_runes_bad:
  assumes "unicode_upper uni"
  shows "map_runes uni (255 # b) = [0xEF, 0xBF, 0xBD] @ map_runes uni b"
proof -
  have d: "decode_rune (255 # b) = (rune_error, 1)"
    by (simp add: decode_rune_def)
  have "encode_rune rune_error = [0xEF, 0xBF, 0xBD]" by (simp add: encode_rune_def rune_error_def)
  then show ?thesis using assms by (subst map_runes.simps) (simp add: d unicode_upper_def)
qed

text \<open>A greeting, a byte that is not UTF-8, and the upgrade command at the end of the segment.\<close>

definition bad_starttls :: bytes where
  "bad_starttls = lit ''EHLO '' @ [255] @ lit ''STARTTLS'' @ [13, 10]"

lemma map_runes_bad_starttls:
  "unicode_upper uni \<Longrightarrow> map_runes uni bad_starttls = lit ''EHLO '' @ [0xEF, 0xBF, 0xBD] @ lit ''STARTTLS'' @ [13, 10]"
  by (simp add: bad_starttls_def lit_def map_runes_ascii map_runes_bad up_byte_def)

lemma upgrade_protocol_bad_starttls:
  assumes "unicode_upper (uni_upper \<Gamma>)"
  shows "upgrade_protocol \<Gamma> bad_starttls = Ret (lit ''smtp-starttls'')"
proof -
  have u: "to_upper (uni_upper \<Gamma>) bad_starttls = lit ''EHLO '' @ [0xEF, 0xBF, 0xBD] @ lit ''STARTTLS'' @ [13, 10]"
    using map_runes_bad_starttls [OF assms] by (simp add: to_upper_def is_ascii_def bad_starttls_def)
  have g: "gidx bad_starttls 0 = Ret 69" "gslice bad_starttls 0 (min (length bad_starttls) 32) = Ret bad_starttls"
    "bad_starttls \<noteq> []"
    by (simp_all add: bad_starttls_def lit_def gslice_def)
  show ?thesis by (simp add: upgrade_protocol_def g u Let_def)
qed

lemma upgrade_feed_bad_starttls:
  assumes "unicode_upper (uni_upper \<Gamma>)"
  shows "upgrade_feed \<Gamma> (upgrade_state0 (lit ''smtp-starttls'')) bad_starttls = Panic"
proof -
  have u: "to_upper (uni_upper \<Gamma>) bad_starttls = lit ''EHLO '' @ [0xEF, 0xBF, 0xBD] @ lit ''STARTTLS'' @ [13, 10]"
    using map_runes_bad_starttls [OF assms] by (simp add: to_upper_def is_ascii_def bad_starttls_def)
  have p: "upgrade_point \<Gamma> bad_starttls (lit ''smtp-starttls'') = Ret (18, lit ''smtp-starttls'')"
    by (simp add: upgrade_point_def u) (simp add: lit_def crlf_def)
  have "length bad_starttls = 16" by (simp add: bad_starttls_def lit_def)
  then show ?thesis by (simp add: upgrade_feed_def upgrade_state0_def max_upgrade_bytes_def p gfrom_def)
qed

end
