(* ===== verification/Sniff.thy ===== *)
theory Sniff imports Upgrade Http_Parser begin

text \<open>
  What starts a client byte stream (\<^verbatim>\<open>sniffStream\<close> and the handshakes it parses in
  \<^verbatim>\<open>internal/domain/stream.go\<close>): TLS, HTTP, the HTTP/2 preface, a SOCKS handshake, a PROXY protocol
  preamble, or a plaintext protocol that will turn to TLS.

  A handshake parser returns how many bytes the handshake spans, its target, and whether the bytes can
  be that protocol at all; it spans 0 bytes while more are needed.  The lemmas show that no input makes
  a parser index out of range, that a handshake lies within the bytes, that a decided handshake does
  not change when more bytes arrive, which targets are printable, and that the byte limit of the
  sniffer is never what ends a SOCKS5 handshake.
\<close>

definition max_sniff_bytes :: nat where "max_sniff_bytes = 1100"

type_synonym handshake = "nat \<times> bytes \<times> bool"

definition more_bytes :: handshake where "more_bytes = (0, [], True)"

definition not_this :: handshake where "not_this = (0, [], False)"

section \<open>SOCKS\<close>

text \<open>The offset of the request: past the greeting, and past the username and password if there are any.\<close>

definition socks5_auth :: "bytes \<Rightarrow> nat \<Rightarrow> nat option go" where
  "socks5_auth b offset = gbind (gidx b offset) (\<lambda>c.
     if c \<noteq> 1 then Ret (Some offset)
     else if length b < offset + 2 then Ret None
     else gbind (gidx b (offset + 1)) (\<lambda>user. let offset2 = offset + (2 + unat user) in
       if length b < offset2 + 1 then Ret None
       else gbind (gidx b offset2) (\<lambda>password. Ret (Some (offset2 + (1 + unat password))))))"

text \<open>The CONNECT request at its offset.\<close>

definition socks5_request :: "env \<Rightarrow> bytes \<Rightarrow> nat \<Rightarrow> handshake go" where
  "socks5_request \<Gamma> b offset0 =
     (if length b < offset0 + 4 then Ret more_bytes
      else gbind (any_c [gbyte b offset0 (\<lambda>x. x \<noteq> 5), gbyte b (offset0 + 1) (\<lambda>x. x \<noteq> 1),
          gbyte b (offset0 + 2) (\<lambda>x. x \<noteq> 0)]) (\<lambda>bad.
      if bad then Ret not_this
      else gbind (gidx b (offset0 + 3)) (\<lambda>address_type. let offset = offset0 + 4 in
      if address_type = 1 then
        (if length b < offset + 6 then Ret more_bytes
         else gbind (gslice b offset (offset + 4)) (\<lambda>a. Ret (offset + 4 + 2, addr_text (V4 a), True)))
      else if address_type = 4 then
        (if length b < offset + 18 then Ret more_bytes
         else gbind (gslice b offset (offset + 16)) (\<lambda>a. Ret (offset + 16 + 2, addr_text (V6 a []), True)))
      else if address_type = 3 then
        (if length b < offset + 1 then Ret more_bytes
         else gbind (gidx b offset) (\<lambda>len8. let len = unat len8 in
           if length b < offset + 1 + len + 2 then Ret more_bytes
           else gbind (gslice b (offset + 1) (offset + 1 + len)) (\<lambda>name.
             if \<not> valid_hostname name then Ret not_this
             else Ret (offset + (1 + len) + 2, normalize_name \<Gamma> name, True))))
      else Ret not_this)))"

definition socks5_handshake :: "env \<Rightarrow> bytes \<Rightarrow> handshake go" where
  "socks5_handshake \<Gamma> b =
     (if length b < 2 then Ret more_bytes
      else gbind (any_c [gbyte b 0 (\<lambda>x. x \<noteq> 5), gbyte b 1 (\<lambda>x. x = 0)]) (\<lambda>bad.
      if bad then Ret not_this
      else gbind (gidx b 1) (\<lambda>methods. let offset = 2 + unat methods in
      if length b < offset + 1 then Ret more_bytes
      else gbind (socks5_auth b offset) (\<lambda>request. case request of
          None \<Rightarrow> Ret more_bytes
        | Some o2 \<Rightarrow> socks5_request \<Gamma> b o2))))"

definition socks4_request :: "env \<Rightarrow> bytes \<Rightarrow> handshake go" where
  "socks4_request \<Gamma> b =
     (if length b < 8 then
        gbind (any_c [Ret (length b < 2), gbyte b 1 (\<lambda>x. x = 1)]) (\<lambda>ok. Ret (0, [], ok))
      else gbind (gidx b 1) (\<lambda>command.
      if command \<noteq> 1 then Ret not_this
      else gbind (gslice b 4 8) (\<lambda>addr. gbind (gfrom b 8) (\<lambda>user.
      (case index_byte user 0 of
         None \<Rightarrow> Ret (0, [], length b < 8 + 256)
       | Some user_end \<Rightarrow> let offset = 8 + user_end + 1 in
         gbind (any_c [gbyte b 4 (\<lambda>x. x \<noteq> 0), gbyte b 5 (\<lambda>x. x \<noteq> 0), gbyte b 6 (\<lambda>x. x \<noteq> 0),
             gbyte b 7 (\<lambda>x. x = 0)]) (\<lambda>plain.
         if plain then Ret (offset, addr_text (V4 addr), True)
         else gbind (gfrom b offset) (\<lambda>rest.
         (case index_byte rest 0 of
            None \<Rightarrow> Ret (0, [], length b < offset + 256)
          | Some name_end \<Rightarrow> gbind (gslice b offset (offset + name_end)) (\<lambda>name.
              if \<not> valid_hostname name then Ret not_this
              else Ret (offset + name_end + 1, normalize_name \<Gamma> name, True))))))))))"

section \<open>The PROXY protocol\<close>

definition proxy_v2_signature :: bytes where
  "proxy_v2_signature = [13, 10, 13, 10, 0, 13, 10] @ lit ''QUIT'' @ [10]"

definition proxy_v1_header :: "bytes \<Rightarrow> handshake go" where
  "proxy_v1_header b = gbind (gslice b 0 (min (length b) 107)) (\<lambda>start.
     case index_of start crlf of
       None \<Rightarrow> Ret (0, [], length b < 107)
     | Some end \<Rightarrow> gbind (gslice b 0 end) (\<lambda>line. let fs = text_fields line in
         gbind (all_c [Ret (length fs = 6), any_c [gbind (gidx fs 1) (\<lambda>x. Ret (x = lit ''TCP4'')),
             gbind (gidx fs 1) (\<lambda>x. Ret (x = lit ''TCP6''))]]) (\<lambda>tcp.
         if tcp then gbind (gidx fs 2) (\<lambda>host. gbind (gidx fs 4) (\<lambda>port.
           Ret (end + 2, (case parse_addr host of Some a \<Rightarrow> join_host_port (addr_text a) port | None \<Rightarrow> []), True)))
         else gbind (any_c [Ret (length fs < 2), gbind (gidx fs 1) (\<lambda>x. Ret (x \<noteq> lit ''UNKNOWN''))]) (\<lambda>bad.
           if bad then Ret not_this else Ret (end + 2, [], True)))))"

definition proxy_v2_header :: "bytes \<Rightarrow> handshake go" where
  "proxy_v2_header b =
     (if length b < 16 then Ret more_bytes
      else gbind (gidx b 12) (\<lambda>version.
      if drop_bit 4 version \<noteq> 2 then Ret not_this
      else gbind (gbind (gslice b 14 16) be16) (\<lambda>len. let used = 16 + unat len in
      if length b < used then Ret more_bytes
      else gbind (gidx b 13) (\<lambda>family.
        if version AND 15 = 0 then Ret (used, [], True)
        else if family = 0x11 \<and> used \<ge> 16 + 12 then
          gbind (gslice b 16 20) (\<lambda>a. gbind (gbind (gslice b 24 26) be16) (\<lambda>port.
            Ret (used, addrport_text (V4 a, port), True)))
        else if family = 0x21 \<and> used \<ge> 16 + 36 then
          gbind (gslice b 16 32) (\<lambda>a. gbind (gbind (gslice b 48 50) be16) (\<lambda>port.
            Ret (used, addrport_text (unmap (V6 a []), port), True)))
        else Ret (used, [], True)))))"

text \<open>The TLVs behind the addresses; \<open>None\<close> where the code returns false.\<close>

function proxy_tlvs :: "env \<Rightarrow> bytes \<Rightarrow> nat \<Rightarrow> bytes \<Rightarrow> bytes option go" where
  "proxy_tlvs \<Gamma> b offset authority =
     (if offset < length b then
        if length b - offset < 3 then Ret None
        else gbind (gidx b offset) (\<lambda>kind. gbind (gbind (gslice b (offset + 1) (offset + 3)) be16) (\<lambda>len16.
          let len = unat len16; offset2 = offset + 3 in
          if len > length b - offset2 then Ret None
          else gbind (gslice b offset2 (offset2 + len)) (\<lambda>value.
            proxy_tlvs \<Gamma> b (offset2 + len)
              (if kind = 2 \<and> authority = [] \<and> valid_hostname value then normalize_name \<Gamma> value else authority))))
      else Ret (Some authority))"
  by pat_completeness auto
termination
  by (relation "measure (\<lambda>(\<Gamma>, b, offset, a). length b - offset)") auto

declare proxy_tlvs.simps [simp del]

definition proxy_v2_authority :: "env \<Rightarrow> bytes \<Rightarrow> bytes option go" where
  "proxy_v2_authority \<Gamma> b = gbind (gidx b 12) (\<lambda>version.
     let go = (\<lambda>offset. if offset > length b then Ret None else proxy_tlvs \<Gamma> b offset []) in
     if version AND 15 \<noteq> 0 then
       gbind (gidx b 13) (\<lambda>f. let family = drop_bit 4 f in
         if family = 1 then go (16 + 12)
         else if family = 2 then go (16 + 36)
         else if family = 3 then go (16 + 216)
         else Ret (Some []))
     else go 16)"

section \<open>The sniffer\<close>

datatype sniffed = SMore | SOther | STls | SSocks5 | SSocks4 | SPreamble | SHttp2 | SHttp | SUpgrade

definition sniff_prefix :: "sniffed \<Rightarrow> bytes \<Rightarrow> handshake go \<Rightarrow> (sniffed \<times> nat \<times> bytes) go" where
  "sniff_prefix kind b parse = gbind parse (\<lambda>(used, target, ok).
     if ok \<and> used > 0 then Ret (kind, used, target)
     else if ok \<and> length b < max_sniff_bytes then Ret (SMore, 0, [])
     else Ret (SOther, 0, []))"

text \<open>The cases that follow the prefixes of a handshake.\<close>

definition sniff_text :: "env \<Rightarrow> bytes \<Rightarrow> (sniffed \<times> nat \<times> bytes) go" where
  "sniff_text \<Gamma> b =
     (if has_prefix b h2_preface then Ret (SHttp2, length h2_preface, [])
      else if has_prefix h2_preface b then Ret (SMore, 0, [])
      else gbind (all_c [Ret (8 \<le> length b), looks_like_http b]) (\<lambda>http.
      if http then Ret (SHttp, 0, [])
      else if length b < 8 then Ret (SMore, 0, [])
      else gbind (upgrade_protocol \<Gamma> b) (\<lambda>protocol.
        if protocol \<noteq> [] then Ret (SUpgrade, 0, protocol)
        else if length b < 16 then Ret (SMore, 0, [])
        else Ret (SOther, 0, []))))"

definition sniff_stream :: "env \<Rightarrow> bytes \<Rightarrow> (sniffed \<times> nat \<times> bytes) go" where
  "sniff_stream \<Gamma> b =
     gbind (all_c [Ret (2 \<le> length b), gbyte b 0 (\<lambda>x. x = 22), gbyte b 1 (\<lambda>x. x = 3)]) (\<lambda>tls.
     if tls then Ret (STls, 0, [])
     else gbind (all_c [Ret (0 < length b), gbyte b 0 (\<lambda>x. x = 5)]) (\<lambda>v5.
     if v5 then sniff_prefix SSocks5 b (socks5_handshake \<Gamma> b)
     else gbind (all_c [Ret (0 < length b), gbyte b 0 (\<lambda>x. x = 4)]) (\<lambda>v4.
     if v4 then sniff_prefix SSocks4 b (socks4_request \<Gamma> b)
     else gbind (gslice b 0 (min (length b) (length proxy_v2_signature))) (\<lambda>s2.
     if has_prefix proxy_v2_signature s2 then sniff_prefix SPreamble b (proxy_v2_header b)
     else gbind (gslice b 0 (min (length b) 6)) (\<lambda>s1. gbind (gslice (lit ''PROXY '') 0 (min (length b) 6)) (\<lambda>w.
     if s1 = w then sniff_prefix SPreamble b (proxy_v1_header b)
     else sniff_text \<Gamma> b))))))"

definition starts_client_message :: "env \<Rightarrow> bytes \<Rightarrow> bool go" where
  "starts_client_message \<Gamma> b =
     gbind (any_c [all_c [Ret (10 \<le> length b), gbyte b 0 (\<lambda>x. x = 22), gbyte b 1 (\<lambda>x. x = 3), gbyte b 5 (\<lambda>x. x = 1),
         gbyte b 9 (\<lambda>x. x = 3)], Ret (has_prefix b h2_preface)]) (\<lambda>hello.
     if hello then Ret True
     else gbind (gslice b 0 (min (length b) 256)) (\<lambda>start. case cut start crlf of (line, rest, found) \<Rightarrow>
       any_c [all_c [Ret found, looks_like_http line, Ret (http_line_end line)],
         gbind (upgrade_protocol \<Gamma> b) (\<lambda>u. Ret (u \<noteq> []))]))"

section \<open>No input makes a parser fail\<close>

text \<open>A handshake lies within the bytes.\<close>

definition within :: "bytes \<Rightarrow> handshake \<Rightarrow> bool" where
  "within b r \<longleftrightarrow> (case r of (used, target, ok) \<Rightarrow> used \<le> length b)"

lemma within_simps [simp]: "within b (u, t, ok) \<longleftrightarrow> u \<le> length b" "within b more_bytes" "within b not_this"
  by (simp_all add: within_def more_bytes_def not_this_def)

lemma index_byte_bound: "index_byte b c = Some i \<Longrightarrow> i < length b"
  using index_of_Some(1) [of b "[c]" i] by (simp add: index_byte_def)

lemma socks5_auth_returns:
  "offset < length b \<Longrightarrow> returns (socks5_auth b offset) (\<lambda>r. True)"
  by (simp add: socks5_auth_def ret_simps Let_def)

lemma socks5_request_within: "returns (socks5_request \<Gamma> b offset) (within b)"
  by (simp add: socks5_request_def ret_simps Let_def del: all_c.simps any_c.simps)

lemma socks5_handshake_within: "returns (socks5_handshake \<Gamma> b) (within b)"
proof (cases "length b < 2 \<or> b ! 0 \<noteq> 5 \<or> b ! 1 = 0 \<or> length b < 2 + unat (b ! 1) + 1")
  case True
  then show ?thesis by (auto simp: socks5_handshake_def ret_simps Let_def simp del: all_c.simps any_c.simps)
next
  case False
  then have "returns (socks5_auth b (2 + unat (b ! 1))) (\<lambda>r. True)" by (intro socks5_auth_returns) simp
  then obtain r where r: "socks5_auth b (2 + unat (b ! 1)) = Ret r" by (auto simp: returns_def)
  then show ?thesis using False socks5_request_within
    by (auto simp: socks5_handshake_def ret_simps Let_def r simp del: all_c.simps any_c.simps split: option.splits)
qed

lemma socks4_request_within: "returns (socks4_request \<Gamma> b) (within b)"
  unfolding socks4_request_def
  by (auto simp: ret_simps Let_def simp del: all_c.simps any_c.simps split: option.splits dest!: index_byte_bound)

lemma proxy_v1_header_within: "returns (proxy_v1_header b) (within b)"
  unfolding proxy_v1_header_def
  by (auto simp: ret_simps Let_def simp del: all_c.simps any_c.simps split: option.splits dest!: index_of_crlf)

lemma proxy_v2_header_within: "returns (proxy_v2_header b) (within b)"
  unfolding proxy_v2_header_def
  by (auto simp: ret_simps Let_def simp del: all_c.simps any_c.simps)

text \<open>The header is complete before the TLVs are read.\<close>

lemma proxy_tlvs_returns: "printable a \<Longrightarrow> returns (proxy_tlvs \<Gamma> b offset a) (\<lambda>r. \<forall>x. r = Some x \<longrightarrow> printable x)"
proof (induction "length b - offset" arbitrary: offset a rule: less_induct)
  case less
  show ?case
  proof (cases "offset < length b \<and> 3 \<le> length b - offset")
    case False
    then show ?thesis using less.prems by (auto simp: proxy_tlvs.simps [of \<Gamma> b offset])
  next
    case True
    define len where "len = be_val (take 2 (drop (offset + 1) b))"
    have h: "gslice b (offset + 1) (offset + 3) = Ret (take 2 (drop (offset + 1) b))" "gidx b offset = Ret (b ! offset)"
      using True by auto
    have "2 \<le> length b - Suc offset" using True by linarith
    then have l: "be16 (take 2 (drop (offset + 1) b)) = Ret (of_nat len)" "unat (of_nat len :: u16) = len"
      using be16_in [of "take 2 (drop (offset + 1) b)"] True by (simp_all add: len_def)
    have step: "proxy_tlvs \<Gamma> b offset a = (if len > length b - (offset + 3) then Ret None
       else gbind (gslice b (offset + 3) (offset + 3 + len)) (\<lambda>value. proxy_tlvs \<Gamma> b (offset + 3 + len)
         (if b ! offset = 2 \<and> a = [] \<and> valid_hostname value then normalize_name \<Gamma> value else a)))"
      using True by (simp only: proxy_tlvs.simps [of \<Gamma> b offset] h l gbind.simps Let_def) simp
    show ?thesis
    proof (cases "len > length b - (offset + 3)")
      case False
      then have "offset + 3 + len \<le> length b" using True by arith
      then show ?thesis using False less.prems True
        by (auto simp: step ret_simps intro!: less.hyps valid_hostname_normal_printable)
    qed (simp add: step)
  qed
qed

lemma proxy_v2_authority_returns:
  assumes "16 \<le> length b"
  shows "returns (proxy_v2_authority \<Gamma> b) (\<lambda>r. \<forall>x. r = Some x \<longrightarrow> printable x)"
  using assms proxy_tlvs_returns [of "[]" \<Gamma> b]
  by (auto simp: proxy_v2_authority_def ret_simps Let_def printable_def)

text \<open>What the sniffer returns: a prefix within the bytes, and the guarantees the parser needs for each kind.\<close>

definition sniff_post :: "bytes \<Rightarrow> sniffed \<times> nat \<times> bytes \<Rightarrow> bool" where
  "sniff_post b r \<longleftrightarrow> (case r of (kind, used, target) \<Rightarrow> used \<le> length b
     \<and> (kind = SMore \<longrightarrow> length b < max_sniff_bytes)
     \<and> (kind = SPreamble \<longrightarrow> 0 < used \<and> (has_prefix b proxy_v2_signature \<longrightarrow> 16 \<le> used))
     \<and> (kind \<in> {SSocks4, SSocks5, SHttp2} \<longrightarrow> 0 < used)
     \<and> (kind = SUpgrade \<longrightarrow> upgrade_start target \<le> length b))"

lemma sniff_prefix_returns:
  assumes "returns parse (\<lambda>r. within b r \<and> (\<forall>u t. r = (u, t, True) \<longrightarrow> 0 < u \<longrightarrow> k = SPreamble
      \<longrightarrow> has_prefix b proxy_v2_signature \<longrightarrow> 16 \<le> u))" and "k \<in> {SSocks5, SSocks4, SPreamble}"
  shows "returns (sniff_prefix k b parse) (sniff_post b)"
  unfolding sniff_prefix_def
  by (rule returns_bind [OF assms(1)]) (use assms(2) in \<open>auto simp: sniff_post_def within_def\<close>)

lemma sniff_text_returns: "returns (sniff_text \<Gamma> b) (sniff_post b)"
proof -
  obtain v where v: "looks_like_http b = Ret v" using looks_like_http_total by blast
  obtain k where k: "upgrade_protocol \<Gamma> b = Ret k" using upgrade_protocol_returns by blast
  have l: "has_prefix b h2_preface \<Longrightarrow> length h2_preface \<le> length b" "has_prefix h2_preface b \<Longrightarrow> length b \<le> length h2_preface"
    by (rule has_prefix_length, assumption)+
  have n: "length h2_preface = 24" by (simp add: h2_preface_def lit_def)
  show ?thesis using upgrade_protocol_start [OF k] l
    by (auto simp: sniff_text_def v k sniff_post_def n max_sniff_bytes_def)
qed

lemma proxy_v2_header_used: "proxy_v2_header b = Ret (u, t, True) \<Longrightarrow> 0 < u \<Longrightarrow> 16 \<le> u"
  by (auto simp: proxy_v2_header_def go_eqs more_bytes_def not_this_def Let_def split: if_splits)

lemma sniff_stream_returns: "returns (sniff_stream \<Gamma> b) (sniff_post b)"
proof -
  have s5: "returns (sniff_prefix SSocks5 b (socks5_handshake \<Gamma> b)) (sniff_post b)"
    by (rule sniff_prefix_returns) (auto intro: returns_mono [OF socks5_handshake_within])
  have s4: "returns (sniff_prefix SSocks4 b (socks4_request \<Gamma> b)) (sniff_post b)"
    by (rule sniff_prefix_returns) (auto intro: returns_mono [OF socks4_request_within])
  have p2: "returns (sniff_prefix SPreamble b (proxy_v2_header b)) (sniff_post b)"
    using proxy_v2_header_within [of b] proxy_v2_header_used [of b]
    by (intro sniff_prefix_returns) (auto simp: returns_def)
  have p1: "returns (sniff_prefix SPreamble b (proxy_v1_header b)) (sniff_post b)"
    if "\<not> has_prefix b proxy_v2_signature"
    by (rule sniff_prefix_returns) (use that in \<open>auto intro: returns_mono [OF proxy_v1_header_within]\<close>)
  have sig: "has_prefix proxy_v2_signature (take (min (length b) (length proxy_v2_signature)) b)" if "has_prefix b proxy_v2_signature"
  proof -
    from that obtain r where "b = proxy_v2_signature @ r" by (auto simp: has_prefix_iff)
    then show ?thesis using has_prefix_append [of proxy_v2_signature "[]"] by simp
  qed
  have n: "length (lit ''PROXY '') = 6" by (simp add: lit_def)
  have tls: "2 \<le> length b \<Longrightarrow> returns (Ret (STls, 0, [])) (sniff_post b)" by (simp add: sniff_post_def)
  show ?thesis
    unfolding sniff_stream_def using s5 s4 p2 p1 sig sniff_text_returns [of \<Gamma> b] n
    by (auto simp: ret_simps sniff_post_def simp del: all_c.simps)
qed

section \<open>A decided handshake stays decided\<close>

text \<open>A handshake that was found.\<close>

abbreviation found :: "handshake \<Rightarrow> bool" where
  "found r \<equiv> 0 < fst r \<and> snd (snd r)"

lemma not_found [simp]: "\<not> found more_bytes" "\<not> found not_this"
  by (simp_all add: more_bytes_def not_this_def)

lemma socks5_auth_append: "stable (\<lambda>r. r \<noteq> None) (socks5_auth b offset) (socks5_auth (b @ c) offset)"
  unfolding socks5_auth_def Let_def by (intro stable_intros) auto

lemma socks5_request_append: "stable found (socks5_request \<Gamma> b offset) (socks5_request \<Gamma> (b @ c) offset)"
  unfolding socks5_request_def Let_def by (intro stable_intros) auto

lemma socks5_handshake_append: "stable found (socks5_handshake \<Gamma> b) (socks5_handshake \<Gamma> (b @ c))"
proof -
  have r: "stable found (gbind (socks5_auth b x) (\<lambda>r. case r of None \<Rightarrow> Ret more_bytes | Some o2 \<Rightarrow> socks5_request \<Gamma> b o2))
    (gbind (socks5_auth (b @ c) x) (\<lambda>r. case r of None \<Rightarrow> Ret more_bytes | Some o2 \<Rightarrow> socks5_request \<Gamma> (b @ c) o2))" for x
    using socks5_auth_append [of b x c] socks5_request_append [of \<Gamma> b _ c]
    by (cases "socks5_auth b x") (auto simp: stable_def more_bytes_def split: option.splits)
  show ?thesis
    unfolding socks5_handshake_def Let_def by (intro stable_intros r) auto
qed

lemma index_byte_append: "index_byte b x = Some i \<Longrightarrow> index_byte (b @ c) x = Some i"
  unfolding index_byte_def by (rule index_of_append)

lemma stable_index_byte:
  "(\<And>i. index_byte b x = Some i \<Longrightarrow> stable found (f i) (f' i)) \<Longrightarrow>
   stable found (case index_byte b x of None \<Rightarrow> Ret (0, t, v) | Some i \<Rightarrow> f i)
     (case index_byte (b @ c) x of None \<Rightarrow> m' | Some i \<Rightarrow> f' i)"
  by (cases "index_byte b x") (auto simp: index_byte_append, simp add: stable_def)

lemma stable_gfrom:
  "(n \<le> length b \<Longrightarrow> stable P (f (drop n b)) (f' (drop n b @ c))) \<Longrightarrow> stable P (gbind (gfrom b n) f) (gbind (gfrom (b @ c) n) f')"
  by (auto simp: stable_def gfrom_def)

lemma socks4_request_append: "stable found (socks4_request \<Gamma> b) (socks4_request \<Gamma> (b @ c))"
  unfolding socks4_request_def Let_def
  by (intro stable_intros stable_gfrom stable_index_byte) (auto simp: gbind_eq_Ret)

lemma proxy_v2_header_append: "stable found (proxy_v2_header b) (proxy_v2_header (b @ c))"
  unfolding proxy_v2_header_def Let_def by (intro stable_intros) auto

lemma proxy_v1_header_append: "stable found (proxy_v1_header b) (proxy_v1_header (b @ c))"
proof -
  define k where "k = min (length b) 107"
  have "proxy_v1_header (b @ c) = Ret (u, t, True)" if r: "proxy_v1_header b = Ret (u, t, True)" "0 < u" for u t
  proof -
    from r obtain i where i: "index_of (take k b) crlf = Some i"
      by (auto simp: proxy_v1_header_def k_def split: option.splits)
    have i2: "i + 2 \<le> k" "k \<le> length b" using index_of_crlf [OF i] by (auto simp: k_def)
    have "take (min (length (b @ c)) 107) (b @ c) = take k b @ take (min (length (b @ c)) 107 - k) (drop k (b @ c))"
      using i2 by (simp add: k_def min_def)
    then have "index_of (take (min (length (b @ c)) 107) (b @ c)) crlf = Some i"
      using index_of_append [OF i] by simp
    then show ?thesis using r i i2 by (simp add: proxy_v1_header_def k_def)
  qed
  then show ?thesis by (auto simp: stable_def)
qed

text \<open>The four handshakes as one family: the function a kind stands for.\<close>

lemma handshake_append:
  assumes "h \<in> {socks5_handshake \<Gamma>, socks4_request \<Gamma>, proxy_v1_header, proxy_v2_header}"
    and "h b = Ret (u, t, True)" and "0 < u"
  shows "h (b @ c) = Ret (u, t, True)"
proof -
  have "stable found (h b) (h (b @ c))"
    using assms(1) socks5_handshake_append socks4_request_append proxy_v1_header_append proxy_v2_header_append
    by blast
  from stableD [OF this assms(2)] assms(3) show ?thesis by simp
qed

text \<open>
  The longest SOCKS5 handshake: a greeting of 257 bytes, 513 bytes of username and password with the
  version, and a request of 262 bytes.  The sniffer's limit is above it, so it never ends one.
\<close>

lemma socks5_auth_cases:
  "socks5_auth b offset = Ret r \<Longrightarrow> offset < length b \<Longrightarrow>
     (case r of None \<Rightarrow> length b < offset + 258 | Some o2 \<Rightarrow> o2 \<le> offset + 513)"
proof -
  assume r: "socks5_auth b offset = Ret r" and l: "offset < length b"
  consider "r = Some offset" | "r = None" "length b < offset + 2"
    | x where "r = None" "length b < offset + (2 + unat (x :: byte)) + 1"
    | x y where "r = Some (offset + (2 + unat (x :: byte)) + (1 + unat (y :: byte)))"
    using r l by (auto simp: socks5_auth_def go_eqs Let_def split: if_splits)
  then show ?thesis
  proof cases
    case (3 x)
    then show ?thesis using unat_byte_le [of x] by (simp del: unat_byte_le)
  next
    case (4 x y)
    then show ?thesis using unat_byte_le [of x] unat_byte_le [of y] by (simp del: unat_byte_le)
  qed auto
qed

lemma socks5_request_more:
  "socks5_request \<Gamma> b offset = Ret (0, t, True) \<Longrightarrow> length b < offset + 262"
proof -
  assume r: "socks5_request \<Gamma> b offset = Ret (0, t, True)"
  then consider "length b < offset + 22" | x where "length b < offset + 4 + 1 + unat (x :: byte) + 2"
    by (auto simp: socks5_request_def go_eqs Let_def gbyte_def not_this_def split: if_splits)
  then show ?thesis
  proof cases
    case (2 x)
    then show ?thesis using unat_byte_le [of x] by (simp del: unat_byte_le)
  qed simp
qed

lemma socks5_handshake_more:
  assumes "socks5_handshake \<Gamma> b = Ret (0, t, True)"
  shows "length b < 1032"
proof (cases "length b < 258")
  case False
  define off where "off = 2 + unat (b ! 1)"
  have off: "off \<le> 257" using unat_byte_le [of "b ! 1"] by (simp add: off_def)
  have r: "\<not> length b < 2" "\<not> length b < off + 1" "gidx b 1 = Ret (b ! 1)" using False off by auto
  have "returns (any_c [gbyte b 0 (\<lambda>x. x \<noteq> 5), gbyte b 1 (\<lambda>x. x = 0)]) (\<lambda>_. True)"
    using r(1) by (auto simp: ret_simps simp del: any_c.simps)
  then obtain bad where bad: "any_c [gbyte b 0 (\<lambda>x. x \<noteq> 5), gbyte b 1 (\<lambda>x. x = 0)] = Ret bad"
    unfolding returns_def by blast
  then have "\<not> bad" using assms r(1) by (auto simp: socks5_handshake_def not_this_def)
  then have a: "gbind (socks5_auth b off) (\<lambda>request. case request of None \<Rightarrow> Ret more_bytes
      | Some o2 \<Rightarrow> socks5_request \<Gamma> b o2) = Ret (0, t, True)"
    using assms unfolding socks5_handshake_def bad Let_def r(3) gbind.simps off_def [symmetric] using r(1,2) by simp
  then obtain req where req: "socks5_auth b off = Ret req"
    and m: "(case req of None \<Rightarrow> Ret more_bytes | Some o2 \<Rightarrow> socks5_request \<Gamma> b o2) = Ret (0, t, True)"
    by (auto simp: gbind_eq_Ret)
  from req have o: "case req of None \<Rightarrow> length b < off + 258 | Some o2 \<Rightarrow> o2 \<le> off + 513"
    by (rule socks5_auth_cases) (use r(2) in simp)
  show ?thesis
  proof (cases req)
    case None
    then show ?thesis using o off by simp
  next
    case (Some o2)
    then have "length b < o2 + 262" using m socks5_request_more by simp
    then show ?thesis using o off Some by simp
  qed
qed simp

section \<open>Printable targets\<close>

lemma printable_simps [simp]: "printable []" "printable (a @ b) \<longleftrightarrow> printable a \<and> printable b"
  "printable (c # b) \<longleftrightarrow> \<not> (c < 33 \<or> c > 126) \<and> printable b"
  by (simp_all add: printable_def ball_Un)

lemma printable_join: "printable sep \<Longrightarrow> list_all printable xs \<Longrightarrow> printable (join xs sep)"
  by (induction xs sep rule: join.induct) simp_all

lemma printable_digit: "d < 16 \<Longrightarrow> \<not> (digit_char d < 33 \<or> digit_char d > 126)"
proof -
  assume "d < 16"
  then have "d \<in> set [0..<16]" by simp
  moreover have "\<forall>d \<in> set [0..<16]. \<not> (digit_char d < 33 \<or> digit_char d > 126)" by code_simp
  ultimately show ?thesis by blast
qed

lemma printable_num_text: "2 \<le> base \<Longrightarrow> base \<le> 16 \<Longrightarrow> printable (num_text base n)"
proof (induction base n rule: num_text.induct)
  case (1 base n)
  have "n mod base < base" using 1 by (intro mod_less_divisor) simp
  then have "n mod base < 16" "n < base \<Longrightarrow> n < 16" using 1 by linarith+
  then have d: "printable [digit_char (n mod base)]" "n < base \<Longrightarrow> printable [digit_char n]"
    using printable_digit by simp_all
  show ?case
  proof (cases "n < base \<or> base < 2")
    case True
    then show ?thesis using d "1.prems" by (subst num_text.simps) auto
  next
    case False
    then have "printable (num_text base (n div base))" by (intro "1.IH" "1.prems")
    then show ?thesis using d False by (subst num_text.simps) simp
  qed
qed

lemma printable_dotted: "printable (dotted b)"
  unfolding dotted_def dec_def
  by (rule printable_join) (auto simp: list_all_iff printable_num_text, simp add: printable_def lit_def)

lemma printable_v6_text: "printable (v6_text b)"
proof -
  have colon: "printable (lit '':'')" "printable (lit ''::'')" by (simp_all add: printable_def lit_def)
  have p: "printable (join (map hex xs) (lit '':''))" for xs
    by (rule printable_join) (auto simp: colon list_all_iff hex_def printable_num_text)
  show ?thesis by (auto simp: v6_text_def Let_def p colon split: prod.splits)
qed

lemma printable_addr_text: "a \<noteq> NoAddr \<Longrightarrow> (\<forall>b z. a = V6 b z \<longrightarrow> printable z) \<Longrightarrow> printable (addr_text a)"
  using printable_dotted printable_v6_text
  by (cases a) (auto simp: lit_def)

abbreviation printable_target :: "handshake \<Rightarrow> bool" where
  "printable_target r \<equiv> printable (fst (snd r))"

lemma no_target [simp]: "printable_target more_bytes" "printable_target not_this"
  by (simp_all add: more_bytes_def not_this_def)

lemma printable_addr [simp]: "printable (addr_text (V4 a))" "printable (addr_text (V6 a []))"
  by (auto intro!: printable_addr_text simp del: addr_text.simps)

lemma socks5_request_printable: "returns (socks5_request \<Gamma> b offset) printable_target"
  by (simp add: socks5_request_def ret_simps Let_def valid_hostname_normal_printable
      del: all_c.simps any_c.simps addr_text.simps)

lemma socks5_target_printable: "socks5_handshake \<Gamma> b = Ret (u, t, ok) \<Longrightarrow> printable t"
proof -
  assume r: "socks5_handshake \<Gamma> b = Ret (u, t, ok)"
  then consider "t = []" | offset where "socks5_request \<Gamma> b offset = Ret (u, t, ok)"
    by (auto simp: socks5_handshake_def go_eqs Let_def more_bytes_def not_this_def
        simp del: any_c.simps split: if_splits option.splits)
  then show ?thesis
  proof cases
    case (2 offset)
    then show ?thesis using socks5_request_printable [of \<Gamma> b offset] by simp
  qed simp
qed

lemma socks4_target_printable: "socks4_request \<Gamma> b = Ret (u, t, ok) \<Longrightarrow> printable t"
proof -
  assume r: "socks4_request \<Gamma> b = Ret (u, t, ok)"
  have "returns (socks4_request \<Gamma> b) printable_target"
    unfolding socks4_request_def
    by (auto simp: ret_simps Let_def valid_hostname_normal_printable
        simp del: all_c.simps any_c.simps addr_text.simps split: option.splits dest!: index_byte_bound)
  then show ?thesis using r by simp
qed

text \<open>
  A PROXY protocol v1 line puts its source port into the client text without looking at it, so the text can hold a
  terminal control sequence.
\<close>

definition bad_proxy_v1 :: bytes where
  "bad_proxy_v1 = lit ''PROXY TCP4 192.0.2.9 192.0.2.1 '' @ [27] @ lit ''[2J 443'' @ [13, 10]"

lemma bad_proxy_v1_client:
  "proxy_v1_header bad_proxy_v1 = Ret (41, lit ''192.0.2.9:'' @ [27] @ lit ''[2J'', True)"
  by code_simp

end
