(* ===== verification/Parser.thy ===== *)
theory Parser imports Tls_Parser Http2_Parser Sniff begin

text \<open>
  The parser of one connection (\<^verbatim>\<open>parser\<close> in \<^verbatim>\<open>internal/domain/stream.go\<close>): it sniffs the protocol of the
  client's bytes and hands them to that protocol's parser, again and again inside a proxy tunnel.

  \<open>parser_step\<close> is one turn of the loop in \<^verbatim>\<open>feed\<close>.  The lemmas show that the loop ends, that a feed keeps
  the invariants of all the parsers, that it can only panic where the upgrade parser does, and that
  skipping uncaptured bytes equals feeding any bytes of that number.
\<close>

record parser =
  s_evidence :: evidence
  s_sniff :: bytes
  s_opaque :: bool
  s_upgrade :: "upgrade_state option"
  s_tls :: tls_parser
  s_http :: http_parser
  s_h2 :: "h2_parser option"

definition parser0 :: parser where
  "parser0 = \<lparr>s_evidence = evidence0, s_sniff = [], s_opaque = False, s_upgrade = None, s_tls = tls_parser0,
     s_http = http_parser0, s_h2 = None\<rparr>"

abbreviation s_kind :: "parser \<Rightarrow> kind" where
  "s_kind p \<equiv> e_kind (s_evidence p)"

definition set_kind :: "kind \<Rightarrow> parser \<Rightarrow> parser" where
  "set_kind k p = p\<lparr>s_evidence := (s_evidence p)\<lparr>e_kind := k\<rparr>\<rparr>"

text \<open>
  \<^verbatim>\<open>p.h2.stopped\<close> dereferences a pointer that is set whenever the kind is HTTP/2 (an invariant below), so the
  missing case does not occur.
\<close>

definition parser_finished :: "parser \<Rightarrow> bool" where
  "parser_finished p = (case s_kind p of
     KNone \<Rightarrow> False
   | KTls \<Rightarrow> t_done (s_tls p)
   | KHttp \<Rightarrow> p_state (s_http p) = HttpStopped
   | KHttp2 \<Rightarrow> (case s_h2 p of Some q \<Rightarrow> h2_stopped q | None \<Rightarrow> False)
   | KProxy \<Rightarrow> s_opaque p
   | KUpgrade \<Rightarrow> False
   | _ \<Rightarrow> True)"

definition parser_incomplete :: "parser \<Rightarrow> bool" where
  "parser_incomplete p = (case s_kind p of
     KNone \<Rightarrow> s_sniff p \<noteq> []
   | KProxy \<Rightarrow> s_sniff p \<noteq> []
   | KUpgrade \<Rightarrow> True
   | KTls \<Rightarrow> \<not> t_done (s_tls p)
   | KHttp \<Rightarrow> p_state (s_http p) \<noteq> HttpStopped \<and> (p_state (s_http p) \<noteq> HttpHeaders \<or> p_buffer (s_http p) \<noteq> [])
   | _ \<Rightarrow> False)"

definition capture_truncated :: err where
  "capture_truncated = Msg ''TCP payload capture truncated''"

definition parser_skip :: "parser \<Rightarrow> nat \<Rightarrow> parser go" where
  "parser_skip p n =
     (if parser_finished p then Ret p
      else case (if s_kind p = KHttp then http_skip (s_http p) n else None) of
        Some q \<Rightarrow> Ret (p\<lparr>s_http := q\<rparr>)
      | None \<Rightarrow> (case (if s_kind p = KHttp2 then s_h2 p else None) of
          None \<Rightarrow> Fail capture_truncated
        | Some q \<Rightarrow> (case h2_skip q n of
            Some q' \<Rightarrow> Ret (p\<lparr>s_h2 := Some q'\<rparr>)
          | None \<Rightarrow> Fail capture_truncated)))"

section \<open>One turn of the loop\<close>

text \<open>A turn returns from \<^verbatim>\<open>feed\<close>, or goes on with other data.\<close>

datatype feed_turn = Done "err option" | Feed bytes

definition feed_upgrade :: "env \<Rightarrow> parser \<Rightarrow> bytes \<Rightarrow> (parser \<times> bytes) go" where
  "feed_upgrade \<Gamma> p data = (case s_upgrade p of
     None \<Rightarrow> Panic
   | Some u \<Rightarrow> gbind (upgrade_feed \<Gamma> u data) (\<lambda>(u', hello). case u' of
       None \<Rightarrow> Ret ((set_kind KOther p)\<lparr>s_upgrade := None\<rparr>, [])
     | Some v \<Rightarrow> Ret (p\<lparr>s_upgrade := Some v\<rparr>, hello)))"

definition sniff_turn :: "env \<Rightarrow> parser \<Rightarrow> bytes \<Rightarrow> (parser \<times> feed_turn) go" where
  "sniff_turn \<Gamma> p0 data = (let p = p0\<lparr>s_sniff := s_sniff p0 @ data\<rparr>; b = s_sniff p in
     gbind (sniff_stream \<Gamma> b) (\<lambda>(kind, used, target). case kind of
       SMore \<Rightarrow> Ret (p, Done None)
     | SOther \<Rightarrow> Ret ((if s_kind p = KProxy then p\<lparr>s_opaque := True\<rparr> else set_kind KOther p)\<lparr>s_sniff := []\<rparr>, Done None)
     | SPreamble \<Rightarrow>
         let p1 = p\<lparr>s_evidence := (s_evidence p)\<lparr>e_proxy_client := target\<rparr>\<rparr> in
         gbind (if has_prefix b proxy_v2_signature then gbind (gslice b 0 used) (proxy_v2_authority \<Gamma>) else Ret (Some []))
           (\<lambda>authority. case authority of
             None \<Rightarrow> Ret (p1, Done (Some (Msg ''invalid PROXY v2 TLV'')))
           | Some a \<Rightarrow> gbind (gfrom b used) (\<lambda>rest.
               Ret (p1\<lparr>s_evidence := (if a \<noteq> [] then (s_evidence p1)\<lparr>e_proxy_authority := Some a\<rparr> else s_evidence p1),
                 s_sniff := []\<rparr>, Feed rest)))
     | SUpgrade \<Rightarrow> Ret ((set_kind KUpgrade p)\<lparr>s_upgrade := Some (upgrade_state0 target), s_sniff := []\<rparr>, Feed b)
     | SHttp2 \<Rightarrow> gbind (gfrom b used) (\<lambda>rest.
         Ret ((set_kind KHttp2 p)\<lparr>s_h2 := Some h2_parser0, s_sniff := []\<rparr>, Feed rest))
     | SSocks4 \<Rightarrow> gbind (gfrom b used) (\<lambda>rest. Ret (p\<lparr>s_evidence := (s_evidence p)\<lparr>e_kind := KProxy, e_proxy := target,
           e_proxy_via := lit ''SOCKS4''\<rparr>, s_sniff := []\<rparr>, Feed rest))
     | SSocks5 \<Rightarrow> gbind (gfrom b used) (\<lambda>rest. Ret (p\<lparr>s_evidence := (s_evidence p)\<lparr>e_kind := KProxy, e_proxy := target,
           e_proxy_via := lit ''SOCKS5''\<rparr>, s_sniff := []\<rparr>, Feed rest))
     | STls \<Rightarrow> Ret ((set_kind KTls p)\<lparr>s_sniff := []\<rparr>, Feed b)
     | SHttp \<Rightarrow> Ret ((set_kind KHttp p)\<lparr>s_sniff := []\<rparr>, Feed b)))"

definition http_feed_turn :: "env \<Rightarrow> parser \<Rightarrow> bytes \<Rightarrow> (parser \<times> feed_turn) go" where
  "http_feed_turn \<Gamma> p data = gbind (http_feed \<Gamma> (s_http p) data (s_evidence p)) (\<lambda>(q, e, er).
     let p1 = p\<lparr>s_http := q, s_evidence := e\<rparr> in
     if er \<noteq> None then Ret (p1, Done er)
     else if p_state q = HttpTunnel then
       Ret ((set_kind KProxy p1)\<lparr>s_http := http_parser0\<rparr>, Feed (p_buffer q))
     else if p_state q = HttpH2C then gbind (gfrom (p_buffer q) (length h2_preface)) (\<lambda>rest.
       Ret ((set_kind KHttp2 p1)\<lparr>s_http := http_parser0, s_h2 := Some h2_parser0\<rparr>, Feed rest))
     else Ret (p1, Done None))"

definition parser_step :: "env \<Rightarrow> parser \<Rightarrow> bytes \<Rightarrow> (parser \<times> feed_turn) go" where
  "parser_step \<Gamma> p data = (case s_kind p of
     KNone \<Rightarrow> sniff_turn \<Gamma> p data
   | KProxy \<Rightarrow> sniff_turn \<Gamma> p data
   | KTls \<Rightarrow> gbind (tls_feed \<Gamma> (s_tls p) data (s_evidence p)) (\<lambda>(q, e, er).
       Ret (p\<lparr>s_tls := q, s_evidence := e\<rparr>, Done er))
   | KUpgrade \<Rightarrow> gbind (feed_upgrade \<Gamma> p data) (\<lambda>(p1, hello).
       if hello \<noteq> [] then (case s_upgrade p1 of
           None \<Rightarrow> Panic
         | Some u \<Rightarrow> Ret (p1\<lparr>s_evidence := (s_evidence p1)\<lparr>e_kind := KTls, e_upgrade := Some (u_protocol u)\<rparr>,
             s_upgrade := None\<rparr>, Feed hello))
       else Ret (p1, Done None))
   | KHttp \<Rightarrow> http_feed_turn \<Gamma> p data
   | KHttp2 \<Rightarrow> (case s_h2 p of None \<Rightarrow> Panic
     | Some q \<Rightarrow> gbind (h2_feed \<Gamma> q data (s_evidence p)) (\<lambda>(q', e, er).
         Ret (p\<lparr>s_h2 := Some q', s_evidence := e\<rparr>, Done er)))
   | _ \<Rightarrow> Ret (p, Done None))"

section \<open>The loop ends\<close>

text \<open>
  A turn that goes on leaves a tunnel state of the HTTP parser, or consumes bytes, or moves the same
  bytes to a later protocol.
\<close>

definition tunnel_rank :: "parser \<Rightarrow> nat" where
  "tunnel_rank p = (if p_state (s_http p) \<in> {HttpTunnel, HttpH2C} then 1 else 0)"

definition held_bytes :: "parser \<Rightarrow> nat" where
  "held_bytes p = length (s_sniff p) + length (p_buffer (s_http p))
     + (case s_upgrade p of Some u \<Rightarrow> length (u_data u) | None \<Rightarrow> 0)"

definition kind_rank :: "kind \<Rightarrow> nat" where
  "kind_rank k = (if k = KNone \<or> k = KProxy then 2 else if k = KHttp \<or> k = KUpgrade then 1 else 0)"

definition feed_order :: "((parser \<times> bytes) \<times> (parser \<times> bytes)) set" where
  "feed_order = measures [\<lambda>(p, d). tunnel_rank p, \<lambda>(p, d). held_bytes p + length d, \<lambda>(p, d). kind_rank (s_kind p)]"

lemma wf_feed_order: "wf feed_order"
  by (simp add: feed_order_def)

lemma set_kind_simps [simp]:
  "s_kind (set_kind k p) = k" "s_sniff (set_kind k p) = s_sniff p" "s_http (set_kind k p) = s_http p"
  "s_upgrade (set_kind k p) = s_upgrade p" "s_tls (set_kind k p) = s_tls p" "s_h2 (set_kind k p) = s_h2 p"
  "s_opaque (set_kind k p) = s_opaque p" "s_evidence (set_kind k p) = (s_evidence p)\<lparr>e_kind := k\<rparr>"
  by (simp_all add: set_kind_def)

text \<open>What the HTTP parser leaves in its buffer is a tail of what it had; a tunnel starts behind a header block.\<close>

definition tail_of :: "http_parser \<Rightarrow> bytes \<Rightarrow> bool" where
  "tail_of p b \<longleftrightarrow> (\<exists>n \<le> length b. p_buffer p = drop n b \<and> (p_state p = HttpTunnel \<longrightarrow> 0 < n))"

lemma tail_ofI: "n \<le> length b \<Longrightarrow> p_buffer p = drop n b \<Longrightarrow> (p_state p = HttpTunnel \<Longrightarrow> 0 < n) \<Longrightarrow> tail_of p b"
  by (auto simp: tail_of_def)

lemma tail_of_Nil: "p_buffer p = [] \<Longrightarrow> p_state p \<noteq> HttpTunnel \<Longrightarrow> tail_of p b"
  by (rule tail_ofI [of "length b"]) auto

lemma tail_of_trans: "tail_of p1 (p_buffer p') \<Longrightarrow> tail_of p' b \<Longrightarrow> tail_of p1 b"
proof -
  assume "tail_of p1 (p_buffer p')" "tail_of p' b"
  then obtain m n where m: "m \<le> length (p_buffer p')" "p_buffer p1 = drop m (p_buffer p')"
      "p_state p1 = HttpTunnel \<longrightarrow> 0 < m"
    and n: "n \<le> length b" "p_buffer p' = drop n b" by (auto simp: tail_of_def)
  then show ?thesis by (intro tail_ofI [of "n + m"]) (auto simp: add.commute)
qed

lemma http_request_buffer:
  assumes "http_request \<Gamma> h (p\<lparr>p_buffer := drop n b\<rparr>) e = Ret (p', e', t)" and "0 < n" and "n \<le> length b"
  shows "tail_of p' b"
proof -
  have "p_buffer p' = drop n b \<or> p_buffer p' = [] \<and> p_state p' = HttpStopped"
    using assms(1) by (auto simp: http_request_def Let_def gtry_eq_Ret split: if_splits)
  then show ?thesis using assms(2,3) tail_of_Nil by (auto intro: tail_ofI)
qed

lemma http_headers_step_buffer:
  assumes "http_headers_step \<Gamma> p e = Ret (p', e', t)" and "p_state p = HttpHeaders"
  shows "tail_of p' (p_buffer p)"
proof (cases "p_h2c p \<and> (has_prefix (p_buffer p) h2_preface \<or> has_prefix h2_preface (p_buffer p))")
  case True
  then show ?thesis using assms by (auto simp: http_headers_step_def intro!: tail_ofI [of 0] split: if_splits)
next
  case False
  show ?thesis
  proof (cases "index_of (p_buffer p) crlf2")
    case None
    then show ?thesis using assms False by (auto simp: http_headers_step_def Let_def intro!: tail_ofI [of 0])
  next
    case (Some i)
    from index_of_crlf2 [OF this] have i: "i + 4 \<le> length (p_buffer p)" .
    consider "p' = p\<lparr>p_h2c := False\<rparr>" | h where
      "http_request \<Gamma> h (p\<lparr>p_h2c := False, p_buffer := drop (i + 4) (p_buffer p)\<rparr>) e = Ret (p', e', t)"
      using assms False Some i
      by (auto simp: http_headers_step_def Let_def gtry_eq_Ret go_eqs split: if_splits)
    then show ?thesis
    proof cases
      case 1
      then show ?thesis using assms by (auto intro!: tail_ofI [of 0])
    next
      case (2 h)
      then show ?thesis using i http_request_buffer [of \<Gamma> h "i + 4" "p_buffer p" "p\<lparr>p_h2c := False\<rparr>"] by simp
    qed
  qed
qed

lemma http_step_buffer:
  assumes "http_step \<Gamma> p e = Ret (p', e', t)" and "p_state p \<notin> {HttpTunnel, HttpH2C}"
  shows "tail_of p' (p_buffer p)"
proof -
  have tail: "tail_of p' (p_buffer p)" if "p_buffer p' = drop n (p_buffer p)" "p_state p' \<noteq> HttpTunnel" for n
    using that by (intro tail_ofI [of "min n (length (p_buffer p))"]) (auto simp: min_def)
  have body: "tail_of p' (p_buffer p)" if "p_state p \<in> {HttpFixedBody, HttpChunkData}"
    by (rule tail [of "min (length (p_buffer p)) (p_remaining p)"])
      (use assms that in \<open>auto simp: http_step_def http_body_step_def Let_def split: if_splits\<close>)
  show ?thesis
  proof (cases "p_state p")
    case HttpHeaders
    then show ?thesis using assms http_headers_step_buffer by (simp add: http_step_def)
  next
    case HttpChunkSize
    have "\<exists>n. p_buffer p' = drop n (p_buffer p) \<and> p_state p' \<noteq> HttpTunnel"
      using assms HttpChunkSize
      by (auto simp: http_step_def http_chunk_size_step_def gtry_eq_Ret go_eqs Let_def
          intro: exI [of _ 0] split: if_splits option.splits prod.splits)
    then show ?thesis using tail by blast
  next
    case HttpChunkTrailer
    have "\<exists>n. p_buffer p' = drop n (p_buffer p) \<and> p_state p' \<noteq> HttpTunnel"
      using assms HttpChunkTrailer
      by (auto simp: http_step_def http_trailer_step_def go_eqs gbyte_def intro: exI [of _ 0] split: if_splits option.splits)
    then show ?thesis using tail by blast
  next
    case HttpChunkEnd
    have "\<exists>n. p_buffer p' = drop n (p_buffer p) \<and> p_state p' \<noteq> HttpTunnel"
      using assms HttpChunkEnd
      by (auto simp: http_step_def http_chunk_end_step_def go_eqs gbyte_def intro: exI [of _ 0] split: if_splits)
    then show ?thesis using tail by blast
  next
    case HttpStopped
    then show ?thesis using assms by (auto simp: http_step_def intro!: tail_of_Nil)
  next
    case HttpFixedBody
    then show ?thesis using body by simp
  next
    case HttpChunkData
    then show ?thesis using body by simp
  qed (use assms in simp_all)
qed

lemma http_loop_buffer:
  "http_loop \<Gamma> p e = Ret (p1, e1, er) \<Longrightarrow> p_state p \<notin> {HttpTunnel, HttpH2C} \<Longrightarrow> tail_of p1 (p_buffer p)"
proof (induction p arbitrary: e rule: measure_induct_rule [where f = http_size])
  case (less p)
  obtain p' e' t where s: "http_step \<Gamma> p e = Ret (p', e', t)"
    using less.prems(1) by (auto simp: http_loop.simps [of \<Gamma> p] gbind_eq_Ret)
  note b = http_step_buffer [OF s less.prems(2)]
  show ?case
  proof (cases "p_state p = HttpStopped \<or> (\<exists>er. t = Return er) \<or> t = Next \<and> p_buffer p' = []")
    case True
    then have "p1 = p'"
      using less.prems(1) s by (cases t) (auto simp: http_loop.simps [of \<Gamma> p] http_step_def)
    then show ?thesis using b by simp
  next
    case False
    then have small: "http_size p' < http_size p" using http_step_shrinks [OF s] by simp
    have st: "p_state p' \<notin> {HttpTunnel, HttpH2C}" using http_step_next_state [OF s] less.prems(2) False by auto
    have "http_loop \<Gamma> p' e' = Ret (p1, e1, er)"
      using False less.prems(1) s by (cases t) (auto simp: http_loop.simps [of \<Gamma> p])
    from less.IH [OF small this st] b show ?thesis by (rule tail_of_trans)
  qed
qed

lemma http_feed_buffer:
  assumes "http_feed \<Gamma> p d e = Ret (p1, e1, er)" and "p_state p \<notin> {HttpTunnel, HttpH2C}"
    and "p_state p1 \<in> {HttpTunnel, HttpH2C}"
  shows "tail_of p1 (p_buffer p @ d)"
  using assms http_loop_buffer [of \<Gamma> "p\<lparr>p_buffer := p_buffer p @ d\<rparr>" e p1 e1 er]
  by (auto simp: http_feed_def split: if_splits)

lemma upgrade_search_length: "upgrade_search v = Ret (v', h) \<Longrightarrow> length h \<le> length (u_data v)"
  using find_hello_returns [of "u_data v" 0]
  by (auto simp: upgrade_search_def go_eqs returns_def split: option.splits if_splits)

lemma upgrade_feed_length:
  assumes "upgrade_feed \<Gamma> u d = Ret (v, h)"
  shows "length h \<le> length (u_data u) + length d"
proof -
  from assms consider "h = []" | w where "upgrade_search w = Ret (v, h)" "length (u_data w) \<le> length (u_data u) + length d"
    by (auto simp: upgrade_feed_def go_eqs Let_def split: if_splits)
  then show ?thesis using upgrade_search_length by cases (auto, fastforce)
qed

lemma sniff_turn_next:
  assumes "sniff_turn \<Gamma> p d = Ret (p', Feed d')" and "s_kind p \<in> {KNone, KProxy}"
  shows "((p', d'), (p, d)) \<in> feed_order"
proof -
  let ?b = "s_sniff p @ d"
  obtain k u t where s: "sniff_stream \<Gamma> ?b = Ret (k, u, t)" and post: "sniff_post ?b (k, u, t)"
    using sniff_stream_returns [of \<Gamma> ?b] by (auto simp: returns_def)
  have held: "held_bytes p' + length d' + u \<le> held_bytes p + length d" "tunnel_rank p' = tunnel_rank p"
    if "k \<in> {SSocks4, SSocks5, SPreamble}"
  proof -
    obtain ev where "p' = p\<lparr>s_evidence := ev, s_sniff := []\<rparr>" "d' = drop u ?b" "u \<le> length ?b"
    proof (cases k)
      case SPreamble
      then show ?thesis using assms(1) s that
        by (auto simp: sniff_turn_def Let_def gbind_eq_Ret gfrom_eq_Ret split: option.splits)
    qed (use assms(1) s that \<open>k \<in> _\<close> in \<open>auto simp: sniff_turn_def Let_def gbind_eq_Ret gfrom_eq_Ret\<close>)
    then show "held_bytes p' + length d' + u \<le> held_bytes p + length d" "tunnel_rank p' = tunnel_rank p"
      by (simp_all add: held_bytes_def tunnel_rank_def)
  qed
  let ?q = "p\<lparr>s_sniff := s_sniff p @ d\<rparr>"
  have "held_bytes p' + length d' \<le> held_bytes p + length d \<and> tunnel_rank p' = tunnel_rank p \<and>
    kind_rank (s_kind p') < kind_rank (s_kind p)" if "k \<notin> {SSocks4, SSocks5, SPreamble}"
  proof -
    have u: "u \<le> length ?b" using post by (simp add: sniff_post_def)
    have rank: "kind_rank (s_kind p) = 2" "kind_rank KTls = 0" "kind_rank KHttp = 1" "kind_rank KUpgrade = 1" "kind_rank KHttp2 = 0"
      using assms(2) by (auto simp: kind_rank_def)
    show ?thesis
    proof (cases k)
      case STls
      have "Ret (p', Feed d') = Ret ((set_kind KTls ?q)\<lparr>s_sniff := []\<rparr>, Feed ?b)"
        unfolding assms(1) [symmetric] sniff_turn_def Let_def by (simp add: s STls)
      then have "p' = (set_kind KTls ?q)\<lparr>s_sniff := []\<rparr>" "d' = ?b" by simp_all
      then show ?thesis by (simp add: held_bytes_def tunnel_rank_def rank upgrade_state0_def)
    next
      case SHttp
      have "Ret (p', Feed d') = Ret ((set_kind KHttp ?q)\<lparr>s_sniff := []\<rparr>, Feed ?b)"
        unfolding assms(1) [symmetric] sniff_turn_def Let_def by (simp add: s SHttp)
      then have "p' = (set_kind KHttp ?q)\<lparr>s_sniff := []\<rparr>" "d' = ?b" by simp_all
      then show ?thesis by (simp add: held_bytes_def tunnel_rank_def rank upgrade_state0_def)
    next
      case SUpgrade
      have "Ret (p', Feed d') = Ret ((set_kind KUpgrade ?q)\<lparr>s_upgrade := Some (upgrade_state0 t), s_sniff := []\<rparr>, Feed ?b)"
        unfolding assms(1) [symmetric] sniff_turn_def Let_def by (simp add: s SUpgrade)
      then have "p' = (set_kind KUpgrade ?q)\<lparr>s_upgrade := Some (upgrade_state0 t), s_sniff := []\<rparr>" "d' = ?b" by simp_all
      then show ?thesis by (simp add: held_bytes_def tunnel_rank_def rank upgrade_state0_def)
    next
      case SHttp2
      have "Ret (p', Feed d') = Ret ((set_kind KHttp2 ?q)\<lparr>s_h2 := Some h2_parser0, s_sniff := []\<rparr>, Feed (drop u ?b))"
        unfolding assms(1) [symmetric] sniff_turn_def Let_def by (simp add: s SHttp2 gfrom_in [OF u])
      then have "p' = (set_kind KHttp2 ?q)\<lparr>s_h2 := Some h2_parser0, s_sniff := []\<rparr>" "d' = (drop u ?b)" by simp_all
      then show ?thesis by (simp add: held_bytes_def tunnel_rank_def rank upgrade_state0_def)
    next
      case SMore
      then show ?thesis using assms(1) by (simp add: sniff_turn_def Let_def s)
    next
      case SOther
      then show ?thesis using assms(1) by (simp add: sniff_turn_def Let_def s)
    qed (use that in simp_all)
  qed
  then show ?thesis using held post
    by (cases "k \<in> {SSocks4, SSocks5, SPreamble}") (auto simp: feed_order_def sniff_post_def)
qed

lemma http_feed_turn_next:
  assumes "http_feed_turn \<Gamma> p d = Ret (p', Feed d')" and k: "s_kind p = KHttp"
  shows "((p', d'), (p, d)) \<in> feed_order"
proof -
  from assms obtain q e where f: "http_feed \<Gamma> (s_http p) d (s_evidence p) = Ret (q, e, None)"
    and st: "p_state q = HttpTunnel \<or> p_state q = HttpH2C" and p': "s_http p' = http_parser0" "s_sniff p' = s_sniff p" "s_upgrade p' = s_upgrade p"
      "p_state q = HttpTunnel \<longrightarrow> d' = p_buffer q" "p_state q = HttpH2C \<longrightarrow> length d' \<le> length (p_buffer q) \<and> s_kind p' = KHttp2"
    by (auto simp: http_feed_turn_def gbind_eq_Ret gfrom_eq_Ret Let_def split: if_splits)
  have t0: "tunnel_rank p' = 0" by (simp add: tunnel_rank_def p' http_parser0_def)
  show ?thesis
  proof (cases "p_state (s_http p) \<in> {HttpTunnel, HttpH2C}")
    case True
    then have "tunnel_rank p = 1" by (simp add: tunnel_rank_def)
    then show ?thesis using t0 by (simp add: feed_order_def)
  next
    case False
    then have "tunnel_rank p = 0" by (simp add: tunnel_rank_def)
    moreover have "tail_of q (p_buffer (s_http p) @ d)" using http_feed_buffer [OF f False] st by simp
    ultimately show ?thesis using t0 p' st k
      by (auto simp: feed_order_def held_bytes_def kind_rank_def http_parser0_def tail_of_def)
  qed
qed

lemma parser_step_next:
  assumes "parser_step \<Gamma> p d = Ret (p', Feed d')"
  shows "((p', d'), (p, d)) \<in> feed_order"
proof (cases "s_kind p")
  case KUpgrade
  from assms KUpgrade obtain u v where u: "s_upgrade p = Some u" and f: "upgrade_feed \<Gamma> u d = Ret (Some v, d')"
    and p': "p' = p\<lparr>s_evidence := (s_evidence p)\<lparr>e_kind := KTls, e_upgrade := Some (u_protocol v)\<rparr>, s_upgrade := None\<rparr>"
    by (auto simp: parser_step_def feed_upgrade_def go_eqs split: if_splits option.splits)
  from upgrade_feed_length [OF f] show ?thesis using KUpgrade u p'
    by (auto simp: feed_order_def tunnel_rank_def held_bytes_def kind_rank_def)
next
  case KNone
  then show ?thesis using assms sniff_turn_next by (simp add: parser_step_def)
next
  case KProxy
  then show ?thesis using assms sniff_turn_next by (simp add: parser_step_def)
next
  case KHttp
  then show ?thesis using assms http_feed_turn_next by (simp add: parser_step_def)
qed (use assms in \<open>auto simp: parser_step_def go_eqs split: option.splits\<close>)

function parser_feed :: "env \<Rightarrow> parser \<Rightarrow> bytes \<Rightarrow> (parser \<times> err option) go" where
  "parser_feed \<Gamma> p data = gbind (parser_step \<Gamma> p data) (\<lambda>(p', t). case t of
     Done er \<Rightarrow> Ret (p', er)
   | Feed data' \<Rightarrow> parser_feed \<Gamma> p' data')"
  by pat_completeness auto
termination
  by (relation "inv_image feed_order snd") (auto simp: wf_feed_order dest: parser_step_next)

declare parser_feed.simps [simp del]

section \<open>What the parsers leave alone\<close>

definition same_names :: "evidence \<Rightarrow> evidence \<Rightarrow> bool" where
  "same_names e e' \<longleftrightarrow> e_kind e' = e_kind e \<and> e_sni e' = e_sni e \<and> e_alpn e' = e_alpn e"

lemma same_names_refl [simp]: "same_names e e"
  by (simp add: same_names_def)

lemma same_names_trans: "same_names a b \<Longrightarrow> same_names b c \<Longrightarrow> same_names a c"
  by (simp add: same_names_def)

lemma count_host_names: "count_host h e = Ret e' \<Longrightarrow> same_names e e'"
  by (auto simp: count_host_def same_names_def split: if_splits)

lemma http_request_names: "http_request \<Gamma> h p e = Ret (p', e', t) \<Longrightarrow> same_names e e'"
  by (auto simp: http_request_def Let_def gtry_eq_Ret same_names_def split: if_splits dest!: count_host_names)

lemma http_step_names:
  assumes "http_step \<Gamma> p e = Ret (p', e', t)"
  shows "same_names e e'"
proof (cases "p_state p")
  case HttpHeaders
  then show ?thesis using assms
    by (auto simp: http_step_def http_headers_step_def Let_def gtry_eq_Ret go_eqs
        dest!: http_request_names split: if_splits option.splits)
next
  case HttpChunkSize
  then show ?thesis using assms
    by (auto simp: http_step_def http_chunk_size_step_def gtry_eq_Ret go_eqs Let_def
        split: if_splits option.splits prod.splits)
next
  case HttpChunkTrailer
  then show ?thesis using assms
    by (auto simp: http_step_def http_trailer_step_def go_eqs gbyte_def split: if_splits option.splits)
qed (use assms in \<open>auto simp: http_step_def http_body_step_def http_chunk_end_step_def go_eqs gbyte_def
        Let_def split: if_splits\<close>)

lemma http_loop_names: "http_loop \<Gamma> p e = Ret (p1, e1, er) \<Longrightarrow> same_names e e1"
proof (induction p arbitrary: e rule: measure_induct_rule [where f = http_size])
  case (less p)
  obtain p' e' t where s: "http_step \<Gamma> p e = Ret (p', e', t)"
    using less.prems by (auto simp: http_loop.simps [of \<Gamma> p] gbind_eq_Ret)
  note n = http_step_names [OF s]
  show ?case
  proof (cases "(\<exists>er. t = Return er) \<or> t = Next \<and> p_buffer p' = []")
    case True
    then have "e1 = e'" using less.prems s by (cases t) (auto simp: http_loop.simps [of \<Gamma> p])
    then show ?thesis using n by simp
  next
    case False
    then have small: "http_size p' < http_size p" using http_step_shrinks [OF s] by simp
    have "http_loop \<Gamma> p' e' = Ret (p1, e1, er)"
      using False less.prems s by (cases t) (auto simp: http_loop.simps [of \<Gamma> p])
    from same_names_trans [OF n less.IH [OF small this]] show ?thesis .
  qed
qed

lemma http_feed_names: "http_feed \<Gamma> p d e = Ret (p1, e1, er) \<Longrightarrow> same_names e e1"
  using http_loop_names by (auto simp: http_feed_def split: if_splits)

lemma h2_request_names:
  assumes "h2_request \<Gamma> fs p e = Ret (p', e', er)"
  shows "same_names e e'"
proof -
  obtain a g where f: "h2_fields fs [] (e_grpc e) = (a, g)" by (cases "h2_fields fs [] (e_grpc e)")
  have e: "same_names e (e\<lparr>e_grpc := g\<rparr>)" by (simp add: same_names_def)
  from assms consider "e' = e\<lparr>e_grpc := g\<rparr>" | h where "count_host h (e\<lparr>e_grpc := g\<rparr>) = Ret e'"
    by (auto simp: h2_request_def f Let_def gtry_eq_Ret split: if_splits)
  then show ?thesis
  proof cases
    case (2 h)
    from same_names_trans [OF e count_host_names [OF this]] show ?thesis .
  qed (use e in simp)
qed

lemma h2_headers_names: "h2_headers \<Gamma> p e = Ret (p', e', er) \<Longrightarrow> same_names e e'"
  unfolding h2_headers_def Let_def gtry_eq_Ret
  by (elim disjE exE conjE) (simp_all split: if_split_asm sum.split_asm add: h2_request_names)

lemma h2_payload_names: "h2_payload \<Gamma> p d e = Ret (p', r, e', t) \<Longrightarrow> same_names e e'"
  unfolding h2_payload_def Let_def
  by (auto simp: gbind_eq_Ret split: if_splits option.splits dest!: h2_headers_names)

lemma h2_step_names: "h2_step \<Gamma> p d e = Ret (p', r, e', t) \<Longrightarrow> same_names e e'"
  unfolding h2_step_def Let_def by (auto simp: gbind_eq_Ret split: if_splits dest!: h2_payload_names)

lemma h2_feed_names': "h2_feed \<Gamma> (fst x) (snd x) e = Ret (p1, e1, er) \<Longrightarrow> same_names e e1"
proof (induction x arbitrary: e rule: measure_induct_rule [where f = h2_measure])
  case (less x)
  obtain p d where x: "x = (p, d)" by (cases x)
  show ?case
  proof (cases "d = [] \<or> h2_stopped p")
    case True
    then show ?thesis using less.prems x by (auto simp: h2_feed.simps [of \<Gamma> p])
  next
    case False
    obtain p' r e' t where s: "h2_step \<Gamma> p d e = Ret (p', r, e', t)"
      using less.prems x False by (auto simp: h2_feed.simps [of \<Gamma> p] gbind_eq_Ret)
    note n = h2_step_names [OF s]
    show ?thesis
    proof (cases "t = Next")
      case True
      then have "h2_measure (p', r) < h2_measure x" using h2_step_shrinks s False x by auto
      moreover have "h2_feed \<Gamma> p' r e' = Ret (p1, e1, er)"
        using less.prems x False s True by (simp add: h2_feed.simps [of \<Gamma> p])
      ultimately have "same_names e' e1" using less.IH [of "(p', r)"] by simp
      with n show ?thesis by (rule same_names_trans)
    next
      case not: False
      then have "e1 = e'" using less.prems x False s h2_step_not_Continue
        by (cases t) (auto simp: h2_feed.simps [of \<Gamma> p])
      then show ?thesis using n by simp
    qed
  qed
qed

lemma h2_feed_names: "h2_feed \<Gamma> p d e = Ret (p1, e1, er) \<Longrightarrow> same_names e e1"
  using h2_feed_names' [of \<Gamma> "(p, d)"] by simp

section \<open>The invariant of the parser\<close>

definition ev_ok :: "evidence \<Rightarrow> bool" where
  "ev_ok e \<longleftrightarrow> hosts_ok e \<and> ev_printable e"

lemma ev_ok_simps [simp]:
  "ev_ok (e\<lparr>e_kind := k\<rparr>) = ev_ok e" "ev_ok (e\<lparr>e_proxy := x\<rparr>) = ev_ok e" "ev_ok (e\<lparr>e_proxy_via := x\<rparr>) = ev_ok e"
  "ev_ok (e\<lparr>e_proxy_client := x\<rparr>) = ev_ok e" "ev_ok (e\<lparr>e_proxy_authority := a\<rparr>) = ev_ok e"
  "ev_ok (e\<lparr>e_upgrade := a\<rparr>) = ev_ok e"
  by (simp_all add: ev_ok_def hosts_ok_def ev_printable_def)

text \<open>
  \<open>parser_mid p d\<close> holds when the loop has \<open>p\<close> and the data \<open>d\<close> in hand, \<open>parser_ok p\<close> between two feeds:
  the parser of the current kind is in its own invariant, the others are fresh.
\<close>

definition parser_mid :: "parser \<Rightarrow> bytes \<Rightarrow> bool" where
  "parser_mid p d \<longleftrightarrow> ev_ok (s_evidence p) \<and> http_ok (s_http p) \<and> tls_ok (s_tls p)
     \<and> (s_kind p \<noteq> KHttp \<longrightarrow> s_http p = http_parser0) \<and> (s_kind p \<noteq> KTls \<longrightarrow> s_tls p = tls_parser0)
     \<and> (s_kind p \<notin> {KNone, KProxy} \<longrightarrow> s_sniff p = []) \<and> length (s_sniff p) < max_sniff_bytes
     \<and> (s_kind p = KHttp2 \<longrightarrow> (\<exists>q. s_h2 p = Some q \<and> h2_ok q))
     \<and> (s_kind p \<noteq> KUpgrade \<longrightarrow> s_upgrade p = None)
     \<and> (s_kind p = KUpgrade \<longrightarrow> (\<exists>u. s_upgrade p = Some u \<and> upgrade_ok u \<and>
          (u_ready u \<or> upgrade_start (u_protocol u) \<le> length (u_data u @ d))))"

definition parser_ok :: "parser \<Rightarrow> bool" where
  "parser_ok p \<longleftrightarrow> parser_mid p []"

definition ascii_input :: "parser \<Rightarrow> bytes \<Rightarrow> bool" where
  "ascii_input p d \<longleftrightarrow> is_ascii (s_sniff p) \<and> is_ascii (p_buffer (s_http p)) \<and> is_ascii d
     \<and> (case s_upgrade p of Some u \<Rightarrow> is_ascii (u_data u) | None \<Rightarrow> True)"

text \<open>The kinds from which the bytes can still reach the search for an upgrade command.\<close>

definition upgrade_risk :: "parser \<Rightarrow> bool" where
  "upgrade_risk p \<longleftrightarrow> s_kind p \<in> {KNone, KProxy, KHttp} \<or>
     s_kind p = KUpgrade \<and> (case s_upgrade p of Some u \<Rightarrow> \<not> u_ready u | None \<Rightarrow> True)"

definition step_post :: "parser \<Rightarrow> bytes \<Rightarrow> (parser \<times> feed_turn) go \<Rightarrow> bool" where
  "step_post p d r \<longleftrightarrow> (case r of
     Ret (p', Done er) \<Rightarrow> ev_ok (s_evidence p') \<and> (er = None \<longrightarrow> parser_ok p')
   | Ret (p', Feed d') \<Rightarrow> parser_mid p' d' \<and> (ascii_input p d \<longrightarrow> ascii_input p' d') \<and> (upgrade_risk p' \<longrightarrow> upgrade_risk p)
   | Fail er \<Rightarrow> False
   | Panic \<Rightarrow> upgrade_risk p \<and> \<not> ascii_input p d)"

lemma http_ok0 [simp]: "http_ok http_parser0"
  by (simp add: http_ok_def http_parser0_def http_inv_def http_rest_def)

lemma tls_ok0 [simp]: "tls_ok tls_parser0"
  by (simp add: tls_ok_def tls_parser0_def max_client_hello_def)

lemma h2_ok0 [simp]: "h2_ok h2_parser0"
  by (simp add: h2_ok_def h2_parser0_def)

lemma upgrade_ok0 [simp]: "upgrade_ok (upgrade_state0 k)" "\<not> u_ready (upgrade_state0 k)"
  "u_data (upgrade_state0 k) = []" "u_protocol (upgrade_state0 k) = k"
  by (simp_all add: upgrade_ok_def upgrade_state0_def max_upgrade_bytes_def)

lemma ascii_buffer0 [simp]: "p_buffer http_parser0 = []"
  by (simp add: http_parser0_def)

lemma is_ascii_Nil [simp]: "is_ascii []"
  by (simp add: is_ascii_def)

lemma sniff_turn_post:
  assumes mid: "parser_mid p d" and k: "s_kind p \<in> {KNone, KProxy}"
  shows "step_post p d (sniff_turn \<Gamma> p d)"
proof -
  let ?b = "s_sniff p @ d" and ?q = "p\<lparr>s_sniff := s_sniff p @ d\<rparr>"
  obtain kd u t where s: "sniff_stream \<Gamma> ?b = Ret (kd, u, t)" and post: "sniff_post ?b (kd, u, t)"
    using sniff_stream_returns [of \<Gamma> ?b] by (auto simp: returns_def)
  have u: "u \<le> length ?b" using post by (simp add: sniff_post_def)
  have m: "ev_ok (s_evidence p)" "s_http p = http_parser0" "s_tls p = tls_parser0" "s_upgrade p = None"
    using mid k by (auto simp: parser_mid_def)
  have asc: "is_ascii (drop u ?b)" "is_ascii ?b" if "ascii_input p d"
  proof -
    have "is_ascii ?b" using that by (simp add: ascii_input_def)
    then show "is_ascii (drop u ?b)" "is_ascii ?b" by (rule is_ascii_drop) fact
  qed
  have risk: "upgrade_risk p" using k by (auto simp: upgrade_risk_def)
  note defs = step_post_def parser_mid_def parser_ok_def ascii_input_def max_sniff_bytes_def
  show ?thesis
  proof (cases kd)
    case SMore
    have "sniff_turn \<Gamma> p d = Ret (?q, Done None)" unfolding sniff_turn_def Let_def by (simp add: s SMore)
    then show ?thesis using SMore post m k by (auto simp: defs sniff_post_def)
  next
    case SOther
    have "sniff_turn \<Gamma> p d = Ret ((if s_kind ?q = KProxy then ?q\<lparr>s_opaque := True\<rparr> else set_kind KOther ?q)\<lparr>s_sniff := []\<rparr>, Done None)"
      unfolding sniff_turn_def Let_def by (simp add: s SOther)
    then show ?thesis using m k by (auto simp: defs)
  next
    case STls
    have "sniff_turn \<Gamma> p d = Ret ((set_kind KTls ?q)\<lparr>s_sniff := []\<rparr>, Feed ?b)" unfolding sniff_turn_def Let_def by (simp add: s STls)
    then show ?thesis using m risk by (simp add: defs)
  next
    case SHttp
    have "sniff_turn \<Gamma> p d = Ret ((set_kind KHttp ?q)\<lparr>s_sniff := []\<rparr>, Feed ?b)" unfolding sniff_turn_def Let_def by (simp add: s SHttp)
    then show ?thesis using m risk by (simp add: defs)
  next
    case SUpgrade
    have "sniff_turn \<Gamma> p d = Ret ((set_kind KUpgrade ?q)\<lparr>s_upgrade := Some (upgrade_state0 t), s_sniff := []\<rparr>, Feed ?b)"
      unfolding sniff_turn_def Let_def by (simp add: s SUpgrade)
    then show ?thesis using m risk post SUpgrade by (simp add: defs sniff_post_def)
  next
    case SHttp2
    have "sniff_turn \<Gamma> p d = Ret ((set_kind KHttp2 ?q)\<lparr>s_h2 := Some h2_parser0, s_sniff := []\<rparr>, Feed (drop u ?b))"
      unfolding sniff_turn_def Let_def by (simp add: s SHttp2 gfrom_in [OF u])
    then show ?thesis using m risk asc by (simp add: defs)
  next
    case SSocks4
    have "sniff_turn \<Gamma> p d = Ret (?q\<lparr>s_evidence := (s_evidence p)\<lparr>e_kind := KProxy, e_proxy := t,
           e_proxy_via := lit ''SOCKS4''\<rparr>, s_sniff := []\<rparr>, Feed (drop u ?b))"
      unfolding sniff_turn_def Let_def by (simp add: s SSocks4 gfrom_in [OF u])
    then show ?thesis using m risk asc by (simp add: defs)
  next
    case SSocks5
    have "sniff_turn \<Gamma> p d = Ret (?q\<lparr>s_evidence := (s_evidence p)\<lparr>e_kind := KProxy, e_proxy := t,
           e_proxy_via := lit ''SOCKS5''\<rparr>, s_sniff := []\<rparr>, Feed (drop u ?b))"
      unfolding sniff_turn_def Let_def by (simp add: s SSocks5 gfrom_in [OF u])
    then show ?thesis using m risk asc by (simp add: defs)
  next
    case SPreamble
    have q: "s_sniff ?q = ?b" "s_evidence ?q = s_evidence p" by simp_all
    let ?p1 = "?q\<lparr>s_evidence := (s_evidence p)\<lparr>e_proxy_client := t\<rparr>\<rparr>"
    have "16 \<le> u" if "has_prefix ?b proxy_v2_signature" using that post SPreamble by (simp add: sniff_post_def)
    then have "returns (if has_prefix ?b proxy_v2_signature then gbind (gslice ?b 0 u) (proxy_v2_authority \<Gamma>) else Ret (Some [])) (\<lambda>_. True)"
      using u by (auto intro!: returns_mono [OF proxy_v2_authority_returns])
    then obtain a where a: "(if has_prefix ?b proxy_v2_signature then gbind (gslice ?b 0 u) (proxy_v2_authority \<Gamma>) else Ret (Some [])) = Ret a"
      by (auto simp: returns_def)
    have "sniff_turn \<Gamma> p d = (case a of None \<Rightarrow> Ret (?p1, Done (Some (Msg ''invalid PROXY v2 TLV'')))
           | Some a \<Rightarrow> Ret (?p1\<lparr>s_evidence := (if a \<noteq> [] then (s_evidence ?p1)\<lparr>e_proxy_authority := Some a\<rparr> else s_evidence ?p1),
                 s_sniff := []\<rparr>, Feed (drop u ?b)))"
      unfolding sniff_turn_def Let_def q
      by (cases a) (simp_all only: s gbind.simps prod.case sniffed.case SPreamble a gfrom_in [OF u] option.case q)
    then show ?thesis using m risk asc k by (cases a) (auto simp: defs)
  qed
qed

lemma ev_ok_names: "same_names e e' \<Longrightarrow> hosts_ok e' \<Longrightarrow> ev_ok e \<Longrightarrow> ev_ok e'"
  by (simp add: ev_ok_def same_names_def ev_printable_def)

lemma http_feed_turn_post:
  assumes mid: "parser_mid p d" and k: "s_kind p = KHttp"
  shows "step_post p d (http_feed_turn \<Gamma> p d)"
proof -
  have m: "ev_ok (s_evidence p)" "http_ok (s_http p)" "s_tls p = tls_parser0" "s_upgrade p = None" "s_sniff p = []"
    using mid k by (auto simp: parser_mid_def)
  obtain q e er where f: "http_feed \<Gamma> (s_http p) d (s_evidence p) = Ret (q, e, er)" and post: "http_post (q, e, er)"
    using http_feed_returns [of "s_evidence p" "s_http p" \<Gamma> d] m by (auto simp: returns_def ev_ok_def)
  have e: "ev_ok e" "e_kind e = KHttp"
    using ev_ok_names [OF http_feed_names [OF f]] http_feed_names [OF f] post m k
    by (auto simp: http_post_def same_names_def)
  let ?p1 = "p\<lparr>s_http := q, s_evidence := e\<rparr>"
  note defs = step_post_def parser_mid_def parser_ok_def ascii_input_def max_sniff_bytes_def
  have risk: "upgrade_risk p" using k by (simp add: upgrade_risk_def)
  show ?thesis
  proof (cases "er = None \<and> p_state q \<in> {HttpTunnel, HttpH2C}")
    case False
    then have "http_feed_turn \<Gamma> p d = Ret (?p1, Done er)"
      by (auto simp: http_feed_turn_def f Let_def)
    moreover have "http_ok q" if "er = None" using that False post by (auto simp: http_ok_def http_post_def)
    ultimately show ?thesis using m e by (auto simp: defs)
  next
    case tun: True
    have t: "tail_of q (p_buffer (s_http p) @ d)"
      using http_feed_buffer [OF f] m tun by (simp add: http_ok_def)
    then have asc: "is_ascii (p_buffer q)" if "ascii_input p d"
      using that is_ascii_drop by (auto simp: tail_of_def ascii_input_def simp del: drop_append)
    show ?thesis
    proof (cases "p_state q = HttpTunnel")
      case True
      then have "http_feed_turn \<Gamma> p d = Ret ((set_kind KProxy ?p1)\<lparr>s_http := http_parser0\<rparr>, Feed (p_buffer q))"
        using tun by (simp add: http_feed_turn_def f Let_def)
      then show ?thesis using m e asc risk by (simp add: defs)
    next
      case False
      then have h2c: "p_state q = HttpH2C" using tun by simp
      then have "has_prefix (p_buffer q) h2_preface" using post tun by (simp add: http_post_def http_rest_def)
      then have l: "length h2_preface \<le> length (p_buffer q)" by (rule has_prefix_length)
      have "http_feed_turn \<Gamma> p d = Ret ((set_kind KHttp2 ?p1)\<lparr>s_http := http_parser0, s_h2 := Some h2_parser0\<rparr>,
          Feed (drop (length h2_preface) (p_buffer q)))"
        using tun False h2c l by (simp add: http_feed_turn_def f Let_def)
      then show ?thesis using m e asc risk is_ascii_drop by (simp add: defs)
    qed
  qed
qed

lemma upgrade_search_ready: "upgrade_search v = Ret (Some w, h) \<Longrightarrow> u_ready w = u_ready v"
  by (auto simp: upgrade_search_def go_eqs split: option.splits if_splits)

lemma upgrade_feed_waiting:
  assumes "upgrade_feed \<Gamma> u d = Ret (Some v, h)" and "\<not> u_ready v"
  shows "\<not> u_ready u \<and> u_data v = u_data u @ d \<and> u_protocol v = u_protocol u"
proof -
  let ?u2 = "u\<lparr>u_bytes := u_bytes u + length d, u_data := u_data u @ d\<rparr>"
  from assms(1) consider "u_ready u" "upgrade_search ?u2 = Ret (Some v, h)" | "\<not> u_ready u" "v = ?u2"
    | k r where "upgrade_search (?u2\<lparr>u_protocol := k, u_ready := True, u_data := r\<rparr>) = Ret (Some v, h)"
    by (auto simp: upgrade_feed_def go_eqs Let_def split: if_splits)
  then show ?thesis using assms(2) by cases (auto dest: upgrade_search_ready)
qed

lemma upgrade_point_not_Fail: "upgrade_point \<Gamma> b k \<noteq> Fail er"
proof -
  have m: "upgrade_markers upper ms \<noteq> Fail er" for upper ms
    using upgrade_markers_bound [of upper ms] by (auto simp: returns_def)
  show ?thesis
    unfolding upgrade_point_def by (auto simp: gbind_eq_Fail m split: option.splits)
qed

lemma upgrade_feed_result:
  assumes ok: "upgrade_ok u"
  shows "upgrade_feed \<Gamma> u d \<noteq> Fail er" and "upgrade_feed \<Gamma> u d = Ret r \<Longrightarrow> upgrade_post r"
proof -
  let ?u2 = "u\<lparr>u_bytes := u_bytes u + length d, u_data := u_data u @ d\<rparr>"
  have "upgrade_feed \<Gamma> u d \<noteq> Fail er \<and> (upgrade_feed \<Gamma> u d = Ret r \<longrightarrow> upgrade_post r)"
  proof (cases "u_bytes u + length d > max_upgrade_bytes")
    case True
    then show ?thesis by (auto simp: upgrade_feed_def upgrade_post_def)
  next
    case False
    have search: "returns (upgrade_search w) upgrade_post" if "length (u_data w) \<le> u_bytes w" "u_bytes w = u_bytes ?u2" for w
      by (rule upgrade_search_returns) (use that False in simp_all)
    show ?thesis
    proof (cases "u_ready u")
      case True
      then show ?thesis using search [of ?u2] ok False
        by (auto simp: upgrade_feed_def returns_def upgrade_ok_def Let_def)
    next
      case fresh: False
      show ?thesis
      proof (cases "upgrade_point \<Gamma> (u_data ?u2) (u_protocol u)")
        case (Ret x)
        obtain n k where x: "x = (n, k)" by (cases x)
        have stay: "upgrade_post (Some ?u2, [])" using ok False fresh by (auto simp: upgrade_post_def upgrade_ok_def)
        show ?thesis
        proof (cases "0 < n \<and> n \<le> length (u_data ?u2)")
          case True
          let ?w = "?u2\<lparr>u_protocol := k, u_ready := True, u_data := drop n (u_data ?u2)\<rparr>"
          have "returns (upgrade_search ?w) upgrade_post" by (rule search) (use ok in \<open>auto simp: upgrade_ok_def\<close>)
          moreover have "upgrade_feed \<Gamma> u d = upgrade_search ?w"
            using False fresh Ret x True by (simp add: upgrade_feed_def Let_def)
          ultimately show ?thesis by (auto simp: returns_def)
        next
          case no: False
          have "upgrade_feed \<Gamma> u d = (if n = 0 then Ret (Some ?u2, []) else Panic)"
            using False fresh Ret x no by (auto simp: upgrade_feed_def gfrom_def Let_def)
          then show ?thesis using stay by auto
        qed
      next
        case (Fail x)
        then show ?thesis using upgrade_point_not_Fail by blast
      next
        case Panic
        then show ?thesis using False fresh by (simp add: upgrade_feed_def)
      qed
    qed
  qed
  then show "upgrade_feed \<Gamma> u d \<noteq> Fail er" and "upgrade_feed \<Gamma> u d = Ret r \<Longrightarrow> upgrade_post r" by auto
qed

lemma upgrade_search_tail: "upgrade_search v = Ret (w, h) \<Longrightarrow> is_ascii (u_data v) \<Longrightarrow> is_ascii h"
  using find_hello_returns [of "u_data v" 0] is_ascii_drop
  by (auto simp: upgrade_search_def go_eqs returns_def split: option.splits if_splits)

lemma upgrade_feed_ascii:
  assumes "upgrade_feed \<Gamma> u d = Ret (v, h)" and "is_ascii (u_data u)" "is_ascii d"
  shows "is_ascii h"
proof -
  have asc: "is_ascii (u_data u @ d)" using assms by simp
  let ?u2 = "u\<lparr>u_bytes := u_bytes u + length d, u_data := u_data u @ d\<rparr>"
  from assms(1) consider "h = []" | "upgrade_search ?u2 = Ret (v, h)"
    | k n where "upgrade_search (?u2\<lparr>u_protocol := k, u_ready := True, u_data := drop n (u_data u @ d)\<rparr>) = Ret (v, h)"
    by (auto simp: upgrade_feed_def gbind_eq_Ret gfrom_eq_Ret Let_def simp del: drop_append split: if_splits)
  then show ?thesis using upgrade_search_tail is_ascii_drop [OF asc] asc
    by cases (simp, fastforce, fastforce simp del: drop_append)
qed

lemma upgrade_step_post:
  assumes mid: "parser_mid p d" and k: "s_kind p = KUpgrade"
  shows "step_post p d (parser_step \<Gamma> p d)"
proof -
  from mid k obtain u where u: "s_upgrade p = Some u" "upgrade_ok u"
      "u_ready u \<or> upgrade_start (u_protocol u) \<le> length (u_data u @ d)"
    and m: "ev_ok (s_evidence p)" "s_http p = http_parser0" "s_tls p = tls_parser0" "s_sniff p = []"
    by (auto simp: parser_mid_def)
  note defs = step_post_def parser_mid_def parser_ok_def ascii_input_def max_sniff_bytes_def
  show ?thesis
  proof (cases "upgrade_feed \<Gamma> u d")
    case (Ret r)
    obtain v h where r: "r = (v, h)" by (cases r)
    have post: "upgrade_post (v, h)" using upgrade_feed_result(2) [OF u(2) Ret] r by simp
    show ?thesis
    proof (cases v)
      case None
      then have "h = []" using post by (auto simp: upgrade_post_def)
      then have "parser_step \<Gamma> p d = Ret ((set_kind KOther p)\<lparr>s_upgrade := None\<rparr>, Done None)"
        using k u Ret r None by (simp add: parser_step_def feed_upgrade_def)
      then show ?thesis using m by (simp add: defs)
    next
      case (Some w)
      show ?thesis
      proof (cases "h = []")
        case True
        then have "parser_step \<Gamma> p d = Ret (p\<lparr>s_upgrade := Some w\<rparr>, Done None)"
          using k u Ret r Some by (simp add: parser_step_def feed_upgrade_def)
        moreover have "u_ready w \<or> upgrade_start (u_protocol w) \<le> length (u_data w)"
          using upgrade_feed_waiting [of \<Gamma> u d w h] Ret r Some u(3) by (cases "u_ready w") auto
        ultimately show ?thesis using m k post True Some by (auto simp: defs upgrade_post_def)
      next
        case False
        then have "parser_step \<Gamma> p d = Ret (p\<lparr>s_evidence := (s_evidence p)\<lparr>e_kind := KTls, e_upgrade := Some (u_protocol w)\<rparr>,
             s_upgrade := None\<rparr>, Feed h)"
          using k u Ret r Some by (simp add: parser_step_def feed_upgrade_def)
        then show ?thesis using m upgrade_feed_ascii [of \<Gamma> u d v h] Ret r u by (auto simp: defs upgrade_risk_def)
      qed
    qed
  next
    case (Fail er)
    then show ?thesis using upgrade_feed_result(1) [OF u(2)] by blast
  next
    case Panic
    then have "\<not> u_ready u \<and> \<not> is_ascii (u_data u @ d)"
      using upgrade_feed_returns [OF u(2) _ u(3), of \<Gamma>] by (auto simp: returns_def)
    then have "\<not> ascii_input p d" "upgrade_risk p" using u k by (auto simp: ascii_input_def upgrade_risk_def)
    moreover have "parser_step \<Gamma> p d = Panic" using Panic k u by (simp add: parser_step_def feed_upgrade_def)
    ultimately show ?thesis by (simp add: defs)
  qed
qed

lemma parser_step_post:
  assumes mid: "parser_mid p d"
  shows "step_post p d (parser_step \<Gamma> p d)"
proof -
  have m: "ev_ok (s_evidence p)" "tls_ok (s_tls p)" using mid by (auto simp: parser_mid_def)
  note defs = step_post_def parser_mid_def parser_ok_def max_sniff_bytes_def
  show ?thesis
  proof (cases "s_kind p")
    case KNone
    then show ?thesis using sniff_turn_post [OF mid] by (simp add: parser_step_def)
  next
    case KProxy
    then show ?thesis using sniff_turn_post [OF mid] by (simp add: parser_step_def)
  next
    case KHttp
    then show ?thesis using http_feed_turn_post [OF mid] by (simp add: parser_step_def)
  next
    case KUpgrade
    then show ?thesis using upgrade_step_post [OF mid] by simp
  next
    case KTls
    obtain q e er where f: "tls_feed \<Gamma> (s_tls p) d (s_evidence p) = Ret (q, e, er)" and post: "tls_post (s_evidence p) (q, e, er)"
      using tls_feed_returns [of "s_tls p" "s_evidence p" \<Gamma> d] m by (auto simp: returns_def ev_ok_def)
    then show ?thesis using KTls mid
      by (auto simp: parser_step_def defs tls_post_def ev_ok_def hosts_ok_def)
  next
    case KHttp2
    then obtain q where q: "s_h2 p = Some q" "h2_ok q" using mid by (auto simp: parser_mid_def)
    obtain q' e er where f: "h2_feed \<Gamma> q d (s_evidence p) = Ret (q', e, er)" and post: "h2_post q (q', e, er)"
      using h2_feed_returns [of "s_evidence p" q \<Gamma> d] m q by (auto simp: returns_def ev_ok_def)
    have "ev_ok e" "e_kind e = KHttp2" using ev_ok_names [OF h2_feed_names [OF f]] h2_feed_names [OF f] post m KHttp2
      by (auto simp: h2_post_def same_names_def)
    then show ?thesis using KHttp2 q f post mid by (simp add: parser_step_def defs h2_post_def)
  qed (use mid in \<open>simp_all add: parser_step_def defs\<close>)
qed

text \<open>
  A feed returns and keeps the invariant, or it panics in the upgrade parser on bytes that are not
  ASCII; it does not panic once the connection is TLS or HTTP/2 or the upgrade command was found.
\<close>

definition feed_post :: "parser \<times> err option \<Rightarrow> bool" where
  "feed_post r \<longleftrightarrow> ev_ok (s_evidence (fst r)) \<and> (snd r = None \<longrightarrow> parser_ok (fst r))"

lemma parser_feed_cases:
  "parser_mid p d \<Longrightarrow> returns (parser_feed \<Gamma> p d) feed_post
     \<or> parser_feed \<Gamma> p d = Panic \<and> \<not> ascii_input p d \<and> upgrade_risk p"
proof (induction "(p, d)" arbitrary: p d rule: wf_induct_rule [OF wf_feed_order])
  case (1 p d)
  note post = parser_step_post [OF "1.prems", of \<Gamma>]
  show ?case
  proof (cases "parser_step \<Gamma> p d")
    case (Ret r)
    obtain p' t where r: "r = (p', t)" by (cases r)
    show ?thesis
    proof (cases t)
      case (Done er)
      then show ?thesis using Ret r post
        by (simp add: parser_feed.simps [of \<Gamma> p] step_post_def feed_post_def)
    next
      case (Feed d')
      have "((p', d'), (p, d)) \<in> feed_order" using Ret r Feed by (intro parser_step_next) simp
      from "1.hyps" [OF this] Ret r Feed post show ?thesis
        by (auto simp: parser_feed.simps [of \<Gamma> p] step_post_def)
    qed
  next
    case (Fail er)
    then show ?thesis using post by (simp add: step_post_def)
  next
    case Panic
    then show ?thesis using post by (simp add: parser_feed.simps [of \<Gamma> p] step_post_def)
  qed
qed

lemma parser_ok0: "parser_ok parser0"
  by (simp add: parser_ok_def parser_mid_def parser0_def evidence0_def ev_ok_def hosts_ok_def ev_printable_def
      max_http_hosts_def printable_def max_sniff_bytes_def)

lemma parser_ok_mid: "parser_ok p \<Longrightarrow> parser_mid p d"
  unfolding parser_ok_def parser_mid_def by fastforce

text \<open>
  What one turn does to the tunnel flag and to the ways into the upgrade parser.
\<close>

definition turn_frame :: "parser \<Rightarrow> parser \<times> feed_turn \<Rightarrow> bool" where
  "turn_frame p r \<longleftrightarrow> (case r of (p', t) \<Rightarrow>
     (s_opaque p' = s_opaque p \<or> s_kind p' = KProxy \<and> t = Done None) \<and> (upgrade_risk p' \<longrightarrow> upgrade_risk p))"

lemma sniff_turn_frame:
  assumes r: "sniff_turn \<Gamma> p d = Ret r" and k: "s_kind p \<in> {KNone, KProxy}"
  shows "turn_frame p r"
proof -
  let ?b = "s_sniff p @ d" and ?q = "p\<lparr>s_sniff := s_sniff p @ d\<rparr>"
  have risk: "upgrade_risk p" using k by (auto simp: upgrade_risk_def)
  have q: "s_sniff ?q = ?b" "s_evidence ?q = s_evidence p" by simp_all
  obtain kd u t where s: "sniff_stream \<Gamma> ?b = Ret (kd, u, t)"
    using sniff_stream_returns [of \<Gamma> ?b] by (auto simp: returns_def)
  note turn = r [unfolded sniff_turn_def Let_def q s gbind.simps prod.case]
  show ?thesis
  proof (cases kd)
    case SPreamble
    note t = turn [unfolded SPreamble sniffed.case]
    from t obtain a where "case a of None \<Rightarrow> \<exists>x. r = (x, Done (Some (Msg ''invalid PROXY v2 TLV''))) \<and> s_opaque x = s_opaque p
       | Some a \<Rightarrow> \<exists>x y. r = (x, Feed y) \<and> s_opaque x = s_opaque p"
      by (fastforce simp: gbind_eq_Ret split: option.split_asm)
    then show ?thesis using risk by (auto simp: turn_frame_def split: option.splits)
  qed (use turn risk in \<open>auto simp: turn_frame_def gbind_eq_Ret set_kind_def split: if_split_asm\<close>)
qed

lemma http_feed_turn_frame: "http_feed_turn \<Gamma> p d = Ret r \<Longrightarrow> s_kind p = KHttp \<Longrightarrow> turn_frame p r"
  unfolding http_feed_turn_def Let_def turn_frame_def
  by (auto simp: gbind_eq_Ret upgrade_risk_def set_kind_def split: if_split_asm)

lemma parser_step_frame:
  assumes s: "parser_step \<Gamma> p d = Ret r" and mid: "parser_mid p d"
  shows "turn_frame p r"
proof (cases "s_kind p")
  case KNone
  then show ?thesis using s sniff_turn_frame by (simp add: parser_step_def)
next
  case KProxy
  then show ?thesis using s sniff_turn_frame by (simp add: parser_step_def)
next
  case KHttp
  then show ?thesis using s http_feed_turn_frame by (simp add: parser_step_def)
next
  case KTls
  have "returns (tls_feed \<Gamma> (s_tls p) d (s_evidence p)) (tls_post (s_evidence p))"
    using mid by (intro tls_feed_returns) (auto simp: parser_mid_def ev_ok_def)
  then show ?thesis using s KTls by (auto simp: parser_step_def turn_frame_def upgrade_risk_def returns_def tls_post_def)
next
  case KHttp2
  then show ?thesis using s h2_feed_names
    by (force simp: parser_step_def gbind_eq_Ret turn_frame_def upgrade_risk_def same_names_def split: option.splits)
next
  case KUpgrade
  then show ?thesis using s upgrade_feed_waiting
    by (fastforce simp: parser_step_def feed_upgrade_def gbind_eq_Ret turn_frame_def upgrade_risk_def set_kind_def split: option.splits if_split_asm)
qed (use s in \<open>auto simp: parser_step_def turn_frame_def\<close>)

lemma parser_feed_frame:
  "parser_feed \<Gamma> p d = Ret (p', er) \<Longrightarrow> parser_mid p d \<Longrightarrow>
     (s_opaque p' = s_opaque p \<or> s_kind p' = KProxy \<and> er = None) \<and> (upgrade_risk p' \<longrightarrow> upgrade_risk p)"
proof (induction "(p, d)" arbitrary: p d rule: wf_induct_rule [OF wf_feed_order])
  case (1 p d)
  obtain p1 t where s: "parser_step \<Gamma> p d = Ret (p1, t)" using "1.prems"(1)
    by (cases "parser_step \<Gamma> p d") (auto simp: parser_feed.simps [of \<Gamma> p])
  have r: "case t of Done x \<Rightarrow> p' = p1 \<and> er = x | Feed d1 \<Rightarrow> parser_feed \<Gamma> p1 d1 = Ret (p', er)"
    using "1.prems"(1) s by (simp add: parser_feed.simps [of \<Gamma> p] split: feed_turn.splits)
  have f: "turn_frame p (p1, t)" by (rule parser_step_frame [OF s "1.prems"(2)])
  show ?case
  proof (cases t)
    case (Done x)
    then show ?thesis using r f by (simp add: turn_frame_def)
  next
    case (Feed d1)
    then have o: "((p1, d1), (p, d)) \<in> feed_order" using s by (intro parser_step_next) simp
    have "(s_opaque p' = s_opaque p1 \<or> s_kind p' = KProxy \<and> er = None) \<and> (upgrade_risk p' \<longrightarrow> upgrade_risk p1)"
      by (rule "1.hyps" [OF o]) (use r Feed s parser_step_post [OF "1.prems"(2), of \<Gamma>] in \<open>auto simp: step_post_def\<close>)
    then show ?thesis using f Feed by (auto simp: turn_frame_def)
  qed
qed

text \<open>The bytes of \<open>bad_starttls\<close> as the first bytes of a client: the program ends with a panic.\<close>

lemma parser_feed_bad_starttls:
  assumes "unicode_upper (uni_upper \<Gamma>)"
  shows "parser_feed \<Gamma> parser0 bad_starttls = Panic"
proof -
  have p: "upgrade_protocol \<Gamma> bad_starttls = Ret (lit ''smtp-starttls'')" by (rule upgrade_protocol_bad_starttls [OF assms])
  have s: "sniff_stream \<Gamma> bad_starttls = Ret (SUpgrade, 0, lit ''smtp-starttls'')"
  proof -
    have c: "all_c [Ret (2 \<le> length bad_starttls), gbyte bad_starttls 0 (\<lambda>x. x = 22), gbyte bad_starttls 1 (\<lambda>x. x = 3)] = Ret False"
      "all_c [Ret (0 < length bad_starttls), gbyte bad_starttls 0 (\<lambda>x. x = 5)] = Ret False"
      "all_c [Ret (0 < length bad_starttls), gbyte bad_starttls 0 (\<lambda>x. x = 4)] = Ret False"
      "gslice bad_starttls 0 (min (length bad_starttls) (length proxy_v2_signature)) = Ret (take 12 bad_starttls)"
      "has_prefix proxy_v2_signature (take 12 bad_starttls) = False"
      "gslice bad_starttls 0 (min (length bad_starttls) 6) = Ret (take 6 bad_starttls)"
      "gslice (lit ''PROXY '') 0 (min (length bad_starttls) 6) = Ret (lit ''PROXY '')"
      "(take 6 bad_starttls = lit ''PROXY '') = False"
      "has_prefix bad_starttls h2_preface = False" "has_prefix h2_preface bad_starttls = False"
      "all_c [Ret (8 \<le> length bad_starttls), looks_like_http bad_starttls] = Ret False" "length bad_starttls < 8 = False"
      by code_simp+
    have e: "lit ''smtp-starttls'' \<noteq> []" by (simp add: lit_def)
    show ?thesis unfolding sniff_stream_def sniff_text_def c gbind.simps if_False p using e by simp
  qed
  have "parser_step \<Gamma> parser0 bad_starttls = Ret ((set_kind KUpgrade parser0)\<lparr>s_upgrade := Some (upgrade_state0 (lit ''smtp-starttls'')), s_sniff := []\<rparr>, Feed bad_starttls)"
    by (simp add: parser_step_def parser0_def evidence0_def sniff_turn_def Let_def s set_kind_def)
  then show ?thesis
    by (simp add: parser_feed.simps parser_step_def feed_upgrade_def upgrade_feed_bad_starttls [OF assms])
qed

section \<open>Skipping\<close>

text \<open>Where the code skips uncaptured bytes, any bytes of that number would have had the same effect.\<close>

lemma parser_skip_feed:
  assumes ok: "parser_ok p" and s: "parser_skip p (length d) = Ret p'" and d: "d \<noteq> []" and run: "\<not> parser_finished p"
  shows "parser_feed \<Gamma> p d = Ret (p', None)"
proof -
  have mid: "parser_mid p []" using ok by (simp add: parser_ok_def)
  consider q where "s_kind p = KHttp" "http_skip (s_http p) (length d) = Some q" "p' = p\<lparr>s_http := q\<rparr>"
    | q q' where "s_kind p = KHttp2" "s_h2 p = Some q" "h2_skip q (length d) = Some q'" "p' = p\<lparr>s_h2 := Some q'\<rparr>"
    using s run by (auto simp: parser_skip_def split: if_splits option.splits)
  then show ?thesis
  proof cases
    case (1 q)
    have f: "http_feed \<Gamma> (s_http p) d (s_evidence p) = Ret (q, s_evidence p, None)"
      by (rule http_skip_feed) (use 1 d mid in \<open>auto simp: parser_mid_def\<close>)
    have "p_state q \<notin> {HttpTunnel, HttpH2C}"
      using 1(2) by (auto simp: http_skip_def Let_def split: if_splits)
    then show ?thesis using 1 f
      by (simp add: parser_feed.simps [of \<Gamma> p] parser_step_def http_feed_turn_def Let_def)
  next
    case (2 q q')
    have "h2_feed \<Gamma> q d (s_evidence p) = Ret (q', s_evidence p, None)"
      by (rule h2_skip_feed) (use 2 d mid run in \<open>auto simp: parser_mid_def parser_finished_def\<close>)
    then show ?thesis using 2 by (simp add: parser_feed.simps [of \<Gamma> p] parser_step_def)
  qed
qed

text \<open>A finished parser keeps its evidence whatever bytes follow.\<close>

lemma parser_finished_feed:
  assumes "parser_finished p" and "s_kind p \<noteq> KProxy"
  shows "parser_feed \<Gamma> p d = Ret (p, None)"
  using assms
  by (auto simp: parser_feed.simps [of \<Gamma> p] parser_step_def parser_finished_def tls_feed_def http_feed_turn_def
      http_feed_def h2_feed.simps [of \<Gamma> _ d] split: kind.splits option.splits)

end
