(* ===== verification/Server_Hello.thy ===== *)
theory Server_Hello imports Tls_Hello begin

text \<open>
  What the plaintext start of a TLS server's reply says (\<^verbatim>\<open>internal/domain/tls_server.go\<close>): the version
  and protocol of the ServerHello, the names of the leaf certificate found by a DER walk, and the names of alerts.

  The lemmas show that no input makes the parsers index out of range, that the names they find are
  printable and at most eight, and that \<open>der_element\<close> takes an encoded element off again.
\<close>

section \<open>The ServerHello\<close>

function server_exts :: "cursor \<Rightarrow> u16 \<Rightarrow> bytes \<Rightarrow> (u16 \<times> bytes) go" where
  "server_exts ec version alpn = (if c_off ec < length (c_data ec) then
     gbind (c_uint16 ec) (\<lambda>(kind, ec1). gbind (c_uint16 ec1) (\<lambda>(len, ec2). gbind (c_take ec2 len) (\<lambda>(body, ec3).
       if kind = 43 then
         (if length body \<noteq> 2 then Fail (Msg ''invalid TLS supported_versions'')
          else gbind (be16 body) (\<lambda>v. server_exts ec3 v alpn))
       else if kind = 16 then
         gbind (parse_alpn body) (\<lambda>protocols.
           server_exts ec3 version (if length protocols = 1 then hd protocols else alpn))
       else server_exts ec3 version alpn)))
     else Ret (version, alpn))"
  by pat_completeness auto
termination
  by (relation "measure (\<lambda>(ec, v, a). length (c_data ec) - c_off ec)")
     (auto simp: c_adv_def dest!: c_uint16_Ret c_take_Ret)

declare server_exts.simps [simp del]

definition parse_server_hello :: "bytes \<Rightarrow> (u16 \<times> bytes) go" where
  "parse_server_hello data =
     gbind (c_uint16 (cursor_of data)) (\<lambda>(legacy, c1).
     gbind (c_take c1 32) (\<lambda>(random, c2).
     gbind (c_uint8 c2) (\<lambda>(session_len, c3).
     gbind (c_take c3 (session_len + 3)) (\<lambda>(session, c4).
     let version = of_nat legacy in
     if c_off c4 = length (c_data c4) then Ret (version, [])
     else gbind (c_uint16 c4) (\<lambda>(extensions_len, c5).
     gbind (gfail_as (c_take c5 extensions_len) (Msg ''invalid TLS extensions length'')) (\<lambda>(extensions, c6).
     if c_off c6 \<noteq> length (c_data c6) then Fail (Msg ''invalid TLS extensions length'')
     else server_exts (cursor_of extensions) version []))))))"

definition tls_version_name :: "u16 \<Rightarrow> bytes" where
  "tls_version_name version =
     (if version = 0x0300 then lit ''SSL 3.0''
      else if 0x0301 \<le> version \<and> version \<le> 0x0304 then lit ''TLS 1.'' @ dec (unat (version - 0x0301))
      else lit ''TLS version 0x'' @ pad_zero 4 (hex (unat version)))"

lemma server_exts_wp:
  "c_ok ec \<Longrightarrow> printable a \<Longrightarrow> gwp (server_exts ec v a) (\<lambda>(v', a'). printable a')"
proof (induction ec arbitrary: v a rule: cursor_induct)
  case (1 ec)
  show ?case
  proof (cases "c_off ec < length (c_data ec)")
    case True
    have alpn: "gwp (gbind (parse_alpn body) (\<lambda>protocols. server_exts c v (if length protocols = 1 then hd protocols else a)))
        (\<lambda>(v', a'). printable a')"
      if "c_data c = c_data ec" "c_off ec < c_off c" "c_off c \<le> length (c_data ec)" for body c
    proof (rule gwp_bindI [OF parse_alpn_wp])
      fix ps assume "list_all printable ps"
      then have "printable (if length ps = 1 then hd ps else a)" using 1(3) by (cases ps) auto
      then show "gwp (server_exts c v (if length ps = 1 then hd ps else a)) (\<lambda>(v', a'). printable a')"
        using 1(1) [OF that] that by (simp add: c_ok_def)
    qed
    show ?thesis
      unfolding server_exts.simps [of ec] if_P [OF True]
      apply (rule gwp_bindI [OF c_uint16_wp [OF 1(2)]], clarsimp)
      apply (rule gwp_bindI [OF c_uint16_wp], simp, clarsimp)
      apply (rule gwp_bindI [OF c_take_wp], simp, clarsimp)
      using 1(1,3) alpn by (auto simp: c_adv_def c_ok_def wp_simps)
  next
    case False
    then show ?thesis using 1 by (simp add: server_exts.simps [of ec])
  qed
qed

lemma parse_server_hello_wp: "gwp (parse_server_hello d) (\<lambda>(v, a). printable a)"
  unfolding parse_server_hello_def Let_def
  apply (rule gwp_bindI [OF c_uint16_wp], simp, clarsimp)
  apply (rule gwp_bindI [OF c_take_wp], simp, clarsimp)
  apply (rule gwp_bindI [OF c_uint8_wp], simp, clarsimp)
  apply (rule gwp_bindI [OF c_take_wp], simp, clarsimp)
  apply (rule conjI)
   apply (simp add: printable_def)
  apply clarsimp
  apply (rule gwp_bindI [OF c_uint16_wp], simp, clarsimp)
  apply (rule gwp_bindI [OF gwp_fail_as [THEN iffD2, OF c_take_wp]], simp, clarsimp)
  by (rule server_exts_wp) (simp_all add: printable_def)

section \<open>DER\<close>

definition oid_common_name :: bytes where "oid_common_name = [0x55, 0x04, 0x03]"

definition oid_subject_alt_name :: bytes where "oid_subject_alt_name = [0x55, 0x1D, 0x11]"

definition max_certificate_names :: nat where "max_certificate_names = 8"

text \<open>The loop over the length bytes: \<^verbatim>\<open>length = length<<8 | int(c)\<close>.\<close>

definition der_length :: "bytes \<Rightarrow> nat" where
  "der_length bs = fold (\<lambda>c n. n * 256 + unat c) bs 0"

definition der_element :: "bytes \<Rightarrow> (byte \<times> bytes \<times> bytes) option" where
  "der_element b0 = (case b0 of
     tag # l0 # b \<Rightarrow>
       let len0 = unat l0 in
       if len0 < 0x80 then (if len0 > length b then None else Some (tag, take len0 b, drop len0 b))
       else let size = len0 - 0x80 in
         if size = 0 \<or> size > 3 \<or> length b < size then None
         else let len = der_length (take size b); b2 = drop size b in
           if len > length b2 then None else Some (tag, take len b2, drop len b2)
   | _ \<Rightarrow> None)"

lemma der_element_parts:
  "der_element b = Some (t, x, r) \<Longrightarrow> length x + length r + 2 \<le> length b \<and> set x \<subseteq> set b \<and> set r \<subseteq> set b"
  by (auto simp: der_element_def Let_def split: list.splits if_splits dest: in_set_takeD in_set_dropD)

lemma der_element_shrinks: "der_element b = Some (t, x, r) \<Longrightarrow> length r < length b"
  by (drule der_element_parts) simp

text \<open>The contents of the first element, empty when there is none: \<^verbatim>\<open>_, x, _, _ := derElement(b)\<close>.\<close>

definition der_contents :: "bytes \<Rightarrow> bytes" where
  "der_contents b = (case der_element b of Some (t, x, r) \<Rightarrow> x | None \<Rightarrow> [])"

text \<open>The walk over the fields of the certificate: the subject is the fifth, the extensions have tag 3.\<close>

function tbs_fields :: "nat \<Rightarrow> bytes \<Rightarrow> bytes \<Rightarrow> bytes \<Rightarrow> (bytes \<times> bytes) option" where
  "tbs_fields i tbs subject extensions = (if tbs = [] then Some (subject, extensions)
     else case der_element tbs of None \<Rightarrow> None
       | Some (tag, body, rest) \<Rightarrow>
           if i = 4 then tbs_fields (i + 1) rest body extensions
           else tbs_fields (i + 1) rest subject (if tag = 0xA3 then body else extensions))"
  by pat_completeness auto
termination
  by (relation "measure (\<lambda>(i, tbs, s, e). length tbs)") (auto dest: der_element_shrinks)

declare tbs_fields.simps [simp del]

function general_names :: "env \<Rightarrow> bytes \<Rightarrow> bytes list \<Rightarrow> bytes list" where
  "general_names \<Gamma> general names =
     (if general \<noteq> [] \<and> length names < max_certificate_names then
        (case der_element general of None \<Rightarrow> names
         | Some (tag, name, rest) \<Rightarrow> general_names \<Gamma> rest
             (if tag = 0x82 \<and> valid_hostname name then names @ [normalize_name \<Gamma> name] else names))
      else names)"
  by pat_completeness auto
termination
  by (relation "measure (\<lambda>(\<Gamma>, g, n). length g)") (auto dest: der_element_shrinks)

declare general_names.simps [simp del]

text \<open>The value of a subjectAltName extension: its octets, past the critical flag.  \<open>None\<close> breaks the loop.\<close>

definition san_octets :: "bytes \<Rightarrow> bytes option" where
  "san_octets value = (case der_element value of None \<Rightarrow> None
     | Some (tag, octets, rest) \<Rightarrow>
         if tag = 0x01 then (case der_element rest of None \<Rightarrow> None
           | Some (tag2, octets2, r) \<Rightarrow> if tag2 \<noteq> 0x04 then None else Some octets2)
         else if tag \<noteq> 0x04 then None else Some octets)"

function san_names :: "env \<Rightarrow> bytes \<Rightarrow> bytes list \<Rightarrow> bytes list" where
  "san_names \<Gamma> list names = (if list = [] then names else
     case der_element list of None \<Rightarrow> names
     | Some (t, extension, rest) \<Rightarrow>
       (case der_element extension of None \<Rightarrow> san_names \<Gamma> rest names
        | Some (t2, oid, value) \<Rightarrow>
          if oid \<noteq> oid_subject_alt_name then san_names \<Gamma> rest names
          else (case san_octets value of None \<Rightarrow> names
            | Some octets \<Rightarrow> (case der_element octets of None \<Rightarrow> san_names \<Gamma> rest names
                | Some (t3, general, r) \<Rightarrow> san_names \<Gamma> rest (general_names \<Gamma> general names)))))"
  by pat_completeness auto
termination
  by (relation "measure (\<lambda>(\<Gamma>, l, n). length l)") (auto dest: der_element_shrinks)

declare san_names.simps [simp del]

text \<open>The common name in a set of the subject.\<close>

definition common_name :: "env \<Rightarrow> bytes \<Rightarrow> bytes list" where
  "common_name \<Gamma> set_body = (case der_element (der_contents set_body) of None \<Rightarrow> []
     | Some (t, oid, value) \<Rightarrow> if oid \<noteq> oid_common_name then []
         else (case der_element value of None \<Rightarrow> []
           | Some (t2, name, r) \<Rightarrow> if valid_hostname name then [normalize_name \<Gamma> name] else []))"

function subject_names :: "env \<Rightarrow> bytes \<Rightarrow> bytes list \<Rightarrow> bytes list" where
  "subject_names \<Gamma> subject names = (if names = [] \<and> subject \<noteq> [] then
     (case der_element subject of None \<Rightarrow> names
      | Some (t, set_body, rest) \<Rightarrow> subject_names \<Gamma> rest (names @ common_name \<Gamma> set_body))
     else names)"
  by pat_completeness auto
termination
  by (relation "measure (\<lambda>(\<Gamma>, s, n). length s)") (auto dest: der_element_shrinks)

declare subject_names.simps [simp del]

definition certificate_names :: "env \<Rightarrow> bytes \<Rightarrow> bytes list" where
  "certificate_names \<Gamma> certificate0 =
     (case der_element certificate0 of None \<Rightarrow> []
      | Some (t, certificate, r) \<Rightarrow>
     (case der_element certificate of None \<Rightarrow> []
      | Some (t2, tbs0, r2) \<Rightarrow>
        let tbs = (case der_element tbs0 of Some (tag, x, rest) \<Rightarrow> if tag = 0xA0 then rest else tbs0 | None \<Rightarrow> tbs0) in
     (case tbs_fields 0 tbs [] [] of None \<Rightarrow> []
      | Some (subject, extensions) \<Rightarrow>
        subject_names \<Gamma> subject (san_names \<Gamma> (der_contents extensions) []))))"

subsection \<open>The names are few and printable\<close>

definition names_ok :: "bytes list \<Rightarrow> bool" where
  "names_ok names \<longleftrightarrow> list_all printable names \<and> length names \<le> max_certificate_names"

lemma general_names_ok: "names_ok names \<Longrightarrow> names_ok (general_names \<Gamma> general names)"
proof (induction \<Gamma> general names rule: general_names.induct)
  case (1 \<Gamma> general names)
  show ?case
  proof (cases "general \<noteq> [] \<and> length names < max_certificate_names")
    case True
    show ?thesis
    proof (cases "der_element general")
      case None
      then show ?thesis using "1.prems" by (subst general_names.simps) simp
    next
      case (Some r)
      obtain tag name rest where r: "r = (tag, name, rest)" by (cases r)
      have "names_ok (if tag = 0x82 \<and> valid_hostname name then names @ [normalize_name \<Gamma> name] else names)"
        using "1.prems" True by (auto simp: names_ok_def valid_hostname_normal_printable)
      then show ?thesis using "1.IH" [OF True Some] r Some True by (subst general_names.simps) auto
    qed
  qed (subst general_names.simps, use "1.prems" in auto)
qed

lemma san_names_ok: "names_ok names \<Longrightarrow> names_ok (san_names \<Gamma> l names)"
proof (induction l arbitrary: names rule: measure_induct_rule [where f = length])
  case (less l)
  show ?case
  proof (cases "l = [] \<or> der_element l = None")
    case True
    then show ?thesis using less.prems by (auto simp: san_names.simps [of \<Gamma> l])
  next
    case False
    then obtain t x rest where e: "der_element l = Some (t, x, rest)" "l \<noteq> []" by auto
    have IH: "names_ok ns \<Longrightarrow> names_ok (san_names \<Gamma> rest ns)" for ns
      using less.IH [of rest] der_element_shrinks [OF e(1)] by blast
    show ?thesis using e less.prems IH general_names_ok
      by (auto simp: san_names.simps [of \<Gamma> l] split: option.splits)
  qed
qed

lemma subject_names_ok: "names_ok names \<Longrightarrow> names_ok (subject_names \<Gamma> s names)"
proof (induction s arbitrary: names rule: measure_induct_rule [where f = length])
  case (less s)
  show ?case
  proof (cases "names = [] \<and> s \<noteq> [] \<and> der_element s \<noteq> None")
    case False
    then show ?thesis using less.prems by (cases "der_element s") (auto simp: subject_names.simps [of \<Gamma> s])
  next
    case True
    then obtain t x rest where e: "der_element s = Some (t, x, rest)" by auto
    have "names_ok (common_name \<Gamma> x)"
      by (auto simp: common_name_def names_ok_def max_certificate_names_def valid_hostname_normal_printable split: option.splits)
    then show ?thesis using less.IH [of rest "common_name \<Gamma> x"] der_element_shrinks [OF e] True e
      by (simp add: subject_names.simps [of \<Gamma> s])
  qed
qed

lemma certificate_names_ok: "names_ok (certificate_names \<Gamma> c)"
proof -
  have "names_ok []" by (simp add: names_ok_def)
  then show ?thesis using san_names_ok subject_names_ok
    by (auto simp: certificate_names_def Let_def split: option.splits)
qed

subsection \<open>The encoding\<close>

text \<open>A DER element with a definite length below \<open>2 ^ 24\<close>, its length in the fewest bytes.\<close>

definition der_length_bytes :: "nat \<Rightarrow> bytes" where
  "der_length_bytes n = (if n < 0x80 then [of_nat n]
     else if n < 0x100 then [0x81, of_nat n]
     else if n < 0x10000 then [0x82, of_nat (n div 256), of_nat (n mod 256)]
     else [0x83, of_nat (n div 65536), of_nat (n div 256 mod 256), of_nat (n mod 256)])"

definition der_encode :: "byte \<Rightarrow> bytes \<Rightarrow> bytes" where
  "der_encode tag contents = tag # der_length_bytes (length contents) @ contents"

lemma der_element_encode:
  assumes "length x < 2 ^ 24"
  shows "der_element (der_encode t x @ rest) = Some (t, x, rest)"
proof -
  let ?n = "length x"
  have b: "unat (of_nat m :: byte) = m" if "m < 256" for m using that by (simp add: unat_of_nat)
  consider "?n < 0x80" | "0x80 \<le> ?n" "?n < 0x100" | "0x100 \<le> ?n" "?n < 0x10000" | "0x10000 \<le> ?n" by linarith
  then show ?thesis
  proof cases
    case 1
    then show ?thesis by (simp add: der_encode_def der_length_bytes_def der_element_def b Let_def)
  next
    case 2
    then show ?thesis by (simp add: der_encode_def der_length_bytes_def der_element_def b der_length_def Let_def)
  next
    case 3
    then have "?n div 256 < 256" by (simp add: less_mult_imp_div_less)
    then show ?thesis using 3
      by (simp add: der_encode_def der_length_bytes_def der_element_def b der_length_def Let_def)
  next
    case 4
    then have d: "?n div 65536 < 256" using assms by (simp add: less_mult_imp_div_less)
    have v: "(?n div 65536 * 256 + ?n div 256 mod 256) * 256 + ?n mod 256 = ?n"
      using div_mult_mod_eq [of "?n div 256" 256] div_mult_mod_eq [of ?n 256] div_mult2_eq [of ?n 256 256] by simp
    show ?thesis using 4 d v
      by (simp add: der_encode_def der_length_bytes_def der_element_def b der_length_def Let_def)
  qed
qed

section \<open>Alerts\<close>

definition alert_names :: "(byte \<times> bytes) list" where
  "alert_names = [
     (0, lit ''close notify''), (10, lit ''unexpected message''), (20, lit ''bad record MAC''), (22, lit ''record overflow''),
     (40, lit ''handshake failure''), (42, lit ''bad certificate''), (43, lit ''unsupported certificate''),
     (44, lit ''certificate revoked''), (45, lit ''certificate expired''), (46, lit ''certificate unknown''),
     (47, lit ''illegal parameter''), (48, lit ''unknown certificate authority''), (49, lit ''access denied''),
     (50, lit ''decode error''), (51, lit ''decrypt error''), (70, lit ''protocol version''), (71, lit ''insufficient security''),
     (80, lit ''internal error''), (86, lit ''inappropriate fallback''), (90, lit ''user canceled''),
     (109, lit ''missing extension''), (110, lit ''unsupported extension''), (112, lit ''unrecognized name''),
     (113, lit ''bad certificate status response''), (115, lit ''unknown PSK identity''),
     (116, lit ''certificate required''), (120, lit ''no application protocol'')]"


end
