(* ===== verification/Server_Flight.thy ===== *)
theory Server_Flight imports Server_Hello Evidence Segments begin

text \<open>
  The server side of a TLS connection (\<^verbatim>\<open>serverFlight\<close> in \<^verbatim>\<open>internal/domain/tls_server.go\<close>): records are
  reassembled and cut into handshake messages until the ServerHello, or the leaf certificate, was read.
  The evidence is passed in and returned; an error stops the flight.

  The lemmas show that the records and messages are parsed without a panic, within their limits, and
  that only the most negative sequence distance can make a segment panic.
\<close>

definition max_server_flight :: nat where "max_server_flight = 65536"

definition max_pending_parts :: nat where "max_pending_parts = 64"

definition max_pending_bytes :: nat where "max_pending_bytes = 65536"

record server_flight =
  f_expected :: u32
  f_started :: bool
  f_done :: bool
  f_record :: bytes
  f_handshake :: bytes
  f_pending :: "pending option"
  f_pending_bytes :: int
  f_gap_since :: gotime

definition server_flight0 :: server_flight where
  "server_flight0 = \<lparr>f_expected = 0, f_started = False, f_done = False, f_record = [], f_handshake = [],
     f_pending = None, f_pending_bytes = 0, f_gap_since = None\<rparr>"

definition flight_stop :: "server_flight \<Rightarrow> server_flight" where
  "flight_stop f = f\<lparr>f_done := True, f_record := [], f_handshake := [], f_pending := None, f_pending_bytes := 0\<rparr>"

text \<open>\<^verbatim>\<open>f.pending\<close> read as a map: a nil map is empty.\<close>

definition flight_pending :: "server_flight \<Rightarrow> pending" where
  "flight_pending f = (case f_pending f of Some p \<Rightarrow> p | None \<Rightarrow> [])"

section \<open>Handshake messages\<close>

function flight_messages :: "env \<Rightarrow> server_flight \<Rightarrow> evidence \<Rightarrow> (server_flight \<times> evidence \<times> err option) go" where
  "flight_messages \<Gamma> f e = (if length (f_handshake f) < 4 \<or> f_done f then Ret (f, e, None) else
     gbind (gidx (f_handshake f) 0) (\<lambda>kind. gbind (gfrom (f_handshake f) 4) (\<lambda>body.
     gbind (be24 (f_handshake f) 1) (\<lambda>len.
     if kind = 11 then
       (if length body < 6 then Ret (f, e, None)
        else gbind (be24 body 3) (\<lambda>leaf.
          if length body < 6 + leaf then Ret (f, e, None)
          else gbind (gslice body 6 (6 + leaf)) (\<lambda>certificate.
            flight_messages \<Gamma> (flight_stop f) (e\<lparr>e_certificate := certificate_names \<Gamma> certificate\<rparr>))))
     else if length body < len then Ret (f, e, None)
     else if kind = 2 then gbind (gslice body 0 len) (\<lambda>message.
       gtry (parse_server_hello message) (\<lambda>er. Ret (f, e, Some er)) (\<lambda>(version, alpn).
         gbind (gfrom (f_handshake f) (4 + len)) (\<lambda>rest.
           let e1 = e\<lparr>e_tls_version := tls_version_name version, e_server_alpn := alpn\<rparr>;
               f1 = f\<lparr>f_handshake := rest\<rparr> in
           flight_messages \<Gamma> (if 0x0304 \<le> version \<or> e_sni e1 \<noteq> [] then flight_stop f1 else f1) e1)))
     else flight_messages \<Gamma> (flight_stop f) e))))"
  by pat_completeness auto
termination
  by (relation "measure (\<lambda>(\<Gamma>, f, e). length (f_handshake f))") (auto simp: flight_stop_def gfrom_eq_Ret)

declare flight_messages.simps [simp del]

text \<open>The messages touch the sequence state only by stopping the flight.\<close>

definition same_flight :: "server_flight \<Rightarrow> server_flight \<Rightarrow> bool" where
  "same_flight f f' \<longleftrightarrow> f_expected f' = f_expected f \<and> f_started f' = f_started f \<and> f_gap_since f' = f_gap_since f \<and>
     (f_done f' = f_done f \<and> f_pending f' = f_pending f \<and> f_pending_bytes f' = f_pending_bytes f
      \<or> f_done f' \<and> f_pending f' = None \<and> f_pending_bytes f' = 0) \<and> length (f_record f') \<le> length (f_record f)"

lemma same_flight_refl [simp]: "same_flight f f"
  by (simp add: same_flight_def)

lemma same_flight_trans: "same_flight f g \<Longrightarrow> same_flight g h \<Longrightarrow> same_flight f h"
  by (auto simp: same_flight_def)

lemma same_flight_stop [simp]: "same_flight f (flight_stop f)"
  by (simp add: same_flight_def flight_stop_def)

lemma flight_messages_stopped: "flight_messages \<Gamma> (flight_stop f) e = Ret (flight_stop f, e, None)"
  by (simp add: flight_messages.simps flight_stop_def)

lemma flight_messages_frame:
  "flight_messages \<Gamma> f e = Ret (f', e', er) \<Longrightarrow> same_flight f f'"
proof (induction f arbitrary: e rule: measure_induct_rule [where f = "\<lambda>f. length (f_handshake f)"])
  case (less f)
  show ?case
  proof (cases "length (f_handshake f) < 4 \<or> f_done f")
    case True
    then show ?thesis using less.prems by (auto simp: flight_messages.simps [of \<Gamma> f])
  next
    case run: False
    consider "f' = f" | "f' = flight_stop f" | n e1 where "flight_messages \<Gamma> (f\<lparr>f_handshake := drop (4 + n) (f_handshake f)\<rparr>) e1 = Ret (f', e', er)"
      | h where "f' = flight_stop (f\<lparr>f_handshake := h\<rparr>)"
      using less.prems run unfolding flight_messages.simps [of \<Gamma> f] Let_def
      by (auto simp: flight_messages_stopped gbind_eq_Ret gtry_eq_Ret gfrom_eq_Ret split: if_split_asm)
    then show ?thesis
    proof cases
      case (3 n e1)
      then have "same_flight (f\<lparr>f_handshake := drop (4 + n) (f_handshake f)\<rparr>) f'" using run by (intro less.IH) auto
      then show ?thesis by (simp add: same_flight_def)
    next
      case (4 h)
      then show ?thesis by (simp add: same_flight_def flight_stop_def)
    qed simp_all
  qed
qed

section \<open>Records\<close>

function flight_records :: "env \<Rightarrow> server_flight \<Rightarrow> evidence \<Rightarrow> (server_flight \<times> evidence \<times> err option) go" where
  "flight_records \<Gamma> f e = (if length (f_record f) < 5 \<or> f_done f then Ret (f, e, None) else
     gbind (gidx (f_record f) 0) (\<lambda>kind. gbind (gbind (gslice (f_record f) 3 5) be16) (\<lambda>len16. let len = unat len16 in
     gbind (any_c [gbyte (f_record f) 1 (\<lambda>x. x \<noteq> 3), Ret (len = 0), Ret (len > 18432)]) (\<lambda>bad.
     if bad then Ret (f, e, Some (Msg ''invalid TLS record''))
     else if length (f_record f) < 5 + len then Ret (f, e, None)
     else if kind \<noteq> 22 then Ret (flight_stop f, e, None)
     else if length (f_handshake f) + len > max_server_flight
     then Ret (f, e, Some (Msg ''TLS server flight size limit''))
     else gbind (gslice (f_record f) 5 (5 + len)) (\<lambda>body. gbind (gfrom (f_record f) (5 + len)) (\<lambda>rest.
       gbind (flight_messages \<Gamma> (f\<lparr>f_handshake := f_handshake f @ body, f_record := rest\<rparr>) e) (\<lambda>(f1, e1, er).
         if er \<noteq> None then Ret (f1, e1, er) else flight_records \<Gamma> f1 e1)))))))"
  by pat_completeness auto
termination
proof (relation "measure (\<lambda>(\<Gamma>, f, e). length (f_record f))", goal_cases)
  case (2 \<Gamma> f e kind len16 len bad body rest x f1 z e1 er)
  then show ?case using flight_messages_frame [of \<Gamma> "f\<lparr>f_handshake := f_handshake f @ body, f_record := rest\<rparr>" e f1 e1 er]
    by (auto simp: gfrom_eq_Ret same_flight_def)
qed simp

declare flight_records.simps [simp del]

definition flight_feed :: "env \<Rightarrow> server_flight \<Rightarrow> bytes \<Rightarrow> evidence \<Rightarrow> (server_flight \<times> evidence \<times> err option) go" where
  "flight_feed \<Gamma> f data e = (if length (f_record f) + length data > max_server_flight
     then Ret (f, e, Some (Msg ''TLS server flight size limit''))
     else flight_records \<Gamma> (f\<lparr>f_record := f_record f @ data\<rparr>) e)"

lemma flight_records_frame: "flight_records \<Gamma> f e = Ret (f', e', er) \<Longrightarrow> same_flight f f'"
proof (induction f arbitrary: e rule: measure_induct_rule [where f = "\<lambda>f. length (f_record f)"])
  case (less f)
  show ?case
  proof (cases "length (f_record f) < 5 \<or> f_done f")
    case True
    then show ?thesis using less.prems by (auto simp: flight_records.simps [of \<Gamma> f])
  next
    case run: False
    consider "f' = f" | "f' = flight_stop f" | n b f1 e1 er1 where
        "flight_messages \<Gamma> (f\<lparr>f_handshake := f_handshake f @ b, f_record := drop (5 + n) (f_record f)\<rparr>) e = Ret (f1, e1, er1)"
        "f' = f1 \<or> flight_records \<Gamma> f1 e1 = Ret (f', e', er)"
      using less.prems run unfolding flight_records.simps [of \<Gamma> f] Let_def
      by (auto simp: gbind_eq_Ret gfrom_eq_Ret split: if_split_asm)
    then show ?thesis
    proof cases
      case (3 n b f1 e1 er1)
      have s1: "same_flight f f1" and l: "length (f_record f1) < length (f_record f)"
        using flight_messages_frame [OF 3(1)] run by (auto simp: same_flight_def)
      show ?thesis using 3(2) less.IH [OF l] s1 same_flight_trans by blast
    qed simp_all
  qed
qed

section \<open>Segments\<close>

text \<open>\<^verbatim>\<open>add\<close>: a segment that starts at or before the next expected byte.\<close>

definition flight_add :: "env \<Rightarrow> server_flight \<Rightarrow> u32 \<Rightarrow> bytes \<Rightarrow> bool \<Rightarrow> evidence \<Rightarrow> (server_flight \<times> evidence) go" where
  "flight_add \<Gamma> f sq payload truncated e = (let d = seq_diff sq (f_expected f) in
     if d < 0 \<and> neg32 d \<ge> int (length payload) then Ret (f, e)
     else gbind (if d < 0 then gfrom_int payload (neg32 d) else Ret payload) (\<lambda>data.
       gbind (flight_feed \<Gamma> (f\<lparr>f_expected := f_expected f + of_nat (length data)\<rparr>) data e) (\<lambda>(f1, e1, er).
         Ret (if er \<noteq> None \<or> truncated then flight_stop f1 else f1, e1))))"

text \<open>The delivery loop: the first pending segment, in the order of the range, that starts at or before the expected byte.\<close>

definition flight_next :: "schedule \<Rightarrow> server_flight \<Rightarrow> (u32 \<times> bytes) option" where
  "flight_next \<rho> f = find (\<lambda>x. seq_diff (fst x) (f_expected f) \<le> 0) (range_order \<rho> (flight_pending f))"

lemma flight_add_pending:
  assumes "flight_add \<Gamma> f sq b t e = Ret (f', e')"
  shows "flight_pending f' = flight_pending f \<or> flight_pending f' = []"
proof -
  have frame: "f_pending f1 = f_pending f \<or> f_pending f1 = None" if "flight_feed \<Gamma> (f\<lparr>f_expected := x\<rparr>) d e = Ret (f1, e1, er)" for x d f1 e1 er
    using that flight_records_frame [of \<Gamma> "f\<lparr>f_expected := x, f_record := f_record f @ d\<rparr>" e f1 e1 er]
    by (auto simp: flight_feed_def same_flight_def split: if_split_asm)
  from assms consider "f' = f" | x d f1 e1 er where "flight_feed \<Gamma> (f\<lparr>f_expected := x\<rparr>) d e = Ret (f1, e1, er)" "f' = f1 \<or> f' = flight_stop f1"
    by (auto simp: flight_add_def Let_def gbind_eq_Ret split: if_split_asm)
  then show ?thesis
  proof cases
    case (2 x d f1 e1 er)
    show ?thesis using frame [OF 2(1)] 2(2) by (auto simp: flight_pending_def flight_stop_def)
  qed simp
qed

lemma flight_next_in:
  assumes "flight_next \<rho> f = Some (sq, segment)"
  shows "(sq, segment) \<in> set (flight_pending f)" and "seq_diff sq (f_expected f) \<le> 0"
proof -
  from assms have f: "find (\<lambda>x. seq_diff (fst x) (f_expected f) \<le> 0) (range_order \<rho> (flight_pending f)) = Some (sq, segment)"
    by (simp add: flight_next_def)
  then have "(sq, segment) \<in> set (range_order \<rho> (flight_pending f))" by (metis find_Some_iff nth_mem)
  then show "(sq, segment) \<in> set (flight_pending f)" by simp
  show "seq_diff sq (f_expected f) \<le> 0" using f by (metis (mono_tags, lifting) find_Some_iff fst_conv)
qed

lemma flight_add_started:
  assumes "flight_add \<Gamma> f sq b t e = Ret (f', e')"
  shows "f_started f' = f_started f"
proof -
  from assms consider "f' = f" | x d f1 e1 er where "flight_feed \<Gamma> (f\<lparr>f_expected := x\<rparr>) d e = Ret (f1, e1, er)" "f' = f1 \<or> f' = flight_stop f1"
    by (auto simp: flight_add_def Let_def gbind_eq_Ret split: if_split_asm)
  then show ?thesis
  proof cases
    case (2 x d f1 e1 er)
    then have "f_started f1 = f_started f"
      using flight_records_frame [of \<Gamma> "f\<lparr>f_expected := x, f_record := f_record f @ d\<rparr>" e f1 e1 er]
      by (auto simp: flight_feed_def same_flight_def split: if_split_asm)
    then show ?thesis using 2(2) by (auto simp: flight_stop_def)
  qed simp
qed

text \<open>The loop takes one segment away per turn; a turn may also clear the map.\<close>

function flight_deliver :: "env \<Rightarrow> schedule \<Rightarrow> server_flight \<Rightarrow> evidence \<Rightarrow> (server_flight \<times> evidence) go" where
  "flight_deliver \<Gamma> \<rho> f e = (if f_done f then Ret (f, e)
     else case flight_next \<rho> f of None \<Rightarrow> Ret (f, e)
       | Some (sq, segment) \<Rightarrow>
         let f1 = f\<lparr>f_pending := Some (AList.delete sq (flight_pending f)),
             f_pending_bytes := f_pending_bytes f - int (length segment)\<rparr> in
         gbind (flight_add \<Gamma> f1 sq segment False e) (\<lambda>(f2, e2). flight_deliver \<Gamma> \<rho> f2 e2))"
  by pat_completeness auto
termination
proof (relation "measure (\<lambda>(\<Gamma>, \<rho>, f, e). length (flight_pending f))", goal_cases)
  case (2 \<Gamma> \<rho> f e x sq segment f1 y f2 e2)
  then have "sq \<in> fst ` set (flight_pending f)" using flight_next_in [of \<rho> f sq segment] by force
  moreover have "flight_pending f1 = AList.delete sq (flight_pending f)" using 2 by (simp add: flight_pending_def)
  ultimately have "length (flight_pending f1) < length (flight_pending f)" using length_delete_less by simp
  then show ?case using flight_add_pending [of \<Gamma> f1 sq segment False e f2 e2] 2 by auto
qed simp

declare flight_deliver.simps [simp del]

lemma flight_deliver_started: "flight_deliver \<Gamma> \<rho> f e = Ret (f', e') \<Longrightarrow> f_started f' = f_started f"
proof (induction \<Gamma> \<rho> f e rule: flight_deliver.induct)
  case (1 \<Gamma> \<rho> f e)
  then show ?case
    using flight_add_started
    by (fastforce simp: flight_deliver.simps [of \<Gamma> \<rho> f] gbind_eq_Ret Let_def split: if_split_asm option.splits)
qed

text \<open>\<^verbatim>\<open>AddServer\<close> past its first test; \<open>wire\<close> is the length on the wire.\<close>

definition flight_start :: "server_flight \<Rightarrow> u32 \<Rightarrow> bytes \<Rightarrow> server_flight option go" where
  "flight_start f sq payload = (if f_started f then Ret (Some f)
     else gbind (any_c [Ret (length payload < 2), all_c [gbyte payload 0 (\<lambda>x. x \<noteq> 22), gbyte payload 0 (\<lambda>x. x \<noteq> 21)],
         gbyte payload 1 (\<lambda>x. x \<noteq> 3)]) (\<lambda>no.
       Ret (if no then None else Some (f\<lparr>f_started := True, f_expected := sq\<rparr>))))"

definition flight_park :: "int \<Rightarrow> server_flight \<Rightarrow> u32 \<Rightarrow> bytes \<Rightarrow> nat \<Rightarrow> server_flight" where
  "flight_park now f sq payload wire =
     (if wire > length payload \<or> length (flight_pending f) \<ge> max_pending_parts
         \<or> f_pending_bytes f + int (length payload) > int max_server_flight then flight_stop f
      else let f1 = (if f_pending f = None then f\<lparr>f_pending := Some [], f_gap_since := Some now\<rparr> else f);
               old = pend_get sq (flight_pending f1) in
        if length old < length payload then
          f1\<lparr>f_pending := Some (AList.update sq payload (flight_pending f1)),
            f_pending_bytes := f_pending_bytes f1 + (int (length payload) - int (length old))\<rparr>
        else f1)"

definition flight_segment :: "env \<Rightarrow> schedule \<Rightarrow> int \<Rightarrow> server_flight \<Rightarrow> u32 \<Rightarrow> bytes \<Rightarrow> nat \<Rightarrow> evidence
    \<Rightarrow> (server_flight \<times> evidence) go" where
  "flight_segment \<Gamma> \<rho> now f0 sq payload wire e = gbind (flight_start f0 sq payload) (\<lambda>started. case started of
     None \<Rightarrow> Ret (f0, e)
   | Some f \<Rightarrow>
     if seq_diff sq (f_expected f) > 0 then Ret (flight_park now f sq payload wire, e)
     else gbind (flight_add \<Gamma> f sq payload (wire > length payload) e) (\<lambda>(f1, e1).
       gbind (flight_deliver \<Gamma> \<rho> f1 e1) (\<lambda>(f2, e2).
         Ret (if flight_pending f2 \<noteq> [] then f2\<lparr>f_gap_since := Some now\<rparr> else f2, e2))))"

section \<open>Bounds\<close>

definition flight_ok :: "server_flight \<Rightarrow> bool" where
  "flight_ok f \<longleftrightarrow> length (f_record f) \<le> max_server_flight \<and> length (f_handshake f) \<le> max_server_flight
     \<and> pend_ok (flight_pending f) \<and> f_pending_bytes f = int (pend_bytes (flight_pending f))
     \<and> pend_bytes (flight_pending f) \<le> max_server_flight \<and> length (flight_pending f) \<le> max_pending_parts
     \<and> (f_done f \<longrightarrow> flight_pending f = [])"

text \<open>What the flight writes into the evidence, and what it leaves alone.\<close>

definition server_names_ok :: "evidence \<Rightarrow> bool" where
  "server_names_ok e \<longleftrightarrow> names_ok (e_certificate e) \<and> printable (e_server_alpn e)"

definition client_part :: "evidence \<Rightarrow> evidence" where
  "client_part e = e\<lparr>e_tls_version := [], e_server_alpn := [], e_certificate := []\<rparr>"

definition client_side :: "evidence \<Rightarrow> evidence \<Rightarrow> bool" where
  "client_side e e' \<longleftrightarrow> client_part e' = client_part e \<and> (server_names_ok e \<longrightarrow> server_names_ok e')"

lemma client_part_writes [simp]:
  "client_part (e\<lparr>e_tls_version := v\<rparr>) = client_part e" "client_part (e\<lparr>e_server_alpn := a\<rparr>) = client_part e"
  "client_part (e\<lparr>e_certificate := c\<rparr>) = client_part e"
  by (simp_all add: client_part_def)

lemma client_side_refl [simp]: "client_side e e"
  by (simp add: client_side_def)

lemma client_side_trans: "client_side a b \<Longrightarrow> client_side b c \<Longrightarrow> client_side a c"
  by (simp add: client_side_def)

lemma client_side_fields:
  assumes "client_side e e'"
  shows "e_kind e' = e_kind e" "e_hosts e' = e_hosts e" "e_sni e' = e_sni e" "e_alpn e' = e_alpn e"
proof -
  have part: "client_part e' = client_part e" using assms by (simp add: client_side_def)
  show "e_kind e' = e_kind e" using arg_cong [OF part, of e_kind] by (simp add: client_part_def)
  show "e_hosts e' = e_hosts e" using arg_cong [OF part, of e_hosts] by (simp add: client_part_def)
  show "e_sni e' = e_sni e" using arg_cong [OF part, of e_sni] by (simp add: client_part_def)
  show "e_alpn e' = e_alpn e" using arg_cong [OF part, of e_alpn] by (simp add: client_part_def)
qed

lemma flight_stop_simps [simp]: "flight_pending (flight_stop f) = []" "f_record (flight_stop f) = []"
  "f_handshake (flight_stop f) = []" "f_expected (flight_stop f) = f_expected f"
  by (simp_all add: flight_stop_def flight_pending_def)

lemma flight_ok_stop [simp]: "flight_ok (flight_stop f)"
  by (simp add: flight_ok_def pend_ok_def) (simp add: flight_stop_def)

lemma parse_server_hello_cases:
  obtains v a where "parse_server_hello d = Ret (v, a)" "printable a" | er where "parse_server_hello d = Fail er"
  using parse_server_hello_wp [of d] by (cases "parse_server_hello d") auto

lemma flight_messages_returns:
  "returns (flight_messages \<Gamma> f e) (\<lambda>(f', e', er). length (f_handshake f') \<le> length (f_handshake f) \<and> client_side e e')"
proof (induction f arbitrary: e rule: measure_induct_rule [where f = "\<lambda>f. length (f_handshake f)"])
  case (less f)
  let ?h = "f_handshake f"
  show ?case
  proof (cases "length ?h < 4 \<or> f_done f")
    case True
    then show ?thesis by (simp add: flight_messages.simps [of \<Gamma> f])
  next
    case run: False
    define len where "len = unat (?h ! 1) * 65536 + unat (?h ! 2) * 256 + unat (?h ! 3)"
    have h: "gidx ?h 0 = Ret (?h ! 0)" "gfrom ?h 4 = Ret (drop 4 ?h)" "be24 ?h 1 = Ret len"
      using run by (auto simp: be24_in len_def gidx_def gfrom_def numeral_2_eq_2 numeral_3_eq_3)
    have eq: "flight_messages \<Gamma> f e = (if ?h ! 0 = 11 then
       (if length (drop 4 ?h) < 6 then Ret (f, e, None)
        else gbind (be24 (drop 4 ?h) 3) (\<lambda>leaf.
          if length (drop 4 ?h) < 6 + leaf then Ret (f, e, None)
          else gbind (gslice (drop 4 ?h) 6 (6 + leaf)) (\<lambda>certificate.
            Ret (flight_stop f, e\<lparr>e_certificate := certificate_names \<Gamma> certificate\<rparr>, None))))
     else if length (drop 4 ?h) < len then Ret (f, e, None)
     else if ?h ! 0 = 2 then gbind (gslice (drop 4 ?h) 0 len) (\<lambda>message.
       gtry (parse_server_hello message) (\<lambda>er. Ret (f, e, Some er)) (\<lambda>(version, alpn).
         gbind (gfrom ?h (4 + len)) (\<lambda>rest.
           let e1 = e\<lparr>e_tls_version := tls_version_name version, e_server_alpn := alpn\<rparr>;
               f1 = f\<lparr>f_handshake := rest\<rparr> in
           flight_messages \<Gamma> (if 0x0304 \<le> version \<or> e_sni e1 \<noteq> [] then flight_stop f1 else f1) e1)))
     else Ret (flight_stop f, e, None))"
      using run by (simp only: flight_messages.simps [of \<Gamma> f] h gbind.simps flight_messages_stopped if_False)
    show ?thesis
    proof (cases "?h ! 0 = 2 \<and> len \<le> length (drop 4 ?h)")
      case False
      then show ?thesis using certificate_names_ok
        by (auto simp: eq ret_simps be24_in client_side_def server_names_ok_def)
    next
      case True
      then have l: "4 + len \<le> length ?h" using run by auto
      show ?thesis
      proof (rule parse_server_hello_cases [of "take len (drop 4 ?h)"])
        fix er assume "parse_server_hello (take len (drop 4 ?h)) = Fail er"
        then show ?thesis using True by (simp add: eq)
      next
        fix v a assume p: "parse_server_hello (take len (drop 4 ?h)) = Ret (v, a)" "printable a"
        let ?e1 = "e\<lparr>e_tls_version := tls_version_name v, e_server_alpn := a\<rparr>"
        let ?f1 = "f\<lparr>f_handshake := drop (4 + len) ?h\<rparr>"
        have c: "client_side e ?e1" using p(2) by (simp add: client_side_def server_names_ok_def)
        have "returns (flight_messages \<Gamma> ?f1 ?e1)
            (\<lambda>(f', e', er). length (f_handshake f') \<le> length (f_handshake ?f1) \<and> client_side ?e1 e')"
        proof (rule less.IH)
          have "0 < length ?h" using l by linarith
          then show "length (f_handshake ?f1) < length ?h" by simp
        qed
        then have "returns (flight_messages \<Gamma> ?f1 ?e1)
            (\<lambda>(f', e', er). length (f_handshake f') \<le> length ?h \<and> client_side e e')"
          by (rule returns_mono) (auto intro: client_side_trans [OF c])
        then show ?thesis using True p l c by (auto simp: eq Let_def flight_messages_stopped)
      qed
    qed
  qed
qed

definition flight_buffers :: "server_flight \<Rightarrow> bool" where
  "flight_buffers f \<longleftrightarrow> length (f_record f) \<le> max_server_flight \<and> length (f_handshake f) \<le> max_server_flight"

lemma flight_records_returns:
  "flight_buffers f \<Longrightarrow> returns (flight_records \<Gamma> f e) (\<lambda>(f', e', er). flight_buffers f' \<and> client_side e e')"
proof (induction f arbitrary: e rule: measure_induct_rule [where f = "\<lambda>f. length (f_record f)"])
  case (less f)
  let ?r = "f_record f"
  show ?case
  proof (cases "length ?r < 5 \<or> f_done f")
    case True
    then show ?thesis using less.prems by (simp add: flight_records.simps [of \<Gamma> f])
  next
    case run: False
    then have long: "\<not> length ?r < 5" "?r \<noteq> []" by auto
    define len where "len = be_val (take 2 (drop 3 ?r))"
    have len16: "be16 (take 2 (drop 3 ?r)) = Ret (of_nat len)" and ulen: "unat (of_nat len :: u16) = len"
      using long by (simp_all add: be16_in len_def)
    have bad: "any_c [gbyte ?r 1 (\<lambda>x. x \<noteq> 3), Ret (len = 0), Ret (len > 18432)] = Ret (?r ! 1 \<noteq> 3 \<or> len = 0 \<or> len > 18432)"
      using long by (auto simp: gbyte_def)
    have idx: "gidx ?r 0 = Ret (?r ! 0)" "gslice ?r 3 5 = Ret (take 2 (drop 3 ?r))"
      using long by (simp_all add: gslice_def)
    let ?f1 = "f\<lparr>f_handshake := f_handshake f @ take len (drop 5 ?r), f_record := drop (5 + len) ?r\<rparr>"
    have eq: "flight_records \<Gamma> f e = (if ?r ! 1 \<noteq> 3 \<or> len = 0 \<or> len > 18432 then Ret (f, e, Some (Msg ''invalid TLS record''))
      else if length ?r < 5 + len then Ret (f, e, None)
      else if ?r ! 0 \<noteq> 22 then Ret (flight_stop f, e, None)
      else if length (f_handshake f) + len > max_server_flight then Ret (f, e, Some (Msg ''TLS server flight size limit''))
      else gbind (flight_messages \<Gamma> ?f1 e) (\<lambda>(f1, e1, er). if er \<noteq> None then Ret (f1, e1, er) else flight_records \<Gamma> f1 e1))"
      unfolding flight_records.simps [of \<Gamma> f] idx gbind.simps len16 ulen Let_def bad
      using run by (simp only: if_False) (intro if_cong refl, simp)
    show ?thesis
    proof (cases "\<not> (?r ! 1 \<noteq> 3 \<or> len = 0 \<or> len > 18432) \<and> 5 + len \<le> length ?r \<and> ?r ! 0 = 22
        \<and> length (f_handshake f) + len \<le> max_server_flight")
      case False
      have "\<exists>f' er. flight_records \<Gamma> f e = Ret (f', e, er) \<and> (f' = f \<or> f' = flight_stop f)"
        using False unfolding eq by auto
      then show ?thesis using less.prems by (auto simp: flight_buffers_def)
    next
      case True
      obtain f1 e1 er where m: "flight_messages \<Gamma> ?f1 e = Ret (f1, e1, er)"
        and post: "length (f_handshake f1) \<le> length (f_handshake ?f1)" "client_side e e1"
        using flight_messages_returns [of \<Gamma> ?f1 e] by (auto simp: returns_def)
      have frame: "same_flight ?f1 f1" by (rule flight_messages_frame [OF m])
      then have shorter: "length (f_record f1) < length ?r" using run by (auto simp: same_flight_def)
      have buf: "flight_buffers f1" using post True less.prems shorter by (auto simp: flight_buffers_def)
      have "returns (flight_records \<Gamma> f1 e1) (\<lambda>(f', e', er). flight_buffers f' \<and> client_side e e')"
        by (rule returns_mono [OF less.IH [OF shorter buf]]) (auto intro: client_side_trans [OF post(2)])
      moreover have "flight_records \<Gamma> f e = (if er \<noteq> None then Ret (f1, e1, er) else flight_records \<Gamma> f1 e1)"
        using True m by (simp add: eq)
      ultimately show ?thesis using buf post by auto
    qed
  qed
qed

lemma flight_feed_returns:
  assumes "flight_ok f"
  shows "returns (flight_feed \<Gamma> f d e) (\<lambda>(f', e', er). flight_ok f' \<and> client_side e e' \<and> f_expected f' = f_expected f
    \<and> (flight_pending f' = flight_pending f \<or> flight_pending f' = []))"
proof (cases "length (f_record f) + length d > max_server_flight")
  case True
  then show ?thesis using assms by (simp add: flight_feed_def)
next
  case False
  let ?f = "f\<lparr>f_record := f_record f @ d\<rparr>"
  have "flight_buffers ?f" using False assms by (simp add: flight_buffers_def flight_ok_def)
  from flight_records_returns [OF this, of \<Gamma> e] obtain f' e' er
    where r: "flight_records \<Gamma> ?f e = Ret (f', e', er)" and post: "flight_buffers f'" "client_side e e'"
    by (auto simp: returns_def)
  have same: "same_flight ?f f'" by (rule flight_records_frame [OF r])
  have p: "flight_pending ?f = flight_pending f" by (simp add: flight_pending_def)
  have "f_pending f' = None \<Longrightarrow> flight_pending f' = []" "f_pending f' = f_pending f \<Longrightarrow> flight_pending f' = flight_pending f"
    by (simp_all add: flight_pending_def)
  then have "flight_ok f'" "flight_pending f' = flight_pending f \<or> flight_pending f' = []"
    using same post(1) assms by (auto simp: flight_ok_def flight_buffers_def same_flight_def pend_ok_def pend_bytes_def)
  then show ?thesis using r post(2) False same by (auto simp: flight_feed_def same_flight_def)
qed

lemma flight_ok_expected [simp]: "flight_ok (f\<lparr>f_expected := x\<rparr>) = flight_ok f" "flight_pending (f\<lparr>f_expected := x\<rparr>) = flight_pending f"
  by (simp_all add: flight_ok_def flight_pending_def)

text \<open>A segment moves the expected byte by at most its length.\<close>

lemma flight_add_returns:
  assumes ok: "flight_ok f" and d: "- (2 ^ 31) < seq_diff sq (f_expected f)"
  shows "returns (flight_add \<Gamma> f sq b t e) (\<lambda>(f', e'). flight_ok f' \<and> client_side e e' \<and>
    (\<exists>n \<le> length b. f_expected f' = f_expected f + of_nat n) \<and> (flight_pending f' = flight_pending f \<or> flight_pending f' = []))"
proof -
  let ?d = "seq_diff sq (f_expected f)"
  define data where "data = (if ?d < 0 then drop (nat (- ?d)) b else b)"
  show ?thesis
  proof (cases "?d < 0 \<and> neg32 ?d \<ge> int (length b)")
    case True
    then show ?thesis using ok by (auto simp: flight_add_def Let_def intro!: exI [of _ 0])
  next
    case False
    then have g: "(if ?d < 0 then gfrom_int b (neg32 ?d) else Ret b) = Ret data"
      using gfrom_int_neg [OF _ d, of b] by (auto simp: data_def)
    let ?f = "f\<lparr>f_expected := f_expected f + of_nat (length data)\<rparr>"
    obtain f1 e1 er where r: "flight_feed \<Gamma> ?f data e = Ret (f1, e1, er)" and post: "flight_ok f1" "client_side e e1"
        "f_expected f1 = f_expected f + of_nat (length data)" "flight_pending f1 = flight_pending f \<or> flight_pending f1 = []"
      using flight_feed_returns [of ?f \<Gamma> data e] ok by (auto simp: returns_def)
    have l: "length data \<le> length b" by (simp add: data_def)
    have "flight_add \<Gamma> f sq b t e = Ret (if er \<noteq> None \<or> t then flight_stop f1 else f1, e1)"
      using False g r by (auto simp: flight_add_def Let_def)
    then show ?thesis using post l by auto
  qed
qed

lemma flight_deliver_returns:
  "flight_ok f \<Longrightarrow> pend_near (f_expected f) (flight_pending f) \<Longrightarrow>
   returns (flight_deliver \<Gamma> \<rho> f e) (\<lambda>(f', e'). flight_ok f' \<and> client_side e e' \<and> pend_ahead (f_expected f') (flight_pending f'))"
proof (induction f arbitrary: e rule: measure_induct_rule [where f = "\<lambda>f. length (flight_pending f)"])
  case (less f)
  have ok: "pend_ok (flight_pending f)" "distinct (map fst (flight_pending f))"
    using less.prems by (auto simp: flight_ok_def pend_ok_def)
  show ?case
  proof (cases "f_done f \<or> flight_next \<rho> f = None")
    case True
    have "pend_ahead (f_expected f) (flight_pending f)" if "flight_next \<rho> f = None"
      using that by (auto simp: flight_next_def find_None_iff pend_ahead_def not_le)
    moreover have "flight_pending f = []" if "f_done f" using that less.prems(1) by (simp add: flight_ok_def)
    ultimately have "pend_ahead (f_expected f) (flight_pending f)" using True by fastforce
    then show ?thesis using True less.prems by (auto simp: flight_deliver.simps [of \<Gamma> \<rho> f])
  next
    case False
    then obtain sq b where n: "flight_next \<rho> f = Some (sq, b)" by auto
    note in_pend = flight_next_in [OF n]
    let ?f1 = "f\<lparr>f_pending := Some (AList.delete sq (flight_pending f)), f_pending_bytes := f_pending_bytes f - int (length b)\<rparr>"
    have p1: "flight_pending ?f1 = AList.delete sq (flight_pending f)" by (simp add: flight_pending_def)
    have shorter: "length (AList.delete sq (flight_pending f)) < length (flight_pending f)"
      using in_pend(1) by (intro length_delete_less) force
    have b: "pend_bytes (AList.delete sq (flight_pending f)) + length b = pend_bytes (flight_pending f)"
      using pend_bytes_delete [OF ok(2), of sq] pend_get_in [OF ok(2) in_pend(1)] by simp
    have ok1: "flight_ok ?f1" using less.prems(1) b shorter ok(1) p1 by (auto simp: flight_ok_def pend_ok_delete)
    have d: "- (2 ^ 31) < seq_diff sq (f_expected f)"
      using less.prems(2) in_pend(1) by (force simp: pend_near_def)
    obtain f2 e2 m where r: "flight_add \<Gamma> ?f1 sq b False e = Ret (f2, e2)" and post: "flight_ok f2" "client_side e e2"
        "m \<le> length b" "f_expected f2 = f_expected f + of_nat m" "flight_pending f2 = flight_pending ?f1 \<or> flight_pending f2 = []"
      using flight_add_returns [OF ok1, of sq \<Gamma> b False e] d by (auto simp: returns_def)
    have near: "pend_near (f_expected f2) (flight_pending f2)"
      using pend_near_delete [OF less.prems(2) ok(2) in_pend(1) post(3)] post(4,5) p1 by auto
    have "length (flight_pending f2) < length (flight_pending f)" using post(5) p1 shorter by auto
    from less.IH [OF this post(1) near]
    have "returns (flight_deliver \<Gamma> \<rho> f2 e2) (\<lambda>(f', e'). flight_ok f' \<and> client_side e2 e' \<and> pend_ahead (f_expected f') (flight_pending f'))" .
    then have "returns (flight_deliver \<Gamma> \<rho> f2 e2) (\<lambda>(f', e'). flight_ok f' \<and> client_side e e' \<and> pend_ahead (f_expected f') (flight_pending f'))"
      by (rule returns_mono) (auto intro: client_side_trans [OF post(2)])
    moreover have "flight_deliver \<Gamma> \<rho> f e = flight_deliver \<Gamma> \<rho> f2 e2"
      using False n r by (simp add: flight_deliver.simps [of \<Gamma> \<rho> f])
    ultimately show ?thesis by simp
  qed
qed

text \<open>Between two segments every pending segment starts behind a gap.\<close>

definition flight_inv :: "server_flight \<Rightarrow> bool" where
  "flight_inv f \<longleftrightarrow> flight_ok f \<and> pend_ahead (f_expected f) (flight_pending f) \<and> (\<not> f_started f \<longrightarrow> flight_pending f = [])"

lemma flight_inv0: "flight_inv server_flight0"
  by (simp add: flight_inv_def flight_ok_def server_flight0_def flight_pending_def pend_ok_def pend_ahead_def)

lemma flight_start_returns:
  assumes "flight_inv f"
  shows "returns (flight_start f sq b) (\<lambda>r. case r of None \<Rightarrow> True
     | Some f' \<Rightarrow> flight_inv f' \<and> f_started f' \<and> f_done f' = f_done f \<and> f_expected f' = (if f_started f then f_expected f else sq))"
proof (cases "f_started f \<or> length b < 2")
  case True
  then show ?thesis using assms by (auto simp: flight_start_def)
next
  case False
  have "flight_inv (f\<lparr>f_started := True, f_expected := sq\<rparr>)"
    using assms False by (auto simp: flight_inv_def flight_ok_def flight_pending_def)
  then show ?thesis using False by (auto simp: flight_start_def ret_simps simp del: any_c.simps all_c.simps)
qed

lemma flight_park_inv:
  assumes inv: "flight_inv f" "f_started f" "\<not> f_done f" and d: "0 < seq_diff sq (f_expected f)"
  shows "flight_inv (flight_park now f sq b n)"
proof (cases "n > length b \<or> length (flight_pending f) \<ge> max_pending_parts \<or> f_pending_bytes f + int (length b) > int max_server_flight")
  case True
  then show ?thesis using inv(2) by (auto simp: flight_park_def flight_inv_def)
next
  case False
  define f1 where "f1 = (if f_pending f = None then f\<lparr>f_pending := Some [], f_gap_since := Some now\<rparr> else f)"
  have same: "flight_pending f1 = flight_pending f" "f_expected f1 = f_expected f" "f_done f1 = f_done f" "f_started f1 = f_started f"
    "f_record f1 = f_record f" "f_handshake f1 = f_handshake f" "f_pending_bytes f1 = f_pending_bytes f"
    by (simp_all add: f1_def flight_pending_def)
  have ok: "pend_ok (flight_pending f)" "distinct (map fst (flight_pending f))" using inv(1) by (auto simp: flight_inv_def flight_ok_def pend_ok_def)
  have inv1: "flight_inv f1" using inv(1) same by (simp add: flight_inv_def flight_ok_def)
  let ?old = "pend_get sq (flight_pending f)"
  let ?f2 = "f1\<lparr>f_pending := Some (AList.update sq b (flight_pending f)), f_pending_bytes := f_pending_bytes f + (int (length b) - int (length ?old))\<rparr>"
  have eq: "flight_park now f sq b n = (if length ?old < length b then ?f2 else f1)"
    using False same by (simp add: flight_park_def f1_def [symmetric] Let_def)
  have "flight_inv ?f2" if old: "length ?old < length b"
  proof -
    have p: "flight_pending ?f2 = AList.update sq b (flight_pending f)" by (simp add: flight_pending_def)
    have ne: "b \<noteq> []" using old by auto
    have b: "pend_bytes (AList.update sq b (flight_pending f)) + length ?old = pend_bytes (flight_pending f) + length b"
      by (rule pend_bytes_update [OF ok(2)])
    have l: "length (AList.update sq b (flight_pending f)) \<le> max_pending_parts"
      using length_update_le [of sq b "flight_pending f"] False by linarith
    have "f_pending_bytes f = int (pend_bytes (flight_pending f))" using inv(1) by (simp add: flight_inv_def flight_ok_def)
    then have "flight_ok ?f2" unfolding flight_ok_def p
      using inv(1,3) same False b l pend_ok_update [OF ok(1) ne, of sq] by (auto simp: flight_inv_def flight_ok_def)
    then show ?thesis unfolding flight_inv_def p using inv(1,2) same d by (auto simp: flight_inv_def intro: pend_ahead_update)
  qed
  then show ?thesis using inv1 by (simp add: eq)
qed

text \<open>
  A segment is taken without a panic, unless it starts exactly \<open>2 ^ 31\<close> bytes away from the expected
  one; the bounds on the buffers hold afterwards.
\<close>

lemma flight_segment_returns:
  assumes inv: "flight_inv f" "\<not> f_done f" and b: "length b < 2 ^ 30"
    and d: "f_started f \<Longrightarrow> seq_diff sq (f_expected f) \<noteq> - (2 ^ 31)"
  shows "returns (flight_segment \<Gamma> \<rho> now f sq b n e) (\<lambda>(f', e'). flight_inv f' \<and> client_side e e')"
proof -
  obtain r where r: "flight_start f sq b = Ret r" and start: "case r of None \<Rightarrow> True
     | Some f' \<Rightarrow> flight_inv f' \<and> f_started f' \<and> f_done f' = f_done f \<and> f_expected f' = (if f_started f then f_expected f else sq)"
    using flight_start_returns [OF inv(1), of sq b] by (auto simp: returns_def)
  show ?thesis
  proof (cases r)
    case None
    then show ?thesis using r inv by (simp add: flight_segment_def)
  next
    case (Some f1)
    with start have f1: "flight_inv f1" "f_started f1" "f_done f1 = f_done f" "f_expected f1 = (if f_started f then f_expected f else sq)"
      by auto
    show ?thesis
    proof (cases "seq_diff sq (f_expected f1) > 0")
      case True
      then show ?thesis using flight_park_inv [OF f1(1,2) _ True, of now b n] f1(3) inv(2) r Some by (simp add: flight_segment_def)
    next
      case False
      have near: "- (2 ^ 31) < seq_diff sq (f_expected f1)"
        using seq_diff_range(1) [of sq "f_expected f1"] d f1(4) by (cases "f_started f") auto
      have ok: "flight_ok f1" "pend_ahead (f_expected f1) (flight_pending f1)" using f1(1) by (auto simp: flight_inv_def)
      obtain f2 e2 k where a: "flight_add \<Gamma> f1 sq b (n > length b) e = Ret (f2, e2)" and post: "flight_ok f2" "client_side e e2"
          "k \<le> length b" "f_expected f2 = f_expected f1 + of_nat k" "flight_pending f2 = flight_pending f1 \<or> flight_pending f2 = []"
        using flight_add_returns [OF ok(1) near, of \<Gamma> b "n > length b" e] by (auto simp: returns_def)
      have "pend_bytes (flight_pending f1) \<le> max_server_flight" using ok(1) by (simp add: flight_ok_def)
      then have "int k + int (pend_bytes (flight_pending f1)) < 2 ^ 31" using b post(3) by (simp add: max_server_flight_def)
      then have "pend_near (f_expected f2) (flight_pending f2)" using pend_near_advance [OF ok(2)] post(4,5) by auto
      from flight_deliver_returns [OF post(1) this, of \<Gamma> \<rho> e2] obtain f3 e3
        where dl: "flight_deliver \<Gamma> \<rho> f2 e2 = Ret (f3, e3)" and p3: "flight_ok f3" "client_side e2 e3" "pend_ahead (f_expected f3) (flight_pending f3)"
        by (auto simp: returns_def)
      have st: "f_started f3"
        using flight_deliver_started [OF dl] flight_add_started [OF a] f1(2) by simp
      have "flight_inv f3" "flight_inv (f3\<lparr>f_gap_since := Some now\<rparr>)"
        using p3 st by (simp_all add: flight_inv_def flight_ok_def flight_pending_def)
      moreover have "flight_segment \<Gamma> \<rho> now f sq b n e = Ret (if flight_pending f3 \<noteq> [] then f3\<lparr>f_gap_since := Some now\<rparr> else f3, e3)"
        using r Some False a dl by (simp add: flight_segment_def)
      ultimately show ?thesis using client_side_trans [OF post(2) p3(2)] by simp
    qed
  qed
qed

text \<open>At that one distance the overlap is negative and the slice panics, whatever the flight holds.\<close>

lemma flight_segment_panics:
  assumes "f_started f" and "seq_diff sq (f_expected f) = - (2 ^ 31)"
  shows "flight_segment \<Gamma> \<rho> now f sq b n e = Panic"
  using assms by (simp add: flight_segment_def flight_start_def flight_add_def Let_def neg32_def gfrom_int_def)

end
