(* ===== verification/Stream.thy ===== *)
theory Stream imports Parser Server_Flight begin

text \<open>
  One TCP connection (\<^verbatim>\<open>Stream\<close> in \<^verbatim>\<open>internal/domain/stream.go\<close>, with \<^verbatim>\<open>AddServer\<close> and \<^verbatim>\<open>Alert\<close> of
  \<^verbatim>\<open>tls_server.go\<close> and the constructors of \<^verbatim>\<open>quic.go\<close>): the client's segments are reassembled and fed to the
  parser, the server's to the server flight.

  \<^verbatim>\<open>time.Now()\<close> is the argument \<open>now\<close> and the order of a \<^verbatim>\<open>range\<close> over the pending map the schedule \<open>\<rho>\<close>.

  The lemmas show the bounds of the reassembly buffer, that an operation returns unless the segment is
  exactly \<open>2 ^ 31\<close> bytes away or the search for an upgrade command panics, and that the parser is fed a prefix
  of the client's bytes, each byte once and in order, whatever the order of the segments.
\<close>

section \<open>State\<close>

record stream =
  r_parser :: parser
  r_server :: server_flight
  r_pending :: pending
  r_last_progress :: gotime
  r_gap_since :: gotime
  r_pending_bytes :: int
  r_expected :: u32
  r_failed :: bool

definition stream0 :: stream where
  "stream0 = \<lparr>r_parser = parser0, r_server = server_flight0, r_pending = [], r_last_progress = None,
     r_gap_since = None, r_pending_bytes = 0, r_expected = 0, r_failed = False\<rparr>"

definition evidence_stream :: "evidence \<Rightarrow> stream" where
  "evidence_stream e = stream0\<lparr>r_parser := parser0\<lparr>s_evidence := e\<rparr>\<rparr>"

definition new_stream :: "int \<Rightarrow> u32 \<Rightarrow> stream" where
  "new_stream now isn = stream0\<lparr>r_expected := isn, r_last_progress := Some now\<rparr>"

definition new_recorded_label :: "bytes \<Rightarrow> stream" where
  "new_recorded_label l = evidence_stream (evidence0\<lparr>e_kind := KRecorded, e_dns := l\<rparr>)"

definition new_encrypted_dns :: "bytes \<Rightarrow> stream" where
  "new_encrypted_dns kind = (let s = evidence_stream (evidence0\<lparr>e_kind := (if kind = lit ''DoQ'' then KQuic else KTls),
       e_encrypted_dns := Some kind, e_no_handshake := True\<rparr>) in
     s\<lparr>r_parser := (r_parser s)\<lparr>s_tls := (s_tls (r_parser s))\<lparr>t_done := True\<rparr>\<rparr>\<rparr>)"

text \<open>The client Initial of a QUIC connection, and the two other constructors of \<^verbatim>\<open>quic.go\<close>.\<close>

definition new_quic_client_hello :: "env \<Rightarrow> bytes \<Rightarrow> stream go" where
  "new_quic_client_hello \<Gamma> handshake = gbind (any_c [Ret (length handshake < 4), gbyte handshake 0 (\<lambda>x. x \<noteq> 1)]) (\<lambda>bad.
     if bad then Fail (Msg ''invalid QUIC ClientHello'')
     else gbind (be24 handshake 1) (\<lambda>len.
       if int len \<noteq> int (length handshake) - 4 \<or> len > max_pending_bytes then Fail (Msg ''invalid QUIC ClientHello length'')
       else gbind (gfrom handshake 4) (\<lambda>body. gbind (parse_client_hello \<Gamma> body) (\<lambda>hello.
         Ret (evidence_stream (evidence0\<lparr>e_kind := KQuic, e_sni := h_sni hello, e_no_sni := h_sni hello = [], e_ech := h_ech hello,
           e_alpn := h_alpn hello, e_ja4 := Some (fingerprint \<Gamma> (h_ja4 hello) 113)\<rparr>))))))"

definition new_unknown_quic :: "err \<Rightarrow> stream" where
  "new_unknown_quic reason = evidence_stream (evidence0\<lparr>e_kind := KQuic, e_parse_error := Some reason\<rparr>)"

definition new_openssl_sni :: "bytes \<Rightarrow> stream" where
  "new_openssl_sni hostname = evidence_stream (evidence0\<lparr>e_kind := KOpenssl, e_sni := hostname\<rparr>)"

text \<open>\<^verbatim>\<open>NewMissedTLSHandshake\<close> in \<^verbatim>\<open>tls.go\<close>; an empty reason is \<open>None\<close>.\<close>

definition new_missed_tls_handshake :: "err option \<Rightarrow> stream" where
  "new_missed_tls_handshake reason = (let s = evidence_stream (evidence0\<lparr>e_kind := KTls, e_no_handshake := True, e_parse_error := reason\<rparr>) in
     s\<lparr>r_parser := (r_parser s)\<lparr>s_tls := (s_tls (r_parser s))\<lparr>t_done := True\<rparr>\<rparr>\<rparr>)"

definition stream_evidence :: "stream \<Rightarrow> evidence" where
  "stream_evidence s = s_evidence (r_parser s)"

definition set_evidence :: "(evidence \<Rightarrow> evidence) \<Rightarrow> stream \<Rightarrow> stream" where
  "set_evidence f s = s\<lparr>r_parser := (r_parser s)\<lparr>s_evidence := f (s_evidence (r_parser s))\<rparr>\<rparr>"

definition set_encrypted_dns :: "bytes \<Rightarrow> stream \<Rightarrow> stream" where
  "set_encrypted_dns kind s = (if e_encrypted_dns (stream_evidence s) \<noteq> Some kind
     then set_evidence (\<lambda>e. e\<lparr>e_encrypted_dns := Some kind\<rparr>) s else s)"

section \<open>Failures and time\<close>

definition stream_fail :: "err \<Rightarrow> stream \<Rightarrow> stream" where
  "stream_fail reason s =
     (if r_failed s \<or> parser_finished (r_parser s) then s
      else let p = r_parser s in
        s\<lparr>r_failed := True, r_pending := [], r_pending_bytes := 0,
          r_parser := p\<lparr>s_evidence := (s_evidence p)\<lparr>e_parse_error := Some reason\<rparr>, s_sniff := [], s_upgrade := None,
            s_tls := (s_tls p)\<lparr>t_record := [], t_handshake := []\<rparr>, s_http := (s_http p)\<lparr>p_buffer := []\<rparr>\<rparr>\<rparr>)"

definition stream_tick :: "int \<Rightarrow> stream \<Rightarrow> stream" where
  "stream_tick now s0 =
     (let s = (if flight_pending (r_server s0) \<noteq> [] \<and> time_sub now (f_gap_since (r_server s0)) > 10 * second
               then s0\<lparr>r_server := flight_stop (r_server s0)\<rparr> else s0);
          p = r_parser s in
      if r_failed s \<or> parser_finished p then s
      else if r_pending_bytes s > 0 \<and> r_gap_since s \<noteq> None \<and> time_sub now (r_gap_since s) > 10 * second
      then stream_fail (Msg ''TCP reassembly gap timeout'') s
      else if parser_incomplete p \<and> time_sub now (r_last_progress s) > 30 * second then
        (if s_kind p = KUpgrade then s\<lparr>r_parser := (set_kind KOther p)\<lparr>s_upgrade := None\<rparr>\<rparr>
         else if s_kind p = KNone then s\<lparr>r_parser := (set_kind KOther p)\<lparr>s_sniff := []\<rparr>\<rparr>
         else stream_fail (Msg ''protocol parse timeout'') s)
      else s)"

section \<open>Client segments\<close>

text \<open>\<^verbatim>\<open>push\<close> before and after the call of the parser.\<close>

definition push_start :: "int \<Rightarrow> stream \<Rightarrow> nat \<Rightarrow> stream" where
  "push_start now s n = s\<lparr>r_expected := r_expected s + of_nat n, r_last_progress := Some now,
     r_gap_since := (if r_pending_bytes s > 0 then Some now else r_gap_since s)\<rparr>"

definition push_end :: "stream \<Rightarrow> parser \<Rightarrow> err option \<Rightarrow> stream" where
  "push_end s p er = (let s1 = s\<lparr>r_parser := p\<rparr> in case er of
     Some x \<Rightarrow> stream_fail x s1
   | None \<Rightarrow> if parser_finished p then s1\<lparr>r_pending := [], r_pending_bytes := 0\<rparr> else s1)"

definition stream_push :: "env \<Rightarrow> int \<Rightarrow> stream \<Rightarrow> bytes \<Rightarrow> stream go" where
  "stream_push \<Gamma> now s payload = (let s1 = push_start now s (length payload) in
     gbind (parser_feed \<Gamma> (r_parser s1) payload) (\<lambda>(p, er). Ret (push_end s1 p er)))"

definition drop_segment :: "u32 \<Rightarrow> bytes \<Rightarrow> stream \<Rightarrow> stream" where
  "drop_segment sq segment s = s\<lparr>r_pending := AList.delete sq (r_pending s), r_pending_bytes := r_pending_bytes s - int (length segment)\<rparr>"

lemma drop_segment_simps [simp]: "r_parser (drop_segment k b s) = r_parser s" "r_server (drop_segment k b s) = r_server s"
  "r_expected (drop_segment k b s) = r_expected s" "r_failed (drop_segment k b s) = r_failed s"
  "r_gap_since (drop_segment k b s) = r_gap_since s" "r_last_progress (drop_segment k b s) = r_last_progress s"
  "r_pending (drop_segment k b s) = AList.delete k (r_pending s)"
  "r_pending_bytes (drop_segment k b s) = r_pending_bytes s - int (length b)"
  by (simp_all add: drop_segment_def)

text \<open>
  One pass of the inner \<^verbatim>\<open>range\<close>: it drops the segments that hold nothing new, up to the first that
  continues the stream.
\<close>

fun drain_scan :: "pending \<Rightarrow> stream \<Rightarrow> stream \<times> (u32 \<times> bytes) option" where
  "drain_scan [] s = (s, None)"
| "drain_scan ((sq, segment) # xs) s = (let d = seq_diff sq (r_expected s) in
     if d \<le> 0 \<and> neg32 d < int (length segment) then (s, Some (sq, segment))
     else if d < 0 \<and> neg32 d \<ge> int (length segment)
     then drain_scan xs (drop_segment sq segment s)
     else drain_scan xs s)"

text \<open>What a pass leaves alone, and what it finds.\<close>

lemma drain_scan_frame:
  "drain_scan xs s = (s', c) \<Longrightarrow> r_parser s' = r_parser s \<and> r_server s' = r_server s \<and> r_expected s' = r_expected s
    \<and> r_failed s' = r_failed s \<and> r_gap_since s' = r_gap_since s \<and> r_last_progress s' = r_last_progress s"
  by (induction xs s rule: drain_scan.induct) (auto simp: Let_def split: if_split_asm)

lemma drain_scan_found:
  "drain_scan xs s = (s', Some (sq, b)) \<Longrightarrow> (sq, b) \<in> set xs \<and> seq_diff sq (r_expected s) \<le> 0
    \<and> neg32 (seq_diff sq (r_expected s)) < int (length b)"
  by (induction xs s rule: drain_scan.induct) (auto simp: Let_def split: if_split_asm)

lemma length_delete_le: "length (AList.delete k p) \<le> length p"
  by (simp add: AList.delete_eq)

lemma drain_scan_length: "drain_scan xs s = (s', c) \<Longrightarrow> length (r_pending s') \<le> length (r_pending s)"
proof (induction xs s rule: drain_scan.induct)
  case (2 sq segment xs s)
  show ?case using 2 length_delete_le [of sq "r_pending s"]
    by (auto simp: Let_def split: if_split_asm intro: le_trans)
qed simp

lemma drain_scan_shrinks:
  "drain_scan xs s = (s', c) \<Longrightarrow> set xs \<subseteq> set (r_pending s) \<Longrightarrow> s' = s \<or> length (r_pending s') < length (r_pending s)"
proof (induction xs s rule: drain_scan.induct)
  case (2 sq segment xs s)
  let ?d = "seq_diff sq (r_expected s)"
  have "sq \<in> fst ` set (r_pending s)" using "2.prems"(2) by force
  then have "length (r_pending (drop_segment sq segment s)) < length (r_pending s)" using length_delete_less by simp
  moreover have "length (r_pending s') \<le> length (r_pending (drop_segment sq segment s))"
    if "drain_scan xs (drop_segment sq segment s) = (s', c)" using drain_scan_length [OF that] .
  ultimately have drop: "length (r_pending s') < length (r_pending s)" if "drain_scan xs (drop_segment sq segment s) = (s', c)"
    using that by linarith
  consider "s' = s" | "drain_scan xs (drop_segment sq segment s) = (s', c)"
    | "\<not> (?d \<le> 0 \<and> neg32 ?d < int (length segment))" "\<not> (?d < 0 \<and> neg32 ?d \<ge> int (length segment))" "drain_scan xs s = (s', c)"
    using "2.prems"(1) by (auto simp: Let_def split: if_split_asm)
  then show ?case
  proof cases
    case 3
    show ?thesis by (rule "2.IH"(2) [OF refl 3(1,2,3)]) (use "2.prems"(2) in simp)
  qed (use drop in auto)
qed simp

lemma push_start_simps [simp]: "r_parser (push_start now s n) = r_parser s" "r_server (push_start now s n) = r_server s"
  "r_pending (push_start now s n) = r_pending s" "r_pending_bytes (push_start now s n) = r_pending_bytes s"
  "r_expected (push_start now s n) = r_expected s + of_nat n" "r_failed (push_start now s n) = r_failed s"
  by (simp_all add: push_start_def)

lemma stream_fail_frame:
  "r_expected (stream_fail x s) = r_expected s" "r_server (stream_fail x s) = r_server s"
  "r_pending (stream_fail x s) = r_pending s \<or> r_pending (stream_fail x s) = []"
  by (simp_all add: stream_fail_def Let_def)

lemma push_end_frame:
  "r_expected (push_end s p er) = r_expected s" "r_server (push_end s p er) = r_server s"
  "r_pending (push_end s p er) = r_pending s \<or> r_pending (push_end s p er) = []"
  using stream_fail_frame [of _ "s\<lparr>r_parser := p\<rparr>"] by (auto simp: push_end_def Let_def split: option.split)

lemma stream_push_eq:
  "stream_push \<Gamma> now s b = Ret s' \<longleftrightarrow>
     (\<exists>p er. parser_feed \<Gamma> (r_parser s) b = Ret (p, er) \<and> s' = push_end (push_start now s (length b)) p er)"
  by (auto simp: stream_push_def gbind_eq_Ret)

lemma stream_push_pending: "stream_push \<Gamma> now s b = Ret s' \<Longrightarrow> r_pending s' = r_pending s \<or> r_pending s' = []"
  using push_end_frame(3) [of "push_start now s (length b)"] by (auto simp: stream_push_eq)

lemma drain_turn_shrinks:
  assumes scan: "drain_scan (range_order \<rho> (r_pending s)) s = (s1, Some (sq, chosen))"
    and push: "stream_push \<Gamma> now (drop_segment sq chosen s1) fresh = Ret s3"
  shows "length (r_pending s3) < length (r_pending s)"
proof -
  have "(sq, chosen) \<in> set (r_pending s)" using drain_scan_found [OF scan] by simp
  then have k: "sq \<in> fst ` set (r_pending s)" by force
  have "s1 = s \<or> length (r_pending s1) < length (r_pending s)" by (rule drain_scan_shrinks [OF scan]) simp
  then have "length (AList.delete sq (r_pending s1)) < length (r_pending s)"
    using length_delete_less [OF k] length_delete_le [of sq "r_pending s1"] by (elim disjE) simp_all
  then show ?thesis using stream_push_pending [OF push] by auto
qed

function stream_drain :: "env \<Rightarrow> schedule \<Rightarrow> int \<Rightarrow> stream \<Rightarrow> stream go" where
  "stream_drain \<Gamma> \<rho> now s = (if r_failed s then Ret s
     else case drain_scan (range_order \<rho> (r_pending s)) s of
       (s1, None) \<Rightarrow> Ret (if r_pending_bytes s1 = 0 then s1\<lparr>r_gap_since := None\<rparr> else s1)
     | (s1, Some (sq, chosen)) \<Rightarrow>
         let s2 = drop_segment sq chosen s1 in
         gbind (gfrom_int chosen (neg32 (seq_diff sq (r_expected s2)))) (\<lambda>fresh.
           gbind (stream_push \<Gamma> now s2 fresh) (\<lambda>s3. stream_drain \<Gamma> \<rho> now s3)))"
  by pat_completeness auto
termination
  by (relation "measure (\<lambda>(\<Gamma>, \<rho>, now, s). length (r_pending s))") (auto intro: drain_turn_shrinks [OF sym])

declare stream_drain.simps [simp del]

definition stream_park :: "int \<Rightarrow> stream \<Rightarrow> u32 \<Rightarrow> bytes \<Rightarrow> stream" where
  "stream_park now s0 sq payload =
     (let s = (if r_gap_since s0 = None then s0\<lparr>r_gap_since := Some now\<rparr> else s0) in
      if length (r_pending s) \<ge> max_pending_parts \<or> r_pending_bytes s + int (length payload) > int max_pending_bytes
      then stream_fail (Msg ''TCP reassembly limit'') s
      else let old = pend_get sq (r_pending s) in
        if length old \<ge> length payload then s
        else s\<lparr>r_pending := AList.update sq payload (r_pending s),
               r_pending_bytes := r_pending_bytes s - int (length old) + int (length payload)\<rparr>)"

definition stream_add :: "env \<Rightarrow> schedule \<Rightarrow> int \<Rightarrow> stream \<Rightarrow> u32 \<Rightarrow> bytes \<Rightarrow> stream go" where
  "stream_add \<Gamma> \<rho> now s sq payload =
     (if r_failed s \<or> parser_finished (r_parser s) \<or> length payload = 0 then Ret s
      else let diff = seq_diff sq (r_expected s) in
        if diff > 0 then Ret (stream_park now s sq payload)
        else if diff < 0 \<and> neg32 diff \<ge> int (length payload) then Ret s
        else gbind (if diff < 0 then gfrom_int payload (neg32 diff) else Ret payload) (\<lambda>fresh.
          gbind (stream_push \<Gamma> now s fresh) (\<lambda>s1. stream_drain \<Gamma> \<rho> now s1)))"

definition stream_add_segment :: "env \<Rightarrow> schedule \<Rightarrow> int \<Rightarrow> stream \<Rightarrow> u32 \<Rightarrow> bytes \<Rightarrow> nat \<Rightarrow> stream go" where
  "stream_add_segment \<Gamma> \<rho> now s sq prefix n =
     (if n \<le> length prefix then stream_add \<Gamma> \<rho> now s sq prefix
      else if r_failed s \<or> parser_finished (r_parser s) \<or> seq_diff (sq + of_nat n) (r_expected s) \<le> 0 then Ret s
      else if sq \<noteq> r_expected s then Ret (stream_fail capture_truncated s)
      else gbind (if 0 < length prefix then stream_push \<Gamma> now s prefix else Ret s) (\<lambda>s1.
        if r_failed s1 \<or> parser_finished (r_parser s1) then Ret s1
        else gtry (parser_skip (r_parser s1) (n - length prefix)) (\<lambda>er. Ret (stream_fail er s1)) (\<lambda>p.
          stream_drain \<Gamma> \<rho> now (s1\<lparr>r_parser := p, r_expected := r_expected s1 + of_nat (n - length prefix)\<rparr>))))"

section \<open>Server segments\<close>

definition stream_add_server :: "env \<Rightarrow> schedule \<Rightarrow> int \<Rightarrow> stream \<Rightarrow> u32 \<Rightarrow> bytes \<Rightarrow> nat \<Rightarrow> stream go" where
  "stream_add_server \<Gamma> \<rho> now s sq payload n = (let e = s_evidence (r_parser s) in
     if f_done (r_server s) \<or> length payload = 0 \<or> e_kind e \<noteq> KTls \<or> \<not> t_done (s_tls (r_parser s)) \<or> e_no_handshake e then Ret s
     else gbind (flight_segment \<Gamma> \<rho> now (r_server s) sq payload n e) (\<lambda>(f, e').
       Ret (s\<lparr>r_server := f, r_parser := (r_parser s)\<lparr>s_evidence := e'\<rparr>\<rparr>)))"

definition stream_alert :: "stream \<Rightarrow> bytes \<Rightarrow> bool \<Rightarrow> stream go" where
  "stream_alert s payload server = (let e = s_evidence (r_parser s) in
     gbind (any_c [Ret (e_kind e \<noteq> KTls), Ret (e_alert e \<noteq> []), Ret (length payload \<noteq> 7), gbyte payload 0 (\<lambda>x. x \<noteq> 21),
         gbyte payload 1 (\<lambda>x. x \<noteq> 3), gbyte payload 3 (\<lambda>x. x \<noteq> 0), gbyte payload 4 (\<lambda>x. x \<noteq> 2),
         all_c [gbyte payload 5 (\<lambda>x. x \<noteq> 1), gbyte payload 5 (\<lambda>x. x \<noteq> 2)]]) (\<lambda>no.
       if no then Ret s
       else gbind (gidx payload 6) (\<lambda>code. case map_of alert_names code of
         None \<Rightarrow> Ret s
       | Some name \<Rightarrow> Ret (set_evidence (\<lambda>e. e\<lparr>e_alert := (if server then lit ''server'' else lit ''client'') @ lit '' alert: '' @ name\<rparr>) s))))"

section \<open>The invariant of a stream\<close>

text \<open>
  \<open>feedable\<close> is what the parser of a stream that has not failed satisfies between two feeds.  A parser that
  returned an error may still count as finished; then it is never fed to any effect.
\<close>

definition feedable :: "parser \<Rightarrow> bool" where
  "feedable p \<longleftrightarrow> (if parser_finished p then s_kind p \<noteq> KProxy else parser_ok p) \<and> ev_ok (s_evidence p) \<and> (s_opaque p \<longrightarrow> s_kind p = KProxy)"

definition buffer_ok :: "stream \<Rightarrow> bool" where
  "buffer_ok s \<longleftrightarrow> pend_ok (r_pending s) \<and> r_pending_bytes s = int (pend_bytes (r_pending s))
     \<and> pend_bytes (r_pending s) \<le> max_pending_bytes \<and> length (r_pending s) \<le> max_pending_parts"

definition stream_mid :: "stream \<Rightarrow> bool" where
  "stream_mid s \<longleftrightarrow> buffer_ok s \<and> ev_ok (s_evidence (r_parser s)) \<and> (\<not> r_failed s \<longrightarrow> feedable (r_parser s) \<or> parser_finished (r_parser s) \<and> r_pending s = [])
     \<and> (r_failed s \<longrightarrow> r_pending s = [])"

text \<open>Between two operations of a stream that goes on, every pending segment starts behind a gap.\<close>

definition stream_ok :: "stream \<Rightarrow> bool" where
  "stream_ok s \<longleftrightarrow> stream_mid s \<and> (parser_finished (r_parser s) \<or> pend_ahead (r_expected s) (r_pending s))"

lemma buffer_ok_Nil [simp]: "r_pending s = [] \<Longrightarrow> r_pending_bytes s = 0 \<Longrightarrow> buffer_ok s"
  by (simp add: buffer_ok_def pend_ok_def)

lemma buffer_ok_bytes: "buffer_ok s \<Longrightarrow> r_pending s = [] \<Longrightarrow> r_pending_bytes s = 0"
  by (simp add: buffer_ok_def)

lemma buffer_ok_same: "buffer_ok s \<Longrightarrow> r_pending s' = r_pending s \<Longrightarrow> r_pending_bytes s' = r_pending_bytes s \<Longrightarrow> buffer_ok s'"
  by (simp add: buffer_ok_def)

lemma stream_ok_new: "stream_ok (new_stream now isn)"
  using parser_ok0
  by (simp add: stream_ok_def stream_mid_def new_stream_def stream0_def feedable_def)
    (simp add: parser_ok_def parser_mid_def parser0_def)

lemma stream_fail_mid:
  assumes "stream_mid s"
  shows "stream_mid (stream_fail x s)"
  using assms by (auto simp: stream_fail_def stream_mid_def Let_def ev_ok_def hosts_ok_def ev_printable_def)

lemma stream_fail_mid_error:
  assumes "buffer_ok s" "ev_ok (s_evidence (r_parser s))" "\<not> parser_finished (r_parser s)" "\<not> r_failed s"
  shows "stream_mid (stream_fail x s)" "r_failed (stream_fail x s)"
  using assms by (auto simp: stream_fail_def stream_mid_def Let_def ev_ok_def hosts_ok_def ev_printable_def)

text \<open>What a push makes of the parser's answer.\<close>

lemma parser_feed_feedable:
  assumes p: "feedable p" and r: "parser_feed \<Gamma> p d = Ret (p', er)"
  shows "ev_ok (s_evidence p') \<and> (parser_finished p' = (er \<noteq> None) \<longrightarrow> feedable p') \<and> (upgrade_risk p' \<longrightarrow> upgrade_risk p)"
proof (cases "parser_finished p")
  case True
  then have "p' = p" "er = None" using p r parser_finished_feed [of p \<Gamma> d] by (auto simp: feedable_def)
  then show ?thesis using True p by (simp add: feedable_def)
next
  case False
  then have ok: "parser_ok p" using p by (simp add: feedable_def)
  have mid: "parser_mid p d" by (rule parser_ok_mid [OF ok])
  have post: "feed_post (p', er)" using parser_feed_cases [OF mid, of \<Gamma>] r by auto
  have f: "(s_opaque p' = s_opaque p \<or> s_kind p' = KProxy \<and> er = None) \<and> (upgrade_risk p' \<longrightarrow> upgrade_risk p)"
    by (rule parser_feed_frame [OF r mid])
  have "\<not> s_opaque p" using False p by (auto simp: feedable_def parser_finished_def)
  then have o: "s_opaque p' \<longrightarrow> s_kind p' = KProxy \<and> er = None" using f by auto
  then have "s_kind p' \<noteq> KProxy" if "parser_finished p'" "er \<noteq> None" using that by (auto simp: parser_finished_def)
  then show ?thesis using post f o by (auto simp: feedable_def feed_post_def)
qed

lemma parser_feed_returns:
  assumes "feedable p"
  shows "returns (parser_feed \<Gamma> p d) (\<lambda>_. True) \<or> parser_feed \<Gamma> p d = Panic \<and> upgrade_risk p"
proof (cases "parser_finished p")
  case True
  then show ?thesis using assms parser_finished_feed [of p \<Gamma> d] by (simp add: feedable_def)
next
  case False
  then have "parser_mid p d" using assms parser_ok_mid by (simp add: feedable_def)
  from parser_feed_cases [OF this, of \<Gamma>] show ?thesis by (auto simp: returns_def)
qed

text \<open>The ways an operation can go: it returns a stream with \<open>P\<close>, or the search for an upgrade command panics.\<close>

definition stream_risk :: "stream \<Rightarrow> bool" where
  "stream_risk s \<longleftrightarrow> \<not> r_failed s \<and> upgrade_risk (r_parser s)"

definition runs :: "stream \<Rightarrow> stream go \<Rightarrow> (stream \<Rightarrow> bool) \<Rightarrow> bool" where
  "runs s m P \<longleftrightarrow> returns m (\<lambda>s'. P s' \<and> (stream_risk s' \<longrightarrow> stream_risk s))
     \<or> m = Panic \<and> stream_risk s"

lemma runs_Ret [simp]: "runs s (Ret s) P = P s"
  by (simp add: runs_def)

lemma runs_mono: "runs s m P \<Longrightarrow> (\<And>s'. P s' \<Longrightarrow> Q s') \<Longrightarrow> runs s m Q"
  by (auto simp: runs_def elim!: returns_mono)

lemma runs_from: "runs t m P \<Longrightarrow> (stream_risk t \<Longrightarrow> stream_risk s) \<Longrightarrow> runs s m P"
  by (auto simp: runs_def elim!: returns_mono)

lemma runs_bind:
  assumes "runs s m P" and "\<And>t. m = Ret t \<Longrightarrow> P t \<Longrightarrow> runs t (f t) Q"
  shows "runs s (gbind m f) Q"
proof (cases "m = Panic")
  case True
  then show ?thesis using assms(1) by (simp add: runs_def) (simp add: returns_def)
next
  case False
  then obtain t where t: "m = Ret t" "P t" "stream_risk t \<longrightarrow> stream_risk s"
    using assms(1) by (auto simp: runs_def returns_def)
  from assms(2) [OF t(1,2)] t(1,3) show ?thesis by (auto simp: runs_def elim!: returns_mono)
qed

definition push_ready :: "stream \<Rightarrow> bool" where
  "push_ready s \<longleftrightarrow> buffer_ok s \<and> feedable (r_parser s) \<and> \<not> r_failed s"

lemma push_end_mid:
  assumes "buffer_ok s" "\<not> r_failed s" "ev_ok (s_evidence p)" "parser_finished p = (er \<noteq> None) \<longrightarrow> feedable p"
  shows "stream_mid (push_end s p er)"
proof (cases er)
  case None
  then show ?thesis using assms by (auto simp: push_end_def stream_mid_def Let_def intro: buffer_ok_same)
next
  case (Some x)
  let ?s = "s\<lparr>r_parser := p\<rparr>"
  have b: "buffer_ok ?s" by (rule buffer_ok_same [OF assms(1)]) simp_all
  show ?thesis
  proof (cases "parser_finished p")
    case True
    then show ?thesis using Some assms b by (simp add: push_end_def stream_fail_def stream_mid_def)
  next
    case False
    then show ?thesis using Some assms b stream_fail_mid_error(1) [of ?s x] by (simp add: push_end_def)
  qed
qed

lemma stream_push_runs:
  assumes "push_ready s"
  shows "runs s (stream_push \<Gamma> now s d) (\<lambda>s'. stream_mid s' \<and> r_expected s' = r_expected s + of_nat (length d)
    \<and> (r_pending s' = r_pending s \<or> r_pending s' = []))"
proof -
  have f: "feedable (r_parser s)" and b: "buffer_ok (push_start now s (length d))" and nf: "\<not> r_failed (push_start now s (length d))"
    using assms by (auto simp: push_ready_def intro: buffer_ok_same)
  from parser_feed_returns [OF f, of \<Gamma> d] consider p er where "parser_feed \<Gamma> (r_parser s) d = Ret (p, er)"
    | "parser_feed \<Gamma> (r_parser s) d = Panic" "upgrade_risk (r_parser s)" by (auto simp: returns_def)
  then show ?thesis
  proof cases
    case (1 p er)
    note post = parser_feed_feedable [OF f 1]
    have r: "stream_push \<Gamma> now s d = Ret (push_end (push_start now s (length d)) p er)" using 1 by (simp add: stream_push_def)
    have m: "stream_mid (push_end (push_start now s (length d)) p er)" using push_end_mid [OF b nf] post by blast
    have "stream_risk (push_end (push_start now s (length d)) p er) \<longrightarrow> upgrade_risk p"
      by (auto simp: push_end_def stream_fail_def Let_def stream_risk_def split: option.splits)
    then show ?thesis using m r post push_end_frame [of "push_start now s (length d)" p er] assms
      by (simp add: runs_def) (simp add: stream_risk_def push_ready_def)
  next
    case 2
    then show ?thesis using assms by (simp add: runs_def stream_push_def stream_risk_def push_ready_def)
  qed
qed

section \<open>Draining\<close>

lemma buffer_ok_drop:
  assumes "buffer_ok s" and "(sq, b) \<in> set (r_pending s)"
  shows "buffer_ok (drop_segment sq b s)" "pend_bytes (AList.delete sq (r_pending s)) + length b = pend_bytes (r_pending s)"
proof -
  have d: "distinct (map fst (r_pending s))" using assms(1) by (simp add: buffer_ok_def pend_ok_def)
  show b: "pend_bytes (AList.delete sq (r_pending s)) + length b = pend_bytes (r_pending s)"
    using pend_bytes_delete [OF d, of sq] pend_get_in [OF d assms(2)] by simp
  then show "buffer_ok (drop_segment sq b s)"
    using assms(1) length_delete_le [of sq "r_pending s"] by (auto simp: buffer_ok_def pend_ok_delete)
qed

lemma drain_scan_ok:
  "drain_scan xs s = (s', c) \<Longrightarrow> buffer_ok s \<Longrightarrow> set xs \<subseteq> set (r_pending s) \<Longrightarrow> distinct (map fst xs) \<Longrightarrow>
     buffer_ok s' \<and> set (r_pending s') \<subseteq> set (r_pending s) \<and> pend_bytes (r_pending s') \<le> pend_bytes (r_pending s)
     \<and> (case c of Some x \<Rightarrow> x \<in> set (r_pending s')
        | None \<Rightarrow> \<forall>x \<in> set xs. x \<in> set (r_pending s') \<longrightarrow> 0 < seq_diff (fst x) (r_expected s))"
proof (induction xs s rule: drain_scan.induct)
  case (2 sq b xs s)
  let ?d = "seq_diff sq (r_expected s)"
  have inp: "(sq, b) \<in> set (r_pending s)" "set xs \<subseteq> set (r_pending s)" "distinct (map fst xs)" "sq \<notin> fst ` set xs"
    using "2.prems" by auto
  have ne: "b \<noteq> []" using inp "2.prems"(2) by (force simp: buffer_ok_def pend_ok_def)
  show ?case
  proof (cases "?d \<le> 0 \<and> neg32 ?d < int (length b)")
    case True
    then show ?thesis using "2.prems" inp by (auto simp: Let_def)
  next
    case keep: False
    show ?thesis
    proof (cases "?d < 0 \<and> neg32 ?d \<ge> int (length b)")
      case True
      have r: "drain_scan xs (drop_segment sq b s) = (s', c)" using keep True "2.prems"(1) by (auto simp: Let_def)
      have sub: "set xs \<subseteq> set (r_pending (drop_segment sq b s))" using inp by (force simp: AList.delete_eq)
      have "pend_bytes (r_pending (drop_segment sq b s)) \<le> pend_bytes (r_pending s)" "set (r_pending (drop_segment sq b s)) \<subseteq> set (r_pending s)"
        using buffer_ok_drop(2) [OF "2.prems"(2) inp(1)] by (auto simp: AList.delete_eq)
      moreover note "2.IH"(1) [OF refl keep True r buffer_ok_drop(1) [OF "2.prems"(2) inp(1)] sub inp(3)]
      ultimately show ?thesis by (fastforce simp: AList.delete_eq split: option.splits)
    next
      case False
      have r: "drain_scan xs s = (s', c)" using keep False "2.prems"(1) by (auto simp: Let_def)
      have "0 < ?d" using keep False ne by (cases "?d = 0") (auto simp: neg32_def)
      then show ?thesis using "2.IH"(2) [OF refl keep False r "2.prems"(2) inp(2,3)] by (auto split: option.splits)
    qed
  qed
qed simp

lemma pend_near_sub:
  "pend_near e p \<Longrightarrow> set p' \<subseteq> set p \<Longrightarrow> pend_bytes p' \<le> pend_bytes p \<Longrightarrow> pend_near e p'"
  by (fastforce simp: pend_near_def)

lemma distinct_range_order: "distinct (map fst p) \<Longrightarrow> distinct (map fst (range_order \<rho> p))"
  by (simp add: range_order_def distinct_map inj_on_def)

lemma stream_drain_runs:
  "stream_mid s \<Longrightarrow> pend_near (r_expected s) (r_pending s) \<Longrightarrow> runs s (stream_drain \<Gamma> \<rho> now s) stream_ok"
proof (induction s rule: measure_induct_rule [where f = "\<lambda>s. length (r_pending s)"])
  case (less s)
  show ?case
  proof (cases "r_failed s")
    case True
    then show ?thesis using less.prems by (simp add: stream_drain.simps [of \<Gamma> \<rho> now s] stream_ok_def stream_mid_def)
  next
    case run: False
    have b: "buffer_ok s" using less.prems by (simp add: stream_mid_def)
    then have d: "distinct (map fst (r_pending s))" by (simp add: buffer_ok_def pend_ok_def)
    obtain s1 c where scan: "drain_scan (range_order \<rho> (r_pending s)) s = (s1, c)" by fastforce
    note frame = drain_scan_frame [OF scan]
    note ok = drain_scan_ok [OF scan b _ distinct_range_order [OF d]]
    have mid1: "stream_mid s1" using less.prems(1) frame ok run by (auto simp: stream_mid_def)
    show ?thesis
    proof (cases c)
      case None
      let ?s = "if r_pending_bytes s1 = 0 then s1\<lparr>r_gap_since := None\<rparr> else s1"
      have "pend_ahead (r_expected s) (r_pending s1)" using ok None by (auto simp: pend_ahead_def)
      then have "stream_ok ?s" using mid1 frame by (auto simp: stream_ok_def stream_mid_def intro: buffer_ok_same)
      moreover have "stream_drain \<Gamma> \<rho> now s = Ret ?s" using run scan None by (simp add: stream_drain.simps [of \<Gamma> \<rho> now s])
      ultimately show ?thesis using frame by (simp add: runs_def stream_risk_def)
    next
      case (Some x)
      obtain sq chosen where x: "x = (sq, chosen)" by (cases x)
      have in1: "(sq, chosen) \<in> set (r_pending s1)" using ok Some x by auto
      have found: "seq_diff sq (r_expected s) \<le> 0" "neg32 (seq_diff sq (r_expected s)) < int (length chosen)"
        using drain_scan_found [of "range_order \<rho> (r_pending s)" s s1 sq chosen] scan Some x by auto
      have near1: "pend_near (r_expected s) (r_pending s1)" using less.prems(2) ok by (auto intro: pend_near_sub)
      have d1: "distinct (map fst (r_pending s1))" using ok by (simp add: buffer_ok_def pend_ok_def)
      have lt: "- (2 ^ 31) < seq_diff sq (r_expected s)" using near1 in1 by (force simp: pend_near_def)
      define fresh where "fresh = drop (nat (- seq_diff sq (r_expected s))) chosen"
      have g: "gfrom_int chosen (neg32 (seq_diff sq (r_expected s))) = Ret fresh"
        using found lt by (auto simp: gfrom_int_def neg32_def fresh_def)
      let ?s2 = "drop_segment sq chosen s1"
      have f: "feedable (r_parser s)" using less.prems(1) run ok in1 by (auto simp: stream_mid_def)
      have ready: "push_ready ?s2"
        using buffer_ok_drop(1) [of s1 sq chosen] ok in1 f frame run by (simp add: push_ready_def)
      have eq: "stream_drain \<Gamma> \<rho> now s = gbind (stream_push \<Gamma> now ?s2 fresh) (stream_drain \<Gamma> \<rho> now)"
        using run scan Some x g frame by (simp add: stream_drain.simps [of \<Gamma> \<rho> now s] Let_def)
      have "runs ?s2 (gbind (stream_push \<Gamma> now ?s2 fresh) (stream_drain \<Gamma> \<rho> now)) stream_ok"
      proof (rule runs_bind [OF stream_push_runs [OF ready]])
        fix t assume t: "stream_push \<Gamma> now ?s2 fresh = Ret t"
          and post: "stream_mid t \<and> r_expected t = r_expected ?s2 + of_nat (length fresh) \<and> (r_pending t = r_pending ?s2 \<or> r_pending t = [])"
        have "pend_near (r_expected t) (r_pending t)"
          using pend_near_delete [OF near1 d1 in1, of "length fresh"] post frame by (auto simp: fresh_def)
        moreover have "length (r_pending t) < length (r_pending s)"
          by (rule drain_turn_shrinks [of \<rho> s s1 sq chosen \<Gamma> now fresh]) (use scan Some x t in auto)
        ultimately show "runs t (stream_drain \<Gamma> \<rho> now t) stream_ok" using less.IH post by blast
      qed
      then show ?thesis using eq frame by (simp add: runs_def stream_risk_def)
    qed
  qed
qed

section \<open>Operations keep the invariant\<close>

lemma stream_park_ok:
  assumes ok: "stream_ok s" "\<not> r_failed s" "\<not> parser_finished (r_parser s)" and d: "0 < seq_diff sq (r_expected s)"
  shows "stream_ok (stream_park now s sq b) \<and> (stream_risk (stream_park now s sq b) \<longrightarrow> stream_risk s)"
proof -
  define t where "t = (if r_gap_since s = None then s\<lparr>r_gap_since := Some now\<rparr> else s)"
  have t: "stream_mid t" "r_pending t = r_pending s" "r_expected t = r_expected s" "r_failed t = r_failed s" "r_parser t = r_parser s"
     "r_pending_bytes t = r_pending_bytes s" "stream_risk t = stream_risk s"
    using ok(1) by (auto simp: t_def stream_ok_def stream_mid_def stream_risk_def intro: buffer_ok_same)
  let ?old = "pend_get sq (r_pending s)"
  have bo: "buffer_ok s" using ok(1) by (simp add: stream_ok_def stream_mid_def)
  have park: "stream_park now s sq b = (if length (r_pending s) \<ge> max_pending_parts \<or> r_pending_bytes s + int (length b) > int max_pending_bytes
      then stream_fail (Msg ''TCP reassembly limit'') t
      else if length ?old \<ge> length b then t
      else t\<lparr>r_pending := AList.update sq b (r_pending s), r_pending_bytes := r_pending_bytes s - int (length ?old) + int (length b)\<rparr>)"
    by (simp add: stream_park_def t_def [symmetric] t(2,6) Let_def)
  consider "length (r_pending s) \<ge> max_pending_parts \<or> r_pending_bytes s + int (length b) > int max_pending_bytes"
    | "length ?old \<ge> length b" | (new) "length (r_pending s) < max_pending_parts" "r_pending_bytes s + int (length b) \<le> int max_pending_bytes" "length ?old < length b"
    by linarith
  then show ?thesis
  proof cases
    case 1
    have "stream_mid (stream_fail x t)" "r_failed (stream_fail x t)" for x
      by (rule stream_fail_mid_error; use t ok in \<open>simp add: stream_mid_def\<close>)+
    then show ?thesis using 1 unfolding park by (auto simp: stream_ok_def stream_risk_def stream_mid_def)
  next
    case 2
    have "stream_mid (stream_fail x t)" "r_failed (stream_fail x t)" for x
      by (rule stream_fail_mid_error; use t ok in \<open>simp add: stream_mid_def\<close>)+
    then show ?thesis using 2 t ok(1) unfolding park by (auto simp: stream_ok_def stream_risk_def stream_mid_def)
  next
    case new
    have dist: "pend_ok (r_pending s)" "distinct (map fst (r_pending s))" using bo by (auto simp: buffer_ok_def pend_ok_def)
    have ne: "b \<noteq> []" using new by auto
    let ?s2 = "t\<lparr>r_pending := AList.update sq b (r_pending s), r_pending_bytes := r_pending_bytes s - int (length ?old) + int (length b)\<rparr>"
    have "buffer_ok ?s2"
      using bo new pend_bytes_update [OF dist(2), of sq b] pend_ok_update [OF dist(1) ne, of sq] length_update_le [of sq b "r_pending s"]
      by (auto simp: buffer_ok_def)
    then have "stream_ok ?s2" using t ok d
      by (auto simp: stream_ok_def stream_mid_def intro: pend_ahead_update)
    then show ?thesis using new t unfolding park by (auto simp: stream_risk_def)
  qed
qed

text \<open>A push and the drain after it.\<close>

lemma push_drain_runs:
  assumes ok: "stream_ok s" "push_ready s" "\<not> parser_finished (r_parser s)" and b: "length b < 2 ^ 30"
  shows "runs s (gbind (stream_push \<Gamma> now s b) (stream_drain \<Gamma> \<rho> now)) stream_ok"
proof (rule runs_bind [OF stream_push_runs [OF ok(2)]])
  fix t assume post: "stream_mid t \<and> r_expected t = r_expected s + of_nat (length b) \<and> (r_pending t = r_pending s \<or> r_pending t = [])"
  have "pend_bytes (r_pending s) \<le> max_pending_bytes" using ok(2) by (simp add: push_ready_def buffer_ok_def)
  then have "int (length b) + int (pend_bytes (r_pending s)) < 2 ^ 31" using b by (simp add: max_pending_bytes_def)
  then have "pend_near (r_expected t) (r_pending t)"
    using pend_near_advance [of "r_expected s" "r_pending s" "length b"] ok(1,3) post by (auto simp: stream_ok_def)
  then show "runs t (stream_drain \<Gamma> \<rho> now t) stream_ok" using stream_drain_runs post by blast
qed

lemma stream_ready: "stream_ok s \<Longrightarrow> \<not> r_failed s \<Longrightarrow> \<not> parser_finished (r_parser s) \<Longrightarrow> push_ready s"
  by (auto simp: stream_ok_def stream_mid_def push_ready_def)

lemma stream_add_runs:
  assumes ok: "stream_ok s" and b: "length b < 2 ^ 30"
    and d: "\<not> r_failed s \<Longrightarrow> \<not> parser_finished (r_parser s) \<Longrightarrow> seq_diff sq (r_expected s) \<noteq> - (2 ^ 31)"
  shows "runs s (stream_add \<Gamma> \<rho> now s sq b) stream_ok"
proof (cases "r_failed s \<or> parser_finished (r_parser s) \<or> length b = 0")
  case True
  then have "stream_add \<Gamma> \<rho> now s sq b = Ret s" unfolding stream_add_def by auto
  then show ?thesis using ok by simp
next
  case run: False
  let ?d = "seq_diff sq (r_expected s)"
  have lt: "- (2 ^ 31) < ?d" using d run seq_diff_range(1) [of sq "r_expected s"] by linarith
  consider "?d > 0" | "?d < 0" "neg32 ?d \<ge> int (length b)" | "?d = 0" | (cut) "?d < 0" "neg32 ?d < int (length b)" by linarith
  then show ?thesis
  proof cases
    case 1
    then have "stream_add \<Gamma> \<rho> now s sq b = Ret (stream_park now s sq b)" using run by (simp add: stream_add_def)
    then show ?thesis using stream_park_ok [OF ok _ _ 1, of now b] run by (simp add: runs_def)
  next
    case 2
    then have "stream_add \<Gamma> \<rho> now s sq b = Ret s" using run by (simp add: stream_add_def)
    then show ?thesis using ok by simp
  next
    case 3
    then have "stream_add \<Gamma> \<rho> now s sq b = gbind (stream_push \<Gamma> now s b) (stream_drain \<Gamma> \<rho> now)" using run by (simp add: stream_add_def)
    then show ?thesis using push_drain_runs [OF ok stream_ready [OF ok] _ b] run by simp
  next
    case cut
    have "stream_add \<Gamma> \<rho> now s sq b = gbind (stream_push \<Gamma> now s (drop (nat (- ?d)) b)) (stream_drain \<Gamma> \<rho> now)"
      using run cut gfrom_int_neg [OF cut(1) lt cut(2)] by (simp add: stream_add_def)
    then show ?thesis using push_drain_runs [OF ok stream_ready [OF ok] _, of "drop (nat (- ?d)) b"] run b by simp
  qed
qed

text \<open>At that one distance a segment of a running stream panics, whatever it holds.\<close>

lemma stream_add_panics:
  assumes "\<not> r_failed s" and "\<not> parser_finished (r_parser s)" and "b \<noteq> []" and "seq_diff sq (r_expected s) = - (2 ^ 31)"
  shows "stream_add \<Gamma> \<rho> now s sq b = Panic"
  using assms by (simp add: stream_add_def neg32_def gfrom_int_def)

lemma parser_skip_feedable:
  assumes p: "feedable p" "\<not> parser_finished p" and n: "0 < n" and r: "parser_skip p n = Ret p'"
  shows "ev_ok (s_evidence p')" "feedable p'" "upgrade_risk p' \<Longrightarrow> upgrade_risk p"
proof -
  have k: "s_kind p' = s_kind p \<and> s_kind p \<noteq> KProxy \<and> s_opaque p' = s_opaque p"
    using r p(2) by (auto simp: parser_skip_def split: option.splits if_split_asm)
  have "parser_ok p" using p by (simp add: feedable_def)
  then have f: "parser_feed \<Gamma> p (replicate n 0) = Ret (p', None)" for \<Gamma>
    by (rule parser_skip_feed) (use n r p in simp_all)
  show "ev_ok (s_evidence p')" "upgrade_risk p' \<Longrightarrow> upgrade_risk p"
    using parser_feed_feedable [OF p(1) f] by auto
  show "feedable p'"
    using parser_feed_feedable [OF p(1) f] k p(1) by (cases "parser_finished p'") (auto simp: feedable_def)
qed

lemma parser_skip_not_Panic: "parser_skip p n \<noteq> Panic"
  by (auto simp: parser_skip_def split: option.splits)

lemma stream_add_segment_runs:
  assumes ok: "stream_ok s" and n: "n < 2 ^ 30" "length b < 2 ^ 30"
    and d: "n \<le> length b \<Longrightarrow> \<not> r_failed s \<Longrightarrow> \<not> parser_finished (r_parser s) \<Longrightarrow> seq_diff sq (r_expected s) \<noteq> - (2 ^ 31)"
  shows "runs s (stream_add_segment \<Gamma> \<rho> now s sq b n) stream_ok"
proof (cases "n \<le> length b")
  case True
  then show ?thesis using stream_add_runs [OF ok n(2), of sq \<Gamma> \<rho> now] d by (simp add: stream_add_segment_def)
next
  case long: False
  show ?thesis
  proof (cases "r_failed s \<or> parser_finished (r_parser s) \<or> seq_diff (sq + of_nat n) (r_expected s) \<le> 0")
    case True
    then have "stream_add_segment \<Gamma> \<rho> now s sq b n = Ret s" using long unfolding stream_add_segment_def by auto
    then show ?thesis using ok by simp
  next
    case run: False
    show ?thesis
    proof (cases "sq = r_expected s")
      case False
      then have "stream_add_segment \<Gamma> \<rho> now s sq b n = Ret (stream_fail capture_truncated s)"
        using long run by (simp add: stream_add_segment_def)
      moreover have "stream_mid (stream_fail capture_truncated s)" "r_failed (stream_fail capture_truncated s)"
        by (rule stream_fail_mid_error; use ok run in \<open>simp add: stream_ok_def stream_mid_def\<close>)+
      ultimately show ?thesis by (simp add: runs_def stream_risk_def stream_ok_def) (simp add: stream_mid_def)
    next
      case True
      have ready: "push_ready s" using stream_ready [OF ok] run by simp
      have first: "runs s (if 0 < length b then stream_push \<Gamma> now s b else Ret s)
        (\<lambda>t. stream_mid t \<and> r_expected t = r_expected s + of_nat (length b) \<and> (r_pending t = r_pending s \<or> r_pending t = []))"
        using stream_push_runs [OF ready, of \<Gamma> now b] ok by (auto simp: stream_ok_def)
      have eq: "stream_add_segment \<Gamma> \<rho> now s sq b n =
        gbind (if 0 < length b then stream_push \<Gamma> now s b else Ret s) (\<lambda>s1.
        if r_failed s1 \<or> parser_finished (r_parser s1) then Ret s1
        else gtry (parser_skip (r_parser s1) (n - length b)) (\<lambda>er. Ret (stream_fail er s1)) (\<lambda>p.
          stream_drain \<Gamma> \<rho> now (s1\<lparr>r_parser := p, r_expected := r_expected s1 + of_nat (n - length b)\<rparr>)))"
        using long run True by (simp add: stream_add_segment_def)
      show ?thesis unfolding eq
      proof (rule runs_bind [OF first])
        fix t assume post: "stream_mid t \<and> r_expected t = r_expected s + of_nat (length b) \<and> (r_pending t = r_pending s \<or> r_pending t = [])"
        have bo: "buffer_ok t" using post by (simp add: stream_mid_def)
        have small: "pend_bytes (r_pending s) \<le> max_pending_bytes" using ready by (simp add: push_ready_def buffer_ok_def)
        have near: "pend_near (r_expected s + of_nat k) (r_pending t)" if "k \<le> max n (length b)" for k
        proof -
          have "int k + int (pend_bytes (r_pending s)) < 2 ^ 31" using that n small by (simp add: max_pending_bytes_def)
          then show ?thesis using pend_near_advance [of "r_expected s" "r_pending s" k] ok run post by (auto simp: stream_ok_def)
        qed
        show "runs t (if r_failed t \<or> parser_finished (r_parser t) then Ret t
          else gtry (parser_skip (r_parser t) (n - length b)) (\<lambda>er. Ret (stream_fail er t)) (\<lambda>p.
            stream_drain \<Gamma> \<rho> now (t\<lparr>r_parser := p, r_expected := r_expected t + of_nat (n - length b)\<rparr>))) stream_ok"
        proof (cases "r_failed t \<or> parser_finished (r_parser t)")
          case True
          have "stream_ok t" using True post by (auto simp: stream_ok_def) (simp add: stream_mid_def)
          then show ?thesis using True by simp
        next
          case False
          have f: "feedable (r_parser t)" using post False by (auto simp: stream_mid_def)
          show ?thesis
          proof (cases "parser_skip (r_parser t) (n - length b)")
            case (Fail er)
            have "stream_mid (stream_fail er t)" "r_failed (stream_fail er t)"
              by (rule stream_fail_mid_error; use bo f False in \<open>simp add: feedable_def\<close>)+
            then show ?thesis using False Fail
              by (simp add: runs_def stream_risk_def stream_ok_def) (simp add: stream_mid_def)
          next
            case (Ret p)
            let ?t = "t\<lparr>r_parser := p, r_expected := r_expected t + of_nat (n - length b)\<rparr>"
            note sk = parser_skip_feedable [OF f _ _ Ret]
            have "stream_mid ?t" using bo False sk long
              by (auto simp: stream_mid_def feedable_def intro: buffer_ok_same)
            moreover have "pend_near (r_expected ?t) (r_pending ?t)" 
              using near [of n] post long by (simp add: add.assoc flip: of_nat_add)
            ultimately have "runs ?t (stream_drain \<Gamma> \<rho> now ?t) stream_ok" by (rule stream_drain_runs)
            then have "runs t (stream_drain \<Gamma> \<rho> now ?t) stream_ok"
              by (rule runs_from) (use False sk(3) long in \<open>simp add: stream_risk_def\<close>)
            then show ?thesis using False Ret by simp
          qed (simp add: parser_skip_not_Panic)
        qed
      qed
    qed
  qed
qed

section \<open>Time, the server's side and the constructors\<close>

lemma stream_tick_ok:
  assumes ok: "stream_ok s"
  shows "stream_ok (stream_tick now s)"
proof -
  define t where "t = (if flight_pending (r_server s) \<noteq> [] \<and> time_sub now (f_gap_since (r_server s)) > 10 * second
     then s\<lparr>r_server := flight_stop (r_server s)\<rparr> else s)"
  have t: "stream_ok t" using ok by (auto simp: t_def stream_ok_def stream_mid_def intro: buffer_ok_same)
  have other: "stream_ok (t\<lparr>r_parser := (set_kind KOther (r_parser t))\<lparr>s_upgrade := None\<rparr>\<rparr>)"
    "stream_ok (t\<lparr>r_parser := (set_kind KOther (r_parser t))\<lparr>s_sniff := []\<rparr>\<rparr>)"
    if "\<not> r_failed t" "\<not> parser_finished (r_parser t)" "s_kind (r_parser t) \<noteq> KProxy"
    using t that
    by (auto simp: stream_ok_def stream_mid_def feedable_def parser_finished_def intro: buffer_ok_same)
  have fail: "stream_ok (stream_fail x t)" if "\<not> r_failed t" "\<not> parser_finished (r_parser t)" for x
  proof -
    have "stream_mid (stream_fail x t)" "r_failed (stream_fail x t)"
      by (rule stream_fail_mid_error; use t that in \<open>simp add: stream_ok_def stream_mid_def\<close>)+
    then show ?thesis by (simp add: stream_ok_def) (simp add: stream_mid_def)
  qed
  show ?thesis unfolding stream_tick_def t_def [symmetric] Let_def using t other fail by (auto split: if_splits)
qed

definition stream_full :: "stream \<Rightarrow> bool" where
  "stream_full s \<longleftrightarrow> stream_ok s \<and> flight_inv (r_server s)"

lemma stream_add_server_returns:
  assumes ok: "stream_full s" and b: "length b < 2 ^ 30"
    and d: "f_started (r_server s) \<Longrightarrow> seq_diff sq (f_expected (r_server s)) \<noteq> - (2 ^ 31)"
  shows "returns (stream_add_server \<Gamma> \<rho> now s sq b n) (\<lambda>s'. stream_full s' \<and> client_side (stream_evidence s) (stream_evidence s'))"
proof (cases "f_done (r_server s) \<or> length b = 0 \<or> s_kind (r_parser s) \<noteq> KTls \<or> \<not> t_done (s_tls (r_parser s))
    \<or> e_no_handshake (s_evidence (r_parser s))")
  case True
  then have "stream_add_server \<Gamma> \<rho> now s sq b n = Ret s" unfolding stream_add_server_def Let_def by auto
  then show ?thesis using ok by simp
next
  case False
  then obtain f e where r: "flight_segment \<Gamma> \<rho> now (r_server s) sq b n (s_evidence (r_parser s)) = Ret (f, e)"
    and post: "flight_inv f" "client_side (s_evidence (r_parser s)) e"
    using flight_segment_returns [of "r_server s" b sq \<Gamma> \<rho> now n "s_evidence (r_parser s)"] ok b d
    by (auto simp: returns_def stream_full_def)
  let ?s = "s\<lparr>r_server := f, r_parser := (r_parser s)\<lparr>s_evidence := e\<rparr>\<rparr>"
  have e: "e_kind e = KTls" "ev_ok (s_evidence (r_parser s)) \<Longrightarrow> ev_ok e"
    using client_side_fields [OF post(2)] False by (simp_all add: ev_ok_def hosts_ok_def ev_printable_def)
  have "stream_ok ?s"
    using ok e False
    by (auto simp: stream_full_def stream_ok_def stream_mid_def feedable_def parser_finished_def intro: buffer_ok_same)
  then show ?thesis using False r post by (simp add: stream_add_server_def Let_def stream_full_def stream_evidence_def)
qed

lemma stream_alert_returns:
  "returns (stream_alert s b server) (\<lambda>s'. s' = s \<or>
     (\<exists>name. map_of alert_names (b ! 6) = Some name \<and> stream_evidence s' =
        (stream_evidence s)\<lparr>e_alert := (if server then lit ''server'' else lit ''client'') @ lit '' alert: '' @ name\<rparr>))"
proof -
  let ?e = "s_evidence (r_parser s)"
  let ?c = "any_c [Ret (e_kind ?e \<noteq> KTls), Ret (e_alert ?e \<noteq> []), Ret (length b \<noteq> 7), gbyte b 0 (\<lambda>x. x \<noteq> 21),
         gbyte b 1 (\<lambda>x. x \<noteq> 3), gbyte b 3 (\<lambda>x. x \<noteq> 0), gbyte b 4 (\<lambda>x. x \<noteq> 2),
         all_c [gbyte b 5 (\<lambda>x. x \<noteq> 1), gbyte b 5 (\<lambda>x. x \<noteq> 2)]]"
  have "returns ?c (\<lambda>v. \<not> v \<longrightarrow> length b = 7)" by (auto simp: ret_simps simp del: any_c.simps all_c.simps)
  then obtain v where v: "?c = Ret v" "v \<or> length b = 7" by (auto simp: returns_def simp del: any_c.simps all_c.simps)
  show ?thesis
  proof (cases v)
    case True
    then show ?thesis unfolding stream_alert_def Let_def v(1) by simp
  next
    case False
    then have g: "gidx b 6 = Ret (b ! 6)" using v(2) by simp
    show ?thesis unfolding stream_alert_def Let_def v(1) gbind.simps if_not_P [OF False] g
      by (cases "map_of alert_names (b ! 6)")
        (simp_all add: stream_evidence_def set_evidence_def)
  qed
qed

lemma new_quic_client_hello_wp:
  "gwp (new_quic_client_hello \<Gamma> d) (\<lambda>s. s_kind (r_parser s) = KQuic \<and> ev_printable (stream_evidence s) \<and> parser_finished (r_parser s)
     \<and> length d \<le> max_pending_bytes + 4 \<and> d ! 0 = 1)"
proof (cases "length d < 4 \<or> d ! 0 \<noteq> 1")
  case True
  then have "any_c [Ret (length d < 4), gbyte d 0 (\<lambda>x. x \<noteq> 1)] = Ret True" by (auto simp: gbyte_def gidx_def)
  then show ?thesis by (simp add: new_quic_client_hello_def del: any_c.simps)
next
  case False
  then have c: "any_c [Ret (length d < 4), gbyte d 0 (\<lambda>x. x \<noteq> 1)] = Ret False" by (auto simp: gbyte_def gidx_def)
  obtain len where len: "be24 d 1 = Ret len" using False be24_in [of 1 d] by fastforce
  have body: "gfrom d 4 = Ret (drop 4 d)" using False by simp
  have post: "gwp (parse_client_hello \<Gamma> (drop 4 d)) hello_printable" by (rule parse_client_hello_wp)
  show ?thesis
  proof (cases "int len \<noteq> int (length d) - 4 \<or> len > max_pending_bytes")
    case True
    then show ?thesis unfolding new_quic_client_hello_def c gbind.simps len if_False by simp
  next
    case ok: False
    show ?thesis unfolding new_quic_client_hello_def c gbind.simps len if_False if_not_P [OF ok] body gwp_bind
      using ok False
      by (intro gwp_mono [OF post]) (auto simp: stream_evidence_def evidence_stream_def stream0_def parser0_def
          evidence0_def ev_printable_def hello_printable_def parser_finished_def)
  qed
qed

section \<open>Reassembly\<close>

text \<open>
  The client sends the bytes \<open>B\<close> after the sequence number \<open>isn\<close>.  \<open>segment_of\<close> says that a pending segment is a
  piece of \<open>B\<close>, \<open>fed_prefix\<close> that the parser is what feeding a prefix of \<open>B\<close> in pieces makes of a fresh one,
  and \<open>kept\<close> that a segment which arrived was fed or still waits.
\<close>

definition segment_of :: "u32 \<Rightarrow> bytes \<Rightarrow> u32 \<times> bytes \<Rightarrow> bool" where
  "segment_of isn B x \<longleftrightarrow> (\<exists>i. fst x = isn + of_nat i \<and> i + length (snd x) \<le> length B \<and> snd x = take (length (snd x)) (drop i B))"

definition fed_prefix :: "env \<Rightarrow> bytes \<Rightarrow> parser \<Rightarrow> nat \<Rightarrow> bool" where
  "fed_prefix \<Gamma> B p k \<longleftrightarrow> (\<exists>j chunks er. j \<le> k \<and> concat chunks = take j B
     \<and> feed_all (parser_feed \<Gamma>) parser0 chunks = Ret (p, er) \<and> (\<not> parser_finished p \<longrightarrow> j = k \<and> er = None))"

definition kept :: "u32 \<Rightarrow> (nat \<times> nat) set \<Rightarrow> nat \<Rightarrow> pending \<Rightarrow> bool" where
  "kept isn X k p \<longleftrightarrow> (\<forall>(i, n) \<in> X. i + n \<le> k \<or> n \<le> length (pend_get (isn + of_nat i) p))"

definition fed :: "env \<Rightarrow> u32 \<Rightarrow> bytes \<Rightarrow> (nat \<times> nat) set \<Rightarrow> stream \<Rightarrow> nat \<Rightarrow> bool" where
  "fed \<Gamma> isn B X s k \<longleftrightarrow> k \<le> length B \<and> r_expected s = isn + of_nat k \<and> fed_prefix \<Gamma> B (r_parser s) k
     \<and> (\<forall>x \<in> set (r_pending s). segment_of isn B x)
     \<and> (\<not> parser_finished (r_parser s) \<longrightarrow> kept isn X k (r_pending s))"

lemma fed_prefix_push:
  assumes p: "fed_prefix \<Gamma> B p k" and b: "k + length b \<le> length B" "b = take (length b) (drop k B)"
    and r: "parser_feed \<Gamma> p b = Ret (p', er)" and f: "feedable p"
    and e: "parser_finished p' \<or> er = None"
  shows "fed_prefix \<Gamma> B p' (k + length b)"
proof (cases "parser_finished p")
  case True
  then have "p' = p" using r f parser_finished_feed [of p \<Gamma> b] by (simp add: feedable_def)
  then show ?thesis using p True by (auto simp: fed_prefix_def intro: trans_le_add1)
next
  case False
  then obtain chunks where c: "concat chunks = take k B" "feed_all (parser_feed \<Gamma>) parser0 chunks = Ret (p, None)"
    using p by (auto simp: fed_prefix_def)
  have "concat (chunks @ [b]) = take (k + length b) B" using c(1) b(2) by (simp add: take_add)
  moreover have "feed_all (parser_feed \<Gamma>) parser0 (chunks @ [b]) = Ret (p', er)" using c(2) r by (simp add: feed_all_snoc)
  ultimately show ?thesis using e by (auto simp: fed_prefix_def intro!: exI [of _ "k + length b"] exI [of _ "chunks @ [b]"])
qed

lemma fed_push:
  assumes r: "stream_push \<Gamma> now s b = Ret s'" and ready: "push_ready s"
    and p: "fed_prefix \<Gamma> B (r_parser s) k" and x: "r_expected s = isn + of_nat k" "\<forall>x \<in> set (r_pending s). segment_of isn B x"
    and kept: "\<not> parser_finished (r_parser s) \<longrightarrow> kept isn X (k + length b) (r_pending s)" and b: "k + length b \<le> length B" "b = take (length b) (drop k B)"
  shows "r_failed s' \<or> fed \<Gamma> isn B X s' (k + length b)"
proof -
  obtain q er where f: "parser_feed \<Gamma> (r_parser s) b = Ret (q, er)" and s': "s' = push_end (push_start now s (length b)) q er"
    using r by (auto simp: stream_push_eq)
  have feedable: "feedable (r_parser s)" and nf: "\<not> r_failed s" using ready by (auto simp: push_ready_def)
  show ?thesis
  proof (cases "parser_finished q \<or> er = None")
    case True
    have "fed_prefix \<Gamma> B q (k + length b)" by (rule fed_prefix_push [OF p b f feedable True])
    moreover have "r_parser s' = q" "r_pending s' = r_pending s \<or> parser_finished q \<and> r_pending s' = []"
      using True by (auto simp: s' push_end_def stream_fail_def Let_def split: option.split)
    moreover have "parser_finished (r_parser s) \<longrightarrow> parser_finished q"
      using f feedable parser_finished_feed [of "r_parser s" \<Gamma> b] by (auto simp: feedable_def)
    moreover have "r_expected s' = isn + of_nat (k + length b)" using x(1) push_end_frame(1) by (simp add: s' add.assoc)
    ultimately show ?thesis using x(2) kept b(1) by (auto simp: fed_def)
  next
    case False
    then show ?thesis using nf by (auto simp: s' push_end_def stream_fail_def Let_def)
  qed
qed

lemma pend_get_delete: "pend_get k (AList.delete k' p) = (if k = k' then [] else pend_get k p)"
  by (simp add: pend_get_def delete_conv')

lemma pend_get_update: "pend_get k (AList.update k' v p) = (if k = k' then v else pend_get k p)"
  by (simp add: pend_get_def update_conv')

text \<open>Offsets below \<open>2 ^ 31\<close> are told apart by their sequence numbers.\<close>

lemma offset_inj: "isn + of_nat i = (isn + of_nat j :: u32) \<Longrightarrow> i < 2 ^ 31 \<Longrightarrow> j < 2 ^ 31 \<Longrightarrow> i = j"
  using seq_diff_offsets [of i j isn] by simp

text \<open>Taking a pending segment away once its bytes were fed.\<close>

lemma kept_delete:
  assumes k: "kept isn X k p" and X: "\<forall>(i, n) \<in> X. i < 2 ^ 31" and d: "distinct (map fst p)" "(isn + of_nat o1, b) \<in> set p" "o1 < 2 ^ 31"
    and m: "k \<le> k'" "o1 + length b \<le> k'"
  shows "kept isn X k' (AList.delete (isn + of_nat o1) p)"
  unfolding kept_def
proof (clarify)
  fix i n assume x: "(i, n) \<in> X" and no: "\<not> n \<le> length (pend_get (isn + of_nat i) (AList.delete (isn + of_nat o1) p))"
  have old: "i + n \<le> k \<or> n \<le> length (pend_get (isn + of_nat i) p)" using k x by (auto simp: kept_def)
  show "i + n \<le> k'"
  proof (cases "isn + of_nat i = (isn + of_nat o1 :: u32)")
    case True
    then have "i = o1" using offset_inj X x d(3) by blast
    then show ?thesis using old m pend_get_in [OF d(1,2)] by auto
  next
    case False
    then show ?thesis using old no m by (auto simp: pend_get_delete)
  qed
qed

lemma fed_drain_scan:
  "drain_scan xs s = (s', c) \<Longrightarrow> fed \<Gamma> isn B X s k \<Longrightarrow> length B < 2 ^ 31 \<Longrightarrow> \<forall>(i, n) \<in> X. i < 2 ^ 31 \<Longrightarrow> buffer_ok s
   \<Longrightarrow> set xs \<subseteq> set (r_pending s) \<Longrightarrow> distinct (map fst xs) \<Longrightarrow> fed \<Gamma> isn B X s' k"
proof (induction xs s rule: drain_scan.induct)
  case (2 sq b xs s)
  let ?d = "seq_diff sq (r_expected s)"
  have inp: "(sq, b) \<in> set (r_pending s)" "set xs \<subseteq> set (r_pending s)" "distinct (map fst xs)" "sq \<notin> fst ` set xs"
    using "2.prems" by auto
  have f: "k \<le> length B" "r_expected s = isn + of_nat k" using "2.prems"(2) by (auto simp: fed_def)
  obtain i where i: "sq = isn + of_nat i" "i + length b \<le> length B" using "2.prems"(2) inp(1) by (fastforce simp: fed_def segment_of_def)
  have d: "?d = int i - int k" unfolding i(1) f(2) by (rule seq_diff_offsets) (use i f "2.prems"(3) in linarith)+
  consider "s' = s" | "?d < 0" "neg32 ?d \<ge> int (length b)" "drain_scan xs (drop_segment sq b s) = (s', c)" "\<not> (?d \<le> 0 \<and> neg32 ?d < int (length b))"
    | "drain_scan xs s = (s', c)" "\<not> (?d \<le> 0 \<and> neg32 ?d < int (length b))" "\<not> (?d < 0 \<and> neg32 ?d \<ge> int (length b))"
    using "2.prems"(1) by (auto simp: Let_def split: if_split_asm)
  then show ?case
  proof cases
    case 2
    have old: "i + length b \<le> k" using 2(1,2) d f(1) "2.prems"(3) by (auto simp: neg32_def split: if_splits)
    have dist: "distinct (map fst (r_pending s))" using "2.prems"(5) by (simp add: buffer_ok_def pend_ok_def)
    have "fed \<Gamma> isn B X (drop_segment sq b s) k"
      using "2.prems"(2) kept_delete [OF _ "2.prems"(4) dist inp(1) [unfolded i(1)] _ order_refl old] i "2.prems"(3)
      by (auto simp: fed_def AList.delete_eq)
    moreover have "set xs \<subseteq> set (r_pending (drop_segment sq b s))" using inp by (force simp: AList.delete_eq)
    ultimately show ?thesis
      using "2.IH"(1) [OF refl 2(4) _ 2(3)] 2(1,2) "2.prems"(3,4) buffer_ok_drop(1) [OF "2.prems"(5) inp(1)] inp(3) by blast
  next
    case 3
    show ?thesis by (rule "2.IH"(2) [OF refl 3(2,3,1) "2.prems"(2-5) inp(2,3)])
  qed (use "2.prems" in simp)
qed simp

lemma fed_drain:
  "stream_drain \<Gamma> \<rho> now s = Ret s' \<Longrightarrow> stream_mid s \<Longrightarrow> pend_near (r_expected s) (r_pending s) \<Longrightarrow> r_failed s \<or> fed \<Gamma> isn B X s k
   \<Longrightarrow> length B < 2 ^ 31 \<Longrightarrow> \<forall>(i, n) \<in> X. i < 2 ^ 31 \<Longrightarrow> r_failed s' \<or> (\<exists>k' \<ge> k. fed \<Gamma> isn B X s' k')"
proof (induction s arbitrary: k rule: measure_induct_rule [where f = "\<lambda>s. length (r_pending s)"])
  case (less s)
  show ?case
  proof (cases "r_failed s")
    case True
    then show ?thesis using less.prems(1) by (simp add: stream_drain.simps [of \<Gamma> \<rho> now s])
  next
    case run: False
    have b: "buffer_ok s" using less.prems by (simp add: stream_mid_def)
    then have d: "distinct (map fst (r_pending s))" by (simp add: buffer_ok_def pend_ok_def)
    obtain s1 c where scan: "drain_scan (range_order \<rho> (r_pending s)) s = (s1, c)" by fastforce
    note frame = drain_scan_frame [OF scan]
    have sub: "set (range_order \<rho> (r_pending s)) \<subseteq> set (r_pending s)" by simp
    note ok = drain_scan_ok [OF scan b sub distinct_range_order [OF d]]
    have fed1: "fed \<Gamma> isn B X s1 k"
      using fed_drain_scan [OF scan _ less.prems(5,6) b sub distinct_range_order [OF d]] less.prems(4) run by blast
    show ?thesis
    proof (cases c)
      case None
      then have "s' = s1 \<or> s' = s1\<lparr>r_gap_since := None\<rparr>" using less.prems(1) run scan by (auto simp: stream_drain.simps [of \<Gamma> \<rho> now s])
      then show ?thesis using fed1 by (auto simp: fed_def)
    next
      case (Some x)
      obtain sq chosen where x: "x = (sq, chosen)" by (cases x)
      have in1: "(sq, chosen) \<in> set (r_pending s1)" using ok Some x by auto
      obtain i where i: "sq = isn + of_nat i" "i + length chosen \<le> length B" "chosen = take (length chosen) (drop i B)"
        using fed1 in1 by (fastforce simp: fed_def segment_of_def)
      have k: "k \<le> length B" "r_expected s = isn + of_nat k" using fed1 frame by (auto simp: fed_def)
      have sd: "seq_diff sq (r_expected s) = int i - int k"
        unfolding i(1) k(2) by (rule seq_diff_offsets) (use i(2) k(1) less.prems(5) in linarith)+
      have found: "seq_diff sq (r_expected s) \<le> 0" "neg32 (seq_diff sq (r_expected s)) < int (length chosen)"
        using drain_scan_found [of "range_order \<rho> (r_pending s)" s s1 sq chosen] scan Some x by auto
      have lt: "i \<le> k" "k < i + length chosen" using found sd k(1) less.prems(5) by (auto simp: neg32_def split: if_splits)
      define fresh where "fresh = drop (k - i) chosen"
      have fresh: "k + length fresh = i + length chosen" "fresh = take (length fresh) (drop k B)"
      proof -
        show l: "k + length fresh = i + length chosen" using lt by (simp add: fresh_def)
        have "fresh = drop (k - i) (take (length chosen) (drop i B))" using i(3) by (simp add: fresh_def)
        also have "\<dots> = take (length chosen - (k - i)) (drop k B)" using lt by (simp add: drop_take)
        finally have "fresh = take (length chosen - (k - i)) (drop k B)" .
        moreover have "length fresh = length chosen - (k - i)" by (simp add: fresh_def)
        ultimately show "fresh = take (length fresh) (drop k B)" by simp
      qed
      let ?s2 = "drop_segment sq chosen s1"
      have g: "gfrom_int chosen (neg32 (seq_diff sq (r_expected s))) = Ret fresh"
        using sd lt k(1) less.prems(5) by (auto simp: gfrom_int_def neg32_def fresh_def nat_diff_distrib)
      have eq: "gbind (stream_push \<Gamma> now ?s2 fresh) (stream_drain \<Gamma> \<rho> now) = Ret s'"
        using less.prems(1) run scan Some x g frame by (simp add: stream_drain.simps [of \<Gamma> \<rho> now s] Let_def)
      then obtain t where t: "stream_push \<Gamma> now ?s2 fresh = Ret t" "stream_drain \<Gamma> \<rho> now t = Ret s'" by (auto simp: gbind_eq_Ret)
      have f: "feedable (r_parser s)" using less.prems(2) run ok in1 by (auto simp: stream_mid_def)
      have ready: "push_ready ?s2"
        using buffer_ok_drop(1) [of s1 sq chosen] ok in1 f frame run by (simp add: push_ready_def)
      have post: "stream_mid t" "r_expected t = r_expected ?s2 + of_nat (length fresh)" "r_pending t = r_pending ?s2 \<or> r_pending t = []"
        using stream_push_runs [OF ready, of \<Gamma> now fresh] t(1) by (auto simp: runs_def)
      have d1: "distinct (map fst (r_pending s1))" using ok by (simp add: buffer_ok_def pend_ok_def)
      have near1: "pend_near (r_expected s) (r_pending s1)" using less.prems(3) ok by (auto intro: pend_near_sub)
      have near: "pend_near (r_expected t) (r_pending t)"
        using pend_near_delete [OF near1 d1 in1, of "length fresh"] post frame by (auto simp: fresh_def)
      have shorter: "length (r_pending t) < length (r_pending s)"
        by (rule drain_turn_shrinks [of \<rho> s s1 sq chosen \<Gamma> now fresh]) (use scan Some x t in auto)
      have "r_failed t \<or> fed \<Gamma> isn B X t (k + length fresh)"
      proof (rule fed_push [OF t(1) ready])
        show "fed_prefix \<Gamma> B (r_parser ?s2) k" "r_expected ?s2 = isn + of_nat k" "\<forall>x \<in> set (r_pending ?s2). segment_of isn B x"
          using fed1 by (auto simp: fed_def AList.delete_eq)
        show "k + length fresh \<le> length B" using fresh(1) i(2) by simp
        show "fresh = take (length fresh) (drop k B)" by (rule fresh(2))
        show "\<not> parser_finished (r_parser ?s2) \<longrightarrow> kept isn X (k + length fresh) (r_pending ?s2)"
          using fed1 kept_delete [of isn X k "r_pending s1" i chosen "k + length fresh"] less.prems(5,6) d1 in1 i fresh(1)
          by (simp add: fed_def)
      qed
      from less.IH [OF shorter t(2) post(1) near this less.prems(5,6)] show ?thesis by (meson le_add1 le_trans)
    qed
  qed
qed

text \<open>One segment of \<open>B\<close>.\<close>

lemma kept_more: "kept isn X k p \<Longrightarrow> k \<le> k' \<Longrightarrow> kept isn X k' p"
  by (fastforce simp: kept_def)

lemma kept_insert: "kept isn (insert (i, n) X) k p \<longleftrightarrow> kept isn X k p \<and> (i + n \<le> k \<or> n \<le> length (pend_get (isn + of_nat i) p))"
  by (auto simp: kept_def)

lemma kept_update:
  assumes "kept isn X k p" and "length (pend_get q p) \<le> length b"
  shows "kept isn X k (AList.update q b p)"
  unfolding kept_def
proof (clarify)
  fix i n assume x: "(i, n) \<in> X" and no: "\<not> n \<le> length (pend_get (isn + of_nat i) (AList.update q b p))"
  have "i + n \<le> k \<or> n \<le> length (pend_get (isn + of_nat i) p)" using assms(1) x by (auto simp: kept_def)
  then show "i + n \<le> k" using assms(2) no by (auto simp: pend_get_update split: if_splits)
qed

lemma fed_park:
  assumes fed: "fed \<Gamma> isn B X s k" and seg: "i + length b \<le> length B" "b = take (length b) (drop i B)"
  shows "r_failed (stream_park now s (isn + of_nat i) b) \<or> parser_finished (r_parser s) \<or> r_failed s
     \<or> fed \<Gamma> isn B (insert (i, length b) X) (stream_park now s (isn + of_nat i) b) k"
proof -
  let ?q = "isn + of_nat i :: u32"
  have new: "segment_of isn B (?q, b)" using seg by (auto simp: segment_of_def)
  show ?thesis
    using fed new set_update_subset [of ?q b "r_pending s"] kept_update [of isn X k "r_pending s" ?q b]
    by (auto simp: stream_park_def Let_def fed_def kept_insert pend_get_update stream_fail_def)
qed

lemma fed_push_drain:
  assumes r: "gbind (stream_push \<Gamma> now s b) (stream_drain \<Gamma> \<rho> now) = Ret s'"
    and ok: "stream_ok s" "\<not> r_failed s" "\<not> parser_finished (r_parser s)" and fed: "fed \<Gamma> isn B X s k"
    and b: "k + length b \<le> length B" "b = take (length b) (drop k B)"
    and small: "length B < 2 ^ 30" "\<forall>(i, n) \<in> X. i < 2 ^ 31"
    and kept: "kept isn X (k + length b) (r_pending s)"
  shows "r_failed s' \<or> (\<exists>k' \<ge> k + length b. fed \<Gamma> isn B X s' k')"
proof -
  have ready: "push_ready s" using ok by (rule stream_ready)
  obtain t where t: "stream_push \<Gamma> now s b = Ret t" "stream_drain \<Gamma> \<rho> now t = Ret s'" using r by (auto simp: gbind_eq_Ret)
  have post: "stream_mid t" "r_expected t = r_expected s + of_nat (length b)" "r_pending t = r_pending s \<or> r_pending t = []"
    using stream_push_runs [OF ready, of \<Gamma> now b] t(1) by (auto simp: runs_def)
  have "pend_bytes (r_pending s) \<le> max_pending_bytes" using ready by (simp add: push_ready_def buffer_ok_def)
  then have "int (length b) + int (pend_bytes (r_pending s)) < 2 ^ 31" using b(1) small(1) by (simp add: max_pending_bytes_def)
  then have near: "pend_near (r_expected t) (r_pending t)"
    using pend_near_advance [of "r_expected s" "r_pending s" "length b"] ok post by (auto simp: stream_ok_def)
  have "r_failed t \<or> fed \<Gamma> isn B X t (k + length b)"
    by (rule fed_push [OF t(1) ready]) (use fed b kept in \<open>auto simp: fed_def\<close>)
  from fed_drain [OF t(2) post(1) near this _ small(2)] small(1) show ?thesis by simp
qed

lemma fed_add:
  assumes r: "stream_add \<Gamma> \<rho> now s (isn + of_nat i) b = Ret s'" and ok: "stream_ok s"
    and fed: "r_failed s \<or> (\<exists>k. fed \<Gamma> isn B X s k)"
    and seg: "i + length b \<le> length B" "b = take (length b) (drop i B)"
    and small: "length B < 2 ^ 30" "\<forall>(i, n) \<in> X. i < 2 ^ 31"
  shows "r_failed s' \<or> (\<exists>k. fed \<Gamma> isn B (insert (i, length b) X) s' k)"
proof (cases "r_failed s \<or> parser_finished (r_parser s) \<or> length b = 0")
  case True
  then have "s' = s" using r by (auto simp: stream_add_def)
  then show ?thesis using True fed by (auto simp: fed_def kept_insert)
next
  case run: False
  then obtain k where f: "fed \<Gamma> isn B X s k" using fed by auto
  have k: "k \<le> length B" "r_expected s = isn + of_nat k" "kept isn X k (r_pending s)" using f run by (auto simp: fed_def)
  have sd: "seq_diff (isn + of_nat i) (r_expected s) = int i - int k"
    unfolding k(2) by (rule seq_diff_offsets) (use seg(1) k(1) small(1) in simp)+
  have X: "\<forall>(i, n) \<in> insert (i, length b) X. i < 2 ^ 31" using small seg(1) by auto
  consider "k < i" | "i + length b \<le> k" | "i \<le> k" "k < i + length b" by linarith
  then show ?thesis
  proof cases
    case 1
    then have "s' = stream_park now s (isn + of_nat i) b" using r run sd by (simp add: stream_add_def)
    then show ?thesis using fed_park [OF f seg, of now] run by auto
  next
    case 2
    moreover have "0 < length b" using run by simp
    ultimately have "i < k" by linarith
    with 2 have "seq_diff (isn + of_nat i) (r_expected s) < 0" "neg32 (seq_diff (isn + of_nat i) (r_expected s)) \<ge> int (length b)"
      using sd k(1) small(1) by (auto simp: neg32_def)
    then have "s' = s" using r run by (simp add: stream_add_def)
    moreover have "fed \<Gamma> isn B (insert (i, length b) X) s k" using f 2 by (simp add: fed_def kept_insert)
    ultimately show ?thesis by auto
  next
    case 3
    define fresh where "fresh = drop (k - i) b"
    have l: "k + length fresh = i + length b" using 3 by (simp add: fresh_def)
    have "fresh = drop (k - i) (take (length b) (drop i B))" using seg(2) by (simp add: fresh_def)
    also have "\<dots> = take (length b - (k - i)) (drop k B)" using 3 by (simp add: drop_take)
    finally have "fresh = take (length b - (k - i)) (drop k B)" .
    moreover have "length fresh = length b - (k - i)" by (simp add: fresh_def)
    ultimately have fr: "fresh = take (length fresh) (drop k B)" by simp
    have "gbind (stream_push \<Gamma> now s fresh) (stream_drain \<Gamma> \<rho> now) = Ret s'"
    proof (cases "i = k")
      case True
      then show ?thesis using r run sd by (simp add: stream_add_def fresh_def)
    next
      case False
      then have d: "seq_diff (isn + of_nat i) (r_expected s) < 0" "- (2 ^ 31) < seq_diff (isn + of_nat i) (r_expected s)"
        "neg32 (seq_diff (isn + of_nat i) (r_expected s)) < int (length b)"
        using 3 sd k(1) small(1) by (auto simp: neg32_def)
      show ?thesis using r run d gfrom_int_neg [OF d] sd 3 by (simp add: stream_add_def fresh_def nat_diff_distrib)
    qed
    moreover have "k + length fresh \<le> length B" using l seg(1) by simp
    moreover have "kept isn X (k + length fresh) (r_pending s)" using kept_more [OF k(3)] by simp
    ultimately have "r_failed s' \<or> (\<exists>k' \<ge> k + length fresh. fed \<Gamma> isn B X s' k')"
      using fed_push_drain [of \<Gamma> now s fresh \<rho> s' isn B X k] ok run f fr small by blast
    then show ?thesis using l by (auto simp: fed_def kept_insert)
  qed
qed

text \<open>A list of segments, each with its time and schedule.\<close>

type_synonym arrival = "schedule \<times> int \<times> u32 \<times> bytes"

fun stream_adds :: "env \<Rightarrow> stream \<Rightarrow> arrival list \<Rightarrow> stream go" where
  "stream_adds \<Gamma> s [] = Ret s"
| "stream_adds \<Gamma> s ((\<rho>, now, sq, b) # xs) = gbind (stream_add \<Gamma> \<rho> now s sq b) (\<lambda>s'. stream_adds \<Gamma> s' xs)"

definition arrives :: "u32 \<Rightarrow> bytes \<Rightarrow> arrival \<Rightarrow> bool" where
  "arrives isn B a \<longleftrightarrow> segment_of isn B (snd (snd a))"

definition offsets :: "u32 \<Rightarrow> bytes \<Rightarrow> arrival list \<Rightarrow> (nat \<times> nat) set" where
  "offsets isn B xs = {(i, n). i + n \<le> length B \<and> (\<exists>\<rho> now. (\<rho>, now, isn + of_nat i, take n (drop i B)) \<in> set xs)}"

lemma stream_adds_fed:
  "stream_adds \<Gamma> s xs = Ret s' \<Longrightarrow> stream_ok s \<Longrightarrow> r_failed s \<or> (\<exists>k. fed \<Gamma> isn B X s k) \<Longrightarrow> \<forall>a \<in> set xs. arrives isn B a
   \<Longrightarrow> length B < 2 ^ 30 \<Longrightarrow> \<forall>(i, n) \<in> X. i < 2 ^ 31
   \<Longrightarrow> stream_ok s' \<and> (r_failed s' \<or> (\<exists>k. fed \<Gamma> isn B (X \<union> offsets isn B xs) s' k))"
proof (induction xs arbitrary: s X)
  case Nil
  then show ?case by (simp add: offsets_def)
next
  case (Cons a xs)
  obtain \<rho> now sq b where a: "a = (\<rho>, now, sq, b)" by (cases a)
  obtain i where i: "sq = isn + of_nat i" "i + length b \<le> length B" "b = take (length b) (drop i B)"
    using Cons.prems(4) a by (auto simp: arrives_def segment_of_def)
  obtain t where t: "stream_add \<Gamma> \<rho> now s sq b = Ret t" "stream_adds \<Gamma> t xs = Ret s'"
    using Cons.prems(1) a by (auto simp: gbind_eq_Ret)
  have "stream_ok t"
  proof (rule ccontr)
    assume no: "\<not> stream_ok t"
    have "seq_diff sq (r_expected s) \<noteq> - (2 ^ 31)" if run: "\<not> r_failed s" "\<not> parser_finished (r_parser s)"
    proof -
      obtain k where "k \<le> length B" "r_expected s = isn + of_nat k" using Cons.prems(3) run by (auto simp: fed_def)
      then have "seq_diff sq (r_expected s) = int i - int k"
        unfolding i(1) using i(2) Cons.prems(5) by (simp add: seq_diff_offsets)
      then show ?thesis using \<open>k \<le> length B\<close> Cons.prems(5) by simp
    qed
    moreover have "length b < 2 ^ 30" using i(2) Cons.prems(5) by linarith
    ultimately have "runs s (stream_add \<Gamma> \<rho> now s sq b) stream_ok" using Cons.prems(2) by (intro stream_add_runs) auto
    then show False using t(1) no by (simp add: runs_def)
  qed
  moreover have "r_failed t \<or> (\<exists>k. fed \<Gamma> isn B (insert (i, length b) X) t k)"
    by (rule fed_add [OF t(1) [unfolded i(1)] Cons.prems(2,3) i(2,3) Cons.prems(5,6)])
  moreover have "\<forall>(i, n) \<in> insert (i, length b) X. i < 2 ^ 31" using Cons.prems(5,6) i(2) by auto
  ultimately have IH: "stream_ok s' \<and> (r_failed s' \<or> (\<exists>k. fed \<Gamma> isn B (insert (i, length b) X \<union> offsets isn B xs) s' k))"
    using Cons.IH [OF t(2), of "insert (i, length b) X"] Cons.prems(4,5) by auto
  have "(j, n) = (i, length b)" if "isn + of_nat j = sq" "take n (drop j B) = b" "j + n \<le> length B" for j n
  proof -
    have "j = i" using that(1,3) i(1,2) Cons.prems(5) by (intro offset_inj [of isn]) auto
    moreover have "length b = n" using that(2,3) by auto
    ultimately show ?thesis by simp
  qed
  then have "X \<union> offsets isn B (a # xs) \<subseteq> insert (i, length b) X \<union> offsets isn B xs"
    using a by (auto simp: offsets_def)
  moreover have "kept isn Y k p" if "kept isn Z k p" "Y \<subseteq> Z" for Y Z k p using that by (auto simp: kept_def)
  ultimately show ?case using IH by (fastforce simp: fed_def)
qed

section \<open>A whole connection\<close>

lemma fed_new: "fed \<Gamma> isn B {} (new_stream now isn) 0"
  by (auto simp: fed_def fed_prefix_def kept_def new_stream_def stream0_def intro!: exI [of _ "[]"])

lemma stream_adds_new:
  assumes "stream_adds \<Gamma> (new_stream now isn) xs = Ret s" and "\<forall>a \<in> set xs. arrives isn B a" and "length B < 2 ^ 30"
  shows "stream_ok s \<and> (r_failed s \<or> (\<exists>k. fed \<Gamma> isn B (offsets isn B xs) s k))"
proof -
  have "r_failed (new_stream now isn) \<or> (\<exists>k. fed \<Gamma> isn B {} (new_stream now isn) k)" using fed_new by blast
  from stream_adds_fed [OF assms(1) stream_ok_new this assms(2,3)] show ?thesis by simp
qed

text \<open>A byte that is not fed lies in a waiting segment, which starts behind it.\<close>

lemma stream_adds_complete:
  assumes r: "stream_adds \<Gamma> (new_stream now isn) xs = Ret s" and a: "\<forall>a \<in> set xs. arrives isn B a" and B: "length B < 2 ^ 30"
    and cover: "\<forall>p < length B. \<exists>(i, n) \<in> offsets isn B xs. i \<le> p \<and> p < i + n"
    and run: "\<not> r_failed s" "\<not> parser_finished (r_parser s)"
  shows "\<exists>chunks. concat chunks = B \<and> feed_all (parser_feed \<Gamma>) parser0 chunks = Ret (r_parser s, None)"
proof -
  obtain k where ok: "stream_ok s" and f: "fed \<Gamma> isn B (offsets isn B xs) s k" using stream_adds_new [OF r a B] run by auto
  have k: "k \<le> length B" "r_expected s = isn + of_nat k" "kept isn (offsets isn B xs) k (r_pending s)" "fed_prefix \<Gamma> B (r_parser s) k"
    using f run by (auto simp: fed_def)
  have "k = length B"
  proof (rule ccontr)
    assume "k \<noteq> length B"
    then have "\<exists>(i, n) \<in> offsets isn B xs. i \<le> k \<and> k < i + n" using cover k(1) by simp
    then obtain i n where i: "(i, n) \<in> offsets isn B xs" "i \<le> k" "k < i + n" by auto
    have "n \<le> length (pend_get (isn + of_nat i) (r_pending s))" using k(3) i by (auto simp: kept_def)
    then have "pend_get (isn + of_nat i) (r_pending s) \<noteq> []" using i by auto
    then obtain b where "(isn + of_nat i, b) \<in> set (r_pending s)"
      by (auto simp: pend_get_def dest: map_of_SomeD split: option.splits)
    then have "0 < seq_diff (isn + of_nat i) (r_expected s)" using ok run by (force simp: stream_ok_def pend_ahead_def)
    moreover have "seq_diff (isn + of_nat i) (r_expected s) = int i - int k"
      unfolding k(2) by (rule seq_diff_offsets) (use i k(1) B in simp)+
    ultimately show False using i(2) by simp
  qed
  then show ?thesis using k(4) run by (auto simp: fed_prefix_def)
qed

end
