(* ===== verification/Dns.thy ===== *)
theory Dns imports Stream Wire Go_Map begin

text \<open>
  DNS responses and the names they give to addresses (\<^verbatim>\<open>internal/domain/dns.go\<close>).

  A message is parsed by \<open>dns_answer_records\<close> and \<open>dns_question\<close>; the cache is the Go map from an address to the
  names it was resolved from, in the order of their first observation, kept as an association list with
  distinct keys.  An address that no code looks at inside \<^verbatim>\<open>Expire\<close>'s \<^verbatim>\<open>range\<close> loop depends on another one, so the
  order of the loop is that of the list.

  The lemmas show that no message panics, that what is read from a response is what was written into it, that
  the cache stays within its bounds, and what \<^verbatim>\<open>Lookup\<close> answers.
\<close>

section \<open>Messages\<close>

definition dns_hint_age :: int where
  "dns_hint_age = 600 * second"

definition max_dns_addresses :: nat where
  "max_dns_addresses = 16384"

definition max_names_per_address :: nat where
  "max_names_per_address = 4"

record dns_record =
  q_address :: addr
  q_ttl :: int

text \<open>\<^verbatim>\<open>questionName\<close>: the loop over the labels, and the check of the name it collected.\<close>

function question_labels :: "bytes \<Rightarrow> nat \<Rightarrow> bytes \<Rightarrow> (bytes \<times> nat) option go" where
  "question_labels msg offset name =
     (if length msg \<le> offset then Ret None
      else gbind (gidx msg offset) (\<lambda>l. let n = unat l; offset' = offset + 1 in
        if n = 0 then Ret (Some (name, offset'))
        else if 63 < n \<or> length msg < offset' + n then Ret None
        else gbind (gslice msg offset' (offset' + n)) (\<lambda>part.
          question_labels msg (offset' + n) ((if name \<noteq> [] then name @ lit ''.'' else name) @ part))))"
  by pat_completeness auto
termination by (relation "measure (\<lambda>(msg, offset, _). length msg - offset)") auto

declare question_labels.simps [simp del]

definition question_name :: "env \<Rightarrow> bytes \<Rightarrow> nat \<Rightarrow> (bytes \<times> nat) option go" where
  "question_name \<Gamma> msg offset = gbind (question_labels msg offset []) (\<lambda>r. case r of
       None \<Rightarrow> Ret None
     | Some (name, offset') \<Rightarrow> if \<not> valid_hostname name then Ret None else Ret (Some (normalize_name \<Gamma> name, offset')))"

function skip_name :: "bytes \<Rightarrow> nat \<Rightarrow> nat option go" where
  "skip_name msg offset =
     (if length msg \<le> offset then Ret None
      else gbind (gidx msg offset) (\<lambda>l.
        if l = 0 then Ret (Some (offset + 1))
        else if l AND 0xc0 = 0xc0 then Ret (if offset + 2 \<le> length msg then Some (offset + 2) else None)
        else if 63 < unat l then Ret None
        else skip_name msg (offset + (1 + unat l))))"
  by pat_completeness auto
termination by (relation "measure (\<lambda>(msg, offset). length msg - offset)") auto

declare skip_name.simps [simp del]

text \<open>The loop over the answers; a malformed one ends it and keeps what was read.\<close>

fun dns_answers_loop :: "nat \<Rightarrow> bytes \<Rightarrow> nat \<Rightarrow> dns_record list \<Rightarrow> dns_record list go" where
  "dns_answers_loop 0 msg offset addrs = Ret addrs"
| "dns_answers_loop (Suc n) msg offset addrs = gbind (skip_name msg offset) (\<lambda>r. case r of
       None \<Rightarrow> Ret addrs
     | Some offset1 \<Rightarrow> if length msg < offset1 + 10 then Ret addrs
       else gbind (be16_at msg offset1) (\<lambda>record_type. gbind (be16_at msg (offset1 + 2)) (\<lambda>class.
            gbind (be32_at msg (offset1 + 4)) (\<lambda>ttl. gbind (be16_at msg (offset1 + 8)) (\<lambda>len.
            let l = unat len; offset2 = offset1 + 10 in
            if length msg < offset2 + l then Ret addrs
            else gbind
              (if class = 1 \<and> record_type = 1 \<and> l = 4 then gbind (gslice msg offset2 (offset2 + 4)) (\<lambda>a.
                 Ret (addrs @ [\<lparr>q_address = V4 a, q_ttl = uint ttl * second\<rparr>]))
               else if class = 1 \<and> record_type = 28 \<and> l = 16 then gbind (gslice msg offset2 (offset2 + 16)) (\<lambda>a.
                 Ret (addrs @ [\<lparr>q_address = unmap (V6 a []), q_ttl = uint ttl * second\<rparr>]))
               else Ret addrs) (\<lambda>addrs'.
              dns_answers_loop n msg (offset2 + l) addrs'))))))"

definition dns_answer_records :: "env \<Rightarrow> bytes \<Rightarrow> (bytes \<times> dns_record list) go" where
  "dns_answer_records \<Gamma> msg =
     gbind (any_c [Ret (length msg < 12), gbyte msg 2 (\<lambda>x. x AND 0x80 = 0), gbyte msg 3 (\<lambda>x. x AND 0x0f \<noteq> 0),
       gbind (gslice msg 4 6) (\<lambda>x. gbind (be16 x) (\<lambda>v. Ret (v \<noteq> 1)))]) (\<lambda>other.
     if other then Ret ([], [])
     else gbind (gslice msg 6 8) (\<lambda>x. gbind (be16 x) (\<lambda>answers. gbind (question_name \<Gamma> msg 12) (\<lambda>r. case r of
       None \<Rightarrow> Ret ([], [])
     | Some (name, offset) \<Rightarrow> if length msg < offset + 4 then Ret ([], [])
       else gbind (be16_at msg offset) (\<lambda>question_type.
         if question_type \<noteq> 1 \<and> question_type \<noteq> 28 then Ret ([], [])
         else gbind (dns_answers_loop (unat answers) msg (offset + 4) []) (\<lambda>addrs. Ret (name, addrs)))))))"

definition dns_answers :: "env \<Rightarrow> bytes \<Rightarrow> (bytes \<times> addr list) go" where
  "dns_answers \<Gamma> msg = gbind (dns_answer_records \<Gamma> msg) (\<lambda>(name, records).
     if records = [] then Ret (name, []) else Ret (name, map q_address records))"

definition dns_question :: "env \<Rightarrow> bytes \<Rightarrow> (bytes \<times> u16) option go" where
  "dns_question \<Gamma> msg =
     gbind (any_c [Ret (length msg < 12), gbind (gslice msg 4 6) (\<lambda>x. gbind (be16 x) (\<lambda>v. Ret (v = 0)))]) (\<lambda>none.
     if none then Ret None
     else gbind (question_name \<Gamma> msg 12) (\<lambda>r. case r of
       None \<Rightarrow> Ret None
     | Some (name, offset) \<Rightarrow> if length msg < offset + 2 then Ret None
       else gbind (be16_at msg offset) (\<lambda>t. Ret (Some (name, t)))))"

section \<open>The cache\<close>

record dns_name =
  n_name :: bytes
  n_first :: int
  n_last :: int

type_synonym dns_cache = "(addr \<times> dns_name list) list"

text \<open>The names of one address after an answer: a known name is seen again in place, a new one pushes out the oldest.\<close>

fun seen_again :: "bytes \<Rightarrow> int \<Rightarrow> dns_name list \<Rightarrow> dns_name list" where
  "seen_again name now [] = []"
| "seen_again name now (x # xs) =
     (if n_name x = name then x\<lparr>n_last := now\<rparr> # xs else x # seen_again name now xs)"

definition remember :: "bytes \<Rightarrow> int \<Rightarrow> dns_name list \<Rightarrow> dns_name list" where
  "remember name now known = (if name \<in> set (map n_name known) then seen_again name now known
     else let known' = known @ [\<lparr>n_name = name, n_first = now, n_last = now\<rparr>] in
       if max_names_per_address < length known' then drop 1 known' else known')"

text \<open>One record of a response: \<open>None\<close> is the \<^verbatim>\<open>return\<close> of a full cache.\<close>

definition observe_record :: "bytes \<Rightarrow> int \<Rightarrow> addr \<Rightarrow> dns_cache \<Rightarrow> dns_cache option" where
  "observe_record name now a c = (if map_of c a = None \<and> max_dns_addresses \<le> length c then None
     else Some (AList.update a (remember name now (case map_of c a of None \<Rightarrow> [] | Some known \<Rightarrow> known)) c))"

fun observe_records :: "bytes \<Rightarrow> dns_record list \<Rightarrow> int \<Rightarrow> dns_cache \<Rightarrow> dns_cache" where
  "observe_records name [] now c = c"
| "observe_records name (r # rs) now c = (case observe_record name now (q_address r) c of
     None \<Rightarrow> c | Some c' \<Rightarrow> observe_records name rs now c')"

definition dns_observe :: "env \<Rightarrow> bytes \<Rightarrow> int \<Rightarrow> dns_cache \<Rightarrow> dns_cache go" where
  "dns_observe \<Gamma> msg now c = gbind (dns_answer_records \<Gamma> msg) (\<lambda>(name, records). Ret (observe_records name records now c))"

definition names_of :: "dns_cache \<Rightarrow> addr \<Rightarrow> dns_name list" where
  "names_of c a = (case map_of c (unmap a) of None \<Rightarrow> [] | Some k \<Rightarrow> k)"

fun lookup_loop :: "dns_name list \<Rightarrow> int \<Rightarrow> bool \<Rightarrow> bytes \<Rightarrow> bytes" where
  "lookup_loop [] at later name = name"
| "lookup_loop (x # xs) at later name =
     (if at + second < n_first x then if name = [] \<and> later then n_name x else name
      else lookup_loop xs at later (n_name x))"

definition dns_lookup :: "dns_cache \<Rightarrow> addr \<Rightarrow> int \<Rightarrow> bool \<Rightarrow> bytes" where
  "dns_lookup c a at later = lookup_loop (names_of c a) at later []"

definition dns_names :: "dns_cache \<Rightarrow> addr \<Rightarrow> bytes list" where
  "dns_names c a = map n_name (names_of c a)"

definition dns_expire :: "int \<Rightarrow> dns_cache \<Rightarrow> dns_cache" where
  "dns_expire now c = map_sweep (\<lambda>a known.
     let known' = filter (\<lambda>x. \<not> dns_hint_age < time_sub now (Some (n_last x))) known in
     if length known' = 0 then None else Some known') c"

section \<open>Hints\<close>

definition new_dns_hint :: "bytes \<Rightarrow> stream" where
  "new_dns_hint name = evidence_stream (evidence0\<lparr>e_kind := KDns, e_dns := name\<rparr>)"

definition new_dns_process_hint :: "bytes \<Rightarrow> bytes \<Rightarrow> bool \<Rightarrow> stream" where
  "new_dns_process_hint name outer_sni ech =
     evidence_stream (evidence0\<lparr>e_kind := KDnsProcess, e_dns := name, e_sni := outer_sni, e_ech := ech\<rparr>)"

section \<open>Every message is read\<close>

lemma question_labels_returns:
  "returns (question_labels msg offset name) (\<lambda>r. case r of None \<Rightarrow> True | Some (n, o') \<Rightarrow> o' \<le> length msg)"
proof (induction "length msg - offset" arbitrary: offset name rule: less_induct)
  case less
  show ?case
    by (subst question_labels.simps) (auto simp: ret_simps Let_def intro!: less)
qed

lemma question_name_returns:
  "returns (question_name \<Gamma> msg offset) (\<lambda>r. case r of None \<Rightarrow> True
     | Some (n, o') \<Rightarrow> printable n \<and> o' \<le> length msg)"
  unfolding question_name_def
  by (rule returns_bind [OF question_labels_returns]) (auto split: option.splits intro: valid_hostname_normal_printable)

lemma skip_name_returns:
  "returns (skip_name msg offset) (\<lambda>r. case r of None \<Rightarrow> True | Some o' \<Rightarrow> o' \<le> length msg)"
proof (induction "length msg - offset" arbitrary: offset rule: less_induct)
  case less
  show ?case
    by (subst skip_name.simps) (auto simp: ret_simps Let_def intro!: less)
qed

definition record_ok :: "dns_record \<Rightarrow> bool" where
  "record_ok r \<longleftrightarrow> 0 \<le> q_ttl r \<and> q_ttl r < 2 ^ 32 * second \<and>
     (case q_address r of NoAddr \<Rightarrow> False | V4 b \<Rightarrow> length b = 4
      | V6 b z \<Rightarrow> length b = 16 \<and> z = [] \<and> \<not> has_prefix b v4_prefix)"

lemma record_ok_new:
  "length a = 4 \<Longrightarrow> record_ok \<lparr>q_address = V4 a, q_ttl = uint (v :: u32) * second\<rparr>"
  "length b = 16 \<Longrightarrow> record_ok \<lparr>q_address = unmap (V6 b []), q_ttl = uint (v :: u32) * second\<rparr>"
  using unsigned_less [of v, where ?'a = int] by (auto simp: record_ok_def v4_prefix_def)

lemma dns_answers_loop_returns:
  "returns (dns_answers_loop n msg offset addrs)
     (\<lambda>rs. length rs \<le> length addrs + n \<and> (list_all record_ok addrs \<longrightarrow> list_all record_ok rs))"
proof (induction n arbitrary: offset addrs)
  case (Suc n)
  let ?Q = "\<lambda>rs. length rs \<le> length addrs + Suc n \<and> (list_all record_ok addrs \<longrightarrow> list_all record_ok rs)"
  have IH: "returns (dns_answers_loop n msg o' addrs) ?Q" for o'
    by (rule returns_mono [OF Suc]) auto
  have IH1: "returns (dns_answers_loop n msg o' (addrs @ [r])) ?Q" if "record_ok r" for o' r
    by (rule returns_mono [OF Suc]) (use that in auto)
  show ?case
    unfolding dns_answers_loop.simps Let_def
    by (rule returns_bind [OF skip_name_returns])
      (auto simp: returns_def [of "Ret addrs"] ret_simps simp del: unmap.simps split: option.splits intro!: IH [simplified] IH1 [simplified] record_ok_new)
qed simp

section \<open>What was written is read\<close>

text \<open>A response as a resolver writes it: one question and its answers, whose names point back to the question.\<close>

definition dns_labels :: "bytes list \<Rightarrow> bytes" where
  "dns_labels ls = concat (map (\<lambda>l. of_nat (length l) # l) ls) @ [0]"

definition dns_answer :: "addr \<times> u32 \<Rightarrow> bytes" where
  "dns_answer r = (case r of (a, ttl) \<Rightarrow> [0xc0, 12] @ (case a of
       V4 b \<Rightarrow> be16_bytes 1 @ be16_bytes 1 @ be32_bytes ttl @ be16_bytes 4 @ b
     | V6 b z \<Rightarrow> be16_bytes 28 @ be16_bytes 1 @ be32_bytes ttl @ be16_bytes 16 @ b
     | NoAddr \<Rightarrow> []))"

definition dns_response :: "u16 \<Rightarrow> u16 \<Rightarrow> bytes list \<Rightarrow> (addr \<times> u32) list \<Rightarrow> bytes" where
  "dns_response ident qtype ls answers = be16_bytes ident @ [0x81, 0x80] @ be16_bytes 1 @ be16_bytes (of_nat (length answers))
     @ [0, 0, 0, 0] @ dns_labels ls @ be16_bytes qtype @ be16_bytes 1 @ concat (map dns_answer answers)"

definition label_ok :: "bytes \<Rightarrow> bool" where
  "label_ok l \<longleftrightarrow> l \<noteq> [] \<and> length l \<le> 63"

definition written_ok :: "addr \<times> u32 \<Rightarrow> bool" where
  "written_ok r \<longleftrightarrow> record_ok \<lparr>q_address = fst r, q_ttl = 0\<rparr>"

definition written_record :: "addr \<times> u32 \<Rightarrow> dns_record" where
  "written_record r = \<lparr>q_address = fst r, q_ttl = uint (snd r) * second\<rparr>"

fun with_labels :: "bytes \<Rightarrow> bytes list \<Rightarrow> bytes" where
  "with_labels name [] = name"
| "with_labels name (l # ls) = with_labels ((if name \<noteq> [] then name @ lit ''.'' else name) @ l) ls"

lemma with_labels_join: "list_all label_ok ls \<Longrightarrow> with_labels [] ls = join ls (lit ''.'')"
proof -
  have c: "name \<noteq> [] \<Longrightarrow> list_all label_ok ls \<Longrightarrow> with_labels name ls = name @ concat (map (\<lambda>l. lit ''.'' @ l) ls)" for name ls
    by (induction ls arbitrary: name) (auto simp: label_ok_def)
  have j: "join (l # ls) (lit ''.'') = l @ concat (map (\<lambda>l. lit ''.'' @ l) ls)" for l ls
    by (induction ls arbitrary: l) auto
  show "list_all label_ok ls \<Longrightarrow> with_labels [] ls = join ls (lit ''.'')"
    by (cases ls) (auto simp: c j label_ok_def)
qed

lemma question_labels_written:
  assumes "list_all label_ok ls"
  shows "question_labels (pre @ dns_labels ls @ post) (length pre) name
    = Ret (Some (with_labels name ls, length (pre @ dns_labels ls)))"
  using assms
proof (induction ls arbitrary: pre name)
  case Nil
  then show ?case by (subst question_labels.simps) (simp add: dns_labels_def gidx_def)
next
  case (Cons l ls)
  let ?n = "(if name \<noteq> [] then name @ lit ''.'' else name) @ l"
  let ?m = "pre @ dns_labels (l # ls) @ post"
  have l: "l \<noteq> []" "length l \<le> 63" using Cons.prems by (simp_all add: label_ok_def)
  have ok: "list_all label_ok ls" using Cons.prems by simp
  have m: "?m = (pre @ of_nat (length l) # l) @ dns_labels ls @ post" by (simp add: dns_labels_def)
  have u: "unat (of_nat (length l) :: byte) = length l" using l by (simp add: unat_of_nat)
  have g: "gidx ?m (length pre) = Ret (of_nat (length l))" by (simp add: m gidx_def nth_append)
  have s: "gslice ?m (length pre + 1) (length pre + 1 + length l) = Ret l" by (simp add: m gslice_def)
  have "question_labels ?m (length pre) name = question_labels ?m (length pre + 1 + length l) ?n"
    by (subst question_labels.simps) (use l in \<open>simp only: g gbind.simps Let_def u s; simp add: m\<close>)
  also have "\<dots> = Ret (Some (with_labels ?n ls, length (pre @ dns_labels (l # ls))))"
    using Cons.IH [OF ok, of "pre @ of_nat (length l) # l" ?n] by (simp add: m dns_labels_def)
  finally show ?case by simp
qed

lemma skip_name_pointer: "skip_name (pre @ [0xc0, x] @ post) (length pre) = Ret (Some (length pre + 2))"
  by (subst skip_name.simps) (simp add: gidx_def)

lemma dns_answers_loop_written:
  assumes "list_all written_ok as"
  shows "dns_answers_loop (length as) (pre @ concat (map dns_answer as) @ post) (length pre) acc = Ret (acc @ map written_record as)"
  using assms
proof (induction as arbitrary: pre acc)
  case (Cons r as)
  obtain a ttl where r: "r = (a, ttl)" by (cases r)
  have IH: "dns_answers_loop (length as) (pre @ dns_answer r @ concat (map dns_answer as) @ post) (length (pre @ dns_answer r)) (acc @ [written_record r])
      = Ret (acc @ map written_record (r # as))" using Cons.IH [of "pre @ dns_answer r"] Cons.prems by simp
  let ?m = "pre @ dns_answer r @ concat (map dns_answer as) @ post"
  obtain t b len where d: "dns_answer r = [0xc0, 12] @ be16_bytes t @ be16_bytes 1 @ be32_bytes ttl @ be16_bytes len @ b"
    and b: "length b = unat len"
    and k: "t = 1 \<and> len = 4 \<and> a = V4 b \<or> t = 28 \<and> len = 16 \<and> a = V6 b [] \<and> unmap a = a"
    using Cons.prems by (cases a) (auto simp: r dns_answer_def written_ok_def record_ok_def)
  have m: "?m = pre @ [0xc0, 12] @ be16_bytes t @ be16_bytes 1 @ be32_bytes ttl @ be16_bytes len @ b @ concat (map dns_answer as) @ post"
    by (simp add: d)
  have f1: "skip_name ?m (length pre) = Ret (Some (length pre + 2))"
    unfolding m using skip_name_pointer [of pre 12] by simp
  have f2: "be16_at ?m (length pre + 2) = Ret t"
    unfolding m using field_bytes(1) [of "pre @ [0xc0, 12]" "length pre + 2" t] by simp
  have f3: "be16_at ?m (length pre + 2 + 2) = Ret 1"
    unfolding m using field_bytes(1) [of "pre @ [0xc0, 12] @ be16_bytes t" "length pre + 2 + 2" 1] by simp
  have f4: "be32_at ?m (length pre + 2 + 4) = Ret ttl"
    unfolding m using field_bytes(2) [of "pre @ [0xc0, 12] @ be16_bytes t @ be16_bytes 1" "length pre + 2 + 4" ttl] by simp
  have f5: "be16_at ?m (length pre + 2 + 8) = Ret len"
    unfolding m using field_bytes(1) [of "pre @ [0xc0, 12] @ be16_bytes t @ be16_bytes 1 @ be32_bytes ttl" "length pre + 2 + 8" len] by simp
  have f6: "gslice ?m (length pre + 2 + 10) (length pre + 2 + 10 + unat len) = Ret b"
    unfolding m by (simp add: gslice_def b)
  have l: "length ?m < length pre + 2 + 10 \<longleftrightarrow> False" "length ?m < length pre + 2 + 10 + unat len \<longleftrightarrow> False"
    unfolding m by (simp_all add: b)
  have "dns_answers_loop (Suc (length as)) ?m (length pre) acc
      = dns_answers_loop (length as) ?m (length pre + 2 + 10 + unat len) (acc @ [written_record r])"
    unfolding dns_answers_loop.simps f1 f2 f3 f4 f5 gbind.simps option.case Let_def l if_False
    using k f6 by (auto simp: r written_record_def)
  then show ?case using IH by (simp add: d b ac_simps)
qed simp

lemma dns_answer_records_written:
  assumes "list_all label_ok ls" and "valid_hostname (join ls (lit ''.''))" and "list_all written_ok as"
    and "length as < 65536" and "qtype \<in> {1, 28}"
  shows "dns_answer_records \<Gamma> (dns_response ident qtype ls as) = Ret (normalize_name \<Gamma> (join ls (lit ''.'')), map written_record as)"
proof -
  let ?m = "dns_response ident qtype ls as"
  let ?h = "be16_bytes ident @ [0x81, 0x80] @ be16_bytes 1 @ be16_bytes (of_nat (length as)) @ [0, 0, 0, 0]"
  let ?q = "?h @ dns_labels ls"
  have m: "?m = ?h @ dns_labels ls @ be16_bytes qtype @ be16_bytes 1 @ concat (map dns_answer as)"
    by (simp add: dns_response_def)
  have h: "length ?h = 12" by simp
  have name: "question_name \<Gamma> ?m 12 = Ret (Some (normalize_name \<Gamma> (join ls (lit ''.'')), length ?q))"
    using question_labels_written [OF assms(1), of ?h _ "[]"] assms(1,2)
    by (simp add: question_name_def m h with_labels_join)
  have t: "be16_at ?m (length ?q) = Ret qtype"
    using field_bytes(1) [of ?q _ qtype] by (simp add: m)
  have loop: "dns_answers_loop (length as) ?m (length ?q + 4) [] = Ret (map written_record as)"
    using dns_answers_loop_written [OF assms(3), of "?q @ be16_bytes qtype @ be16_bytes 1" "[]" "[]"] by (simp add: m)
  have n: "unat (of_nat (length as) :: u16) = length as" using assms(4) by (simp add: unat_of_nat)
  have s: "gslice ?m 4 6 = Ret (be16_bytes 1)" "gslice ?m 6 8 = Ret (be16_bytes (of_nat (length as)))"
    by (simp_all add: m gslice_def)
  have b: "gbyte ?m 2 P = Ret (P 0x81)" "gbyte ?m 3 P = Ret (P 0x80)" for P
    by (simp_all add: m gbyte_def gidx_def be16_bytes_def)
  have l: "length ?m < 12 \<longleftrightarrow> False" "length ?m < length ?q + 4 \<longleftrightarrow> False" by (simp_all add: m)
  have c: "any_c [Ret (length ?m < 12), gbyte ?m 2 (\<lambda>x. x AND 0x80 = 0), gbyte ?m 3 (\<lambda>x. x AND 0x0f \<noteq> 0),
       gbind (gslice ?m 4 6) (\<lambda>x. gbind (be16 x) (\<lambda>v. Ret (v \<noteq> 1)))] = Ret False"
    by (simp add: l(1) b s(1))
  have q: "(qtype \<noteq> 1 \<and> qtype \<noteq> 28) = False" using assms(5) by auto
  show ?thesis
    unfolding dns_answer_records_def c
    unfolding s name be16_bytes gbind.simps if_False option.case l t q n loop prod.case ..
qed

section \<open>The cache stays bounded\<close>

text \<open>
  \<open>known_ok bound known\<close>: the names of one address.  With a bound (the time of the latest operation) their first
  observations are in order and no observation is later than it.
\<close>

definition known_ok :: "int option \<Rightarrow> dns_name list \<Rightarrow> bool" where
  "known_ok bound known \<longleftrightarrow> known \<noteq> [] \<and> length known \<le> max_names_per_address \<and> distinct (map n_name known)
     \<and> (case bound of None \<Rightarrow> True
        | Some now \<Rightarrow> sorted (map n_first known) \<and> list_all (\<lambda>x. n_first x \<le> n_last x \<and> n_last x \<le> now) known)"

definition later_than :: "int option \<Rightarrow> int \<Rightarrow> bool" where
  "later_than bound now \<longleftrightarrow> (case bound of None \<Rightarrow> True | Some t \<Rightarrow> t \<le> now)"

abbreviation cache_ok :: "int option \<Rightarrow> dns_cache \<Rightarrow> bool" where
  "cache_ok bound \<equiv> map_ok max_dns_addresses (\<lambda>_. known_ok bound)"

lemma map_seen_again [simp]: "map n_name (seen_again name now known) = map n_name known"
  "map n_first (seen_again name now known) = map n_first known" "length (seen_again name now known) = length known"
  "seen_again name now known = [] \<longleftrightarrow> known = []"
  by (induction known) auto

lemma seen_again_times:
  "list_all (\<lambda>x. n_first x \<le> n_last x \<and> n_last x \<le> now) known
   \<Longrightarrow> list_all (\<lambda>x. n_first x \<le> n_last x \<and> n_last x \<le> now) (seen_again name now known)"
  by (induction known) auto

lemma remember_ok:
  assumes "known = [] \<or> known_ok bound known" and "later_than bound now"
  shows "known_ok (map_option (\<lambda>_. now) bound) (remember name now known)"
proof -
  have le: "list_all (\<lambda>x. n_first x \<le> n_last x \<and> n_last x \<le> now) known" if "bound \<noteq> None"
    using assms that by (fastforce simp: known_ok_def later_than_def list_all_iff)
  show ?thesis
  proof (cases "name \<in> set (map n_name known)")
    case True
    then show ?thesis using assms seen_again_times [of now known name] le
      by (auto simp: remember_def known_ok_def split: option.splits)
  next
    case False
    let ?k = "known @ [\<lparr>n_name = name, n_first = now, n_last = now\<rparr>]"
    have l: "length known \<le> 4" using assms by (auto simp: known_ok_def max_names_per_address_def)
    have d: "distinct (map n_name ?k)" using assms False by (auto simp: known_ok_def)
    have t: "sorted (map n_first ?k) \<and> list_all (\<lambda>x. n_first x \<le> n_last x \<and> n_last x \<le> now) ?k" if "bound \<noteq> None"
      using assms le that by (fastforce simp: known_ok_def sorted_append list_all_iff)
    have "known_ok (map_option (\<lambda>_. now) bound) (drop 1 ?k)" if "length known = 4"
    proof -
      obtain x xs where "known = x # xs" using \<open>length known = 4\<close> by (cases known) auto
      then show ?thesis using d t that by (auto simp: known_ok_def max_names_per_address_def split: option.splits)
    qed
    moreover have "known_ok (map_option (\<lambda>_. now) bound) ?k" if "length known < 4"
      using d t that by (auto simp: known_ok_def max_names_per_address_def split: option.splits)
    ultimately show ?thesis using False l by (auto simp: remember_def Let_def max_names_per_address_def)
  qed
qed

lemma known_ok_later: "known_ok bound known \<Longrightarrow> later_than bound now \<Longrightarrow> known_ok (map_option (\<lambda>_. now) bound) known"
  by (fastforce simp: known_ok_def later_than_def list_all_iff split: option.splits)

lemma cache_ok_later: "cache_ok bound c \<Longrightarrow> later_than bound now \<Longrightarrow> cache_ok (map_option (\<lambda>_. now) bound) c"
  by (auto intro: map_ok_mono known_ok_later)

lemma observe_record_ok:
  assumes "cache_ok bound c" and "later_than bound now" and "observe_record name now a c = Some c'"
  shows "cache_ok (map_option (\<lambda>_. now) bound) c'"
proof -
  let ?known = "case map_of c a of None \<Rightarrow> [] | Some known \<Rightarrow> known"
  have "?known = [] \<or> known_ok bound ?known" using map_ok_get [OF assms(1)] by (auto split: option.splits)
  then have "known_ok (map_option (\<lambda>_. now) bound) (remember name now ?known)" using assms(2) by (rule remember_ok)
  then have "cache_ok (map_option (\<lambda>_. now) bound) (AList.update a (remember name now ?known) c)"
    using assms(3) by (intro map_ok_put cache_ok_later [OF assms(1,2)]) (auto simp: observe_record_def split: if_splits)
  then show ?thesis using assms(3) by (simp add: observe_record_def split: if_splits)
qed

lemma observe_records_ok:
  "cache_ok bound c \<Longrightarrow> later_than bound now \<Longrightarrow> cache_ok (map_option (\<lambda>_. now) bound) (observe_records name rs now c)"
proof (induction rs arbitrary: bound c)
  case (Cons r rs)
  have "later_than (map_option (\<lambda>_. now) bound) now" by (cases bound) (simp_all add: later_than_def)
  with Cons show ?case
    using Cons.IH [of "map_option (\<lambda>_. now) bound"] cache_ok_later [OF Cons.prems]
    by (auto split: option.splits dest!: observe_record_ok [OF Cons.prems] simp: option.map_comp comp_def)
qed (auto intro: cache_ok_later)

lemma dns_expire_ok:
  assumes "cache_ok bound c" and "later_than bound now"
  shows "cache_ok (map_option (\<lambda>_. now) bound) (dns_expire now c)"
  unfolding dns_expire_def
proof (rule map_ok_sweep [OF cache_ok_later [OF assms]])
  fix a :: addr and known w :: "dns_name list"
  let ?P = "\<lambda>x. \<not> dns_hint_age < time_sub now (Some (n_last x))"
  assume ok: "known_ok (map_option (\<lambda>_. now) bound) known"
    and w: "(let known' = filter ?P known in if length known' = 0 then None else Some known') = Some w"
  from w have w: "w = filter ?P known" "w \<noteq> []" by (auto simp: Let_def split: if_splits)
  have "length (filter ?P known) \<le> max_names_per_address"
    using ok by (auto simp: known_ok_def intro: order_trans [OF length_filter_le])
  then show "known_ok (map_option (\<lambda>_. now) bound) w"
    using ok w by (auto simp: known_ok_def distinct_map_filter sorted_filter list_all_iff split: option.splits)
qed

text \<open>Any use of the cache: responses and expiries at their times.\<close>

datatype dns_op = Observe bytes int | Expire int

fun op_time :: "dns_op \<Rightarrow> int" where
  "op_time (Observe msg now) = now"
| "op_time (Expire now) = now"

fun dns_step :: "env \<Rightarrow> dns_op \<Rightarrow> dns_cache \<Rightarrow> dns_cache go" where
  "dns_step \<Gamma> (Observe msg now) c = dns_observe \<Gamma> msg now c"
| "dns_step \<Gamma> (Expire now) c = Ret (dns_expire now c)"

fun dns_run :: "env \<Rightarrow> dns_op list \<Rightarrow> dns_cache \<Rightarrow> dns_cache go" where
  "dns_run \<Gamma> [] c = Ret c"
| "dns_run \<Gamma> (x # xs) c = gbind (dns_step \<Gamma> x c) (dns_run \<Gamma> xs)"

lemma dns_answer_records_returns:
  "returns (dns_answer_records \<Gamma> msg) (\<lambda>(name, rs). printable name \<and> length rs < 65536 \<and> list_all record_ok rs)"
proof (cases "12 \<le> length msg")
  case True
  have loop: "returns (dns_answers_loop n msg offset []) (\<lambda>rs. length rs < 65536 \<and> list_all record_ok rs)" if "n < 65536" for n offset
    by (rule returns_mono [OF dns_answers_loop_returns]) (use that in auto)
  show ?thesis using True
    unfolding dns_answer_records_def
    by (auto simp: ret_simps printable_def simp del: any_c.simps intro!: returns_mono [OF question_name_returns]
        loop be_val_take2_less split: option.splits)
next
  case False
  then show ?thesis by (simp add: dns_answer_records_def printable_def)
qed

lemma dns_step_ok:
  "cache_ok bound c \<Longrightarrow> later_than bound (op_time x) \<Longrightarrow> returns (dns_step \<Gamma> x c) (cache_ok (map_option (\<lambda>_. op_time x) bound))"
  by (cases x) (auto simp: dns_observe_def ret_simps dns_expire_ok observe_records_ok intro!: returns_mono [OF dns_answer_records_returns])

lemma dns_run_bounded: "cache_ok None c \<Longrightarrow> returns (dns_run \<Gamma> xs c) (cache_ok None)"
proof (induction xs arbitrary: c)
  case (Cons x xs)
  have "returns (dns_step \<Gamma> x c) (cache_ok None)" using dns_step_ok [OF Cons.prems, of x] by (simp add: later_than_def)
  then show ?case by (auto simp: ret_simps Cons.IH intro: returns_mono)
qed simp

lemma dns_run_in_order:
  assumes "cache_ok (Some t) c" and "sorted (t # map op_time xs)"
  shows "returns (dns_run \<Gamma> xs c) (cache_ok (Some (last (t # map op_time xs))))"
  using assms
proof (induction xs arbitrary: t c)
  case (Cons x xs)
  have "returns (dns_step \<Gamma> x c) (cache_ok (Some (op_time x)))"
    using dns_step_ok [OF Cons.prems(1), of x] Cons.prems(2) by (simp add: later_than_def)
  then show ?case using Cons.IH [of "op_time x"] Cons.prems(2) by (auto simp: ret_simps intro: returns_mono)
qed simp

section \<open>What a lookup answers\<close>

text \<open>
  The names that were first seen before the connection (with one second of grace); the answer is the one of
  them that was first seen last.
\<close>

definition names_before :: "int \<Rightarrow> dns_name list \<Rightarrow> dns_name list" where
  "names_before at known = filter (\<lambda>x. n_first x \<le> at + second) known"

lemma takeWhile_sorted: "sorted (map n_first known) \<Longrightarrow> takeWhile (\<lambda>x. n_first x \<le> t) known = filter (\<lambda>x. n_first x \<le> t) known"
proof (induction known)
  case (Cons x known)
  have "filter (\<lambda>x. n_first x \<le> t) known = []" if "\<not> n_first x \<le> t"
    using Cons.prems that by (fastforce simp: filter_empty_conv)
  then show ?case using Cons by simp
qed simp

lemma lookup_loop_takeWhile:
  "list_all (\<lambda>x. n_name x \<noteq> []) known \<Longrightarrow> lookup_loop known at later name =
     (let before = takeWhile (\<lambda>x. n_first x \<le> at + second) known in
      if before \<noteq> [] then n_name (last before)
      else if name = [] \<and> later \<and> known \<noteq> [] then n_name (hd known) else name)"
  by (induction known arbitrary: name) (auto simp: Let_def)

lemma names_of_ok: "cache_ok bound c \<Longrightarrow> names_of c a = [] \<or> known_ok bound (names_of c a)"
  by (auto simp: names_of_def split: option.splits dest: map_ok_get)

lemma dns_lookup_spec:
  assumes "cache_ok (Some now) c" and "list_all (\<lambda>x. n_name x \<noteq> []) (names_of c a)"
  shows "dns_lookup c a at later =
    (if names_before at (names_of c a) \<noteq> [] then n_name (last (names_before at (names_of c a)))
     else if later \<and> names_of c a \<noteq> [] then n_name (hd (names_of c a)) else [])"
proof -
  have "sorted (map n_first (names_of c a))" using names_of_ok [OF assms(1), of a] by (auto simp: known_ok_def)
  then show ?thesis
    using assms(2) by (simp add: dns_lookup_def lookup_loop_takeWhile takeWhile_sorted names_before_def Let_def)
qed

lemma dns_names_bounded: "cache_ok bound c \<Longrightarrow> length (dns_names c a) \<le> 4 \<and> distinct (dns_names c a)"
  using names_of_ok [of bound c a] by (auto simp: dns_names_def known_ok_def max_names_per_address_def)

text \<open>Expiry keeps exactly the names that an answer repeated within the window.\<close>

lemma names_of_expire:
  "distinct (map fst c) \<Longrightarrow> names_of (dns_expire now c) a = filter (\<lambda>x. time_sub now (Some (n_last x)) \<le> dns_hint_age) (names_of c a)"
  by (auto simp: dns_expire_def names_of_def map_of_sweep Let_def not_less split: option.splits)

text \<open>One address, two names, the first of them resolved again: the lookup keeps to the second one.\<close>

lemma names_of_observe:
  assumes "unmap (q_address r) = q_address r" and "length c < max_dns_addresses"
  shows "names_of (observe_records name [r] now c) (q_address r) = remember name now (names_of c (q_address r))"
  using assms by (simp add: observe_record_def names_of_def update_conv)

lemma dns_lookup_repeated:
  assumes "unmap (q_address r) = q_address r" and "a \<noteq> b" and "t1 \<le> at + second"
    and "t0 \<le> at + second"
  shows "dns_lookup (observe_records a [r] t2 (observe_records b [r] t1 (observe_records a [r] t0 []))) (q_address r) at later = b"
proof -
  let ?c = "observe_records b [r] t1 (observe_records a [r] t0 [])"
  have l: "length (observe_records a [r] t0 []) < max_dns_addresses" "length ?c < max_dns_addresses"
    by (auto simp: observe_record_def length_update max_dns_addresses_def)
  have "names_of (observe_records a [r] t2 ?c) (q_address r)
      = remember a t2 (remember b t1 (remember a t0 []))"
    using names_of_observe [OF assms(1) l(2)] names_of_observe [OF assms(1) l(1)] names_of_observe [OF assms(1), of "[]"]
    by (simp add: names_of_def max_dns_addresses_def)
  also have "\<dots> = [\<lparr>n_name = a, n_first = t0, n_last = t2\<rparr>, \<lparr>n_name = b, n_first = t1, n_last = t1\<rparr>]"
    using assms(2) by (simp add: remember_def max_names_per_address_def)
  finally show ?thesis using assms(3,4) by (simp add: dns_lookup_def)
qed

end
