(* ===== verification/Dns_State.thy ===== *)
theory Dns_State imports Dns Packet Go_Store begin

text \<open>
  What a flow's application said about itself (\<^verbatim>\<open>internal/app/appdetail.go\<close>): the questions and answers of a DNS flow
  and the identification strings of an SSH flow.  \<^verbatim>\<open>CapturedAt\<close> may be the zero time.

  The lemmas show that no message panics, that the ring of recent questions holds the last eight under their
  numbers, so that \<^verbatim>\<open>recentQueries\<close> lists them newest first, and that a banner is printable.
\<close>

section \<open>DNS flows\<close>

definition max_recent_dns_queries :: nat where
  "max_recent_dns_queries = 8"

record dns_pending =
  dp_id :: u16
  dp_at :: gotime
  dp_sequence :: u64

definition dns_pending0 :: dns_pending where
  "dns_pending0 = \<lparr>dp_id = 0, dp_at = None, dp_sequence = 0\<rparr>"

record dns_query_record =
  dq_name :: bytes
  dq_kind :: u16
  dq_code :: u8
  dq_addresses :: "dns_record list"
  dq_rtt :: int
  dq_at :: gotime
  dq_answered :: bool
  dq_sequence :: u64

record dns_state =
  ds_queries :: u64
  ds_responses :: u64
  ds_failures :: u64
  ds_name :: bytes
  ds_type :: u16
  ds_rcode :: u8
  ds_answered :: bool
  ds_last_rtt :: int
  ds_min_rtt :: int
  ds_pending :: "dns_pending list"
  ds_recent :: "dns_query_record list"

definition dns_state0 :: dns_state where
  "dns_state0 = \<lparr>ds_queries = 0, ds_responses = 0, ds_failures = 0, ds_name = [], ds_type = 0, ds_rcode = 0, ds_answered = False,
     ds_last_rtt = 0, ds_min_rtt = 0, ds_pending = replicate 4 dns_pending0, ds_recent = []\<rparr>"

text \<open>DNS over TCP: a whole message after its length prefix.\<close>

definition tcp_dns_message :: "bytes \<Rightarrow> bytes option go" where
  "tcp_dns_message payload = (if length payload < 2 then Ret None
     else gbind (be16 payload) (\<lambda>n. if int (unat n) \<noteq> int (length payload) - 2 then Ret None
       else gbind (gfrom payload 2) (\<lambda>msg. Ret (Some msg))))"

definition query_slot :: "u64 \<Rightarrow> nat" where
  "query_slot number = unat ((number - 1) mod of_nat max_recent_dns_queries)"

text \<open>One turn of the loop over the pending queries, when a response arrives.\<close>

definition answer_pending :: "u16 \<Rightarrow> gotime \<Rightarrow> dns_record list \<Rightarrow> nat \<Rightarrow> dns_pending \<Rightarrow> dns_state \<Rightarrow> dns_state go" where
  "answer_pending ident captured addresses i query s = (if dp_at query \<noteq> None \<and> dp_id query = ident then
     let elapsed = time_diff captured (dp_at query);
       s1 = (if 0 \<le> elapsed then s\<lparr>ds_last_rtt := elapsed, ds_min_rtt := if ds_min_rtt s = 0 \<or> elapsed < ds_min_rtt s then elapsed else ds_min_rtt s\<rparr> else s);
       rtt = (if 0 \<le> elapsed then elapsed else 0); slot = query_slot (dp_sequence query) in
     gbind (gidx (ds_recent s1) slot) (\<lambda>entry.
       let s2 = (if dq_sequence entry = dp_sequence query
         then s1\<lparr>ds_recent := (ds_recent s1)[slot := entry\<lparr>dq_code := ds_rcode s1, dq_answered := True, dq_rtt := rtt, dq_addresses := take 4 addresses\<rparr>]\<rparr>
         else s1) in
       gbind (gput (ds_pending s2) i dns_pending0) (\<lambda>waiting. Ret (s2\<lparr>ds_pending := waiting\<rparr>)))
     else Ret s)"

fun answer_all :: "u16 \<Rightarrow> gotime \<Rightarrow> dns_record list \<Rightarrow> nat \<Rightarrow> dns_pending list \<Rightarrow> dns_state \<Rightarrow> dns_state go" where
  "answer_all ident captured addresses i [] s = Ret s"
| "answer_all ident captured addresses i (query # queries) s =
     gbind (answer_pending ident captured addresses i query s) (answer_all ident captured addresses (Suc i) queries)"

definition dns_respond :: "u16 \<Rightarrow> gotime \<Rightarrow> dns_record list \<Rightarrow> byte \<Rightarrow> dns_state \<Rightarrow> dns_state go" where
  "dns_respond ident captured addresses flags s = (let
     s1 = s\<lparr>ds_responses := ds_responses s + 1, ds_rcode := flags AND 0x0f, ds_answered := True\<rparr>;
     s2 = (if ds_rcode s1 \<noteq> 0 then s1\<lparr>ds_failures := ds_failures s1 + 1\<rparr> else s1) in
     answer_all ident captured addresses 0 (ds_pending s2) s2)"

definition dns_ask :: "bytes \<Rightarrow> u16 \<Rightarrow> u16 \<Rightarrow> gotime \<Rightarrow> dns_state \<Rightarrow> dns_state go" where
  "dns_ask name qkind ident captured s = (let number = ds_queries s + 1;
     entry = \<lparr>dq_name = name, dq_kind = qkind, dq_code = 0, dq_addresses = [], dq_rtt = 0, dq_at = captured, dq_answered = False, dq_sequence = number\<rparr> in
     gbind (gput (ds_pending s) (unat (ds_queries s mod of_nat (length (ds_pending s)))) \<lparr>dp_id = ident, dp_at = captured, dp_sequence = number\<rparr>) (\<lambda>waiting.
     gbind (if length (ds_recent s) < max_recent_dns_queries then Ret (ds_recent s @ [entry])
       else gput (ds_recent s) (query_slot number) entry) (\<lambda>recent.
     Ret (s\<lparr>ds_name := name, ds_type := qkind, ds_pending := waiting, ds_queries := ds_queries s + 1, ds_answered := False, ds_recent := recent\<rparr>))))"

definition dns_message_seen :: "env \<Rightarrow> bytes \<Rightarrow> gotime \<Rightarrow> dns_record list \<Rightarrow> dns_state \<Rightarrow> dns_state go" where
  "dns_message_seen \<Gamma> msg captured addresses s = (if length msg < 12 then Ret s
     else gbind (gbyte msg 2 (\<lambda>x. x AND 0x80 \<noteq> 0)) (\<lambda>response. gbind (be16 msg) (\<lambda>ident.
       if response then gbind (gidx msg 3) (\<lambda>flags. gbind (dns_respond ident captured addresses flags s) (\<lambda>s'.
         if ds_name s' = [] then gbind (dns_question \<Gamma> msg) (\<lambda>q. case q of
             None \<Rightarrow> Ret s' | Some (name, qtype) \<Rightarrow> Ret (s'\<lparr>ds_name := name, ds_type := qtype\<rparr>))
         else Ret s'))
       else gbind (dns_question \<Gamma> msg) (\<lambda>q. case (case q of None \<Rightarrow> ([], 0) | Some nt \<Rightarrow> nt) of
         (name, qkind) \<Rightarrow> dns_ask name qkind ident captured s))))"

definition dns_state_observe :: "env \<Rightarrow> packet \<Rightarrow> dns_record list \<Rightarrow> dns_state \<Rightarrow> dns_state go" where
  "dns_state_observe \<Gamma> p addresses s =
     gbind (if k_protocol p = 6 then tcp_dns_message (k_payload p) else Ret (Some (k_payload p))) (\<lambda>m. case m of
       None \<Rightarrow> Ret s | Some msg \<Rightarrow> dns_message_seen \<Gamma> msg (k_captured_at p) addresses s)"

text \<open>\<^verbatim>\<open>recentQueries\<close>: the records from the newest question on.\<close>

fun recent_loop :: "nat \<Rightarrow> u64 \<Rightarrow> dns_state \<Rightarrow> dns_query_record list \<Rightarrow> dns_query_record list go" where
  "recent_loop 0 number s queries = Ret queries"
| "recent_loop (Suc n) number s queries = (if number = 0 \<or> length (ds_recent s) \<le> length queries then Ret queries
     else gbind (gidx (ds_recent s) (query_slot number)) (\<lambda>entry.
       recent_loop n (number - 1) s (if dq_sequence entry = number then queries @ [entry] else queries)))"

text \<open>The loop counts down from \<open>ds_queries\<close>, which bounds its turns.\<close>

definition recent_queries :: "dns_state \<Rightarrow> dns_query_record list go" where
  "recent_queries s = recent_loop (unat (ds_queries s)) (ds_queries s) s []"

section \<open>SSH flows\<close>

definition ssh_banner_text :: "bytes \<Rightarrow> bytes" where
  "ssh_banner_text payload = filter (\<lambda>x. 32 \<le> x \<and> x \<le> 126) (fst (cut (take 255 payload) [10]))"

definition ssh_banner :: "packet \<Rightarrow> addrport \<Rightarrow> (bytes \<times> bytes) option \<Rightarrow> (bytes \<times> bytes) option" where
  "ssh_banner p initiator ssh = (let client = (k_source p = initiator) in
     if (case ssh of None \<Rightarrow> False | Some (a, b) \<Rightarrow> (if client then a else b) \<noteq> []) \<or> \<not> addr_valid (fst initiator)
       \<or> \<not> has_prefix (k_payload p) (lit ''SSH-'') then ssh
     else (case (case ssh of None \<Rightarrow> ([], []) | Some both \<Rightarrow> both) of
       (a, b) \<Rightarrow> Some (if client then (ssh_banner_text (k_payload p), b) else (a, ssh_banner_text (k_payload p)))))"

section \<open>The ring of questions\<close>

text \<open>
  Slot \<open>k\<close> of the ring holds the newest question whose number is \<open>k + 1\<close> modulo eight; a pending query is one of the
  questions so far.
\<close>

definition dns_state_ok :: "dns_state \<Rightarrow> bool" where
  "dns_state_ok s \<longleftrightarrow> length (ds_pending s) = 4 \<and> length (ds_recent s) = min (unat (ds_queries s)) max_recent_dns_queries
     \<and> list_all (\<lambda>q. dp_at q \<noteq> None \<longrightarrow> 0 < dp_sequence q \<and> dp_sequence q \<le> ds_queries s) (ds_pending s)
     \<and> (\<forall>n. 0 < n \<longrightarrow> n \<le> unat (ds_queries s) \<longrightarrow> unat (ds_queries s) < n + max_recent_dns_queries
         \<longrightarrow> unat (dq_sequence (ds_recent s ! ((n - 1) mod max_recent_dns_queries))) = n)"

lemma dns_state_ok0 [simp]: "dns_state_ok dns_state0"
  by (simp add: dns_state_ok_def dns_state0_def max_recent_dns_queries_def dns_pending0_def list_all_iff)

lemma query_slot_nat: "0 < number \<Longrightarrow> query_slot number = (unat number - 1) mod max_recent_dns_queries"
  by (simp add: query_slot_def max_recent_dns_queries_def unat_mod unat_sub word_less_nat_alt word_le_nat_alt Suc_leI)

lemma slot_in_ring:
  assumes "dns_state_ok s" and "0 < number" and "number \<le> ds_queries s"
  shows "query_slot number < length (ds_recent s)"
proof -
  have n: "0 < unat number" "unat number \<le> unat (ds_queries s)" using assms(2,3) by (simp_all add: word_less_nat_alt word_le_nat_alt)
  have "(unat number - 1) mod 8 \<le> unat number - 1" by (rule mod_less_eq_dividend)
  moreover have "(unat number - 1) mod 8 < 8" by simp
  ultimately show ?thesis
    using assms(1) n by (simp add: query_slot_nat [OF assms(2)] dns_state_ok_def max_recent_dns_queries_def)
qed

abbreviation query_ok :: "dns_state \<Rightarrow> dns_pending \<Rightarrow> bool" where
  "query_ok s q \<equiv> dp_at q \<noteq> None \<longrightarrow> 0 < dp_sequence q \<and> dp_sequence q \<le> ds_queries s"

lemma answer_pending_returns:
  assumes "dns_state_ok s" and "query_ok s q" and "i < 4"
  shows "returns (answer_pending ident captured addresses i q s) (\<lambda>s'. dns_state_ok s' \<and> ds_queries s' = ds_queries s)"
proof (cases "dp_at q \<noteq> None \<and> dp_id q = ident")
  case True
  then have slot: "query_slot (dp_sequence q) < length (ds_recent s)" using assms slot_in_ring by blast
  have len: "length (ds_pending s) = 4" using assms(1) by (simp add: dns_state_ok_def)
  have put: "list_all (query_ok s) ((ds_pending s)[i := dns_pending0])"
    using assms(1) by (auto simp: dns_state_ok_def list_all_iff dns_pending0_def dest!: set_update_subset_insert [THEN subsetD])
  show ?thesis
    using True slot len assms(1,3) put
    by (auto simp: answer_pending_def Let_def gidx_in dns_state_ok_def nth_list_update)
next
  case False
  then have "answer_pending ident captured addresses i q s = Ret s" by (auto simp: answer_pending_def)
  then show ?thesis using assms(1) by simp
qed

lemma answer_all_returns:
  "dns_state_ok s \<Longrightarrow> list_all (query_ok s) queries \<Longrightarrow> i + length queries \<le> 4
    \<Longrightarrow> returns (answer_all ident captured addresses i queries s) (\<lambda>s'. dns_state_ok s' \<and> ds_queries s' = ds_queries s)"
proof (induction queries arbitrary: i s)
  case (Cons q queries)
  have "returns (answer_pending ident captured addresses i q s) (\<lambda>s'. dns_state_ok s' \<and> ds_queries s' = ds_queries s)"
    using Cons.prems by (intro answer_pending_returns) simp_all
  then show ?case unfolding answer_all.simps
  proof (rule returns_bind)
    fix t
    assume t: "dns_state_ok t \<and> ds_queries t = ds_queries s"
    then have "list_all (query_ok t) queries" using Cons.prems(2) by simp
    then show "returns (answer_all ident captured addresses (Suc i) queries t) (\<lambda>s'. dns_state_ok s' \<and> ds_queries s' = ds_queries s)"
      using Cons.IH [of t "Suc i"] t Cons.prems(3) by simp
  qed
qed simp

lemma dns_respond_returns:
  assumes "dns_state_ok s"
  shows "returns (dns_respond ident captured addresses flags s) (\<lambda>s'. dns_state_ok s' \<and> ds_queries s' = ds_queries s)"
proof -
  have all: "returns (answer_all ident captured addresses 0 (ds_pending t) t) (\<lambda>s'. dns_state_ok s' \<and> ds_queries s' = ds_queries t)"
    if "dns_state_ok t" for t
    using that by (intro answer_all_returns) (auto simp: dns_state_ok_def)
  let ?s1 = "s\<lparr>ds_responses := ds_responses s + 1, ds_rcode := flags AND 0x0f, ds_answered := True\<rparr>"
  have "dns_state_ok ?s1" "dns_state_ok (?s1\<lparr>ds_failures := ds_failures ?s1 + 1\<rparr>)" using assms by (simp_all add: dns_state_ok_def)
  note both = this [THEN all]
  show ?thesis
  proof (cases "flags AND 0x0f = 0")
    case True
    then have "dns_respond ident captured addresses flags s = answer_all ident captured addresses 0 (ds_pending ?s1) ?s1"
      by (simp add: dns_respond_def)
    then show ?thesis using both(1) by simp
  next
    case False
    then have "dns_respond ident captured addresses flags s
        = answer_all ident captured addresses 0 (ds_pending ?s1) (?s1\<lparr>ds_failures := ds_failures ?s1 + 1\<rparr>)"
      by (simp add: dns_respond_def)
    then show ?thesis using both(2) by simp
  qed
qed

text \<open>A question gets the next number and the slot of the oldest one.\<close>

lemma dns_ask_returns:
  assumes ok: "dns_state_ok s" and small: "unat (ds_queries s) < 2 ^ 64 - 1"
  shows "returns (dns_ask name qkind ident captured s) (\<lambda>s'. dns_state_ok s' \<and> ds_queries s' = ds_queries s + 1)"
proof -
  define n where "n = unat (ds_queries s)"
  let ?r = max_recent_dns_queries
  let ?new = "\<lparr>dq_name = name, dq_kind = qkind, dq_code = 0, dq_addresses = [], dq_rtt = 0, dq_at = captured, dq_answered = False,
    dq_sequence = ds_queries s + 1\<rparr>"
  let ?p = "\<lparr>dp_id = ident, dp_at = captured, dp_sequence = ds_queries s + 1\<rparr>"
  have n1: "unat (ds_queries s + 1) = Suc n" using small by (simp add: n_def unat_word_ariths)
  have pos: "0 < ds_queries s + 1" "ds_queries s \<le> ds_queries s + 1" using n1 by (simp_all add: word_less_nat_alt word_le_nat_alt n_def)
  have len: "length (ds_pending s) = 4" "length (ds_recent s) = min n ?r" using ok by (simp_all add: dns_state_ok_def n_def)
  have slot4: "unat (ds_queries s mod of_nat (length (ds_pending s))) < 4" by (simp add: len(1) unat_mod)
  have slot: "query_slot (ds_queries s + 1) = n mod ?r" using query_slot_nat [OF pos(1)] by (simp add: n1)
  have pend: "list_all (\<lambda>q. dp_at q \<noteq> None \<longrightarrow> 0 < dp_sequence q \<and> dp_sequence q \<le> ds_queries s + 1) ((ds_pending s)[k := ?p])" for k
    using ok pos by (auto simp: dns_state_ok_def list_all_iff dest!: set_update_subset_insert [THEN subsetD] intro: order_trans)
  have old: "unat (dq_sequence (ds_recent s ! ((m - 1) mod ?r))) = m" if "0 < m" "m \<le> n" "n < m + ?r" for m
    using ok that by (simp add: dns_state_ok_def n_def)
  obtain recent where recent: "(if length (ds_recent s) < ?r then Ret (ds_recent s @ [?new]) else gput (ds_recent s) (query_slot (ds_queries s + 1)) ?new) = Ret recent"
      and "length recent = min (Suc n) ?r" "recent ! (n mod ?r) = ?new" "\<And>k. k < length (ds_recent s) \<Longrightarrow> k \<noteq> n mod ?r \<Longrightarrow> recent ! k = ds_recent s ! k"
  proof (cases "n < ?r")
    case True
    then show thesis using that [of "ds_recent s @ [?new]"] len(2) by (simp add: nth_append)
  next
    case False
    then show thesis using that [of "(ds_recent s)[n mod ?r := ?new]"] len(2) by (simp add: slot max_recent_dns_queries_def)
  qed
  moreover have "unat (dq_sequence (recent ! ((m - 1) mod ?r))) = m" if m: "0 < m" "m \<le> Suc n" "Suc n < m + ?r" for m
  proof (cases "m = Suc n")
    case True
    then show ?thesis using calculation(3) n1 by simp
  next
    case False
    then have le: "m \<le> n" "n < m + ?r" using m by simp_all
    have "(m - 1) mod ?r \<noteq> n mod ?r"
    proof
      assume "(m - 1) mod ?r = n mod ?r"
      then have "?r dvd n - (m - 1)" using le(1) by (metis diff_le_self le_trans mod_eq_dvd_iff_nat)
      moreover have "0 < n - (m - 1)" "n - (m - 1) < ?r" using m le by simp_all
      ultimately show False by (simp add: nat_dvd_not_less)
    qed
    moreover have "(m - 1) mod ?r < length (ds_recent s)"
      using m le(1) mod_less_eq_dividend [of "m - 1" ?r] by (simp add: len(2) max_recent_dns_queries_def)
    ultimately show ?thesis using \<open>\<And>k. k < length (ds_recent s) \<Longrightarrow> k \<noteq> n mod ?r \<Longrightarrow> recent ! k = ds_recent s ! k\<close> old [OF m(1) le] by simp
  qed
  ultimately have "dns_state_ok (s\<lparr>ds_name := name, ds_type := qkind, ds_pending := (ds_pending s)[k := ?p], ds_queries := ds_queries s + 1,
      ds_answered := False, ds_recent := recent\<rparr>)" for k
    using pend len(1) n1 by (simp add: dns_state_ok_def)
  then show ?thesis using recent slot4 len(1) by (simp add: dns_ask_def Let_def)
qed

lemma dns_question_returns: "returns (dns_question \<Gamma> msg) (\<lambda>_. True)"
  unfolding dns_question_def
  by (auto simp: ret_simps simp del: any_c.simps intro!: returns_mono [OF question_name_returns] split: option.splits)

lemma tcp_dns_message_returns: "returns (tcp_dns_message payload) (\<lambda>_. True)"
  by (auto simp: tcp_dns_message_def ret_simps)

lemma dns_message_seen_returns:
  assumes ok: "dns_state_ok s" and small: "unat (ds_queries s) < 2 ^ 64 - 1"
  shows "returns (dns_message_seen \<Gamma> msg captured addresses s) (\<lambda>s'. dns_state_ok s' \<and> (ds_queries s' = ds_queries s \<or> ds_queries s' = ds_queries s + 1))"
proof (cases "length msg < 12")
  case False
  have respond: "returns (gbind (dns_respond ident captured addresses flags s) (\<lambda>s'.
         if ds_name s' = [] then gbind (dns_question \<Gamma> msg) (\<lambda>q. case q of
             None \<Rightarrow> Ret s' | Some (name, qtype) \<Rightarrow> Ret (s'\<lparr>ds_name := name, ds_type := qtype\<rparr>))
         else Ret s')) (\<lambda>s'. dns_state_ok s' \<and> (ds_queries s' = ds_queries s \<or> ds_queries s' = ds_queries s + 1))" for ident flags
    by (rule returns_bind [OF dns_respond_returns [OF ok]])
      (auto intro!: returns_bind [OF dns_question_returns] simp: dns_state_ok_def split: option.splits)
  have ask: "returns (gbind (dns_question \<Gamma> msg) (\<lambda>q. case (case q of None \<Rightarrow> ([], 0) | Some nt \<Rightarrow> nt) of
         (name, qkind) \<Rightarrow> dns_ask name qkind ident captured s)) (\<lambda>s'. dns_state_ok s' \<and> (ds_queries s' = ds_queries s \<or> ds_queries s' = ds_queries s + 1))" for ident
    by (rule returns_bind [OF dns_question_returns]) (auto split: prod.split intro: returns_mono [OF dns_ask_returns [OF ok small]])
  show ?thesis using False respond ask unfolding dns_message_seen_def by (auto simp: ret_simps)
qed (use ok in \<open>simp add: dns_message_seen_def\<close>)

lemma dns_state_observe_returns:
  assumes "dns_state_ok s" and "unat (ds_queries s) < 2 ^ 64 - 1"
  shows "returns (dns_state_observe \<Gamma> p addresses s) (\<lambda>s'. dns_state_ok s' \<and> (ds_queries s' = ds_queries s \<or> ds_queries s' = ds_queries s + 1))"
proof -
  have "returns (if k_protocol p = 6 then tcp_dns_message (k_payload p) else Ret (Some (k_payload p))) (\<lambda>_. True)"
    using tcp_dns_message_returns by simp
  then show ?thesis unfolding dns_state_observe_def
    by (rule returns_bind) (use assms dns_message_seen_returns [OF assms] in \<open>auto split: option.split\<close>)
qed

lemma dns_run_ok:
  assumes "dns_state_ok s" and "unat (ds_queries s) + length ps < 2 ^ 64"
  shows "returns (gfold (\<lambda>(p, addresses). dns_state_observe \<Gamma> p addresses) ps s) dns_state_ok"
  using assms
proof (induction ps arbitrary: s)
  case (Cons x ps)
  obtain p addresses where x: "x = (p, addresses)" by (cases x)
  have small: "unat (ds_queries s) < 2 ^ 64 - 1" using Cons.prems(2) by simp
  have next_: "unat (ds_queries s + 1) = Suc (unat (ds_queries s))" using small by (simp add: unat_word_ariths)
  have "returns (gfold (\<lambda>(p, addresses). dns_state_observe \<Gamma> p addresses) ps s') dns_state_ok"
    if "dns_state_ok s'" "ds_queries s' = ds_queries s \<or> ds_queries s' = ds_queries s + 1" for s'
    using Cons.IH [OF that(1)] that(2) Cons.prems(2) next_ by auto
  then show ?case unfolding x gfold.simps prod.case
    by (intro returns_bind [OF dns_state_observe_returns [OF Cons.prems(1) small]]) blast
qed simp

text \<open>The questions are listed from the newest on.\<close>

lemma recent_loop_Ret:
  assumes ok: "dns_state_ok s"
  shows "unat number + length queries = unat (ds_queries s) \<Longrightarrow> length queries \<le> length (ds_recent s) \<Longrightarrow> n = unat number
    \<Longrightarrow> returns (recent_loop n number s queries) (\<lambda>r. map (unat \<circ> dq_sequence) r
      = map (unat \<circ> dq_sequence) queries @ rev [Suc (unat (ds_queries s) - length (ds_recent s)) ..< Suc (unat number)])"
proof (induction n arbitrary: number queries)
  case 0
  have "length (ds_recent s) \<le> unat (ds_queries s)" using ok by (simp add: dns_state_ok_def)
  then show ?case using "0" by simp
next
  case (Suc n)
  have rec: "length (ds_recent s) = min (unat (ds_queries s)) max_recent_dns_queries" using ok by (simp add: dns_state_ok_def)
  show ?case
  proof (cases "length (ds_recent s) \<le> length queries")
    case True
    then have "unat number = unat (ds_queries s) - length (ds_recent s)" using Suc.prems by simp
    then show ?thesis using True by simp
  next
    case False
    have pos: "0 < number" "number \<le> ds_queries s" using Suc.prems by (simp_all add: word_less_nat_alt word_le_nat_alt)
    have near: "unat (ds_queries s) < unat number + max_recent_dns_queries" using False Suc.prems(1) rec by simp
    have "unat (dq_sequence (ds_recent s ! ((unat number - 1) mod max_recent_dns_queries))) = unat number"
      using ok near pos by (simp add: dns_state_ok_def word_less_nat_alt word_le_nat_alt)
    then have entry: "dq_sequence (ds_recent s ! query_slot number) = number" using query_slot_nat [OF pos(1)] by (simp add: word_unat_eq_iff)
    have n1: "unat (number - 1) = n" using Suc.prems(3) pos(1) by (simp add: unat_sub word_le_nat_alt word_less_nat_alt)
    have "returns (recent_loop n (number - 1) s (queries @ [ds_recent s ! query_slot number])) (\<lambda>r. map (unat \<circ> dq_sequence) r
      = map (unat \<circ> dq_sequence) (queries @ [ds_recent s ! query_slot number])
        @ rev [Suc (unat (ds_queries s) - length (ds_recent s)) ..< Suc (unat (number - 1))])"
      using Suc.prems False n1 by (intro Suc.IH) simp_all
    moreover have "unat (ds_queries s) - length (ds_recent s) < unat number" using near rec pos(1) by (simp add: word_less_nat_alt)
    then have "[Suc (unat (ds_queries s) - length (ds_recent s)) ..< Suc (unat number)]
        = [Suc (unat (ds_queries s) - length (ds_recent s)) ..< Suc n] @ [unat number]"
      using Suc.prems(3) upt_Suc_append [of "Suc (unat (ds_queries s) - length (ds_recent s))" "unat number"] by (simp del: upt_Suc)
    moreover have "number \<noteq> 0" using pos(1) by auto
    then have "recent_loop (Suc n) number s queries = recent_loop n (number - 1) s (queries @ [ds_recent s ! query_slot number])"
      using False entry slot_in_ring [OF ok pos] by (simp add: gidx_in)
    ultimately show ?thesis by (simp add: n1 entry comp_def del: upt_Suc recent_loop.simps)
  qed
qed

lemma recent_queries_Ret:
  assumes "dns_state_ok s"
  shows "returns (recent_queries s) (\<lambda>r. map (unat \<circ> dq_sequence) r
    = rev [Suc (unat (ds_queries s) - min (unat (ds_queries s)) max_recent_dns_queries) ..< Suc (unat (ds_queries s))])"
proof -
  have "length (ds_recent s) = min (unat (ds_queries s)) max_recent_dns_queries" using assms by (simp add: dns_state_ok_def)
  then show ?thesis using recent_loop_Ret [OF assms, of "ds_queries s" "[]" "unat (ds_queries s)"] by (simp add: recent_queries_def)
qed

lemma ssh_banner_text_ok: "length (ssh_banner_text payload) \<le> 255" "list_all (\<lambda>x. 32 \<le> x \<and> x \<le> 126) (ssh_banner_text payload)"
proof -
  have "length (fst (cut (take 255 payload) [10])) \<le> length (take 255 payload)"
    by (auto simp: cut_def split: option.split)
  then show "length (ssh_banner_text payload) \<le> 255"
    by (auto simp: ssh_banner_text_def intro: order_trans [OF length_filter_le])
  show "list_all (\<lambda>x. 32 \<le> x \<and> x \<le> 126) (ssh_banner_text payload)" by (simp add: ssh_banner_text_def list_all_iff)
qed

end
