(* ===== verification/Quic_Initial.thy ===== *)
theory Quic_Initial imports Stream Wire Go_Map begin

text \<open>
  The client Initial packets of QUIC versions 1 and 2 (\<^verbatim>\<open>internal/quicinitial/initial.go\<close>): long headers are split off
  a datagram, opened with the publicly derivable keys, and the CRYPTO frames inside are put together to a ClientHello.

  The cryptography of the Go library is the record \<open>quic_crypto\<close>: \<^verbatim>\<open>hkdf.Extract\<close> and \<^verbatim>\<open>hkdf.Expand\<close> (\<open>None\<close> is their
  error), the AES block and the opening of AES-GCM (\<open>None\<close> is a failed authentication).  The order of a \<^verbatim>\<open>range\<close> over the
  map of fragments is the schedule \<open>\<rho>\<close>.

  The lemmas show that no datagram panics, that the fragments stay within their bounds, that a variable-length
  integer and a packet number are read back, and that the fragments of a client's handshake give a prefix of it,
  in whatever order they arrive.
\<close>

section \<open>State\<close>

definition version1 :: u32 where
  "version1 = 1"

definition version2 :: u32 where
  "version2 = 0x6b3343cf"

definition max_crypto_bytes :: nat where
  "max_crypto_bytes = 64 * 1024 + 4"

definition max_crypto_parts :: nat where
  "max_crypto_parts = 64"

definition v1_salt :: bytes where
  "v1_salt = [0x38, 0x76, 0x2c, 0xf7, 0xf5, 0x59, 0x34, 0xb3, 0x4d, 0x17, 0x9a, 0xe6, 0xa4, 0xc8, 0x0c, 0xad, 0xcc, 0xbb, 0x7f, 0x0a]"

definition v2_salt :: bytes where
  "v2_salt = [0x0d, 0xed, 0xe3, 0xde, 0xf7, 0x00, 0xa6, 0xdb, 0x81, 0x93, 0x81, 0xbe, 0x6e, 0x26, 0x9d, 0xcb, 0xf9, 0xbd, 0x2e, 0xd9]"

record quic_crypto =
  hkdf_extract :: "bytes \<Rightarrow> bytes \<Rightarrow> bytes option"
  hkdf_expand :: "bytes \<Rightarrow> bytes \<Rightarrow> nat \<Rightarrow> bytes option"
  aes_block :: "bytes \<Rightarrow> bytes \<Rightarrow> bytes"
  gcm_open :: "bytes \<Rightarrow> bytes \<Rightarrow> bytes \<Rightarrow> bytes \<Rightarrow> bytes option"

record quic_keys =
  qk_aead :: bytes
  qk_hp :: bytes
  qk_iv :: bytes

text \<open>A fragment is keyed by its offset; the failure text is the error it was made from.\<close>

type_synonym fragments = "(nat \<times> bytes) list"

record quic_tracker =
  i_version :: u32
  i_dcid :: bytes
  i_keys :: "quic_keys option"
  i_largest_pn :: u64
  i_has_pn :: bool
  i_crypto :: bytes
  i_parts :: fragments
  i_pending_size :: int
  i_first :: gotime
  i_last :: gotime
  i_done :: bool
  i_failure :: "err option"

definition quic_tracker0 :: quic_tracker where
  "quic_tracker0 = \<lparr>i_version = 0, i_dcid = [], i_keys = None, i_largest_pn = 0, i_has_pn = False, i_crypto = [],
     i_parts = [], i_pending_size = 0, i_first = None, i_last = None, i_done = False, i_failure = None\<rparr>"

definition quic_failure :: "quic_tracker \<Rightarrow> err option" where
  "quic_failure t = i_failure t"

definition quic_fail :: "err \<Rightarrow> quic_tracker \<Rightarrow> quic_tracker" where
  "quic_fail reason t = (if i_done t then t
     else t\<lparr>i_done := True, i_failure := Some reason, i_crypto := [], i_parts := [], i_dcid := [], i_pending_size := 0\<rparr>)"

definition quic_tick :: "int \<Rightarrow> quic_tracker \<Rightarrow> quic_tracker" where
  "quic_tick now t = (if i_first t \<noteq> None \<and> \<not> i_done t \<and> 10 * second < time_sub now (i_last t)
     then quic_fail (Msg ''QUIC ClientHello gap timeout'') t else t)"

section \<open>Packets\<close>

text \<open>\<^verbatim>\<open>readVarint\<close>: the value and the new offset, or \<open>None\<close> where the code returns \<^verbatim>\<open>false\<close> and leaves the offset.\<close>

definition read_varint :: "bytes \<Rightarrow> nat \<Rightarrow> (u64 \<times> nat) option go" where
  "read_varint data offset = (if length data \<le> offset then Ret None
     else gbind (gidx data offset) (\<lambda>b. let len = 2 ^ unat (drop_bit 6 b) in
       if length data - offset < len then Ret None
       else gbind (gslice data (offset + 1) (offset + len)) (\<lambda>rest.
         Ret (Some (foldl (\<lambda>value x. push_bit 8 value OR ucast x) (ucast (b AND 0x3f)) rest, offset + len)))))"

record long_packet =
  l_raw :: bytes
  l_version :: u32
  l_dcid :: bytes
  l_pn_offset :: nat
  l_initial :: bool

text \<open>The token of an Initial packet: the offset behind it.\<close>

definition skip_token :: "bytes \<Rightarrow> bool \<Rightarrow> nat \<Rightarrow> nat option go" where
  "skip_token data initial offset = (if \<not> initial then Ret (Some offset)
     else gbind (read_varint data offset) (\<lambda>r. case r of
       None \<Rightarrow> Ret None
     | Some (token_length, offset') \<Rightarrow>
         if length data - offset' < unat token_length then Ret None else Ret (Some (offset' + unat token_length))))"

text \<open>The length of the packet, and the packet itself.\<close>

definition packet_rest :: "bytes \<Rightarrow> u32 \<Rightarrow> bytes \<Rightarrow> bool \<Rightarrow> nat \<Rightarrow> (long_packet \<times> nat) option go" where
  "packet_rest data version dcid initial offset1 = gbind (read_varint data offset1) (\<lambda>r. case r of
     None \<Rightarrow> Ret None
   | Some (packet_length, offset2) \<Rightarrow>
       if packet_length < 17 \<or> length data - offset2 < unat packet_length then Ret None
       else let stop = offset2 + unat packet_length in
         gbind (gslice data 0 stop) (\<lambda>raw.
         Ret (Some (\<lparr>l_raw = raw, l_version = version, l_dcid = dcid, l_pn_offset = offset2, l_initial = initial\<rparr>, stop))))"

definition split_long_packet :: "bytes \<Rightarrow> (long_packet \<times> nat) option go" where
  "split_long_packet data =
     gbind (any_c [Ret (length data < 7), gbyte data 0 (\<lambda>x. x AND 0xc0 \<noteq> 0xc0)]) (\<lambda>short.
     if short then Ret None
     else gbind (gslice data 1 5) (\<lambda>v. gbind (be32 v) (\<lambda>version.
       if version \<noteq> version1 \<and> version \<noteq> version2 then Ret None
       else gbind (gidx data 0) (\<lambda>b0. let
           packet_type = drop_bit 4 b0 AND 3;
           initial_type = (if version = version2 then 1 else 0);
           retry_type = (if version = version2 then 0 else 3) in
         gbind (gidx data 5) (\<lambda>d. let dcid_length = unat d in
         if 20 < dcid_length \<or> length data - 6 < dcid_length + 1 then Ret None
         else gbind (gslice data 6 (6 + dcid_length)) (\<lambda>dcid.
           gbind (gidx data (6 + dcid_length)) (\<lambda>s. let scid_length = unat s; offset = 7 + dcid_length in
           if 20 < scid_length \<or> length data - offset < scid_length \<or> packet_type = retry_type then Ret None
           else gbind (skip_token data (packet_type = initial_type) (offset + scid_length)) (\<lambda>r. case r of
             None \<Rightarrow> Ret None
           | Some offset1 \<Rightarrow> packet_rest data version dcid (packet_type = initial_type) offset1))))))))"

section \<open>Keys\<close>

text \<open>A value of a library call that may return an error.\<close>

definition library :: "'a option \<Rightarrow> 'a go" where
  "library r = (case r of None \<Rightarrow> Fail (External []) | Some x \<Rightarrow> Ret x)"

definition expand_label :: "quic_crypto \<Rightarrow> bytes \<Rightarrow> bytes \<Rightarrow> nat \<Rightarrow> bytes go" where
  "expand_label X secret lbl len = (let full_label = lit ''tls13 '' @ lbl in
     if 255 < length full_label \<or> 65535 < len then Fail (Msg ''invalid HKDF label'')
     else library (hkdf_expand X secret (be16_bytes (of_nat len) @ [of_nat (length full_label)] @ full_label @ [0]) len))"

text \<open>\<^verbatim>\<open>aes.NewCipher\<close> refuses a key of another length; \<^verbatim>\<open>cipher.NewGCM\<close> takes every AES block.\<close>

definition new_cipher :: "bytes \<Rightarrow> bytes go" where
  "new_cipher key = (if length key \<in> {16, 24, 32} then Ret key else Fail (External []))"

text \<open>\<^verbatim>\<open>copy\<close> into an array of \<open>n\<close> zero bytes.\<close>

definition copy_array :: "nat \<Rightarrow> bytes \<Rightarrow> bytes" where
  "copy_array n b = take n (b @ replicate n 0)"

definition derive_client_keys :: "quic_crypto \<Rightarrow> u32 \<Rightarrow> bytes \<Rightarrow> quic_keys go" where
  "derive_client_keys X version dcid =
     gbind (if version = version1 then Ret (v1_salt, lit ''quic '')
       else if version = version2 then Ret (v2_salt, lit ''quicv2 '')
       else Fail (MsgHex ''unsupported QUIC version '' (unat version))) (\<lambda>(salt, label_prefix).
     gbind (library (hkdf_extract X dcid salt)) (\<lambda>secret.
     gbind (expand_label X secret (lit ''client in'') 32) (\<lambda>client.
     gbind (expand_label X client (label_prefix @ lit ''key'') 16) (\<lambda>key.
     gbind (expand_label X client (label_prefix @ lit ''iv'') 12) (\<lambda>iv.
     gbind (expand_label X client (label_prefix @ lit ''hp'') 16) (\<lambda>hp_key.
     gbind (new_cipher key) (\<lambda>aead. gbind (new_cipher hp_key) (\<lambda>hp.
       Ret \<lparr>qk_aead = aead, qk_hp = hp, qk_iv = copy_array 12 iv\<rparr>))))))))"

section \<open>Opening a packet\<close>

definition packet_number :: "quic_tracker \<Rightarrow> u64 \<Rightarrow> nat \<Rightarrow> u64" where
  "packet_number t truncated len = (if \<not> i_has_pn t then truncated
     else let
       window = push_bit (len * 8) 1;
       expected = i_largest_pn t + 1;
       candidate = (expected AND NOT (window - 1)) OR truncated in
       if candidate + window div 2 \<le> expected \<and> candidate + window < push_bit 62 1 then candidate + window
       else if expected + window div 2 < candidate \<and> window \<le> candidate then candidate - window
       else candidate)"

text \<open>The loop that takes the mask off the packet number: \<open>n\<close> bytes from the \<open>i\<close>-th on.\<close>

fun unmask_pn :: "nat \<Rightarrow> nat \<Rightarrow> nat \<Rightarrow> bytes \<Rightarrow> bytes \<Rightarrow> u64 \<Rightarrow> (bytes \<times> u64) go" where
  "unmask_pn 0 i pn_offset hp_mask header pn = Ret (header, pn)"
| "unmask_pn (Suc n) i pn_offset hp_mask header pn = gbind (gidx header (pn_offset + i)) (\<lambda>h. gbind (gidx hp_mask (i + 1)) (\<lambda>m.
     unmask_pn n (i + 1) pn_offset hp_mask (header[pn_offset + i := h XOR m]) (push_bit 8 pn OR ucast (h XOR m))))"

definition packet_nonce :: "bytes \<Rightarrow> u64 \<Rightarrow> bytes" where
  "packet_nonce iv pn = take 4 iv @ map2 (XOR) (drop 4 iv) (map (\<lambda>i. ucast (drop_bit (56 - 8 * i) pn)) [0..<8])"

text \<open>A packet of another connection that was opened starts the tracker anew.\<close>

definition quic_restart :: "long_packet \<Rightarrow> quic_keys \<Rightarrow> quic_tracker \<Rightarrow> quic_tracker" where
  "quic_restart packet keys t = t\<lparr>i_version := l_version packet, i_dcid := l_dcid packet, i_keys := Some keys,
     i_has_pn := False, i_largest_pn := 0, i_crypto := [], i_parts := [], i_pending_size := 0, i_first := None, i_last := None\<rparr>"

text \<open>Header protection: the header without it, the packet number's bytes and how many they are.\<close>

definition remove_protection :: "quic_crypto \<Rightarrow> quic_keys \<Rightarrow> long_packet \<Rightarrow> (err + bytes \<times> u64 \<times> nat) go" where
  "remove_protection X keys packet = (let raw = l_raw packet; pn_offset = l_pn_offset packet in
     gbind (gslice raw (pn_offset + 4) (pn_offset + 20)) (\<lambda>sample. let hp_mask = copy_array 16 (aes_block X (qk_hp keys) sample) in
     gbind (gidx raw 0) (\<lambda>r0. gbind (gidx hp_mask 0) (\<lambda>m0. let
       first = r0 XOR (m0 AND 0x0f);
       pn_length = unat (first AND 3) + 1 in
     if length raw < pn_offset + (pn_length + 16) then Ret (Inl (Msg ''short QUIC Initial''))
     else gbind (gslice raw 0 (pn_offset + pn_length)) (\<lambda>header0.
       gbind (unmask_pn pn_length 0 pn_offset hp_mask (header0[0 := first]) 0) (\<lambda>(header, truncated_pn).
       Ret (Inr (header, truncated_pn, pn_length))))))))"

text \<open>The packet number, the nonce and the plaintext; a packet of another connection that was opened restarts the tracker.\<close>

definition quic_unseal :: "quic_crypto \<Rightarrow> quic_tracker \<Rightarrow> long_packet \<Rightarrow> bool \<Rightarrow> quic_keys \<Rightarrow> (quic_tracker \<times> (err + bytes \<times> u64)) go" where
  "quic_unseal X t packet changed keys = gbind (remove_protection X keys packet) (\<lambda>r. case r of
       Inl e \<Rightarrow> Ret (t, Inl e)
     | Inr (header, truncated_pn, pn_length) \<Rightarrow> let
         pn = (if changed then truncated_pn else packet_number t truncated_pn pn_length) in
       gbind (gfrom (l_raw packet) (l_pn_offset packet + pn_length)) (\<lambda>sealed.
       case gcm_open X (qk_aead keys) (packet_nonce (qk_iv keys) pn) sealed header of
         None \<Rightarrow> Ret (t, Inl (External []))
       | Some plain \<Rightarrow> Ret (if changed then quic_restart packet keys t else t, Inr (plain, pn))))"

text \<open>\<^verbatim>\<open>open\<close>: the keys of a tracker that has none yet are nil, and calling them would panic.\<close>

definition quic_open :: "quic_crypto \<Rightarrow> quic_tracker \<Rightarrow> long_packet \<Rightarrow> (quic_tracker \<times> (err + bytes \<times> u64)) go" where
  "quic_open X t packet = (let changed = (l_version packet \<noteq> i_version t \<or> l_dcid packet \<noteq> i_dcid t) in
     gtry (if changed then gbind (derive_client_keys X (l_version packet) (l_dcid packet)) (\<lambda>k. Ret (Some k)) else Ret (i_keys t))
       (\<lambda>e. Ret (t, Inl e)) (\<lambda>keys_or_nil.
     if length (l_raw packet) < l_pn_offset packet + 20 then Ret (t, Inl (Msg ''short QUIC header protection sample''))
     else gbind (case keys_or_nil of None \<Rightarrow> Panic | Some keys \<Rightarrow> Ret keys) (quic_unseal X t packet changed)))"

section \<open>CRYPTO data\<close>

text \<open>The fragments of the map in the order of one \<^verbatim>\<open>range\<close> over it.\<close>

definition fragment_order :: "(nat \<Rightarrow> nat \<Rightarrow> nat) \<Rightarrow> fragments \<Rightarrow> fragments" where
  "fragment_order \<rho> p = sort_key (\<lambda>x. \<rho> (length p) (fst x)) p"

definition fragment_bytes :: "fragments \<Rightarrow> nat" where
  "fragment_bytes p = sum_list (map (\<lambda>x. length (snd x)) p)"

text \<open>One pass of \<^verbatim>\<open>pullParts\<close>: the fragments that the stream has reached are taken out.\<close>

fun pull_pass :: "fragments \<Rightarrow> quic_tracker \<Rightarrow> bool \<Rightarrow> quic_tracker \<times> bool" where
  "pull_pass [] t progress = (t, progress)"
| "pull_pass ((start, part) # xs) t progress = (if length (i_crypto t) < start then pull_pass xs t progress
     else let t1 = t\<lparr>i_parts := AList.delete start (i_parts t), i_pending_size := i_pending_size t - int (length part)\<rparr>;
              used = length (i_crypto t) - start in
       if used < length part then pull_pass xs (t1\<lparr>i_crypto := i_crypto t @ drop used part\<rparr>) True
       else pull_pass xs t1 progress)"

lemma pull_pass_length: "pull_pass xs t pr = (t', pr') \<Longrightarrow> length (i_parts t') \<le> length (i_parts t)"
proof (induction xs t pr rule: pull_pass.induct)
  case (2 start part xs t progress)
  then show ?case using length_delete_le [of start "i_parts t"]
    by (fastforce simp: Let_def split: if_splits)
qed simp

lemma pull_pass_progress:
  "pull_pass xs t pr = (t', True) \<Longrightarrow> fst ` set xs \<subseteq> fst ` set (i_parts t) \<Longrightarrow> pr \<or> length (i_parts t') < length (i_parts t)"
proof (induction xs t pr rule: pull_pass.induct)
  case (2 start part xs t progress)
  show ?case
  proof (cases "length (i_crypto t) < start")
    case True
    then show ?thesis using 2 by simp
  next
    case False
    let ?t1 = "t\<lparr>i_parts := AList.delete start (i_parts t), i_pending_size := i_pending_size t - int (length part)\<rparr>"
    obtain t2 p2 where "pull_pass xs t2 p2 = (t', True)" "i_parts t2 = AList.delete start (i_parts t)"
      using "2.prems"(1) False by (auto simp: Let_def split: if_splits)
    moreover have "length (AList.delete start (i_parts t)) < length (i_parts t)"
      using "2.prems"(2) by (intro length_delete_less) auto
    ultimately show ?thesis using pull_pass_length by (metis order_le_less_trans)
  qed
qed simp

lemma set_fragment_order [simp]: "set (fragment_order \<rho> p) = set p"
  by (simp add: fragment_order_def)

function pull_parts :: "(nat \<Rightarrow> nat \<Rightarrow> nat) \<Rightarrow> quic_tracker \<Rightarrow> quic_tracker" where
  "pull_parts \<rho> t = (case pull_pass (fragment_order \<rho> (i_parts t)) t False of
     (t', progress) \<Rightarrow> if progress then pull_parts \<rho> t' else t')"
  by pat_completeness auto
termination
proof (relation "measure (\<lambda>(\<rho>, t). length (i_parts t))")
  fix \<rho> t x y
  assume "(x, y) = pull_pass (fragment_order \<rho> (i_parts t)) t False" and "y"
  then have "pull_pass (fragment_order \<rho> (i_parts t)) t False = (x, True)" by simp
  from pull_pass_progress [OF this] show "((\<rho>, x), \<rho>, t) \<in> measure (\<lambda>(\<rho>, t). length (i_parts t))" by simp
qed simp

declare pull_parts.simps [simp del]

text \<open>Whether the new data differs from one of the fragments where they overlap.\<close>

definition overlap_conflict :: "nat \<Rightarrow> bytes \<Rightarrow> nat \<times> bytes \<Rightarrow> bool go" where
  "overlap_conflict start data x = (case x of (existing, part) \<Rightarrow> let
       shared_start = max start existing;
       shared_end = min (start + length data) (existing + length part) in
     if shared_start < shared_end then
       gbind (gslice data (shared_start - start) (shared_end - start)) (\<lambda>a.
       gbind (gslice part (shared_start - existing) (shared_end - existing)) (\<lambda>b. Ret (a \<noteq> b)))
     else Ret False)"

text \<open>The end of \<^verbatim>\<open>addCrypto\<close>: data behind a gap is kept.\<close>

definition keep_part :: "nat \<Rightarrow> bytes \<Rightarrow> quic_tracker \<Rightarrow> quic_tracker \<times> err option" where
  "keep_part start data t = (if int max_crypto_bytes < i_pending_size t + int (length data)
     then (t, Some (Msg ''QUIC CRYPTO buffer limit''))
     else (t\<lparr>i_parts := AList.update start data (i_parts t), i_pending_size := i_pending_size t + int (length data)\<rparr>, None))"

definition park_crypto :: "nat \<Rightarrow> bytes \<Rightarrow> quic_tracker \<Rightarrow> (quic_tracker \<times> err option) go" where
  "park_crypto start data t = gbind (any_c (map (overlap_conflict start data) (i_parts t))) (\<lambda>conflict.
     if conflict then Ret (t, Some (Msg ''conflicting QUIC CRYPTO overlap''))
     else case map_of (i_parts t) start of
       Some prior \<Rightarrow> let overlap = min (length prior) (length data) in
         gbind (gslice prior 0 overlap) (\<lambda>a. gbind (gslice data 0 overlap) (\<lambda>b.
         if a \<noteq> b then Ret (t, Some (Msg ''conflicting QUIC CRYPTO fragment''))
         else if length data \<le> length prior then Ret (t, None)
         else Ret (keep_part start data (t\<lparr>i_pending_size := i_pending_size t - int (length prior)\<rparr>))))
     | None \<Rightarrow> if max_crypto_parts \<le> length (i_parts t) then Ret (t, Some (Msg ''QUIC CRYPTO fragment limit''))
         else Ret (keep_part start data t))"

text \<open>
  \<^verbatim>\<open>addCrypto\<close>.  \<open>start\<close> is the value of a 64-bit varint; the first test keeps the sums below it from wrapping.
\<close>

definition add_crypto :: "(nat \<Rightarrow> nat \<Rightarrow> nat) \<Rightarrow> nat \<Rightarrow> bytes \<Rightarrow> quic_tracker \<Rightarrow> (quic_tracker \<times> err option) go" where
  "add_crypto \<rho> start data t = (let have_bytes = length (i_crypto t) in
     if max_crypto_bytes < start \<or> max_crypto_bytes - start < length data then Ret (t, Some (Msg ''QUIC ClientHello size limit''))
     else gbind
       (if start < have_bytes then let overlap = min (start + length data) have_bytes - start in
          gbind (gslice (i_crypto t) start (start + overlap)) (\<lambda>a. gbind (gslice data 0 overlap) (\<lambda>b.
          if a \<noteq> b then Ret None else gbind (gfrom data overlap) (\<lambda>rest. Ret (Some (start + overlap, rest)))))
        else Ret (Some (start, data))) (\<lambda>r. case r of
       None \<Rightarrow> Ret (t, Some (Msg ''conflicting QUIC CRYPTO retransmission''))
     | Some (start', data') \<Rightarrow>
         if data' = [] then Ret (t, None)
         else if start' = have_bytes then Ret (pull_parts \<rho> (t\<lparr>i_crypto := i_crypto t @ data'\<rparr>), None)
         else park_crypto start' data' t))"

definition quic_client_hello :: "quic_tracker \<Rightarrow> (err + bytes option) go" where
  "quic_client_hello t = (let c = i_crypto t in
     if length c < 4 then Ret (Inr None)
     else gbind (gidx c 0) (\<lambda>b0. if b0 \<noteq> 1 then Ret (Inl (Msg ''first QUIC handshake is not ClientHello''))
     else gbind (be24 c 1) (\<lambda>len. if max_crypto_bytes - 4 < len then Ret (Inl (Msg ''QUIC ClientHello size limit''))
     else if length c < len + 4 then Ret (Inr None)
     else gbind (gslice c 0 (len + 4)) (\<lambda>hello. Ret (Inr (Some hello))))))"

section \<open>Frames\<close>

text \<open>\<open>n\<close> integers whose values are not used: the offset behind them.\<close>

fun skip_varints :: "nat \<Rightarrow> bytes \<Rightarrow> nat \<Rightarrow> nat option go" where
  "skip_varints 0 plain offset = Ret (Some offset)"
| "skip_varints (Suc n) plain offset = gbind (read_varint plain offset) (\<lambda>r. case r of
     None \<Rightarrow> Ret None | Some (v, offset') \<Rightarrow> skip_varints n plain offset')"

definition skip_or :: "string \<Rightarrow> nat \<Rightarrow> bytes \<Rightarrow> nat \<Rightarrow> (err + nat) go" where
  "skip_or msg n plain offset = gbind (skip_varints n plain offset) (\<lambda>r. case r of
     None \<Rightarrow> Ret (Inl (Msg msg)) | Some offset' \<Rightarrow> Ret (Inr offset'))"

text \<open>The next step of a frame, unless there was an error.\<close>

definition then_frame :: "(err + nat) go \<Rightarrow> (nat \<Rightarrow> (err + nat) go) \<Rightarrow> (err + nat) go" where
  "then_frame m f = gbind m (\<lambda>r. case r of Inl e \<Rightarrow> Ret (Inl e) | Inr offset \<Rightarrow> f offset)"

definition ack_frame :: "u64 \<Rightarrow> bytes \<Rightarrow> nat \<Rightarrow> (err + nat) go" where
  "ack_frame kind plain offset =
     then_frame (skip_or ''truncated QUIC ACK'' 2 plain offset) (\<lambda>offset1.
     gbind (read_varint plain offset1) (\<lambda>r. case r of
       None \<Rightarrow> Ret (Inl (Msg ''invalid QUIC ACK ranges''))
     | Some (ranges, offset2) \<Rightarrow> if 256 < ranges then Ret (Inl (Msg ''invalid QUIC ACK ranges''))
       else then_frame (skip_or ''truncated QUIC ACK'' 1 plain offset2) (\<lambda>offset3.
         then_frame (skip_or ''truncated QUIC ACK ranges'' (unat ranges * 2) plain offset3) (\<lambda>offset4.
         if kind = 3 then skip_or ''truncated QUIC ACK ECN'' 3 plain offset4 else Ret (Inr offset4)))))"

definition close_frame :: "u64 \<Rightarrow> bytes \<Rightarrow> nat \<Rightarrow> (err + nat) go" where
  "close_frame kind plain offset =
     then_frame (skip_or ''truncated QUIC close'' (if kind = 0x1c then 2 else 1) plain offset) (\<lambda>offset1.
     gbind (read_varint plain offset1) (\<lambda>r. case r of
       None \<Rightarrow> Ret (Inl (Msg ''truncated QUIC close reason''))
     | Some (reason_length, offset2) \<Rightarrow>
         if length plain - offset2 < unat reason_length then Ret (Inl (Msg ''truncated QUIC close reason''))
         else Ret (Inr (offset2 + unat reason_length))))"

text \<open>The offset, the data and the end of a CRYPTO frame.\<close>

definition crypto_frame :: "bytes \<Rightarrow> nat \<Rightarrow> (err + u64 \<times> bytes \<times> nat) go" where
  "crypto_frame plain offset = gbind (read_varint plain offset) (\<lambda>r. case r of
     None \<Rightarrow> Ret (Inl (Msg ''truncated QUIC CRYPTO offset''))
   | Some (start, offset1) \<Rightarrow> gbind (read_varint plain offset1) (\<lambda>r. case r of
       None \<Rightarrow> Ret (Inl (Msg ''truncated QUIC CRYPTO data''))
     | Some (len, offset2) \<Rightarrow>
         if length plain - offset2 < unat len then Ret (Inl (Msg ''truncated QUIC CRYPTO data''))
         else gbind (gslice plain offset2 (offset2 + unat len)) (\<lambda>data. Ret (Inr (start, data, offset2 + unat len)))))"

text \<open>One turn of the loop, after the frame type was read.\<close>

definition quic_frame :: "(nat \<Rightarrow> nat \<Rightarrow> nat) \<Rightarrow> u64 \<Rightarrow> bytes \<Rightarrow> nat \<Rightarrow> quic_tracker \<Rightarrow> (quic_tracker \<times> (err + nat)) go" where
  "quic_frame \<rho> kind plain offset t = (
     if kind = 0 \<or> kind = 1 then Ret (t, Inr offset)
     else if kind = 2 \<or> kind = 3 then gbind (ack_frame kind plain offset) (\<lambda>r. Ret (t, r))
     else if kind = 6 then gbind (crypto_frame plain offset) (\<lambda>r. case r of
         Inl e \<Rightarrow> Ret (t, Inl e)
       | Inr (start, data, stop) \<Rightarrow> gbind (add_crypto \<rho> (unat start) data t) (\<lambda>(t', er). case er of
           Some e \<Rightarrow> Ret (t', Inl e) | None \<Rightarrow> Ret (t', Inr stop)))
     else if kind = 0x1c \<or> kind = 0x1d then gbind (close_frame kind plain offset) (\<lambda>r. Ret (t, r))
     else Ret (t, Inl (MsgHex ''unsupported QUIC Initial frame '' (unat kind))))"

section \<open>Variable-length integers\<close>

lemma unat_ucast_byte: "unat (ucast (x :: byte) :: u64) = unat x"
  by (simp add: unsigned_ucast_eq take_bit_nat_eq_self order_less_trans [OF unat_byte_less])

lemma append_byte:
  assumes "unat (v :: u64) < 2 ^ 56"
  shows "unat (push_bit 8 v OR ucast (x :: byte)) = unat v * 256 + unat x"
proof -
  have "push_bit 8 v OR ucast x = push_bit 8 v + ucast x"
    by (rule disjunctive_add [symmetric]) (auto simp: bit_push_bit_iff bit_ucast_iff dest: bit_imp_le_length)
  also have "\<dots> = v * 256 + ucast x" by (simp add: push_bit_eq_mult)
  finally have e: "push_bit 8 v OR ucast x = v * 256 + ucast x" .
  have u: "unat (ucast x :: u64) = unat x" by (rule unat_ucast_byte)
  have m: "unat (v * 256) = unat v * 256" using assms by (subst unat_mult_lem [THEN iffD1]) simp_all
  have "unat v < 72057594037927936" using assms by simp
  moreover have "unat x < 256" by simp
  ultimately have "unat v * 256 + unat x < 18446744073709551616" by linarith
  then have "unat (v * 256) + unat (ucast x :: u64) < 2 ^ 64" unfolding m u by simp
  then have "unat (v * 256 + ucast x) = unat (v * 256) + unat (ucast x :: u64)"
    by (simp add: unat_add_lem [THEN iffD1])
  then show ?thesis unfolding e m u .
qed

definition varint_value :: "u64 \<Rightarrow> bytes \<Rightarrow> u64" where
  "varint_value v rest = foldl (\<lambda>value x. push_bit 8 value OR ucast x) v rest"

lemma varint_value:
  assumes "unat v < 64" and "length rest \<le> 7"
  shows "unat (varint_value v rest) = unat v * 256 ^ length rest + be_val rest"
  using assms(2)
proof (induction rest rule: rev_induct)
  case Nil
  then show ?case by (simp add: varint_value_def)
next
  case (snoc x rest)
  then have IH: "unat (varint_value v rest) = unat v * 256 ^ length rest + be_val rest" by simp
  have "unat v * 256 ^ length rest + be_val rest < (unat v + 1) * 256 ^ length rest"
    using be_val_less [of rest] by simp
  also have "\<dots> \<le> 64 * 256 ^ 6"
    using assms(1) snoc.prems by (intro mult_le_mono power_increasing) simp_all
  finally have "unat (varint_value v rest) < 2 ^ 56" unfolding IH by simp
  then show ?case using append_byte [of "varint_value v rest" x] IH
    by (simp add: varint_value_def algebra_simps)
qed

lemma varint_less:
  assumes "unat v < 64" and "length rest \<le> 7"
  shows "unat (varint_value v rest) < 2 ^ 62"
proof -
  have "unat v * 256 ^ length rest + be_val rest < (unat v + 1) * 256 ^ length rest"
    using be_val_less [of rest] by simp
  also have "\<dots> \<le> 64 * 256 ^ 7"
    using assms by (intro mult_le_mono power_increasing) simp_all
  finally show ?thesis unfolding varint_value [OF assms] by simp
qed

lemma varint_first: "unat (ucast (b AND 0x3f :: byte) :: u64) < 64"
proof -
  have "unat (b AND 0x3f) \<le> unat (0x3f :: byte)" by (simp only: word_le_nat_alt [symmetric]) (rule word_and_le1)
  then show ?thesis unfolding unat_ucast_byte by simp
qed

lemma varint_width: "(2 :: nat) ^ unat (drop_bit 6 (b :: byte)) \<in> {1, 2, 4, 8}"
proof -
  have "unat (drop_bit 6 b) = unat b div 64"
    by (simp only: unsigned_drop_bit_eq) (simp add: drop_bit_eq_div take_bit_eq_mod)
  then have "unat (drop_bit 6 b) < 4" by (simp add: less_mult_imp_div_less)
  then have "unat (drop_bit 6 b) \<in> {0, 1, 2, 3}" by auto
  then show ?thesis by auto
qed

lemma read_varint_returns:
  "returns (read_varint data offset) (\<lambda>r. case r of None \<Rightarrow> True
     | Some (v, offset') \<Rightarrow> offset < offset' \<and> offset' \<le> length data \<and> unat v < 2 ^ 62)"
proof -
  have v: "unat (foldl (\<lambda>value x. push_bit 8 value OR ucast x) (ucast (b AND 0x3f :: byte) :: u64) (take n xs)) < 2 ^ 62" if "n \<le> 7" for b n and xs :: bytes
    using varint_less [OF varint_first [of b], of "take n xs"] that by (simp add: varint_value_def)
  have w: "2 ^ unat (drop_bit 6 (b :: byte)) - Suc 0 \<le> 7" for b using varint_width [of b] by auto
  show ?thesis
    using v [OF w] by (auto simp: read_varint_def ret_simps Let_def simp del: numeral_eq_Suc)
qed

text \<open>An integer in \<open>2 ^ k\<close> bytes, as RFC 9000 writes it.\<close>

definition varint_bytes :: "nat \<Rightarrow> nat \<Rightarrow> bytes" where
  "varint_bytes k v = of_nat (64 * k + v div 256 ^ (2 ^ k - 1)) # be_bytes (2 ^ k - 1) v"

lemma read_varint_written:
  assumes "k < 4" and "v < 64 * 256 ^ (2 ^ k - 1)"
  shows "read_varint (pre @ varint_bytes k v @ post) (length pre) = Ret (Some (of_nat v, length pre + 2 ^ k))"
proof -
  let ?q = "v div 256 ^ (2 ^ k - 1)" and ?d = "pre @ varint_bytes k v @ post" and ?rest = "be_bytes (2 ^ k - 1) v"
  let ?b = "of_nat (64 * k + ?q) :: byte"
  have q: "?q < 64" using assms(2) by (simp add: less_mult_imp_div_less)
  have u: "unat ?b = 64 * k + ?q" using q assms(1) by (simp add: unat_of_nat del: of_nat_add of_nat_mult)
  have "unat (drop_bit 6 ?b) = unat ?b div 64"
    by (simp only: unsigned_drop_bit_eq) (simp add: drop_bit_eq_div take_bit_eq_mod)
  then have w: "unat (drop_bit 6 ?b) = k" using q unfolding u by simp
  have "?b AND 0x3f = take_bit 6 ?b" by (simp add: take_bit_eq_mask mask_eq_exp_minus_1)
  then have "unat (?b AND 0x3f) = take_bit 6 (unat ?b)" by (simp only: unsigned_take_bit_eq)
  then have "unat (?b AND 0x3f) = unat ?b mod 64" by (simp add: take_bit_eq_mod)
  then have a: "unat (?b AND 0x3f) = ?q" using q unfolding u by simp
  have k: "2 ^ k - 1 \<le> (7 :: nat)" using assms(1) by (cases "k \<in> {0, 1, 2, 3}") auto
  have "unat (varint_value (ucast (?b AND 0x3f)) ?rest) = ?q * 256 ^ (2 ^ k - 1) + v mod 256 ^ (2 ^ k - 1)"
    using varint_value [of "ucast (?b AND 0x3f)" ?rest] k q unfolding unat_ucast_byte a by simp
  also have "\<dots> = v" by (rule div_mult_mod_eq)
  finally have "varint_value (ucast (?b AND 0x3f)) ?rest = of_nat v"
    by (drule_tac arg_cong [where f = "of_nat :: nat \<Rightarrow> u64"]) simp
  then have f: "foldl (\<lambda>value x. push_bit 8 value OR ucast x) (ucast (?b AND 0x3f)) ?rest = (of_nat v :: u64)"
    by (simp add: varint_value_def)
  have g: "gidx ?d (length pre) = Ret ?b" by (simp add: varint_bytes_def gidx_def nth_append)
  have l: "length (varint_bytes k v) = 2 ^ k" by (simp add: varint_bytes_def)
  have s: "gslice ?d (length pre + 1) (length pre + 2 ^ k) = Ret ?rest"
    using l by (simp add: varint_bytes_def gslice_def)
  show ?thesis unfolding read_varint_def g gbind.simps Let_def w s f using l by simp
qed

section \<open>Datagrams\<close>

lemma skip_varints_returns:
  "offset \<le> length plain \<Longrightarrow> returns (skip_varints n plain offset) (\<lambda>r. case r of None \<Rightarrow> True
     | Some offset' \<Rightarrow> offset \<le> offset' \<and> offset' \<le> length plain)"
proof (induction n arbitrary: offset)
  case (Suc n)
  show ?case unfolding skip_varints.simps
    by (rule returns_bind [OF read_varint_returns])
      (auto split: option.splits intro!: returns_mono [OF Suc.IH])
qed simp

definition frame_end :: "nat \<Rightarrow> bytes \<Rightarrow> err + nat \<Rightarrow> bool" where
  "frame_end offset plain r \<longleftrightarrow> (case r of Inl e \<Rightarrow> True | Inr offset' \<Rightarrow> offset \<le> offset' \<and> offset' \<le> length plain)"

lemma frame_end_simps [simp]: "frame_end offset plain (Inl e)"
  "frame_end offset plain (Inr offset') \<longleftrightarrow> offset \<le> offset' \<and> offset' \<le> length plain"
  by (simp_all add: frame_end_def)

lemma skip_or_returns: "offset \<le> length plain \<Longrightarrow> returns (skip_or msg n plain offset) (frame_end offset plain)"
  unfolding skip_or_def by (rule returns_bind [OF skip_varints_returns]) (auto split: option.splits)

lemma then_frame_returns:
  assumes "returns m (frame_end offset plain)"
    and "\<And>offset'. offset \<le> offset' \<Longrightarrow> offset' \<le> length plain \<Longrightarrow> returns (f offset') (frame_end offset' plain)"
  shows "returns (then_frame m f) (frame_end offset plain)"
  unfolding then_frame_def
proof (rule returns_bind [OF assms(1)])
  fix r assume r: "frame_end offset plain r"
  show "returns (case r of Inl e \<Rightarrow> Ret (Inl e) | Inr offset \<Rightarrow> f offset) (frame_end offset plain)"
  proof (cases r)
    case (Inr offset')
    then have "returns (f offset') (frame_end offset' plain)" using r assms(2) by simp
    then show ?thesis using Inr r by (auto simp: frame_end_def intro: returns_mono split: sum.splits)
  qed simp
qed

lemma frame_end_mono: "returns m (frame_end offset' plain) \<Longrightarrow> offset \<le> offset' \<Longrightarrow> returns m (frame_end offset plain)"
  by (auto simp: frame_end_def intro: returns_mono split: sum.splits)

lemma ack_frame_returns:
  assumes "offset \<le> length plain"
  shows "returns (ack_frame kind plain offset) (frame_end offset plain)"
proof -
  have tail: "returns (if kind = 3 then skip_or msg 3 plain o4 else Ret (Inr o4)) (frame_end o4 plain)" if "o4 \<le> length plain" for o4 msg
    using that by (simp add: skip_or_returns)
  have mid: "returns (then_frame (skip_or m1 1 plain o2) (\<lambda>o3. then_frame (skip_or m2 n plain o3) (\<lambda>o4.
      if kind = 3 then skip_or m3 3 plain o4 else Ret (Inr o4)))) (frame_end o1 plain)" if "o1 \<le> o2" "o2 \<le> length plain" for m1 m2 m3 n o1 o2
    by (rule frame_end_mono [OF _ that(1)]) (intro then_frame_returns skip_or_returns tail that)
  show ?thesis
    unfolding ack_frame_def
  proof (rule then_frame_returns [OF skip_or_returns [OF assms]])
    fix o1 assume "offset \<le> o1" "o1 \<le> length plain"
    show "returns (gbind (read_varint plain o1) (\<lambda>r. case r of
       None \<Rightarrow> Ret (Inl (Msg ''invalid QUIC ACK ranges''))
     | Some (ranges, offset2) \<Rightarrow> if 256 < ranges then Ret (Inl (Msg ''invalid QUIC ACK ranges''))
       else then_frame (skip_or ''truncated QUIC ACK'' 1 plain offset2) (\<lambda>offset3.
         then_frame (skip_or ''truncated QUIC ACK ranges'' (unat ranges * 2) plain offset3) (\<lambda>offset4.
         if kind = 3 then skip_or ''truncated QUIC ACK ECN'' 3 plain offset4 else Ret (Inr offset4))))) (frame_end o1 plain)"
      by (rule returns_bind [OF read_varint_returns]) (auto intro!: mid simp del: One_nat_def split: option.splits)
  qed
qed

lemma close_frame_returns:
  assumes "offset \<le> length plain"
  shows "returns (close_frame kind plain offset) (frame_end offset plain)"
  unfolding close_frame_def
  by (intro then_frame_returns [OF skip_or_returns [OF assms]] returns_bind [OF read_varint_returns])
    (auto split: option.splits)

lemma crypto_frame_returns:
  "returns (crypto_frame plain offset) (\<lambda>r. case r of Inl e \<Rightarrow> True
     | Inr (start, data, stop) \<Rightarrow> offset \<le> stop \<and> stop \<le> length plain)"
  unfolding crypto_frame_def
  by (rule returns_bind [OF read_varint_returns])
    (auto intro!: returns_mono [OF read_varint_returns] simp: ret_simps split: option.splits)

lemma overlap_conflict_returns: "returns (overlap_conflict start data x) (\<lambda>_. True)"
  by (cases x) (auto simp: overlap_conflict_def ret_simps Let_def)

lemma park_crypto_returns: "returns (park_crypto start data t) (\<lambda>_. True)"
proof -
  have "returns (any_c (map (overlap_conflict start data) xs)) (\<lambda>_. True)" for xs
  proof (induction xs)
    case (Cons x xs)
    show ?case by (simp, rule returns_bind [OF overlap_conflict_returns]) (simp add: Cons)
  qed simp
  then show ?thesis unfolding park_crypto_def
    by (rule returns_bind) (auto simp: ret_simps Let_def simp del: any_c.simps split: option.splits)
qed

lemma add_crypto_returns: "returns (add_crypto \<rho> start data t) (\<lambda>_. True)"
  by (auto simp: add_crypto_def ret_simps Let_def min_def park_crypto_returns)

lemma quic_frame_returns:
  assumes "offset \<le> length plain"
  shows "returns (quic_frame \<rho> kind plain offset t) (\<lambda>(t', r). frame_end offset plain r)"
proof -
  have crypto: "returns (gbind (crypto_frame plain offset) (\<lambda>r. case r of
         Inl e \<Rightarrow> Ret (t, Inl e)
       | Inr (start, data, stop) \<Rightarrow> gbind (add_crypto \<rho> (unat start) data t) (\<lambda>(t', er). case er of
           Some e \<Rightarrow> Ret (t', Inl e) | None \<Rightarrow> Ret (t', Inr stop)))) (\<lambda>(t', r). frame_end offset plain r)"
    by (rule returns_bind [OF crypto_frame_returns])
      (auto intro!: returns_bind [OF add_crypto_returns] split: sum.splits option.splits)
  show ?thesis
    unfolding quic_frame_def using crypto
    by (auto simp: ret_simps assms simp del: returns_gbind intro!: returns_bind [OF ack_frame_returns [OF assms]] returns_bind [OF close_frame_returns [OF assms]])
qed

lemma quic_frame_end: "quic_frame \<rho> kind plain offset t = Ret (t', Inr o') \<Longrightarrow> offset \<le> length plain \<Longrightarrow> offset \<le> o' \<and> o' \<le> length plain"
  using quic_frame_returns [of offset plain \<rho> kind t] by (auto simp: returns_def)

text \<open>\<^verbatim>\<open>frames\<close>: the frames of an opened packet.\<close>

function quic_frames :: "(nat \<Rightarrow> nat \<Rightarrow> nat) \<Rightarrow> bytes \<Rightarrow> nat \<Rightarrow> quic_tracker \<Rightarrow> (quic_tracker \<times> err option) go" where
  "quic_frames \<rho> plain offset t = (if length plain \<le> offset then Ret (t, None)
     else gbind (read_varint plain offset) (\<lambda>r. case r of
       None \<Rightarrow> Ret (t, Some (Msg ''truncated QUIC Initial frame type''))
     | Some (kind, offset1) \<Rightarrow> gbind (quic_frame \<rho> kind plain offset1 t) (\<lambda>(t', r). case r of
         Inl e \<Rightarrow> Ret (t', Some e)
       | Inr offset2 \<Rightarrow> quic_frames \<rho> plain offset2 t')))"
  by pat_completeness auto
termination
proof (relation "measure (\<lambda>(\<rho>, plain, offset, t). length plain - offset)")
  fix \<rho> plain offset t r x kind offset1 y t' r' offset2
  assume a: "\<not> length plain \<le> offset" "read_varint plain offset = Ret r" "r = Some x" "(kind, offset1) = x"
    and f: "quic_frame \<rho> kind plain offset1 t = Ret y" "(t', r') = y" "r' = Inr offset2"
  have "offset < offset1" "offset1 \<le> length plain"
    using a read_varint_returns [of plain offset] by (auto simp: returns_def)
  moreover have "offset1 \<le> offset2" using quic_frame_end [of \<rho> kind plain offset1 t t' offset2] f \<open>offset1 \<le> length plain\<close> by simp
  ultimately show "((\<rho>, plain, offset2, t'), \<rho>, plain, offset, t) \<in> measure (\<lambda>(\<rho>, plain, offset, t). length plain - offset)"
    using a(1) by simp
qed simp

declare quic_frames.simps [simp del]

lemma skip_token_returns:
  "offset \<le> length data \<Longrightarrow> returns (skip_token data initial offset) (\<lambda>r. case r of None \<Rightarrow> True | Some offset' \<Rightarrow> offset' \<le> length data)"
  unfolding skip_token_def
  by (auto simp: ret_simps split: option.splits intro!: returns_mono [OF read_varint_returns])

text \<open>A packet that is split off lies within the datagram, behind its header there are at least 17 bytes.\<close>

definition packet_split :: "bytes \<Rightarrow> (long_packet \<times> nat) option \<Rightarrow> bool" where
  "packet_split data r \<longleftrightarrow> (case r of None \<Rightarrow> True
     | Some (packet, consumed) \<Rightarrow> 0 < consumed \<and> consumed \<le> length data \<and> length (l_raw packet) = consumed
         \<and> 0 < l_pn_offset packet \<and> l_pn_offset packet + 17 \<le> consumed \<and> l_version packet \<in> {version1, version2})"

lemma split_long_packet_returns: "returns (split_long_packet data) (packet_split data)"
proof (cases "length data < 7")
  case True
  then show ?thesis by (simp add: split_long_packet_def packet_split_def)
next
  case False
  have rest: "returns (packet_rest data version dcid initial o1) (packet_split data)"
    if "version \<in> {version1, version2}" for o1 version dcid initial
    unfolding packet_rest_def using that
    by (intro returns_bind [OF read_varint_returns])
      (auto simp: ret_simps packet_split_def Let_def word_less_nat_alt split: option.splits)
  show ?thesis
    using False unfolding split_long_packet_def Let_def
    by (auto simp: ret_simps packet_split_def [of _ None] simp del: any_c.simps
        intro!: returns_mono [OF skip_token_returns] rest split: option.splits)
qed

lemma split_shorter:
  "split_long_packet data = Ret (Some (packet, consumed)) \<Longrightarrow> gfrom data consumed = Ret rest \<Longrightarrow> length rest < length data"
  using split_long_packet_returns [of data] by (auto simp: returns_def packet_split_def gfrom_eq_Ret)

text \<open>
  \<^verbatim>\<open>Add\<close>: the ClientHello when it is complete, whether an Initial packet was authenticated, and the error.
\<close>

definition quic_finish :: "quic_tracker \<Rightarrow> quic_tracker" where
  "quic_finish t = t\<lparr>i_done := True, i_crypto := [], i_parts := [], i_dcid := [], i_pending_size := 0\<rparr>"

definition quic_seen :: "gotime \<Rightarrow> u64 \<Rightarrow> quic_tracker \<Rightarrow> quic_tracker" where
  "quic_seen now pn t = (let t1 = (if i_first t = None then t\<lparr>i_first := now\<rparr> else t); t2 = t1\<lparr>i_last := now\<rparr> in
     if \<not> i_has_pn t2 \<or> i_largest_pn t2 < pn then t2\<lparr>i_largest_pn := pn, i_has_pn := True\<rparr> else t2)"

type_synonym quic_result = "quic_tracker \<times> bytes option \<times> bool \<times> err option"

text \<open>What follows the opening of a packet: \<open>Inl\<close> returns from \<^verbatim>\<open>Add\<close>, \<open>Inr\<close> goes on with the next packet.\<close>

definition quic_opened :: "(nat \<Rightarrow> nat \<Rightarrow> nat) \<Rightarrow> bytes \<Rightarrow> quic_tracker \<Rightarrow> (quic_result + quic_tracker) go" where
  "quic_opened \<rho> plain t = gbind (quic_frames \<rho> plain 0 t) (\<lambda>(t1, er). case er of
       Some e \<Rightarrow> Ret (Inl (quic_fail e t1, None, True, Some e))
     | None \<Rightarrow> gbind (quic_client_hello t1) (\<lambda>r. case r of
         Inl e \<Rightarrow> Ret (Inl (quic_fail e t1, None, True, Some e))
       | Inr (Some hello) \<Rightarrow> Ret (Inl (quic_finish t1, Some hello, True, None))
       | Inr None \<Rightarrow> Ret (Inr t1)))"

function quic_packets :: "quic_crypto \<Rightarrow> (nat \<Rightarrow> nat \<Rightarrow> nat) \<Rightarrow> gotime \<Rightarrow> bytes \<Rightarrow> quic_tracker \<Rightarrow> bool \<Rightarrow> quic_result go" where
  "quic_packets X \<rho> now datagram t authenticated = (if length datagram = 0 then Ret (t, None, authenticated, None)
     else gbind (split_long_packet datagram) (\<lambda>r. case r of
       None \<Rightarrow> Ret (t, None, authenticated, None)
     | Some (packet, consumed) \<Rightarrow> gbind (gfrom datagram consumed) (\<lambda>rest.
         if \<not> l_initial packet then quic_packets X \<rho> now rest t authenticated
         else gbind (quic_open X t packet) (\<lambda>(t1, o1). case o1 of
           Inl e \<Rightarrow> quic_packets X \<rho> now rest t1 authenticated
         | Inr (plain, pn) \<Rightarrow> gbind (quic_opened \<rho> plain (quic_seen now pn t1)) (\<lambda>r. case r of
             Inl result \<Rightarrow> Ret result
           | Inr t2 \<Rightarrow> quic_packets X \<rho> now rest t2 True)))))"
  by pat_completeness auto
termination
proof (relation "measure (\<lambda>(X, \<rho>, now, datagram, t, a). length datagram)", goal_cases)
  case 1
  show ?case by simp
qed (auto intro: split_shorter)

declare quic_packets.simps [simp del]

definition quic_add :: "quic_crypto \<Rightarrow> (nat \<Rightarrow> nat \<Rightarrow> nat) \<Rightarrow> gotime \<Rightarrow> bytes \<Rightarrow> quic_tracker \<Rightarrow> quic_result go" where
  "quic_add X \<rho> now datagram t = (if i_done t \<or> i_failure t \<noteq> None then Ret (t, None, False, None)
     else if 65536 < length datagram then Ret (t, None, False, None)
     else quic_packets X \<rho> now datagram t False)"

section \<open>The fragments stay bounded\<close>

lemma sum_delete:
  "distinct (map fst m) \<Longrightarrow> (k, v) \<in> set m \<Longrightarrow> sum_list (map f (AList.delete k m)) + f (k, v) = (sum_list (map f m) :: nat)"
proof (induction m)
  case (Cons x m)
  show ?case
  proof (cases "x = (k, v)")
    case True
    then have "AList.delete k m = m" using Cons.prems(1) by simp
    then show ?thesis using True by simp
  next
    case False
    then have m: "(k, v) \<in> set m" using Cons.prems by auto
    then have "fst x \<noteq> k" using Cons.prems(1) by (auto simp: rev_image_eqI)
    note m = m this
    then show ?thesis using Cons.IH Cons.prems(1) by simp
  qed
qed simp

lemma sum_update_new: "k \<notin> fst ` set m \<Longrightarrow> sum_list (map f (AList.update k v m)) = (sum_list (map f m) + f (k, v) :: nat)"
  by (induction m) auto

lemma sum_update_old:
  "map_of m k = Some w \<Longrightarrow> sum_list (map f (AList.update k v m)) + f (k, w) = (sum_list (map f m) + f (k, v) :: nat)"
  by (induction m) (auto split: if_splits)

abbreviation part_fits :: "nat \<Rightarrow> bytes \<Rightarrow> bool" where
  "part_fits start part \<equiv> part \<noteq> [] \<and> start + length part \<le> max_crypto_bytes"

definition frags_ok :: "quic_tracker \<Rightarrow> bool" where
  "frags_ok t \<longleftrightarrow> map_ok max_crypto_parts part_fits (i_parts t) \<and> i_pending_size t = int (fragment_bytes (i_parts t))
     \<and> fragment_bytes (i_parts t) \<le> max_crypto_bytes \<and> length (i_crypto t) \<le> max_crypto_bytes"

text \<open>No fragment is left that the stream has reached.\<close>

definition beyond :: "quic_tracker \<Rightarrow> bool" where
  "beyond t \<longleftrightarrow> (\<forall>x \<in> set (i_parts t). length (i_crypto t) < fst x)"

definition quic_ok :: "quic_tracker \<Rightarrow> bool" where
  "quic_ok t \<longleftrightarrow> frags_ok t \<and> beyond t \<and> (i_keys t = None \<longrightarrow> i_version t \<notin> {version1, version2})
     \<and> (i_failure t \<noteq> None \<longrightarrow> i_done t) \<and> (i_done t \<longrightarrow> i_crypto t = [] \<and> i_parts t = [])"

text \<open>A property of the bytes that were put together, kept by a fragment's delivery.\<close>

lemma take_out_ok:
  assumes "frags_ok t" and "(start, part) \<in> set (i_parts t)"
  shows "frags_ok (t\<lparr>i_parts := AList.delete start (i_parts t), i_pending_size := i_pending_size t - int (length part)\<rparr>)"
    and "start + length part \<le> max_crypto_bytes"
proof -
  have d: "distinct (map fst (i_parts t))" using assms(1) by (simp add: frags_ok_def map_ok_def)
  have "fragment_bytes (AList.delete start (i_parts t)) + length part = fragment_bytes (i_parts t)"
    using sum_delete [OF d assms(2), of "\<lambda>x. length (snd x)"] by (simp add: fragment_bytes_def)
  then show "frags_ok (t\<lparr>i_parts := AList.delete start (i_parts t), i_pending_size := i_pending_size t - int (length part)\<rparr>)"
    using assms(1) by (auto simp: frags_ok_def intro: map_ok_delete)
  show "start + length part \<le> max_crypto_bytes"
    using assms by (auto simp: frags_ok_def map_ok_def list_all_iff)
qed

definition keyed_by :: "fragments \<Rightarrow> quic_tracker \<Rightarrow> bool" where
  "keyed_by xs t \<longleftrightarrow> distinct (map fst xs) \<and> set xs \<subseteq> set (i_parts t)"

lemma keyed_by_delete:
  assumes "keyed_by (x # xs) t" and "i_parts t' = AList.delete (fst x) (i_parts t)"
  shows "keyed_by xs t'"
proof -
  have "y \<in> set (i_parts t')" if "y \<in> set xs" for y
  proof -
    have "fst y \<noteq> fst x" using assms(1) that by (auto simp: keyed_by_def rev_image_eqI)
    then show ?thesis using assms that by (auto simp: keyed_by_def AList.delete_eq)
  qed
  then show ?thesis using assms(1) by (auto simp: keyed_by_def)
qed

text \<open>
  One pass, for any invariant \<open>P\<close> that taking a fragment out and appending what is new of it keep.
\<close>

lemma pull_pass_keeps:
  assumes "P t" and "keyed_by xs t"
    and "\<And>t start part. P t \<Longrightarrow> (start, part) \<in> set (i_parts t) \<Longrightarrow> start \<le> length (i_crypto t) \<Longrightarrow>
      P (t\<lparr>i_parts := AList.delete start (i_parts t), i_pending_size := i_pending_size t - int (length part),
           i_crypto := i_crypto t @ drop (length (i_crypto t) - start) part\<rparr>)"
  shows "P (fst (pull_pass xs t progress))"
  using assms(1,2)
proof (induction xs t progress rule: pull_pass.induct)
  case (2 start part xs t progress)
  show ?case
  proof (cases "length (i_crypto t) < start")
    case True
    then show ?thesis using 2 by (auto simp: keyed_by_def)
  next
    case False
    let ?t1 = "t\<lparr>i_parts := AList.delete start (i_parts t), i_pending_size := i_pending_size t - int (length part)\<rparr>"
    let ?used = "length (i_crypto t) - start"
    have p: "P (?t1\<lparr>i_crypto := i_crypto t @ drop ?used part\<rparr>)"
      using assms(3) [OF "2.prems"(1), of start part] "2.prems"(2) False by (simp add: keyed_by_def)
    have k: "keyed_by xs (?t1\<lparr>i_crypto := c\<rparr>)" "keyed_by xs ?t1" for c
      by (rule keyed_by_delete [OF "2.prems"(2)], simp)+
    have same: "\<not> ?used < length part \<Longrightarrow> ?t1\<lparr>i_crypto := i_crypto t @ drop ?used part\<rparr> = ?t1" by simp
    show ?thesis
    proof (cases "?used < length part")
      case True
      then show ?thesis using "2.IH"(2) [OF False refl refl True p k(1)] False by (simp add: Let_def)
    next
      case used: False
      then have "P ?t1" using p same by simp
      then show ?thesis using "2.IH"(3) [OF False refl refl used _ k(2)] False used by (simp add: Let_def)
    qed
  qed
qed simp

lemma keyed_by_order: "distinct (map fst (i_parts t)) \<Longrightarrow> keyed_by (fragment_order \<rho> (i_parts t)) t"
  by (simp add: keyed_by_def fragment_order_def distinct_map)

lemma pull_pass_stuck:
  "pull_pass xs t progress = (t', False) \<Longrightarrow> i_crypto t' = i_crypto t \<and> set (i_parts t') \<subseteq> set (i_parts t)
    \<and> (\<forall>x \<in> set xs. fst x \<le> length (i_crypto t) \<longrightarrow> fst x \<notin> fst ` set (i_parts t'))"
proof (induction xs t progress rule: pull_pass.induct)
  case (2 start part xs t progress)
  have no_progress: "pull_pass ys u True \<noteq> (t', False)" for ys u
    by (induction ys arbitrary: u) (auto simp: Let_def split: if_splits)
  show ?case
  proof (cases "length (i_crypto t) < start")
    case True
    then show ?thesis using "2.IH"(1) [OF True] "2.prems" by auto
  next
    case False
    let ?t1 = "t\<lparr>i_parts := AList.delete start (i_parts t), i_pending_size := i_pending_size t - int (length part)\<rparr>"
    have used: "\<not> length (i_crypto t) - start < length part" and p: "pull_pass xs ?t1 progress = (t', False)"
      using "2.prems" no_progress False by (auto simp: Let_def split: if_splits)
    have "set (AList.delete start (i_parts t)) \<subseteq> {x \<in> set (i_parts t). fst x \<noteq> start}"
      by (auto simp: AList.delete_eq)
    then show ?thesis using "2.IH"(3) [OF False refl refl used p] by auto
  qed
qed simp

lemma pull_parts_keeps:
  assumes "P t" and "\<And>t. P t \<Longrightarrow> distinct (map fst (i_parts t))"
    and "\<And>t start part. P t \<Longrightarrow> (start, part) \<in> set (i_parts t) \<Longrightarrow> start \<le> length (i_crypto t) \<Longrightarrow>
      P (t\<lparr>i_parts := AList.delete start (i_parts t), i_pending_size := i_pending_size t - int (length part),
           i_crypto := i_crypto t @ drop (length (i_crypto t) - start) part\<rparr>)"
  shows "P (pull_parts \<rho> t) \<and> beyond (pull_parts \<rho> t)"
  using assms(1)
proof (induction \<rho> t rule: pull_parts.induct)
  case (1 \<rho> t)
  obtain t' progress where p: "pull_pass (fragment_order \<rho> (i_parts t)) t False = (t', progress)" by fastforce
  have P': "P t'" using pull_pass_keeps [of P t "fragment_order \<rho> (i_parts t)" False, OF "1.prems" keyed_by_order [OF assms(2) [OF "1.prems"]] assms(3)] p
    by simp
  show ?case
  proof (cases progress)
    case True
    then show ?thesis using "1.IH" [OF p [symmetric] True P'] p by (subst (1 2) pull_parts.simps) simp
  next
    case False
    then have "beyond t'" using pull_pass_stuck [of "fragment_order \<rho> (i_parts t)" t False t'] p
      by (fastforce simp: beyond_def not_less)
    then show ?thesis using P' p False by (subst (1 2) pull_parts.simps) simp
  qed
qed

text \<open>The same connection: only the CRYPTO data differ.\<close>

definition same_conn :: "quic_tracker \<Rightarrow> quic_tracker \<Rightarrow> bool" where
  "same_conn t t' \<longleftrightarrow> t' = t\<lparr>i_crypto := i_crypto t', i_parts := i_parts t', i_pending_size := i_pending_size t'\<rparr>"

lemma same_conn_refl [simp]: "same_conn t t"
  by (simp add: same_conn_def)

lemma same_conn_trans: "same_conn t t' \<Longrightarrow> same_conn t' t'' \<Longrightarrow> same_conn t t''"
  by (cases t; cases t'; cases t'') (auto simp: same_conn_def)

lemma same_connI [simp]:
  "same_conn t (u\<lparr>i_crypto := c\<rparr>) = same_conn t u" "same_conn t (u\<lparr>i_parts := p\<rparr>) = same_conn t u"
  "same_conn t (u\<lparr>i_pending_size := n\<rparr>) = same_conn t u"
  by (cases t; cases u; auto simp: same_conn_def)+

lemma same_conn_fields:
  "same_conn t t' \<Longrightarrow> i_keys t' = i_keys t \<and> i_version t' = i_version t \<and> i_done t' = i_done t \<and> i_failure t' = i_failure t"
  by (cases t; cases t') (auto simp: same_conn_def)

lemma distinct_parts: "frags_ok t \<Longrightarrow> distinct (map fst (i_parts t))"
  by (simp add: frags_ok_def map_ok_def)

lemma deliver_ok:
  assumes "frags_ok t" and "(start, part) \<in> set (i_parts t)" and "start \<le> length (i_crypto t)"
  shows "frags_ok (t\<lparr>i_parts := AList.delete start (i_parts t), i_pending_size := i_pending_size t - int (length part),
    i_crypto := i_crypto t @ drop (length (i_crypto t) - start) part\<rparr>)"
proof -
  have "length (i_crypto t) + (length part - (length (i_crypto t) - start)) \<le> max_crypto_bytes"
    using take_out_ok(2) [OF assms(1,2)] assms(1,3) by (auto simp: frags_ok_def)
  then show ?thesis using take_out_ok(1) [OF assms(1,2)] by (simp add: frags_ok_def)
qed

lemma pull_parts_ok:
  assumes "frags_ok t"
  shows "frags_ok (pull_parts \<rho> t) \<and> same_conn t (pull_parts \<rho> t) \<and> beyond (pull_parts \<rho> t)"
  using pull_parts_keeps [of "\<lambda>u. frags_ok u \<and> same_conn t u" t \<rho>] assms by (auto simp: distinct_parts deliver_ok)

lemma keep_part_ok:
  assumes "frags_ok t" and "beyond t" and "keep_part start data u = (t', er)"
    and "u = t\<lparr>i_pending_size := i_pending_size t - int old\<rparr>"
    and "map_of (i_parts t) start = None \<and> old = 0 \<and> length (i_parts t) < max_crypto_parts
      \<or> (\<exists>prior. map_of (i_parts t) start = Some prior \<and> old = length prior)"
    and "part_fits start data" and "length (i_crypto t) < start"
  shows "same_conn t t' \<and> (er = None \<longrightarrow> frags_ok t' \<and> beyond t' \<and> i_crypto t' = i_crypto t \<and> i_parts t' = AList.update start data (i_parts t))
    \<and> er \<in> {None, Some (Msg ''QUIC CRYPTO buffer limit'')}"
proof -
  have sum: "fragment_bytes (AList.update start data (i_parts t)) + old = fragment_bytes (i_parts t) + length data"
    using assms(5) sum_update_new [of start "i_parts t" "\<lambda>x. length (snd x)" data] sum_update_old [of "i_parts t" start _ "\<lambda>x. length (snd x)" data]
    by (auto simp: fragment_bytes_def map_of_eq_None_iff)
  have p: "i_pending_size t = int (fragment_bytes (i_parts t))" using assms(1) by (simp add: frags_ok_def)
  have "map_ok max_crypto_parts part_fits (AList.update start data (i_parts t))"
    using assms(1,5,6) by (intro map_ok_put) (auto simp: frags_ok_def)
  then have "frags_ok (t\<lparr>i_parts := AList.update start data (i_parts t), i_pending_size := i_pending_size t - int old + int (length data)\<rparr>)"
    if "\<not> int max_crypto_bytes < i_pending_size t - int old + int (length data)"
    using that sum p assms(1) by (auto simp: frags_ok_def)
  moreover have "beyond (t\<lparr>i_parts := AList.update start data (i_parts t), i_pending_size := n\<rparr>)" for n
    using assms(2,7) by (auto simp: beyond_def dest!: update_entry)
  ultimately show ?thesis using assms(3) unfolding keep_part_def assms(4) by (auto split: if_splits)
qed

lemma park_crypto_ok:
  assumes "frags_ok t" and "beyond t" and "part_fits start data" and "length (i_crypto t) < start"
  shows "returns (park_crypto start data t) (\<lambda>(t', er). same_conn t t' \<and> (er = None \<longrightarrow> frags_ok t' \<and> beyond t'
    \<and> i_crypto t' = i_crypto t \<and> (i_parts t' = AList.update start data (i_parts t)
      \<or> t' = t \<and> (\<exists>prior. map_of (i_parts t) start = Some prior \<and> length data \<le> length prior \<and> take (length data) prior = data))))"
proof -
  obtain t' er where r: "park_crypto start data t = Ret (t', er)"
    using park_crypto_returns [of start data t] by (auto simp: returns_def)
  show ?thesis
  proof (cases "map_of (i_parts t) start")
    case None
    then show ?thesis
      using r keep_part_ok [OF assms(1,2) _ _ _ assms(3,4), of t t' er 0]
      by (auto simp: park_crypto_def gbind_eq_Ret simp del: any_c.simps split: if_splits)
  next
    case (Some prior)
    let ?u = "t\<lparr>i_pending_size := i_pending_size t - int (length prior)\<rparr>"
    have c: "t' = t \<and> er \<noteq> None \<or> t' = t \<and> er = None \<and> length data \<le> length prior \<and> take (length data) prior = data
        \<or> keep_part start data ?u = (t', er)"
      using r unfolding park_crypto_def gbind_eq_Ret
      by (elim exE conjE) (simp add: Some gbind_eq_Ret gslice_eq_Ret Let_def del: any_c.simps split: if_splits, auto)
    show ?thesis using c keep_part_ok [OF assms(1,2) _ refl _ assms(3,4), of "length prior" t' er] Some r assms(1,2)
      by (elim disjE) auto
  qed
qed

lemma add_crypto_ok:
  assumes "frags_ok t" and "beyond t"
  shows "returns (add_crypto \<rho> start data t) (\<lambda>(t', er). same_conn t t' \<and> (er = None \<longrightarrow> frags_ok t' \<and> beyond t'))"
proof -
  let ?post = "\<lambda>(t', er). same_conn t t' \<and> (er = None \<longrightarrow> frags_ok t' \<and> beyond t')"
  have tail: "returns (if d = [] then Ret (t, None)
      else if s = length (i_crypto t) then Ret (pull_parts \<rho> (t\<lparr>i_crypto := i_crypto t @ d\<rparr>), None)
      else park_crypto s d t) ?post"
    if "s + length d \<le> max_crypto_bytes" and "length (i_crypto t) \<le> s" for s d
  proof -
    have "frags_ok (t\<lparr>i_crypto := i_crypto t @ d\<rparr>)" if "s = length (i_crypto t)"
      using \<open>s + length d \<le> _\<close> that assms(1) by (simp add: frags_ok_def)
    then show ?thesis
      using that assms pull_parts_ok [of "t\<lparr>i_crypto := i_crypto t @ d\<rparr>" \<rho>] park_crypto_ok [OF assms, of d s]
        same_conn_trans [of t "t\<lparr>i_crypto := i_crypto t @ d\<rparr>" "pull_parts \<rho> (t\<lparr>i_crypto := i_crypto t @ d\<rparr>)"]
      by (auto elim!: returns_mono)
  qed
  show ?thesis
    unfolding add_crypto_def Let_def
    using tail [of "length (i_crypto t)" "drop (length (i_crypto t) - start) data"] tail [of start data] assms
    by (auto simp: ret_simps min_def not_less)
qed

lemma quic_frame_ok:
  assumes "frags_ok t" and "beyond t" and "offset \<le> length plain"
  shows "returns (quic_frame \<rho> kind plain offset t) (\<lambda>(t', r). same_conn t t' \<and> (\<forall>o'. r = Inr o' \<longrightarrow> frags_ok t' \<and> beyond t'))"
proof -
  let ?post = "\<lambda>(t', r :: err + nat). same_conn t t' \<and> (\<forall>o'. r = Inr o' \<longrightarrow> frags_ok t' \<and> beyond t')"
  have crypto: "returns (gbind (crypto_frame plain offset) (\<lambda>r. case r of
         Inl e \<Rightarrow> Ret (t, Inl e)
       | Inr (start, data, stop) \<Rightarrow> gbind (add_crypto \<rho> (unat start) data t) (\<lambda>(t', er). case er of
           Some e \<Rightarrow> Ret (t', Inl e) | None \<Rightarrow> Ret (t', Inr stop)))) ?post"
    by (rule returns_bind [OF crypto_frame_returns])
      (auto intro!: returns_bind [OF add_crypto_ok [OF assms(1,2)]] split: sum.splits option.splits)
  show ?thesis
    unfolding quic_frame_def using crypto assms(1,2)
    by (auto simp del: returns_gbind intro!: returns_bind [OF ack_frame_returns [OF assms(3)]] returns_bind [OF close_frame_returns [OF assms(3)]])
qed

lemma quic_frames_ok:
  assumes "frags_ok t" and "beyond t"
  shows "returns (quic_frames \<rho> plain offset t) (\<lambda>(t', er). same_conn t t' \<and> (er = None \<longrightarrow> frags_ok t' \<and> beyond t'))"
  using assms
proof (induction "length plain - offset" arbitrary: offset t rule: less_induct)
  case less
  let ?post = "\<lambda>t. \<lambda>(t', er :: err option). same_conn t t' \<and> (er = None \<longrightarrow> frags_ok t' \<and> beyond t')"
  have step: "returns (gbind (quic_frame \<rho> kind plain o1 t) (\<lambda>(t', r). case r of
         Inl e \<Rightarrow> Ret (t', Some e) | Inr offset2 \<Rightarrow> quic_frames \<rho> plain offset2 t')) (?post t)"
    if o1: "offset < o1" "o1 \<le> length plain" for kind o1
  proof (rule returns_bind [OF quic_frame_ok [OF less.prems o1(2)]])
    fix x assume x: "quic_frame \<rho> kind plain o1 t = Ret x"
      "case x of (t', r) \<Rightarrow> same_conn t t' \<and> (\<forall>o'. r = Inr o' \<longrightarrow> frags_ok t' \<and> beyond t')"
    obtain t' r where e: "x = (t', r)" by (cases x)
    show "returns (case x of (t', r) \<Rightarrow> case r of Inl e \<Rightarrow> Ret (t', Some e) | Inr offset2 \<Rightarrow> quic_frames \<rho> plain offset2 t') (?post t)"
    proof (cases r)
      case (Inl a)
      then show ?thesis using x e by simp
    next
      case (Inr o2)
      have "length plain - o2 < length plain - offset"
        using quic_frame_end [of \<rho> kind plain o1 t t' o2] x(1) e Inr o1 by (simp add: diff_less_mono2)
      then have "returns (quic_frames \<rho> plain o2 t') (?post t')"
        using x(2) e Inr by (intro less.hyps) auto
      moreover have "same_conn t t'" using x(2) e by simp
      ultimately show ?thesis unfolding e Inr by (auto intro: returns_mono same_conn_trans)
    qed
  qed
  show ?case
    unfolding quic_frames.simps [of \<rho> plain offset t] using less.prems
    by (auto intro!: returns_bind [OF read_varint_returns] step split: option.splits)
qed

lemma quic_client_hello_returns:
  "returns (quic_client_hello t) (\<lambda>r. case r of Inr (Some hello) \<Rightarrow> \<exists>len. 4 \<le> length (i_crypto t) \<and> be24 (i_crypto t) 1 = Ret len
     \<and> hello = take (len + 4) (i_crypto t) \<and> len + 4 \<le> length (i_crypto t) \<and> len \<le> 65536 \<and> i_crypto t ! 0 = 1 | _ \<Rightarrow> True)"
proof (cases "4 \<le> length (i_crypto t)")
  case True
  then obtain len where len: "be24 (i_crypto t) 1 = Ret len" using be24_in [of 1 "i_crypto t"] by auto
  show ?thesis using True unfolding quic_client_hello_def Let_def len
    by (auto simp: ret_simps len max_crypto_bytes_def)
next
  case False
  then show ?thesis by (simp add: quic_client_hello_def)
qed

lemma unmask_pn_returns:
  "pn_offset + i + n \<le> length header \<Longrightarrow> i + n < length hp_mask \<Longrightarrow>
   returns (unmask_pn n i pn_offset hp_mask header pn) (\<lambda>(header', _). length header' = length header)"
proof (induction n arbitrary: i header pn)
  case (Suc n)
  have "returns (unmask_pn n (i + 1) pn_offset hp_mask (header[k := h]) pn') (\<lambda>(header', _). length header' = length header)" for k h pn'
    using Suc.IH [of "i + 1" "header[k := h]" pn'] Suc.prems by simp
  then show ?case using Suc.prems by (simp add: ret_simps)
qed simp

lemma library_gwp: "gwp (library r) (\<lambda>_. True)"
  by (simp add: library_def split: option.split)

lemma derive_client_keys_gwp: "gwp (derive_client_keys X version dcid) (\<lambda>_. True)"
proof -
  have e: "gwp (expand_label X s l n) (\<lambda>_. True)" for s l n
    by (simp add: expand_label_def Let_def library_gwp)
  have c: "gwp (new_cipher k) (\<lambda>_. True)" for k
    by (simp add: new_cipher_def)
  show ?thesis unfolding derive_client_keys_def
    by (auto intro!: gwp_bindI [OF library_gwp] gwp_bindI [OF e] gwp_bindI [OF c])
qed

lemma length_copy_array [simp]: "length (copy_array n b) = n"
  by (simp add: copy_array_def)

lemma pn_length_le: "unat (x AND 3 :: byte) + 1 \<le> 4"
proof -
  have "unat (x AND 3) \<le> unat (3 :: byte)" by (simp only: word_le_nat_alt [symmetric]) (rule word_and_le1)
  then show ?thesis by simp
qed

lemma remove_protection_returns:
  assumes "\<not> length (l_raw packet) < l_pn_offset packet + 20" and "0 < length (l_raw packet)"
  shows "returns (remove_protection X keys packet) (\<lambda>r. case r of Inl e \<Rightarrow> True
    | Inr (header, pn, n) \<Rightarrow> l_pn_offset packet + n \<le> length (l_raw packet) \<and> n \<le> 4)"
proof -
  have un: "returns (gbind (unmask_pn n 0 (l_pn_offset packet) (copy_array 16 m) header 0) (\<lambda>(h, pn). Ret (Inr (h, pn, n))))
      (\<lambda>r. case r of Inl e \<Rightarrow> True | Inr (header, pn, n) \<Rightarrow> l_pn_offset packet + n \<le> length (l_raw packet) \<and> n \<le> 4)"
    if "n \<le> 4" "l_pn_offset packet + n \<le> length header" "length header \<le> length (l_raw packet)" for n m header
    using that by (intro returns_bind [OF unmask_pn_returns]) auto
  let ?m = "copy_array 16 (aes_block X (qk_hp keys) (take (l_pn_offset packet + 20 - (l_pn_offset packet + 4)) (drop (l_pn_offset packet + 4) (l_raw packet))))"
  have g: "gslice (l_raw packet) (l_pn_offset packet + 4) (l_pn_offset packet + 20)
      = Ret (take (l_pn_offset packet + 20 - (l_pn_offset packet + 4)) (drop (l_pn_offset packet + 4) (l_raw packet)))"
    "gidx (l_raw packet) 0 = Ret (l_raw packet ! 0)" "gidx ?m 0 = Ret (?m ! 0)"
    using assms by (simp_all add: gslice_def gidx_def)
  show ?thesis
    unfolding remove_protection_def Let_def g gbind.simps
  proof (intro returns_if)
    let ?n = "unat ((l_raw packet ! 0 XOR (?m ! 0 AND 0x0f)) AND 3) + 1"
    assume l: "\<not> length (l_raw packet) < l_pn_offset packet + (?n + 16)"
    then have h: "gslice (l_raw packet) 0 (l_pn_offset packet + ?n) = Ret (take (l_pn_offset packet + ?n) (l_raw packet))"
      by (simp add: gslice_def)
    show "returns (gbind (gslice (l_raw packet) 0 (l_pn_offset packet + ?n)) (\<lambda>header0.
        gbind (unmask_pn ?n 0 (l_pn_offset packet) ?m (header0[0 := l_raw packet ! 0 XOR (?m ! 0 AND 0x0f)]) 0)
         (\<lambda>(header, truncated_pn). Ret (Inr (header, truncated_pn, ?n)))))
      (\<lambda>r. case r of Inl e \<Rightarrow> True | Inr (header, pn, n) \<Rightarrow> l_pn_offset packet + n \<le> length (l_raw packet) \<and> n \<le> 4)"
      unfolding h gbind.simps by (rule un [OF pn_length_le]) (use l in simp_all)
  qed simp
qed

lemma quic_restart_ok: "l_version packet \<in> {version1, version2} \<Longrightarrow> frags_ok (quic_restart packet keys t) \<and> beyond (quic_restart packet keys t)
   \<and> i_keys (quic_restart packet keys t) = Some keys \<and> i_done (quic_restart packet keys t) = i_done t
   \<and> i_failure (quic_restart packet keys t) = i_failure t"
  by (simp add: quic_restart_def frags_ok_def beyond_def fragment_bytes_def)

text \<open>\<open>conn_ok\<close>: what \<open>quic_ok\<close> says of a tracker that is not done.\<close>

definition conn_ok :: "quic_tracker \<Rightarrow> bool" where
  "conn_ok t \<longleftrightarrow> frags_ok t \<and> beyond t \<and> (i_keys t = None \<longrightarrow> i_version t \<notin> {version1, version2})
     \<and> \<not> i_done t \<and> i_failure t = None"

lemma conn_ok_quic_ok: "conn_ok t \<Longrightarrow> quic_ok t"
  by (simp add: conn_ok_def quic_ok_def)

lemma quic_open_ok:
  assumes "conn_ok t" and "packet_split data (Some (packet, consumed))"
  shows "returns (quic_open X t packet) (\<lambda>(t', r). conn_ok t')"
proof -
  let ?raw = "l_raw packet" and ?o = "l_pn_offset packet"
  have v: "l_version packet \<in> {version1, version2}" and raw: "0 < length ?raw"
    using assms(2) by (auto simp: packet_split_def)
  have restart: "conn_ok (quic_restart packet keys t)" for keys
    using quic_restart_ok [OF v] assms(1) by (simp add: conn_ok_def)
  have opened: "returns (quic_unseal X t packet changed keys) (\<lambda>(t', r). conn_ok t')"
    if "\<not> length ?raw < ?o + 20" for keys changed
    unfolding quic_unseal_def using restart assms(1)
    by (intro returns_bind [OF remove_protection_returns [OF that raw]])
      (auto simp: ret_simps Let_def split: sum.splits option.splits)
  show ?thesis
  proof (cases "l_version packet \<noteq> i_version t \<or> l_dcid packet \<noteq> i_dcid t")
    case True
    have "gwp (gbind (derive_client_keys X (l_version packet) (l_dcid packet)) (\<lambda>k. Ret (Some k))) (\<lambda>r. r \<noteq> None)"
      by (rule gwp_bindI [OF derive_client_keys_gwp]) simp
    then show ?thesis
      unfolding quic_open_def Let_def if_P [OF True]
      using assms(1) opened
      by (auto simp del: returns_gbind intro!: returns_try)
  next
    case False
    then obtain keys where k: "i_keys t = Some keys" using assms(1) v by (cases "i_keys t") (auto simp: conn_ok_def)
    show ?thesis
      unfolding quic_open_def Let_def if_not_P [OF False] k gtry.simps option.case gbind.simps
      using assms(1) opened by simp
  qed
qed

lemma conn_ok_seen: "conn_ok t \<Longrightarrow> conn_ok (quic_seen now pn t)"
  by (simp add: conn_ok_def quic_seen_def Let_def frags_ok_def beyond_def)

lemma conn_ok_fail: "conn_ok t \<Longrightarrow> same_conn t t' \<Longrightarrow> quic_ok (quic_fail e t')"
  using same_conn_fields [of t t'] by (simp add: conn_ok_def quic_ok_def quic_fail_def frags_ok_def beyond_def fragment_bytes_def)

lemma conn_ok_finish: "conn_ok t \<Longrightarrow> quic_ok (quic_finish t)"
  by (simp add: conn_ok_def quic_ok_def quic_finish_def frags_ok_def beyond_def fragment_bytes_def)

text \<open>A ClientHello that is returned is one whole handshake message.\<close>

definition whole_hello :: "bytes \<Rightarrow> bool" where
  "whole_hello h \<longleftrightarrow> (\<exists>len. 4 \<le> length h \<and> h ! 0 = 1 \<and> be24 h 1 = Ret len \<and> length h = len + 4 \<and> len \<le> 65536)"

definition result_ok :: "quic_result \<Rightarrow> bool" where
  "result_ok r \<longleftrightarrow> (case r of (t, hello, authenticated, er) \<Rightarrow> quic_ok t
     \<and> (hello \<noteq> None \<or> er \<noteq> None \<longrightarrow> authenticated \<and> i_done t)
     \<and> (case hello of None \<Rightarrow> True | Some h \<Rightarrow> er = None \<and> whole_hello h))"

lemma be24_take: "4 \<le> n \<Longrightarrow> be24 (take n b) (Suc 0) = be24 b (Suc 0)"
  by (auto simp: be24_def gidx_def)

lemma quic_opened_ok:
  assumes "conn_ok t"
  shows "returns (quic_opened \<rho> plain t) (\<lambda>r. case r of Inl result \<Rightarrow> result_ok result | Inr t' \<Rightarrow> conn_ok t')"
proof -
  have ok: "frags_ok t" "beyond t" using assms by (simp_all add: conn_ok_def)
  have next_ok: "conn_ok t'" if "same_conn t t'" "frags_ok t'" "beyond t'" for t'
    using that same_conn_fields [OF that(1)] assms by (simp add: conn_ok_def)
  have closed: "i_done (quic_fail e t')" for e t' by (simp add: quic_fail_def)
  have hello: "whole_hello (take (len + 4) c)" if "4 \<le> length c" "be24 c 1 = Ret len" "len + 4 \<le> length c" "len \<le> 65536" "c ! 0 = 1" for len c
    using that by (simp add: whole_hello_def be24_take)
  show ?thesis
    unfolding quic_opened_def
  proof (rule returns_bind [OF quic_frames_ok [OF ok]], clarify)
    fix t' :: quic_tracker and er :: "err option" assume t': "same_conn t t'" "er = None \<longrightarrow> frags_ok t' \<and> beyond t'"
    show "returns (case er of Some e \<Rightarrow> Ret (Inl (quic_fail e t', None, True, Some e))
       | None \<Rightarrow> gbind (quic_client_hello t') (\<lambda>r. case r of
           Inl e \<Rightarrow> Ret (Inl (quic_fail e t', None, True, Some e))
         | Inr (Some hello) \<Rightarrow> Ret (Inl (quic_finish t', Some hello, True, None))
         | Inr None \<Rightarrow> Ret (Inr t'))) (\<lambda>r. case r of Inl result \<Rightarrow> result_ok result | Inr t' \<Rightarrow> conn_ok t')"
    proof (cases er)
      case (Some e)
      then show ?thesis using conn_ok_fail [OF assms t'(1)] closed by (simp add: result_ok_def)
    next
      case None
      then have c: "conn_ok t'" using t' next_ok by simp
      have f: "i_done (quic_finish t')" by (simp add: quic_finish_def)
      show ?thesis unfolding None option.case
        using conn_ok_fail [OF assms t'(1)] conn_ok_finish [OF c] closed f c
        by (intro returns_bind [OF quic_client_hello_returns])
          (auto simp: result_ok_def intro!: hello split: sum.splits option.splits)
    qed
  qed
qed

lemma quic_packets_ok:
  assumes "conn_ok t"
  shows "returns (quic_packets X \<rho> now datagram t authenticated) result_ok"
  using assms
proof (induction "length datagram" arbitrary: datagram t authenticated rule: less_induct)
  case less
  have stop: "result_ok (t, None, authenticated, None)" using conn_ok_quic_ok [OF less.prems] by (simp add: result_ok_def)
  show ?case
  proof (cases "split_long_packet datagram")
    case (Ret r)
    show ?thesis
    proof (cases r)
      case None
      then show ?thesis using stop Ret by (subst quic_packets.simps) simp
    next
      case (Some x)
      obtain packet consumed where x: "x = (packet, consumed)" by (cases x)
      have s: "packet_split datagram (Some (packet, consumed))"
        using split_long_packet_returns [of datagram] Ret Some x by simp
      have "consumed \<le> length datagram" "0 < consumed" using s by (simp_all add: packet_split_def)
      then have g: "gfrom datagram consumed = Ret (drop consumed datagram)" and l: "length (drop consumed datagram) < length datagram"
        by simp_all
      note IH = less.hyps [OF l]
      have opened: "returns (gbind (quic_opened \<rho> plain (quic_seen now pn t1)) (\<lambda>r. case r of
             Inl result \<Rightarrow> Ret result | Inr t2 \<Rightarrow> quic_packets X \<rho> now (drop consumed datagram) t2 True)) result_ok" if "conn_ok t1" for plain pn t1
        by (rule returns_bind [OF quic_opened_ok [OF conn_ok_seen [OF that]]]) (auto intro: IH split: sum.splits)
      have "returns (gbind (quic_open X t packet) (\<lambda>(t1, o1). case o1 of
           Inl e \<Rightarrow> quic_packets X \<rho> now (drop consumed datagram) t1 authenticated
         | Inr (plain, pn) \<Rightarrow> gbind (quic_opened \<rho> plain (quic_seen now pn t1)) (\<lambda>r. case r of
             Inl result \<Rightarrow> Ret result | Inr t2 \<Rightarrow> quic_packets X \<rho> now (drop consumed datagram) t2 True))) result_ok"
        by (rule returns_bind [OF quic_open_ok [OF less.prems s]])
          (auto simp del: returns_gbind intro: IH opened split: sum.splits)
      then show ?thesis using IH [OF less.prems] stop Ret Some x g
        by (subst quic_packets.simps) simp
    qed
  qed (use split_long_packet_returns [of datagram] in \<open>auto simp: returns_def\<close>)
qed

lemma quic_add_ok: "quic_ok t \<Longrightarrow> returns (quic_add X \<rho> now datagram t) result_ok"
proof -
  assume ok: "quic_ok t"
  have "conn_ok t" if "\<not> (i_done t \<or> i_failure t \<noteq> None)" using ok that by (auto simp: quic_ok_def conn_ok_def)
  then show ?thesis using ok quic_packets_ok unfolding quic_add_def by (auto simp: result_ok_def)
qed

lemma quic_ok_new: "quic_ok quic_tracker0"
  by (simp add: quic_ok_def quic_tracker0_def frags_ok_def beyond_def fragment_bytes_def version1_def version2_def)

lemma quic_tick_ok: "quic_ok t \<Longrightarrow> quic_ok (quic_tick now t)"
  by (auto simp: quic_tick_def quic_fail_def quic_ok_def frags_ok_def beyond_def fragment_bytes_def)

text \<open>The domain page takes the message as it is: the checks of its header pass and its body is parsed.\<close>

lemma whole_hello_taken:
  assumes "whole_hello h"
  shows "new_quic_client_hello \<Gamma> h = gbind (parse_client_hello \<Gamma> (drop 4 h)) (\<lambda>hello.
    Ret (evidence_stream (evidence0\<lparr>e_kind := KQuic, e_sni := h_sni hello, e_no_sni := h_sni hello = [], e_ech := h_ech hello,
      e_alpn := h_alpn hello, e_ja4 := Some (fingerprint \<Gamma> (h_ja4 hello) 113)\<rparr>)))"
proof -
  obtain len where h: "4 \<le> length h" "h ! 0 = 1" "be24 h 1 = Ret len" "length h = len + 4" "len \<le> 65536"
    using assms by (auto simp: whole_hello_def)
  have "any_c [Ret (length h < 4), gbyte h 0 (\<lambda>x. x \<noteq> 1)] = Ret False"
    using h by (simp add: gbyte_def)
  then show ?thesis using h by (simp add: new_quic_client_hello_def max_pending_bytes_def)
qed

section \<open>Packet numbers\<close>

text \<open>
  A packet number that is sent in its \<open>n\<close> lowest bytes is found again from the largest one so far, if it is within
  half a window of the next one.  Read as naturals, no intermediate value wraps.
\<close>

lemma nearest_window:
  fixes pn e h a b :: nat
  assumes "e = a * (2 * h) + r" and "pn = b * (2 * h) + s" and "r < 2 * h" and "s < 2 * h"
    and "e < pn + h" and "pn \<le> e + h"
  shows "b = a \<and> a * (2 * h) + s = pn \<or> b = Suc a \<and> a * (2 * h) + s + 2 * h = pn \<or> Suc b = a \<and> a * (2 * h) + s = pn + 2 * h"
proof -
  have "b < a + 2"
  proof (rule ccontr)
    assume "\<not> b < a + 2"
    then have "(a + 2) * (2 * h) \<le> b * (2 * h)" by (intro mult_le_mono1) simp
    then show False using assms by simp
  qed
  moreover have "a < b + 2"
  proof (rule ccontr)
    assume "\<not> a < b + 2"
    then have "(b + 2) * (2 * h) \<le> a * (2 * h)" by (intro mult_le_mono1) simp
    then show False using assms by simp
  qed
  ultimately consider "b = a" | "b = Suc a" | "a = Suc b" by linarith
  then show ?thesis using assms(2) by cases simp_all
qed

lemma nearest_candidate:
  fixes pn e h w :: nat
  assumes "w = 2 * h" and "0 < h" and "e < pn + h" and "pn \<le> e + h"
  shows "pn div w = e div w \<and> e div w * w + pn mod w = pn \<or> pn div w = Suc (e div w) \<and> e div w * w + pn mod w + w = pn
    \<or> Suc (pn div w) = e div w \<and> e div w * w + pn mod w = pn + w"
  unfolding assms(1)
  using nearest_window [OF div_mult_mod_eq [symmetric] div_mult_mod_eq [symmetric] mod_less_divisor mod_less_divisor assms(3,4)] assms(2)
  by simp

lemma unat_add_small: "unat (x :: u64) + unat y < 2 ^ 64 \<Longrightarrow> unat (x + y) = unat x + unat y"
  by (simp add: unat_add_lem [THEN iffD1])

lemma unat_two_power:
  assumes "n < 64"
  shows "unat (2 ^ n :: u64) = 2 ^ n"
proof -
  have "(2 :: nat) ^ n < 2 ^ 64" using assms by (intro power_strict_increasing) simp_all
  then have "unat (of_nat (2 ^ n) :: u64) = 2 ^ n" by (simp add: unat_of_nat del: of_nat_power)
  then show ?thesis by simp
qed

lemma unat_keep_high:
  assumes "unat (t :: u64) < 2 ^ n" and "n < 64"
  shows "unat ((x AND NOT (mask n)) OR t) = unat x div 2 ^ n * 2 ^ n + unat t"
proof -
  have t: "take_bit n t = t"
    using assms by (simp add: word_unat_eq_iff unsigned_take_bit_eq take_bit_nat_eq_self)
  have "(x AND NOT (mask n)) OR t = push_bit n (drop_bit n x) + t"
  proof -
    have "x AND NOT (mask n) = push_bit n (drop_bit n x)"
      by (rule bit_word_eqI) (auto simp: bit_simps)
    moreover have "push_bit n (drop_bit n x) OR take_bit n t = push_bit n (drop_bit n x) + take_bit n t"
      by (rule disjunctive_add [symmetric]) (auto simp: bit_simps)
    ultimately show ?thesis by (simp add: t)
  qed
  moreover have hi: "unat (push_bit n (drop_bit n x)) = unat x div 2 ^ n * 2 ^ n"
  proof -
    have "push_bit n (drop_bit n x) + take_bit n x = x" by (rule bits_ident)
    have "unat x < 2 ^ 64" using unsigned_less [of x, where ?'a = nat] by simp
    with div_times_less_eq_dividend have "unat x div 2 ^ n * 2 ^ n < 2 ^ 64" by (rule le_less_trans)
    moreover have "unat (x div 2 ^ n) = unat x div 2 ^ n" "unat (2 ^ n :: u64) = 2 ^ n"
      using assms(2) by (simp_all add: unat_div_distrib unat_two_power)
    ultimately have "unat (x div 2 ^ n * 2 ^ n) = unat x div 2 ^ n * 2 ^ n"
      using unat_mult_lem [of "x div 2 ^ n" "2 ^ n"] by simp
    then show ?thesis by (simp add: push_bit_eq_mult drop_bit_eq_div)
  qed
  moreover have "unat x div 2 ^ n * 2 ^ n + unat t < 2 ^ 64"
  proof -
    have "unat x div 2 ^ n < 2 ^ (64 - n)" using unsigned_less [of x, where ?'a = nat] assms(2)
      by (simp add: less_mult_imp_div_less flip: power_add)
    then have "(unat x div 2 ^ n + 1) * 2 ^ n \<le> 2 ^ (64 - n) * 2 ^ n" by (intro mult_le_mono1) simp
    also have "\<dots> = 2 ^ 64" using assms(2) by (simp flip: power_add)
    finally show ?thesis using assms(1) by simp
  qed
  ultimately show ?thesis by (simp add: unat_add_small)
qed

lemma packet_number_window:
  assumes "i_has_pn t" and "1 \<le> n" and "n \<le> 4" and "unat (i_largest_pn t) < 2 ^ 62" and "pn < 2 ^ 62"
    and "unat (i_largest_pn t) + 1 < pn + 2 ^ (8 * n - 1)" and "pn \<le> unat (i_largest_pn t) + 1 + 2 ^ (8 * n - 1)"
  shows "packet_number t (of_nat (pn mod 2 ^ (8 * n))) n = of_nat pn"
proof -
  let ?h = "2 ^ (8 * n - 1) :: nat" and ?w = "2 ^ (8 * n) :: nat" and ?e = "unat (i_largest_pn t) + 1"
  have w: "?w = 2 * ?h" using assms(2) by (simp flip: power_Suc)
  have w32: "?w \<le> 2 ^ 32" using assms(3) by (intro power_increasing) simp_all
  let ?t = "of_nat (pn mod ?w) :: u64"
  have "pn mod ?w < ?w" by simp
  then have "pn mod ?w < 2 ^ 64" by (rule order_less_le_trans) (rule order_trans [OF w32], simp)
  then have ut: "unat ?t = pn mod ?w" by (simp add: unat_of_nat)
  have tw: "unat ?t < ?w" unfolding ut by simp
  have win: "push_bit (n * 8) (1 :: u64) = 2 ^ (8 * n)" by (simp add: push_bit_eq_mult mult.commute)
  have uw: "unat (2 ^ (8 * n) :: u64) = ?w" using assms(3) by (intro unat_two_power) simp
  have m1: "(2 :: u64) ^ (8 * n) - 1 = mask (8 * n)" by (simp add: mask_eq_exp_minus_1)
  have ue: "unat (i_largest_pn t + 1) = ?e" using assms(4) by (subst unat_add_small) simp_all
  let ?c = "((i_largest_pn t + 1) AND NOT (mask (8 * n))) OR ?t"
  have uc: "unat ?c = ?e div ?w * ?w + pn mod ?w"
    using unat_keep_high [OF tw, of "i_largest_pn t + 1"] assms(3) unfolding ue ut by simp
  have near: "pn div ?w = ?e div ?w \<and> unat ?c = pn \<or> pn div ?w = Suc (?e div ?w) \<and> unat ?c + ?w = pn
      \<or> Suc (pn div ?w) = ?e div ?w \<and> unat ?c = pn + ?w"
    unfolding uc by (rule nearest_candidate [OF w _ assms(6,7)]) simp
  have uh: "unat ((2 :: u64) ^ (8 * n) div 2) = ?h" unfolding unat_div_distrib uw w by simp
  have small: "unat ?c < 2 ^ 62 + 2 ^ 33" "?e \<le> 2 ^ 62" "?h \<le> 2 ^ 32"
    using near assms(4,5) w32 w by auto
  have s1: "unat (?c + 2 ^ (8 * n) div 2) = unat ?c + ?h" using small by (subst unat_add_small) (simp_all add: uh)
  have s2: "unat (?c + 2 ^ (8 * n)) = unat ?c + ?w" using small w32 by (subst unat_add_small) (simp_all add: uw)
  have s3: "unat (i_largest_pn t + 1 + 2 ^ (8 * n) div 2) = ?e + ?h" using small by (subst unat_add_small) (simp_all add: uh ue)
  have u62: "unat (push_bit 62 (1 :: u64)) = 2 ^ 62" by simp
  have "unat (packet_number t ?t n) = pn"
  proof -
    have eq: "packet_number t ?t n = (if unat ?c + ?h \<le> ?e \<and> unat ?c + ?w < 2 ^ 62 then ?c + 2 ^ (8 * n)
        else if ?e + ?h < unat ?c \<and> ?w \<le> unat ?c then ?c - 2 ^ (8 * n) else ?c)"
      using assms(1) by (simp only: packet_number_def Let_def win m1 word_le_nat_alt word_less_nat_alt s1 s2 s3 u62 uw ue not_False_eq_True if_False not_True_eq_False)
    have sub: "unat (?c - 2 ^ (8 * n)) = unat ?c - ?w" if "?w \<le> unat ?c"
      using that by (subst unat_sub) (simp_all add: word_le_nat_alt uw)
    show ?thesis unfolding eq using near assms(5-7) s2 sub w by auto
  qed
  then have "of_nat (unat (packet_number t ?t n)) = (of_nat pn :: u64)" by (rule arg_cong)
  then show ?thesis by simp
qed

section \<open>Reassembly\<close>

text \<open>
  The client's handshake is \<open>B\<close>: everything the tracker holds is a part of it, and \<open>held\<close> is the set of the
  positions it holds.
\<close>

definition part_of :: "bytes \<Rightarrow> nat \<Rightarrow> bytes \<Rightarrow> bool" where
  "part_of B start data \<longleftrightarrow> start + length data \<le> length B \<and> data = take (length data) (drop start B)"

definition follows :: "bytes \<Rightarrow> quic_tracker \<Rightarrow> bool" where
  "follows B t \<longleftrightarrow> part_of B 0 (i_crypto t) \<and> (\<forall>x \<in> set (i_parts t). part_of B (fst x) (snd x))"

definition span :: "nat \<Rightarrow> bytes \<Rightarrow> nat set" where
  "span start data = {start ..< start + length data}"

definition spans :: "fragments \<Rightarrow> nat set" where
  "spans xs = (\<Union>x \<in> set xs. span (fst x) (snd x))"

definition held :: "quic_tracker \<Rightarrow> nat set" where
  "held t = span 0 (i_crypto t) \<union> spans (i_parts t)"

lemma part_of_slice: "part_of B start data \<Longrightarrow> take j (drop i data) = take (min j (length data - i)) (drop (start + i) B)"
proof -
  assume "part_of B start data"
  then have "data = take (length data) (drop start B)" by (simp add: part_of_def)
  then have "take j (drop i data) = take j (drop i (take (length data) (drop start B)))" by simp
  then show ?thesis by (simp add: drop_take add.commute)
qed

lemma part_of_drop: "part_of B start data \<Longrightarrow> n \<le> length data \<Longrightarrow> part_of B (start + n) (drop n data)"
  using part_of_slice [of B start data "length data" n] by (auto simp: part_of_def min_def)

lemma part_of_append:
  assumes "part_of B 0 c" and "part_of B (length c) d"
  shows "part_of B 0 (c @ d)"
proof -
  have "take (length c + length d) B = take (length c) B @ take (length d) (drop (length c) B)" by (rule take_add)
  then show ?thesis using assms by (simp add: part_of_def)
qed

lemma spans_delete:
  assumes "distinct (map fst p)" and "(start, part) \<in> set p"
  shows "spans p = spans (AList.delete start p) \<union> span start part"
proof -
  have one: "v = part" if "(start, v) \<in> set p" for v
    using eq_key_imp_eq_value [OF assms(1) that assms(2)] .
  have "x \<in> set (AList.delete start p) \<union> {(start, part)}" if "x \<in> set p" for x
  proof (cases "fst x = start")
    case True
    then have "x = (start, snd x)" by (metis prod.collapse)
    then show ?thesis using that one [of "snd x"] by simp
  next
    case False
    then show ?thesis using that by (auto simp: AList.delete_eq)
  qed
  moreover have "set (AList.delete start p) \<subseteq> set p" by (auto simp: AList.delete_eq)
  ultimately have e: "set p = set (AList.delete start p) \<union> {(start, part)}" using assms(2) by blast
  show ?thesis unfolding spans_def by (subst e) (simp add: Un_commute)
qed

lemma deliver_follows:
  assumes "frags_ok t" and "follows B t" and "(start, part) \<in> set (i_parts t)" and "start \<le> length (i_crypto t)"
  defines "u \<equiv> t\<lparr>i_parts := AList.delete start (i_parts t), i_pending_size := i_pending_size t - int (length part),
    i_crypto := i_crypto t @ drop (length (i_crypto t) - start) part\<rparr>"
  shows "follows B u \<and> held u = held t"
proof -
  let ?c = "i_crypto t" and ?used = "length (i_crypto t) - start"
  have p: "part_of B start part" using assms(2,3) by (auto simp: follows_def)
  have c: "part_of B 0 (?c @ drop ?used part)"
  proof (cases "?used \<le> length part")
    case True
    then show ?thesis using part_of_drop [OF p True] assms(2,4) by (auto simp: follows_def intro: part_of_append)
  next
    case False
    then show ?thesis using assms(2) by (simp add: follows_def)
  qed
  have "span 0 (?c @ drop ?used part) = span 0 ?c \<union> span start part" using assms(4) by (auto simp: span_def)
  then have "held u = held t"
    using spans_delete [OF distinct_parts [OF assms(1)] assms(3)] by (auto simp: u_def held_def)
  moreover have "follows B u" using c assms(2) by (auto simp: u_def follows_def AList.delete_eq)
  ultimately show ?thesis by simp
qed

lemma pull_parts_follows:
  assumes "frags_ok t" and "follows B t"
  shows "follows B (pull_parts \<rho> t) \<and> held (pull_parts \<rho> t) = held t"
proof -
  let ?P = "\<lambda>u. frags_ok u \<and> follows B u \<and> held u = held t"
  have "?P (pull_parts \<rho> t) \<and> beyond (pull_parts \<rho> t)"
  proof (rule pull_parts_keeps)
    fix u start part assume "?P u" "(start, part) \<in> set (i_parts u)" "start \<le> length (i_crypto u)"
    then show "?P (u\<lparr>i_parts := AList.delete start (i_parts u), i_pending_size := i_pending_size u - int (length part),
        i_crypto := i_crypto u @ drop (length (i_crypto u) - start) part\<rparr>)"
      using deliver_follows [of u B start part] deliver_ok [of u start part] by simp
  qed (use assms distinct_parts in simp_all)
  then show ?thesis by simp
qed

lemma no_conflict:
  assumes "part_of B start data" and "part_of B existing part"
  shows "overlap_conflict start data (existing, part) = Ret False"
proof -
  let ?s = "max start existing" and ?e = "min (start + length data) (existing + length part)"
  have "take (?e - ?s) (drop (?s - start) data) = take (?e - ?s) (drop (?s - existing) part)" if "?s < ?e"
  proof -
    have "take (?e - ?s) (drop (?s - start) data) = take (?e - ?s) (drop ?s B)"
      using part_of_slice [OF assms(1), of "?e - ?s" "?s - start"] that by (simp add: min_absorb1)
    moreover have "take (?e - ?s) (drop (?s - existing) part) = take (?e - ?s) (drop ?s B)"
      using part_of_slice [OF assms(2), of "?e - ?s" "?s - existing"] that by (simp add: min_absorb1)
    ultimately show ?thesis by simp
  qed
  then show ?thesis by (auto simp: overlap_conflict_def Let_def gslice_def)
qed

lemma no_conflicts:
  "part_of B start data \<Longrightarrow> (\<forall>x \<in> set xs. part_of B (fst x) (snd x)) \<Longrightarrow> any_c (map (overlap_conflict start data) xs) = Ret False"
proof (induction xs)
  case (Cons x xs)
  then show ?case using no_conflict [of B start data "fst x" "snd x"] by simp
qed simp

lemma spans_update:
  "spans (AList.update k v m) \<union> (case map_of m k of None \<Rightarrow> {} | Some w \<Rightarrow> span k w) = spans m \<union> span k v"
  by (induction m) (auto simp: spans_def)

lemma span_update: "span k v \<subseteq> spans (AList.update k v m)"
  by (induction m) (auto simp: spans_def)

lemma held_update:
  assumes "\<And>prior. map_of (i_parts t) start = Some prior \<Longrightarrow> length prior \<le> length data"
    and "i_parts t' = AList.update start data (i_parts t)" and "i_crypto t' = i_crypto t"
  shows "held t' = held t \<union> span start data"
proof -
  have "(case map_of (i_parts t) start of None \<Rightarrow> {} | Some w \<Rightarrow> span start w) \<subseteq> span start data"
    using assms(1) by (force simp: span_def split: option.splits)
  then have "spans (i_parts t') = spans (i_parts t) \<union> span start data"
    using spans_update [of start data "i_parts t"] span_update [of start data "i_parts t"] unfolding assms(2) by blast
  then show ?thesis using assms(3) by (auto simp: held_def)
qed

lemma keep_part_follows:
  assumes "follows B t" and "part_of B start data" and "keep_part start data (t\<lparr>i_pending_size := n\<rparr>) = (t', er)"
    and "\<And>prior. map_of (i_parts t) start = Some prior \<Longrightarrow> length prior \<le> length data"
  shows "er \<in> {None, Some (Msg ''QUIC CRYPTO buffer limit'')} \<and> (er = None \<longrightarrow> follows B t' \<and> held t' = held t \<union> span start data)"
proof -
  have "\<forall>x \<in> set (AList.update start data (i_parts t)). part_of B (fst x) (snd x)" "part_of B 0 (i_crypto t)"
    using assms(1,2) by (auto simp: follows_def dest!: update_entry)
  moreover have "held (t\<lparr>i_parts := AList.update start data (i_parts t), i_pending_size := m\<rparr>) = held t \<union> span start data" for m
    by (rule held_update [OF assms(4)]) simp_all
  ultimately show ?thesis using assms(3) by (auto simp: keep_part_def follows_def split: if_splits)
qed

lemma park_crypto_follows:
  assumes "follows B t" and "part_of B start data" and "park_crypto start data t = Ret (t', er)"
  shows "er \<in> {None, Some (Msg ''QUIC CRYPTO fragment limit''), Some (Msg ''QUIC CRYPTO buffer limit'')}
    \<and> (er = None \<longrightarrow> follows B t' \<and> held t' = held t \<union> span start data)"
proof -
  have nc: "any_c (map (overlap_conflict start data) (i_parts t)) = Ret False"
    using assms(1,2) by (intro no_conflicts) (auto simp: follows_def)
  show ?thesis
  proof (cases "map_of (i_parts t) start")
    case None
    then show ?thesis
      using assms(3) keep_part_follows [OF assms(1,2), of "i_pending_size t" t' er]
      by (simp add: park_crypto_def nc split: if_splits) auto
  next
    case (Some p)
    let ?n = "min (length p) (length data)"
    have p: "part_of B start p" "(start, p) \<in> set (i_parts t)"
      using map_of_SomeD [OF Some] assms(1) by (auto simp: follows_def)
    have "take ?n p = take ?n data"
      using part_of_slice [OF p(1), of ?n 0] part_of_slice [OF assms(2), of ?n 0] by simp
    then have e: "park_crypto start data t = (if length data \<le> length p then Ret (t, None)
        else Ret (keep_part start data (t\<lparr>i_pending_size := i_pending_size t - int (length p)\<rparr>)))"
      using Some by (simp add: park_crypto_def nc gslice_def Let_def)
    show ?thesis
    proof (cases "length data \<le> length p")
      case True
      then have "span start data \<subseteq> spans (i_parts t)" using p(2) by (force simp: span_def spans_def)
      then show ?thesis using True e assms(1,3) by (auto simp: held_def)
    next
      case False
      then show ?thesis
        using assms(3) e Some keep_part_follows [OF assms(1,2), of "i_pending_size t - int (length p)" t' er] by auto
    qed
  qed
qed

lemma add_crypto_follows:
  assumes "frags_ok t" and "beyond t" and "follows B t" and "length B \<le> max_crypto_bytes" and "part_of B start data"
    and "add_crypto \<rho> start data t = Ret (t', er)"
  shows "er \<in> {None, Some (Msg ''QUIC CRYPTO fragment limit''), Some (Msg ''QUIC CRYPTO buffer limit'')}
    \<and> (er = None \<longrightarrow> follows B t' \<and> held t' = held t \<union> span start data)"
proof -
  let ?c = "i_crypto t"
  have c: "part_of B 0 ?c" using assms(3) by (simp add: follows_def)
  have fit: "\<not> (max_crypto_bytes < start \<or> max_crypto_bytes - start < length data)"
    and le: "start + length data \<le> max_crypto_bytes"
    using assms(4,5) by (auto simp: part_of_def)
  have tail: "er \<in> {None, Some (Msg ''QUIC CRYPTO fragment limit''), Some (Msg ''QUIC CRYPTO buffer limit'')}
      \<and> (er = None \<longrightarrow> follows B t' \<and> held t' = held t \<union> span s d)"
    if "(if d = [] then Ret (t, None) else if s = length ?c then Ret (pull_parts \<rho> (t\<lparr>i_crypto := ?c @ d\<rparr>), None)
      else park_crypto s d t) = Ret (t', er)" and "part_of B s d" and "s + length d \<le> max_crypto_bytes" for s d
  proof -
    have "frags_ok (t\<lparr>i_crypto := ?c @ d\<rparr>) \<and> follows B (t\<lparr>i_crypto := ?c @ d\<rparr>) \<and> held (t\<lparr>i_crypto := ?c @ d\<rparr>) = held t \<union> span s d"
      if "s = length ?c"
      using that \<open>s + length d \<le> _\<close> \<open>part_of B s d\<close> assms(1,3) part_of_append [OF c, of d]
      by (auto simp: frags_ok_def follows_def held_def span_def)
    then show ?thesis
      using that assms(3) pull_parts_follows [of "t\<lparr>i_crypto := ?c @ d\<rparr>" B \<rho>] park_crypto_follows [OF assms(3), of s d t' er]
      by (auto simp: span_def split: if_splits)
  qed
  show ?thesis
  proof (cases "start < length ?c")
    case False
    then show ?thesis using tail [of data start] assms(5,6) fit le by (simp add: add_crypto_def Let_def)
  next
    case True
    let ?o = "min (start + length data) (length ?c) - start"
    have o: "?o \<le> length data" "start + ?o \<le> length ?c" using True by auto
    have "take ?o (drop start ?c) = take ?o data"
      using part_of_slice [OF c, of ?o start] part_of_slice [OF assms(5), of ?o 0] o by simp
    then have e: "add_crypto \<rho> start data t = (if drop ?o data = [] then Ret (t, None)
        else if start + ?o = length ?c then Ret (pull_parts \<rho> (t\<lparr>i_crypto := ?c @ drop ?o data\<rparr>), None)
        else park_crypto (start + ?o) (drop ?o data) t)"
      using True fit o by (simp add: add_crypto_def Let_def gslice_def gfrom_def)
    have "held t \<union> span (start + ?o) (drop ?o data) = held t \<union> span start data"
      using o by (auto simp: held_def span_def)
    then show ?thesis using tail [of "drop ?o data" "start + ?o"] e assms(6) part_of_drop [OF assms(5) o(1)] le o by simp
  qed
qed

fun crypto_run :: "(nat \<Rightarrow> nat \<Rightarrow> nat) \<Rightarrow> fragments \<Rightarrow> quic_tracker \<Rightarrow> (quic_tracker \<times> err option) go" where
  "crypto_run \<rho> [] t = Ret (t, None)"
| "crypto_run \<rho> ((start, data) # xs) t = gbind (add_crypto \<rho> start data t) (\<lambda>(t', er). case er of
     Some e \<Rightarrow> Ret (t', Some e) | None \<Rightarrow> crypto_run \<rho> xs t')"

lemma crypto_run_follows:
  assumes "frags_ok t" and "beyond t" and "follows B t" and "length B \<le> max_crypto_bytes"
    and "list_all (\<lambda>(start, data). part_of B start data) xs" and "crypto_run \<rho> xs t = Ret (t', er)"
  shows "er \<in> {None, Some (Msg ''QUIC CRYPTO fragment limit''), Some (Msg ''QUIC CRYPTO buffer limit'')}
    \<and> (er = None \<longrightarrow> frags_ok t' \<and> beyond t' \<and> follows B t' \<and> held t' = held t \<union> spans xs)"
  using assms(1-3,5,6)
proof (induction xs arbitrary: t)
  case Nil
  then show ?case by (simp add: spans_def)
next
  case (Cons x xs)
  obtain start data where x: "x = (start, data)" by (cases x)
  obtain t1 er1 where a: "add_crypto \<rho> start data t = Ret (t1, er1)"
    and rest: "(case er1 of Some e \<Rightarrow> Ret (t1, Some e) | None \<Rightarrow> crypto_run \<rho> xs t1) = Ret (t', er)"
    using Cons.prems(5) by (auto simp: x gbind_eq_Ret)
  have f: "er1 \<in> {None, Some (Msg ''QUIC CRYPTO fragment limit''), Some (Msg ''QUIC CRYPTO buffer limit'')}
    \<and> (er1 = None \<longrightarrow> follows B t1 \<and> held t1 = held t \<union> span start data)"
    using add_crypto_follows [OF Cons.prems(1-3) assms(4) _ a] Cons.prems(4) by (simp add: x)
  have ok: "er1 = None \<longrightarrow> frags_ok t1 \<and> beyond t1"
    using add_crypto_ok [OF Cons.prems(1,2), of \<rho> start data] a by (simp add: returns_def)
  show ?case
  proof (cases er1)
    case None
    then show ?thesis using Cons.IH [of t1] f ok rest Cons.prems(4) by (auto simp: x spans_def)
  next
    case (Some e)
    then show ?thesis using f rest by auto
  qed
qed

text \<open>What the tracker knows of the handshake is its longest prefix that the frames cover.\<close>

lemma crypto_prefix:
  assumes "beyond t" and "frags_ok t"
  shows "{0 ..< n} \<subseteq> held t \<longleftrightarrow> n \<le> length (i_crypto t)"
proof
  assume sub: "{0 ..< n} \<subseteq> held t"
  show "n \<le> length (i_crypto t)"
  proof (rule ccontr)
    assume "\<not> n \<le> length (i_crypto t)"
    then have "length (i_crypto t) \<in> held t" using sub by auto
    then show False using assms(1) by (auto simp: held_def span_def spans_def beyond_def)
  qed
qed (auto simp: held_def span_def)

lemma crypto_run_prefix:
  assumes "length B \<le> max_crypto_bytes" and "list_all (\<lambda>(start, data). part_of B start data) xs"
    and "crypto_run \<rho> xs quic_tracker0 = Ret (t, None)"
  shows "i_crypto t = take (length (i_crypto t)) B \<and> (\<forall>n. {0 ..< n} \<subseteq> spans xs \<longleftrightarrow> n \<le> length (i_crypto t))"
proof -
  have "frags_ok quic_tracker0" "beyond quic_tracker0" "follows B quic_tracker0" "held quic_tracker0 = {}"
    using quic_ok_new by (auto simp: quic_ok_def follows_def part_of_def quic_tracker0_def held_def span_def spans_def)
  then have "frags_ok t" "beyond t" "follows B t" "held t = spans xs"
    using crypto_run_follows [OF _ _ _ assms(1-3)] by auto
  then show ?thesis using crypto_prefix [of t] by (auto simp: follows_def part_of_def)
qed

section \<open>A conflict that is not seen\<close>

text \<open>
  Data that arrive in order are appended without a look at the fragments they overlap, so the two orders of
  the same two frames end differently.
\<close>

lemma conflict_order:
  assumes "0 < start" and "part \<noteq> []" and "start + length part \<le> length data" and "length data \<le> max_crypto_bytes"
    and "take (length part) (drop start data) \<noteq> part"
  shows "\<exists>t. crypto_run \<rho> [(start, part), (0, data)] quic_tracker0 = Ret (t, None) \<and> i_crypto t = data"
    and "\<exists>t. crypto_run \<rho> [(0, data), (start, part)] quic_tracker0 = Ret (t, Some (Msg ''conflicting QUIC CRYPTO retransmission''))"
proof -
  let ?t0 = quic_tracker0
  let ?t1 = "?t0\<lparr>i_parts := [(start, part)], i_pending_size := int (length part)\<rparr>"
  have data: "data \<noteq> []" using assms(2,3) by auto
  have a1: "add_crypto \<rho> start part ?t0 = Ret (?t1, None)"
    using assms by (simp add: add_crypto_def park_crypto_def keep_part_def quic_tracker0_def max_crypto_parts_def)
  have p0: "pull_parts \<rho> (?t0\<lparr>i_crypto := data\<rparr>) = ?t0\<lparr>i_crypto := data\<rparr>"
    by (subst pull_parts.simps) (simp add: quic_tracker0_def fragment_order_def)
  have "start \<le> length data" "\<not> length data - start < length part" using assms(3) by auto
  then have p1: "i_crypto (pull_parts \<rho> (?t1\<lparr>i_crypto := data\<rparr>)) = data"
    by (subst pull_parts.simps) (simp add: quic_tracker0_def fragment_order_def Let_def)
  have "add_crypto \<rho> 0 data ?t1 = Ret (pull_parts \<rho> (?t1\<lparr>i_crypto := data\<rparr>), None)"
    using assms(4) data by (simp add: add_crypto_def quic_tracker0_def)
  then show "\<exists>t. crypto_run \<rho> [(start, part), (0, data)] ?t0 = Ret (t, None) \<and> i_crypto t = data"
    using a1 p1 by simp
  have a0: "add_crypto \<rho> 0 data ?t0 = Ret (?t0\<lparr>i_crypto := data\<rparr>, None)"
    using assms(4) data p0 by (simp add: add_crypto_def quic_tracker0_def)
  have "min (start + length part) (length data) - start = length part" "start < length data" "\<not> max_crypto_bytes - start < length part"
    using assms(2-4) by (auto simp flip: length_greater_0_conv)
  then have "add_crypto \<rho> start part (?t0\<lparr>i_crypto := data\<rparr>)
      = Ret (?t0\<lparr>i_crypto := data\<rparr>, Some (Msg ''conflicting QUIC CRYPTO retransmission''))"
    using assms by (simp add: add_crypto_def Let_def gslice_def)
  then show "\<exists>t. crypto_run \<rho> [(0, data), (start, part)] ?t0 = Ret (t, Some (Msg ''conflicting QUIC CRYPTO retransmission''))"
    using a0 by simp
qed

end
