(* ===== verification/App_Proto.thy ===== *)
theory App_Proto imports Names Quic_Initial begin

text \<open>
  The application protocol of a payload (\<^verbatim>\<open>internal/appproto/detect.go\<close>).

  \<open>app_tcp\<close> and \<open>app_udp\<close> are the checks of \<^verbatim>\<open>TCP\<close> and \<^verbatim>\<open>UDP\<close> in their order: \<open>first_some\<close> takes the first that
  answers and does not evaluate the later ones.  \<open>None\<close> is the empty \<^verbatim>\<open>Detection\<close>.  The conditions index the
  payload as the code does, so a missing length guard would show as a panic.

  The lemmas show that no payload panics, that the direction of the packet does not matter, that a source that names a
  port needs one, and that every packet the QUIC tracker splits off is known as QUIC.
\<close>

section \<open>Checks\<close>

type_synonym detection = "(string \<times> string) option"

fun first_some :: "'a option go list \<Rightarrow> 'a option go" where
  "first_some [] = Ret None"
| "first_some (c # cs) = gbind c (\<lambda>r. case r of Some v \<Rightarrow> Ret (Some v) | None \<Rightarrow> first_some cs)"

definition detected :: "string \<Rightarrow> string \<Rightarrow> bool go list \<Rightarrow> detection go" where
  "detected name source conditions = gbind (all_c conditions) (\<lambda>b. Ret (if b then Some (name, source) else None))"

definition either_port :: "u16 \<Rightarrow> u16 \<Rightarrow> u16 \<Rightarrow> bool" where
  "either_port source destination port \<longleftrightarrow> source = port \<or> destination = port"

text \<open>Conditions on a field: \<^verbatim>\<open>binary.BigEndian.Uint16(b[i:i+2])\<close> and its kin.\<close>

definition c16 :: "bytes \<Rightarrow> nat \<Rightarrow> (u16 \<Rightarrow> bool) \<Rightarrow> bool go" where
  "c16 b i P = gbind (u16_at b i) (\<lambda>v. Ret (P v))"

definition c32 :: "bytes \<Rightarrow> nat \<Rightarrow> (u32 \<Rightarrow> bool) \<Rightarrow> bool go" where
  "c32 b i P = gbind (u32_at b i) (\<lambda>v. Ret (P v))"

definition cle32 :: "bytes \<Rightarrow> nat \<Rightarrow> (u32 \<Rightarrow> bool) \<Rightarrow> bool go" where
  "cle32 b i P = gbind (gslice b i (i + 4)) (\<lambda>x. gbind (le32 x) (\<lambda>v. Ret (P v)))"

definition http_request_line :: "bytes \<Rightarrow> bool" where
  "http_request_line payload \<longleftrightarrow> list_ex (\<lambda>m. has_prefix payload (lit m) \<and> contains (take 256 payload) (lit '' HTTP/1.''))
     [''GET '', ''POST '', ''PUT '', ''HEAD '', ''DELETE '', ''PATCH '', ''OPTIONS '', ''CONNECT '']"

definition dns_message :: "bytes \<Rightarrow> bool go" where
  "dns_message payload = gbind (any_c [Ret (length payload < 12), gbyte payload 2 (\<lambda>x. x AND 0x78 \<noteq> 0), gbyte payload 3 (\<lambda>x. x AND 0x40 \<noteq> 0)]) (\<lambda>bad.
     if bad then Ret False
     else gbind (u16_at payload 4) (\<lambda>questions. gbind (u16_at payload 6) (\<lambda>answers.
       Ret (questions \<le> 10 \<and> (0 < questions \<or> 0 < answers)))))"

definition digit32 :: "u32 \<Rightarrow> bool" where
  "digit32 b \<longleftrightarrow> 48 \<le> b \<and> b \<le> 57"

definition quic_version :: "u32 \<Rightarrow> bool" where
  "quic_version v = (if v = 1 \<or> v = 0x6b3343cf \<or> drop_bit 8 v = 0xff0000 \<or> drop_bit 8 v = 0xfaceb0 then True
     else if v AND 0x0f0f0f0f = 0x0a0a0a0a then True
     else if drop_bit 24 v = 81 \<or> drop_bit 24 v = 84
     then drop_bit 16 v AND 0xff = 48 \<and> digit32 (drop_bit 8 v AND 0xff) \<and> digit32 (v AND 0xff)
     else False)"

definition open_vpn_reset :: "byte \<Rightarrow> bool" where
  "open_vpn_reset first \<longleftrightarrow> drop_bit 3 first \<in> {7, 8, 10}"

definition quic_long_header :: "bytes \<Rightarrow> bool go" where
  "quic_long_header payload = gbind (any_c [Ret (length payload < 7), gbyte payload 0 (\<lambda>x. x AND 0xc0 \<noteq> 0xc0),
       c32 payload 1 (\<lambda>v. \<not> quic_version v)]) (\<lambda>bad.
     if bad then Ret False
     else gbind (gidx payload 5) (\<lambda>d. let dcid_length = unat d in
       if 20 < dcid_length \<or> length payload < 7 + dcid_length then Ret False
       else gbind (gidx payload (6 + dcid_length)) (\<lambda>s. let scid_length = unat s in
         Ret (scid_length \<le> 20 \<and> 7 + dcid_length + scid_length \<le> length payload))))"

definition mongo_op_code :: "u32 \<Rightarrow> bool" where
  "mongo_op_code op \<longleftrightarrow> op \<in> {1, 2001, 2002, 2004, 2005, 2006, 2007, 2010, 2011, 2012, 2013}"

definition kerberos_tag :: "byte \<Rightarrow> bool" where
  "kerberos_tag tag \<longleftrightarrow> 0x6a \<le> tag \<and> tag \<le> 0x6f \<or> tag = 0x7e"

definition memcached_command :: "bytes \<Rightarrow> bool" where
  "memcached_command payload \<longleftrightarrow> takeWhile (\<lambda>x. x \<notin> {32, 13, 10}) (take 16 payload) \<in> set (map lit
     [''get'', ''gets'', ''gat'', ''gats'', ''set'', ''add'', ''replace'', ''append'', ''prepend'', ''cas'', ''delete'',
      ''incr'', ''decr'', ''touch'', ''stats'', ''version'', ''flush_all'', ''mg'', ''ms'', ''md'', ''ma'', ''mn''])"

definition ldap_message :: "bytes \<Rightarrow> bool go" where
  "ldap_message payload = gbind (any_c [Ret (length payload < 7), gbyte payload 0 (\<lambda>x. x \<noteq> 0x30)]) (\<lambda>other.
     if other then Ret False
     else gbind (gidx payload 1) (\<lambda>l. let offset = (if l AND 0x80 \<noteq> 0 then 2 + unat (l AND 0x7f) else 2) in
       gbind (any_c [Ret (length payload < offset + 3), gbyte payload offset (\<lambda>x. x \<noteq> 0x02), gbyte payload (offset + 1) (\<lambda>x. x = 0),
         gbyte payload (offset + 1) (\<lambda>x. 4 < x)]) (\<lambda>bad.
       if bad then Ret False
       else gbind (gidx payload (offset + 1)) (\<lambda>n. let offset' = offset + (2 + unat n) in
         all_c [Ret (offset' < length payload), gbyte payload offset' (\<lambda>x. x AND 0xc0 = 0x40)]))))"

text \<open>The name of an ONC RPC program; the empty string is no call.\<close>

definition rpc_call :: "bytes \<Rightarrow> bool \<Rightarrow> string go" where
  "rpc_call payload0 stream = (if stream \<and> length payload0 < 4 then Ret ''''
     else gbind (if stream then gfrom payload0 4 else Ret payload0) (\<lambda>payload.
     gbind (any_c [Ret (length payload < 24), c32 payload 4 (\<lambda>v. v \<noteq> 0), c32 payload 8 (\<lambda>v. v \<noteq> 2)]) (\<lambda>other.
     if other then Ret ''''
     else gbind (u32_at payload 12) (\<lambda>program.
       Ret (if program = 100003 then ''NFS'' else if program = 100000 then ''RPC portmapper''
         else if program = 100005 then ''NFS mount'' else if program = 100021 then ''NFS lock'' else '''')))))"

definition text_protocol :: "bytes \<Rightarrow> string go" where
  "text_protocol payload = gbind (any_c [Ret (length payload = 0), gbyte payload 0 (\<lambda>x. x < 65), gbyte payload 0 (\<lambda>x. 90 < x)]) (\<lambda>other.
     if other then Ret ''''
     else let line = fst (cut (take 256 payload) crlf) in
       Ret (if has_prefix line (lit ''SIP/2.0 '') \<or> has_suffix line (lit '' SIP/2.0'') \<and> contains line (lit '' sip:'') then ''SIP''
         else if has_prefix line (lit ''RTSP/1.'') \<or> contains line (lit '' rtsp://'') \<and> contains line (lit '' RTSP/1.'') then ''RTSP''
         else ''''))"

definition mysql_greeting :: "bytes \<Rightarrow> bool go" where
  "mysql_greeting payload = gbind (any_c [Ret (length payload < 16), gbyte payload 3 (\<lambda>x. x \<noteq> 0), gbyte payload 4 (\<lambda>x. x \<noteq> 0x0a)]) (\<lambda>other.
     if other then Ret False
     else gbind (gidx payload 0) (\<lambda>b0. gbind (gidx payload 1) (\<lambda>b1. gbind (gidx payload 2) (\<lambda>b2.
       let len = unat b0 + 256 * unat b1 + 65536 * unat b2 in
       if length payload < len + 4 \<or> len < 20 then Ret False
       else gbind (gslice payload 5 (min (length payload) 64)) (\<lambda>head. case index_byte head 0 of
           None \<Rightarrow> Ret False
         | Some stop \<Rightarrow> if stop < 1 then Ret False
             else gbind (gslice payload 5 (5 + stop)) (\<lambda>version.
               if list_ex (\<lambda>b. b < 32 \<or> 126 < b) version then Ret False
               else gbyte payload 5 (\<lambda>x. 48 \<le> x \<and> x \<le> 57)))))))"

section \<open>TCP\<close>

definition zookeeper_commands :: "string list" where
  "zookeeper_commands = [''ruok'', ''stat'', ''srvr'', ''mntr'', ''conf'', ''cons'', ''envi'', ''dump'', ''wchs'', ''isro'']"

text \<open>The cases of the switch in \<^verbatim>\<open>portedTCP\<close>, in their order.\<close>

definition ported_case :: "string \<Rightarrow> bool go list \<Rightarrow> string option go" where
  "ported_case name conditions = gbind (all_c conditions) (\<lambda>b. Ret (if b then Some name else None))"

definition length32 :: "bytes \<Rightarrow> int \<Rightarrow> bool go" where
  "length32 payload n = c32 payload 0 (\<lambda>v. uint v = n)"

definition ported_tcp :: "bytes \<Rightarrow> u16 \<Rightarrow> u16 \<Rightarrow> string option go" where
  "ported_tcp payload source destination = (let port = either_port source destination; n = int (length payload) in first_some
    [ported_case ''Kafka'' [Ret (port 9092), Ret (12 \<le> length payload), length32 payload (n - 4), c16 payload 4 (\<lambda>v. v \<le> 80), c16 payload 6 (\<lambda>v. v \<le> 30)],
     ported_case ''NATS'' [Ret (port 4222), Ret (has_prefix payload (lit ''INFO {'') \<or> has_prefix payload (lit ''CONNECT {''))],
     ported_case ''ZooKeeper'' [Ret (port 2181),
       any_c [all_c [Ret (8 \<le> length payload), length32 payload (n - 4), c32 payload 4 (\<lambda>v. v = 0)], Ret (payload \<in> set (map lit zookeeper_commands))]],
     ported_case ''Memcached'' [Ret (port 11211),
       any_c [gbyte payload 0 (\<lambda>x. x = 0x80), gbyte payload 0 (\<lambda>x. x = 0x81), Ret (memcached_command payload)]],
     ported_case ''SQL Server'' [Ret (port 1433), Ret (8 \<le> length payload), gbyte payload 0 (\<lambda>x. x = 0x12 \<or> x = 0x10 \<or> x = 0x04),
       c16 payload 2 (\<lambda>v. unat v = length payload)],
     ported_case ''Oracle TNS'' [Ret (port 1521), Ret (8 \<le> length payload), gbyte payload 4 (\<lambda>x. 1 \<le> x \<and> x \<le> 6), gbyte payload 5 (\<lambda>x. x = 0),
       c16 payload 0 (\<lambda>v. unat v \<le> length payload)],
     ported_case ''LDAP'' [Ret (port 389 \<or> port 3268), ldap_message payload],
     ported_case ''Kerberos'' [Ret (port 88), Ret (5 \<le> length payload), length32 payload (n - 4), gbyte payload 4 kerberos_tag],
     ported_case ''Cassandra'' [Ret (port 9042), Ret (9 \<le> length payload), gbyte payload 0 (\<lambda>x. 3 \<le> x AND 0x7f \<and> x AND 0x7f \<le> 5),
       c32 payload 5 (\<lambda>v. uint v = n - 9)]])"

text \<open>A name that a helper found; the empty string is no name.\<close>

definition named_by :: "string go \<Rightarrow> string \<Rightarrow> detection go" where
  "named_by m source = gbind m (\<lambda>name. Ret (if name \<noteq> '''' then Some (name, source) else None))"

definition dns_over_tcp :: "bytes \<Rightarrow> bool go" where
  "dns_over_tcp payload = gbind (u16_at payload 0) (\<lambda>l. let len = unat l in
     if 12 \<le> len \<and> len \<le> length payload - 2 then gbind (gslice payload 2 (2 + len)) dns_message else Ret False)"

definition open_vpn_over_tcp :: "bytes \<Rightarrow> bool go" where
  "open_vpn_over_tcp payload = gbind (u16_at payload 0) (\<lambda>l. let len = unat l in
     all_c [Ret (9 \<le> len), Ret (len \<le> length payload - 2), gbyte payload 2 open_vpn_reset])"

definition tcp_checks :: "bytes \<Rightarrow> u16 \<Rightarrow> u16 \<Rightarrow> detection go list" where
  "tcp_checks payload source destination = (let port = either_port source destination; n = length payload; starts = (\<lambda>s. has_prefix payload (lit s)) in
    [detected ''SSH'' ''payload'' [Ret (starts ''SSH-2.0-'' \<or> starts ''SSH-1.99-'')],
     detected ''BitTorrent'' ''payload'' [Ret (20 \<le> n), gbyte payload 0 (\<lambda>x. x = 19), gsub payload 1 20 (\<lambda>x. x = lit ''BitTorrent protocol'')],
     detected ''MQTT'' ''payload'' [Ret (8 \<le> n), gbyte payload 0 (\<lambda>x. x = 0x10), gbyte payload 1 (\<lambda>x. x < 0x80), gsub payload 2 8 (\<lambda>x. x = [0, 4] @ lit ''MQTT'')],
     detected ''TLS'' ''record-prefix'' [Ret (5 \<le> n), gbyte payload 0 (\<lambda>x. 20 \<le> x), gbyte payload 0 (\<lambda>x. x \<le> 23), gbyte payload 1 (\<lambda>x. x = 3),
       gbyte payload 2 (\<lambda>x. x \<le> 4), c16 payload 3 (\<lambda>v. 0 < v \<and> v \<le> 18432)],
     detected ''HTTP'' ''payload'' [Ret (starts ''HTTP/1.'' \<or> http_request_line payload)],
     detected ''HTTP/2'' ''payload'' [Ret (has_prefix payload (lit ''PRI * HTTP/2.0'' @ crlf))],
     detected ''DNS'' ''payload+port'' [Ret (14 \<le> n), Ret (port 53), dns_over_tcp payload],
     detected ''OpenVPN'' ''reset+port'' [Ret (port 1194), Ret (11 \<le> n), open_vpn_over_tcp payload],
     detected ''FTP'' ''payload+port'' [Ret (port 21), Ret (starts ''220 '' \<or> starts ''USER '' \<or> starts ''PASS '')],
     detected ''SMTP'' ''payload+port'' [Ret (port 25 \<or> port 587), Ret (starts ''220 '' \<or> starts ''EHLO '' \<or> starts ''HELO '')],
     detected ''Redis'' ''payload+port'' [Ret (port 6379), Ret (4 \<le> n), Ret (contains (take 64 payload) crlf), gbyte payload 0 (\<lambda>x. x \<in> set (lit ''+-:$*''))],
     detected ''PostgreSQL'' ''payload+port'' [Ret (port 5432), Ret (8 \<le> n), c32 payload 0 (\<lambda>v. v = of_nat n), c32 payload 4 (\<lambda>v. v = 196608)],
     detected ''SMB'' ''payload'' [Ret (8 \<le> n), gbyte payload 0 (\<lambda>x. x = 0), gsub payload 4 8 (\<lambda>x. x = 0xff # lit ''SMB'' \<or> x = 0xfe # lit ''SMB'')],
     detected ''RDP'' ''payload+port'' [Ret (port 3389), Ret (11 \<le> n), gbyte payload 0 (\<lambda>x. x = 3), gbyte payload 1 (\<lambda>x. x = 0), gbyte payload 5 (\<lambda>x. x AND 0xf0 = 0xe0)],
     detected ''MySQL'' ''payload'' [mysql_greeting payload],
     detected ''VNC'' ''payload'' [Ret (starts ''RFB 00'')],
     detected ''Telnet'' ''payload+port'' [Ret (port 23), Ret (3 \<le> n), gbyte payload 0 (\<lambda>x. x = 0xff), gbyte payload 1 (\<lambda>x. 0xfb \<le> x)],
     detected ''MongoDB'' ''payload+port'' [Ret (port 27017), Ret (16 \<le> n), cle32 payload 0 (\<lambda>v. v = of_nat n), cle32 payload 12 mongo_op_code],
     detected ''AMQP'' ''payload'' [Ret (8 \<le> n), Ret (starts ''AMQP''), gbyte payload 4 (\<lambda>x. x \<le> 3)],
     named_by (rpc_call payload True) ''payload'',
     gbind (ported_tcp payload source destination) (\<lambda>r. Ret (map_option (\<lambda>name. (name, ''payload+port'')) r)),
     named_by (text_protocol payload) ''payload''])"

definition app_tcp :: "bytes \<Rightarrow> u16 \<Rightarrow> u16 \<Rightarrow> detection go" where
  "app_tcp payload source destination = (if length payload = 0 then Ret None else first_some (tcp_checks payload source destination))"

section \<open>UDP\<close>

definition wireguard_size :: "byte \<Rightarrow> nat" where
  "wireguard_size b = (if b = 1 then 148 else if b = 2 then 92 else if b = 3 then 64 else if b = 4 then 32 else 0)"

definition ike_check :: "bytes \<Rightarrow> u16 \<Rightarrow> u16 \<Rightarrow> detection go" where
  "ike_check payload source destination = (let port = either_port source destination in
     if (port 500 \<or> port 4500) \<and> 28 \<le> length payload then
       gbind (all_c [Ret (port 4500), gsub payload 0 4 (\<lambda>x. x \<noteq> [0, 0, 0, 0])]) (\<lambda>esp.
       if esp then Ret (Some (''IPsec ESP'', ''payload+port''))
       else gbind (if port 4500 then gfrom payload 4 else Ret payload) (\<lambda>ike.
         detected ''IKE'' ''payload+port'' [Ret (28 \<le> length ike), gbyte ike 17 (\<lambda>x. x = 0x20 \<or> x = 0x10), c32 ike 24 (\<lambda>v. v = of_nat (length ike))]))
     else Ret None)"

definition udp_checks :: "bytes \<Rightarrow> u16 \<Rightarrow> u16 \<Rightarrow> detection go list" where
  "udp_checks payload source destination = (let port = either_port source destination; n = length payload; starts = (\<lambda>s. has_prefix payload (lit s)) in
    [detected ''STUN'' ''payload'' [Ret (20 \<le> n), gbyte payload 0 (\<lambda>x. x AND 0xc0 = 0), c32 payload 4 (\<lambda>v. v = 0x2112a442), c16 payload 2 (\<lambda>v. unat v mod 4 = 0)],
     detected ''WireGuard'' ''payload'' [Ret (4 \<le> n), gsub payload 1 4 (\<lambda>x. x = [0, 0, 0]), gbyte payload 0 (\<lambda>x. wireguard_size x = n)],
     detected ''OpenVPN'' ''reset+port'' [Ret (port 1194), Ret (9 \<le> n), gbyte payload 0 open_vpn_reset],
     detected ''DHCP'' ''payload+port'' [Ret (240 \<le> n), Ret (port 67 \<or> port 68), gsub payload 236 240 (\<lambda>x. x = [99, 130, 83, 99])],
     detected ''DHCPv6'' ''payload+port'' [Ret (4 \<le> n), Ret (port 546 \<or> port 547), gbyte payload 0 (\<lambda>x. 1 \<le> x), gbyte payload 0 (\<lambda>x. x \<le> 13)],
     detected (if port 5353 then ''mDNS'' else if port 5355 then ''LLMNR'' else if port 137 then ''NetBIOS NS'' else ''DNS'') ''payload+port''
       [Ret (port 53 \<or> port 5353 \<or> port 5355 \<or> port 137), dns_message payload],
     detected ''QUIC'' ''long-header'' [quic_long_header payload],
     detected ''WireGuard'' ''payload'' [Ret (32 < n), Ret (n mod 16 = 0), gsub payload 0 4 (\<lambda>x. x = [4, 0, 0, 0])],
     detected ''NTP'' ''payload+port'' [Ret (port 123), Ret (48 \<le> n), gbyte payload 0 (\<lambda>x. 3 \<le> drop_bit 3 x AND 7), gbyte payload 0 (\<lambda>x. drop_bit 3 x AND 7 \<le> 4),
       gbyte payload 0 (\<lambda>x. 1 \<le> x AND 7), gbyte payload 0 (\<lambda>x. x AND 7 \<le> 5)],
     detected ''SSDP'' ''payload+port'' [Ret (port 1900), Ret (starts ''M-SEARCH * HTTP/1.1'' \<or> starts ''NOTIFY * HTTP/1.1'' \<or> starts ''HTTP/1.1 200'')],
     detected ''VXLAN'' ''payload+port'' [Ret (port 4789), Ret (16 \<le> n), gbyte payload 0 (\<lambda>x. x AND 0x08 \<noteq> 0), gsub payload 1 4 (\<lambda>x. x = [0, 0, 0])],
     detected ''GENEVE'' ''payload+port'' [Ret (port 6081), Ret (8 \<le> n), gbyte payload 0 (\<lambda>x. drop_bit 6 x = 0), c16 payload 2 (\<lambda>v. v = 0x6558)],
     ike_check payload source destination,
     detected ''Syslog'' ''payload+port'' [Ret (port 514), Ret (4 \<le> n), gbyte payload 0 (\<lambda>x. x = 60),
       Ret (case index_byte (take 5 payload) 62 of None \<Rightarrow> False | Some stop \<Rightarrow> 1 < stop)],
     detected ''TFTP'' ''payload+port'' [Ret (port 69), Ret (4 \<le> n), gbyte payload 0 (\<lambda>x. x = 0), gbyte payload 1 (\<lambda>x. 1 \<le> x), gbyte payload 1 (\<lambda>x. x \<le> 6)],
     detected ''RADIUS'' ''payload+port'' [Ret (port 1812 \<or> port 1813), Ret (20 \<le> n), c16 payload 2 (\<lambda>v. v = of_nat n)],
     gbind (text_protocol payload) (\<lambda>name. Ret (if name = ''SIP'' then Some (name, ''payload'') else None)),
     detected ''SNMP'' ''payload+port'' [Ret (port 161 \<or> port 162), Ret (6 \<le> n), gbyte payload 0 (\<lambda>x. x = 0x30), gbyte payload 2 (\<lambda>x. x = 0x02),
       gbyte payload 3 (\<lambda>x. x = 1), gbyte payload 4 (\<lambda>x. x \<le> 3)],
     detected ''Kerberos'' ''payload+port'' [Ret (port 88), gbyte payload 0 kerberos_tag],
     named_by (rpc_call payload False) ''payload''])"

definition app_udp :: "bytes \<Rightarrow> u16 \<Rightarrow> u16 \<Rightarrow> detection go" where
  "app_udp payload source destination = (if length payload = 0 then Ret None else first_some (udp_checks payload source destination))"

section \<open>No payload panics\<close>

lemma returns_c [ret_simps]:
  "returns (c16 b i P) Q \<longleftrightarrow> i + 2 \<le> length b \<and> Q (P (of_nat (be_val (take 2 (drop i b)))))"
  "returns (c32 b i R) Q \<longleftrightarrow> i + 4 \<le> length b \<and> Q (R (of_nat (be_val (take 4 (drop i b)))))"
  "returns (cle32 b i R) Q \<longleftrightarrow> i + 4 \<le> length b \<and> Q (R (of_nat (be_val (rev (take 4 (drop i b))))))"
  by (auto simp: c16_def c32_def cle32_def le32_def ret_simps)

abbreviation total :: "'a go \<Rightarrow> bool" where
  "total m \<equiv> returns m (\<lambda>_. True)"

lemma total_bind: "total m \<Longrightarrow> (\<And>x. total (f x)) \<Longrightarrow> total (gbind m f)"
  by (rule returns_bindT)

lemma first_some_total: "list_all total cs \<Longrightarrow> total (first_some cs)"
  by (induction cs) (auto intro: total_bind split: option.splits)

lemma total_all: "total c \<Longrightarrow> (c = Ret True \<Longrightarrow> total (all_c cs)) \<Longrightarrow> total (all_c (c # cs))"
  by (auto simp: returns_def)

lemma total_any: "total c \<Longrightarrow> (c = Ret False \<Longrightarrow> total (any_c cs)) \<Longrightarrow> total (any_c (c # cs))"
  by (auto simp: returns_def)

lemma dns_message_total: "total (dns_message payload)"
  by (auto simp: dns_message_def ret_simps simp del: any_c.simps)

lemma quic_long_header_total: "total (quic_long_header payload)"
  by (auto simp: quic_long_header_def ret_simps Let_def simp del: any_c.simps)

lemma ldap_message_total: "total (ldap_message payload)"
  by (auto simp: ldap_message_def ret_simps Let_def simp del: any_c.simps all_c.simps)

lemma rpc_call_total: "total (rpc_call payload stream)"
  by (auto simp: rpc_call_def ret_simps simp del: any_c.simps)

lemma text_protocol_total: "total (text_protocol payload)"
  by (auto simp: text_protocol_def ret_simps Let_def simp flip: length_greater_0_conv simp del: any_c.simps)

lemma index_byte_less: "index_byte b x = Some i \<Longrightarrow> i < length b"
  using index_of_Some [of b "[x]" i] by (fastforce simp: index_byte_def)

lemma mysql_greeting_total: "total (mysql_greeting payload)"
  by (auto simp: mysql_greeting_def ret_simps Let_def min_def simp del: any_c.simps split: option.splits if_splits dest!: index_byte_less)

lemma total_detected: "total (all_c cs) \<Longrightarrow> total (detected name source cs)"
  by (auto simp: detected_def returns_gbind intro: returns_mono)

lemma total_ported: "total (all_c cs) \<Longrightarrow> total (ported_case name cs)"
  by (auto simp: ported_case_def returns_gbind intro: returns_mono)

lemma total_named: "total m \<Longrightarrow> total (named_by m source)"
  by (auto simp: named_by_def returns_gbind intro: returns_mono)

lemma total_guard: "(b \<Longrightarrow> total (all_c cs)) \<Longrightarrow> total (all_c (Ret b # cs))"
  by simp

lemma total_last: "total c \<Longrightarrow> total (all_c [c])"
  by (simp add: returns_gbind returns_cond)

lemma ported_tcp_total: "0 < length payload \<Longrightarrow> total (ported_tcp payload source destination)"
  unfolding ported_tcp_def Let_def
  by (rule first_some_total)
    (auto simp: ret_simps length32_def ldap_message_total simp del: all_c.simps any_c.simps intro!: total_ported)

lemma dns_over_tcp_total: "14 \<le> length payload \<Longrightarrow> total (dns_over_tcp payload)"
  by (auto simp: dns_over_tcp_def ret_simps Let_def intro!: dns_message_total)

lemma open_vpn_over_tcp_total: "11 \<le> length payload \<Longrightarrow> total (open_vpn_over_tcp payload)"
  by (auto simp: open_vpn_over_tcp_def ret_simps Let_def simp del: all_c.simps)

lemma tcp_checks_total: "0 < length payload \<Longrightarrow> list_all total (tcp_checks payload source destination)"
  unfolding tcp_checks_def Let_def list.pred_inject
  by (intro conjI TrueI total_detected total_named rpc_call_total text_protocol_total total_guard total_last mysql_greeting_total
      dns_over_tcp_total open_vpn_over_tcp_total total_bind ported_tcp_total returns_Ret)
    (auto simp: ret_simps simp del: all_c.simps)

lemma ike_check_total: "total (ike_check payload source destination)"
  unfolding ike_check_def Let_def
  by (auto simp: ret_simps detected_def simp del: all_c.simps)

lemma udp_checks_total: "0 < length payload \<Longrightarrow> list_all total (udp_checks payload source destination)"
  unfolding udp_checks_def Let_def list.pred_inject
  by (intro conjI TrueI total_detected total_named rpc_call_total text_protocol_total total_guard total_last quic_long_header_total
      dns_message_total ike_check_total total_bind returns_Ret)
    (auto simp: ret_simps simp del: all_c.simps)

lemma app_tcp_total: "total (app_tcp payload source destination)"
  by (simp add: app_tcp_def first_some_total tcp_checks_total del: length_greater_0_conv flip: length_greater_0_conv)

lemma app_udp_total: "total (app_udp payload source destination)"
  by (simp add: app_udp_def first_some_total udp_checks_total del: length_greater_0_conv flip: length_greater_0_conv)

section \<open>Ports\<close>

lemma either_port_swap: "either_port source destination = either_port destination source"
  by (auto simp: either_port_def)

lemma app_swap: "app_tcp payload source destination = app_tcp payload destination source"
  "app_udp payload source destination = app_udp payload destination source"
  by (simp_all add: app_tcp_def app_udp_def tcp_checks_def udp_checks_def ported_tcp_def ike_check_def either_port_swap [of source destination])

text \<open>The ports that some check looks at.\<close>

definition app_ports :: "u16 list" where
  "app_ports = [21, 23, 25, 53, 67, 68, 69, 88, 123, 137, 161, 162, 389, 500, 514, 546, 547, 587, 1194, 1433, 1521, 1812, 1813, 1900,
     2181, 3268, 3389, 4222, 4500, 4789, 5353, 5355, 5432, 6081, 6379, 9042, 9092, 11211, 27017]"

lemma either_port_unknown:
  "source \<notin> set app_ports \<Longrightarrow> destination \<notin> set app_ports \<Longrightarrow> port \<in> set app_ports \<Longrightarrow> either_port source destination port = False"
  by (auto simp: either_port_def)

lemma app_ports_members: "list_all (\<lambda>p. p \<in> set app_ports) app_ports"
  by (simp add: list_all_iff)

lemmas app_port = app_ports_members [unfolded app_ports_def list.pred_inject, folded app_ports_def]

lemma zero_unknown: "0 \<notin> set app_ports"
  by (simp add: app_ports_def)

lemma app_unknown_ports:
  assumes "source \<notin> set app_ports" and "destination \<notin> set app_ports"
  shows "app_tcp payload source destination = app_tcp payload 0 0" and "app_udp payload source destination = app_udp payload 0 0"
proof -
  note no = either_port_unknown [OF assms] either_port_unknown [OF zero_unknown zero_unknown]
  show "app_tcp payload source destination = app_tcp payload 0 0" "app_udp payload source destination = app_udp payload 0 0"
    by (simp_all add: app_tcp_def app_udp_def tcp_checks_def udp_checks_def ported_tcp_def ike_check_def no app_port)
qed

section \<open>The QUIC tracker and the detection agree\<close>

lemma split_header:
  assumes "split_long_packet data = Ret (Some r)"
  obtains version d s where "7 \<le> length data" "data ! 0 AND 0xc0 = 0xc0" "u32_at data 1 = Ret version" "version = version1 \<or> version = version2"
    and "gidx data 5 = Ret d" "unat d \<le> 20" "7 + unat d \<le> length data"
    and "gidx data (6 + unat d) = Ret s" "unat s \<le> 20" "7 + unat d + unat s \<le> length data"
proof -
  have "\<not> length data < 7" using assms by (auto simp: split_long_packet_def)
  then have l: "7 \<le> length data" by simp
  have c: "any_c [Ret (length data < 7), gbyte data 0 (\<lambda>x. x AND 0xc0 \<noteq> 0xc0)] = Ret (data ! 0 AND 0xc0 \<noteq> 0xc0)"
    using l by (simp add: gbyte_def gidx_def flip: length_greater_0_conv)
  have x: "data ! 0 AND 0xc0 = 0xc0" using assms unfolding split_long_packet_def c by (auto split: if_splits)
  obtain version where v: "u32_at data 1 = Ret version" "version = version1 \<or> version = version2"
      and rest: "gbind (gidx data 5) (\<lambda>d. let dcid_length = unat d in
         if 20 < dcid_length \<or> length data - 6 < dcid_length + 1 then Ret None
         else gbind (gslice data 6 (6 + dcid_length)) (\<lambda>dcid.
           gbind (gidx data (6 + dcid_length)) (\<lambda>s. let scid_length = unat s; offset = 7 + dcid_length in
           if 20 < scid_length \<or> length data - offset < scid_length \<or> drop_bit 4 (data ! 0) AND 3 = (if version = version2 then 0 else 3) then Ret None
           else gbind (skip_token data (drop_bit 4 (data ! 0) AND 3 = (if version = version2 then 1 else 0)) (offset + scid_length)) (\<lambda>r. case r of
             None \<Rightarrow> Ret None
           | Some offset1 \<Rightarrow> packet_rest data version dcid (drop_bit 4 (data ! 0) AND 3 = (if version = version2 then 1 else 0)) offset1)))) = Ret (Some r)"
    using assms l x unfolding split_long_packet_def c
    by (auto simp: u32_at_def gidx_def gbind_eq_Ret Let_def split: if_splits)
  obtain d where d: "gidx data 5 = Ret d" "unat d \<le> 20" "7 + unat d \<le> length data"
      and rest2: "gbind (gidx data (6 + unat d)) (\<lambda>s. if 20 < unat s \<or> length data - (7 + unat d) < unat s
             \<or> drop_bit 4 (data ! 0) AND 3 = (if version = version2 then 0 else 3) then Ret None
           else gbind (skip_token data (drop_bit 4 (data ! 0) AND 3 = (if version = version2 then 1 else 0)) (7 + unat d + unat s)) (\<lambda>r. case r of
             None \<Rightarrow> Ret None
           | Some offset1 \<Rightarrow> packet_rest data version (take (unat d) (drop 6 data)) (drop_bit 4 (data ! 0) AND 3 = (if version = version2 then 1 else 0)) offset1)) = Ret (Some r)"
    using rest l by (auto simp: gbind_eq_Ret gslice_eq_Ret Let_def split: if_splits)
  obtain s where "gidx data (6 + unat d) = Ret s" "unat s \<le> 20" "7 + unat d + unat s \<le> length data"
    using rest2 d(3) by (auto simp: gbind_eq_Ret gidx_eq_Ret split: if_splits)
  then show thesis using that l x v d by blast
qed

lemma split_is_quic:
  assumes "split_long_packet data = Ret (Some r)"
  shows "quic_long_header data = Ret True"
proof -
  obtain version d s where h: "7 \<le> length data" "data ! 0 AND 0xc0 = 0xc0" "u32_at data 1 = Ret version" "version = version1 \<or> version = version2"
    "gidx data 5 = Ret d" "unat d \<le> 20" "7 + unat d \<le> length data"
    "gidx data (6 + unat d) = Ret s" "unat s \<le> 20" "7 + unat d + unat s \<le> length data"
    using split_header [OF assms] by metis
  have "quic_version version" using h(4) by (auto simp: quic_version_def version1_def version2_def)
  then have c: "any_c [Ret (length data < 7), gbyte data 0 (\<lambda>x. x AND 0xc0 \<noteq> 0xc0), c32 data 1 (\<lambda>v. \<not> quic_version v)] = Ret False"
    using h(1-3) by (simp add: gbyte_def gidx_def c32_def flip: length_greater_0_conv)
  show ?thesis unfolding quic_long_header_def c using h by simp
qed

end
