(* ===== verification/Flow.thy ===== *)
theory Flow imports Tcp_Health Dns_State App_Proto begin

text \<open>
  A flow of the flow table and what is known of it (\<^verbatim>\<open>flow\<close>, \<^verbatim>\<open>participant\<close>, \<^verbatim>\<open>roles\<close>, \<^verbatim>\<open>chooseDomain\<close> and their
  kin in \<^verbatim>\<open>internal/app/app_linux.go\<close>, \<^verbatim>\<open>interfaceSet\<close> in \<^verbatim>\<open>interfaces_linux.go\<close>, \<^verbatim>\<open>arpState\<close> in \<^verbatim>\<open>l2.go\<close>).

  A flow points to up to six streams, and several flows can point to one stream.  A pointer is a number, and
  \<open>streams\<close> is the heap: \<open>st_at\<close> gives the stream a number points to, \<open>st_next\<close> is the next number to allocate.
  A pointer to a structure that only its flow points to is an \<open>option\<close> of the structure.

  The lemmas show what \<open>choose_domain\<close> prefers, and that it leaves everything but the choice alone.
\<close>

section \<open>Processes\<close>

type_synonym process_id = "int \<times> u64"

record participant =
  pt_pid :: int
  pt_start :: u64
  pt_name :: bytes

definition participant0 :: participant where
  "participant0 = \<lparr>pt_pid = 0, pt_start = 0, pt_name = []\<rparr>"

definition process_of :: "participant \<Rightarrow> process_id" where
  "process_of p = (pt_pid p, pt_start p)"

definition ambiguous :: participant where
  "ambiguous = \<lparr>pt_pid = -1, pt_start = 0, pt_name = lit ''ambiguous''\<rparr>"

definition merge_participant :: "participant \<Rightarrow> participant \<Rightarrow> participant" where
  "merge_participant old new = (if pt_pid old = 0 \<or> process_of old = process_of new then new else ambiguous)"

record io_bytes =
  io_rx :: u64
  io_tx :: u64

definition io_bytes0 :: io_bytes where
  "io_bytes0 = \<lparr>io_rx = 0, io_tx = 0\<rparr>"

definition count_io :: "bool \<Rightarrow> u64 \<Rightarrow> io_bytes \<Rightarrow> io_bytes" where
  "count_io send n io = (if send then io\<lparr>io_tx := io_tx io + n\<rparr> else io\<lparr>io_rx := io_rx io + n\<rparr>)"

record roles =
  ro_client :: participant
  ro_server :: participant
  ro_a_owner :: participant
  ro_b_owner :: participant

definition roles0 :: roles where
  "roles0 = \<lparr>ro_client = participant0, ro_server = participant0, ro_a_owner = participant0, ro_b_owner = participant0\<rparr>"

definition roles_owner :: "roles \<Rightarrow> addrport \<Rightarrow> flow_key \<Rightarrow> participant" where
  "roles_owner r endpoint key = (if endpoint = fk_a key then ro_a_owner r else if endpoint = fk_b key then ro_b_owner r else participant0)"

record wildcard_key =
  wk_remote :: addrport
  wk_local_port :: u16
  wk_protocol :: u8
  wk_role :: string

section \<open>Interfaces\<close>

record interface_set =
  is_first :: u64
  is_extra :: "nat list"

definition interface_set0 :: interface_set where
  "interface_set0 = \<lparr>is_first = 0, is_extra = []\<rparr>"

definition iset_add :: "nat \<Rightarrow> interface_set \<Rightarrow> interface_set" where
  "iset_add index s = (if index < 64 then s\<lparr>is_first := is_first s OR push_bit index 1\<rparr> else s\<lparr>is_extra := List.insert index (is_extra s)\<rparr>)"

definition iset_union :: "interface_set \<Rightarrow> interface_set \<Rightarrow> interface_set" where
  "iset_union s other = fold iset_add (is_extra other) (s\<lparr>is_first := is_first s OR is_first other\<rparr>)"

definition iset_has :: "nat \<Rightarrow> interface_set \<Rightarrow> bool" where
  "iset_has index s = (if index < 64 then is_first s AND push_bit index 1 \<noteq> 0 else index \<in> set (is_extra s))"

section \<open>ARP and ICMP\<close>

record arp_state =
  ar_requests :: u64
  ar_replies :: u64
  ar_macs :: "(addr \<times> bytes) list"

definition arp_state0 :: arp_state where
  "arp_state0 = \<lparr>ar_requests = 0, ar_replies = 0, ar_macs = []\<rparr>"

definition arp_observe :: "packet \<Rightarrow> arp_state \<Rightarrow> arp_state" where
  "arp_observe p s0 = (let s = (if k_arp_op p = 2 then s0\<lparr>ar_replies := ar_replies s0 + 1\<rparr> else s0\<lparr>ar_requests := ar_requests s0 + 1\<rparr>) in
     s\<lparr>ar_macs := AList.update (fst (k_source p)) (k_hardware_addr p) (ar_macs s)\<rparr>)"

record icmp_state =
  ic_requests :: u64
  ic_replies :: u64
  ic_last_seq :: u16
  ic_rtt :: int
  ic_min_rtt :: int
  ic_pending :: "(u16 \<times> int) list"
  ic_value :: u32
  ic_target :: addr
  ic_quoted_protocol :: u8
  ic_quoted :: "addrport two"

definition icmp_state0 :: icmp_state where
  "icmp_state0 = \<lparr>ic_requests = 0, ic_replies = 0, ic_last_seq = 0, ic_rtt = 0, ic_min_rtt = 0, ic_pending = [], ic_value = 0,
     ic_target = NoAddr, ic_quoted_protocol = 0, ic_quoted = ((NoAddr, 0), (NoAddr, 0))\<rparr>"

section \<open>Streams\<close>

record streams =
  st_at :: "nat \<Rightarrow> stream"
  st_next :: nat

definition new_stream_at :: "stream \<Rightarrow> streams \<Rightarrow> nat \<times> streams" where
  "new_stream_at s h = (st_next h, h\<lparr>st_at := (st_at h)(st_next h := s), st_next := Suc (st_next h)\<rparr>)"

definition put_stream :: "nat \<Rightarrow> stream \<Rightarrow> streams \<Rightarrow> streams" where
  "put_stream r s h = h\<lparr>st_at := (st_at h)(r := s)\<rparr>"

definition evidence_at :: "streams \<Rightarrow> nat \<Rightarrow> evidence" where
  "evidence_at h r = stream_evidence (st_at h r)"

text \<open>\<^verbatim>\<open>named(s)\<close> of \<^verbatim>\<open>app_linux.go\<close>: a nil stream is not named.\<close>

definition named_ref :: "streams \<Rightarrow> nat option \<Rightarrow> bool" where
  "named_ref h r = (case r of None \<Rightarrow> False | Some i \<Rightarrow> named (evidence_at h i))"

section \<open>Flows\<close>

datatype flow_end = FlowOngoing | FlowFin | FlowReset | FlowFailed | FlowIdle | FlowEvicted

fun flow_end_text :: "flow_end \<Rightarrow> string" where
  "flow_end_text FlowFin = ''fin''"
| "flow_end_text FlowReset = ''reset''"
| "flow_end_text FlowFailed = ''failed''"
| "flow_end_text FlowIdle = ''idle''"
| "flow_end_text FlowEvicted = ''evicted''"
| "flow_end_text FlowOngoing = ''''"

record flow =
  fl_key :: flow_key
  fl_initiator :: addrport
  fl_target :: addrport
  fl_direction :: string
  fl_first :: gotime
  fl_last :: gotime
  fl_rx :: u64
  fl_tx :: u64
  fl_packets :: u64
  fl_client :: participant
  fl_server :: participant
  fl_io :: "(process_id \<times> io_bytes) list"
  fl_truncated_packets :: u64
  fl_domain :: "nat option"
  fl_wire_domain :: "nat option"
  fl_wire_client :: addrport
  fl_interfaces :: interface_set
  fl_socket_domain :: "nat option"
  fl_quic_domain :: "nat option"
  fl_process_domain :: "nat option"
  fl_dns_domain :: "nat option"
  fl_tls_actors :: "(process_id \<times> participant) list"
  fl_quic :: "quic_tracker option"
  fl_icmp :: "icmp_state option"
  fl_icmp_error :: bytes
  fl_arp :: "arp_state option"
  fl_dns :: "dns_state option"
  fl_ssh :: "(bytes \<times> bytes) option"
  fl_app_protocol :: bytes
  fl_app_source :: bytes
  fl_health :: tcp_health
  fl_drops :: "(bytes \<times> u64) list option"
  fl_syn_seq :: u32
  fl_tcp_state :: string
  fl_client_wildcard :: "wildcard_key option"
  fl_server_wildcard :: "wildcard_key option"
  fl_nat :: "nat option"
  fl_preexisting :: bool
  fl_domain_conflict :: bool
  fl_syn_seen :: bool
  fl_syn_ack :: bool
  fl_fin_a :: bool
  fl_fin_b :: bool
  fl_closed :: bool
  fl_end :: flow_end

definition no_endpoint :: addrport where
  "no_endpoint = (NoAddr, 0)"

definition flow0 :: "flow_key \<Rightarrow> flow" where
  "flow0 key = \<lparr>fl_key = key, fl_initiator = no_endpoint, fl_target = no_endpoint, fl_direction = '''', fl_first = None, fl_last = None,
     fl_rx = 0, fl_tx = 0, fl_packets = 0, fl_client = participant0, fl_server = participant0, fl_io = [], fl_truncated_packets = 0,
     fl_domain = None, fl_wire_domain = None, fl_wire_client = no_endpoint, fl_interfaces = interface_set0, fl_socket_domain = None,
     fl_quic_domain = None, fl_process_domain = None, fl_dns_domain = None, fl_tls_actors = [], fl_quic = None, fl_icmp = None,
     fl_icmp_error = [], fl_arp = None, fl_dns = None, fl_ssh = None, fl_app_protocol = [], fl_app_source = [],
     fl_health = tcp_health0, fl_drops = None, fl_syn_seq = 0, fl_tcp_state = '''', fl_client_wildcard = None, fl_server_wildcard = None,
     fl_nat = None, fl_preexisting = False, fl_domain_conflict = False, fl_syn_seen = False, fl_syn_ack = False, fl_fin_a = False, fl_fin_b = False,
     fl_closed = False, fl_end = FlowOngoing\<rparr>"

abbreviation valid_endpoint :: "addrport \<Rightarrow> bool" where
  "valid_endpoint e \<equiv> addr_valid (fst e)"

definition late_event_window :: int where
  "late_event_window = 2 * second"

definition takes_events :: "int \<Rightarrow> flow \<Rightarrow> bool" where
  "takes_events now f \<longleftrightarrow> \<not> fl_closed f \<or> time_sub now (fl_last f) < late_event_window"

definition add_flow_io :: "process_id \<Rightarrow> bool \<Rightarrow> u64 \<Rightarrow> flow \<Rightarrow> flow" where
  "add_flow_io ident send n f = f\<lparr>fl_io := AList.update ident
     (count_io send n (case map_of (fl_io f) ident of None \<Rightarrow> io_bytes0 | Some io \<Rightarrow> io)) (fl_io f)\<rparr>"

text \<open>A flow that has nothing more to show (\<^verbatim>\<open>disposable\<close> in \<^verbatim>\<open>attempts.go\<close>).\<close>

definition disposable :: "flow \<Rightarrow> bool" where
  "disposable f = (if fk_protocol (fl_key f) = 6 then fl_closed f \<or> fl_tcp_state f = ''syn'' \<and> \<not> fl_syn_ack f
     else if fk_protocol (fl_key f) = 17 then fl_packets f \<le> 2 \<and> (fl_rx f = 0 \<or> fl_tx f = 0) else False)"

section \<open>The name of a flow\<close>

definition client_bytes :: "streams \<Rightarrow> flow \<Rightarrow> nat option" where
  "client_bytes h f = (let wire = (case fl_quic_domain f of Some q \<Rightarrow> Some q | None \<Rightarrow> fl_wire_domain f) in
     if named_ref h wire then wire
     else if named_ref h (fl_socket_domain f) then fl_socket_domain f
     else if (case wire of Some w \<Rightarrow> listed (evidence_at h w) | None \<Rightarrow> False) then wire
     else if fl_socket_domain f \<noteq> None then fl_socket_domain f
     else wire)"

definition group_at :: "streams \<Rightarrow> nat option \<Rightarrow> bytes" where
  "group_at h r = (case r of Some i \<Rightarrow> group (evidence_at h i) | None \<Rightarrow> [])"

definition process_dns :: "streams \<Rightarrow> flow \<Rightarrow> bool" where
  "process_dns h f \<longleftrightarrow> named_ref h (fl_dns_domain f)
     \<and> (case fl_dns_domain f of Some d \<Rightarrow> e_kind (evidence_at h d) = KDnsProcess | None \<Rightarrow> False)"

definition pick_domain :: "flow \<Rightarrow> streams \<Rightarrow> streams \<times> flow" where
  "pick_domain f h = (let wire = client_bytes h f; process = named_ref h (fl_process_domain f) in
     if named_ref h wire \<and> \<not> ((process \<or> process_dns h f) \<and> (case wire of Some w \<Rightarrow> e_ech (evidence_at h w) | None \<Rightarrow> False)) then
       (h, f\<lparr>fl_domain_conflict := fl_domain_conflict f \<or> process \<and> group_at h (fl_process_domain f) \<noteq> group_at h wire, fl_domain := wire\<rparr>)
     else if process then (h, f\<lparr>fl_domain := fl_process_domain f\<rparr>)
     else if process_dns h f then (h, f\<lparr>fl_domain := fl_dns_domain f\<rparr>)
     else if named_ref h (fl_dns_domain f) then (h, f\<lparr>fl_domain := fl_dns_domain f\<rparr>)
     else if (case wire of Some w \<Rightarrow> listed (evidence_at h w) | None \<Rightarrow> False) then (h, f\<lparr>fl_domain := wire\<rparr>)
     else if fl_process_domain f \<noteq> None then (h, f\<lparr>fl_domain := fl_process_domain f\<rparr>)
     else if fk_protocol (fl_key f) = 6 \<and> fl_app_protocol f = lit ''TLS'' then
       (if (case fl_domain f of None \<Rightarrow> True | Some d \<Rightarrow> \<not> e_no_handshake (evidence_at h d)) then
          (case new_stream_at (new_missed_tls_handshake (case wire of Some w \<Rightarrow> e_parse_error (evidence_at h w) | None \<Rightarrow> None)) h of
            (r, h') \<Rightarrow> (h', f\<lparr>fl_domain := Some r\<rparr>))
        else (h, f))
     else if (case fl_domain f of None \<Rightarrow> True | Some d \<Rightarrow> e_encrypted_dns (evidence_at h d) = None) then (h, f\<lparr>fl_domain := wire\<rparr>)
     else (h, f))"

text \<open>\<open>doh\<close> is the global variable \<^verbatim>\<open>extraDoHNames\<close>.  \<open>None\<close> is the empty string.\<close>

definition encrypted_dns_kind :: "env \<Rightarrow> bytes list \<Rightarrow> streams \<Rightarrow> flow \<Rightarrow> bytes option" where
  "encrypted_dns_kind \<Gamma> doh h f = (let key = fl_key f;
     port = (if valid_endpoint (fl_target f) then snd (fl_target f)
       else if snd (fk_a key) = 853 \<or> snd (fk_a key) = 443 then snd (fk_a key) else snd (fk_b key)) in
     if port = 853 \<and> fk_protocol key = 6 then Some (lit ''DoT'')
     else if port = 853 \<and> fk_protocol key = 17 then Some (lit ''DoQ'')
     else case fl_domain f of None \<Rightarrow> None | Some d \<Rightarrow>
       if port \<noteq> 443 \<or> e_kind (evidence_at h d) \<notin> {KTls, KQuic, KOpenssl, KDns} then None
       else let name = to_lower (uni_lower \<Gamma>) (trim_suffix (group (evidence_at h d)) (lit ''.'')) in
         if name \<in> {lit ''dns.google'', lit ''cloudflare-dns.com'', lit ''dns.quad9.net''} \<or> name \<in> set doh then Some (lit ''DoH'') else None)"

definition mark_encrypted :: "bytes \<Rightarrow> flow \<Rightarrow> streams \<Rightarrow> streams \<times> flow" where
  "mark_encrypted kind f h = (case fl_domain f of
       None \<Rightarrow> (case new_stream_at (new_encrypted_dns kind) h of (r, h') \<Rightarrow>
         (put_stream r (set_encrypted_dns kind (st_at h' r)) h', f\<lparr>fl_domain := Some r\<rparr>))
     | Some d \<Rightarrow> (put_stream d (set_encrypted_dns kind (st_at h d)) h, f))"

definition choose_domain :: "env \<Rightarrow> bytes list \<Rightarrow> flow \<Rightarrow> streams \<Rightarrow> streams \<times> flow" where
  "choose_domain \<Gamma> doh f h = (case pick_domain f h of (h', f') \<Rightarrow>
     (case encrypted_dns_kind \<Gamma> doh h' f' of None \<Rightarrow> (h', f') | Some kind \<Rightarrow> mark_encrypted kind f' h'))"

end
