(* ===== verification/Collector.thy ===== *)
theory Collector imports Attempts begin

text \<open>
  The flow table of an interface (\<^verbatim>\<open>collector\<close> in \<^verbatim>\<open>internal/app/app_linux.go\<close>, with the parts of \<^verbatim>\<open>attempts.go\<close>,
  \<^verbatim>\<open>icmp.go\<close> and \<^verbatim>\<open>nat_linux.go\<close> that work on it): its state, and the operations that packets and events share.

  A flow is a number into the heap \<open>co_flow\<close>, which is how the code's pointers are shared between the table, the list of
  retired flows and the echo owners; \<open>co_streams\<close> and \<open>co_sockets\<close> are the heaps of streams and of socket streams.  The
  record \<open>ambient\<close> holds what the operations take from outside: the library functions, the extra names of
  \<^verbatim>\<open>--doh-list\<close>, the clock that \<^verbatim>\<open>time.Now()\<close> reads during the operation, and the orders of \<^verbatim>\<open>range\<close> loops over maps.
  The channel to the conntrack goroutine is the list of its waiting requests.
\<close>

section \<open>State\<close>

record ambient =
  am_env :: env
  am_doh :: "bytes list"
  am_quic :: quic_crypto
  am_clock :: int
  am_flows :: "flow_key \<Rightarrow> nat"
  am_segments :: schedule
  am_parts :: "nat \<Rightarrow> nat \<Rightarrow> nat"

record fragment_header =
  fh_source :: u16
  fh_destination :: u16
  fh_has_ports :: bool
  fh_icmp_type :: u8
  fh_icmp_code :: u8
  fh_icmp_id :: u16
  fh_icmp_echo :: bool
  fh_seen :: int

type_synonym fragment_key = "addr \<times> addr \<times> u8 \<times> u32"

type_synonym echo_key = "addr \<times> u16 \<times> u8"

record echo_owner =
  eo_process :: participant
  eo_flow :: "nat option"
  eo_seen :: int

record tls_event =
  te_pid :: int
  te_start :: u64
  te_local :: addrport
  te_remote :: addrport
  te_hostname :: bytes
  te_source :: bytes
  te_process :: bytes

record socket_stream =
  ss_parser :: "nat option"
  ss_quic :: "quic_tracker option"
  ss_local :: addrport
  ss_remote :: addrport
  ss_sent :: bool
  ss_last :: int

record pending_io =
  pi_process :: process_id
  pi_send :: bool
  pi_bytes :: u64
  pi_seen :: int

record conntrack_entry =
  ct_protocol :: u8
  ct_orig :: "addrport two"
  ct_reply :: "addrport two"

record nat_entry =
  ne_entry :: conntrack_entry
  ne_orig :: flow_key
  ne_reply :: flow_key
  ne_seen :: int

record nat_table =
  nt_entries :: "(flow_key \<times> nat) list"
  nt_at :: "nat \<Rightarrow> nat_entry"
  nt_next :: nat
  nt_requests :: "(u8 \<times> addrport \<times> addrport) list"
  nt_skipped :: u64

record process_io =
  px_name :: bytes
  px_io :: io_bytes

record collector =
  co_flows :: "(flow_key \<times> nat) list"
  co_flow :: "nat \<Rightarrow> flow"
  co_next :: nat
  co_streams :: streams
  co_sockets :: "nat \<Rightarrow> socket_stream"
  co_dns :: "dns_cache option"
  co_nat :: "nat_table option"
  co_pending_tls :: "(flow_key \<times> tls_event \<times> int) list"
  co_pending_socket :: "(flow_key \<times> nat \<times> int) list"
  co_fragments :: "(fragment_key \<times> fragment_header) list"
  co_echo_owners :: "(echo_key \<times> echo_owner) list"
  co_attempts :: "(addr \<times> attempt_summary) list"
  co_retired :: "nat list"
  co_roles :: "(flow_key \<times> roles) list"
  co_wildcards :: "(wildcard_key \<times> participant) list"
  co_role_seen :: "(flow_key \<times> int) list"
  co_wildcard_seen :: "(wildcard_key \<times> int) list"
  co_max_flows :: nat
  co_eviction_blocked :: bool
  co_filter_port :: u16
  co_loopback :: bool
  co_interface :: nat
  co_pid_io :: "(process_id \<times> process_io) list"
  co_rx_bytes :: u64
  co_tx_bytes :: u64
  co_pid_seen :: "(process_id \<times> int) list"
  co_expired_pid_io :: io_bytes
  co_expired_pid_count :: u64
  co_pending_io :: "(flow_key \<times> pending_io list) list"
  co_pending_tcp :: "(flow_key \<times> tcp_health \<times> int) list"
  co_pending_io_count :: int
  co_io_unmatched :: u64
  co_io_unindexed :: io_bytes
  co_packets :: u64
  co_bytes :: u64
  co_dropped_flow :: u64
  co_dropped_role :: u64
  co_truncated :: u64
  co_expired_flows :: u64
  co_expired_rx :: u64
  co_expired_tx :: u64
  co_expired_domain_rx :: u64
  co_expired_domain_tx :: u64
  co_unindexed_rx :: u64
  co_unindexed_tx :: u64

abbreviation flow_at :: "flow_key \<Rightarrow> collector \<Rightarrow> nat option" where
  "flow_at key c \<equiv> map_of (co_flows c) key"

definition put_flow :: "nat \<Rightarrow> flow \<Rightarrow> collector \<Rightarrow> collector" where
  "put_flow i f c = c\<lparr>co_flow := (co_flow c)(i := f)\<rparr>"

abbreviation upd_flow :: "nat \<Rightarrow> (flow \<Rightarrow> flow) \<Rightarrow> collector \<Rightarrow> collector" where
  "upd_flow i g c \<equiv> put_flow i (g (co_flow c i)) c"

abbreviation table_size :: "collector \<Rightarrow> nat" where
  "table_size c \<equiv> length (co_flows c) + length (co_retired c)"

definition accept_port :: "collector \<Rightarrow> addrport \<Rightarrow> addrport \<Rightarrow> bool" where
  "accept_port c a b \<longleftrightarrow> co_filter_port c = 0 \<or> snd a = co_filter_port c \<or> snd b = co_filter_port c"

text \<open>A new stream that a flow will point to.\<close>

definition new_stream_in :: "stream \<Rightarrow> collector \<Rightarrow> nat \<times> collector" where
  "new_stream_in s c = (case new_stream_at s (co_streams c) of (r, h) \<Rightarrow> (r, c\<lparr>co_streams := h\<rparr>))"

definition choose_at :: "ambient \<Rightarrow> nat \<Rightarrow> collector \<Rightarrow> collector" where
  "choose_at A i c = (case choose_domain (am_env A) (am_doh A) (co_flow c i) (co_streams c) of
     (h, f) \<Rightarrow> put_flow i f (c\<lparr>co_streams := h\<rparr>))"

section \<open>Fragments\<close>

definition max_fragments :: nat where
  "max_fragments = 4096"

definition fragment_ttl :: int where
  "fragment_ttl = 30 * second"

definition join_fragment :: "int \<Rightarrow> packet \<Rightarrow> collector \<Rightarrow> packet \<times> collector" where
  "join_fragment clock p c = (if \<not> k_fragmented p then (p, c)
     else let key = (fst (k_source p), fst (k_destination p), k_protocol p, k_fragment_id p) in
       if k_fragment_offset p = 0 then
         (p, if (k_has_ports p \<or> k_protocol p = 1 \<or> k_protocol p = 58) \<and> length (co_fragments c) < max_fragments
           then c\<lparr>co_fragments := AList.update key \<lparr>fh_source = snd (k_source p), fh_destination = snd (k_destination p),
               fh_has_ports = k_has_ports p, fh_icmp_type = k_icmp_type p, fh_icmp_code = k_icmp_code p, fh_icmp_id = k_icmp_id p,
               fh_icmp_echo = k_icmp_has_echo p, fh_seen = clock\<rparr> (co_fragments c)\<rparr>
           else c)
       else (case map_of (co_fragments c) key of None \<Rightarrow> (p, c)
         | Some h \<Rightarrow> (p\<lparr>k_source := (fst (k_source p), fh_source h), k_destination := (fst (k_destination p), fh_destination h),
             k_has_ports := fh_has_ports h, k_icmp_type := fh_icmp_type h, k_icmp_code := fh_icmp_code h, k_icmp_id := fh_icmp_id h,
             k_icmp_has_echo := fh_icmp_echo h\<rparr>, c)))"

section \<open>Attempts and eviction\<close>

definition note_attempt :: "flow \<Rightarrow> bool \<Rightarrow> gotime \<Rightarrow> collector \<Rightarrow> collector" where
  "note_attempt f refused now c = (if fl_direction f \<noteq> ''inbound'' \<and> fl_direction f \<noteq> ''first-packet-in'' then c
     else let source = fst (fl_initiator f) in
       case map_of (co_attempts c) source of
         None \<Rightarrow> if co_max_flows c \<le> length (co_attempts c) then c
           else c\<lparr>co_attempts := AList.update source (count_attempt refused (snd (fl_target f)) now attempt_summary0) (co_attempts c)\<rparr>
       | Some a \<Rightarrow> c\<lparr>co_attempts := AList.update source (count_attempt refused (snd (fl_target f)) now a) (co_attempts c)\<rparr>)"

definition listed_flow :: "collector \<Rightarrow> flow \<Rightarrow> bool" where
  "listed_flow c f = (case fl_domain f of None \<Rightarrow> False | Some d \<Rightarrow> listed (evidence_at (co_streams c) d))"

definition expire_flow :: "nat \<Rightarrow> int \<Rightarrow> collector \<Rightarrow> collector" where
  "expire_flow i now c = (let f = co_flow c i;
     c1 = c\<lparr>co_expired_flows := co_expired_flows c + 1, co_expired_rx := co_expired_rx c + fl_rx f, co_expired_tx := co_expired_tx c + fl_tx f\<rparr>;
     c2 = (if listed_flow c f then c1\<lparr>co_expired_domain_rx := co_expired_domain_rx c1 + fl_rx f,
       co_expired_domain_tx := co_expired_domain_tx c1 + fl_tx f\<rparr> else c1) in
     if fk_protocol (fl_key f) = 6 \<and> fl_tcp_state f = ''syn'' \<and> \<not> fl_syn_ack f then note_attempt f False (Some now) c2 else c2)"

text \<open>\<^verbatim>\<open>a.Last.Compare(b.Last)\<close>: the zero time is before every other.\<close>

definition last_key :: "flow \<Rightarrow> nat \<times> int" where
  "last_key f = (case fl_last f of None \<Rightarrow> (0, 0) | Some t \<Rightarrow> (1, t))"

definition evict_flow :: "int \<Rightarrow> nat \<Rightarrow> collector \<Rightarrow> collector" where
  "evict_flow now i c = (let c' = expire_flow i now c in c'\<lparr>co_flows := AList.delete (fl_key (co_flow c' i)) (co_flows c')\<rparr>)"

definition candidates :: "(flow_key \<Rightarrow> nat) \<Rightarrow> collector \<Rightarrow> nat list" where
  "candidates \<rho> c = filter (\<lambda>i. disposable (co_flow c i)) (map snd (ranged \<rho> (co_flows c)))"

definition evict :: "(flow_key \<Rightarrow> nat) \<Rightarrow> int \<Rightarrow> collector \<Rightarrow> collector" where
  "evict \<rho> now c = (if co_eviction_blocked c then c
     else let is = candidates \<rho> c in
       if length is = 0 then c\<lparr>co_eviction_blocked := True\<rparr>
       else fold (evict_flow now) (take (min (length is) (co_max_flows c div 10 + 1)) (sort_key (\<lambda>i. last_key (co_flow c i)) is)) c)"

section \<open>Socket I/O that waits for its flow\<close>

definition max_pending_io_samples :: int where
  "max_pending_io_samples = 4096"

definition waiting_io :: "flow_key \<Rightarrow> collector \<Rightarrow> pending_io list" where
  "waiting_io key c = (case map_of (co_pending_io c) key of None \<Rightarrow> [] | Some samples \<Rightarrow> samples)"

definition drop_sample :: "pending_io \<Rightarrow> collector \<Rightarrow> collector" where
  "drop_sample sample c = c\<lparr>co_io_unmatched := co_io_unmatched c + pi_bytes sample, co_pending_io_count := co_pending_io_count c - 1\<rparr>"

definition flush_pending_key :: "flow_key \<Rightarrow> collector \<Rightarrow> collector" where
  "flush_pending_key key c = (let c' = fold drop_sample (waiting_io key c) c in c'\<lparr>co_pending_io := AList.delete key (co_pending_io c')\<rparr>)"

definition attach_sample :: "int \<Rightarrow> nat \<Rightarrow> pending_io \<Rightarrow> collector \<Rightarrow> collector" where
  "attach_sample clock i sample c = (if time_sub clock (Some (pi_seen sample)) \<le> 2 * second
     then (upd_flow i (add_flow_io (pi_process sample) (pi_send sample) (pi_bytes sample)) c)\<lparr>co_pending_io_count := co_pending_io_count c - 1\<rparr>
     else drop_sample sample c)"

definition attach_pending_io :: "int \<Rightarrow> flow_key \<Rightarrow> nat \<Rightarrow> collector \<Rightarrow> collector" where
  "attach_pending_io clock key i c = (let c' = fold (attach_sample clock i) (waiting_io key c) c in
     c'\<lparr>co_pending_io := AList.delete key (co_pending_io c')\<rparr>)"

definition expire_sample :: "int \<Rightarrow> bool \<Rightarrow> pending_io \<Rightarrow> bool" where
  "expire_sample now flush_all sample \<longleftrightarrow> flush_all \<or> 2 * second < time_sub now (Some (pi_seen sample))"

definition expire_pending_io :: "int \<Rightarrow> bool \<Rightarrow> collector \<Rightarrow> collector" where
  "expire_pending_io now flush_all c = (let c' = fold (\<lambda>(key, samples). fold drop_sample (filter (expire_sample now flush_all) samples)) (co_pending_io c) c in
     c'\<lparr>co_pending_io := map_sweep (\<lambda>key samples. let kept = filter (\<lambda>s. \<not> expire_sample now flush_all s) samples in
       if length kept = 0 then None else Some kept) (co_pending_io c)\<rparr>)"

section \<open>NAT\<close>

definition nat_queue :: nat where
  "nat_queue = 1024"

definition max_nat_entries :: nat where
  "max_nat_entries = 65536"

definition nat_entry_idle :: int where
  "nat_entry_idle = 300 * second"

definition ct_nat :: "conntrack_entry \<Rightarrow> bool" where
  "ct_nat e \<longleftrightarrow> fst (ct_reply e) \<noteq> snd (ct_orig e) \<or> snd (ct_reply e) \<noteq> fst (ct_orig e)"

definition ct_other :: "conntrack_entry \<Rightarrow> addrport \<Rightarrow> addrport" where
  "ct_other e endpoint = (if endpoint = fst (ct_orig e) then snd (ct_reply e)
     else if endpoint = snd (ct_orig e) then fst (ct_reply e)
     else if endpoint = fst (ct_reply e) then snd (ct_orig e)
     else if endpoint = snd (ct_reply e) then fst (ct_orig e)
     else endpoint)"

definition nat_lookup :: "u8 \<Rightarrow> addrport \<Rightarrow> addrport \<Rightarrow> nat_table \<Rightarrow> nat_table" where
  "nat_lookup protocol src dst t = (if length (nt_requests t) < nat_queue then t\<lparr>nt_requests := nt_requests t @ [(protocol, src, dst)]\<rparr>
     else t\<lparr>nt_skipped := nt_skipped t + 1\<rparr>)"

definition nat_add :: "conntrack_entry \<Rightarrow> int \<Rightarrow> nat_table \<Rightarrow> nat \<times> nat_table" where
  "nat_add e now t = (let orig = key_for (fst (ct_orig e)) (snd (ct_orig e)) (ct_protocol e);
     reply = key_for (fst (ct_reply e)) (snd (ct_reply e)) (ct_protocol e) in
     case (case map_of (nt_entries t) orig of Some old \<Rightarrow> if ne_entry (nt_at t old) = e then Some old else None | None \<Rightarrow> None) of
       Some old \<Rightarrow> (old, t\<lparr>nt_at := (nt_at t)(old := (nt_at t old)\<lparr>ne_seen := now\<rparr>)\<rparr>)
     | None \<Rightarrow> let r = nt_next t;
         t1 = t\<lparr>nt_at := (nt_at t)(r := \<lparr>ne_entry = e, ne_orig = orig, ne_reply = reply, ne_seen = now\<rparr>), nt_next := Suc r\<rparr> in
         (r, if length (nt_entries t1) < 2 * max_nat_entries
           then t1\<lparr>nt_entries := AList.update reply r (AList.update orig r (nt_entries t1))\<rparr> else t1))"

definition nat_expire :: "int \<Rightarrow> nat_table \<Rightarrow> nat_table" where
  "nat_expire now t = t\<lparr>nt_entries := filter (\<lambda>(key, r). \<not> nat_entry_idle < time_sub now (Some (ne_seen (nt_at t r)))) (nt_entries t)\<rparr>"

definition link_roles :: "conntrack_entry \<Rightarrow> flow_key \<Rightarrow> roles \<Rightarrow> flow \<Rightarrow> flow" where
  "link_roles e socket r f = (let udp = fk_protocol (fl_key f) = 17;
     client = (if udp then roles_owner r (ct_other e (fl_initiator f)) socket else ro_client r);
     server = (if udp then roles_owner r (ct_other e (fl_target f)) socket else ro_server r);
     f1 = (if pt_pid (fl_client f) = 0 then f\<lparr>fl_client := client\<rparr> else f) in
     if pt_pid (fl_server f1) = 0 then f1\<lparr>fl_server := server\<rparr> else f1)"

text \<open>One turn of the loop of \<^verbatim>\<open>linkNAT\<close>: \<open>captured\<close> is the tuple seen here and \<open>socket\<close> the one of the other side.\<close>

definition link_one :: "int \<Rightarrow> nat \<Rightarrow> nat_entry \<Rightarrow> flow_key \<Rightarrow> flow_key \<Rightarrow> collector \<Rightarrow> collector" where
  "link_one clock entry ne captured socket c = (case flow_at captured c of None \<Rightarrow> c
     | Some i \<Rightarrow> if fl_nat (co_flow c i) = Some entry then c
       else let c1 = upd_flow i (\<lambda>f. f\<lparr>fl_nat := Some entry\<rparr>) c in
         if flow_at socket c1 \<noteq> None then c1
         else let c2 = (case map_of (co_roles c1) socket of None \<Rightarrow> c1 | Some r \<Rightarrow> upd_flow i (link_roles (ne_entry ne) socket r) c1) in
           attach_pending_io clock socket i c2)"

definition link_nat :: "int \<Rightarrow> nat \<Rightarrow> collector \<Rightarrow> collector" where
  "link_nat clock entry c = (case co_nat c of None \<Rightarrow> c | Some t \<Rightarrow> let ne = nt_at t entry in
     link_one clock entry ne (ne_reply ne) (ne_orig ne) (link_one clock entry ne (ne_orig ne) (ne_reply ne) c))"

text \<open>\<^verbatim>\<open>Addr.IsMulticast\<close>.\<close>

definition is_multicast :: "addr \<Rightarrow> bool" where
  "is_multicast a = (case unmap a of V4 (x # b) \<Rightarrow> x AND 0xf0 = 0xe0 | V6 (x # b) zone \<Rightarrow> x = 0xff | _ \<Rightarrow> False)"

definition nat_flow :: "int \<Rightarrow> nat \<Rightarrow> u8 \<Rightarrow> addrport \<Rightarrow> addrport \<Rightarrow> collector \<Rightarrow> collector" where
  "nat_flow clock i protocol src dst c = (case co_nat c of None \<Rightarrow> c
     | Some t \<Rightarrow> if protocol \<noteq> 6 \<and> protocol \<noteq> 17 \<or> is_multicast (fst dst) then c
       else (case map_of (nt_entries t) (fl_key (co_flow c i)) of
           Some entry \<Rightarrow> link_nat clock entry c
         | None \<Rightarrow> c\<lparr>co_nat := Some (nat_lookup protocol src dst t)\<rparr>))"

definition nat_socket :: "addrport \<Rightarrow> addrport \<Rightarrow> u8 \<Rightarrow> collector \<Rightarrow> addrport \<times> addrport" where
  "nat_socket local remote protocol c = (case co_nat c of None \<Rightarrow> (local, remote)
     | Some t \<Rightarrow> if length (nt_entries t) = 0 then (local, remote)
       else let key = key_for local remote protocol in
         case map_of (nt_entries t) key of None \<Rightarrow> (local, remote)
         | Some r \<Rightarrow> if flow_at key c \<noteq> None then (local, remote)
           else let e = ne_entry (nt_at t r); other = ct_other e local; other_remote = ct_other e remote in
             if flow_at (key_for other other_remote protocol) c \<noteq> None then (other, other_remote) else (local, remote))"

section \<open>Evidence from processes and sockets\<close>

definition apply_tls_event :: "ambient \<Rightarrow> nat \<Rightarrow> tls_event \<Rightarrow> collector \<Rightarrow> collector \<times> bool" where
  "apply_tls_event A i e c = (let f = co_flow c i in
     if (case fl_process_domain f of None \<Rightarrow> False | Some d \<Rightarrow> e_sni (evidence_at (co_streams c) d) \<noteq> te_hostname e)
     then (put_flow i (f\<lparr>fl_domain_conflict := True\<rparr>) c, False)
     else let c1 = (if fl_process_domain f = None then (case new_stream_in (new_openssl_sni (te_hostname e)) c of
             (r, c') \<Rightarrow> upd_flow i (\<lambda>f. f\<lparr>fl_process_domain := Some r\<rparr>) c') else c);
         actor = \<lparr>pt_pid = te_pid e, pt_start = te_start e, pt_name = te_process e\<rparr>;
         c2 = (if 0 < te_pid e \<and> length (fl_tls_actors (co_flow c1 i)) < 8
           then upd_flow i (\<lambda>f. f\<lparr>fl_tls_actors := AList.update (process_of actor) actor (fl_tls_actors f)\<rparr>) c1 else c1);
         c3 = choose_at A i c2 in
       (if fl_domain (co_flow c3 i) = fl_process_domain (co_flow c3 i)
        then upd_flow i (\<lambda>f. f\<lparr>fl_app_protocol := lit ''TLS'', fl_app_source := te_source e\<rparr>) c3 else c3, True))"

text \<open>What the kind of a socket's stream says of the application.\<close>

definition socket_label :: "evidence \<Rightarrow> flow \<Rightarrow> flow" where
  "socket_label e f = (if fl_app_protocol f = [] \<or> fl_app_source f = lit ''record-prefix'' then
     (case e_kind e of
       KTls \<Rightarrow> f\<lparr>fl_app_protocol := lit ''TLS'', fl_app_source := lit ''ClientHello (socket)''\<rparr>
     | KHttp \<Rightarrow> f\<lparr>fl_app_protocol := lit ''HTTP'', fl_app_source := lit ''HTTP request header (socket)''\<rparr>
     | KHttp2 \<Rightarrow> f\<lparr>fl_app_protocol := (if e_grpc e then lit ''gRPC'' else lit ''HTTP/2''), fl_app_source := lit ''HTTP/2 HEADERS (socket)''\<rparr>
     | KQuic \<Rightarrow> f\<lparr>fl_app_protocol := lit ''QUIC'', fl_app_source := lit ''QUIC Initial ClientHello (socket)''\<rparr>
     | _ \<Rightarrow> f) else f)"

definition attach_socket_domain :: "ambient \<Rightarrow> nat \<Rightarrow> nat \<Rightarrow> collector \<Rightarrow> collector go" where
  "attach_socket_domain A i socket c = (let f = co_flow c i; s = co_sockets c socket;
     client = (if ss_sent s then ss_local s else ss_remote s) in
     if ss_quic s = None \<and> valid_endpoint (fl_initiator f) \<and> client \<noteq> fl_initiator f then Ret c
     else let f1 = f\<lparr>fl_socket_domain := ss_parser s\<rparr> in
       if fl_app_protocol f1 = [] \<or> fl_app_source f1 = lit ''record-prefix'' then
         (case ss_parser s of None \<Rightarrow> Panic
         | Some r \<Rightarrow> Ret (choose_at A i (put_flow i (socket_label (evidence_at (co_streams c) r) f1) c)))
       else Ret (choose_at A i (put_flow i f1 c)))"

end
