(* ===== verification/Collect_Packet.thy ===== *)
theory Collect_Packet imports Collector begin

text \<open>
  A packet and the flow table: \<^verbatim>\<open>packetAt\<close> in \<^verbatim>\<open>internal/app/app_linux.go\<close>, with \<^verbatim>\<open>icmp\<close> of \<^verbatim>\<open>icmp.go\<close>.

  \<open>packet_at\<close> is the composition of the definitions below, one for each step of the function, in its order.  They take
  the number \<open>i\<close> of the packet's flow; what the code keeps in local variables is an argument.
\<close>

section \<open>ICMP\<close>

definition max_pending_echoes :: nat where
  "max_pending_echoes = 64"

definition echo_owner_idle :: int where
  "echo_owner_idle = 60 * second"

definition echo_request :: "packet \<Rightarrow> bool" where
  "echo_request p \<longleftrightarrow> k_icmp_has_echo p \<and> (k_protocol p = 1 \<and> k_icmp_type p = 8 \<or> k_protocol p = 58 \<and> k_icmp_type p = 128)"

definition echo_owner_for :: "echo_key \<Rightarrow> collector \<Rightarrow> echo_owner \<times> bool" where
  "echo_owner_for key c = (case map_of (co_echo_owners c) key of
       Some owner \<Rightarrow> (owner, True)
     | None \<Rightarrow> (\<lparr>eo_process = participant0, eo_flow = None, eo_seen = 0\<rparr>, length (co_echo_owners c) < co_max_flows c))"

definition echo_flow :: "nat \<Rightarrow> packet \<Rightarrow> int \<Rightarrow> collector \<Rightarrow> collector" where
  "echo_flow i p at c = (let key = (fst (k_destination p), k_icmp_id p, k_protocol p) in
     case echo_owner_for key c of (owner, ok) \<Rightarrow> if \<not> ok then c
       else let c1 = (if pt_pid (eo_process owner) \<noteq> 0 then upd_flow i (\<lambda>f. f\<lparr>fl_client := eo_process owner\<rparr>) c else c) in
         c1\<lparr>co_echo_owners := AList.update key (owner\<lparr>eo_flow := Some i, eo_seen := at\<rparr>) (co_echo_owners c1)\<rparr>)"

definition direction_of :: "collector \<Rightarrow> packet \<Rightarrow> string" where
  "direction_of c p = (if co_loopback c then ''local'' else if k_outgoing p then ''outbound'' else ''inbound'')"

definition icmp_unreachable :: "string list" where
  "icmp_unreachable = [''net-unreachable'', ''host-unreachable'', ''protocol-unreachable'', ''port-unreachable'', ''frag-needed'',
     ''source-route-failed'', ''net-unknown'', ''host-unknown'', ''source-host-isolated'', ''net-prohibited'', ''host-prohibited'',
     ''net-tos-unreachable'', ''host-tos-unreachable'', ''admin-prohibited'']"

definition icmp6_unreachable :: "string list" where
  "icmp6_unreachable = [''no-route'', ''admin-prohibited'', ''beyond-scope'', ''address-unreachable'', ''port-unreachable'',
     ''source-policy-failed'', ''reject-route'']"

definition icmp_names :: "(u8 \<times> string) list" where
  "icmp_names = [(0, ''echo''), (8, ''echo''), (4, ''source-quench''), (5, ''redirect''), (9, ''router-advertisement''),
     (10, ''router-solicitation''), (11, ''ttl-exceeded''), (12, ''parameter-problem''), (13, ''timestamp''), (14, ''timestamp'')]"

definition icmp6_names :: "(u8 \<times> string) list" where
  "icmp6_names = [(2, ''packet-too-big''), (3, ''hop-limit-exceeded''), (4, ''parameter-problem''), (128, ''echo''), (129, ''echo''),
     (130, ''mld-query''), (131, ''mld-report''), (132, ''mld-done''), (133, ''router-solicitation''), (134, ''router-advertisement''),
     (135, ''neighbor-solicitation''), (136, ''neighbor-advertisement''), (137, ''redirect''), (143, ''mld-report'')]"

definition icmp_name :: "u8 \<Rightarrow> u8 \<Rightarrow> u8 \<Rightarrow> bytes" where
  "icmp_name protocol kind code = (let six = (protocol = 58);
     unreachable = (if six then icmp6_unreachable else icmp_unreachable); names = (if six then icmp6_names else icmp_names);
     unreachable_type = (if six then 1 else 3) in
     if kind = unreachable_type \<and> unat code < length unreachable then lit (unreachable ! unat code)
     else if kind = unreachable_type then lit ''unreachable code='' @ dec (unat code)
     else if (protocol = 1 \<and> kind = 11 \<or> protocol = 58 \<and> kind = 3) \<and> code = 1 then lit ''reassembly-timeout''
     else case map_of names kind of Some name \<Rightarrow> lit name
       | None \<Rightarrow> lit ''type='' @ dec (unat kind) @ lit '' code='' @ dec (unat code))"

definition echo_reply :: "packet \<Rightarrow> int \<Rightarrow> icmp_state \<Rightarrow> icmp_state" where
  "echo_reply p at s0 = (let s = s0\<lparr>ic_replies := ic_replies s0 + 1\<rparr> in
     case map_of (ic_pending s) (k_icmp_seq p) of None \<Rightarrow> s
     | Some sent \<Rightarrow> let rtt = time_sub at (Some sent) in
         s\<lparr>ic_pending := AList.delete (k_icmp_seq p) (ic_pending s), ic_rtt := rtt,
           ic_min_rtt := (if ic_min_rtt s = 0 \<or> rtt < ic_min_rtt s then rtt else ic_min_rtt s)\<rparr>)"

definition echo_asked :: "packet \<Rightarrow> int \<Rightarrow> icmp_state \<Rightarrow> icmp_state" where
  "echo_asked p at s0 = (let s = s0\<lparr>ic_requests := ic_requests s0 + 1\<rparr> in
     s\<lparr>ic_pending := AList.update (k_icmp_seq p) at (if max_pending_echoes \<le> length (ic_pending s) then [] else ic_pending s)\<rparr>)"

definition icmp_message :: "packet \<Rightarrow> icmp_state \<Rightarrow> icmp_state" where
  "icmp_message p s0 = (let s1 = (if k_icmp_value p \<noteq> 0 then s0\<lparr>ic_value := k_icmp_value p\<rparr> else s0);
     s2 = (if addr_valid (k_icmp_target p) then s1\<lparr>ic_target := k_icmp_target p\<rparr> else s1) in
     if k_quoted_protocol p = 0 then s2
     else s2\<lparr>ic_quoted_protocol := k_quoted_protocol p, ic_quoted := (k_quoted_source p, k_quoted_destination p)\<rparr>)"

text \<open>The flow an ICMP error quotes.\<close>

definition icmp_referenced :: "packet \<Rightarrow> int \<Rightarrow> nat \<Rightarrow> collector \<Rightarrow> collector" where
  "icmp_referenced p at r c = (let f = co_flow c r;
     unreachable = (k_protocol p = 1 \<and> k_icmp_type p = 3 \<or> k_protocol p = 58 \<and> k_icmp_type p = 1);
     c1 = (if unreachable \<and> fl_icmp_error f = [] \<and> fk_protocol (fl_key f) = 17 \<and> fst (k_source p) = fst (fl_target f)
       then note_attempt f True (Some at) c else c) in
     upd_flow r (\<lambda>f. f\<lparr>fl_icmp_error := icmp_name (k_protocol p) (k_icmp_type p) (k_icmp_code p)\<rparr>) c1)"

definition collect_icmp :: "int \<Rightarrow> nat \<Rightarrow> packet \<Rightarrow> collector \<Rightarrow> collector" where
  "collect_icmp clock i p c = (let at = (case k_captured_at p of None \<Rightarrow> clock | Some t \<Rightarrow> t);
     s = (case fl_icmp (co_flow c i) of None \<Rightarrow> icmp_state0 | Some s \<Rightarrow> s) in
     if k_icmp_has_echo p then
       (let s1 = s\<lparr>ic_last_seq := k_icmp_seq p\<rparr> in
        if \<not> echo_request p then upd_flow i (\<lambda>f. f\<lparr>fl_icmp := Some (echo_reply p at s1)\<rparr>) c
        else let c1 = (if ic_requests s1 = 0
            then upd_flow i (\<lambda>f. f\<lparr>fl_initiator := k_source p, fl_target := k_destination p, fl_direction := direction_of c p\<rparr>) c else c);
          c2 = (if k_outgoing p then echo_flow i p at c1 else c1) in
          upd_flow i (\<lambda>f. f\<lparr>fl_icmp := Some (echo_asked p at s1)\<rparr>) c2)
     else let c1 = upd_flow i (\<lambda>f. f\<lparr>fl_icmp := Some (icmp_message p s)\<rparr>) c in
       if k_quoted_protocol p = 0 then c1
       else case flow_at (key_for (k_quoted_source p) (k_quoted_destination p) (k_quoted_protocol p)) c1 of
         None \<Rightarrow> c1 | Some r \<Rightarrow> icmp_referenced p at r c1)"

section \<open>The packet finds its flow\<close>

definition packet_dns :: "ambient \<Rightarrow> int \<Rightarrow> packet \<Rightarrow> collector \<Rightarrow> (dns_record list \<times> collector) go" where
  "packet_dns A now p c = (let port = snd (k_source p) in
     if port = 53 \<or> port = 5353 \<or> port = 5355 then
       gbind (if k_protocol p = 6 then tcp_dns_message (k_payload p) else Ret (Some (k_payload p))) (\<lambda>m. case m of
         None \<Rightarrow> Ret ([], c)
       | Some msg \<Rightarrow> if 12 \<le> length msg then gbind (dns_answer_records (am_env A) msg) (\<lambda>(name, addrs).
           Ret (addrs, if port = 53 then c\<lparr>co_dns := map_option (observe_records name addrs now) (co_dns c)\<rparr> else c))
         else Ret ([], c))
     else Ret ([], c))"

definition count_bytes :: "packet \<Rightarrow> collector \<Rightarrow> collector" where
  "count_bytes p c = (let n = ucast (k_ip_bytes p); c1 = c\<lparr>co_packets := co_packets c + 1, co_bytes := co_bytes c + n\<rparr> in
     if k_outgoing p then c1\<lparr>co_tx_bytes := co_tx_bytes c1 + n\<rparr> else c1\<lparr>co_rx_bytes := co_rx_bytes c1 + n\<rparr>)"

definition opens :: "packet \<Rightarrow> bool" where
  "opens p \<longleftrightarrow> k_protocol p = 6 \<and> k_syn p \<and> \<not> k_ack p"

definition prior_generation :: "packet \<Rightarrow> flow_key \<Rightarrow> collector \<Rightarrow> bool" where
  "prior_generation p key c = (case flow_at key c of None \<Rightarrow> False
     | Some i \<Rightarrow> let f = co_flow c i in opens p \<and> (\<not> fl_syn_seen f \<or> fl_syn_seq f \<noteq> k_tcp_seq p))"

definition retire_prior :: "flow_key \<Rightarrow> collector \<Rightarrow> collector" where
  "retire_prior key c = (case flow_at key c of None \<Rightarrow> c
     | Some i \<Rightarrow> let c1 = flush_pending_key key c in c1\<lparr>co_retired := co_retired c1 @ [i], co_flows := AList.delete key (co_flows c1)\<rparr>)"

definition make_room :: "ambient \<Rightarrow> int \<Rightarrow> collector \<Rightarrow> collector" where
  "make_room A now c = (if co_max_flows c \<le> table_size c then evict (am_flows A) now c else c)"

text \<open>The new flow before it enters the table.\<close>

definition fresh_flow :: "int \<Rightarrow> bool \<Rightarrow> packet \<Rightarrow> flow_key \<Rightarrow> collector \<Rightarrow> flow" where
  "fresh_flow now prior p key c = (let
     f = (flow0 key)\<lparr>fl_direction := ''unknown'', fl_first := Some now, fl_interfaces := iset_add (co_interface c) interface_set0,
       fl_tcp_state := (if k_protocol p = 6 then ''midstream'' else '''')\<rparr>;
     inbound_syn = (opens p \<and> \<not> k_outgoing p) in
     case map_of (co_roles c) key of None \<Rightarrow> f
     | Some r \<Rightarrow> if \<not> inbound_syn \<or> \<not> prior \<and> time_sub now (map_of (co_role_seen c) key) < 2 * second then
         (if k_protocol p = 17 then f\<lparr>fl_client := roles_owner r (k_source p) key, fl_server := roles_owner r (k_destination p) key\<rparr>
          else f\<lparr>fl_client := ro_client r, fl_server := ro_server r\<rparr>)
       else f)"

definition insert_flow :: "flow_key \<Rightarrow> flow \<Rightarrow> collector \<Rightarrow> nat \<times> collector" where
  "insert_flow key f c = (co_next c, (put_flow (co_next c) f c)\<lparr>co_next := Suc (co_next c), co_flows := AList.update key (co_next c) (co_flows c)\<rparr>)"

definition take_pending_tcp :: "int \<Rightarrow> flow_key \<Rightarrow> nat \<Rightarrow> collector \<Rightarrow> collector" where
  "take_pending_tcp now key i c = (case map_of (co_pending_tcp c) key of None \<Rightarrow> c
     | Some (health, seen) \<Rightarrow> let c1 = (if time_sub now (Some seen) \<le> 2 * second
           then upd_flow i (\<lambda>f. f\<lparr>fl_health := (fl_health f)\<lparr>h_kernel := h_kernel health\<rparr>\<rparr>) c else c) in
         c1\<lparr>co_pending_tcp := AList.delete key (co_pending_tcp c1)\<rparr>)"

definition unindexed :: "packet \<Rightarrow> collector \<Rightarrow> collector" where
  "unindexed p c = (let n = ucast (k_ip_bytes p); c1 = c\<lparr>co_dropped_flow := co_dropped_flow c + 1\<rparr> in
     if k_outgoing p then c1\<lparr>co_unindexed_tx := co_unindexed_tx c1 + n\<rparr> else c1\<lparr>co_unindexed_rx := co_unindexed_rx c1 + n\<rparr>)"

text \<open>A packet without a flow: \<open>None\<close> where the table is full.\<close>

definition open_flow :: "ambient \<Rightarrow> int \<Rightarrow> bool \<Rightarrow> packet \<Rightarrow> flow_key \<Rightarrow> collector \<Rightarrow> nat option \<times> collector" where
  "open_flow A now prior p key c = (let c1 = make_room A now c in
     if co_max_flows c1 \<le> table_size c1 then (None, unindexed p c1)
     else case insert_flow key (fresh_flow now prior p key c1) c1 of (i, c2) \<Rightarrow>
       let c3 = take_pending_tcp now key i c2;
         c4 = (if k_protocol p = 17 \<or> opens p then attach_pending_io (am_clock A) key i c3 else c3) in
       (Some i, nat_flow (am_clock A) i (k_protocol p) (k_source p) (k_destination p) c4))"

definition find_flow :: "ambient \<Rightarrow> int \<Rightarrow> packet \<Rightarrow> flow_key \<Rightarrow> collector \<Rightarrow> nat option \<times> collector" where
  "find_flow A now p key c = (let prior = prior_generation p key c; c1 = (if prior then retire_prior key c else c) in
     case flow_at key c1 of Some i \<Rightarrow> (Some i, c1) | None \<Rightarrow> open_flow A now prior p key c1)"

section \<open>The flow takes the packet\<close>

definition count_flow :: "ambient \<Rightarrow> int \<Rightarrow> packet \<Rightarrow> nat \<Rightarrow> collector \<Rightarrow> collector go" where
  "count_flow A now p i c = (let f = co_flow c i; n = ucast (k_ip_bytes p) in
     gbind (health_observe p (co_loopback c) (am_clock A) (fl_health f)) (\<lambda>health. let
       f1 = f\<lparr>fl_last := Some now, fl_health := health, fl_packets := fl_packets f + 1\<rparr>;
       f2 = (if k_outgoing p then f1\<lparr>fl_tx := fl_tx f1 + n\<rparr> else f1\<lparr>fl_rx := fl_rx f1 + n\<rparr>) in
       Ret (if k_truncated p
         then (put_flow i (f2\<lparr>fl_truncated_packets := fl_truncated_packets f2 + 1\<rparr>) c)\<lparr>co_truncated := co_truncated c + 1\<rparr>
         else put_flow i f2 c)))"

definition note_initiator :: "ambient \<Rightarrow> packet \<Rightarrow> nat \<Rightarrow> collector \<Rightarrow> collector" where
  "note_initiator A p i c = (if opens p then
       (let c1 = upd_flow i (\<lambda>f. f\<lparr>fl_syn_seen := True, fl_syn_seq := k_tcp_seq p, fl_tcp_state := ''syn'',
           fl_initiator := k_source p, fl_target := k_destination p\<rparr>) c;
         c2 = (if fl_wire_domain (co_flow c1 i) = None then (case new_stream_in (new_stream (am_clock A) (k_tcp_seq p + 1)) c1 of
             (r, c') \<Rightarrow> upd_flow i (\<lambda>f. f\<lparr>fl_wire_domain := Some r, fl_wire_client := k_source p\<rparr>) c') else c1) in
        upd_flow i (\<lambda>f. f\<lparr>fl_direction := direction_of c p\<rparr>) c2)
     else if k_protocol p \<noteq> 6 \<and> \<not> valid_endpoint (fl_initiator (co_flow c i)) \<and> valid_endpoint (k_source p) then
       upd_flow i (\<lambda>f. f\<lparr>fl_initiator := k_source p, fl_target := k_destination p, fl_direction :=
         (if co_loopback c then ''local'' else if k_outgoing p then ''first-packet-out'' else ''first-packet-in'')\<rparr>) c
     else c)"

definition note_link :: "ambient \<Rightarrow> packet \<Rightarrow> nat \<Rightarrow> collector \<Rightarrow> collector" where
  "note_link A p i c = (if k_ether_type p = 0x0806 then
       upd_flow i (\<lambda>f. f\<lparr>fl_arp := Some (arp_observe p (case fl_arp f of None \<Rightarrow> arp_state0 | Some s \<Rightarrow> s))\<rparr>) c
     else if k_ether_type p = 0 \<and> (k_protocol p = 1 \<or> k_protocol p = 58) \<and> k_fragment_offset p = 0 then collect_icmp (am_clock A) i p c
     else c)"

definition note_answer :: "packet \<Rightarrow> flow \<Rightarrow> flow" where
  "note_answer p f = (let f1 = (if k_protocol p = 6 \<and> k_syn p \<and> k_ack p \<and> k_source p = fl_target f then f\<lparr>fl_syn_ack := True\<rparr> else f) in
     if k_protocol p = 6 \<and> k_ack p \<and> fl_syn_seen f1 \<and> fl_tcp_state f1 = ''syn'' then f1\<lparr>fl_tcp_state := ''established''\<rparr> else f1)"

text \<open>A client message without its SYN.\<close>

definition start_midstream :: "ambient \<Rightarrow> packet \<Rightarrow> nat \<Rightarrow> collector \<Rightarrow> collector go" where
  "start_midstream A p i c = (if k_protocol p = 6 \<and> fl_wire_domain (co_flow c i) = None then
       gbind (starts_client_message (am_env A) (k_payload p)) (\<lambda>starts. if \<not> starts then Ret c
         else case new_stream_in (new_stream (am_clock A) (k_tcp_seq p)) c of (r, c1) \<Rightarrow>
           Ret (upd_flow i (\<lambda>f. let f1 = f\<lparr>fl_wire_domain := Some r, fl_wire_client := k_source p\<rparr> in
             if \<not> valid_endpoint (fl_initiator f1)
             then f1\<lparr>fl_initiator := k_source p, fl_target := k_destination p, fl_direction := direction_of c p\<rparr> else f1) c1))
     else Ret c)"

definition wire_seq :: "packet \<Rightarrow> u32" where
  "wire_seq p = (if k_syn p then k_tcp_seq p + 1 else k_tcp_seq p)"

definition feed_wire :: "ambient \<Rightarrow> packet \<Rightarrow> bool \<Rightarrow> stream \<Rightarrow> stream go" where
  "feed_wire A p client s = gbind (if client
       then stream_add_segment (am_env A) (am_segments A) (am_clock A) s (wire_seq p) (k_payload p) (k_payload_len p)
       else stream_add_server (am_env A) (am_segments A) (am_clock A) s (wire_seq p) (k_payload p) (k_payload_len p)) (\<lambda>s1.
     stream_alert s1 (k_payload p) (\<not> client))"

definition parse_wire :: "ambient \<Rightarrow> packet \<Rightarrow> nat \<Rightarrow> collector \<Rightarrow> collector go" where
  "parse_wire A p i c = (let f = co_flow c i in case fl_wire_domain f of
       None \<Rightarrow> Ret c
     | Some w \<Rightarrow> if k_protocol p \<noteq> 6 then Ret c
       else gbind (feed_wire A p (k_source p = fl_wire_client f) (st_at (co_streams c) w)) (\<lambda>s.
         Ret (c\<lparr>co_streams := put_stream w s (co_streams c)\<rparr>)))"

definition app_retry_packets :: u64 where
  "app_retry_packets = 32"

definition detect_app :: "packet \<Rightarrow> flow \<Rightarrow> flow go" where
  "detect_app p f = (if fl_app_protocol f = [] \<and> 0 < length (k_payload p)
       \<and> (fl_packets f \<le> app_retry_packets \<or> fl_packets f mod app_retry_packets = 0) then
     gbind (if k_protocol p = 6 then app_tcp (k_payload p) (snd (k_source p)) (snd (k_destination p))
         else if k_protocol p = 17 then app_udp (k_payload p) (snd (k_source p)) (snd (k_destination p)) else Ret None) (\<lambda>observed.
       Ret (case observed of None \<Rightarrow> f\<lparr>fl_app_protocol := [], fl_app_source := []\<rparr>
         | Some (name, source) \<Rightarrow> f\<lparr>fl_app_protocol := lit name, fl_app_source := lit source\<rparr>))
     else Ret f)"

definition app_details :: "ambient \<Rightarrow> packet \<Rightarrow> dns_record list \<Rightarrow> flow \<Rightarrow> flow go" where
  "app_details A p addresses f = (if 0 < length (k_payload p) then
       (if fl_app_protocol f \<in> {lit ''DNS'', lit ''mDNS'', lit ''LLMNR''} then
          gbind (dns_state_observe (am_env A) p addresses (case fl_dns f of None \<Rightarrow> dns_state0 | Some s \<Rightarrow> s)) (\<lambda>s.
            Ret (f\<lparr>fl_dns := Some s\<rparr>))
        else if fl_app_protocol f = lit ''SSH'' then Ret (f\<lparr>fl_ssh := ssh_banner p (fl_initiator f) (fl_ssh f)\<rparr>)
        else Ret f)
     else Ret f)"

section \<open>QUIC\<close>

definition unknown_quic :: "err option \<Rightarrow> stream" where
  "unknown_quic reason = (case reason of None \<Rightarrow> evidence_stream (evidence0\<lparr>e_kind := KQuic\<rparr>) | Some r \<Rightarrow> new_unknown_quic r)"

definition set_quic_domain :: "nat \<Rightarrow> stream \<Rightarrow> collector \<Rightarrow> collector" where
  "set_quic_domain i s c = (case new_stream_in s c of (r, c') \<Rightarrow> upd_flow i (\<lambda>f. f\<lparr>fl_quic_domain := Some r\<rparr>) c')"

definition start_quic :: "packet \<Rightarrow> nat \<Rightarrow> collector \<Rightarrow> quic_tracker \<times> collector" where
  "start_quic p i c = (case (case fl_quic (co_flow c i) of Some t \<Rightarrow> (t, c) | None \<Rightarrow> (quic_tracker0, set_quic_domain i (unknown_quic None) c)) of
     (t, c1) \<Rightarrow> (if k_truncated p \<or> k_payload_truncated p then quic_fail (Msg ''QUIC packet capture truncated'') t else t, c1))"

definition quic_result_seen :: "ambient \<Rightarrow> nat \<Rightarrow> bytes option \<Rightarrow> err option \<Rightarrow> collector \<Rightarrow> collector go" where
  "quic_result_seen A i hello er c = (case er of
       Some e \<Rightarrow> Ret (set_quic_domain i (unknown_quic (Some e)) c)
     | None \<Rightarrow> (case hello of None \<Rightarrow> Ret c
       | Some h \<Rightarrow> gbind (gtry (new_quic_client_hello (am_env A) h) (\<lambda>e. Ret (unknown_quic (Some e))) Ret) (\<lambda>s.
           Ret (upd_flow i (\<lambda>f. f\<lparr>fl_app_source := lit ''authenticated QUIC Initial ClientHello''\<rparr>) (set_quic_domain i s c)))))"

text \<open>\<^verbatim>\<open>if f.QUIC.Failure() != "" && f.QUICDomain.Evidence().ParseError == ""\<close>.\<close>

definition quic_failure_seen :: "quic_tracker \<Rightarrow> nat \<Rightarrow> collector \<Rightarrow> collector go" where
  "quic_failure_seen t i c = (if quic_failure t = None then Ret c
     else case fl_quic_domain (co_flow c i) of None \<Rightarrow> Panic
       | Some d \<Rightarrow> Ret (if e_parse_error (evidence_at (co_streams c) d) = None then set_quic_domain i (unknown_quic (quic_failure t)) c else c))"

definition observe_quic :: "ambient \<Rightarrow> packet \<Rightarrow> nat \<Rightarrow> collector \<Rightarrow> collector go" where
  "observe_quic A p i c = (if k_protocol p = 17 \<and> fl_app_protocol (co_flow c i) = lit ''QUIC'' \<and> 0 < length (k_payload p) then
     (case start_quic p i c of (t, c1) \<Rightarrow>
       gbind (quic_add (am_quic A) (am_parts A) (k_captured_at p) (k_payload p) t) (\<lambda>(t', hello, initial, er). let
         c2 = upd_flow i (\<lambda>f. let f1 = f\<lparr>fl_quic := Some t'\<rparr> in if initial
           then f1\<lparr>fl_initiator := k_source p, fl_target := k_destination p, fl_direction := direction_of c p\<rparr> else f1) c1 in
         gbind (quic_result_seen A i hello er c2) (quic_failure_seen t' i)))
     else Ret c)"

section \<open>Names and the end\<close>

definition wire_label :: "evidence \<Rightarrow> flow \<Rightarrow> flow" where
  "wire_label e f = (let proxy = e_proxy_via e; via = (if proxy \<noteq> [] then lit '' via '' @ proxy else []) in
     case e_kind e of
       KHttp \<Rightarrow> f\<lparr>fl_app_protocol := lit ''HTTP'', fl_app_source := lit ''HTTP request header'' @ via\<rparr>
     | KHttp2 \<Rightarrow> f\<lparr>fl_app_protocol := (if e_grpc e then lit ''gRPC'' else lit ''HTTP/2''), fl_app_source := lit ''HTTP/2 HEADERS'' @ via\<rparr>
     | KTls \<Rightarrow> f\<lparr>fl_app_protocol := lit ''TLS'', fl_app_source := lit ''ClientHello'' @ via\<rparr>
     | KProxy \<Rightarrow> f\<lparr>fl_app_protocol := (if proxy = lit ''CONNECT'' then lit ''HTTP CONNECT'' else proxy), fl_app_source := lit ''proxy request''\<rparr>
     | _ \<Rightarrow> f)"

definition label_wire :: "nat \<Rightarrow> collector \<Rightarrow> collector" where
  "label_wire i c = (case fl_wire_domain (co_flow c i) of None \<Rightarrow> c
     | Some w \<Rightarrow> upd_flow i (wire_label (evidence_at (co_streams c) w)) c)"

definition unspecified :: "addr \<Rightarrow> addr" where
  "unspecified like = (case like of V4 b \<Rightarrow> V4 [0, 0, 0, 0] | _ \<Rightarrow> V6 (replicate 16 0) [])"

definition pending_socket_ttl :: int where
  "pending_socket_ttl = 10 * second"

definition pending_key :: "packet \<Rightarrow> flow_key \<Rightarrow> collector \<Rightarrow> flow_key" where
  "pending_key p key c = (if k_protocol p = 17 \<and> k_outgoing p \<and> 0 < length (co_pending_socket c) \<and> map_of (co_pending_socket c) key = None
     then key_for (unspecified (fst (k_source p)), snd (k_source p)) (k_destination p) 17 else key)"

definition take_pending_socket :: "ambient \<Rightarrow> int \<Rightarrow> packet \<Rightarrow> flow_key \<Rightarrow> nat \<Rightarrow> collector \<Rightarrow> collector go" where
  "take_pending_socket A now p key i c = (let k = pending_key p key c in
     case map_of (co_pending_socket c) k of None \<Rightarrow> Ret c
     | Some (s, seen) \<Rightarrow> let c1 = c\<lparr>co_pending_socket := AList.delete k (co_pending_socket c)\<rparr> in
         if time_sub now (Some seen) \<le> pending_socket_ttl then attach_socket_domain A i s c1 else Ret c1)"

definition name_flow :: "ambient \<Rightarrow> packet \<Rightarrow> nat \<Rightarrow> collector \<Rightarrow> collector" where
  "name_flow A p i c = (if k_protocol p = 6 \<or> k_protocol p = 17 then choose_at A i c else c)"

definition take_pending_tls :: "ambient \<Rightarrow> int \<Rightarrow> flow_key \<Rightarrow> nat \<Rightarrow> collector \<Rightarrow> collector" where
  "take_pending_tls A now key i c = (case map_of (co_pending_tls c) key of None \<Rightarrow> c
     | Some (event, seen) \<Rightarrow> let c1 = c\<lparr>co_pending_tls := AList.delete key (co_pending_tls c)\<rparr> in
         if time_sub now (Some seen) \<le> 2 * second then fst (apply_tls_event A i event c1) else c1)"

definition end_tcp :: "packet \<Rightarrow> nat \<Rightarrow> collector \<Rightarrow> collector" where
  "end_tcp p i c = (let f = co_flow c i in
     if k_protocol p \<noteq> 6 then c
     else if k_rst p then
       (let c1 = (if \<not> fl_closed f \<and> fl_syn_seen f \<and> \<not> fl_syn_ack f \<and> k_source p = fl_target f then note_attempt f True (k_captured_at p) c else c) in
        put_flow i (f\<lparr>fl_tcp_state := ''reset'', fl_closed := True\<rparr>) c1)
     else if k_fin p then
       (let f1 = (if k_source p = fk_a (fl_key f) then f\<lparr>fl_fin_a := True\<rparr> else f\<lparr>fl_fin_b := True\<rparr>) in
        put_flow i (if fl_fin_a f1 \<and> fl_fin_b f1 then f1\<lparr>fl_tcp_state := ''closed'', fl_closed := True\<rparr> else f1\<lparr>fl_tcp_state := ''closing''\<rparr>) c)
     else c)"

definition unblock :: "nat \<Rightarrow> collector \<Rightarrow> collector" where
  "unblock i c = (if disposable (co_flow c i) then c\<lparr>co_eviction_blocked := False\<rparr> else c)"

section \<open>The whole packet\<close>

definition on_flow :: "nat \<Rightarrow> (flow \<Rightarrow> flow go) \<Rightarrow> collector \<Rightarrow> collector go" where
  "on_flow i m c = gbind (m (co_flow c i)) (\<lambda>f. Ret (put_flow i f c))"

definition take_packet :: "ambient \<Rightarrow> int \<Rightarrow> packet \<Rightarrow> dns_record list \<Rightarrow> flow_key \<Rightarrow> nat \<Rightarrow> collector \<Rightarrow> collector go" where
  "take_packet A now p addresses key i c =
     gbind (count_flow A now p i c) (\<lambda>c.
     gbind (start_midstream A p i (upd_flow i (note_answer p) (note_link A p i (note_initiator A p i c)))) (\<lambda>c.
     gbind (parse_wire A p i c) (\<lambda>c.
     gbind (on_flow i (detect_app p) c) (\<lambda>c.
     gbind (on_flow i (app_details A p addresses) c) (\<lambda>c.
     gbind (observe_quic A p i c) (\<lambda>c.
     gbind (take_pending_socket A now p key i (label_wire i c)) (\<lambda>c.
     Ret (unblock i (end_tcp p i (take_pending_tls A now key i (name_flow A p i c)))))))))))"

definition packet_at :: "ambient \<Rightarrow> int \<Rightarrow> packet \<Rightarrow> collector \<Rightarrow> collector go" where
  "packet_at A now p0 c0 = (case join_fragment (am_clock A) p0 c0 of (p, c1) \<Rightarrow>
     gbind (packet_dns A now p c1) (\<lambda>(addresses, c2).
       if \<not> accept_port c2 (k_source p) (k_destination p) then Ret c2
       else let key = packet_key p in
         case find_flow A now p key (count_bytes p c2) of
           (None, c3) \<Rightarrow> Ret c3
         | (Some i, c3) \<Rightarrow> take_packet A now p addresses key i c3))"

end
