(* ===== verification/Collect_Event.thy ===== *)
theory Collect_Event imports Collect_Packet begin

text \<open>
  Events and the flow table: \<^verbatim>\<open>eventAt\<close>, \<^verbatim>\<open>tlsEvent\<close> and \<^verbatim>\<open>expire\<close> in \<^verbatim>\<open>internal/app/app_linux.go\<close>, \<^verbatim>\<open>connectResult\<close> in
  \<^verbatim>\<open>connect_result.go\<close>, \<^verbatim>\<open>echoSent\<close> in \<^verbatim>\<open>icmp.go\<close>, \<^verbatim>\<open>socketEvidence\<close> in \<^verbatim>\<open>socket_streams.go\<close>, \<^verbatim>\<open>recordDrop\<close> in
  \<^verbatim>\<open>drops_linux.go\<close>, and the periodic \<^verbatim>\<open>attachDNSHints\<close> and \<^verbatim>\<open>reconcileWildcards\<close>.
\<close>

section \<open>Connection results\<close>

record probe_event =
  ev_protocol :: u8
  ev_role :: string
  ev_operation :: string
  ev_app_bytes :: u64
  ev_pid :: int
  ev_start :: u64
  ev_process :: bytes
  ev_local :: addrport
  ev_remote :: addrport
  ev_tcp :: tcp_info
  ev_result :: int
  ev_connect_latency :: u32

text \<open>A connection that only the probe saw; \<open>None\<close> where the table is full.\<close>

definition probe_flow :: "ambient \<Rightarrow> flow_key \<Rightarrow> probe_event \<Rightarrow> collector \<Rightarrow> nat option \<times> collector" where
  "probe_flow A key e c = (let now = am_clock A; c1 = make_room A now c in
     if co_max_flows c1 \<le> table_size c1 then (None, c1)
     else case insert_flow key ((flow0 key)\<lparr>fl_initiator := ev_local e, fl_target := ev_remote e, fl_first := Some now, fl_last := Some now,
         fl_tcp_state := ''syn'', fl_direction := (if co_loopback c1 then ''local'' else ''outbound'')\<rparr>) c1 of
       (i, c2) \<Rightarrow> (Some i, c2))"

definition result_seen :: "int \<Rightarrow> probe_event \<Rightarrow> flow \<Rightarrow> flow" where
  "result_seen now e f = (let
     f1 = f\<lparr>fl_health := (fl_health f)\<lparr>h_connect_result := ev_result e, h_connect_latency := ev_connect_latency e\<rparr>\<rparr> in
     if ev_result e \<noteq> 0 then f1\<lparr>fl_end := FlowFailed, fl_closed := True, fl_last := Some now\<rparr> else f1)"

definition connect_result :: "ambient \<Rightarrow> probe_event \<Rightarrow> collector \<Rightarrow> collector" where
  "connect_result A e c = (if \<not> accept_port c (ev_local e) (ev_remote e) \<or> \<not> valid_endpoint (ev_local e) \<or> \<not> valid_endpoint (ev_remote e) then c
     else let key = key_for (ev_local e) (ev_remote e) 6; now = am_clock A;
       stale = (case flow_at key c of None \<Rightarrow> False | Some i \<Rightarrow> \<not> takes_events now (co_flow c i)) in
       if (stale \<or> flow_at key c = None) \<and> co_interface c \<noteq> 0 then c
       else let c1 = (case flow_at key c of None \<Rightarrow> c | Some i \<Rightarrow> if stale
             then c\<lparr>co_retired := co_retired c @ [i], co_flows := AList.delete key (co_flows c)\<rparr> else c) in
         case (case flow_at key c1 of Some i \<Rightarrow> (Some i, c1) | None \<Rightarrow> probe_flow A key e c1) of
           (None, c2) \<Rightarrow> c2
         | (Some i, c2) \<Rightarrow> unblock i (upd_flow i (result_seen now e) c2))"

section \<open>Socket state, pings and bytes\<close>

definition side_of :: "addrport \<Rightarrow> flow_key \<Rightarrow> nat" where
  "side_of local key = (if local = fk_b key then 1 else 0)"

definition event_tcp :: "int \<Rightarrow> probe_event \<Rightarrow> collector \<Rightarrow> collector" where
  "event_tcp now e c = (if ev_protocol e = 6 \<and> ev_tcp e \<noteq> tcp_info0 then
     (let key = key_for (ev_local e) (ev_remote e) 6 in case flow_at key c of
       Some i \<Rightarrow> upd_flow i (\<lambda>f. f\<lparr>fl_health := observe_kernel (side_of (ev_local e) (fl_key f)) (ev_tcp e) (fl_health f)\<rparr>) c
     | None \<Rightarrow> if length (co_pending_tcp c) < co_max_flows c \<or> map_of (co_pending_tcp c) key \<noteq> None then
           (let health = (case map_of (co_pending_tcp c) key of None \<Rightarrow> tcp_health0 | Some (health, seen) \<Rightarrow> health) in
            c\<lparr>co_pending_tcp := AList.update key (observe_kernel (side_of (ev_local e) key) (ev_tcp e) health, now) (co_pending_tcp c)\<rparr>)
         else c)
     else c)"

definition event_process :: "probe_event \<Rightarrow> participant" where
  "event_process e = \<lparr>pt_pid = ev_pid e, pt_start = ev_start e, pt_name = ev_process e\<rparr>"

definition echo_sent :: "ambient \<Rightarrow> probe_event \<Rightarrow> collector \<Rightarrow> collector" where
  "echo_sent A e c = (let key = (fst (ev_remote e), snd (ev_local e), ev_protocol e) in
     case echo_owner_for key c of (owner, ok) \<Rightarrow> if \<not> ok then c
       else let c1 = (case eo_flow owner of None \<Rightarrow> c | Some i \<Rightarrow> upd_flow i (\<lambda>f. f\<lparr>fl_client := event_process e\<rparr>) c) in
         c1\<lparr>co_echo_owners := AList.update key (owner\<lparr>eo_process := event_process e, eo_seen := am_clock A\<rparr>) (co_echo_owners c1)\<rparr>)"

text \<open>The bytes of a call, on its flow, waiting for one, or unmatched.\<close>

definition event_bytes :: "int \<Rightarrow> bool \<Rightarrow> probe_event \<Rightarrow> collector \<Rightarrow> collector" where
  "event_bytes now port_match e c = (let key = key_for (ev_local e) (ev_remote e) (ev_protocol e); actor = process_of (event_process e);
     send = (ev_operation e = ''send''); unmatched = c\<lparr>co_io_unmatched := co_io_unmatched c + ev_app_bytes e\<rparr> in
     if \<not> port_match then unmatched
     else case flow_at key c of
       Some i \<Rightarrow> if takes_events now (co_flow c i) then upd_flow i (add_flow_io actor send (ev_app_bytes e)) c else unmatched
     | None \<Rightarrow> if co_pending_io_count c < max_pending_io_samples then
           c\<lparr>co_pending_io := AList.update key (waiting_io key c
               @ [\<lparr>pi_process = actor, pi_send = send, pi_bytes = ev_app_bytes e, pi_seen = now\<rparr>]) (co_pending_io c),
             co_pending_io_count := co_pending_io_count c + 1\<rparr>
         else unmatched)"

text \<open>The totals of the process; \<open>None\<close> where there is no room for another process.\<close>

definition event_totals :: "int \<Rightarrow> probe_event \<Rightarrow> collector \<Rightarrow> collector option" where
  "event_totals now e c = (let actor = process_of (event_process e); send = (ev_operation e = ''send'') in
     if map_of (co_pid_io c) actor = None \<and> 0 < co_max_flows c \<and> co_max_flows c \<le> length (co_pid_io c) then None
     else let old = (case map_of (co_pid_io c) actor of None \<Rightarrow> \<lparr>px_name = [], px_io = io_bytes0\<rparr> | Some t \<Rightarrow> t);
       named = (if px_name old = [] then old\<lparr>px_name := ev_process e\<rparr> else old) in
       Some (c\<lparr>co_pid_io := AList.update actor (named\<lparr>px_io := count_io send (ev_app_bytes e) (px_io named)\<rparr>) (co_pid_io c),
         co_pid_seen := AList.update actor now (co_pid_seen c)\<rparr>))"

text \<open>\<open>None\<close> where the event ends here.\<close>

definition event_io :: "int \<Rightarrow> bool \<Rightarrow> probe_event \<Rightarrow> collector \<Rightarrow> bool \<times> collector" where
  "event_io now port_match e c = (if ev_app_bytes e = 0 then (True, c)
     else case event_totals now e c of
       None \<Rightarrow> (False, c\<lparr>co_io_unindexed := count_io (ev_operation e = ''send'') (ev_app_bytes e) (co_io_unindexed c)\<rparr>)
     | Some c1 \<Rightarrow> (True, event_bytes now port_match e c1))"

section \<open>Roles\<close>

definition is_unspecified :: "addr \<Rightarrow> bool" where
  "is_unspecified a \<longleftrightarrow> a = V4 [0, 0, 0, 0] \<or> a = V6 (replicate 16 0) []"

definition event_wildcard :: "int \<Rightarrow> probe_event \<Rightarrow> collector \<Rightarrow> collector" where
  "event_wildcard now e c = (let key = \<lparr>wk_remote = ev_remote e, wk_local_port = snd (ev_local e), wk_protocol = 17, wk_role = ev_role e\<rparr>;
     known = (case map_of (co_wildcards c) key of None \<Rightarrow> participant0 | Some p \<Rightarrow> p) in
     if co_max_flows c \<le> length (co_wildcards c) \<and> known = participant0 then c\<lparr>co_dropped_role := co_dropped_role c + 1\<rparr>
     else c\<lparr>co_wildcards := AList.update key (merge_participant known (event_process e)) (co_wildcards c),
       co_wildcard_seen := AList.update key now (co_wildcard_seen c)\<rparr>)"

definition event_roles :: "probe_event \<Rightarrow> flow_key \<Rightarrow> roles \<Rightarrow> roles" where
  "event_roles e key r = (let p = event_process e in
     if ev_protocol e = 17 then
       (if ev_local e = fk_a key then r\<lparr>ro_a_owner := merge_participant (ro_a_owner r) p\<rparr>
        else if ev_local e = fk_b key then r\<lparr>ro_b_owner := merge_participant (ro_b_owner r) p\<rparr> else r)
     else if ev_role e = ''out'' then roles0\<lparr>ro_client := p\<rparr>
     else r\<lparr>ro_server := p\<rparr>)"

definition role_direction :: "collector \<Rightarrow> probe_event \<Rightarrow> string" where
  "role_direction c e = (if co_loopback c then ''local'' else if ev_role e = ''out'' then ''outbound''
     else if ev_role e = ''in'' then ''inbound'' else '''')"

definition event_flow :: "collector \<Rightarrow> probe_event \<Rightarrow> flow_key \<Rightarrow> roles \<Rightarrow> flow \<Rightarrow> flow" where
  "event_flow c e key r f = (let out = (ev_role e = ''out''); udp = (ev_protocol e = 17); tcp = (ev_protocol e = 6);
     known = (if ev_role e = ''in'' then fl_server f else fl_client f) in
     if tcp \<and> 0 < pt_pid known \<and> process_of known \<noteq> process_of (event_process e) then f
     else let
       f1 = (if udp then f\<lparr>fl_client := roles_owner r (fl_initiator f) key, fl_server := roles_owner r (fl_target f) key\<rparr>
         else if out then f\<lparr>fl_client := ro_client r\<rparr> else f\<lparr>fl_server := ro_server r\<rparr>);
       f2 = (if udp then f1\<lparr>fl_client_wildcard := None, fl_server_wildcard := None\<rparr>
         else if out then f1\<lparr>fl_client_wildcard := None\<rparr> else f1\<lparr>fl_server_wildcard := None\<rparr>);
       f3 = (if fl_direction f2 = ''unknown'' \<and> tcp then f2\<lparr>fl_direction := role_direction c e\<rparr> else f2) in
       if tcp \<and> \<not> valid_endpoint (fl_initiator f3) then
         (if out then f3\<lparr>fl_initiator := ev_local e, fl_target := ev_remote e\<rparr> else f3\<lparr>fl_initiator := ev_remote e, fl_target := ev_local e\<rparr>)
       else f3)"

definition event_role :: "int \<Rightarrow> probe_event \<Rightarrow> collector \<Rightarrow> collector" where
  "event_role now e c = (if ev_protocol e = 17 \<and> is_unspecified (fst (ev_local e)) then event_wildcard now e c
     else let key = key_for (ev_local e) (ev_remote e) (ev_protocol e);
       old = (case map_of (co_roles c) key of None \<Rightarrow> roles0 | Some r \<Rightarrow> r); r = event_roles e key old;
       c1 = (if length (co_roles c) < co_max_flows c \<or> old \<noteq> roles0
         then c\<lparr>co_roles := AList.update key r (co_roles c), co_role_seen := AList.update key now (co_role_seen c)\<rparr>
         else c\<lparr>co_dropped_role := co_dropped_role c + 1\<rparr>) in
       case flow_at key c1 of None \<Rightarrow> c1
       | Some i \<Rightarrow> if takes_events now (co_flow c1 i) then upd_flow i (event_flow c1 e key r) c1 else c1)"

definition event_at :: "ambient \<Rightarrow> int \<Rightarrow> probe_event \<Rightarrow> collector \<Rightarrow> collector" where
  "event_at A now e0 c0 = (case nat_socket (ev_local e0) (ev_remote e0) (ev_protocol e0) c0 of (local, remote) \<Rightarrow>
     let e = e0\<lparr>ev_local := local, ev_remote := remote\<rparr>;
       c1 = (if ev_operation e = ''connect_result'' then connect_result A e c0 else c0);
       c2 = event_tcp now e c1; port_match = accept_port c2 local remote in
     if ev_operation e = ''retransmit'' \<or> ev_operation e = ''tcp_metric'' then c2
     else if \<not> port_match \<and> ev_app_bytes e = 0 then c2
     else if ev_protocol e = 1 \<or> ev_protocol e = 58 then echo_sent A e c2
     else case event_io now port_match e c2 of (go_on, c3) \<Rightarrow>
       if \<not> go_on then c3
       else if ev_protocol e = 6 \<and> (ev_operation e = ''send'' \<or> ev_operation e = ''recv'') then c3
       else if \<not> port_match then c3
       else event_role now e c3)"

section \<open>Evidence\<close>

definition tls_event_seen :: "ambient \<Rightarrow> tls_event \<Rightarrow> collector \<Rightarrow> collector \<times> bool" where
  "tls_event_seen A e c = (let key = key_for (te_local e) (te_remote e) 6 in
     if \<not> accept_port c (te_local e) (te_remote e) then (c, False)
     else case flow_at key c of
       None \<Rightarrow> (if length (co_pending_tls c) < 1024 then c\<lparr>co_pending_tls := AList.update key (e, am_clock A) (co_pending_tls c)\<rparr> else c, False)
     | Some i \<Rightarrow> if \<not> takes_events (am_clock A) (co_flow c i) then (c, False) else apply_tls_event A i e c)"

text \<open>\<^verbatim>\<open>datagramFlow\<close>: the first flow in the order of the map.\<close>

definition datagram_flow :: "(flow_key \<Rightarrow> nat) \<Rightarrow> u16 \<Rightarrow> addrport \<Rightarrow> collector \<Rightarrow> nat option" where
  "datagram_flow \<rho> port remote c = map_option snd (find (\<lambda>(key, i). fk_protocol key = 17
     \<and> (fk_a key = remote \<and> snd (fk_b key) = port \<or> fk_b key = remote \<and> snd (fk_a key) = port)) (ranged \<rho> (co_flows c)))"

definition socket_evidence :: "ambient \<Rightarrow> nat \<Rightarrow> collector \<Rightarrow> collector go" where
  "socket_evidence A s c = (let stream = co_sockets c s; remote = ss_remote stream in
     if \<not> accept_port c (ss_local stream) remote then Ret c
     else let protocol = (if ss_quic stream \<noteq> None then 17 else 6);
       local = (if is_unspecified (fst (ss_local stream)) then (unspecified (fst remote), snd (ss_local stream)) else ss_local stream);
       key = key_for local remote protocol in
       case (case flow_at key c of Some i \<Rightarrow> Some i
           | None \<Rightarrow> if is_unspecified (fst local) then datagram_flow (am_flows A) (snd local) remote c else None) of
         Some i \<Rightarrow> attach_socket_domain A i s c
       | None \<Rightarrow> Ret (if int (length (co_pending_socket c)) < max_pending_io_samples
           then c\<lparr>co_pending_socket := AList.update key (s, am_clock A) (co_pending_socket c)\<rparr> else c))"

section \<open>Kernel drops\<close>

record kernel_drop =
  kd_source :: addrport
  kd_target :: addrport
  kd_protocol :: u8
  kd_reason :: bytes
  kd_count :: u64

definition drop_flow :: "int \<Rightarrow> kernel_drop \<Rightarrow> flow_key \<Rightarrow> roles \<Rightarrow> flow" where
  "drop_flow clock d key owners = (flow0 key)\<lparr>fl_initiator := kd_source d, fl_target := kd_target d, fl_direction := ''unknown'',
     fl_first := Some clock, fl_last := Some clock, fl_client := ro_client owners, fl_server := ro_server owners,
     fl_tcp_state := (if kd_protocol d = 6 then ''midstream'' else '''')\<rparr>"

definition count_drop :: "int \<Rightarrow> kernel_drop \<Rightarrow> flow \<Rightarrow> flow" where
  "count_drop clock d f = (let reasons = (case fl_drops f of None \<Rightarrow> [] | Some m \<Rightarrow> m);
     n = (case map_of reasons (kd_reason d) of None \<Rightarrow> 0 | Some n \<Rightarrow> n) in
     f\<lparr>fl_drops := Some (AList.update (kd_reason d) (n + kd_count d) reasons), fl_last := Some clock\<rparr>)"

definition record_drop :: "ambient \<Rightarrow> kernel_drop \<Rightarrow> bool \<Rightarrow> collector \<Rightarrow> collector" where
  "record_drop A d create c = (let key = key_for (kd_source d) (kd_target d) (kd_protocol d) in
     if \<not> valid_endpoint (kd_source d) \<or> \<not> valid_endpoint (kd_target d) \<or> \<not> accept_port c (kd_source d) (kd_target d) then c
     else case flow_at key c of
       Some i \<Rightarrow> upd_flow i (count_drop (am_clock A) d) c
     | None \<Rightarrow> if \<not> create then c
       else (case map_of (co_roles c) key of None \<Rightarrow> c
         | Some owners \<Rightarrow> if co_max_flows c \<le> table_size c then c
           else (case insert_flow key (drop_flow (am_clock A) d key owners) c of
             (i, c1) \<Rightarrow> upd_flow i (count_drop (am_clock A) d) (unblock i c1))))"

section \<open>Names from DNS answers\<close>

definition dns_peers :: "flow \<Rightarrow> addrport list" where
  "dns_peers f = (if valid_endpoint (fl_initiator f) then [fl_target f] else [fk_a (fl_key f), fk_b (fl_key f)])"

text \<open>The zero time, in nanoseconds of the epoch.\<close>

definition zero_time :: int where
  "zero_time = - 62135596800 * second"

definition hint_wanted :: "streams \<Rightarrow> flow \<Rightarrow> bool" where
  "hint_wanted h f \<longleftrightarrow> fl_dns_domain f = None \<and> \<not> named_ref h (fl_domain f)
     \<and> (fk_protocol (fl_key f) = 6 \<or> fk_protocol (fl_key f) = 17 \<and> (fl_app_protocol f = [] \<or> fl_app_protocol f = lit ''QUIC''))"

definition peer_name :: "dns_cache \<Rightarrow> flow \<Rightarrow> bytes" where
  "peer_name cache f = (let start = (case fl_first f of None \<Rightarrow> zero_time | Some t \<Rightarrow> t); later = (\<not> fl_syn_seen f \<and> fl_quic f = None) in
     case find (\<lambda>name. name \<noteq> []) (map (\<lambda>peer. dns_lookup cache (fst peer) start later) (dns_peers f)) of
       None \<Rightarrow> [] | Some name \<Rightarrow> name)"

definition attach_hint :: "ambient \<Rightarrow> dns_cache \<Rightarrow> nat \<Rightarrow> collector \<Rightarrow> collector" where
  "attach_hint A cache i c = (let f = co_flow c i; name = peer_name cache f in
     if \<not> hint_wanted (co_streams c) f \<or> name = [] then c
     else (case new_stream_in (new_dns_hint name) c of
       (r, c1) \<Rightarrow> choose_at A i (upd_flow i (\<lambda>f. f\<lparr>fl_dns_domain := Some r\<rparr>) c1)))"

definition attach_dns_hints :: "ambient \<Rightarrow> collector \<Rightarrow> collector" where
  "attach_dns_hints A c = (case co_dns c of None \<Rightarrow> c
     | Some cache \<Rightarrow> fold (attach_hint A cache) (map snd (ranged (am_flows A) (co_flows c)) @ co_retired c) c)"

section \<open>Owners of sockets without a local address\<close>

definition socket_end :: "addrport \<Rightarrow> addrport \<Rightarrow> u8 \<Rightarrow> wildcard_key" where
  "socket_end remote local protocol = \<lparr>wk_remote = remote, wk_local_port = snd local, wk_protocol = protocol, wk_role = ''''\<rparr>"

text \<open>The flows of the table that a socket's key can mean.\<close>

definition socket_flows :: "(flow_key \<Rightarrow> nat) \<Rightarrow> wildcard_key \<Rightarrow> collector \<Rightarrow> nat list" where
  "socket_flows \<rho> key c = filter (\<lambda>i. let k = fl_key (co_flow c i); wanted = key\<lparr>wk_role := ''''\<rparr> in
     socket_end (fk_a k) (fk_b k) (fk_protocol k) = wanted \<or> socket_end (fk_b k) (fk_a k) (fk_protocol k) = wanted)
     (map snd (ranged \<rho> (co_flows c)))"

definition forget_wildcard :: "wildcard_key \<Rightarrow> flow \<Rightarrow> flow" where
  "forget_wildcard key f = (let
     f1 = (if fl_client_wildcard f = Some key then f\<lparr>fl_client := ambiguous, fl_client_wildcard := None\<rparr> else f) in
     if fl_server_wildcard f1 = Some key then f1\<lparr>fl_server := ambiguous, fl_server_wildcard := None\<rparr> else f1)"

definition match_wildcard :: "wildcard_key \<Rightarrow> participant \<Rightarrow> flow \<Rightarrow> flow" where
  "match_wildcard key p f = (if wk_remote key = fl_initiator f then
       (if pt_pid (fl_server f) = 0 \<or> fl_server_wildcard f \<noteq> None
        then f\<lparr>fl_server := merge_participant (fl_server f) p, fl_server_wildcard := Some key\<rparr> else f)
     else if wk_remote key = fl_target f then
       (if pt_pid (fl_client f) = 0 \<or> fl_client_wildcard f \<noteq> None
        then f\<lparr>fl_client := merge_participant (fl_client f) p, fl_client_wildcard := Some key\<rparr> else f)
     else f)"

definition reconcile_one :: "(flow_key \<Rightarrow> nat) \<Rightarrow> wildcard_key \<times> participant \<Rightarrow> collector \<Rightarrow> collector" where
  "reconcile_one \<rho> entry c = (case entry of (key, p) \<Rightarrow> let js = socket_flows \<rho> key c in
     if 1 < length js then fold (\<lambda>j c. upd_flow j (forget_wildcard key) c) js c
     else if length js = 1 \<and> 1 \<le> pt_pid p then upd_flow (hd js) (match_wildcard key p) c
     else c)"

definition reconcile_wildcards :: "(flow_key \<Rightarrow> nat) \<Rightarrow> (wildcard_key \<Rightarrow> nat) \<Rightarrow> collector \<Rightarrow> collector" where
  "reconcile_wildcards \<rho> \<omega> c = fold (reconcile_one \<rho>) (ranged \<omega> (co_wildcards c)) c"

section \<open>Expiry\<close>

definition kept_since :: "int \<Rightarrow> int \<Rightarrow> gotime \<Rightarrow> bool" where
  "kept_since now limit seen \<longleftrightarrow> \<not> limit < time_sub now seen"

definition all_flows :: "collector \<Rightarrow> nat list" where
  "all_flows c = map snd (co_flows c) @ co_retired c"

definition expire_waiting :: "int \<Rightarrow> collector \<Rightarrow> collector" where
  "expire_waiting now c0 = (let c = expire_pending_io now False c0 in c\<lparr>
     co_pending_tcp := filter (\<lambda>(key, health, seen). kept_since now (2 * second) (Some seen)) (co_pending_tcp c),
     co_pending_tls := filter (\<lambda>(key, event, seen). kept_since now (2 * second) (Some seen)) (co_pending_tls c),
     co_pending_socket := filter (\<lambda>(key, s, seen). kept_since now pending_socket_ttl (Some seen)) (co_pending_socket c),
     co_fragments := filter (\<lambda>(key, h). kept_since now fragment_ttl (Some (fh_seen h))) (co_fragments c),
     co_echo_owners := filter (\<lambda>(key, owner). kept_since now echo_owner_idle (Some (eo_seen owner))) (co_echo_owners c),
     co_attempts := filter (\<lambda>(source, a). kept_since now attempt_idle (at_last a)) (co_attempts c)\<rparr>)"

definition expire_process :: "process_id \<Rightarrow> collector \<Rightarrow> collector" where
  "expire_process actor c = (let old = (case map_of (co_pid_io c) actor of None \<Rightarrow> io_bytes0 | Some t \<Rightarrow> px_io t); gone = co_expired_pid_io c in
     c\<lparr>co_expired_pid_io := gone\<lparr>io_rx := io_rx gone + io_rx old, io_tx := io_tx gone + io_tx old\<rparr>,
       co_expired_pid_count := co_expired_pid_count c + 1, co_pid_io := AList.delete actor (co_pid_io c),
       co_pid_seen := AList.delete actor (co_pid_seen c)\<rparr>)"

definition forget_io :: "process_id list \<Rightarrow> nat \<Rightarrow> collector \<Rightarrow> collector" where
  "forget_io ids i c = upd_flow i (\<lambda>f. f\<lparr>fl_io := filter (\<lambda>(actor, io). actor \<notin> set ids) (fl_io f)\<rparr>) c"

definition expire_processes :: "int \<Rightarrow> collector \<Rightarrow> collector" where
  "expire_processes now c = (let ids = map fst (filter (\<lambda>(actor, seen). \<not> kept_since now (300 * second) (Some seen)) (co_pid_seen c));
     c1 = fold expire_process ids c in
     if length ids = 0 then c1 else fold (forget_io ids) (all_flows c1) c1)"

definition tick_wire :: "int \<Rightarrow> nat \<Rightarrow> collector \<Rightarrow> collector" where
  "tick_wire now i c = (case fl_wire_domain (co_flow c i) of None \<Rightarrow> c
     | Some w \<Rightarrow> c\<lparr>co_streams := put_stream w (stream_tick now (st_at (co_streams c) w)) (co_streams c)\<rparr>)"

definition tick_nat :: "nat \<Rightarrow> collector \<Rightarrow> collector" where
  "tick_nat i c = (let f = co_flow c i in case (fl_nat f, co_nat c, fl_last f) of
       (Some r, Some t, Some stamp) \<Rightarrow> if ne_seen (nt_at t r) < stamp
         then c\<lparr>co_nat := Some (t\<lparr>nt_at := (nt_at t)(r := (nt_at t r)\<lparr>ne_seen := stamp\<rparr>)\<rparr>)\<rparr> else c
     | _ \<Rightarrow> c)"

definition tick_quic :: "ambient \<Rightarrow> int \<Rightarrow> nat \<Rightarrow> collector \<Rightarrow> collector" where
  "tick_quic A now i c = (case fl_quic (co_flow c i) of None \<Rightarrow> c
     | Some t0 \<Rightarrow> let t = quic_tick now t0; c1 = upd_flow i (\<lambda>f. f\<lparr>fl_quic := Some t\<rparr>) c in
       case fl_quic_domain (co_flow c1 i) of None \<Rightarrow> c1
       | Some d \<Rightarrow> if quic_failure t \<noteq> None \<and> e_parse_error (evidence_at (co_streams c1) d) = None
           then choose_at A i (set_quic_domain i (unknown_quic (quic_failure t)) c1) else c1)"

definition idle :: "int \<Rightarrow> flow \<Rightarrow> bool" where
  "idle now f \<longleftrightarrow> \<not> kept_since now (if fl_closed f then 60 * second else 300 * second) (fl_last f)"

definition expire_live :: "ambient \<Rightarrow> int \<Rightarrow> flow_key \<times> nat \<Rightarrow> collector \<Rightarrow> collector" where
  "expire_live A now entry c = (case entry of (key, i) \<Rightarrow>
     let c1 = tick_quic A now i (tick_nat i (tick_wire now i c)) in
     if idle now (co_flow c1 i) then (let c2 = expire_flow i now c1 in c2\<lparr>co_flows := AList.delete key (co_flows c2)\<rparr>) else c1)"

fun expire_retired :: "int \<Rightarrow> nat list \<Rightarrow> nat list \<Rightarrow> collector \<Rightarrow> collector" where
  "expire_retired now [] retained c = c\<lparr>co_retired := retained\<rparr>"
| "expire_retired now (i # is) retained c = (let c1 = tick_wire now i c in
     if idle now (co_flow c1 i) then expire_retired now is retained (expire_flow i now c1) else expire_retired now is (retained @ [i]) c1)"

definition expire_roles :: "int \<Rightarrow> collector \<Rightarrow> collector" where
  "expire_roles now c = (c\<lparr>co_roles := filter (\<lambda>(key, r). \<not> (case map_of (co_role_seen c) key of None \<Rightarrow> False | Some t \<Rightarrow> \<not> kept_since now (60 * second) (Some t))) (co_roles c),
       co_role_seen := filter (\<lambda>(key, t). kept_since now (60 * second) (Some t)) (co_role_seen c),
       co_wildcards := filter (\<lambda>(key, p). \<not> (case map_of (co_wildcard_seen c) key of None \<Rightarrow> False | Some t \<Rightarrow> \<not> kept_since now (60 * second) (Some t))) (co_wildcards c),
       co_wildcard_seen := filter (\<lambda>(key, t). kept_since now (60 * second) (Some t)) (co_wildcard_seen c)\<rparr>)"

definition collector_expire :: "ambient \<Rightarrow> int \<Rightarrow> collector \<Rightarrow> collector" where
  "collector_expire A now c = (let c1 = expire_processes now (expire_waiting now c);
     c2 = fold (expire_live A now) (ranged (am_flows A) (co_flows c1)) c1 in
     expire_roles now (expire_retired now (co_retired c2) [] c2))"

end
