(* ===== verification/Flow_Table.thy ===== *)
theory Flow_Table imports Collect_Event begin

text \<open>
  The invariants of the flow table.

  \<open>table_ok\<close>: a key has one flow, a flow is in one place, the table is within its bound, and the flag that stops the search for
  flows to evict hides none (outside \<open>X\<close>, the flow an operation is at).  \<open>books_ok\<close>: every byte of the interface is in
  a flow, in the total of the expired ones, or in the total of the packets that found no room.

  \<open>same_books i\<close> relates two states between which at most flow \<open>i\<close> became disposable and nothing else of this changed;
  most steps of an operation are such.
\<close>

section \<open>Invariants\<close>

definition attempts_ok :: "collector \<Rightarrow> bool" where
  "attempts_ok c \<longleftrightarrow> map_ok (co_max_flows c) (\<lambda>_. summary_ok) (co_attempts c)"

definition table_ok :: "nat set \<Rightarrow> collector \<Rightarrow> bool" where
  "table_ok X c \<longleftrightarrow> distinct (map fst (co_flows c)) \<and> distinct (all_flows c) \<and> (\<forall>i\<in>set (all_flows c). i < co_next c)
     \<and> (\<forall>(k, i)\<in>set (co_flows c). fl_key (co_flow c i) = k) \<and> table_size c \<le> co_max_flows c
     \<and> (co_eviction_blocked c \<longrightarrow> (\<forall>(k, i)\<in>set (co_flows c). i \<notin> X \<longrightarrow> \<not> disposable (co_flow c i))) \<and> attempts_ok c"

definition live_bytes :: "(flow \<Rightarrow> u64) \<Rightarrow> collector \<Rightarrow> u64" where
  "live_bytes bytes_of c = (\<Sum>i\<leftarrow>all_flows c. bytes_of (co_flow c i))"

text \<open>The books of a state in which \<open>r\<close> received and \<open>t\<close> sent bytes were counted and not yet put anywhere.\<close>

definition books_owe :: "u64 \<Rightarrow> u64 \<Rightarrow> collector \<Rightarrow> bool" where
  "books_owe r t c \<longleftrightarrow> co_bytes c = co_rx_bytes c + co_tx_bytes c
     \<and> co_rx_bytes c = live_bytes fl_rx c + co_expired_rx c + co_unindexed_rx c + r
     \<and> co_tx_bytes c = live_bytes fl_tx c + co_expired_tx c + co_unindexed_tx c + t"

abbreviation books_ok :: "collector \<Rightarrow> bool" where
  "books_ok \<equiv> books_owe 0 0"

definition same_books :: "nat \<Rightarrow> collector \<Rightarrow> collector \<Rightarrow> bool" where
  "same_books i c c' \<longleftrightarrow> co_flows c' = co_flows c \<and> co_retired c' = co_retired c \<and> co_next c' = co_next c \<and> co_max_flows c' = co_max_flows c
     \<and> co_eviction_blocked c' = co_eviction_blocked c \<and> co_bytes c' = co_bytes c \<and> co_rx_bytes c' = co_rx_bytes c \<and> co_tx_bytes c' = co_tx_bytes c
     \<and> co_expired_rx c' = co_expired_rx c \<and> co_expired_tx c' = co_expired_tx c \<and> co_unindexed_rx c' = co_unindexed_rx c
     \<and> co_unindexed_tx c' = co_unindexed_tx c
     \<and> (\<forall>j. fl_key (co_flow c' j) = fl_key (co_flow c j) \<and> fl_rx (co_flow c' j) = fl_rx (co_flow c j) \<and> fl_tx (co_flow c' j) = fl_tx (co_flow c j)
         \<and> (j \<noteq> i \<longrightarrow> disposable (co_flow c' j) = disposable (co_flow c j)))
     \<and> (attempts_ok c \<longrightarrow> attempts_ok c')"

lemma same_books_refl [simp]: "same_books i c c"
  by (simp add: same_books_def)

lemma same_books_trans [trans]: "same_books i c d \<Longrightarrow> same_books i d e \<Longrightarrow> same_books i c e"
  unfolding same_books_def by auto

lemma all_flows_frame: "co_flows c' = co_flows c \<Longrightarrow> co_retired c' = co_retired c \<Longrightarrow> all_flows c' = all_flows c"
  by (simp add: all_flows_def)

lemma live_bytes_frame:
  assumes "all_flows c' = all_flows c" and "\<And>i. i \<in> set (all_flows c) \<Longrightarrow> bytes_of (co_flow c' i) = bytes_of (co_flow c i)"
  shows "live_bytes bytes_of c' = live_bytes bytes_of c"
  using assms by (simp add: live_bytes_def cong: map_cong)

lemma same_books_table:
  assumes "same_books i c c'" and "table_ok X c" and "i \<in> X"
  shows "table_ok X c'"
proof -
  have "all_flows c' = all_flows c" using assms(1) by (intro all_flows_frame) (simp_all add: same_books_def)
  then show ?thesis using assms unfolding same_books_def table_ok_def by auto
qed

lemma table_ok_mono: "table_ok X c \<Longrightarrow> X \<subseteq> Y \<Longrightarrow> table_ok Y c"
  unfolding table_ok_def by blast

lemma same_everywhere:
  assumes "\<And>i. same_books i c c'" and "table_ok {} c"
  shows "table_ok {} c'"
proof -
  have "table_ok {i} c'" for i using assms(2) by (intro same_books_table [OF assms(1)] table_ok_mono [OF assms(2)]) simp_all
  from this [of 0] this [of 1] show ?thesis unfolding table_ok_def by auto
qed

lemma same_books_books:
  assumes "same_books i c c'" and "books_owe r t c"
  shows "books_owe r t c'"
proof -
  have a: "all_flows c' = all_flows c" using assms(1) by (intro all_flows_frame) (simp_all add: same_books_def)
  have "live_bytes fl_rx c' = live_bytes fl_rx c" "live_bytes fl_tx c' = live_bytes fl_tx c"
    by (rule live_bytes_frame [OF a]; use assms(1) in \<open>simp add: same_books_def\<close>)+
  then show ?thesis using assms unfolding same_books_def books_owe_def by simp
qed

text \<open>Updates of one flow.\<close>

lemma put_flow_simps [simp]:
  "co_flow (put_flow i f c) = (co_flow c)(i := f)" "co_flows (put_flow i f c) = co_flows c" "co_retired (put_flow i f c) = co_retired c"
  "co_next (put_flow i f c) = co_next c" "co_max_flows (put_flow i f c) = co_max_flows c"
  "co_eviction_blocked (put_flow i f c) = co_eviction_blocked c" "co_bytes (put_flow i f c) = co_bytes c"
  "co_rx_bytes (put_flow i f c) = co_rx_bytes c" "co_tx_bytes (put_flow i f c) = co_tx_bytes c"
  "co_expired_rx (put_flow i f c) = co_expired_rx c" "co_expired_tx (put_flow i f c) = co_expired_tx c"
  "co_unindexed_rx (put_flow i f c) = co_unindexed_rx c" "co_unindexed_tx (put_flow i f c) = co_unindexed_tx c"
  "co_attempts (put_flow i f c) = co_attempts c" "co_streams (put_flow i f c) = co_streams c" "co_nat (put_flow i f c) = co_nat c"
  "co_pending_io (put_flow i f c) = co_pending_io c" "co_pending_socket (put_flow i f c) = co_pending_socket c"
  "co_sockets (put_flow i f c) = co_sockets c" "co_roles (put_flow i f c) = co_roles c" "co_pending_tcp (put_flow i f c) = co_pending_tcp c"
  "co_fragments (put_flow i f c) = co_fragments c" "co_loopback (put_flow i f c) = co_loopback c"
  "co_echo_owners (put_flow i f c) = co_echo_owners c" "co_pending_io_count (put_flow i f c) = co_pending_io_count c"
  "co_pending_tls (put_flow i f c) = co_pending_tls c" "co_filter_port (put_flow i f c) = co_filter_port c"
  by (simp_all add: put_flow_def)

lemma attempts_frame: "co_max_flows c' = co_max_flows c \<Longrightarrow> co_attempts c' = co_attempts c \<Longrightarrow> attempts_ok c' = attempts_ok c"
  by (simp add: attempts_ok_def)

lemma put_same:
  assumes "fl_key f = fl_key (co_flow c j)" "fl_rx f = fl_rx (co_flow c j)" "fl_tx f = fl_tx (co_flow c j)"
    and "j \<noteq> i \<Longrightarrow> disposable f = disposable (co_flow c j)"
  shows "same_books i c (put_flow j f c)"
  using assms by (auto simp: same_books_def attempts_ok_def)

section \<open>Steps that keep the books\<close>

named_theorems same "steps that keep the books"

lemma same_field [same]:
  "same_books i c (c\<lparr>co_streams := h\<rparr>)" "same_books i c (c\<lparr>co_nat := t\<rparr>)" "same_books i c (c\<lparr>co_pending_tls := a\<rparr>)"
  "same_books i c (c\<lparr>co_pending_socket := b\<rparr>)" "same_books i c (c\<lparr>co_pending_tcp := d\<rparr>)" "same_books i c (c\<lparr>co_pending_io := e\<rparr>)"
  "same_books i c (c\<lparr>co_echo_owners := g\<rparr>)" "same_books i c (c\<lparr>co_dns := n\<rparr>)" "same_books i c (c\<lparr>co_truncated := m\<rparr>)"
  "same_books i c (c\<lparr>co_io_unmatched := u, co_pending_io_count := v\<rparr>)" "same_books i c (c\<lparr>co_pending_io_count := v\<rparr>)"
  "same_books i c (c\<lparr>co_fragments := x\<rparr>)"
  by (simp_all add: same_books_def attempts_ok_def)

lemma same_if [same]: "same_books i c x \<Longrightarrow> same_books i c y \<Longrightarrow> same_books i c (if b then x else y)"
  by simp

lemma same_fold:
  assumes "\<And>x c. x \<in> set xs \<Longrightarrow> same_books i c (g x c)"
  shows "same_books i c (fold g xs c)"
  using assms by (induction xs arbitrary: c) (auto intro: same_books_trans)

lemma note_attempt_frame:
  "co_max_flows (note_attempt f refused now c) = co_max_flows c" "co_flows (note_attempt f refused now c) = co_flows c"
  "co_flow (note_attempt f refused now c) = co_flow c" "co_retired (note_attempt f refused now c) = co_retired c"
  "co_streams (note_attempt f refused now c) = co_streams c"
  by (simp_all add: note_attempt_def Let_def split: option.split)

lemma note_attempt_ok: "attempts_ok c \<Longrightarrow> attempts_ok (note_attempt f refused now c)"
  unfolding attempts_ok_def note_attempt_frame
  by (auto simp: note_attempt_def Let_def count_attempt_ok intro!: map_ok_put split: option.split dest: map_ok_get)

lemma same_note_attempt [same]: "same_books i c (note_attempt f refused now c)"
proof -
  have "co_next (note_attempt f refused now c) = co_next c" "co_eviction_blocked (note_attempt f refused now c) = co_eviction_blocked c"
    "co_bytes (note_attempt f refused now c) = co_bytes c" "co_rx_bytes (note_attempt f refused now c) = co_rx_bytes c"
    "co_tx_bytes (note_attempt f refused now c) = co_tx_bytes c" "co_expired_rx (note_attempt f refused now c) = co_expired_rx c"
    "co_expired_tx (note_attempt f refused now c) = co_expired_tx c" "co_unindexed_rx (note_attempt f refused now c) = co_unindexed_rx c"
    "co_unindexed_tx (note_attempt f refused now c) = co_unindexed_tx c"
    by (simp_all add: note_attempt_def Let_def split: option.split)
  then show ?thesis by (simp add: same_books_def note_attempt_frame note_attempt_ok)
qed

text \<open>Choosing a name changes the name of the flow and nothing else of it.\<close>

definition unnamed :: "flow \<Rightarrow> flow" where
  "unnamed f = f\<lparr>fl_domain := None, fl_domain_conflict := False\<rparr>"

lemma unnamed_update [simp]: "unnamed (f\<lparr>fl_domain := d\<rparr>) = unnamed f" "unnamed (f\<lparr>fl_domain_conflict := b\<rparr>) = unnamed f"
  by (simp_all add: unnamed_def)

lemma unnamed_pick [simp]: "unnamed (snd (pick_domain f h)) = unnamed f"
  unfolding pick_domain_def Let_def by (auto split: prod.split)

lemma unnamed_mark [simp]: "unnamed (snd (mark_encrypted kind f h)) = unnamed f"
  by (auto simp: mark_encrypted_def split: option.split prod.split)

lemma unnamed_choose [simp]: "unnamed (snd (choose_domain \<Gamma> doh f h)) = unnamed f"
proof -
  obtain h' f' where p: "pick_domain f h = (h', f')" by fastforce
  then have "unnamed f' = unnamed f" using unnamed_pick [of f h] by simp
  then show ?thesis by (simp add: choose_domain_def p split: option.split)
qed

lemma unnamed_same:
  assumes "unnamed f = unnamed g"
  shows "fl_key f = fl_key g" "fl_rx f = fl_rx g" "fl_tx f = fl_tx g" "disposable f = disposable g"
proof -
  have u: "fl_key (unnamed f) = fl_key f" "fl_rx (unnamed f) = fl_rx f" "fl_tx (unnamed f) = fl_tx f" "disposable (unnamed f) = disposable f" for f
    by (simp_all add: unnamed_def disposable_def)
  show "fl_key f = fl_key g" "fl_rx f = fl_rx g" "fl_tx f = fl_tx g" "disposable f = disposable g"
    using assms by (metis u(1), metis u(2), metis u(3), metis u(4))
qed

lemma same_choose [same]: "same_books i c (choose_at A j c)"
proof -
  obtain h f where f: "choose_domain (am_env A) (am_doh A) (co_flow c j) (co_streams c) = (h, f)" by fastforce
  then have "unnamed f = unnamed (co_flow c j)"
    using unnamed_choose [of "am_env A" "am_doh A" "co_flow c j" "co_streams c"] by simp
  note u = unnamed_same [OF this]
  have "same_books i (c\<lparr>co_streams := h\<rparr>) (put_flow j f (c\<lparr>co_streams := h\<rparr>))" by (intro put_same) (simp_all add: u)
  then show ?thesis using same_books_trans [OF same_field(1)] f by (simp add: choose_at_def)
qed

text \<open>The smaller steps; \<open>i\<close> is the flow they are at where they change what \<open>disposable\<close> reads.\<close>

lemma same_upd:
  assumes "\<And>f. fl_key (g f) = fl_key f \<and> fl_rx (g f) = fl_rx f \<and> fl_tx (g f) = fl_tx f \<and> (j \<noteq> i \<longrightarrow> disposable (g f) = disposable f)"
  shows "same_books i c (upd_flow j g c)"
  using assms by (intro put_same) auto

lemma same_new_stream: "new_stream_in s c = (r, c') \<Longrightarrow> same_books i c c'"
  by (auto simp: new_stream_in_def intro: same split: prod.splits)

lemma same_set_quic [same]: "same_books i c (set_quic_domain j s c)"
proof -
  obtain r c' where n: "new_stream_in s c = (r, c')" by fastforce
  have "same_books i c' (upd_flow j (\<lambda>f. f\<lparr>fl_quic_domain := Some r\<rparr>) c')" by (intro same_upd) (simp add: disposable_def)
  then show ?thesis using same_books_trans [OF same_new_stream [OF n]] by (simp add: set_quic_domain_def n)
qed

lemma same_take_tcp [same]: "same_books i c (take_pending_tcp now key j c)"
proof -
  have "same_books i c (upd_flow j (\<lambda>f. f\<lparr>fl_health := (fl_health f)\<lparr>h_kernel := h_kernel health\<rparr>\<rparr>) c)" for health
    by (intro same_upd) (simp add: disposable_def)
  then show ?thesis
    by (auto simp: take_pending_tcp_def Let_def intro: same same_books_trans [OF _ same_field(5)] split: option.split)
qed

lemma same_io: "same_books i c (upd_flow j (add_flow_io a b n) c)"
  by (intro same_upd) (simp add: add_flow_io_def disposable_def)

lemma same_drop_sample [same]: "same_books i c (drop_sample sample c)"
  by (simp add: drop_sample_def same)

lemma same_attach_sample [same]: "same_books i c (attach_sample clock j sample c)"
  by (auto simp: attach_sample_def intro: same same_books_trans [OF same_io])

lemma same_attach [same]: "same_books i c (attach_pending_io clock key j c)"
  unfolding attach_pending_io_def Let_def by (rule same_books_trans [OF same_fold same_field(6)]) (rule same)

lemma same_flush: "same_books i c (flush_pending_key key c)"
  unfolding flush_pending_key_def Let_def by (rule same_books_trans [OF same_fold same_field(6)]) (rule same)

lemma same_link_one [same]: "same_books i c (link_one clock entry ne captured socket c)"
proof (cases "flow_at captured c")
  case (Some j)
  have nat_: "same_books i c (upd_flow j (\<lambda>f. f\<lparr>fl_nat := Some entry\<rparr>) c)" by (intro same_upd) (simp add: disposable_def)
  have "same_books i d (upd_flow j (link_roles e k r) d)" for e k r d
    by (intro same_upd) (simp add: link_roles_def Let_def disposable_def)
  then have roles_: "same_books i d (case map_of (co_roles d) socket of None \<Rightarrow> d | Some r \<Rightarrow> upd_flow j (link_roles (ne_entry ne) socket r) d)" for d
    by (simp split: option.split)
  show ?thesis
    unfolding link_one_def Some option.case Let_def
    by (intro same_if same_books_refl nat_ same_books_trans [OF same_books_trans [OF nat_ roles_] same_attach])
qed (simp add: link_one_def)

lemma same_nat_flow [same]: "same_books i c (nat_flow clock j protocol src dst c)"
proof -
  have "same_books i c (link_nat clock entry c)" for entry
    by (auto simp: link_nat_def Let_def intro: same same_books_trans [OF same_link_one] split: option.split)
  then show ?thesis by (auto simp: nat_flow_def intro: same split: option.split)
qed

lemma same_tls [same]: "same_books i c (fst (apply_tls_event A j e c))"
proof -
  have conflict: "same_books i c (put_flow j ((co_flow c j)\<lparr>fl_domain_conflict := True\<rparr>) c)" by (intro put_same) (simp_all add: disposable_def)
  have "same_books i c (if fl_process_domain (co_flow c j) = None then (case new_stream_in (new_openssl_sni (te_hostname e)) c of
             (r, c') \<Rightarrow> upd_flow j (\<lambda>f. f\<lparr>fl_process_domain := Some r\<rparr>) c') else c)" (is "same_books i c ?c1")
  proof -
    obtain r c' where n: "new_stream_in (new_openssl_sni (te_hostname e)) c = (r, c')" by fastforce
    have "same_books i c' (upd_flow j (\<lambda>f. f\<lparr>fl_process_domain := Some r\<rparr>) c')" by (intro same_upd) (simp add: disposable_def)
    then show ?thesis using same_books_trans [OF same_new_stream [OF n]] by (simp add: n)
  qed
  note c1 = this
  have actors: "same_books i d (upd_flow j (\<lambda>f. f\<lparr>fl_tls_actors := AList.update (process_of a) a (fl_tls_actors f)\<rparr>) d)" for a d
    by (intro same_upd) (simp add: disposable_def)
  have app: "same_books i d (upd_flow j (\<lambda>f. f\<lparr>fl_app_protocol := lit ''TLS'', fl_app_source := te_source e\<rparr>) d)" for d
    by (intro same_upd) (simp add: disposable_def)
  show ?thesis
    unfolding apply_tls_event_def Let_def if_distrib [of fst] fst_conv
    by (intro same_if conflict app same_choose actors same_books_refl same_books_trans [OF c1]
        same_books_trans [OF same_books_trans [OF c1 same_if [OF actors same_books_refl]] same_books_trans [OF same_choose same_if [OF app same_books_refl]]])
qed

text \<open>Steps that may panic.\<close>

definition gsame :: "nat \<Rightarrow> collector \<Rightarrow> collector go \<Rightarrow> bool" where
  "gsame i c m \<longleftrightarrow> (\<forall>c'. m = Ret c' \<longrightarrow> same_books i c c')"

lemma gsame_Ret [simp]: "gsame i c (Ret c') = same_books i c c'"
  by (simp add: gsame_def)

lemma gsame_Panic [simp]: "gsame i c Panic"
  by (simp add: gsame_def)

lemma gsame_bind: "gsame i c m \<Longrightarrow> (\<And>d. gsame i d (f d)) \<Longrightarrow> gsame i c (gbind m f)"
  by (auto simp: gsame_def gbind_eq_Ret intro: same_books_trans)

lemma gsame_from: "same_books i c d \<Longrightarrow> gsame i d m \<Longrightarrow> gsame i c m"
  by (auto simp: gsame_def intro: same_books_trans)

lemma gsame_read: "(\<And>x. gsame i c (f x)) \<Longrightarrow> gsame i c (gbind m f)"
  by (auto simp: gsame_def gbind_eq_Ret)

lemma gsame_if: "gsame i c x \<Longrightarrow> gsame i c y \<Longrightarrow> gsame i c (if b then x else y)"
  by simp

lemma gsame_attach [same]: "gsame i c (attach_socket_domain A j socket c)"
proof -
  have "same_books i c (put_flow j (socket_label e ((co_flow c j)\<lparr>fl_socket_domain := r\<rparr>)) c)" for e r
    by (intro put_same) (auto simp: socket_label_def disposable_def split: kind.split)
  moreover have "same_books i c (put_flow j ((co_flow c j)\<lparr>fl_socket_domain := r\<rparr>) c)" for r
    by (intro put_same) (auto simp: disposable_def)
  ultimately show ?thesis
    unfolding attach_socket_domain_def Let_def
    by (auto intro: same_books_trans [OF _ same_choose] split: option.split)
qed

section \<open>The steps of a packet\<close>

lemma same_echo_flow [same]: "same_books i c (echo_flow j p at c)"
proof -
  have client: "same_books i c (upd_flow j (\<lambda>f. f\<lparr>fl_client := a\<rparr>) c)" for a by (intro same_upd) (simp add: disposable_def)
  obtain owner ok where o: "echo_owner_for (fst (k_destination p), k_icmp_id p, k_protocol p) c = (owner, ok)" by fastforce
  define c1 where "c1 = (if pt_pid (eo_process owner) \<noteq> 0 then upd_flow j (\<lambda>f. f\<lparr>fl_client := eo_process owner\<rparr>) c else c)"
  have "same_books i c c1" using client by (simp add: c1_def)
  then have "same_books i c (c1\<lparr>co_echo_owners := g\<rparr>)" for g using same_books_trans [OF _ same_field(7)] by blast
  then show ?thesis unfolding echo_flow_def Let_def o prod.case c1_def [symmetric] by simp
qed

lemma same_referenced: "same_books i c (icmp_referenced p at r c)"
proof -
  have error: "same_books i d (upd_flow r (\<lambda>f. f\<lparr>fl_icmp_error := e\<rparr>) d)" for d e by (intro same_upd) (simp add: disposable_def)
  show ?thesis
    unfolding icmp_referenced_def Let_def
    by (rule same_books_trans [OF same_if [OF same_note_attempt same_books_refl] error])
qed

lemma same_icmp [same]: "same_books i c (collect_icmp clock j p c)"
proof -
  have message: "same_books i d (upd_flow j (\<lambda>f. f\<lparr>fl_icmp := Some s\<rparr>) d)" for d s by (intro same_upd) (simp add: disposable_def)
  have initiator: "same_books i c (upd_flow j (\<lambda>f. f\<lparr>fl_initiator := k_source p, fl_target := k_destination p, fl_direction := direction_of c p\<rparr>) c)"
    by (intro same_upd) (simp add: disposable_def)
  have error: "same_books i c (case x of None \<Rightarrow> d | Some r \<Rightarrow> icmp_referenced p at r d)" if "same_books i c d" for x at d
    using that same_books_trans [OF that same_referenced] by (cases x) simp_all
  show ?thesis
    unfolding collect_icmp_def Let_def
    by (intro same_if message error
        same_books_trans [OF same_books_trans [OF same_if [OF initiator same_books_refl] same_if [OF same_echo_flow same_books_refl]] message])
qed

lemma same_note_initiator: "same_books i c (note_initiator A p i c)"
proof -
  have any: "same_books i d (upd_flow i g d)"
    if "\<And>f. fl_key (g f) = fl_key f \<and> fl_rx (g f) = fl_rx f \<and> fl_tx (g f) = fl_tx f" for d g
    using that by (intro same_upd) simp
  have wire: "same_books i d (if fl_wire_domain (co_flow d i) = None then (case new_stream_in s d of
      (r, c') \<Rightarrow> upd_flow i (\<lambda>f. f\<lparr>fl_wire_domain := Some r, fl_wire_client := k_source p\<rparr>) c') else d)" for s d
  proof -
    obtain r c' where n: "new_stream_in s d = (r, c')" by fastforce
    have "same_books i d (upd_flow i (\<lambda>f. f\<lparr>fl_wire_domain := Some r, fl_wire_client := k_source p\<rparr>) c')"
      by (intro same_books_trans [OF same_new_stream [OF n] any]) simp
    then show ?thesis by (simp add: n)
  qed
  show ?thesis
    unfolding note_initiator_def Let_def
    by (intro same_if same_books_refl any same_books_trans [OF same_books_trans [OF any wire] any]) simp_all
qed

lemma same_note_link: "same_books i c (note_link A p i c)"
  unfolding note_link_def by (intro same_if same same_books_refl same_upd) simp

lemma same_note_answer: "same_books i c (upd_flow i (note_answer p) c)"
  by (intro same_upd) (simp add: note_answer_def Let_def)

lemma gsame_midstream: "gsame i c (start_midstream A p i c)"
proof -
  have "same_books i c (upd_flow i (\<lambda>f. let f1 = f\<lparr>fl_wire_domain := Some r, fl_wire_client := k_source p\<rparr> in
             if \<not> valid_endpoint (fl_initiator f1)
             then f1\<lparr>fl_initiator := k_source p, fl_target := k_destination p, fl_direction := direction_of c p\<rparr> else f1) c1)"
    if "new_stream_in s c = (r, c1)" for s r c1
    by (rule same_books_trans [OF same_new_stream [OF that] same_upd]) (simp add: Let_def)
  then show ?thesis unfolding start_midstream_def by (auto intro!: gsame_read split: prod.split)
qed

lemma gsame_parse_wire: "gsame i c (parse_wire A p i c)"
  unfolding parse_wire_def Let_def by (auto intro!: gsame_read same split: option.split)

lemma gsame_on_flow:
  assumes "\<And>f'. m (co_flow c i) = Ret f' \<Longrightarrow> fl_key f' = fl_key (co_flow c i) \<and> fl_rx f' = fl_rx (co_flow c i) \<and> fl_tx f' = fl_tx (co_flow c i)"
  shows "gsame i c (on_flow i m c)"
  using assms by (auto simp: on_flow_def gsame_def gbind_eq_Ret intro!: put_same)

lemma gsame_detect: "gsame i c (on_flow i (detect_app p) c)"
  by (rule gsame_on_flow) (auto simp: detect_app_def gbind_eq_Ret split: if_splits option.splits)

lemma gsame_details: "gsame i c (on_flow i (app_details A p addresses) c)"
  by (rule gsame_on_flow) (auto simp: app_details_def gbind_eq_Ret split: if_splits)

lemma gsame_quic: "gsame i c (observe_quic A p i c)"
proof -
  have start: "same_books i c c1" if "start_quic p i c = (t, c1)" for t c1
    using that same_set_quic [of i c i "unknown_quic None"] by (auto simp: start_quic_def split: option.splits)
  have seen: "gsame i d (quic_result_seen A i hello er d)" for hello er d
  proof -
    have source: "same_books i e (upd_flow i (\<lambda>f. f\<lparr>fl_app_source := x\<rparr>) e)" for e x by (intro same_upd) simp
    show ?thesis unfolding quic_result_seen_def
      by (auto intro!: gsame_read same_set_quic same_books_trans [OF same_set_quic source] split: option.split)
  qed
  have failed: "gsame i d (quic_failure_seen t i d)" for t d
    unfolding quic_failure_seen_def by (auto intro: same split: option.split)
  have result: "same_books i d (upd_flow i (\<lambda>f. let f1 = f\<lparr>fl_quic := Some t\<rparr> in if initial
           then f1\<lparr>fl_initiator := k_source p, fl_target := k_destination p, fl_direction := direction_of c p\<rparr> else f1) d)" for d t initial
    by (intro same_upd) (simp add: Let_def)
  obtain t c1 where t: "start_quic p i c = (t, c1)" by fastforce
  have "gsame i c1 (gbind (quic_add X \<rho> at payload t) (\<lambda>(t', hello, initial, er).
      gbind (quic_result_seen A i hello er (upd_flow i (\<lambda>f. let f1 = f\<lparr>fl_quic := Some t'\<rparr> in if initial
           then f1\<lparr>fl_initiator := k_source p, fl_target := k_destination p, fl_direction := direction_of c p\<rparr> else f1) c1)) (quic_failure_seen t' i)))"
    for X \<rho> at payload
    by (rule gsame_read) (auto split: prod.split intro: gsame_from [OF result] gsame_bind [OF seen failed])
  from gsame_from [OF start [OF t] this] show ?thesis
    unfolding observe_quic_def Let_def t prod.case by (intro gsame_if) simp_all
qed

lemma same_label_wire: "same_books i c (label_wire i c)"
  unfolding label_wire_def
  by (auto intro!: same_upd simp: wire_label_def Let_def split: option.split kind.split)

lemma gsame_pending_socket: "gsame i c (take_pending_socket A now p key i c)"
  unfolding take_pending_socket_def Let_def
  by (auto intro: same gsame_from [OF same_field(4) gsame_attach] split: option.split)

lemma same_name_flow: "same_books i c (name_flow A p i c)"
  unfolding name_flow_def by (intro same same_books_refl)

lemma same_pending_tls: "same_books i c (take_pending_tls A now key i c)"
  unfolding take_pending_tls_def Let_def
  by (auto intro: same same_books_trans [OF same_field(3) same_tls] split: option.split)

lemma same_end_tcp: "same_books i c (end_tcp p i c)"
proof -
  have put: "same_books i c (put_flow i g d)" if "fl_key g = fl_key (co_flow d i)" "fl_rx g = fl_rx (co_flow d i)" "fl_tx g = fl_tx (co_flow d i)"
      "same_books i c d" for g d
    using that by (intro same_books_trans [OF that(4) put_same]) simp_all
  show ?thesis
    unfolding end_tcp_def Let_def
    by (auto intro!: put same simp: note_attempt_frame)
qed

section \<open>Flows leave the table\<close>

lemma delete_entry: "distinct (map fst m) \<Longrightarrow> (k, v) \<in> set m \<Longrightarrow> mset m = add_mset (k, v) (mset (AList.delete k m))"
proof (induction m)
  case (Cons x m)
  show ?case
  proof (cases "fst x = k")
    case True
    then have "k \<notin> fst ` set m" using Cons.prems(1) by auto
    then have "(k, v) \<notin> set m" by force
    then have "x = (k, v)" using Cons.prems(2) by auto
    moreover have "AList.delete k m = m" using \<open>k \<notin> fst ` set m\<close> by (auto simp: delete_filter intro!: filter_True)
    ultimately show ?thesis by simp
  next
    case False
    then have "AList.delete k (x # m) = x # AList.delete k m" by (cases x) simp
    then show ?thesis using Cons False by auto
  qed
qed simp

lemma live_mset: "live_bytes g c = (\<Sum>i\<in>#mset (all_flows c). g (co_flow c i))"
  unfolding live_bytes_def by (metis mset_map sum_mset_sum_list)

lemma live_less:
  assumes "mset (all_flows c) = add_mset i (mset (all_flows c'))" and "co_flow c' = co_flow c"
  shows "live_bytes g c = g (co_flow c i) + live_bytes g c'"
  using assms by (simp add: live_mset)

lemma live_permuted:
  assumes "mset (all_flows c) = mset (all_flows c')" and "co_flow c' = co_flow c"
  shows "live_bytes g c = live_bytes g c'"
  using assms by (simp add: live_mset)

lemma table_entry:
  assumes "table_ok X c" and "(k, i) \<in> set (co_flows c)"
  shows "fl_key (co_flow c i) = k" "i < co_next c" "i \<notin> set (co_retired c)" "flow_at k c = Some i"
proof -
  have "i \<in> snd ` set (co_flows c)" using assms(2) by force
  then show "fl_key (co_flow c i) = k" "i < co_next c" "i \<notin> set (co_retired c)" "flow_at k c = Some i"
    using assms by (auto simp: table_ok_def all_flows_def)
qed

lemma expire_flow_frame [simp]:
  "co_flows (expire_flow i now c) = co_flows c" "co_flow (expire_flow i now c) = co_flow c" "co_retired (expire_flow i now c) = co_retired c"
  "co_max_flows (expire_flow i now c) = co_max_flows c" "co_streams (expire_flow i now c) = co_streams c"
  by (simp_all add: expire_flow_def Let_def note_attempt_frame)

lemma attempts_expired [simp]:
  "attempts_ok (c\<lparr>co_expired_flows := n, co_expired_rx := a, co_expired_tx := b\<rparr>) = attempts_ok c"
  "attempts_ok (c\<lparr>co_expired_flows := n, co_expired_rx := a, co_expired_tx := b, co_expired_domain_rx := d, co_expired_domain_tx := e\<rparr>) = attempts_ok c"
  by (simp_all add: attempts_ok_def)

lemma expire_flow_books:
  "co_next (expire_flow i now c) = co_next c" "co_eviction_blocked (expire_flow i now c) = co_eviction_blocked c"
  "co_bytes (expire_flow i now c) = co_bytes c" "co_rx_bytes (expire_flow i now c) = co_rx_bytes c" "co_tx_bytes (expire_flow i now c) = co_tx_bytes c"
  "co_unindexed_rx (expire_flow i now c) = co_unindexed_rx c" "co_unindexed_tx (expire_flow i now c) = co_unindexed_tx c"
  "co_expired_rx (expire_flow i now c) = co_expired_rx c + fl_rx (co_flow c i)" "co_expired_tx (expire_flow i now c) = co_expired_tx c + fl_tx (co_flow c i)"
  "attempts_ok c \<Longrightarrow> attempts_ok (expire_flow i now c)"
  using same_note_attempt [unfolded same_books_def]
  by (simp_all add: expire_flow_def Let_def note_attempt_ok)

text \<open>Flow \<open>i\<close> is expired and taken out; \<open>all\<close> are the retired flows before that.\<close>

lemma expired_out:
  assumes ok: "table_ok X (c\<lparr>co_retired := all\<rparr>)" and books: "books_owe r t (c\<lparr>co_retired := all\<rparr>)"
    and flows: "distinct (map fst flows)" "set flows \<subseteq> set (co_flows c)" "length flows \<le> length (co_flows c)" "length retired \<le> length all"
    and out: "mset (map snd (co_flows c) @ all) = add_mset i (mset (map snd flows @ retired))"
  shows "table_ok X ((expire_flow i now c)\<lparr>co_flows := flows, co_retired := retired\<rparr>)"
    "books_owe r t ((expire_flow i now c)\<lparr>co_flows := flows, co_retired := retired\<rparr>)"
proof -
  let ?c = "(expire_flow i now c)\<lparr>co_flows := flows, co_retired := retired\<rparr>"
  have all: "all_flows ?c = map snd flows @ retired" "all_flows (c\<lparr>co_retired := all\<rparr>) = map snd (co_flows c) @ all"
    by (simp_all add: all_flows_def)
  have "distinct (map snd (co_flows c) @ all)" using ok unfolding table_ok_def all by blast
  then have "distinct (i # map snd flows @ retired)" using out by (metis mset.simps(2) mset_eq_imp_distinct_iff)
  moreover have "set (map snd flows @ retired) \<subseteq> set (map snd (co_flows c) @ all)"
    using arg_cong [OF out, of set_mset] by auto
  moreover have "attempts_ok ?c"
    using ok expire_flow_books(10) [of c i now] by (simp add: table_ok_def attempts_ok_def)
  moreover have "\<forall>j\<in>set (map snd flows @ retired). j < co_next c"
    using ok calculation(2) unfolding table_ok_def all by (auto simp: subset_iff)
  ultimately show "table_ok X ?c"
    using ok flows unfolding table_ok_def all by (auto simp: expire_flow_books)
  have "live_bytes g (c\<lparr>co_retired := all\<rparr>) = g (co_flow (c\<lparr>co_retired := all\<rparr>) i) + live_bytes g ?c" for g
    by (rule live_less) (use out in \<open>simp_all add: all\<close>)
  then show "books_owe r t ?c" using books by (simp add: books_owe_def expire_flow_books)
qed

lemma evict_flow_ok:
  assumes ok: "table_ok X c" and books: "books_owe r t c" and i: "(fl_key (co_flow c i), i) \<in> set (co_flows c)"
  shows "table_ok X (evict_flow now i c)" "books_owe r t (evict_flow now i c)"
    and "co_flows (evict_flow now i c) = AList.delete (fl_key (co_flow c i)) (co_flows c)" "co_flow (evict_flow now i c) = co_flow c"
    "co_retired (evict_flow now i c) = co_retired c" "co_max_flows (evict_flow now i c) = co_max_flows c"
    "co_eviction_blocked (evict_flow now i c) = co_eviction_blocked c"
proof -
  let ?k = "fl_key (co_flow c i)" and ?flows = "AList.delete (fl_key (co_flow c i)) (co_flows c)"
  have d: "distinct (map fst (co_flows c))" using ok by (simp add: table_ok_def)
  have out: "mset (all_flows c) = add_mset i (mset (map snd ?flows @ co_retired c))"
    using arg_cong [OF delete_entry [OF d i], of "image_mset snd"] by (simp add: all_flows_def)
  have same: "evict_flow now i c = (expire_flow i now c)\<lparr>co_flows := ?flows, co_retired := co_retired c\<rparr>"
    by (simp add: evict_flow_def Let_def)
  have flows: "distinct (map fst ?flows)" "set ?flows \<subseteq> set (co_flows c)" "length ?flows \<le> length (co_flows c)"
    using d by (auto simp: delete_filter distinct_map_filter)
  show "table_ok X (evict_flow now i c)" "books_owe r t (evict_flow now i c)"
    unfolding same using expired_out [where c = c and all = "co_retired c" and flows = ?flows and retired = "co_retired c" and i = i] ok books flows out by (simp_all add: all_flows_def)
  show "co_flows (evict_flow now i c) = ?flows" "co_flow (evict_flow now i c) = co_flow c"
    "co_retired (evict_flow now i c) = co_retired c" "co_max_flows (evict_flow now i c) = co_max_flows c"
    "co_eviction_blocked (evict_flow now i c) = co_eviction_blocked c"
    by (simp_all add: evict_flow_def Let_def expire_flow_books)
qed

lemma evict_flows_ok:
  assumes "table_ok X c" and "books_owe r t c" and "distinct is" and "\<forall>i\<in>set is. (fl_key (co_flow c i), i) \<in> set (co_flows c)"
  shows "table_ok X (fold (evict_flow now) is c) \<and> books_owe r t (fold (evict_flow now) is c)
    \<and> set (co_flows (fold (evict_flow now) is c)) = {(k, i) \<in> set (co_flows c). i \<notin> set is}
    \<and> co_flow (fold (evict_flow now) is c) = co_flow c
    \<and> co_retired (fold (evict_flow now) is c) = co_retired c \<and> co_max_flows (fold (evict_flow now) is c) = co_max_flows c
    \<and> length (co_flows (fold (evict_flow now) is c)) + length is = length (co_flows c)"
  using assms
proof (induction "is" arbitrary: c)
  case (Cons i "is")
  have i: "(fl_key (co_flow c i), i) \<in> set (co_flows c)" using Cons.prems(4) by simp
  note step = evict_flow_ok [OF Cons.prems(1,2) i]
  have d: "distinct (map fst (co_flows c))" using Cons.prems(1) by (simp add: table_ok_def)
  have rest: "(k, j) \<in> set (co_flows (evict_flow now i c)) \<longleftrightarrow> (k, j) \<in> set (co_flows c) \<and> j \<noteq> i" for k j
  proof -
    have "k = fl_key (co_flow c i) \<longleftrightarrow> j = i" if "(k, j) \<in> set (co_flows c)"
      using that i d table_entry(1) [OF Cons.prems(1) that] by (metis eq_key_imp_eq_value)
    then show ?thesis by (auto simp: step(3) delete_filter)
  qed
  have "\<forall>j\<in>set is. (fl_key (co_flow (evict_flow now i c) j), j) \<in> set (co_flows (evict_flow now i c))"
    using Cons.prems(3,4) by (auto simp: rest step(4))
  note IH = Cons.IH [OF step(1,2) _ this]
  have "length (co_flows (evict_flow now i c)) = length (co_flows c) - 1"
    unfolding step(3) by (rule length_delete_in [OF d]) (use i in force)
  moreover have "co_flows c \<noteq> []" using i by auto
  ultimately have "Suc (length (co_flows (evict_flow now i c))) = length (co_flows c)" by simp
  then show ?case using IH Cons.prems(3) by (auto simp: step(1,2,4-6) rest)
qed auto

text \<open>\<open>evict\<close> frees room or finds nothing to evict.\<close>

lemma evict_ok:
  assumes ok: "table_ok X c" and books: "books_owe r t c"
  shows "table_ok X (evict \<rho> now c)" "books_owe r t (evict \<rho> now c)" "set (co_flows (evict \<rho> now c)) \<subseteq> set (co_flows c)"
    "co_flow (evict \<rho> now c) = co_flow c" "co_retired (evict \<rho> now c) = co_retired c" "co_max_flows (evict \<rho> now c) = co_max_flows c"
proof -
  let ?is = "candidates \<rho> c"
  have none: "\<forall>(k, i)\<in>set (co_flows c). \<not> disposable (co_flow c i)" if "?is = []"
    using that by (auto simp: candidates_def filter_empty_conv)
  have "table_ok X (evict \<rho> now c) \<and> books_owe r t (evict \<rho> now c) \<and> set (co_flows (evict \<rho> now c)) \<subseteq> set (co_flows c)
    \<and> co_flow (evict \<rho> now c) = co_flow c \<and> co_retired (evict \<rho> now c) = co_retired c \<and> co_max_flows (evict \<rho> now c) = co_max_flows c"
  proof (cases "co_eviction_blocked c \<or> ?is = []")
    case True
    have "table_ok X (c\<lparr>co_eviction_blocked := True\<rparr>)" if "?is = []"
      using ok none [OF that] by (auto simp: table_ok_def all_flows_def attempts_ok_def)
    moreover have "books_owe r t (c\<lparr>co_eviction_blocked := True\<rparr>)" using books by (simp add: books_owe_def live_bytes_def all_flows_def)
    ultimately show "table_ok X (evict \<rho> now c) \<and> books_owe r t (evict \<rho> now c) \<and> set (co_flows (evict \<rho> now c)) \<subseteq> set (co_flows c)
      \<and> co_flow (evict \<rho> now c) = co_flow c \<and> co_retired (evict \<rho> now c) = co_retired c \<and> co_max_flows (evict \<rho> now c) = co_max_flows c"
      using True ok books by (auto simp: evict_def)
  next
    case False
    define chosen where "chosen = take (min (length ?is) (co_max_flows c div 10 + 1)) (sort_key (\<lambda>i. last_key (co_flow c i)) ?is)"
    have ev: "evict \<rho> now c = fold (evict_flow now) chosen c" using False by (simp add: evict_def Let_def chosen_def)
    have sub: "set chosen \<subseteq> set ?is" unfolding chosen_def by (metis set_take_subset set_sort)
    have d: "distinct (map snd (co_flows c))" using ok by (simp add: table_ok_def all_flows_def)
    then have "distinct (map snd (ranged \<rho> (co_flows c)))" by (metis mset_ranged mset_map mset_eq_imp_distinct_iff)
    then have "distinct chosen" by (simp add: chosen_def candidates_def distinct_take)
    moreover have "\<forall>i\<in>set chosen. (fl_key (co_flow c i), i) \<in> set (co_flows c)"
      using sub table_entry(1) [OF ok] by (fastforce simp: candidates_def)
    ultimately show "table_ok X (evict \<rho> now c) \<and> books_owe r t (evict \<rho> now c) \<and> set (co_flows (evict \<rho> now c)) \<subseteq> set (co_flows c)
      \<and> co_flow (evict \<rho> now c) = co_flow c \<and> co_retired (evict \<rho> now c) = co_retired c \<and> co_max_flows (evict \<rho> now c) = co_max_flows c"
      unfolding ev using evict_flows_ok [OF ok books, of chosen now] by auto
  qed
  then show "table_ok X (evict \<rho> now c)" "books_owe r t (evict \<rho> now c)" "set (co_flows (evict \<rho> now c)) \<subseteq> set (co_flows c)"
    "co_flow (evict \<rho> now c) = co_flow c" "co_retired (evict \<rho> now c) = co_retired c" "co_max_flows (evict \<rho> now c) = co_max_flows c"
    by simp_all
qed

lemma make_room_ok:
  assumes "table_ok X c" and "books_owe r t c"
  shows "table_ok X (make_room A now c)" "books_owe r t (make_room A now c)" "set (co_flows (make_room A now c)) \<subseteq> set (co_flows c)"
    "co_flow (make_room A now c) = co_flow c" "co_max_flows (make_room A now c) = co_max_flows c"
  using assms evict_ok [OF assms] by (simp_all add: make_room_def)

section \<open>Flows enter the table and retire\<close>

lemma update_fresh: "map_of m k = None \<Longrightarrow> AList.update k v m = m @ [(k, v)]"
  by (induction m) (auto split: if_splits)

lemma insert_flow_ok:
  assumes ok: "table_ok {} c" and books: "books_owe r t c" and new: "flow_at key c = None" "fl_key f = key" "fl_rx f = 0" "fl_tx f = 0"
    and room: "table_size c < co_max_flows c" and ins: "insert_flow key f c = (i, c')"
  shows "table_ok {i} c'" "books_owe r t c'" "flow_at key c' = Some i" "co_flow c' i = f" "i = co_next c"
proof -
  have i: "i = co_next c" and c': "c' = (put_flow i f c)\<lparr>co_next := Suc i, co_flows := co_flows c @ [(key, i)]\<rparr>"
    using ins by (auto simp: insert_flow_def update_fresh [OF new(1)])
  have old: "j < co_next c" if "j \<in> set (all_flows c)" for j using ok that by (simp add: table_ok_def)
  then have neq: "j \<noteq> i" if "j \<in> set (all_flows c)" for j using that i by blast
  have all: "mset (all_flows c') = add_mset i (mset (all_flows c))" by (simp add: all_flows_def c')
  have flows: "set (co_flows c') = insert (key, i) (set (co_flows c))" by (simp add: c')
  have keep: "co_flow c' j = co_flow c j" if "j \<in> set (all_flows c)" for j using neq [OF that] by (simp add: c')
  have in_all: "j \<in> set (all_flows c)" if "(k, j) \<in> set (co_flows c)" for k j using that by (force simp: all_flows_def)
  have at_i: "co_flow c' i = f" and blocked: "co_eviction_blocked c' = co_eviction_blocked c" by (simp_all add: c')
  have "key \<notin> fst ` set (co_flows c)" using new(1) by (simp add: map_of_eq_None_iff)
  then have keys: "distinct (map fst (co_flows c'))" using ok by (auto simp: table_ok_def c')
  have "distinct (all_flows c')" using all ok neq by (metis mset.simps(2) mset_eq_imp_distinct_iff distinct.simps(2) table_ok_def)
  moreover have "\<forall>j\<in>set (all_flows c'). j < co_next c'" using arg_cong [OF all, of set_mset] old i by (auto simp: c' less_Suc_eq)
  moreover have "\<forall>(k, j)\<in>set (co_flows c'). fl_key (co_flow c' j) = k"
    unfolding flows using new(2) at_i keep [OF in_all] table_entry(1) [OF ok] by auto
  moreover have "co_eviction_blocked c' \<longrightarrow> (\<forall>(k, j)\<in>set (co_flows c'). j \<notin> {i} \<longrightarrow> \<not> disposable (co_flow c' j))"
    unfolding flows using ok keep [OF in_all] blocked by (auto simp: table_ok_def)
  moreover have "attempts_ok c'" using ok by (simp add: table_ok_def attempts_ok_def c')
  ultimately show "table_ok {i} c'" using keys room by (simp add: table_ok_def c')
  have "live_bytes g c' = g f + live_bytes g c" for g
  proof -
    have "image_mset (\<lambda>j. g (co_flow c' j)) (mset (all_flows c)) = image_mset (\<lambda>j. g (co_flow c j)) (mset (all_flows c))"
      by (rule image_mset_cong) (simp add: keep)
    then show ?thesis by (simp add: live_mset all) (simp add: c')
  qed
  then show "books_owe r t c'" using books new by (simp add: books_owe_def c')
  show "flow_at key c' = Some i" "co_flow c' i = f" "i = co_next c"
    using new(1) by (simp_all add: c' i map_add_def map_of_append [unfolded map_add_def])
qed

lemma move_retired:
  assumes ok: "table_ok X c" and books: "books_owe r t c" and at: "flow_at key c = Some i"
  shows "table_ok X (c\<lparr>co_retired := co_retired c @ [i], co_flows := AList.delete key (co_flows c)\<rparr>)" (is "table_ok X ?c")
    "books_owe r t (c\<lparr>co_retired := co_retired c @ [i], co_flows := AList.delete key (co_flows c)\<rparr>)"
proof -
  have d: "distinct (map fst (co_flows c))" using ok by (simp add: table_ok_def)
  have "(key, i) \<in> set (co_flows c)" using at by (rule map_of_SomeD)
  note e = delete_entry [OF d this]
  have all: "mset (all_flows c) = mset (all_flows ?c)" using arg_cong [OF e, of "image_mset snd"] by (simp add: all_flows_def)
  then have "live_bytes g c = live_bytes g ?c" for g by (rule live_permuted) simp
  then show "books_owe r t ?c" using books by (simp add: books_owe_def)
  have size: "length (co_flows c) = Suc (length (AList.delete key (co_flows c)))" using arg_cong [OF e, of size] by simp
  have "distinct (all_flows ?c)" using ok all by (metis mset_eq_imp_distinct_iff table_ok_def)
  moreover have "set (all_flows ?c) = set (all_flows c)" by (metis all set_mset_mset)
  moreover have "distinct (map fst (AList.delete key (co_flows c)))" using d by (simp add: delete_filter distinct_map_filter)
  moreover have "set (AList.delete key (co_flows c)) \<subseteq> set (co_flows c)" by (auto simp: delete_filter)
  ultimately show "table_ok X ?c" using ok size by (auto simp: table_ok_def attempts_ok_def)
qed

end
