(* ===== verification/Collect_Socket.thy ===== *)
theory Collect_Socket imports Collect_Event begin

text \<open>
  What the sockets of the host say of the flows: the streams that the probe copies from sockets (\<^verbatim>\<open>socketStreams\<close> in
  \<^verbatim>\<open>internal/app/socket_streams.go\<close>), and the socket table of the kernel (\<^verbatim>\<open>applySocketInventory\<close> in
  \<^verbatim>\<open>procnet_linux.go\<close>).

  A socket stream is a number into the heap \<open>so_at\<close>, since flows keep pointers to them; \<open>so_streams\<close> is the heap of parsed
  streams.  The process that holds a socket, which the code reads from \<^verbatim>\<open>/proc\<close>, is the function \<open>iv_owner\<close>.
\<close>

section \<open>Socket streams\<close>

definition max_socket_streams :: nat where
  "max_socket_streams = 20000"

definition socket_stream_idle :: int where
  "socket_stream_idle = 120 * second"

type_synonym socket_key = "u64 \<times> u64 \<times> bool \<times> addrport"

record socket_chunk =
  cu_cookie :: u64
  cu_netns :: u64
  cu_protocol :: u8
  cu_local :: addrport
  cu_remote :: addrport
  cu_sent :: bool
  cu_offset :: u32
  cu_data :: bytes

record socket_table =
  so_keys :: "(socket_key \<times> nat) list"
  so_at :: "nat \<Rightarrow> socket_stream"
  so_next :: nat
  so_streams :: streams

definition chunk_key :: "socket_chunk \<Rightarrow> socket_key" where
  "chunk_key x = (cu_netns x, cu_cookie x, cu_sent x, if cu_protocol x = 17 then cu_remote x else no_endpoint)"

definition put_socket :: "nat \<Rightarrow> socket_stream \<Rightarrow> socket_table \<Rightarrow> socket_table" where
  "put_socket i s t = t\<lparr>so_at := (so_at t)(i := s)\<rparr>"

definition open_socket :: "int \<Rightarrow> socket_chunk \<Rightarrow> socket_table \<Rightarrow> nat \<times> socket_table" where
  "open_socket clock x t = (let i = so_next t;
     s = \<lparr>ss_parser = None, ss_quic = None, ss_local = cu_local x, ss_remote = cu_remote x, ss_sent = cu_sent x, ss_last = 0\<rparr>;
     t1 = t\<lparr>so_next := Suc i, so_keys := AList.update (chunk_key x) i (so_keys t)\<rparr> in
     if cu_protocol x = 17 then (i, put_socket i (s\<lparr>ss_quic := Some quic_tracker0\<rparr>) t1)
     else (case new_stream_at (new_stream clock 0) (so_streams t1) of
       (r, h) \<Rightarrow> (i, put_socket i (s\<lparr>ss_parser := Some r\<rparr>) (t1\<lparr>so_streams := h\<rparr>))))"

definition find_socket :: "int \<Rightarrow> socket_chunk \<Rightarrow> socket_table \<Rightarrow> (nat \<times> socket_table) option" where
  "find_socket clock x t = (case map_of (so_keys t) (chunk_key x) of
       None \<Rightarrow> if max_socket_streams \<le> length (so_keys t) then None else Some (open_socket clock x t)
     | Some i \<Rightarrow> if cu_offset x = 0 then Some (open_socket clock x t) else Some (i, t))"

definition add_datagram :: "ambient \<Rightarrow> int \<Rightarrow> socket_chunk \<Rightarrow> quic_tracker \<Rightarrow> nat \<Rightarrow> socket_table \<Rightarrow> (nat option \<times> socket_table) go" where
  "add_datagram A now x q i t = gbind (quic_add (am_quic A) (am_parts A) (Some now) (cu_data x) q) (\<lambda>(q', hello, initial, er). let
     t1 = put_socket i ((so_at t i)\<lparr>ss_quic := Some q'\<rparr>) t in
     case hello of None \<Rightarrow> Ret (None, t1)
     | Some h \<Rightarrow> if er \<noteq> None then Ret (None, t1)
       else gtry (new_quic_client_hello (am_env A) h) (\<lambda>e. Ret (None, t1)) (\<lambda>s. case new_stream_at s (so_streams t1) of
         (r, heap) \<Rightarrow> Ret (Some i, put_socket i ((so_at t1 i)\<lparr>ss_parser := Some r\<rparr>) (t1\<lparr>so_streams := heap\<rparr>))))"

definition add_bytes :: "ambient \<Rightarrow> socket_chunk \<Rightarrow> nat \<Rightarrow> nat \<Rightarrow> socket_table \<Rightarrow> (nat option \<times> socket_table) go" where
  "add_bytes A x r i t = gbind (stream_add (am_env A) (am_segments A) (am_clock A) (st_at (so_streams t) r) (cu_offset x) (cu_data x)) (\<lambda>s. let
     t1 = t\<lparr>so_streams := put_stream r s (so_streams t)\<rparr>; e = stream_evidence s in
     Ret (if e_parse_error e = None \<and> (named e \<or> e_no_sni e) then Some i else None, t1))"

definition socket_add :: "ambient \<Rightarrow> int \<Rightarrow> socket_chunk \<Rightarrow> socket_table \<Rightarrow> (nat option \<times> socket_table) go" where
  "socket_add A now x t0 = (case find_socket (am_clock A) x t0 of None \<Rightarrow> Ret (None, t0)
     | Some (i, t1) \<Rightarrow> let t = put_socket i ((so_at t1 i)\<lparr>ss_last := now\<rparr>) t1 in
       case ss_quic (so_at t i) of Some q \<Rightarrow> add_datagram A now x q i t
       | None \<Rightarrow> (case ss_parser (so_at t i) of None \<Rightarrow> Panic | Some r \<Rightarrow> add_bytes A x r i t))"

definition socket_expire :: "int \<Rightarrow> socket_table \<Rightarrow> socket_table" where
  "socket_expire now t = t\<lparr>so_keys := filter (\<lambda>(key, i). \<not> socket_stream_idle < time_sub now (Some (ss_last (so_at t i)))) (so_keys t)\<rparr>"

section \<open>The socket table of the kernel\<close>

type_synonym socket_tuple = "u8 \<times> addrport \<times> addrport"

record socket_inventory =
  iv_at_start :: "(socket_tuple \<times> u64) list"
  iv_sockets :: "(socket_tuple \<times> u64) list"
  iv_local :: "addr list"
  iv_owner :: "u64 \<Rightarrow> participant option"

text \<open>\<^verbatim>\<open>Addr.IsLoopback\<close>.\<close>

definition is_loopback :: "addr \<Rightarrow> bool" where
  "is_loopback a = (case unmap a of V4 (x # b) \<Rightarrow> x = 127 | V6 b zone \<Rightarrow> b = replicate 15 0 @ [1] | _ \<Rightarrow> False)"

definition is_local :: "socket_inventory \<Rightarrow> addr \<Rightarrow> bool" where
  "is_local table a \<longleftrightarrow> a \<in> set (iv_local table) \<or> is_loopback a"

definition receiving :: "socket_inventory \<Rightarrow> u8 \<Rightarrow> addrport \<Rightarrow> u64 option" where
  "receiving table protocol local = (if \<not> is_local table (fst local) \<and> \<not> is_multicast (fst local) \<and> fst local \<noteq> V4 [255, 255, 255, 255] then None
     else (case find (\<lambda>r. r \<noteq> None) (map (\<lambda>bound. map_of (iv_sockets table) (protocol, (bound, snd local), no_endpoint))
         [fst local, V4 [0, 0, 0, 0], V6 (replicate 16 0) []]) of None \<Rightarrow> None | Some r \<Rightarrow> r))"

definition socket_owner :: "socket_inventory \<Rightarrow> u64 \<Rightarrow> participant option" where
  "socket_owner table inode = (if inode = 0 then None else case iv_owner table inode of None \<Rightarrow> None
     | Some p \<Rightarrow> if pt_pid p = 0 then None else Some p)"

definition ownerless :: "flow \<Rightarrow> bool" where
  "ownerless f \<longleftrightarrow> fk_ether_type (fl_key f) = 0 \<and> (fk_protocol (fl_key f) = 6 \<or> fk_protocol (fl_key f) = 17)
     \<and> pt_pid (fl_client f) = 0 \<and> pt_pid (fl_server f) = 0"

definition find_inode :: "socket_inventory \<Rightarrow> u8 \<Rightarrow> addrport \<Rightarrow> addrport \<Rightarrow> u64 option" where
  "find_inode table protocol local remote = (case map_of (iv_sockets table) (protocol, local, remote) of
       Some inode \<Rightarrow> Some inode | None \<Rightarrow> if protocol = 17 then receiving table 17 local else None)"

text \<open>Which side of a TCP connection without a known start connected.\<close>

definition infer_sides :: "socket_inventory \<Rightarrow> bool \<Rightarrow> addrport \<Rightarrow> addrport \<Rightarrow> flow \<Rightarrow> flow" where
  "infer_sides table loopback local remote f = (if fk_protocol (fl_key f) = 6 \<and> \<not> valid_endpoint (fl_initiator f) then
     (let f1 = f\<lparr>fl_initiator := local, fl_target := remote, fl_direction := ''outbound''\<rparr>;
       f2 = (if receiving table 6 local \<noteq> None \<or> \<not> is_local table (fst local)
         then f1\<lparr>fl_initiator := remote, fl_target := local, fl_direction := ''inbound''\<rparr> else f1) in
      if loopback then f2\<lparr>fl_direction := ''local''\<rparr> else f2) else f)"

definition apply_tuple :: "socket_inventory \<Rightarrow> bool \<Rightarrow> addrport \<times> addrport \<Rightarrow> flow \<Rightarrow> flow" where
  "apply_tuple table loopback ends f = (case ends of (local, remote) \<Rightarrow> case find_inode table (fk_protocol (fl_key f)) local remote of
       None \<Rightarrow> f
     | Some inode \<Rightarrow> let
         f1 = (if map_of (iv_at_start table) (fk_protocol (fl_key f), local, remote) \<noteq> None \<and> \<not> fl_syn_seen f then f\<lparr>fl_preexisting := True\<rparr> else f);
         f2 = infer_sides table loopback local remote f1 in
         case socket_owner table inode of None \<Rightarrow> f2
         | Some p \<Rightarrow> if local = fl_initiator f2 then f2\<lparr>fl_client := p\<rparr>
           else if local = fl_target f2 then f2\<lparr>fl_server := p\<rparr> else f2)"

definition apply_inventory_flow :: "socket_inventory \<Rightarrow> bool \<Rightarrow> flow \<Rightarrow> flow" where
  "apply_inventory_flow table loopback f = (if \<not> ownerless f then f
     else let key = fl_key f in fold (apply_tuple table loopback) [(fk_a key, fk_b key), (fk_b key, fk_a key)] f)"

definition apply_socket_inventory :: "socket_inventory \<Rightarrow> collector \<Rightarrow> collector" where
  "apply_socket_inventory table c = fold (\<lambda>(key, i) c. upd_flow i (apply_inventory_flow table (co_loopback c)) c) (co_flows c) c"

section \<open>Sockets stay bounded\<close>

definition sockets_ok :: "socket_table \<Rightarrow> bool" where
  "sockets_ok t \<longleftrightarrow> distinct (map fst (so_keys t)) \<and> length (so_keys t) \<le> max_socket_streams
     \<and> (\<forall>(key, i)\<in>set (so_keys t). i < so_next t)
     \<and> (\<forall>i < so_next t. ss_quic (so_at t i) \<noteq> None \<or> ss_parser (so_at t i) \<noteq> None)"

lemma open_socket_ok:
  assumes "sockets_ok t" and "length (so_keys t) < max_socket_streams \<or> map_of (so_keys t) (chunk_key x) \<noteq> None"
    and "open_socket clock x t = (i, t')"
  shows "sockets_ok t' \<and> i < so_next t'"
proof -
  have len: "length (AList.update (chunk_key x) j (so_keys t)) \<le> max_socket_streams" for j
    using assms(1,2) by (auto simp: length_update sockets_ok_def map_of_eq_None_iff)
  have keys: "(\<forall>(key, j)\<in>set (AList.update (chunk_key x) (so_next t) (so_keys t)). j < Suc (so_next t))"
    using assms(1) by (fastforce simp: sockets_ok_def dest: update_entry)
  show ?thesis
    using assms(1,3) len keys
    by (auto simp: open_socket_def Let_def put_socket_def sockets_ok_def distinct_update less_Suc_eq split: if_splits prod.splits)
qed

lemma find_socket_ok:
  assumes "sockets_ok t" and "find_socket clock x t = Some (i, t')"
  shows "sockets_ok t' \<and> i < so_next t'"
proof (cases "map_of (so_keys t) (chunk_key x)")
  case None
  then show ?thesis using assms open_socket_ok [of t x clock i t'] by (auto simp: find_socket_def split: if_splits)
next
  case (Some j)
  have "j < so_next t" using assms(1) map_of_SomeD [OF Some] by (auto simp: sockets_ok_def)
  then show ?thesis using assms Some open_socket_ok [of t x clock i t'] by (auto simp: find_socket_def split: if_splits)
qed

lemma put_socket_ok:
  "sockets_ok t \<Longrightarrow> i < so_next t \<Longrightarrow> ss_quic s \<noteq> None \<or> ss_parser s \<noteq> None \<Longrightarrow> sockets_ok (put_socket i s t)"
  by (simp add: sockets_ok_def put_socket_def)

lemma sockets_ok_heap: "sockets_ok (t\<lparr>so_streams := h\<rparr>) = sockets_ok t"
  by (simp add: sockets_ok_def)

lemma socket_add_ok:
  assumes ok: "sockets_ok t" and r: "socket_add A now x t = Ret (res, t')"
  shows "sockets_ok t'"
proof (cases "find_socket (am_clock A) x t")
  case None
  then show ?thesis using assms by (simp add: socket_add_def)
next
  case (Some y)
  obtain i t1 where y: "y = (i, t1)" by (cases y)
  have t1: "sockets_ok t1" "i < so_next t1" using find_socket_ok [OF ok] Some y by blast+
  define t2 where "t2 = put_socket i ((so_at t1 i)\<lparr>ss_last := now\<rparr>) t1"
  have live: "ss_quic (so_at t1 i) \<noteq> None \<or> ss_parser (so_at t1 i) \<noteq> None" using t1 by (simp add: sockets_ok_def)
  have t2: "sockets_ok t2" "i < so_next t2"
    using t1 live put_socket_ok [OF t1, of "(so_at t1 i)\<lparr>ss_last := now\<rparr>"] by (auto simp: t2_def put_socket_def)
  show ?thesis
  proof (cases "ss_quic (so_at t2 i)")
    case (Some q)
    have "add_datagram A now x q i t2 = Ret (res, t')" using r Some \<open>find_socket _ _ _ = _\<close> y by (simp add: socket_add_def Let_def t2_def [symmetric])
    then obtain q' hello initial er where add: "quic_add (am_quic A) (am_parts A) (Some now) (cu_data x) q = Ret (q', hello, initial, er)"
      by (auto simp: add_datagram_def gbind_eq_Ret)
    define t3 where "t3 = put_socket i ((so_at t2 i)\<lparr>ss_quic := Some q'\<rparr>) t2"
    have t3: "sockets_ok t3" "i < so_next t3" using t2 put_socket_ok [OF t2, of "(so_at t2 i)\<lparr>ss_quic := Some q'\<rparr>"] by (auto simp: t3_def put_socket_def)
    have put: "sockets_ok (put_socket i ((so_at t3 i)\<lparr>ss_parser := p\<rparr>) (t3\<lparr>so_streams := h\<rparr>))" for p h
      using t3 by (intro put_socket_ok) (simp_all add: sockets_ok_heap t3_def put_socket_def)
    show ?thesis
      using \<open>add_datagram A now x q i t2 = Ret (res, t')\<close> t3(1) put
      by (auto simp: add_datagram_def add Let_def t3_def [symmetric] new_stream_at_def gtry_eq_Ret split: option.splits if_splits)
  next
    case None
    then obtain p where "add_bytes A x p i t2 = Ret (res, t')"
      using r \<open>find_socket _ _ _ = _\<close> y by (auto simp: socket_add_def Let_def t2_def [symmetric] split: option.splits)
    then show ?thesis using t2(1) by (auto simp: add_bytes_def gbind_eq_Ret Let_def sockets_ok_heap)
  qed
qed

end
