(* ===== verification/Flow_Invariant.thy ===== *)
theory Flow_Invariant imports Flow_Table Collect_Socket begin

text \<open>
  Packets, events and expiry keep the flow table in order and its books balanced (\<open>collector_ok\<close>), whatever the packets and
  events are, at whatever times, and in whatever order the maps are walked.
\<close>

section \<open>A packet keeps the invariants\<close>

abbreviation rx_due :: "packet \<Rightarrow> u64" where
  "rx_due p \<equiv> if k_outgoing p then 0 else ucast (k_ip_bytes p)"

abbreviation tx_due :: "packet \<Rightarrow> u64" where
  "tx_due p \<equiv> if k_outgoing p then ucast (k_ip_bytes p) else 0"

definition collector_ok :: "collector \<Rightarrow> bool" where
  "collector_ok c \<longleftrightarrow> table_ok {} c \<and> books_ok c"

lemma count_bytes_ok:
  assumes "collector_ok c"
  shows "table_ok {} (count_bytes p c)" "books_owe (rx_due p) (tx_due p) (count_bytes p c)"
  using assms by (simp_all add: count_bytes_def Let_def collector_ok_def table_ok_def books_owe_def live_bytes_def all_flows_def attempts_ok_def)

lemma fresh_flow_fields [simp]:
  "fl_key (fresh_flow now prior p key c) = key" "fl_rx (fresh_flow now prior p key c) = 0" "fl_tx (fresh_flow now prior p key c) = 0"
  by (simp_all add: fresh_flow_def Let_def flow0_def split: option.split)

lemma unindexed_ok:
  assumes "table_ok {} c" and "books_owe (rx_due p) (tx_due p) c"
  shows "collector_ok (unindexed p c)"
  using assms by (simp add: unindexed_def Let_def collector_ok_def table_ok_def books_owe_def live_bytes_def all_flows_def attempts_ok_def)

lemma same_books_at: "same_books i c c' \<Longrightarrow> flow_at key c' = flow_at key c"
  by (simp add: same_books_def)

lemma open_flow_ok:
  assumes ok: "table_ok {} c" and books: "books_owe (rx_due p) (tx_due p) c" and new: "flow_at key c = None"
    and r: "open_flow A now prior p key c = (r, c')"
  shows "case r of None \<Rightarrow> collector_ok c'
    | Some i \<Rightarrow> table_ok {i} c' \<and> books_owe (rx_due p) (tx_due p) c' \<and> flow_at key c' = Some i"
proof -
  define c1 where "c1 = make_room A now c"
  have c1: "table_ok {} c1" "books_owe (rx_due p) (tx_due p) c1" "set (co_flows c1) \<subseteq> set (co_flows c)"
    using make_room_ok [OF ok books] by (simp_all add: c1_def)
  have "key \<notin> fst ` set (co_flows c)" using new by (simp add: map_of_eq_None_iff)
  then have fresh: "flow_at key c1 = None" using c1(3) by (auto simp: map_of_eq_None_iff)
  show ?thesis
  proof (cases "co_max_flows c1 \<le> table_size c1")
    case True
    then show ?thesis using r unindexed_ok [OF c1(1,2)] by (simp add: open_flow_def Let_def c1_def [symmetric])
  next
    case False
    obtain i c2 where ins: "insert_flow key (fresh_flow now prior p key c1) c1 = (i, c2)" by fastforce
    have c2: "table_ok {i} c2" "books_owe (rx_due p) (tx_due p) c2" "flow_at key c2 = Some i"
      using insert_flow_ok [OF c1(1,2) fresh _ _ _ _ ins] False by simp_all
    let ?c3 = "take_pending_tcp now key i c2"
    let ?c4 = "if k_protocol p = 17 \<or> opens p then attach_pending_io (am_clock A) key i ?c3 else ?c3"
    have r': "r = Some i" "c' = nat_flow (am_clock A) i (k_protocol p) (k_source p) (k_destination p) ?c4"
      using r False ins by (simp_all add: open_flow_def Let_def c1_def [symmetric])
    have "same_books i c2 ?c4"
      by (rule same_books_trans [OF same_take_tcp same_if [OF same_attach same_books_refl]])
    from same_books_trans [OF this same_nat_flow] have s: "same_books i c2 c'" unfolding r'(2) .
    show ?thesis
      unfolding r'(1) option.case using same_books_table [OF s c2(1)] same_books_books [OF s c2(2)] same_books_at [OF s] c2(3) by simp
  qed
qed

lemma retire_prior_ok:
  assumes ok: "table_ok {} c" and books: "books_owe r t c"
  shows "table_ok {} (retire_prior key c)" "books_owe r t (retire_prior key c)" "flow_at key (retire_prior key c) = None"
proof -
  let ?f = "flush_pending_key key c"
  have s: "same_books i c ?f" for i by (rule same_flush)
  have f: "table_ok {} ?f" by (rule same_everywhere [OF s ok])
  have b: "books_owe r t ?f" by (rule same_books_books [OF s books])
  have at: "flow_at key ?f = flow_at key c" by (rule same_books_at [OF s])
  show "table_ok {} (retire_prior key c)" "books_owe r t (retire_prior key c)"
    using move_retired [OF f b] at ok books by (simp_all add: retire_prior_def Let_def split: option.split)
  show "flow_at key (retire_prior key c) = None"
    by (simp add: retire_prior_def Let_def map_of_eq_None_iff delete_keys split: option.split)
qed

lemma find_flow_ok:
  assumes ok: "table_ok {} c" and books: "books_owe (rx_due p) (tx_due p) c" and r: "find_flow A now p key c = (r, c')"
  shows "case r of None \<Rightarrow> collector_ok c'
    | Some i \<Rightarrow> table_ok {i} c' \<and> books_owe (rx_due p) (tx_due p) c' \<and> flow_at key c' = Some i"
proof -
  define c1 where "c1 = (if prior_generation p key c then retire_prior key c else c)"
  have c1: "table_ok {} c1" "books_owe (rx_due p) (tx_due p) c1" using retire_prior_ok [OF ok books] ok books by (simp_all add: c1_def)
  show ?thesis
  proof (cases "flow_at key c1")
    case None
    then show ?thesis using open_flow_ok [OF c1 None] r by (simp add: find_flow_def Let_def c1_def [symmetric])
  next
    case (Some i)
    then have "r = Some i" "c' = c1" using r by (simp_all add: find_flow_def Let_def c1_def [symmetric])
    then show ?thesis using Some c1 table_ok_mono [OF c1(1), of "{i}"] by simp
  qed
qed

lemma live_changed:
  assumes "distinct (all_flows c)" and "i \<in> set (all_flows c)" and "all_flows c' = all_flows c" and "co_flow c' = (co_flow c)(i := f)"
  shows "live_bytes g c' = live_bytes g c - g (co_flow c i) + g f"
proof -
  obtain xs ys where split_: "all_flows c = xs @ i # ys" using assms(2) by (meson split_list)
  then have "i \<notin> set xs \<union> set ys" using assms(1) by auto
  then have "map (\<lambda>j. g (co_flow c' j)) xs = map (\<lambda>j. g (co_flow c j)) xs" "map (\<lambda>j. g (co_flow c' j)) ys = map (\<lambda>j. g (co_flow c j)) ys"
    by (auto simp: assms(4))
  then show ?thesis by (simp only: live_bytes_def assms(3) split_ map_append list.map sum_list_append sum_list.Cons) (simp add: assms(4))
qed

lemma count_flow_ok:
  assumes ok: "table_ok {i} c" and books: "books_owe (rx_due p) (tx_due p) c" and at: "flow_at key c = Some i"
    and r: "count_flow A now p i c = Ret c'"
  shows "table_ok {i} c'" "books_ok c'" "flow_at key c' = Some i"
proof -
  define f0 n where "f0 = co_flow c i" and "n = (ucast (k_ip_bytes p) :: u64)"
  obtain health where h: "health_observe p (co_loopback c) (am_clock A) (fl_health f0) = Ret health"
    using r by (auto simp: count_flow_def Let_def gbind_eq_Ret f0_def)
  define f1 where "f1 = f0\<lparr>fl_last := Some now, fl_health := health, fl_packets := fl_packets f0 + 1\<rparr>"
  define f2 where "f2 = (if k_outgoing p then f1\<lparr>fl_tx := fl_tx f1 + n\<rparr> else f1\<lparr>fl_rx := fl_rx f1 + n\<rparr>)"
  define f where "f = (if k_truncated p then f2\<lparr>fl_truncated_packets := fl_truncated_packets f2 + 1\<rparr> else f2)"
  have f1: "fl_key f1 = fl_key f0" "fl_rx f1 = fl_rx f0" "fl_tx f1 = fl_tx f0" by (simp_all add: f1_def)
  then have "fl_key f2 = fl_key f0" "fl_rx f2 = fl_rx f0 + rx_due p" "fl_tx f2 = fl_tx f0 + tx_due p" by (simp_all add: f2_def n_def)
  then have f: "fl_key f = fl_key (co_flow c i)" "fl_rx f = fl_rx (co_flow c i) + rx_due p" "fl_tx f = fl_tx (co_flow c i) + tx_due p"
    by (simp_all add: f_def f0_def)
  have run: "count_flow A now p i c = Ret (if k_truncated p
         then (put_flow i (f2\<lparr>fl_truncated_packets := fl_truncated_packets f2 + 1\<rparr>) c)\<lparr>co_truncated := co_truncated c + 1\<rparr>
         else put_flow i f2 c)"
    unfolding count_flow_def Let_def f0_def [symmetric] n_def [symmetric] h gbind.simps f1_def [symmetric] f2_def [symmetric] ..
  have same: "put_flow i f2 c = (put_flow i f2 c)\<lparr>co_truncated := co_truncated c\<rparr>" by (simp add: put_flow_def)
  obtain m where c': "c' = (put_flow i f c)\<lparr>co_truncated := m\<rparr>"
    using r same unfolding run f_def by (cases "k_truncated p") (simp_all, metis)
  have all: "all_flows c' = all_flows c" by (rule all_flows_frame) (simp_all add: c')
  have "i \<in> snd ` set (co_flows c)" using map_of_SomeD [OF at] by force
  then have i: "i \<in> set (all_flows c)" by (simp add: all_flows_def)
  show "table_ok {i} c'" using ok all f(1) by (auto simp: table_ok_def c' attempts_ok_def)
  have "live_bytes g c' = live_bytes g c - g (co_flow c i) + g f" for g
    using ok i all by (intro live_changed) (simp_all add: table_ok_def c')
  then show "books_ok c'" using books f by (simp add: books_owe_def c')
  show "flow_at key c' = Some i" using at by (simp add: c')
qed

lemma unblock_ok:
  assumes "table_ok {i} c" and "books_ok c"
  shows "collector_ok (unblock i c)"
proof (cases "disposable (co_flow c i)")
  case True
  then show ?thesis using assms
    by (simp add: unblock_def collector_ok_def table_ok_def books_owe_def live_bytes_def all_flows_def attempts_ok_def)
next
  case False
  then have "table_ok {} c" using assms(1) unfolding table_ok_def by auto
  then show ?thesis using False assms(2) by (simp add: unblock_def collector_ok_def)
qed

lemma take_packet_steps:
  assumes "take_packet A now p addresses key i c = Ret c'"
  obtains c1 c2 where "count_flow A now p i c = Ret c1" and "same_books i c1 c2" and "c' = unblock i c2"
proof -
  obtain c1 d e f g h j where c1: "count_flow A now p i c = Ret c1"
    and d: "start_midstream A p i (upd_flow i (note_answer p) (note_link A p i (note_initiator A p i c1))) = Ret d"
    and e: "parse_wire A p i d = Ret e" and f: "on_flow i (detect_app p) e = Ret f" and g: "on_flow i (app_details A p addresses) f = Ret g"
    and h: "observe_quic A p i g = Ret h" and j: "take_pending_socket A now p key i (label_wire i h) = Ret j"
    and c': "c' = unblock i (end_tcp p i (take_pending_tls A now key i (name_flow A p i j)))"
    using assms by (auto simp: take_packet_def gbind_eq_Ret)
  note same_note_initiator
  also note same_note_link
  also note same_note_answer
  also have "same_books i (upd_flow i (note_answer p) (note_link A p i (note_initiator A p i c1))) d"
    using gsame_midstream d by (simp add: gsame_def)
  also have "same_books i d e" using gsame_parse_wire e by (simp add: gsame_def)
  also have "same_books i e f" using gsame_detect f by (simp add: gsame_def)
  also have "same_books i f g" using gsame_details g by (simp add: gsame_def)
  also have "same_books i g h" using gsame_quic h by (simp add: gsame_def)
  also note same_label_wire
  also have "same_books i (label_wire i h) j" using gsame_pending_socket j by (simp add: gsame_def)
  also note same_name_flow
  also note same_pending_tls
  also note same_end_tcp
  finally show thesis using that c1 c' by blast
qed

lemma collector_ok_same: "(\<And>i. same_books i c c') \<Longrightarrow> collector_ok c \<Longrightarrow> collector_ok c'"
  using same_everywhere [of c c'] same_books_books [of 0 c c'] by (simp add: collector_ok_def)

lemma same_join_fragment: "join_fragment clock p c = (p', c') \<Longrightarrow> same_books i c c'"
  by (auto simp: join_fragment_def Let_def intro: same split: if_splits option.splits)

lemma same_packet_dns: "packet_dns A now p c = Ret (addresses, c') \<Longrightarrow> same_books i c c'"
  by (auto simp: packet_dns_def Let_def gbind_eq_Ret intro!: same split: if_splits option.splits prod.splits)

lemma packet_at_ok:
  assumes ok: "collector_ok c" and r: "packet_at A now p0 c = Ret c'"
  shows "collector_ok c'"
proof -
  obtain p c1 where j: "join_fragment (am_clock A) p0 c = (p, c1)" by fastforce
  obtain addresses c2 where d: "packet_dns A now p c1 = Ret (addresses, c2)" using r by (auto simp: packet_at_def j gbind_eq_Ret)
  have c2: "collector_ok c2" by (rule collector_ok_same [OF same_packet_dns [OF d] collector_ok_same [OF same_join_fragment [OF j] ok]])
  show ?thesis
  proof (cases "accept_port c2 (k_source p) (k_destination p)")
    case False
    then show ?thesis using r c2 by (simp add: packet_at_def j d)
  next
    case True
    let ?key = "packet_key p"
    obtain m c3 where f: "find_flow A now p ?key (count_bytes p c2) = (m, c3)" by fastforce
    note c3 = find_flow_ok [OF count_bytes_ok [OF c2, of p] f]
    show ?thesis
    proof (cases m)
      case None
      then show ?thesis using r c3 True by (simp add: packet_at_def j d f Let_def)
    next
      case (Some i)
      then have "take_packet A now p addresses ?key i c3 = Ret c'" using r True by (simp add: packet_at_def j d f Let_def)
      then obtain c4 c5 where c4: "count_flow A now p i c3 = Ret c4" "same_books i c4 c5" "c' = unblock i c5" by (rule take_packet_steps)
      have t: "table_ok {i} c3" "books_owe (rx_due p) (tx_due p) c3" "flow_at ?key c3 = Some i" using c3 Some by simp_all
      note counted = count_flow_ok [OF t c4(1)]
      show ?thesis unfolding c4(3)
        using same_books_table [OF c4(2) counted(1)] same_books_books [OF c4(2) counted(2)] by (intro unblock_ok) simp_all
    qed
  qed
qed

section \<open>Events keep the invariants\<close>

lemma same_event_fields [same]:
  "same_books i c (c\<lparr>co_io_unindexed := a\<rparr>)" "same_books i c (c\<lparr>co_io_unmatched := b\<rparr>)" "same_books i c (c\<lparr>co_dropped_role := d\<rparr>)"
  "same_books i c (c\<lparr>co_pid_io := e, co_pid_seen := f\<rparr>)" "same_books i c (c\<lparr>co_pending_io := g, co_pending_io_count := v\<rparr>)"
  "same_books i c (c\<lparr>co_wildcards := h, co_wildcard_seen := k\<rparr>)" "same_books i c (c\<lparr>co_roles := m, co_role_seen := n\<rparr>)"
  by (simp_all add: same_books_def attempts_ok_def)

lemma same_event_tcp: "same_books i c (event_tcp now e c)"
proof -
  have "same_books i c (upd_flow j (\<lambda>f. f\<lparr>fl_health := observe_kernel (side_of (ev_local e) (fl_key f)) (ev_tcp e) (fl_health f)\<rparr>) c)" for j
    by (intro same_upd) (simp add: disposable_def)
  then show ?thesis unfolding event_tcp_def Let_def by (auto intro: same split: option.split)
qed

lemma same_echo_sent: "same_books i c (echo_sent A e c)"
proof -
  have client: "same_books i c (upd_flow j (\<lambda>f. f\<lparr>fl_client := a\<rparr>) c)" for j a by (intro same_upd) (simp add: disposable_def)
  obtain owner ok where o: "echo_owner_for (fst (ev_remote e), snd (ev_local e), ev_protocol e) c = (owner, ok)" by fastforce
  define c1 where "c1 = (case eo_flow owner of None \<Rightarrow> c | Some j \<Rightarrow> upd_flow j (\<lambda>f. f\<lparr>fl_client := event_process e\<rparr>) c)"
  have "same_books i c c1" using client by (simp add: c1_def split: option.split)
  then have "same_books i c (c1\<lparr>co_echo_owners := g\<rparr>)" for g using same_books_trans [OF _ same_field(7)] by blast
  then show ?thesis unfolding echo_sent_def Let_def o prod.case c1_def [symmetric] by simp
qed

lemma same_event_io: "same_books i c (snd (event_io now port_match e c))"
proof -
  have bytes_: "same_books i d (event_bytes now port_match e d)" for d
    unfolding event_bytes_def Let_def by (auto intro: same same_io split: option.split)
  have "same_books i c d" if "event_totals now e c = Some d" for d
    using that by (auto simp: event_totals_def Let_def intro: same split: if_splits)
  then show ?thesis
    unfolding event_io_def by (auto intro: same same_books_trans [OF _ bytes_] split: option.split)
qed

lemma same_event_role: "same_books i c (event_role now e c)"
proof -
  have "fl_key (event_flow d e key r f) = fl_key f \<and> fl_rx (event_flow d e key r f) = fl_rx f \<and> fl_tx (event_flow d e key r f) = fl_tx f
      \<and> disposable (event_flow d e key r f) = disposable f" for d key r f
    by (simp add: event_flow_def Let_def disposable_def)
  then have flow: "same_books i d (upd_flow j (event_flow d e key r) d)" for d j key r by (intro same_upd) blast
  have wild: "same_books i c (event_wildcard now e c)" unfolding event_wildcard_def Let_def by (intro same)
  show ?thesis
  proof (cases "ev_protocol e = 17 \<and> is_unspecified (fst (ev_local e))")
    case False
    define key old where "key = key_for (ev_local e) (ev_remote e) (ev_protocol e)"
      and "old = (case map_of (co_roles c) key of None \<Rightarrow> roles0 | Some r \<Rightarrow> r)"
    define c1 where "c1 = (if length (co_roles c) < co_max_flows c \<or> old \<noteq> roles0
      then c\<lparr>co_roles := AList.update key (event_roles e key old) (co_roles c), co_role_seen := AList.update key now (co_role_seen c)\<rparr>
      else c\<lparr>co_dropped_role := co_dropped_role c + 1\<rparr>)"
    have c1: "same_books i c c1" unfolding c1_def by (intro same)
    have "event_role now e c = (case flow_at key c1 of None \<Rightarrow> c1
       | Some j \<Rightarrow> if takes_events now (co_flow c1 j) then upd_flow j (event_flow c1 e key (event_roles e key old)) c1 else c1)"
      using False unfolding event_role_def Let_def key_def [symmetric] old_def [symmetric] c1_def [symmetric] by auto
    then show ?thesis using c1 same_books_trans [OF c1 flow] by (auto split: option.split)
  qed (simp add: event_role_def wild)
qed

lemma probe_flow_ok:
  assumes ok: "collector_ok c" and new: "flow_at key c = None" and r: "probe_flow A key e c = (r, c')"
  shows "case r of None \<Rightarrow> collector_ok c' | Some i \<Rightarrow> table_ok {i} c' \<and> books_ok c'"
proof -
  define c1 where "c1 = make_room A (am_clock A) c"
  have c1: "table_ok {} c1" "books_ok c1" "set (co_flows c1) \<subseteq> set (co_flows c)"
    using make_room_ok [of "{}" c 0 0] ok by (simp_all add: c1_def collector_ok_def)
  have "key \<notin> fst ` set (co_flows c)" using new by (simp add: map_of_eq_None_iff)
  then have fresh: "flow_at key c1 = None" using c1(3) by (auto simp: map_of_eq_None_iff)
  show ?thesis
  proof (cases "co_max_flows c1 \<le> table_size c1")
    case True
    then show ?thesis using r c1 by (simp add: probe_flow_def Let_def c1_def [symmetric] collector_ok_def)
  next
    case False
    define f where "f = (flow0 key)\<lparr>fl_initiator := ev_local e, fl_target := ev_remote e, fl_first := Some (am_clock A), fl_last := Some (am_clock A),
         fl_tcp_state := ''syn'', fl_direction := (if co_loopback c1 then ''local'' else ''outbound'')\<rparr>"
    obtain i c2 where ins: "insert_flow key f c1 = (i, c2)" by fastforce
    have f: "fl_key f = key" "fl_rx f = 0" "fl_tx f = 0" by (simp_all add: f_def flow0_def)
    have "table_ok {i} c2" "books_ok c2" using insert_flow_ok [OF c1(1,2) fresh f _ ins] False by simp_all
    moreover have "r = Some i" "c' = c2" using r False ins by (simp_all add: probe_flow_def Let_def c1_def [symmetric] f_def)
    ultimately show ?thesis by simp
  qed
qed

lemma result_seen_ok:
  assumes "table_ok {i} c" and "books_ok c"
  shows "collector_ok (unblock i (upd_flow i (result_seen now e) c))"
proof -
  have s: "same_books i c (upd_flow i (result_seen now e) c)" by (intro same_upd) (simp add: result_seen_def Let_def)
  show ?thesis using same_books_table [OF s assms(1)] same_books_books [OF s assms(2)] by (intro unblock_ok) simp_all
qed

lemma connect_result_ok:
  assumes ok: "collector_ok c"
  shows "collector_ok (connect_result A e c)"
proof -
  let ?key = "key_for (ev_local e) (ev_remote e) 6"
  define stale where "stale = (case flow_at ?key c of None \<Rightarrow> False | Some i \<Rightarrow> \<not> takes_events (am_clock A) (co_flow c i))"
  define c1 where "c1 = (case flow_at ?key c of None \<Rightarrow> c | Some i \<Rightarrow> if stale
             then c\<lparr>co_retired := co_retired c @ [i], co_flows := AList.delete ?key (co_flows c)\<rparr> else c)"
  have c1: "collector_ok c1"
    using ok move_retired [of "{}" c 0 0 ?key] by (auto simp: c1_def collector_ok_def split: option.split)
  have result: "collector_ok (case (case flow_at ?key c1 of Some i \<Rightarrow> (Some i, c1) | None \<Rightarrow> probe_flow A ?key e c1) of
           (None, c2) \<Rightarrow> c2 | (Some i, c2) \<Rightarrow> unblock i (upd_flow i (result_seen (am_clock A) e) c2))"
  proof (cases "flow_at ?key c1")
    case None
    obtain m c2 where p: "probe_flow A ?key e c1 = (m, c2)" by fastforce
    show ?thesis using probe_flow_ok [OF c1 None p] result_seen_ok None by (cases m) (simp_all add: p)
  next
    case (Some i)
    have "table_ok {i} c1" "books_ok c1" using c1 table_ok_mono [of "{}" c1 "{i}"] by (simp_all add: collector_ok_def)
    then show ?thesis using result_seen_ok Some by simp
  qed
  show ?thesis
    using ok result unfolding connect_result_def Let_def stale_def [symmetric] c1_def [symmetric] by simp
qed

lemma event_at_ok:
  assumes ok: "collector_ok c"
  shows "collector_ok (event_at A now e c)"
proof -
  obtain local remote where n: "nat_socket (ev_local e) (ev_remote e) (ev_protocol e) c = (local, remote)" by (metis surj_pair)
  define e1 where "e1 = e\<lparr>ev_local := local, ev_remote := remote\<rparr>"
  define c2 where "c2 = event_tcp now e1 (if ev_operation e1 = ''connect_result'' then connect_result A e1 c else c)"
  define port_match where "port_match = accept_port c2 local remote"
  obtain go_on c3 where io: "event_io now port_match e1 c2 = (go_on, c3)" by fastforce
  have "collector_ok (if ev_operation e1 = ''connect_result'' then connect_result A e1 c else c)" using ok connect_result_ok by simp
  then have c2: "collector_ok c2" unfolding c2_def by (rule collector_ok_same [OF same_event_tcp])
  have "same_books i c2 c3" for i using same_event_io [of i c2 now port_match e1] by (simp add: io)
  then have c3: "collector_ok c3" using c2 by (rule collector_ok_same)
  have "collector_ok (echo_sent A e1 c2)" "collector_ok (event_role now e1 c3)"
    using c2 c3 by (auto intro: collector_ok_same [OF same_echo_sent] collector_ok_same [OF same_event_role])
  then show ?thesis
    using c2 c3 unfolding event_at_def n prod.case Let_def e1_def [symmetric] c2_def [symmetric] port_match_def [symmetric] io by simp
qed

lemma tls_event_ok: "collector_ok c \<Longrightarrow> collector_ok (fst (tls_event_seen A e c))"
  by (rule collector_ok_same) (auto simp: tls_event_seen_def Let_def intro: same split: option.split)

lemma socket_evidence_ok:
  assumes "collector_ok c" and "socket_evidence A s c = Ret c'"
  shows "collector_ok c'"
proof -
  have "gsame i c (socket_evidence A s c)" for i
    unfolding socket_evidence_def Let_def by (auto intro: same split: option.split)
  then have "same_books i c c'" for i using assms(2) by (simp add: gsame_def)
  then show ?thesis using assms(1) by (rule collector_ok_same)
qed

section \<open>Expiry keeps the invariants\<close>

lemma map_ok_filter: "map_ok n Q m \<Longrightarrow> map_ok n Q (filter P m)"
  by (auto simp: map_ok_def distinct_map_filter list_all_iff intro: order_trans [OF length_filter_le])

lemma same_expire_waiting: "same_books i c (expire_waiting now c)"
proof -
  have s: "same_books i c (expire_pending_io now False c)"
    unfolding expire_pending_io_def Let_def
    by (rule same_books_trans [OF same_fold same_field(6)]) (auto intro: same_fold same split: prod.split)
  have w: "same_books i d (d\<lparr>co_pending_tcp := x1, co_pending_tls := x2, co_pending_socket := x3, co_fragments := x4, co_echo_owners := x5,
      co_attempts := filter P (co_attempts d)\<rparr>)" for d x1 x2 x3 x4 x5 P
    by (simp add: same_books_def attempts_ok_def map_ok_filter)
  show ?thesis unfolding expire_waiting_def Let_def by (rule same_books_trans [OF s w])
qed

lemma same_expire_processes: "same_books i c (expire_processes now c)"
proof -
  have "same_books i d (expire_process actor d)" for actor d
    by (simp add: expire_process_def Let_def same_books_def attempts_ok_def)
  then have all: "same_books i c (fold expire_process ids c)" for ids by (intro same_fold)
  have "same_books i d (forget_io ids j d)" for ids j d
    unfolding forget_io_def by (intro same_upd) (simp add: disposable_def)
  then have forget: "same_books i d (fold (forget_io ids) js d)" for ids js d by (intro same_fold)
  show ?thesis unfolding expire_processes_def Let_def by (intro same_if all same_books_trans [OF all forget])
qed

lemma same_tick_wire: "same_books i c (tick_wire now j c)"
  by (auto simp: tick_wire_def intro: same split: option.split)

lemma same_ticks: "same_books i c (tick_quic A now j (tick_nat j (tick_wire now j c)))"
proof -
  have nat_: "same_books i d (tick_nat j d)" for d
    by (auto simp: tick_nat_def Let_def intro: same split: option.split)
  have upd: "same_books i d (upd_flow j (\<lambda>f. f\<lparr>fl_quic := t\<rparr>) d)" for d t by (intro same_upd) (simp add: disposable_def)
  have "same_books i d (tick_quic A now j d)" for d
    unfolding tick_quic_def Let_def
    by (auto intro: upd same_books_trans [OF upd same_books_trans [OF same_set_quic same_choose]] split: option.split)
  then show ?thesis using same_books_trans [OF same_books_trans [OF same_tick_wire nat_]] by blast
qed

lemma expire_live_ok:
  assumes ok: "collector_ok c" and at: "(key, i) \<in> set (co_flows c)"
  shows "collector_ok (expire_live A now (key, i) c)"
    and "co_flows (expire_live A now (key, i) c) \<in> {co_flows c, AList.delete key (co_flows c)}"
proof -
  define c1 where "c1 = tick_quic A now i (tick_nat i (tick_wire now i c))"
  have c1: "collector_ok c1" unfolding c1_def by (rule collector_ok_same [OF same_ticks ok])
  have flows: "co_flows c1 = co_flows c" using same_ticks [of i c A now i] by (simp add: same_books_def c1_def)
  have key: "fl_key (co_flow c1 i) = key" using c1 at flows by (intro table_entry(1) [of "{}"]) (simp_all add: collector_ok_def)
  have live: "expire_live A now (key, i) c = (if idle now (co_flow c1 i) then evict_flow now i c1 else c1)"
    by (simp add: expire_live_def Let_def c1_def [symmetric] evict_flow_def key)
  have i: "(fl_key (co_flow c1 i), i) \<in> set (co_flows c1)" using at by (simp add: flows key)
  have books: "table_ok {} c1" "books_ok c1" using c1 by (simp_all add: collector_ok_def)
  note evicted = evict_flow_ok [OF books i, of now]
  show "collector_ok (expire_live A now (key, i) c)" using c1 evicted by (simp add: live collector_ok_def)
  show "co_flows (expire_live A now (key, i) c) \<in> {co_flows c, AList.delete key (co_flows c)}"
    using evicted(3) by (simp add: live flows key)
qed

lemma expire_lives_ok:
  assumes "collector_ok c" and "distinct (map fst entries)" and "set entries \<subseteq> set (co_flows c)"
  shows "collector_ok (fold (expire_live A now) entries c)"
  using assms
proof (induction entries arbitrary: c)
  case (Cons x entries)
  obtain key i where x: "x = (key, i)" by (cases x)
  have at: "(key, i) \<in> set (co_flows c)" using Cons.prems(3) by (simp add: x)
  note live = expire_live_ok [OF Cons.prems(1) at]
  have "fst y \<noteq> key" if "y \<in> set entries" for y using Cons.prems(2) that by (force simp: x)
  then have "set entries \<subseteq> set (AList.delete key (co_flows c))" using Cons.prems(3) by (auto simp: delete_filter)
  then have "set entries \<subseteq> set (co_flows (expire_live A now (key, i) c))"
    using live(2) [of A now] Cons.prems(3) by (elim insertE emptyE) auto
  then show ?case using Cons.IH [OF live(1)] Cons.prems(2) by (simp add: x)
qed simp

lemma expire_retired_ok:
  assumes "collector_ok (c\<lparr>co_retired := retained @ is\<rparr>)"
  shows "collector_ok (expire_retired now is retained c)"
  using assms
proof (induction "is" arbitrary: retained c)
  case (Cons i "is")
  let ?d = "c\<lparr>co_retired := retained @ i # is\<rparr>"
  have tick: "tick_wire now i ?d = (tick_wire now i c)\<lparr>co_retired := retained @ i # is\<rparr>"
    by (simp add: tick_wire_def split: option.split)
  define e where "e = tick_wire now i c"
  have ok: "collector_ok (e\<lparr>co_retired := retained @ i # is\<rparr>)"
    using collector_ok_same [OF same_tick_wire Cons.prems, of now i] by (simp only: tick e_def)
  have expired: "collector_ok ((expire_flow i now e)\<lparr>co_retired := retained @ is\<rparr>)"
  proof -
    let ?e = "e\<lparr>co_retired := retained @ i # is\<rparr>"
    have books: "table_ok {} ?e" "books_ok ?e" using ok by (simp_all add: collector_ok_def)
    have same: "(expire_flow i now e)\<lparr>co_flows := co_flows e, co_retired := retained @ is\<rparr> = (expire_flow i now e)\<lparr>co_retired := retained @ is\<rparr>"
      using expire_flow_frame(1) [of i now e, symmetric] by simp
    have "distinct (map fst (co_flows e))" using books(1) by (simp add: table_ok_def)
    then show ?thesis
      using expired_out [OF books, of "co_flows e" "retained @ is" i now] by (simp add: collector_ok_def same)
  qed
  show ?case
    using Cons.IH [of retained "expire_flow i now e"] Cons.IH [of "retained @ [i]" e] expired ok by (simp add: Let_def e_def [symmetric])
qed simp

lemma collector_expire_ok:
  assumes "collector_ok c"
  shows "collector_ok (collector_expire A now c)"
proof -
  define c1 where "c1 = expire_processes now (expire_waiting now c)"
  have c1: "collector_ok c1" unfolding c1_def
    by (rule collector_ok_same [OF same_expire_processes collector_ok_same [OF same_expire_waiting assms]])
  define c2 where "c2 = fold (expire_live A now) (ranged (am_flows A) (co_flows c1)) c1"
  have "distinct (map fst (co_flows c1))" using c1 by (simp add: collector_ok_def table_ok_def)
  then have c2: "collector_ok c2" unfolding c2_def by (intro expire_lives_ok c1 distinct_ranged) simp_all
  have "collector_ok (expire_retired now (co_retired c2) [] c2)" by (rule expire_retired_ok) (use c2 in simp)
  moreover have "same_books i d (expire_roles now d)" for i d by (simp add: expire_roles_def same_books_def attempts_ok_def)
  ultimately show ?thesis
    unfolding collector_expire_def Let_def c1_def [symmetric] c2_def [symmetric] by (intro collector_ok_same [of _ "expire_roles now _"])
qed

section \<open>Drops and the periodic steps keep the invariants\<close>

lemma record_drop_ok:
  assumes ok: "collector_ok c"
  shows "collector_ok (record_drop A d create c)"
proof -
  have counted: "same_books i b (upd_flow j (count_drop (am_clock A) d) b)" for i j b
    by (intro same_upd) (simp add: count_drop_def Let_def disposable_def)
  have seen: "collector_ok (upd_flow j (count_drop (am_clock A) d) b)" if "collector_ok b" for j b
    using that by (rule collector_ok_same [OF counted])
  define key where "key = key_for (kd_source d) (kd_target d) (kd_protocol d)"
  have new: "collector_ok (case insert_flow key (drop_flow (am_clock A) d key owners) c of
      (i, c1) \<Rightarrow> upd_flow i (count_drop (am_clock A) d) (unblock i c1))"
    if "flow_at key c = None" and "\<not> co_max_flows c \<le> table_size c" for owners
  proof -
    define f where "f = drop_flow (am_clock A) d key owners"
    have f: "fl_key f = key" "fl_rx f = 0" "fl_tx f = 0" by (simp_all add: f_def drop_flow_def flow0_def)
    obtain i c1 where ins: "insert_flow key f c = (i, c1)" by fastforce
    have "table_ok {i} c1" "books_ok c1"
      using insert_flow_ok [of c 0 0 key f i c1] ok that f ins by (simp_all add: collector_ok_def)
    then have "collector_ok (unblock i c1)" by (rule unblock_ok)
    then show ?thesis by (simp add: f_def [symmetric] ins seen)
  qed
  show ?thesis
    unfolding record_drop_def Let_def key_def [symmetric] using ok seen new by (auto split: option.split)
qed

lemma same_attach_hint: "same_books i c (attach_hint A cache j c)"
proof -
  have "same_books i c (choose_at A j (upd_flow j (\<lambda>f. f\<lparr>fl_dns_domain := Some r\<rparr>) c1))" if "new_stream_in s c = (r, c1)" for s r c1
  proof -
    have "same_books i c1 (upd_flow j (\<lambda>f. f\<lparr>fl_dns_domain := Some r\<rparr>) c1)" by (intro same_upd) (simp add: disposable_def)
    from same_books_trans [OF same_books_trans [OF same_new_stream [OF that] this] same_choose] show ?thesis .
  qed
  then show ?thesis by (auto simp: attach_hint_def Let_def split: prod.split)
qed

lemma attach_dns_hints_ok: "collector_ok c \<Longrightarrow> collector_ok (attach_dns_hints A c)"
  by (rule collector_ok_same) (auto simp: attach_dns_hints_def simp del: fold_append intro: same_fold same_attach_hint split: option.split)

lemma same_reconcile_one: "same_books i c (reconcile_one \<rho> entry c)"
proof -
  have forget: "same_books i b (upd_flow j (forget_wildcard key) b)" for j key b
    by (intro same_upd) (simp add: forget_wildcard_def Let_def disposable_def)
  have found: "same_books i b (upd_flow j (match_wildcard key p) b)" for j key p b
    by (intro same_upd) (simp add: match_wildcard_def disposable_def)
  show ?thesis
    by (auto simp: reconcile_one_def Let_def intro: same_fold forget found split: prod.split)
qed

lemma reconcile_wildcards_ok: "collector_ok c \<Longrightarrow> collector_ok (reconcile_wildcards \<rho> \<omega> c)"
  by (rule collector_ok_same) (auto simp: reconcile_wildcards_def intro: same_fold same_reconcile_one)

text \<open>The socket table of the kernel names sides and processes, nothing the books read.\<close>

definition ledger :: "flow \<Rightarrow> flow_key \<times> u64 \<times> u64 \<times> bool" where
  "ledger f = (fl_key f, fl_rx f, fl_tx f, disposable f)"

lemma apply_tuple_ledger: "ledger (apply_tuple table loopback ends f) = ledger f"
proof -
  have sides: "ledger (infer_sides table loopback local remote f) = ledger f" for local remote f
    by (simp add: infer_sides_def Let_def ledger_def disposable_def)
  have people: "ledger (f\<lparr>fl_client := p\<rparr>) = ledger f" "ledger (f\<lparr>fl_server := p\<rparr>) = ledger f" "ledger (f\<lparr>fl_preexisting := b\<rparr>) = ledger f" for f p b
    by (simp_all add: ledger_def disposable_def)
  show ?thesis by (simp add: apply_tuple_def Let_def sides people split: prod.split option.split)
qed

lemma same_inventory: "same_books i c (apply_socket_inventory table c)"
proof -
  have "ledger (apply_inventory_flow table loopback f) = ledger f" for loopback f
    by (simp add: apply_inventory_flow_def Let_def apply_tuple_ledger)
  then have "same_books i b (upd_flow j (apply_inventory_flow table (co_loopback b)) b)" for j b
    by (intro same_upd) (simp add: ledger_def)
  then show ?thesis unfolding apply_socket_inventory_def by (intro same_fold) (simp split: prod.split)
qed

section \<open>Every run keeps the invariants\<close>

text \<open>The collector of \<^verbatim>\<open>Run\<close> before the first packet, with room for \<open>room\<close> flows.\<close>

definition new_collector :: "nat \<Rightarrow> u16 \<Rightarrow> bool \<Rightarrow> nat \<Rightarrow> dns_cache option \<Rightarrow> nat_table option \<Rightarrow> (nat \<Rightarrow> socket_stream) \<Rightarrow> streams \<Rightarrow> collector" where
  "new_collector room port loopback index dns table sockets streams = \<lparr>co_flows = [], co_flow = (\<lambda>_. flow0 (key_for no_endpoint no_endpoint 0)), co_next = 0,
     co_streams = streams, co_sockets = sockets, co_dns = dns, co_nat = table, co_pending_tls = [], co_pending_socket = [], co_fragments = [],
     co_echo_owners = [], co_attempts = [], co_retired = [], co_roles = [], co_wildcards = [], co_role_seen = [], co_wildcard_seen = [],
     co_max_flows = room, co_eviction_blocked = False, co_filter_port = port, co_loopback = loopback, co_interface = index,
     co_pid_io = [], co_rx_bytes = 0, co_tx_bytes = 0, co_pid_seen = [], co_expired_pid_io = io_bytes0, co_expired_pid_count = 0,
     co_pending_io = [], co_pending_tcp = [], co_pending_io_count = 0, co_io_unmatched = 0, co_io_unindexed = io_bytes0, co_packets = 0,
     co_bytes = 0, co_dropped_flow = 0, co_dropped_role = 0, co_truncated = 0, co_expired_flows = 0, co_expired_rx = 0, co_expired_tx = 0,
     co_expired_domain_rx = 0, co_expired_domain_tx = 0, co_unindexed_rx = 0, co_unindexed_tx = 0\<rparr>"

lemma new_collector_ok: "collector_ok (new_collector room port loopback index dns table sockets streams)"
  by (simp add: collector_ok_def table_ok_def books_owe_def live_bytes_def all_flows_def attempts_ok_def new_collector_def)

text \<open>
  What the capture loop does with a collector, in any order.  What the collectors of a namespace share (the streams, the sockets, the
  DNS cache and the NAT table) can change between two steps.
\<close>

inductive collector_step :: "collector \<Rightarrow> collector \<Rightarrow> bool" where
  take_a_packet: "packet_at A now p c = Ret c' \<Longrightarrow> collector_step c c'"
| take_an_event: "collector_step c (event_at A now e c)"
| take_tls_event: "collector_step c (fst (tls_event_seen A t c))"
| take_socket: "socket_evidence A s c = Ret c' \<Longrightarrow> collector_step c c'"
| take_drop: "collector_step c (record_drop A d create c)"
| attach_hints: "collector_step c (attach_dns_hints A c)"
| reconcile: "collector_step c (reconcile_wildcards \<rho> \<omega> c)"
| take_inventory: "collector_step c (apply_socket_inventory table c)"
| link_entry: "collector_step c (link_nat clock entry c)"
| expire_old: "collector_step c (collector_expire A now c)"
| shared_change: "collector_step c (c\<lparr>co_streams := h, co_sockets := ss, co_dns := dns, co_nat := t\<rparr>)"

inductive_cases collector_stepE: "collector_step c c'"

lemma collector_step_ok:
  assumes "collector_step c c'" and "collector_ok c"
  shows "collector_ok c'"
  using assms
proof (cases rule: collector_step.cases)
  case (shared_change h ss dns t)
  show ?thesis using assms(2) unfolding shared_change(1)
    by (simp add: collector_ok_def table_ok_def books_owe_def live_bytes_def all_flows_def attempts_ok_def)
next
  case (take_inventory table)
  show ?thesis unfolding take_inventory(1) using assms(2) by (rule collector_ok_same [OF same_inventory])
next
  case (link_entry clock entry)
  have "same_books i c c'" for i
    unfolding link_entry(1) link_nat_def Let_def by (auto intro: same same_books_trans [OF same_link_one same_link_one] split: option.split)
  then show ?thesis using assms(2) by (rule collector_ok_same)
qed (use assms(2) in \<open>auto simp: event_at_ok tls_event_ok record_drop_ok attach_dns_hints_ok reconcile_wildcards_ok collector_expire_ok
       intro: packet_at_ok socket_evidence_ok\<close>)

lemma collector_run_ok: "collector_step\<^sup>*\<^sup>* c c' \<Longrightarrow> collector_ok c \<Longrightarrow> collector_ok c'"
  by (induction rule: rtranclp_induct) (auto intro: collector_step_ok)

end
