(* ===== verification/Demo.thy ===== *)
theory Demo imports Stream begin

text \<open>
  Concrete inputs, for the witnesses of the properties: an environment whose external functions are
  trivial, and a short client stream that arrives out of order and with an overlap.
\<close>

definition demo_env :: env where
  "demo_env = \<lparr>uni_upper = (\<lambda>c. if 97 \<le> c \<and> c \<le> 122 then c - 32 else c), uni_lower = (\<lambda>c. c), quote = (\<lambda>b. b), sha256 = (\<lambda>_. []),
     hpack = (\<lambda>_ _. Inr [])\<rparr>"

definition demo_bytes :: bytes where "demo_bytes = lit ''abcde''"

definition demo_arrivals :: "arrival list" where
  "demo_arrivals = [(\<lambda>_ _. 0, 1, 1002, lit ''cde''), (\<lambda>_ _. 0, 2, 1000, lit ''abc'')]"

definition demo_stream :: stream where
  "demo_stream = stream0\<lparr>r_parser := parser0\<lparr>s_sniff := lit ''abcde''\<rparr>, r_last_progress := Some 2, r_expected := 1005\<rparr>"

lemma demo_feeds:
  "parser_feed demo_env parser0 (lit ''abc'') = Ret (parser0\<lparr>s_sniff := lit ''abc''\<rparr>, None)"
  "parser_feed demo_env (parser0\<lparr>s_sniff := lit ''abc''\<rparr>) (lit ''de'') = Ret (parser0\<lparr>s_sniff := lit ''abcde''\<rparr>, None)"
  by code_simp+

lemma demo_kinds: "\<not> parser_finished (parser0\<lparr>s_sniff := b\<rparr>)" "\<not> parser_finished parser0"
  by (simp_all add: parser_finished_def parser0_def evidence0_def)

lemma demo_seq: "seq_diff 1002 1000 = 2" "seq_diff 1000 1000 = 0" "seq_diff 1002 1003 = -1"
  by (simp_all add: seq_diff_def)

lemma demo_run: "stream_adds demo_env (new_stream 0 1000) demo_arrivals = Ret demo_stream"
  using demo_feeds
  by (simp add: demo_arrivals_def demo_stream_def stream_add_def new_stream_def stream0_def demo_kinds demo_seq stream_park_def
     Let_def max_pending_parts_def max_pending_bytes_def pend_get_def stream_push_def push_start_def push_end_def
     stream_drain.simps range_order_def neg32_def gfrom_int_def drop_segment_def lit_def)

lemma demo_arrives: "\<forall>a \<in> set demo_arrivals. arrives 1000 demo_bytes a"
proof -
  have "segment_of 1000 demo_bytes (1002, lit ''cde'')" "segment_of 1000 demo_bytes (1000, lit ''abc'')"
    by (auto simp: segment_of_def demo_bytes_def lit_def intro: exI [of _ 2] exI [of _ 0])
  then show ?thesis by (simp add: demo_arrivals_def arrives_def)
qed

lemma demo_running: "\<not> r_failed demo_stream" "\<not> parser_finished (r_parser demo_stream)"
  by (simp_all add: demo_stream_def demo_kinds) (simp add: stream0_def)

lemma demo_length [simp]: "length demo_bytes = 5"
  by (simp add: demo_bytes_def lit_def)

lemma demo_unicode: "unicode_upper (uni_upper demo_env)"
  by (auto simp: unicode_upper_def demo_env_def up_byte_def rune_error_def word_less_nat_alt word_le_nat_alt unat_sub)

lemma demo_covered: "\<forall>p < length demo_bytes. \<exists>(i, n) \<in> offsets 1000 demo_bytes demo_arrivals. i \<le> p \<and> p < i + n"
proof -
  have "(2, 3) \<in> offsets 1000 demo_bytes demo_arrivals" "(0, 3) \<in> offsets 1000 demo_bytes demo_arrivals"
    by (auto simp: offsets_def demo_bytes_def demo_arrivals_def lit_def)
  then have "\<exists>(i, n) \<in> offsets 1000 demo_bytes demo_arrivals. i \<le> p \<and> p < i + n" if "p < 5" for p
  proof (cases "p < 3")
    case True
    then show ?thesis by (intro bexI [OF _ \<open>(0, 3) \<in> offsets 1000 demo_bytes demo_arrivals\<close>]) simp
  next
    case False
    then show ?thesis using that by (intro bexI [OF _ \<open>(2, 3) \<in> offsets 1000 demo_bytes demo_arrivals\<close>]) simp
  qed
  then show ?thesis by simp
qed

text \<open>A parser in the middle of a request body.\<close>

definition demo_body :: parser where
  "demo_body = parser0\<lparr>s_evidence := evidence0\<lparr>e_kind := KHttp\<rparr>, s_http := http_parser0\<lparr>p_state := HttpFixedBody, p_remaining := 120\<rparr>\<rparr>"

lemma demo_body_ok: "parser_ok demo_body"
  by (simp add: demo_body_def parser_ok_def parser_mid_def parser0_def evidence0_def ev_ok_def hosts_ok_def ev_printable_def
      max_http_hosts_def printable_def max_sniff_bytes_def http_ok_def http_inv_def http_rest_def http_parser0_def body_limit_def)

lemma demo_body_skip: "parser_skip demo_body 100 = Ret (demo_body\<lparr>s_http := (s_http demo_body)\<lparr>p_remaining := 20\<rparr>\<rparr>)"
  by (simp add: parser_skip_def demo_body_def parser_finished_def parser0_def evidence0_def http_skip_def http_parser0_def)

lemma demo_body_running: "\<not> parser_finished demo_body"
  by (simp add: demo_body_def parser_finished_def parser0_def evidence0_def http_parser0_def)

lemma h2_trailer_run:
  "\<exists>p' e' er. h2_request demo_env [(lit ''content-type'', lit ''application/grpc'')] (h2_parser0\<lparr>h2_stream := 3, h2_last := 5\<rparr>) evidence0 = Ret (p', e', er)"
  by (simp add: h2_request_def Let_def split: prod.split)

end
