(* ===== verification/Collector_Run.thy ===== *)
theory Collector_Run imports Flow_Invariant Demo begin

text \<open>
  What the invariants of the flow table give: a new flow finds room while some flow of a full table can go, and
  a packet that panics the parser of its connection panics the collector.

  The end holds concrete inputs for the witnesses of the properties.
\<close>

section \<open>Room for new flows\<close>

lemma evict_frees:
  assumes ok: "table_ok X c" and books: "books_owe r t c" and open_: "\<not> co_eviction_blocked c" and some: "candidates \<rho> c \<noteq> []"
  shows "table_size (evict \<rho> now c) < table_size c" "co_max_flows (evict \<rho> now c) = co_max_flows c"
proof -
  let ?is = "candidates \<rho> c"
  define chosen where "chosen = take (min (length ?is) (co_max_flows c div 10 + 1)) (sort_key (\<lambda>i. last_key (co_flow c i)) ?is)"
  have ev: "evict \<rho> now c = fold (evict_flow now) chosen c" using open_ some by (simp add: evict_def Let_def chosen_def)
  have sub: "set chosen \<subseteq> set ?is" unfolding chosen_def by (metis set_take_subset set_sort)
  have d: "distinct (map snd (co_flows c))" using ok by (simp add: table_ok_def all_flows_def)
  then have "distinct (map snd (ranged \<rho> (co_flows c)))" by (metis mset_ranged mset_map mset_eq_imp_distinct_iff)
  then have "distinct chosen" by (simp add: chosen_def candidates_def distinct_take)
  moreover have "\<forall>i\<in>set chosen. (fl_key (co_flow c i), i) \<in> set (co_flows c)"
    using sub table_entry(1) [OF ok] by (fastforce simp: candidates_def)
  ultimately have e: "length (co_flows (fold (evict_flow now) chosen c)) + length chosen = length (co_flows c)"
    "co_retired (fold (evict_flow now) chosen c) = co_retired c" "co_max_flows (fold (evict_flow now) chosen c) = co_max_flows c"
    using evict_flows_ok [OF ok books, of chosen now] by simp_all
  have "0 < length chosen" using some by (simp add: chosen_def)
  then have "length (co_flows (fold (evict_flow now) chosen c)) < length (co_flows c)" using e(1) by linarith
  then show "table_size (evict \<rho> now c) < table_size c" unfolding ev using e(2) by simp
  show "co_max_flows (evict \<rho> now c) = co_max_flows c" unfolding ev by (rule e(3))
qed

lemma room_made:
  assumes ok: "table_ok {} c" and books: "books_owe r t c" and entry: "(k, i) \<in> set (co_flows c)" and old: "disposable (co_flow c i)"
  shows "table_size (make_room A now c) < co_max_flows (make_room A now c)"
proof -
  have "i \<in> set (candidates (am_flows A) c)" using entry old by (force simp: candidates_def)
  then have some: "candidates (am_flows A) c \<noteq> []" by auto
  have "\<not> co_eviction_blocked c" using ok entry old by (auto simp: table_ok_def)
  note free = evict_frees [OF ok books this some, of now]
  have "table_size c \<le> co_max_flows c" using ok by (simp add: table_ok_def)
  then show ?thesis using free by (simp add: make_room_def)
qed

text \<open>A packet of an unknown key gets a flow while some flow of the table can go.\<close>

lemma found_room:
  assumes ok: "collector_ok c" and entry: "(k, i) \<in> set (co_flows c)" and old: "disposable (co_flow c i)"
    and new: "flow_at key c = None"
  shows "\<exists>j c'. find_flow A now p key (count_bytes p c) = (Some j, c') \<and> flow_at key c' = Some j \<and> fl_key (co_flow c' j) = key"
proof -
  let ?c = "count_bytes p c"
  have bytes_: "co_flows ?c = co_flows c" "co_flow ?c = co_flow c" by (simp_all add: count_bytes_def Let_def)
  have ready: "table_ok {} ?c" "books_owe (rx_due p) (tx_due p) ?c" using count_bytes_ok ok by (simp_all add: collector_ok_def)
  note room = room_made [OF ready, of k i A now, unfolded bytes_, OF entry old]
  have find: "find_flow A now p key ?c = open_flow A now False p key ?c"
    using new by (simp add: find_flow_def prior_generation_def bytes_)
  obtain r c' where r: "open_flow A now False p key ?c = (r, c')" by fastforce
  then obtain j where j: "r = Some j" using room by (auto simp: open_flow_def Let_def split: prod.splits if_splits)
  from open_flow_ok [OF ready _ r] new have "table_ok {j} c'" "flow_at key c' = Some j" by (simp_all add: bytes_ j)
  then show ?thesis using find r j by (auto simp: table_ok_def dest!: map_of_SomeD)
qed

section \<open>A panic of the parser is a panic of the collector\<close>

lemma health_not_fail: "health_observe p loopback clock h \<noteq> Fail e"
proof -
  have range_: "note_range span ring \<noteq> Fail e'" for span ring e'
    by (auto simp: note_range_def gput_def gbind_eq_Fail split: prod.splits if_splits)
  have payload: "observe_payload fast p i h' \<noteq> Fail e'" for fast i h' e'
    by (auto simp: observe_payload_def Let_def range_ gbind_eq_Fail split: prod.splits)
  show ?thesis
    by (auto simp: health_observe_def health_observe_with_def Let_def payload gbind_eq_Fail split: prod.splits if_splits)
qed

lemma count_flow_cases:
  "count_flow A now p i c = Panic \<or> (\<exists>c'. count_flow A now p i c = Ret c' \<and> co_streams c' = co_streams c
    \<and> fl_wire_domain (co_flow c' i) = fl_wire_domain (co_flow c i) \<and> fl_wire_client (co_flow c' i) = fl_wire_client (co_flow c i))"
proof (cases "health_observe p (co_loopback c) (am_clock A) (fl_health (co_flow c i))")
  case (Fail e)
  then show ?thesis using health_not_fail by metis
qed (simp_all add: count_flow_def Let_def)

lemma packet_panics:
  assumes plain: "\<not> k_fragmented p" "k_protocol p = 6" "k_ether_type p = 0" "\<not> k_syn p" "snd (k_source p) \<notin> {53, 5353, 5355}"
    and data: "k_payload p \<noteq> []" "k_payload_len p \<le> length (k_payload p)" and port: "accept_port c (k_source p) (k_destination p)"
    and flow: "flow_at (packet_key p) c = Some i" "fl_wire_domain (co_flow c i) = Some w" "fl_wire_client (co_flow c i) = k_source p"
    and stream: "\<not> r_failed (st_at (co_streams c) w)" "\<not> parser_finished (r_parser (st_at (co_streams c) w))"
      "seq_diff (k_tcp_seq p) (r_expected (st_at (co_streams c) w)) = - (2 ^ 31)"
  shows "packet_at A now p c = Panic"
proof -
  let ?key = "packet_key p" and ?s = "st_at (co_streams c) w"
  have joined: "join_fragment (am_clock A) p c = (p, c)" using plain by (simp add: join_fragment_def)
  have dns: "packet_dns A now p c = Ret ([], c)" using plain by (simp add: packet_dns_def Let_def)
  have bytes_: "co_flows (count_bytes p c) = co_flows c" "co_flow (count_bytes p c) = co_flow c" "co_streams (count_bytes p c) = co_streams c"
    by (simp_all add: count_bytes_def Let_def)
  have "prior_generation p ?key (count_bytes p c) = False"
    using plain by (simp add: prior_generation_def opens_def Let_def split: option.split)
  then have found: "find_flow A now p ?key (count_bytes p c) = (Some i, count_bytes p c)"
    using flow bytes_ by (simp add: find_flow_def)
  have crash: "stream_add_segment (am_env A) (am_segments A) (am_clock A) ?s (wire_seq p) (k_payload p) (k_payload_len p) = Panic"
    using data plain stream by (simp add: stream_add_segment_def wire_seq_def stream_add_panics)
  have "take_packet A now p [] ?key i (count_bytes p c) = Panic"
    using count_flow_cases [of A now p i "count_bytes p c"]
  proof (elim disjE exE conjE)
    fix d
    assume d: "count_flow A now p i (count_bytes p c) = Ret d" "co_streams d = co_streams (count_bytes p c)"
      "fl_wire_domain (co_flow d i) = fl_wire_domain (co_flow (count_bytes p c) i)" "fl_wire_client (co_flow d i) = fl_wire_client (co_flow (count_bytes p c) i)"
    have "note_initiator A p i d = d" using plain by (simp add: note_initiator_def opens_def)
    moreover have "note_link A p i d = d" using plain by (simp add: note_link_def)
    moreover define e where "e = upd_flow i (note_answer p) d"
    ultimately have start: "start_midstream A p i (upd_flow i (note_answer p) (note_link A p i (note_initiator A p i d))) = Ret e"
      using d flow bytes_ by (simp add: start_midstream_def note_answer_def Let_def)
    have e: "fl_wire_domain (co_flow e i) = Some w" "fl_wire_client (co_flow e i) = k_source p" "co_streams e = co_streams c"
      using d flow bytes_ by (simp_all add: e_def note_answer_def Let_def)
    have "parse_wire A p i e = Panic" using plain e crash by (simp add: parse_wire_def Let_def feed_wire_def)
    then show ?thesis by (simp add: take_packet_def d(1) start)
  qed (simp add: take_packet_def)
  then show ?thesis using port found by (simp add: packet_at_def joined dns)
qed

section \<open>Concrete inputs\<close>

definition demo_ambient :: ambient where
  "demo_ambient = \<lparr>am_env = demo_env, am_doh = [],
     am_quic = \<lparr>hkdf_extract = (\<lambda>s _. Some s), hkdf_expand = (\<lambda>s _ n. Some (replicate n 0)), aes_block = (\<lambda>_ b. b), gcm_open = (\<lambda>_ _ x _. Some x)\<rparr>,
     am_clock = 5, am_flows = (\<lambda>_. 0), am_segments = (\<lambda>_ _. 0), am_parts = (\<lambda>_ _. 0)\<rparr>"

definition demo_streams :: streams where
  "demo_streams = \<lparr>st_at = (\<lambda>_. demo_stream), st_next = 1\<rparr>"

definition demo_collector :: collector where
  "demo_collector = new_collector 1 0 False 0 None None
     (\<lambda>_. \<lparr>ss_parser = None, ss_quic = None, ss_local = no_endpoint, ss_remote = no_endpoint, ss_sent = False, ss_last = 0\<rparr>) demo_streams"

text \<open>A datagram without payload, and a segment of a connection.\<close>

definition demo_datagram :: packet where
  "demo_datagram = packet0\<lparr>k_source := (V4 [10, 0, 0, 1], 4000), k_destination := (V4 [10, 0, 0, 2], 5000), k_protocol := 17,
     k_has_ports := True, k_ip_bytes := 60\<rparr>"

definition demo_segment :: packet where
  "demo_segment = packet0\<lparr>k_source := (V4 [10, 0, 0, 1], 4000), k_destination := (V4 [10, 0, 0, 2], 5000), k_protocol := 6,
     k_has_ports := True, k_ack := True, k_tcp_seq := r_expected demo_stream + 2 ^ 31, k_payload := [0], k_payload_len := 1\<rparr>"

definition demo_connection :: collector where
  "demo_connection = demo_collector\<lparr>co_flows := [(packet_key demo_segment, 0)], co_next := 1, co_flow := (\<lambda>_. (flow0 (packet_key demo_segment))
     \<lparr>fl_wire_domain := Some 0, fl_wire_client := k_source demo_segment\<rparr>)\<rparr>"

section \<open>A datagram on a new collector\<close>

definition demo_flow :: flow where
  "demo_flow = (flow0 (packet_key demo_datagram))\<lparr>fl_direction := ''unknown'', fl_first := Some 5, fl_interfaces := iset_add 0 interface_set0\<rparr>"

definition demo_opened :: collector where
  "demo_opened = demo_collector\<lparr>co_packets := 1, co_bytes := 60, co_rx_bytes := 60, co_flow := (co_flow demo_collector)(0 := demo_flow), co_next := 1,
     co_flows := [(packet_key demo_datagram, 0)]\<rparr>"

lemma demo_joined: "join_fragment clock demo_datagram c = (demo_datagram, c)"
  by (simp add: join_fragment_def demo_datagram_def packet0_def)
lemma demo_no_dns: "packet_dns A now demo_datagram c = Ret ([], c)"
  by (simp add: packet_dns_def demo_datagram_def packet0_def Let_def)
lemma demo_port: "accept_port demo_collector a b"
  by (simp add: accept_port_def demo_collector_def new_collector_def)
lemma demo_found: "find_flow demo_ambient 5 demo_datagram (packet_key demo_datagram) (count_bytes demo_datagram demo_collector) = (Some 0, demo_opened)"
  by (simp add: demo_opened_def demo_flow_def find_flow_def prior_generation_def open_flow_def make_room_def insert_flow_def fresh_flow_def take_pending_tcp_def
    attach_pending_io_def nat_flow_def opens_def waiting_io_def
    count_bytes_def Let_def demo_collector_def new_collector_def demo_datagram_def packet0_def flow0_def put_flow_def)
lemma demo_datagram_fields: "k_protocol demo_datagram = 17" "k_payload demo_datagram = []" "k_ether_type demo_datagram = 0" "k_ip_bytes demo_datagram = 60" "k_source demo_datagram = (V4 [10,0,0,1],4000)"
  "\<not> k_outgoing demo_datagram" "\<not> k_truncated demo_datagram" "\<not> k_syn demo_datagram"
  by (simp_all add: demo_datagram_def packet0_def)
lemma demo_datagram_ends: "fk_protocol (packet_key demo_datagram) = 17" "k_destination demo_datagram = (V4 [10,0,0,2],5000)"
  by (simp_all add: demo_datagram_def packet0_def packet_key_def key_for_def Let_def)
lemma choose_nameless:
  assumes "fl_quic_domain f = None" "fl_wire_domain f = None" "fl_socket_domain f = None" "fl_process_domain f = None" "fl_dns_domain f = None"
    "fl_domain f = None" "fk_protocol (fl_key f) = 17" "valid_endpoint (fl_target f)" "snd (fl_target f) \<noteq> 853"
  shows "choose_domain \<Gamma> doh f h = (h, f)"
proof -
  have "client_bytes h f = None" using assms by (simp add: client_bytes_def named_ref_def)
  moreover have "f\<lparr>fl_domain := None\<rparr> = f" using assms(6) by (cases f) simp
  ultimately have "pick_domain f h = (h, f)" using assms by (simp add: pick_domain_def named_ref_def process_dns_def Let_def)
  then show ?thesis using assms by (simp add: choose_domain_def encrypted_dns_kind_def Let_def)
qed
lemma demo_opened_fields: "co_flow demo_opened 0 = demo_flow" "\<not> co_loopback demo_opened" "co_pending_socket demo_opened = []" "co_pending_tls demo_opened = []"
  "co_flows demo_opened = [(packet_key demo_datagram, 0)]" "co_retired demo_opened = []" "co_rx_bytes demo_opened = 60" "co_max_flows demo_opened = 1"
  "fl_quic_domain demo_flow = None" "fl_wire_domain demo_flow = None" "fl_socket_domain demo_flow = None" "fl_process_domain demo_flow = None" "fl_dns_domain demo_flow = None"
    "fl_domain demo_flow = None" "fl_key demo_flow = packet_key demo_datagram" "fl_app_protocol demo_flow = []" "fl_initiator demo_flow = no_endpoint"
    "fl_rx demo_flow = 0" "fl_tx demo_flow = 0" "fl_packets demo_flow = 0"
  by (simp_all add: demo_opened_def demo_flow_def demo_collector_def new_collector_def flow0_def)
definition demo_seen :: flow where
  "demo_seen = demo_flow\<lparr>fl_last := Some 5, fl_packets := 1, fl_rx := 60, fl_initiator := k_source demo_datagram, fl_target := k_destination demo_datagram, fl_direction := ''first-packet-in''\<rparr>"

lemma demo_seen_fields: "fl_app_protocol demo_seen = []" "fl_wire_domain demo_seen = None" "note_answer demo_datagram demo_seen = demo_seen"
   "choose_domain \<Gamma> doh demo_seen h = (h, demo_seen)"
  by (simp_all add: demo_seen_def demo_opened_fields note_answer_def demo_datagram_fields demo_datagram_ends choose_nameless addr_valid_def)

lemma put_flow_fields: "put_flow i f (put_flow i g c) = put_flow i f c" "co_flow (put_flow i f c) i = f"
  "co_loopback (put_flow i f c) = co_loopback c" "co_pending_socket (put_flow i f c) = co_pending_socket c" "co_pending_tls (put_flow i f c) = co_pending_tls c"
  "co_streams (put_flow i f c) = co_streams c" "(put_flow i f c)\<lparr>co_streams := co_streams c\<rparr> = put_flow i f c"
  by (simp_all add: put_flow_def)

lemma demo_taken: "take_packet demo_ambient 5 demo_datagram [] (packet_key demo_datagram) 0 demo_opened = Ret (unblock 0 (put_flow 0 demo_seen demo_opened))"
proof -
  let ?c = "put_flow 0 demo_seen demo_opened"
  have 1: "count_flow demo_ambient 5 demo_datagram 0 demo_opened = Ret (put_flow 0 (demo_flow\<lparr>fl_last := Some 5, fl_packets := 1, fl_rx := 60\<rparr>) demo_opened)"
    by (simp add: count_flow_def health_observe_def health_observe_with_def demo_datagram_fields demo_opened_fields Let_def)
  have 2: "note_initiator demo_ambient demo_datagram 0 (put_flow 0 (demo_flow\<lparr>fl_last := Some 5, fl_packets := 1, fl_rx := 60\<rparr>) demo_opened) = ?c"
    by (simp add: note_initiator_def opens_def demo_datagram_fields demo_datagram_ends demo_opened_fields put_flow_fields addr_valid_def demo_seen_def no_endpoint_def)
  have 3: "note_link demo_ambient demo_datagram 0 ?c = ?c" by (simp add: note_link_def demo_datagram_fields)
  have 4: "start_midstream demo_ambient demo_datagram 0 ?c = Ret ?c" by (simp add: start_midstream_def demo_datagram_fields)
  have 5: "parse_wire demo_ambient demo_datagram 0 ?c = Ret ?c" by (simp add: parse_wire_def put_flow_fields demo_seen_fields)
  have 6: "on_flow 0 (detect_app demo_datagram) ?c = Ret ?c" by (simp add: on_flow_def detect_app_def demo_datagram_fields put_flow_fields)
  have 7: "on_flow 0 (app_details demo_ambient demo_datagram []) ?c = Ret ?c" by (simp add: on_flow_def app_details_def demo_datagram_fields put_flow_fields)
  have 8: "observe_quic demo_ambient demo_datagram 0 ?c = Ret ?c" by (simp add: observe_quic_def demo_datagram_fields)
  have 9: "label_wire 0 ?c = ?c" by (simp add: label_wire_def put_flow_fields demo_seen_fields)
  have 10: "take_pending_socket demo_ambient 5 demo_datagram (packet_key demo_datagram) 0 ?c = Ret ?c" by (simp add: take_pending_socket_def put_flow_fields demo_opened_fields Let_def)
  have 11: "name_flow demo_ambient demo_datagram 0 ?c = ?c" by (simp add: name_flow_def choose_at_def put_flow_fields demo_seen_fields)
  have 12: "take_pending_tls demo_ambient 5 (packet_key demo_datagram) 0 ?c = ?c" by (simp add: take_pending_tls_def put_flow_fields demo_opened_fields)
  have 13: "end_tcp demo_datagram 0 ?c = ?c" by (simp add: end_tcp_def demo_datagram_fields)
  show ?thesis by (simp add: take_packet_def 1 2 3 demo_seen_fields put_flow_fields 4 5 6 7 8 9 10 11 12 13)
qed

definition demo_after :: collector where
  "demo_after = unblock 0 (put_flow 0 demo_seen demo_opened)"

lemma demo_packet: "packet_at demo_ambient 5 demo_datagram demo_collector = Ret demo_after"
  by (simp add: packet_at_def demo_joined demo_no_dns demo_port demo_found demo_taken demo_after_def)

lemma demo_reached: "collector_step\<^sup>*\<^sup>* demo_collector demo_after"
  using take_a_packet [OF demo_packet] by (rule r_into_rtranclp)

lemma demo_after_fields: "co_flows demo_after = [(packet_key demo_datagram, 0)]" "co_flow demo_after 0 = demo_seen" "co_max_flows demo_after = 1"
  by (simp_all add: demo_after_def unblock_def demo_opened_fields put_flow_def)

end
