(* ===== verification/Fragments.thy ===== *)
theory Fragments imports Collector_Run begin

text \<open>
  The fragments of a datagram (\<^verbatim>\<open>fragments\<close> in \<^verbatim>\<open>internal/app/app_linux.go\<close>): after the first of them no step of a
  packet touches the header that it left, and the later ones are counted in its flow.
\<close>

section \<open>The steps that leave the headers alone\<close>

named_theorems frag

definition leaves :: "collector \<Rightarrow> collector go \<Rightarrow> bool" where
  "leaves c m \<longleftrightarrow> (\<forall>c'. m = Ret c' \<longrightarrow> co_fragments c' = co_fragments c)"

lemma leaves_Ret [frag]: "leaves c (Ret c') \<longleftrightarrow> co_fragments c' = co_fragments c"
  by (simp add: leaves_def)

lemma leaves_Panic [frag]: "leaves c Panic"
  by (simp add: leaves_def)

lemma leaves_bind: "leaves c m \<Longrightarrow> (\<And>d. co_fragments d = co_fragments c \<Longrightarrow> leaves c (f d)) \<Longrightarrow> leaves c (gbind m f)"
  unfolding leaves_def gbind_eq_Ret by metis

lemma leaves_if: "leaves c x \<Longrightarrow> leaves c y \<Longrightarrow> leaves c (if b then x else y)"
  by simp

lemma leaves_read: "(\<And>x. leaves c (f x)) \<Longrightarrow> leaves c (gbind m f)"
  unfolding leaves_def gbind_eq_Ret by metis

lemma leaves_from: "leaves d m \<Longrightarrow> co_fragments d = co_fragments c \<Longrightarrow> leaves c m"
  by (simp add: leaves_def)

lemma fragments_put [frag]: "co_fragments (put_flow i f c) = co_fragments c"
  by (simp add: put_flow_def)

lemma fragments_fold: "(\<And>x d. co_fragments (f x d) = co_fragments d) \<Longrightarrow> co_fragments (fold f xs c) = co_fragments c"
  by (induction xs arbitrary: c) simp_all

lemma fragments_attempt [frag]: "co_fragments (note_attempt f refused now c) = co_fragments c"
  by (simp add: note_attempt_def Let_def split: option.split)

lemma fragments_expire [frag]: "co_fragments (expire_flow i now c) = co_fragments c"
  by (simp add: expire_flow_def Let_def frag)

lemma fragments_evict [frag]: "co_fragments (evict \<rho> now c) = co_fragments c"
  by (simp add: evict_def Let_def fragments_fold evict_flow_def frag)

lemma fragments_room [frag]: "co_fragments (make_room A now c) = co_fragments c"
  by (simp add: make_room_def frag)

lemma fragments_choose [frag]: "co_fragments (choose_at A i c) = co_fragments c"
  by (simp add: choose_at_def frag split: prod.split)

lemma fragments_stream: "new_stream_in s c = (r, c') \<Longrightarrow> co_fragments c' = co_fragments c"
  by (auto simp: new_stream_in_def split: prod.splits)

lemma fragments_stream_case [frag]: "co_fragments (case new_stream_in s c of (r, c') \<Rightarrow> put_flow i (g r c') c') = co_fragments c"
  by (auto simp: frag dest: fragments_stream split: prod.split)

lemma fragments_attach_io [frag]: "co_fragments (attach_pending_io clock key i c) = co_fragments c"
  by (simp add: attach_pending_io_def Let_def fragments_fold attach_sample_def drop_sample_def frag)

lemma fragments_flush [frag]: "co_fragments (flush_pending_key key c) = co_fragments c"
  by (simp add: flush_pending_key_def Let_def fragments_fold drop_sample_def)

lemma fragments_link_one [frag]: "co_fragments (link_one clock entry ne captured socket c) = co_fragments c"
  by (simp add: link_one_def Let_def frag split: option.split)

lemma fragments_nat [frag]: "co_fragments (nat_flow clock i protocol src dst c) = co_fragments c"
  by (simp add: nat_flow_def link_nat_def Let_def frag split: option.split)

lemma fragments_tls [frag]: "co_fragments (fst (apply_tls_event A i e c)) = co_fragments c"
  by (simp add: apply_tls_event_def Let_def frag)

lemma fragments_icmp [frag]: "co_fragments (collect_icmp clock i p c) = co_fragments c"
  by (simp add: collect_icmp_def icmp_referenced_def echo_flow_def Let_def frag split: option.split prod.split)

lemma leaves_socket [frag]: "leaves c (attach_socket_domain A i s c)"
  by (simp add: attach_socket_domain_def Let_def frag split: option.split)

section \<open>The steps of a packet\<close>

lemma fragments_dns: "packet_dns A now p c = Ret (addresses, c') \<Longrightarrow> co_fragments c' = co_fragments c"
  by (auto simp: packet_dns_def Let_def gbind_eq_Ret split: if_splits option.splits prod.splits)

lemma fragments_enter [frag]:
  "co_fragments (take_pending_tcp now key i c) = co_fragments c" "co_fragments (unindexed p c) = co_fragments c"
  "co_fragments (retire_prior key c) = co_fragments c" "co_fragments (snd (insert_flow key f c)) = co_fragments c"
  by (simp_all add: take_pending_tcp_def unindexed_def retire_prior_def insert_flow_def Let_def frag split: option.split)

lemma fragments_open [frag]: "co_fragments (snd (open_flow A now prior p key c)) = co_fragments c"
proof (cases "co_max_flows (make_room A now c) \<le> table_size (make_room A now c)")
  case True
  then show ?thesis by (simp add: open_flow_def Let_def frag)
next
  case False
  obtain i d where d: "insert_flow key (fresh_flow now prior p key (make_room A now c)) (make_room A now c) = (i, d)" by fastforce
  then have "co_fragments d = co_fragments c" using fragments_enter(4) by (metis snd_conv fragments_room)
  then show ?thesis using False by (simp add: open_flow_def Let_def d frag)
qed

lemma fragments_find: "find_flow A now p key c = (m, c') \<Longrightarrow> co_fragments c' = co_fragments c"
  using fragments_open [of A now _ p key] fragments_enter(3) [of key c]
  by (auto simp: find_flow_def Let_def split: if_split_asm option.splits) (metis snd_conv)+

lemma fragments_note [frag]:
  "co_fragments (note_initiator A p i c) = co_fragments c" "co_fragments (note_link A p i c) = co_fragments c"
  "co_fragments (label_wire i c) = co_fragments c" "co_fragments (name_flow A p i c) = co_fragments c" 
  "co_fragments (take_pending_tls A now key i c) = co_fragments c" "co_fragments (end_tcp p i c) = co_fragments c"
  "co_fragments (unblock i c) = co_fragments c"
  by (simp_all add: note_initiator_def note_link_def label_wire_def name_flow_def take_pending_tls_def end_tcp_def unblock_def Let_def frag
    split: option.split prod.split)

lemma leaves_packet_steps:
  "leaves c (count_flow A now p i c)" "leaves c (start_midstream A p i c)" "leaves c (parse_wire A p i c)" "leaves c (on_flow i m c)"
  "leaves c (take_pending_socket A now p key i c)"
proof -
  show "leaves c (count_flow A now p i c)" unfolding count_flow_def Let_def by (intro leaves_read) (simp add: frag)
  have "leaves c (case new_stream_in s c of (r, c1) \<Rightarrow> Ret (put_flow i (g r c1) c1))" for s g
    by (auto simp: frag dest: fragments_stream split: prod.split)
  then show "leaves c (start_midstream A p i c)" unfolding start_midstream_def by (auto simp: frag intro!: leaves_read)
  show "leaves c (parse_wire A p i c)" unfolding parse_wire_def Let_def by (auto simp: frag intro!: leaves_read split: option.split)
  show "leaves c (on_flow i m c)" unfolding on_flow_def by (intro leaves_read) (simp add: frag)
  show "leaves c (take_pending_socket A now p key i c)" unfolding take_pending_socket_def Let_def
    by (auto simp: frag intro: leaves_from [OF leaves_socket] split: option.split)
qed

lemma fragments_set_quic [frag]: "co_fragments (set_quic_domain i s c) = co_fragments c"
  by (simp add: set_quic_domain_def frag)

lemma leaves_quic: "leaves c (observe_quic A p i c)"
proof -
  have start: "co_fragments c1 = co_fragments c" if "start_quic p i c = (t, c1)" for t c1
    using that by (auto simp: start_quic_def frag split: option.splits)
  have seen: "leaves d (quic_result_seen A i hello er d)" for hello er d
    unfolding quic_result_seen_def by (auto simp: frag intro!: leaves_read split: option.split)
  have failed: "leaves d (quic_failure_seen t i d)" for t d
    unfolding quic_failure_seen_def by (auto simp: frag split: option.split)
  obtain t c1 where t: "start_quic p i c = (t, c1)" by fastforce
  have "leaves c (gbind (quic_result_seen A i hello er (put_flow i f c1)) (quic_failure_seen t' i))" for hello er f t'
    by (rule leaves_from [OF leaves_bind [OF seen leaves_from [OF failed]]]) (simp_all add: frag start [OF t])
  then have q: "leaves c (gbind q (\<lambda>(t', hello, initial, er). gbind (quic_result_seen A i hello er (put_flow i (f t' initial) c1)) (quic_failure_seen t' i)))" for q f
    by (intro leaves_read) (simp split: prod.split)
  show ?thesis unfolding observe_quic_def Let_def t prod.case by (intro leaves_if q) (simp add: frag)
qed

lemma leaves_take: "leaves c (take_packet A now p addresses key i c)"
  unfolding take_packet_def
  by (intro leaves_bind leaves_from [OF leaves_packet_steps(1)] leaves_from [OF leaves_packet_steps(2)] leaves_from [OF leaves_packet_steps(3)]
      leaves_from [OF leaves_packet_steps(4)] leaves_from [OF leaves_packet_steps(5)] leaves_from [OF leaves_quic]) (simp_all add: frag)

text \<open>A packet leaves the headers as \<open>join_fragment\<close> did.\<close>

lemma packet_fragments:
  assumes "packet_at A now p c = Ret d"
  shows "co_fragments d = co_fragments (snd (join_fragment (am_clock A) p c))"
proof -
  obtain p' c1 where j: "join_fragment (am_clock A) p c = (p', c1)" by fastforce
  obtain addresses c2 where dns: "packet_dns A now p' c1 = Ret (addresses, c2)" using assms by (auto simp: packet_at_def j gbind_eq_Ret)
  obtain m c3 where find: "find_flow A now p' (packet_key p') (count_bytes p' c2) = (m, c3)" by fastforce
  have "co_fragments c3 = co_fragments c2" using fragments_find [OF find] by (simp add: count_bytes_def Let_def)
  moreover have "d = c2 \<or> d = c3 \<or> (\<exists>i. take_packet A now p' addresses (packet_key p') i c3 = Ret d)"
    using assms by (auto simp: packet_at_def j dns find Let_def split: if_splits option.splits)
  then have "d = c2 \<or> co_fragments d = co_fragments c3" using leaves_take by (auto simp: leaves_def)
  ultimately show ?thesis using fragments_dns [OF dns] j by auto
qed

section \<open>Joining and counting\<close>

definition header_key :: "packet \<Rightarrow> addr \<times> addr \<times> u8 \<times> u32" where
  "header_key p = (fst (k_source p), fst (k_destination p), k_protocol p, k_fragment_id p)"

text \<open>A first fragment with what its flow is found by.\<close>

definition first_fragment :: "packet \<Rightarrow> bool" where
  "first_fragment p \<longleftrightarrow> k_fragmented p \<and> k_fragment_offset p = 0 \<and> (k_has_ports p \<or> k_protocol p = 1 \<or> k_protocol p = 58)"

definition later_fragment :: "packet \<Rightarrow> packet \<Rightarrow> bool" where
  "later_fragment p q \<longleftrightarrow> k_fragmented q \<and> k_fragment_offset q \<noteq> 0 \<and> header_key q = header_key p
     \<and> k_ether_type q = k_ether_type p \<and> \<not> k_syn q"

definition joined :: "packet \<Rightarrow> packet \<Rightarrow> packet" where
  "joined p q = q\<lparr>k_source := k_source p, k_destination := k_destination p, k_has_ports := k_has_ports p, k_icmp_type := k_icmp_type p,
     k_icmp_code := k_icmp_code p, k_icmp_id := k_icmp_id p, k_icmp_has_echo := k_icmp_has_echo p\<rparr>"

lemma join_later:
  assumes first: "first_fragment p" "length (co_fragments c) < max_fragments"
    and left: "map_of (co_fragments d) (header_key p) = map_of (co_fragments (snd (join_fragment clock p c))) (header_key p)"
    and later: "later_fragment p q"
  shows "join_fragment clock' q d = (joined p q, d)" and "packet_key (joined p q) = packet_key p"
proof -
  have src: "(fst (k_source p), snd (k_source p)) = k_source p" "(fst (k_destination p), snd (k_destination p)) = k_destination p" by simp_all
  show "join_fragment clock' q d = (joined p q, d)"
    using first left later src by (auto simp: join_fragment_def Let_def later_fragment_def first_fragment_def header_key_def joined_def update_conv')
  show "packet_key (joined p q) = packet_key p"
    using first later by (auto simp: joined_def packet_key_def later_fragment_def first_fragment_def header_key_def Let_def)
qed

lemma dns_port: "packet_dns A now p c = Ret (addresses, c') \<Longrightarrow> co_filter_port c' = co_filter_port c"
  by (auto simp: packet_dns_def Let_def gbind_eq_Ret split: if_splits option.splits prod.splits)

text \<open>The bytes of a packet go to the flow of its key, and to no other.\<close>

lemma counted_packet:
  assumes r: "packet_at A now q c = Ret d" and j: "join_fragment (am_clock A) q c = (p, c)" and syn: "\<not> opens p"
    and port: "accept_port c (k_source p) (k_destination p)" and at: "flow_at (packet_key p) c = Some i"
  shows "flow_at (packet_key p) d = Some i" "fl_rx (co_flow d i) = fl_rx (co_flow c i) + rx_due p"
    "fl_tx (co_flow d i) = fl_tx (co_flow c i) + tx_due p"
    and "\<And>k. k \<noteq> i \<Longrightarrow> fl_rx (co_flow d k) = fl_rx (co_flow c k) \<and> fl_tx (co_flow d k) = fl_tx (co_flow c k)"
proof -
  obtain addresses c2 where dns: "packet_dns A now p c = Ret (addresses, c2)" using r by (auto simp: packet_at_def j gbind_eq_Ret)
  define c3 where "c3 = count_bytes p c2"
  have c3: "co_flows c3 = co_flows c2" "co_flow c3 = co_flow c2" "co_loopback c3 = co_loopback c2" by (simp_all add: c3_def count_bytes_def Let_def)
  have books: "same_books 0 c c2" by (rule same_packet_dns [OF dns])
  have at3: "flow_at (packet_key p) c3 = Some i" using at books c3 by (simp add: same_books_def)
  then have "find_flow A now p (packet_key p) c3 = (Some i, c3)" using syn by (simp add: find_flow_def prior_generation_def Let_def)
  moreover have "accept_port c2 (k_source p) (k_destination p)" using port dns_port [OF dns] by (simp add: accept_port_def)
  ultimately have "take_packet A now p addresses (packet_key p) i c3 = Ret d" using r by (simp add: packet_at_def j dns Let_def c3_def)
  then obtain c4 c5 where c4: "count_flow A now p i c3 = Ret c4" "same_books i c4 c5" "d = unblock i c5" by (rule take_packet_steps)
  obtain health where h: "health_observe p (co_loopback c3) (am_clock A) (fl_health (co_flow c3 i)) = Ret health"
    using c4(1) by (auto simp: count_flow_def Let_def gbind_eq_Ret)
  have c4': "co_flows c4 = co_flows c3" "fl_rx (co_flow c4 i) = fl_rx (co_flow c3 i) + rx_due p"
    "fl_tx (co_flow c4 i) = fl_tx (co_flow c3 i) + tx_due p" "\<forall>k. k \<noteq> i \<longrightarrow> co_flow c4 k = co_flow c3 k"
    using c4(1) h by (auto simp: count_flow_def Let_def split: if_splits)
  have d: "co_flows d = co_flows c5" "co_flow d = co_flow c5" by (simp_all add: c4(3) unblock_def)
  show "flow_at (packet_key p) d = Some i" "fl_rx (co_flow d i) = fl_rx (co_flow c i) + rx_due p"
    "fl_tx (co_flow d i) = fl_tx (co_flow c i) + tx_due p"
    using c4(2) c4' c3 at3 books by (simp_all add: d same_books_def)
  show "fl_rx (co_flow d k) = fl_rx (co_flow c k) \<and> fl_tx (co_flow d k) = fl_tx (co_flow c k)" if "k \<noteq> i" for k
    using c4(2) c4'(4) c3(2) books that by (simp add: d same_books_def)
qed

text \<open>A later fragment, any steps after the first.\<close>

lemma later_counted:
  assumes first: "first_fragment p" "length (co_fragments c) < max_fragments" "packet_at A now p c = Ret c1"
    and left: "map_of (co_fragments c2) (header_key p) = map_of (co_fragments c1) (header_key p)"
    and later: "later_fragment p q" "accept_port c2 (k_source p) (k_destination p)" "flow_at (packet_key p) c2 = Some i"
    and r: "packet_at A' now' q c2 = Ret d"
  shows "flow_at (packet_key p) d = Some i" "fl_rx (co_flow d i) = fl_rx (co_flow c2 i) + rx_due q"
    "fl_tx (co_flow d i) = fl_tx (co_flow c2 i) + tx_due q"
    and "\<And>k. k \<noteq> i \<Longrightarrow> fl_rx (co_flow d k) = fl_rx (co_flow c2 k) \<and> fl_tx (co_flow d k) = fl_tx (co_flow c2 k)"
proof -
  note j = join_later [OF first(1,2) left [unfolded packet_fragments [OF first(3)]] later(1)]
  have "\<not> opens (joined p q)" using later(1) by (simp add: opens_def joined_def later_fragment_def)
  moreover have "k_source (joined p q) = k_source p" "k_destination (joined p q) = k_destination p" "k_ip_bytes (joined p q) = k_ip_bytes q"
    "k_outgoing (joined p q) = k_outgoing q" by (simp_all add: joined_def)
  ultimately show "flow_at (packet_key p) d = Some i" "fl_rx (co_flow d i) = fl_rx (co_flow c2 i) + rx_due q"
    "fl_tx (co_flow d i) = fl_tx (co_flow c2 i) + tx_due q"
    "\<And>k. k \<noteq> i \<Longrightarrow> fl_rx (co_flow d k) = fl_rx (co_flow c2 k) \<and> fl_tx (co_flow d k) = fl_tx (co_flow c2 k)"
    using counted_packet [OF r j(1)] later(2,3) j(2) by simp_all
qed

section \<open>Two fragments of a datagram\<close>

text \<open>A datagram without captured payload is taken.\<close>

lemma datagram_taken:
  assumes p: "k_protocol p = 17" "k_payload p = []" "k_ether_type p = 0" and c: "co_pending_socket c = []" "co_pending_tls c = []"
  shows "\<exists>d. take_packet A now p addresses key i c = Ret d \<and> co_pending_socket d = [] \<and> co_pending_tls d = [] \<and> co_flows d = co_flows c
    \<and> co_filter_port d = co_filter_port c"
proof -
  define quiet where "quiet = (\<lambda>d :: collector. co_pending_socket d = [] \<and> co_pending_tls d = [] \<and> co_flows d = co_flows c
    \<and> co_filter_port d = co_filter_port c)"
  have q: "quiet (put_flow i f d) = quiet d" for f d by (simp add: quiet_def)
  obtain c1 where c1: "count_flow A now p i c = Ret c1" "quiet c1"
    using p c by (auto simp: count_flow_def health_observe_def health_observe_with_def Let_def quiet_def)
  define c2 where "c2 = upd_flow i (note_answer p) (note_link A p i (note_initiator A p i c1))"
  have c2: "quiet c2" using c1(2) p by (simp add: c2_def note_link_def note_initiator_def opens_def q)
  have steps: "start_midstream A p i c2 = Ret c2" "parse_wire A p i c2 = Ret c2" "on_flow i (detect_app p) c2 = Ret (put_flow i (co_flow c2 i) c2)"
    "on_flow i (app_details A p addresses) d = Ret (put_flow i (co_flow d i) d)" "observe_quic A p i d = Ret d" for d
    using p by (simp_all add: start_midstream_def parse_wire_def on_flow_def detect_app_def app_details_def observe_quic_def Let_def split: option.split)
  define c3 where "c3 = label_wire i (put_flow i (co_flow c2 i) (put_flow i (co_flow c2 i) c2))"
  have c3: "quiet c3" using c2 by (simp add: c3_def label_wire_def q split: option.split)
  have socket: "take_pending_socket A now p key i c3 = Ret c3" using c3 by (simp add: take_pending_socket_def quiet_def Let_def)
  have c4: "quiet (name_flow A p i c3)"
    using c3 by (auto simp: name_flow_def choose_at_def quiet_def split: prod.split)
  have tls: "take_pending_tls A now key i (name_flow A p i c3) = name_flow A p i c3" using c4 by (simp add: take_pending_tls_def quiet_def)
  have "take_packet A now p addresses key i c = Ret (unblock i (end_tcp p i (name_flow A p i c3)))"
    unfolding take_packet_def c1(1) gbind.simps c2_def [symmetric] steps(1-3)
    by (simp add: steps(4,5) c3_def [symmetric] socket tls)
  moreover have "end_tcp p i (name_flow A p i c3) = name_flow A p i c3" using p by (simp add: end_tcp_def)
  moreover have "quiet (unblock i (name_flow A p i c3))" using c4 by (simp add: unblock_def quiet_def)
  ultimately show ?thesis by (auto simp: quiet_def)
qed

definition demo_head :: packet where
  "demo_head = demo_datagram\<lparr>k_fragmented := True, k_fragment_id := 7\<rparr>"

definition demo_tail :: packet where
  "demo_tail = packet0\<lparr>k_source := (V4 [10, 0, 0, 1], 0), k_destination := (V4 [10, 0, 0, 2], 0), k_protocol := 17, k_ip_bytes := 40,
     k_fragmented := True, k_fragment_id := 7, k_fragment_offset := 1480\<rparr>"

lemma demo_fragments: "first_fragment demo_head" "later_fragment demo_head demo_tail" "length (co_fragments demo_collector) < max_fragments"
  by (simp_all add: first_fragment_def later_fragment_def header_key_def demo_head_def demo_tail_def demo_datagram_def packet0_def
      demo_collector_def new_collector_def max_fragments_def)

lemma demo_head_key: "packet_key demo_head = packet_key demo_datagram"
  by (simp add: packet_key_def demo_head_def demo_datagram_def packet0_def Let_def)

lemma demo_head_found:
  "\<exists>c. find_flow demo_ambient 5 demo_head (packet_key demo_datagram) (count_bytes demo_head (snd (join_fragment 5 demo_head demo_collector))) = (Some 0, c)
    \<and> co_pending_socket c = [] \<and> co_pending_tls c = [] \<and> co_flows c = [(packet_key demo_datagram, 0)] \<and> co_filter_port c = 0"
  by (simp add: find_flow_def prior_generation_def open_flow_def make_room_def insert_flow_def fresh_flow_def take_pending_tcp_def
    attach_pending_io_def nat_flow_def opens_def waiting_io_def join_fragment_def demo_head_def
    count_bytes_def Let_def demo_collector_def new_collector_def demo_datagram_def packet0_def flow0_def put_flow_def max_fragments_def)

lemma demo_head_taken:
  "\<exists>c. packet_at demo_ambient 5 demo_head demo_collector = Ret c \<and> co_pending_socket c = [] \<and> co_pending_tls c = []
    \<and> flow_at (packet_key demo_head) c = Some 0 \<and> co_filter_port c = 0"
proof -
  have j: "join_fragment (am_clock demo_ambient) demo_head demo_collector = (demo_head, snd (join_fragment 5 demo_head demo_collector))"
    by (simp add: join_fragment_def demo_head_def demo_datagram_def packet0_def demo_ambient_def Let_def)
  have fields: "k_protocol demo_head = 17" "k_payload demo_head = []" "k_ether_type demo_head = 0" "snd (k_source demo_head) = 4000"
    by (simp_all add: demo_head_def demo_datagram_def packet0_def)
  have port: "accept_port (snd (join_fragment 5 demo_head demo_collector)) a b" for a b
    by (simp add: accept_port_def join_fragment_def demo_collector_def new_collector_def Let_def split: option.split)
  obtain c where c: "find_flow demo_ambient 5 demo_head (packet_key demo_head) (count_bytes demo_head (snd (join_fragment 5 demo_head demo_collector))) = (Some 0, c)"
    "co_pending_socket c = []" "co_pending_tls c = []" "co_flows c = [(packet_key demo_datagram, 0)]" "co_filter_port c = 0"
    using demo_head_found unfolding demo_head_key by blast
  have dns: "packet_dns demo_ambient 5 demo_head c = Ret ([], c)" for c using fields by (simp add: packet_dns_def Let_def)
  obtain d where d: "take_packet demo_ambient 5 demo_head [] (packet_key demo_head) 0 c = Ret d" "co_pending_socket d = []" "co_pending_tls d = []"
      "co_flows d = co_flows c" "co_filter_port d = co_filter_port c"
    using datagram_taken [OF fields(1-3) c(2,3)] by blast
  have "packet_at demo_ambient 5 demo_head demo_collector = Ret d" by (simp add: packet_at_def j dns port c(1) d(1) Let_def)
  then show ?thesis using c d demo_head_key by simp
qed

lemma demo_tail_taken:
  assumes "co_pending_socket c = []" "co_pending_tls c = []" "co_filter_port c = 0" and at: "flow_at (packet_key demo_head) c = Some i"
    and j: "join_fragment 5 demo_tail c = (joined demo_head demo_tail, c)" and key: "packet_key (joined demo_head demo_tail) = packet_key demo_head"
  shows "\<exists>d. packet_at demo_ambient 5 demo_tail c = Ret d"
proof -
  let ?q = "joined demo_head demo_tail"
  have fields: "k_protocol ?q = 17" "k_payload ?q = []" "k_ether_type ?q = 0" "snd (k_source ?q) = 4000" "am_clock demo_ambient = 5"
    by (simp_all add: joined_def demo_head_def demo_tail_def demo_datagram_def packet0_def demo_ambient_def)
  have dns: "packet_dns demo_ambient 5 ?q c = Ret ([], c)" using fields by (simp add: packet_dns_def Let_def)
  have find: "find_flow demo_ambient 5 ?q (packet_key demo_head) (count_bytes ?q c) = (Some i, count_bytes ?q c)"
    using at fields by (simp add: find_flow_def prior_generation_def count_bytes_def opens_def Let_def)
  have "co_pending_socket (count_bytes ?q c) = []" "co_pending_tls (count_bytes ?q c) = []" using assms(1,2) by (simp_all add: count_bytes_def Let_def)
  from datagram_taken [OF fields(1-3) this] obtain d where "take_packet demo_ambient 5 ?q [] (packet_key demo_head) i (count_bytes ?q c) = Ret d" by blast
  then show ?thesis using fields(5) j dns find key assms(3) by (simp add: packet_at_def accept_port_def Let_def)
qed

end
