(* ===== verification/Host_View.thy ===== *)
theory Host_View imports Attempts begin

text \<open>
  One connection from what the interfaces saw of it (\<^verbatim>\<open>internal/app/host_view_linux.go\<close>, first part).

  An observation is a flow of one interface, with the name of the interface and the pointer to the flow.
  \<open>group_observations\<close> puts the observations of one key into connections, and \<open>merge_observed\<close> builds the flow that is
  shown of one.  The order of observations that began at the same time is \<open>\<rho>\<close>: the code's sort is not stable.

  The lemmas show that grouping loses and invents no observation, that a connection has at most one observation of an
  interface and one generation, and that the index by SYN finds what a search of all groups finds; and that a merged flow
  counts the bytes of one observation, the largest, whatever the number of interfaces that saw them.
\<close>

section \<open>Grouping\<close>

record observation =
  ob_flow :: flow
  ob_ref :: "bytes \<times> nat"
  ob_interface :: bytes

text \<open>\<^verbatim>\<open>!a.First.IsZero() && !b.Last.IsZero() && a.First.After(b.Last.Add(2*time.Second))\<close>.\<close>

definition long_after :: "flow \<Rightarrow> flow \<Rightarrow> bool" where
  "long_after a b = (case (fl_first a, fl_last b) of (Some s, Some t) \<Rightarrow> t + 2 * second < s | _ \<Rightarrow> False)"

definition apart :: "observation \<Rightarrow> observation \<Rightarrow> bool" where
  "apart candidate other = (let a = ob_flow candidate; b = ob_flow other in
     ob_interface other = ob_interface candidate \<or> fl_syn_seen a \<and> fl_syn_seen b \<and> fl_syn_seq a \<noteq> fl_syn_seq b
     \<or> long_after a b \<or> long_after b a)"

definition same_observed :: "observation \<Rightarrow> observation list \<Rightarrow> bool" where
  "same_observed candidate members = list_all (\<lambda>other. \<not> apart candidate other) members"

record grouping =
  gr_groups :: "observation list list"
  gr_syn :: "(u32 \<times> nat list) list"
  gr_midstream :: "nat list"

definition first_fit :: "observation list list \<Rightarrow> observation \<Rightarrow> nat list \<Rightarrow> nat option" where
  "first_fit gs candidate is = find (\<lambda>i. same_observed candidate (gs ! i)) is"

definition with_syn :: "u32 \<Rightarrow> grouping \<Rightarrow> nat list" where
  "with_syn seq g = (case map_of (gr_syn g) seq of None \<Rightarrow> [] | Some is \<Rightarrow> is)"

definition add_syn :: "u32 \<Rightarrow> nat \<Rightarrow> grouping \<Rightarrow> grouping" where
  "add_syn seq i g = g\<lparr>gr_syn := AList.update seq (with_syn seq g @ [i]) (gr_syn g)\<rparr>"

text \<open>The group of a candidate, and the index after the search for it.\<close>

definition find_group :: "observation \<Rightarrow> grouping \<Rightarrow> nat option \<times> grouping" where
  "find_group candidate g = (let f = ob_flow candidate; gs = gr_groups g in
     if fl_syn_seen f then (case first_fit gs candidate (with_syn (fl_syn_seq f) g) of
         Some i \<Rightarrow> (Some i, g)
       | None \<Rightarrow> (case first_fit gs candidate (gr_midstream g) of
           Some i \<Rightarrow> (Some i, add_syn (fl_syn_seq f) i g) | None \<Rightarrow> (None, g)))
     else (first_fit gs candidate [0..<length gs], g))"

definition place_candidate :: "observation \<Rightarrow> grouping \<Rightarrow> grouping" where
  "place_candidate candidate g0 = (case find_group candidate g0 of
       (Some i, g) \<Rightarrow> g\<lparr>gr_groups := (gr_groups g)[i := gr_groups g ! i @ [candidate]]\<rparr>
     | (None, g) \<Rightarrow> let f = ob_flow candidate; i = length (gr_groups g); g1 = g\<lparr>gr_groups := gr_groups g @ [[candidate]]\<rparr> in
         if fl_syn_seen f then add_syn (fl_syn_seq f) i g1 else g1\<lparr>gr_midstream := gr_midstream g1 @ [i]\<rparr>)"

definition grouping0 :: grouping where
  "grouping0 = \<lparr>gr_groups = [], gr_syn = [], gr_midstream = []\<rparr>"

definition time_key :: "gotime \<Rightarrow> nat \<times> int" where
  "time_key t = (case t of None \<Rightarrow> (0, 0) | Some t \<Rightarrow> (1, t))"

definition by_first :: "(bytes \<times> nat \<Rightarrow> nat) \<Rightarrow> observation list \<Rightarrow> observation list" where
  "by_first \<rho> candidates = sort_key (\<lambda>x. time_key (fl_first (ob_flow x))) (sort_key (\<lambda>x. \<rho> (ob_ref x)) candidates)"

definition group_observations :: "(bytes \<times> nat \<Rightarrow> nat) \<Rightarrow> observation list \<Rightarrow> observation list list" where
  "group_observations \<rho> candidates = gr_groups (fold place_candidate (by_first \<rho> candidates) grouping0)"

section \<open>Merging\<close>

definition domain_score :: "streams \<Rightarrow> flow \<Rightarrow> u64" where
  "domain_score h f = (case fl_domain f of None \<Rightarrow> 0 | Some d \<Rightarrow> let e = evidence_at h d in
     if \<not> listed e then 0 else if \<not> named e then 1
     else if e_kind e = KDns then 2 else if e_kind e = KDnsProcess then 3 else if e_kind e = KOpenssl then 4
     else 5 + fold (\<lambda>(host, n) x. x + n) (e_hosts e) 0)"

definition crossed :: "string \<Rightarrow> string \<Rightarrow> bool" where
  "crossed a b \<longleftrightarrow> (a \<in> {''inbound'', ''first-packet-in''} \<and> b \<in> {''outbound'', ''first-packet-out''})
     \<or> (a \<in> {''outbound'', ''first-packet-out''} \<and> b \<in> {''inbound'', ''first-packet-in''})"

definition packet_source :: "observation list \<Rightarrow> flow" where
  "packet_source members = fold (\<lambda>x best. if fl_rx best + fl_tx best < fl_rx (ob_flow x) + fl_tx (ob_flow x) then ob_flow x else best)
     (tl members) (ob_flow (hd members))"

definition evidence_source :: "streams \<Rightarrow> observation list \<Rightarrow> flow" where
  "evidence_source h members = fold (\<lambda>x best. if domain_score h best < domain_score h (ob_flow x) then ob_flow x else best)
     (tl members) (ob_flow (hd members))"

definition merge_app :: "streams \<Rightarrow> flow \<Rightarrow> observation list \<Rightarrow> flow \<Rightarrow> flow" where
  "merge_app h evidence members m = (let
     m1 = (if fl_app_protocol m = [] \<or> fl_app_protocol evidence \<noteq> [] \<and> 0 < domain_score h evidence
       then m\<lparr>fl_app_protocol := fl_app_protocol evidence, fl_app_source := fl_app_source evidence\<rparr> else m) in
     fold (\<lambda>x m. if fl_app_protocol m = [] \<and> fl_app_protocol (ob_flow x) \<noteq> []
       then m\<lparr>fl_app_protocol := fl_app_protocol (ob_flow x), fl_app_source := fl_app_source (ob_flow x)\<rparr> else m) members m1)"

definition merge_health :: "flow \<Rightarrow> tcp_health \<Rightarrow> tcp_health" where
  "merge_health f h = (let g = fl_health f;
     h1 = (if h_syn_rtt h = 0 \<and> 0 < h_syn_rtt g then h\<lparr>h_syn_rtt := h_syn_rtt g\<rparr> else h);
     h2 = h1\<lparr>h_retransmits := max (h_retransmits h1) (h_retransmits g)\<rparr>;
     h3 = (if 0 < h_connect_latency g then h2\<lparr>h_connect_result := h_connect_result g, h_connect_latency := h_connect_latency g\<rparr> else h2) in
     case h_kernel g of None \<Rightarrow> h3
     | Some k \<Rightarrow> fold (\<lambda>side h. if at_side side k \<noteq> tcp_info0 then observe_kernel side (at_side side k) h else h) [0, 1] h3)"

definition max_io :: "io_bytes \<Rightarrow> io_bytes \<Rightarrow> io_bytes" where
  "max_io a b = \<lparr>io_rx = max (io_rx a) (io_rx b), io_tx = max (io_tx a) (io_tx b)\<rparr>"

definition merge_io :: "(process_id \<times> io_bytes) list \<Rightarrow> (process_id \<times> io_bytes) list \<Rightarrow> (process_id \<times> io_bytes) list" where
  "merge_io theirs = fold (\<lambda>(actor, io) m. AList.update actor (max_io (case map_of m actor of None \<Rightarrow> io_bytes0 | Some old \<Rightarrow> old) io) m) theirs"

definition merge_drops :: "(bytes \<times> u64) list option \<Rightarrow> (bytes \<times> u64) list option \<Rightarrow> (bytes \<times> u64) list option" where
  "merge_drops theirs ours = (case theirs of None \<Rightarrow> ours
     | Some reasons \<Rightarrow> Some (fold (\<lambda>(reason, n) m. AList.update reason (max (case map_of m reason of None \<Rightarrow> 0 | Some old \<Rightarrow> old) n) m) reasons
         (case ours of None \<Rightarrow> [] | Some m \<Rightarrow> m)))"

definition merge_one :: "flow \<Rightarrow> flow \<Rightarrow> flow" where
  "merge_one f m = (let
     m1 = m\<lparr>fl_tls_actors := fold (\<lambda>(actor, p). AList.update actor p) (fl_tls_actors f) (fl_tls_actors m),
       fl_domain_conflict := fl_domain_conflict m \<or> fl_domain_conflict f, fl_preexisting := fl_preexisting m \<or> fl_preexisting f,
       fl_interfaces := iset_union (fl_interfaces m) (fl_interfaces f), fl_health := merge_health f (fl_health m),
       fl_drops := merge_drops (fl_drops f) (fl_drops m), fl_io := merge_io (fl_io f) (fl_io m)\<rparr>;
     m2 = (if fl_end f = FlowFailed then m1\<lparr>fl_end := FlowFailed, fl_closed := True\<rparr> else m1);
     m3 = (if fl_first f \<noteq> None \<and> (fl_first m2 = None \<or> time_before (fl_first f) (fl_first m2)) then m2\<lparr>fl_first := fl_first f\<rparr> else m2);
     m4 = (if time_before (fl_last m3) (fl_last f) then m3\<lparr>fl_last := fl_last f\<rparr> else m3);
     m5 = (if \<not> valid_endpoint (fl_initiator m4) \<and> valid_endpoint (fl_initiator f)
       then m4\<lparr>fl_initiator := fl_initiator f, fl_target := fl_target f\<rparr> else m4);
     m6 = (if 0 < pt_pid (fl_client f) then m5\<lparr>fl_client := merge_participant (fl_client m5) (fl_client f)\<rparr> else m5) in
     if 0 < pt_pid (fl_server f) then m6\<lparr>fl_server := merge_participant (fl_server m6) (fl_server f)\<rparr> else m6)"

definition merge_direction :: "flow \<Rightarrow> string \<Rightarrow> string" where
  "merge_direction f direction = (if fl_direction f = '''' \<or> fl_direction f = ''unknown'' then direction
     else if direction = '''' \<or> direction = fl_direction f then fl_direction f
     else if crossed direction (fl_direction f) then ''forwarded''
     else if direction \<noteq> ''forwarded'' then ''unknown'' else direction)"

definition shown_direction :: "string \<Rightarrow> flow \<Rightarrow> string" where
  "shown_direction direction m = (if direction = ''local'' then ''local''
     else if 0 < pt_pid (fl_client m) \<and> 0 < pt_pid (fl_server m) then ''local''
     else if 0 < pt_pid (fl_client m) then ''outbound''
     else if 0 < pt_pid (fl_server m) then ''inbound''
     else if direction \<noteq> '''' then direction else ''unknown'')"

text \<open>The merged flow and the observation its bytes come from.\<close>

definition merge_observed :: "streams \<Rightarrow> observation list \<Rightarrow> flow \<times> flow" where
  "merge_observed h members = (let source = packet_source members; evidence = evidence_source h members;
     m0 = merge_app h evidence members (source\<lparr>fl_io := [], fl_tls_actors := [], fl_drops := None, fl_domain := fl_domain evidence\<rparr>);
     m1 = fold (\<lambda>x. merge_one (ob_flow x)) members (m0\<lparr>fl_first := None, fl_last := None\<rparr>);
     direction = fold (\<lambda>x. merge_direction (ob_flow x)) members '''';
     m2 = (if valid_endpoint (fl_initiator evidence) then m1\<lparr>fl_initiator := fl_initiator evidence, fl_target := fl_target evidence\<rparr> else m1) in
     (m2\<lparr>fl_direction := shown_direction direction m2\<rparr>, source))"

section \<open>Grouping is sound\<close>

text \<open>One connection: its observations, in the order they were put together, are not apart.\<close>

definition one_connection :: "observation list \<Rightarrow> bool" where
  "one_connection members \<longleftrightarrow> members \<noteq> [] \<and> sorted_wrt (\<lambda>other candidate. \<not> apart candidate other) members"

definition grouping_ok :: "grouping \<Rightarrow> bool" where
  "grouping_ok g \<longleftrightarrow> list_all one_connection (gr_groups g) \<and> (\<forall>i\<in>set (gr_midstream g). i < length (gr_groups g))
     \<and> (\<forall>(seq, is)\<in>set (gr_syn g). \<forall>i\<in>set is. i < length (gr_groups g))"

lemma with_syn_bound: "grouping_ok g \<Longrightarrow> i \<in> set (with_syn seq g) \<Longrightarrow> i < length (gr_groups g)"
  by (cases "map_of (gr_syn g) seq") (fastforce simp: grouping_ok_def with_syn_def dest: map_of_SomeD)+

lemma add_syn_ok: "grouping_ok g \<Longrightarrow> i < length (gr_groups g) \<Longrightarrow> grouping_ok (add_syn seq i g)"
  using with_syn_bound [of g] by (auto simp: grouping_ok_def add_syn_def dest!: update_entry)

lemma add_syn_groups [simp]: "gr_groups (add_syn seq i g) = gr_groups g" "gr_midstream (add_syn seq i g) = gr_midstream g"
  by (simp_all add: add_syn_def)

lemma first_fit_Some: "first_fit gs candidate is = Some i \<Longrightarrow> i \<in> set is \<and> same_observed candidate (gs ! i)"
  by (auto simp: first_fit_def find_Some_iff)

lemma find_group_ok:
  assumes "grouping_ok g" and "find_group candidate g = (r, g')"
  shows "grouping_ok g'" "gr_groups g' = gr_groups g"
    and "r = Some i \<Longrightarrow> i < length (gr_groups g) \<and> same_observed candidate (gr_groups g ! i)"
proof -
  note fit = first_fit_Some [of "gr_groups g" candidate] and bound = with_syn_bound [OF assms(1)] and ok = add_syn_ok [OF assms(1)]
  have mid: "j < length (gr_groups g)" if "j \<in> set (gr_midstream g)" for j using assms(1) that by (simp add: grouping_ok_def)
  show "grouping_ok g'" "gr_groups g' = gr_groups g"
    using assms fit mid by (auto simp: find_group_def Let_def intro!: ok split: if_splits option.splits)
  show "r = Some i \<Longrightarrow> i < length (gr_groups g) \<and> same_observed candidate (gr_groups g ! i)"
    using assms(2) fit bound mid by (fastforce simp: find_group_def Let_def split: if_splits option.splits)
qed

lemma joined_connection:
  "one_connection members \<Longrightarrow> same_observed candidate members \<Longrightarrow> one_connection (members @ [candidate])"
  by (auto simp: one_connection_def sorted_wrt_append same_observed_def list_all_iff)

lemma mset_concat_update: "i < length gs \<Longrightarrow> mset (concat (gs[i := gs ! i @ [x]])) = add_mset x (mset (concat gs))"
  by (induction gs arbitrary: i) (auto split: nat.split)

lemma place_candidate_ok:
  assumes ok: "grouping_ok g"
  shows "grouping_ok (place_candidate candidate g)"
    and "mset (concat (gr_groups (place_candidate candidate g))) = add_mset candidate (mset (concat (gr_groups g)))"
proof -
  obtain r g' where r: "find_group candidate g = (r, g')" by fastforce
  note f = find_group_ok [OF ok r]
  have "grouping_ok (place_candidate candidate g)
    \<and> mset (concat (gr_groups (place_candidate candidate g))) = add_mset candidate (mset (concat (gr_groups g)))"
  proof (cases r)
    case None
    define g1 where "g1 = g'\<lparr>gr_groups := gr_groups g' @ [[candidate]]\<rparr>"
    have one: "one_connection [candidate]" by (simp add: one_connection_def)
    have g1: "grouping_ok g1" "gr_groups g1 = gr_groups g @ [[candidate]]"
      using f(1,2) one by (fastforce simp: grouping_ok_def g1_def intro: less_SucI)+
    have "grouping_ok (g1\<lparr>gr_midstream := gr_midstream g1 @ [length (gr_groups g)]\<rparr>)" using g1 by (auto simp: grouping_ok_def)
    moreover have "grouping_ok (add_syn (fl_syn_seq (ob_flow candidate)) (length (gr_groups g)) g1)" using g1 by (intro add_syn_ok) simp_all
    moreover have "place_candidate candidate g = (if fl_syn_seen (ob_flow candidate) then add_syn (fl_syn_seq (ob_flow candidate)) (length (gr_groups g)) g1
        else g1\<lparr>gr_midstream := gr_midstream g1 @ [length (gr_groups g)]\<rparr>)"
      using None f(2) by (simp add: place_candidate_def r Let_def g1_def)
    ultimately show ?thesis using g1(2) by simp
  next
    case (Some i)
    have i: "i < length (gr_groups g)" "same_observed candidate (gr_groups g ! i)" using f(3) [OF Some] by simp_all
    then have "one_connection (gr_groups g ! i @ [candidate])"
      using ok by (intro joined_connection) (simp_all add: grouping_ok_def list_all_length)
    then have "list_all one_connection ((gr_groups g)[i := gr_groups g ! i @ [candidate]])"
      using ok by (auto simp: grouping_ok_def list_all_iff dest!: set_update_subset_insert [THEN subsetD])
    then have "grouping_ok (g'\<lparr>gr_groups := (gr_groups g)[i := gr_groups g ! i @ [candidate]]\<rparr>)"
      using f(1,2) by (auto simp: grouping_ok_def)
    then show ?thesis using Some i f(2) by (simp add: place_candidate_def r mset_concat_update)
  qed
  then show "grouping_ok (place_candidate candidate g)"
    "mset (concat (gr_groups (place_candidate candidate g))) = add_mset candidate (mset (concat (gr_groups g)))" by simp_all
qed

lemma place_all_ok:
  assumes "grouping_ok g"
  shows "grouping_ok (fold place_candidate candidates g)"
    and "mset (concat (gr_groups (fold place_candidate candidates g))) = mset candidates + mset (concat (gr_groups g))"
  using assms by (induction candidates arbitrary: g) (simp_all add: place_candidate_ok)

lemma grouping_ok0: "grouping_ok grouping0"
  by (simp add: grouping_ok_def grouping0_def)

lemma mset_by_first [simp]: "mset (by_first \<rho> candidates) = mset candidates"
  by (simp add: by_first_def)

lemma group_observations_ok:
  "mset (concat (group_observations \<rho> candidates)) = mset candidates" "list_all one_connection (group_observations \<rho> candidates)"
  using place_all_ok [OF grouping_ok0, of "by_first \<rho> candidates"] by (simp_all add: group_observations_def grouping_ok_def grouping0_def)

lemma one_connection_interfaces: "one_connection members \<Longrightarrow> distinct (map ob_interface members)"
  unfolding one_connection_def
proof (induction members)
  case (Cons x members)
  then show ?case by (cases members) (auto simp: apart_def Let_def)
qed simp

lemma one_connection_syn:
  assumes "one_connection members" and "x \<in> set members" and "y \<in> set members" and "fl_syn_seen (ob_flow x)" and "fl_syn_seen (ob_flow y)"
  shows "fl_syn_seq (ob_flow x) = fl_syn_seq (ob_flow y)"
proof -
  obtain i j where ij: "i < length members" "x = members ! i" "j < length members" "y = members ! j"
    using assms(2,3) by (auto simp: in_set_conv_nth)
  have "\<not> apart (members ! b) (members ! a)" if "a < b" "b < length members" for a b
    using assms(1) that by (simp add: one_connection_def sorted_wrt_iff_nth_less)
  from this [of i j] this [of j i] show ?thesis
    using ij assms(4,5) by (cases i j rule: linorder_cases) (auto simp: apart_def Let_def)
qed

section \<open>The index by SYN\<close>

text \<open>Grouping without the index: the first group that fits.\<close>

definition place_plain :: "observation \<Rightarrow> observation list list \<Rightarrow> observation list list" where
  "place_plain candidate gs = (case first_fit gs candidate [0..<length gs] of
     Some i \<Rightarrow> gs[i := gs ! i @ [candidate]] | None \<Rightarrow> gs @ [[candidate]])"

definition has_syn :: "u32 \<Rightarrow> observation list \<Rightarrow> bool" where
  "has_syn seq members \<longleftrightarrow> (\<exists>x\<in>set members. fl_syn_seq (ob_flow x) = seq)"

definition index_ok :: "grouping \<Rightarrow> bool" where
  "index_ok g \<longleftrightarrow> gr_midstream g = [] \<and> (\<forall>members\<in>set (gr_groups g). members \<noteq> [] \<and> (\<forall>x\<in>set members. fl_syn_seen (ob_flow x)))
     \<and> (\<forall>seq. with_syn seq g = filter (\<lambda>i. has_syn seq (gr_groups g ! i)) [0..<length (gr_groups g)])"

lemma find_filter: "(\<And>x. x \<in> set xs \<Longrightarrow> P x \<Longrightarrow> Q x) \<Longrightarrow> find P (filter Q xs) = find P xs"
  by (induction xs) auto

lemma index_finds:
  assumes "index_ok g" and "fl_syn_seen (ob_flow candidate)"
  shows "find_group candidate g = (first_fit (gr_groups g) candidate [0..<length (gr_groups g)], g)"
proof -
  let ?seq = "fl_syn_seq (ob_flow candidate)"
  have "has_syn ?seq (gr_groups g ! i)" if "i < length (gr_groups g)" "same_observed candidate (gr_groups g ! i)" for i
  proof -
    have m: "gr_groups g ! i \<in> set (gr_groups g)" using that(1) by simp
    then obtain x where x: "x \<in> set (gr_groups g ! i)" "fl_syn_seen (ob_flow x)"
      using assms(1) unfolding index_ok_def by (metis list.set_sel(1))
    then show ?thesis using that(2) assms(2) by (auto simp: has_syn_def same_observed_def list_all_iff apart_def Let_def)
  qed
  then have "first_fit (gr_groups g) candidate (with_syn ?seq g) = first_fit (gr_groups g) candidate [0..<length (gr_groups g)]"
    using assms(1) unfolding index_ok_def first_fit_def by (subst find_filter [symmetric, where Q = "\<lambda>i. has_syn ?seq (gr_groups g ! i)"]) auto
  moreover have "first_fit (gr_groups g) candidate (gr_midstream g) = None" using assms(1) by (simp add: index_ok_def first_fit_def)
  ultimately show ?thesis using assms(2) by (simp add: find_group_def Let_def split: option.split)
qed

lemma with_syn_add: "with_syn seq (add_syn seq' i g) = (if seq = seq' then with_syn seq' g @ [i] else with_syn seq g)"
  by (simp add: with_syn_def add_syn_def update_conv')

lemma place_index:
  assumes ok: "index_ok g" and syn: "fl_syn_seen (ob_flow candidate)"
  shows "index_ok (place_candidate candidate g)" "gr_groups (place_candidate candidate g) = place_plain candidate (gr_groups g)"
proof -
  let ?gs = "gr_groups g" and ?seq = "fl_syn_seq (ob_flow candidate)"
  note found = index_finds [OF assms]
  show "gr_groups (place_candidate candidate g) = place_plain candidate ?gs"
    using syn by (auto simp: place_candidate_def found place_plain_def Let_def split: option.split)
  show "index_ok (place_candidate candidate g)"
  proof (cases "first_fit ?gs candidate [0..<length ?gs]")
    case None
    define g1 where "g1 = g\<lparr>gr_groups := ?gs @ [[candidate]]\<rparr>"
    have p: "place_candidate candidate g = add_syn ?seq (length ?gs) g1"
      using syn by (simp add: place_candidate_def found None Let_def g1_def)
    have w: "with_syn seq g1 = filter (\<lambda>i. has_syn seq (?gs ! i)) [0..<length ?gs]" for seq
      using ok by (simp add: g1_def with_syn_def index_ok_def)
    have "with_syn seq (add_syn ?seq (length ?gs) g1) = filter (\<lambda>i. has_syn seq ((?gs @ [[candidate]]) ! i)) [0..<Suc (length ?gs)]" for seq
      by (auto simp: with_syn_add w has_syn_def nth_append intro!: filter_cong)
    then show ?thesis using ok syn unfolding p by (auto simp: index_ok_def g1_def)
  next
    case (Some i)
    have i: "i < length ?gs" "same_observed candidate (?gs ! i)" using first_fit_Some [OF Some] by auto
    have p: "place_candidate candidate g = g\<lparr>gr_groups := ?gs[i := ?gs ! i @ [candidate]]\<rparr>"
      by (simp add: place_candidate_def found Some)
    have m: "?gs ! i \<in> set ?gs" using i(1) by simp
    then obtain x where x: "x \<in> set (?gs ! i)" "fl_syn_seen (ob_flow x)"
      using ok unfolding index_ok_def by (metis list.set_sel(1))
    then have "fl_syn_seq (ob_flow x) = ?seq" using i(2) syn by (auto simp: same_observed_def list_all_iff apart_def Let_def)
    then have same: "has_syn seq (?gs ! i @ [candidate]) = has_syn seq (?gs ! i)" for seq using x by (auto simp: has_syn_def)
    have "has_syn seq (?gs[i := ?gs ! i @ [candidate]] ! j) = has_syn seq (?gs ! j)" if "j < length ?gs" for seq j
      using same that i(1) by (cases "j = i") simp_all
    then have "with_syn seq g = filter (\<lambda>j. has_syn seq (?gs[i := ?gs ! i @ [candidate]] ! j)) [0..<length ?gs]" for seq
      using ok by (auto simp: index_ok_def intro!: filter_cong)
    moreover have "\<forall>members\<in>set (?gs[i := ?gs ! i @ [candidate]]). members \<noteq> [] \<and> (\<forall>x\<in>set members. fl_syn_seen (ob_flow x))"
      using ok syn m by (auto simp: index_ok_def dest!: set_update_subset_insert [THEN subsetD])
    ultimately show ?thesis using ok unfolding p by (simp add: index_ok_def with_syn_def)
  qed
qed

lemma place_all_index:
  assumes "index_ok g" and "\<forall>x\<in>set candidates. fl_syn_seen (ob_flow x)"
  shows "gr_groups (fold place_candidate candidates g) = fold place_plain candidates (gr_groups g)"
  using assms by (induction candidates arbitrary: g) (simp_all add: place_index)

lemma group_observations_plain:
  assumes "\<forall>x\<in>set candidates. fl_syn_seen (ob_flow x)"
  shows "group_observations \<rho> candidates = fold place_plain (by_first \<rho> candidates) []"
proof -
  have "index_ok grouping0" by (simp add: index_ok_def grouping0_def with_syn_def)
  moreover have "\<forall>x\<in>set (by_first \<rho> candidates). fl_syn_seen (ob_flow x)" using assms by (metis mset_by_first set_mset_mset)
  ultimately show ?thesis unfolding group_observations_def by (simp add: place_all_index) (simp add: grouping0_def)
qed

section \<open>A connection counts the bytes of one observation\<close>

definition best_of :: "(flow \<Rightarrow> u64) \<Rightarrow> observation list \<Rightarrow> flow \<Rightarrow> flow" where
  "best_of v xs b = fold (\<lambda>x best. if v best < v (ob_flow x) then ob_flow x else best) xs b"

lemma best_of_best:
  assumes "b \<in> S" and "ob_flow ` set xs \<subseteq> S"
  shows "best_of v xs b \<in> S \<and> v b \<le> v (best_of v xs b) \<and> (\<forall>x\<in>set xs. v (ob_flow x) \<le> v (best_of v xs b))"
  using assms
proof (induction xs arbitrary: b)
  case (Cons y xs)
  let ?b = "if v b < v (ob_flow y) then ob_flow y else b"
  have "?b \<in> S" "ob_flow ` set xs \<subseteq> S" using Cons.prems by auto
  note IH = Cons.IH [OF this]
  have up: "v b \<le> v ?b" "v (ob_flow y) \<le> v ?b" by auto
  have "best_of v (y # xs) b = best_of v xs ?b" by (simp add: best_of_def)
  then show ?case using IH order_trans [OF up(1)] order_trans [OF up(2)] by simp
qed (simp add: best_of_def)

lemma packet_source_best:
  assumes "members \<noteq> []"
  shows "\<exists>x\<in>set members. packet_source members = ob_flow x"
    and "x \<in> set members \<Longrightarrow> fl_rx (ob_flow x) + fl_tx (ob_flow x) \<le> fl_rx (packet_source members) + fl_tx (packet_source members)"
proof -
  obtain y xs where m: "members = y # xs" using assms by (cases members) auto
  note best = best_of_best [where v = "\<lambda>f. fl_rx f + fl_tx f" and b = "ob_flow y" and xs = xs and S = "ob_flow ` set members"]
  have src: "packet_source members = best_of (\<lambda>f. fl_rx f + fl_tx f) xs (ob_flow y)" by (simp add: m packet_source_def best_of_def)
  show "\<exists>x\<in>set members. packet_source members = ob_flow x" using best unfolding src by (auto simp: m)
  show "x \<in> set members \<Longrightarrow> fl_rx (ob_flow x) + fl_tx (ob_flow x) \<le> fl_rx (packet_source members) + fl_tx (packet_source members)"
    using best unfolding src by (auto simp: m)
qed

lemma evidence_source_best:
  assumes "members \<noteq> []"
  shows "\<exists>x\<in>set members. evidence_source h members = ob_flow x"
    and "x \<in> set members \<Longrightarrow> domain_score h (ob_flow x) \<le> domain_score h (evidence_source h members)"
proof -
  obtain y xs where m: "members = y # xs" using assms by (cases members) auto
  note best = best_of_best [where v = "domain_score h" and b = "ob_flow y" and xs = xs and S = "ob_flow ` set members"]
  have src: "evidence_source h members = best_of (domain_score h) xs (ob_flow y)" by (simp add: m evidence_source_def best_of_def)
  show "\<exists>x\<in>set members. evidence_source h members = ob_flow x" using best unfolding src by (auto simp: m)
  show "x \<in> set members \<Longrightarrow> domain_score h (ob_flow x) \<le> domain_score h (evidence_source h members)"
    using best unfolding src by (auto simp: m)
qed

definition flow_counts :: "flow \<Rightarrow> flow_key \<times> u64 \<times> u64 \<times> u64 \<times> nat option" where
  "flow_counts f = (fl_key f, fl_rx f, fl_tx f, fl_packets f, fl_domain f)"

lemma fold_keeps: "(\<And>x m. x \<in> set xs \<Longrightarrow> v (g x m) = v m) \<Longrightarrow> v (fold g xs m) = v m"
  by (induction xs arbitrary: m) simp_all

lemma merge_one_counts: "flow_counts (merge_one f m) = flow_counts m"
  by (simp add: merge_one_def Let_def flow_counts_def)

lemma merge_app_fields:
  "flow_counts (merge_app h e members m) = flow_counts m" "fl_io (merge_app h e members m) = fl_io m" "fl_tls_actors (merge_app h e members m) = fl_tls_actors m"
proof -
  have "(flow_counts m1, fl_io m1, fl_tls_actors m1) = (flow_counts m, fl_io m, fl_tls_actors m) \<Longrightarrow>
    (flow_counts (fold (\<lambda>x m. if fl_app_protocol m = [] \<and> fl_app_protocol (ob_flow x) \<noteq> []
       then m\<lparr>fl_app_protocol := fl_app_protocol (ob_flow x), fl_app_source := fl_app_source (ob_flow x)\<rparr> else m) members m1),
     fl_io (fold (\<lambda>x m. if fl_app_protocol m = [] \<and> fl_app_protocol (ob_flow x) \<noteq> []
       then m\<lparr>fl_app_protocol := fl_app_protocol (ob_flow x), fl_app_source := fl_app_source (ob_flow x)\<rparr> else m) members m1),
     fl_tls_actors (fold (\<lambda>x m. if fl_app_protocol m = [] \<and> fl_app_protocol (ob_flow x) \<noteq> []
       then m\<lparr>fl_app_protocol := fl_app_protocol (ob_flow x), fl_app_source := fl_app_source (ob_flow x)\<rparr> else m) members m1))
    = (flow_counts m, fl_io m, fl_tls_actors m)" for m1
    by (induction members arbitrary: m1) (simp_all add: flow_counts_def)
  from this [of m] this [of "m\<lparr>fl_app_protocol := fl_app_protocol e, fl_app_source := fl_app_source e\<rparr>"]
  show "flow_counts (merge_app h e members m) = flow_counts m" "fl_io (merge_app h e members m) = fl_io m" "fl_tls_actors (merge_app h e members m) = fl_tls_actors m"
    by (simp_all add: merge_app_def Let_def flow_counts_def)
qed

lemma merge_observed_counts:
  assumes "merge_observed h members = (merged, source)"
  shows "source = packet_source members"
    and "flow_counts merged = flow_counts (source\<lparr>fl_domain := fl_domain (evidence_source h members)\<rparr>)"
proof -
  define m0 where "m0 = merge_app h (evidence_source h members) members ((packet_source members)\<lparr>fl_io := [], fl_tls_actors := [], fl_drops := None,
    fl_domain := fl_domain (evidence_source h members)\<rparr>)"
  define m1 where "m1 = fold (\<lambda>x. merge_one (ob_flow x)) members (m0\<lparr>fl_first := None, fl_last := None\<rparr>)"
  have "flow_counts m1 = flow_counts (m0\<lparr>fl_first := None, fl_last := None\<rparr>)"
    unfolding m1_def by (rule fold_keeps) (simp add: merge_one_counts)
  then have "flow_counts m1 = flow_counts ((packet_source members)\<lparr>fl_domain := fl_domain (evidence_source h members)\<rparr>)"
    by (simp add: flow_counts_def m0_def merge_app_fields(1) [unfolded flow_counts_def prod.inject])
  then show "source = packet_source members" "flow_counts merged = flow_counts (source\<lparr>fl_domain := fl_domain (evidence_source h members)\<rparr>)"
    using assms by (auto simp: merge_observed_def Let_def m0_def [symmetric] m1_def [symmetric] flow_counts_def)
qed

end
