(* ===== verification/Changes.thy ===== *)
theory Changes imports Flow begin

text \<open>
  What a consumer of the live stream is told of the connections (\<^verbatim>\<open>internal/app/changes.go\<close>).

  \<open>detect_changes\<close> is \<^verbatim>\<open>hostViewState.detectChanges\<close>: it compares the connections on display with what was last told of
  them.  The connections are numbered, and a snapshot is the list of numbers and flows.  \<open>hash\<close> is \<^verbatim>\<open>maphash.String\<close>
  with the seed of the process; \<open>\<rho>\<close> and \<open>\<rho>'\<close> are the orders in which the two maps are walked.

  The lemmas show that what is told of one number reads as lives: a life begins with \<open>''new''\<close>, nothing is told before
  it, and a connection that has left the display was told to have ended.
\<close>

section \<open>Change keys\<close>

record change_key =
  ck_group :: bytes
  ck_name :: bytes
  ck_tcp :: string
  ck_icmp :: bytes
  ck_hosts :: u64
  ck_actors :: u64
  ck_client :: process_id
  ck_server :: process_id
  ck_end :: flow_end
  ck_result :: int
  ck_latency :: u32
  ck_drops :: u64

record pending_name =
  pn_group :: bytes
  pn_name :: bytes
  pn_hosts :: u64
  pn_since :: gotime

record flow_change =
  fc_number :: u64
  fc_flow :: flow
  fc_fields :: "string list"
  fc_at :: int

record change_state =
  cs_keys :: "(u64 \<times> change_key) list"
  cs_first :: "(u64 \<times> int) list"
  cs_names :: "(u64 \<times> pending_name) list"

definition actor_hash :: "process_id \<Rightarrow> u64" where
  "actor_hash actor = word_of_int (fst actor) * 0x9e3779b97f4a7c15 XOR snd actor * 0xbf58476d1ce4e5b9"

definition change_key :: "(bytes \<Rightarrow> u64) \<Rightarrow> streams \<Rightarrow> flow \<Rightarrow> change_key" where
  "change_key hash h f = (let e = map_option (evidence_at h) (fl_domain f) in
     \<lparr>ck_group = (case e of None \<Rightarrow> [] | Some e \<Rightarrow> group e), ck_name = (case e of None \<Rightarrow> [] | Some e \<Rightarrow> label e),
      ck_tcp = fl_tcp_state f, ck_icmp = fl_icmp_error f,
      ck_hosts = (case e of None \<Rightarrow> 0 | Some e \<Rightarrow> fold (\<lambda>(host, n) x. x XOR hash host) (e_hosts e) 0),
      ck_actors = fold (\<lambda>(actor, io) x. x XOR actor_hash actor) (fl_io f) 0,
      ck_client = process_of (fl_client f), ck_server = process_of (fl_server f), ck_end = fl_end f,
      ck_result = h_connect_result (fl_health f), ck_latency = h_connect_latency (fl_health f),
      ck_drops = (case fl_drops f of None \<Rightarrow> 0 | Some reasons \<Rightarrow> fold (\<lambda>(reason, n) x. x + n) reasons 0)\<rparr>)"

section \<open>Changes of one connection\<close>

definition no_pending :: pending_name where
  "no_pending = \<lparr>pn_group = [], pn_name = [], pn_hosts = 0, pn_since = None\<rparr>"

definition note_state :: "change_key \<Rightarrow> change_key \<Rightarrow> change_key \<times> string list" where
  "note_state key old = (if ck_tcp key \<noteq> ck_tcp old \<or> ck_icmp key \<noteq> ck_icmp old \<or> ck_result key \<noteq> ck_result old \<or> ck_latency key \<noteq> ck_latency old
     then (old\<lparr>ck_tcp := ck_tcp key, ck_icmp := ck_icmp key, ck_result := ck_result key, ck_latency := ck_latency key\<rparr>, [''state'']) else (old, []))"

definition note_process :: "change_key \<Rightarrow> change_key \<Rightarrow> change_key \<times> string list" where
  "note_process key old = (if ck_client key \<noteq> ck_client old \<or> ck_server key \<noteq> ck_server old \<or> ck_actors key \<noteq> ck_actors old
     then (old\<lparr>ck_client := ck_client key, ck_server := ck_server key, ck_actors := ck_actors key\<rparr>, [''process'']) else (old, []))"

definition note_end :: "change_key \<Rightarrow> change_key \<Rightarrow> change_key \<times> string list" where
  "note_end key old = (if ck_end key \<noteq> ck_end old then (old\<lparr>ck_end := ck_end key\<rparr>, [''end'']) else (old, []))"

definition note_drops :: "change_key \<Rightarrow> change_key \<Rightarrow> change_key \<times> string list" where
  "note_drops key old = (if ck_drops key \<noteq> ck_drops old then (old\<lparr>ck_drops := ck_drops key\<rparr>, [''drops'']) else (old, []))"

text \<open>A name is told once it has stayed the same for \<open>late_event_window\<close>.\<close>

definition note_name :: "int \<Rightarrow> u64 \<Rightarrow> change_key \<Rightarrow> change_key \<Rightarrow> (u64 \<times> pending_name) list \<Rightarrow> change_key \<times> string list \<times> (u64 \<times> pending_name) list" where
  "note_name now n key old names = (if ck_group key \<noteq> ck_group old \<or> ck_name key \<noteq> ck_name old \<or> ck_hosts key \<noteq> ck_hosts old then
       (let pending = (case map_of names n of None \<Rightarrow> no_pending | Some p \<Rightarrow> p) in
        if pn_group pending \<noteq> ck_group key \<or> pn_name pending \<noteq> ck_name key \<or> pn_hosts pending \<noteq> ck_hosts key
        then (old, [], AList.update n \<lparr>pn_group = ck_group key, pn_name = ck_name key, pn_hosts = ck_hosts key, pn_since = Some now\<rparr> names)
        else if late_event_window \<le> time_sub now (pn_since pending)
        then (old\<lparr>ck_group := ck_group key, ck_name := ck_name key, ck_hosts := ck_hosts key\<rparr>, [''name''], AList.delete n names)
        else (old, [], names))
     else (old, [], AList.delete n names))"

definition note_known :: "int \<Rightarrow> u64 \<Rightarrow> change_key \<Rightarrow> change_key \<Rightarrow> change_state \<Rightarrow> change_state \<times> string list" where
  "note_known now n key old s = (case note_state key old of (k1, f1) \<Rightarrow> case note_process key k1 of (k2, f2) \<Rightarrow>
     case note_end key k2 of (k3, f3) \<Rightarrow> case note_drops key k3 of (k4, f4) \<Rightarrow>
     case note_name now n key k4 (cs_names s) of (k5, f5, names) \<Rightarrow>
     (s\<lparr>cs_keys := AList.update n k5 (cs_keys s), cs_names := names\<rparr>, f1 @ f2 @ f3 @ f4 @ f5))"

text \<open>A connection not told of yet waits for its late events.\<close>

definition note_unknown :: "int \<Rightarrow> u64 \<Rightarrow> flow \<Rightarrow> change_key \<Rightarrow> change_state \<Rightarrow> change_state \<times> string list" where
  "note_unknown now n f key s = (let
     seen = (case map_of (cs_first s) n of None \<Rightarrow> now | Some t \<Rightarrow> t);
     s1 = (if map_of (cs_first s) n = None then s\<lparr>cs_first := AList.update n now (cs_first s)\<rparr> else s) in
     if time_sub now (Some seen) < late_event_window \<and> fl_end f = FlowOngoing then (s1, [])
     else (s1\<lparr>cs_first := AList.delete n (cs_first s1), cs_keys := AList.update n key (cs_keys s1)\<rparr>,
       ''new'' # (if fl_end f \<noteq> FlowOngoing then [''end''] else [])))"

definition note_present :: "(bytes \<Rightarrow> u64) \<Rightarrow> streams \<Rightarrow> int \<Rightarrow> u64 \<times> flow \<Rightarrow> change_state \<Rightarrow> change_state \<times> string list" where
  "note_present hash h now entry s = (case entry of (n, f) \<Rightarrow> let key = change_key hash h f in
     case map_of (cs_keys s) n of None \<Rightarrow> note_unknown now n f key s | Some old \<Rightarrow> note_known now n key old s)"

definition note_gone :: "(u64 \<times> flow) list \<Rightarrow> u64 \<times> flow \<Rightarrow> change_state \<Rightarrow> change_state \<times> string list" where
  "note_gone current entry s = (case entry of (n, f) \<Rightarrow> if map_of current n \<noteq> None then (s, [])
     else (s\<lparr>cs_keys := AList.delete n (cs_keys s), cs_first := AList.delete n (cs_first s), cs_names := AList.delete n (cs_names s)\<rparr>,
       case map_of (cs_keys s) n of None \<Rightarrow> [''new'', ''end'']
       | Some old \<Rightarrow> if ck_end old = FlowOngoing then [''end''] else []))"

section \<open>Changes of the display\<close>

definition told :: "int \<Rightarrow> (u64 \<times> flow \<Rightarrow> change_state \<Rightarrow> change_state \<times> string list) \<Rightarrow> u64 \<times> flow \<Rightarrow> change_state \<times> flow_change list
    \<Rightarrow> change_state \<times> flow_change list" where
  "told now note entry r = (case r of (s, changes) \<Rightarrow> case note entry s of (s', noted) \<Rightarrow>
     (s', if 0 < length noted then changes @ [\<lparr>fc_number = fst entry, fc_flow = snd entry, fc_fields = noted, fc_at = now\<rparr>] else changes))"

definition detect_changes :: "(bytes \<Rightarrow> u64) \<Rightarrow> streams \<Rightarrow> (u64 \<Rightarrow> nat) \<Rightarrow> (u64 \<Rightarrow> nat) \<Rightarrow> (u64 \<times> flow) list \<Rightarrow> (u64 \<times> flow) list \<Rightarrow> int
    \<Rightarrow> change_state \<Rightarrow> change_state \<times> flow_change list" where
  "detect_changes hash h \<rho> \<rho>' current previous now s =
     fold (told now (note_gone current)) (ranged \<rho>' previous) (fold (told now (note_present hash h now)) (ranged \<rho> current) (s, []))"

section \<open>The lives of a number\<close>

datatype life = Unborn | Living | Ended

fun read_field :: "string \<Rightarrow> life option \<Rightarrow> life option" where
  "read_field x None = None"
| "read_field x (Some Unborn) = (if x = ''new'' then Some Living else None)"
| "read_field x (Some Living) = (if x = ''new'' then None else if x = ''end'' then Some Ended else Some Living)"
| "read_field x (Some Ended) = (if x = ''new'' then Some Living else Some Ended)"

definition fields_of :: "u64 \<Rightarrow> flow_change list \<Rightarrow> string list" where
  "fields_of n changes = concat (map fc_fields (filter (\<lambda>c. fc_number c = n) changes))"

definition read_life :: "u64 \<Rightarrow> flow_change list \<Rightarrow> life option \<Rightarrow> life option" where
  "read_life n changes = fold read_field (fields_of n changes)"

lemma read_life_append [simp]: "read_life n (a @ b) l = read_life n b (read_life n a l)"
  by (simp add: read_life_def fields_of_def)

lemma read_life_Nil [simp]: "read_life n [] l = l"
  by (simp add: read_life_def fields_of_def)

lemma read_life_told:
  "read_life n (snd (told now note (m, f) (s, changes))) l
    = (if m = n then fold read_field (snd (note (m, f) s)) (read_life n changes l) else read_life n changes l)"
  by (auto simp: told_def read_life_def fields_of_def split: prod.split)

lemma told_fst: "fst (told now note entry r) = fst (note entry (fst r))"
  by (simp add: told_def split: prod.split)

text \<open>What the state knows of a number.\<close>

definition known_life :: "change_state \<Rightarrow> u64 \<Rightarrow> life \<Rightarrow> bool" where
  "known_life s n l = (case map_of (cs_keys s) n of None \<Rightarrow> l \<noteq> Living | Some k \<Rightarrow> l = (if ck_end k = FlowOngoing then Living else Ended))"

lemma note_others:
  assumes "m \<noteq> n"
  shows "map_of (cs_keys (fst (note_present hash h now (m, f) s))) n = map_of (cs_keys s) n"
    and "map_of (cs_keys (fst (note_gone current (m, f) s))) n = map_of (cs_keys s) n"
  using assms
  by (simp_all add: note_present_def note_unknown_def note_known_def note_gone_def Let_def update_conv' delete_conv' split: option.split prod.split)

definition leaves_others :: "(u64 \<times> flow \<Rightarrow> change_state \<Rightarrow> change_state \<times> string list) \<Rightarrow> bool" where
  "leaves_others note \<longleftrightarrow> (\<forall>m f s n. m \<noteq> n \<longrightarrow> map_of (cs_keys (fst (note (m, f) s))) n = map_of (cs_keys s) n)"

lemma note_leaves_others: "leaves_others (note_present hash h now)" "leaves_others (note_gone current)"
  by (simp_all add: leaves_others_def note_others)

lemma told_others:
  assumes "leaves_others note" and "n \<notin> fst ` set entries"
  shows "map_of (cs_keys (fst (fold (told now note) entries r))) n = map_of (cs_keys (fst r)) n"
    and "read_life n (snd (fold (told now note) entries r)) l = read_life n (snd r) l"
proof -
  have "map_of (cs_keys (fst (fold (told now note) entries r))) n = map_of (cs_keys (fst r)) n
    \<and> read_life n (snd (fold (told now note) entries r)) l = read_life n (snd r) l"
    using assms(2)
  proof (induction entries arbitrary: r)
    case (Cons x entries)
    obtain m f where x: "x = (m, f)" by (cases x)
    obtain s changes where r: "r = (s, changes)" by (cases r)
    have "m \<noteq> n" using Cons.prems by (auto simp: x)
    then have "map_of (cs_keys (fst (told now note x r))) n = map_of (cs_keys (fst r)) n"
      "read_life n (snd (told now note x r)) l = read_life n (snd r) l"
      using assms(1) by (simp_all add: x r told_fst read_life_told leaves_others_def)
    then show ?case using Cons by simp
  qed simp
  then show "map_of (cs_keys (fst (fold (told now note) entries r))) n = map_of (cs_keys (fst r)) n"
    "read_life n (snd (fold (told now note) entries r)) l = read_life n (snd r) l" by simp_all
qed

lemma known_life_keys: "map_of (cs_keys s') n = map_of (cs_keys s) n \<Longrightarrow> known_life s' n l = known_life s n l"
  by (simp add: known_life_def)

text \<open>A walk over the entries tells of a number what the entry of the number tells.\<close>

lemma told_entry:
  assumes lo: "leaves_others note" and d: "distinct (map fst entries)" and e: "(n, f) \<in> set entries"
    and known: "known_life s n l"
    and one: "\<And>s'. map_of (cs_keys s') n = map_of (cs_keys s) n \<Longrightarrow> known_life s' n l
      \<Longrightarrow> \<exists>l'. fold read_field (snd (note (n, f) s')) (Some l) = Some l' \<and> known_life (fst (note (n, f) s')) n l' \<and> Q l' (map_of (cs_keys (fst (note (n, f) s'))) n)"
    and sofar: "read_life n changes l0 = Some l"
  shows "\<exists>l'. read_life n (snd (fold (told now note) entries (s, changes))) l0 = Some l'
    \<and> known_life (fst (fold (told now note) entries (s, changes))) n l' \<and> Q l' (map_of (cs_keys (fst (fold (told now note) entries (s, changes)))) n)"
proof -
  obtain xs ys where es: "entries = xs @ (n, f) # ys" using e by (meson split_list)
  have n: "n \<notin> fst ` set xs" "n \<notin> fst ` set ys" using d by (auto simp: es)
  obtain s1 c1 where r1: "fold (told now note) xs (s, changes) = (s1, c1)" by fastforce
  note earlier = told_others [OF lo n(1), of now "(s, changes)", unfolded r1]
  have k1: "map_of (cs_keys s1) n = map_of (cs_keys s) n" using earlier(1) by simp
  then obtain l' where l': "fold read_field (snd (note (n, f) s1)) (Some l) = Some l'" "known_life (fst (note (n, f) s1)) n l'"
    "Q l' (map_of (cs_keys (fst (note (n, f) s1))) n)"
    using one [of s1] known known_life_keys [OF k1] by blast
  have c1: "read_life n c1 l0 = Some l" using earlier(2) [of l0] sofar by simp
  obtain s2 c2 where r2: "told now note (n, f) (s1, c1) = (s2, c2)" by fastforce
  have s2: "s2 = fst (note (n, f) s1)" using told_fst [of now "note" "(n, f)" "(s1, c1)"] by (simp add: r2)
  have c2: "read_life n c2 l0 = Some l'" using read_life_told [of n now "note" n f s1 c1 l0] c1 l'(1) by (simp add: r2)
  have all: "fold (told now note) entries (s, changes) = fold (told now note) ys (s2, c2)" by (simp add: es r1 r2)
  note later = told_others [OF lo n(2), of now "(s2, c2)"]
  have k2: "map_of (cs_keys (fst (fold (told now note) ys (s2, c2)))) n = map_of (cs_keys s2) n" using later(1) by simp
  show ?thesis
    unfolding all k2 known_life_keys [OF k2] using later(2) [of l0] c2 l' by (simp add: s2)
qed

lemma note_present_life:
  assumes "known_life s n l" and "\<And>k. map_of (cs_keys s) n = Some k \<Longrightarrow> ck_end k \<noteq> FlowOngoing \<Longrightarrow> fl_end f \<noteq> FlowOngoing"
  shows "\<exists>l'. fold read_field (snd (note_present hash h now (n, f) s)) (Some l) = Some l' \<and> known_life (fst (note_present hash h now (n, f) s)) n l'"
proof (cases "map_of (cs_keys s) n")
  case None
  then have "l = Unborn \<or> l = Ended" using assms(1) by (cases l) (auto simp: known_life_def)
  then show ?thesis using None
    by (auto simp: note_present_def note_unknown_def Let_def known_life_def update_conv' change_key_def)
next
  case (Some old)
  define key where "key = change_key hash h f"
  have key_end: "ck_end key = fl_end f" by (simp add: key_def change_key_def)
  obtain k1 f1 where 1: "note_state key old = (k1, f1)" by fastforce
  obtain k2 f2 where 2: "note_process key k1 = (k2, f2)" by fastforce
  obtain k3 f3 where 3: "note_end key k2 = (k3, f3)" by fastforce
  obtain k4 f4 where 4: "note_drops key k3 = (k4, f4)" by fastforce
  obtain k5 f5 names where 5: "note_name now n key k4 (cs_names s) = (k5, f5, names)" by (metis prod_cases3)
  have f1: "ck_end k1 = ck_end old" "f1 = [] \<or> f1 = [''state'']" using 1 by (auto simp: note_state_def split: if_splits)
  have f2: "ck_end k2 = ck_end k1" "f2 = [] \<or> f2 = [''process'']" using 2 by (auto simp: note_process_def split: if_splits)
  have f3: "ck_end k3 = ck_end key" "f3 = (if ck_end key \<noteq> ck_end k2 then [''end''] else [])" using 3 by (auto simp: note_end_def split: if_splits)
  have f4: "ck_end k4 = ck_end k3" "f4 = [] \<or> f4 = [''drops'']" using 4 by (auto simp: note_drops_def split: if_splits)
  have f5: "ck_end k5 = ck_end k4" "f5 = [] \<or> f5 = [''name'']" using 5 by (auto simp: note_name_def Let_def split: if_splits)
  have run: "note_present hash h now (n, f) s = (s\<lparr>cs_keys := AList.update n k5 (cs_keys s), cs_names := names\<rparr>, f1 @ f2 @ f3 @ f4 @ f5)"
    using Some by (simp add: note_present_def note_known_def key_def [symmetric] 1 2 3 4 5)
  have l: "l = (if ck_end old = FlowOngoing then Living else Ended)" using assms(1) Some by (simp add: known_life_def)
  define l' where "l' = (if fl_end f = FlowOngoing then Living else Ended)"
  have skip: "fold read_field g (Some m) = Some m" if "g = [] \<or> g = [x]" "x \<noteq> ''new''" "x \<noteq> ''end''" "m \<noteq> Unborn" for g x m
    using that by (cases m) auto
  have l0: "l \<noteq> Unborn" "l' \<noteq> Unborn" by (simp_all add: l l'_def)
  have mid: "fold read_field f3 (Some l) = Some l'"
    using assms(2) [OF Some] by (auto simp: f3(2) f1 f2 key_end l l'_def)
  have "fold read_field (f1 @ f2 @ f3 @ f4 @ f5) (Some l) = Some l'"
    using skip [OF f1(2) _ _ l0(1)] skip [OF f2(2) _ _ l0(1)] mid skip [OF f4(2) _ _ l0(2)] skip [OF f5(2) _ _ l0(2)] by simp
  then show ?thesis by (simp add: run known_life_def update_conv' l'_def f3 f4 f5 key_end)
qed

lemma note_gone_life:
  assumes "known_life s n l" and "map_of current n = None"
  shows "fold read_field (snd (note_gone current (n, f) s)) (Some l) = Some Ended" "map_of (cs_keys (fst (note_gone current (n, f) s))) n = None"
  using assms by (cases l; auto simp: note_gone_def known_life_def delete_conv' split: option.splits if_splits)+

lemma note_gone_stays: "map_of current n \<noteq> None \<Longrightarrow> note_gone current (n, f) s = (s, [])"
  by (auto simp: note_gone_def)

section \<open>What the state keeps\<close>

lemma told_keys:
  assumes lo: "leaves_others note" and d: "distinct (map fst entries)" and e: "(n, f) \<in> set entries"
  shows "\<exists>s'. map_of (cs_keys s') n = map_of (cs_keys s) n
    \<and> map_of (cs_keys (fst (fold (told now note) entries (s, changes)))) n = map_of (cs_keys (fst (note (n, f) s'))) n"
proof -
  obtain xs ys where es: "entries = xs @ (n, f) # ys" using e by (meson split_list)
  have n: "n \<notin> fst ` set xs" "n \<notin> fst ` set ys" using d by (auto simp: es)
  obtain s1 c1 where r1: "fold (told now note) xs (s, changes) = (s1, c1)" by fastforce
  have "map_of (cs_keys s1) n = map_of (cs_keys s) n" using told_others(1) [OF lo n(1), of now "(s, changes)"] by (simp add: r1)
  moreover have "map_of (cs_keys (fst (fold (told now note) entries (s, changes)))) n = map_of (cs_keys (fst (note (n, f) s1))) n"
    using told_others(1) [OF lo n(2), of now "told now note (n, f) (s1, c1)"] told_fst [of now "note" "(n, f)" "(s1, c1)"] by (simp add: es r1)
  ultimately show ?thesis by blast
qed

lemma note_known_end: "\<exists>k. map_of (cs_keys (fst (note_known now n key old s))) n = Some k \<and> ck_end k = ck_end key"
proof -
  obtain k1 f1 where 1: "note_state key old = (k1, f1)" by fastforce
  obtain k2 f2 where 2: "note_process key k1 = (k2, f2)" by fastforce
  obtain k3 f3 where 3: "note_end key k2 = (k3, f3)" by fastforce
  obtain k4 f4 where 4: "note_drops key k3 = (k4, f4)" by fastforce
  obtain k5 f5 names where 5: "note_name now n key k4 (cs_names s) = (k5, f5, names)" by (metis prod_cases3)
  have "ck_end k3 = ck_end key" using 3 by (auto simp: note_end_def split: if_splits)
  moreover have "ck_end k4 = ck_end k3" using 4 by (auto simp: note_drops_def split: if_splits)
  moreover have "ck_end k5 = ck_end k4" using 5 by (auto simp: note_name_def Let_def split: if_splits)
  ultimately show ?thesis by (simp add: note_known_def 1 2 3 4 5 update_conv')
qed

lemma note_present_end:
  assumes "map_of (cs_keys (fst (note_present hash h now (n, f) s))) n = Some k"
  shows "ck_end k = fl_end f"
proof -
  have e: "ck_end (change_key hash h f) = fl_end f" by (simp add: change_key_def)
  show ?thesis
  proof (cases "map_of (cs_keys s) n")
    case None
    then show ?thesis using assms e by (auto simp: note_present_def note_unknown_def Let_def update_conv' split: if_splits)
  next
    case (Some old)
    then show ?thesis using assms e note_known_end [of now n "change_key hash h f" old s] by (auto simp: note_present_def)
  qed
qed

text \<open>Only connections on display have a key, and its end is the one shown.\<close>

lemma detect_keys:
  assumes d: "distinct (map fst current)" "distinct (map fst previous)" and known: "\<And>n. map_of (cs_keys s) n \<noteq> None \<Longrightarrow> n \<in> fst ` set previous"
    and r: "detect_changes hash h \<rho> \<rho>' current previous now s = (s', new)" and k: "map_of (cs_keys s') n = Some k"
  shows "\<exists>f. (n, f) \<in> set current \<and> ck_end k = fl_end f"
proof -
  obtain s1 c1 where r1: "fold (told now (note_present hash h now)) (ranged \<rho> current) (s, []) = (s1, c1)" by fastforce
  have r2: "fold (told now (note_gone current)) (ranged \<rho>' previous) (s1, c1) = (s', new)" using r by (simp add: detect_changes_def r1)
  note others = note_leaves_others(1) [of hash h now] note_leaves_others(2) [of current]
  have d': "distinct (map fst (ranged \<rho> current))" "distinct (map fst (ranged \<rho>' previous))" using d by (simp_all add: distinct_ranged)
  have gone: "map_of (cs_keys s') n = (if n \<in> fst ` set previous \<and> map_of current n = None then None else map_of (cs_keys s1) n)"
  proof (cases "n \<in> fst ` set previous")
    case True
    then obtain g where "(n, g) \<in> set (ranged \<rho>' previous)" by auto
    from told_keys [OF others(2) d'(2) this, of s1 now c1] obtain s2 where "map_of (cs_keys s2) n = map_of (cs_keys s1) n"
      "map_of (cs_keys s') n = map_of (cs_keys (fst (note_gone current (n, g) s2))) n" unfolding r2 by auto
    then show ?thesis using True by (simp add: note_gone_def delete_conv')
  next
    case False
    then have "n \<notin> fst ` set (ranged \<rho>' previous)" by simp
    from told_others(1) [OF others(2) this, of now "(s1, c1)"] show ?thesis using False by (simp add: r2)
  qed
  show ?thesis
  proof (cases "n \<in> fst ` set current")
    case True
    then obtain f where f: "(n, f) \<in> set current" by auto
    then have "(n, f) \<in> set (ranged \<rho> current)" by simp
    from told_keys [OF others(1) d'(1) this, of s now "[]"] obtain s2 where
      "map_of (cs_keys s1) n = map_of (cs_keys (fst (note_present hash h now (n, f) s2))) n" unfolding r1 by auto
    moreover have "map_of (cs_keys s1) n = Some k" using gone k by (cases "n \<in> fst ` set previous \<and> map_of current n = None") simp_all
    ultimately have "map_of (cs_keys (fst (note_present hash h now (n, f) s2))) n = Some k" by simp
    then show ?thesis using note_present_end f by blast
  next
    case False
    then have "n \<notin> fst ` set (ranged \<rho> current)" by simp
    from told_others(1) [OF others(1) this, of now "(s, [])"] have "map_of (cs_keys s1) n = map_of (cs_keys s) n" by (simp add: r1)
    moreover have "map_of current n = None" using False by (simp add: map_of_eq_None_iff)
    ultimately show ?thesis using gone k known [of n] by (cases "map_of (cs_keys s) n") (simp_all split: if_splits)
  qed
qed

section \<open>Runs\<close>

text \<open>An end that was told stays.\<close>

definition ends_kept :: "change_state \<Rightarrow> (u64 \<times> flow) list \<Rightarrow> bool" where
  "ends_kept s current \<longleftrightarrow> (\<forall>(n, f)\<in>set current. case map_of (cs_keys s) n of None \<Rightarrow> True
     | Some k \<Rightarrow> ck_end k = FlowOngoing \<or> fl_end f \<noteq> FlowOngoing)"

text \<open>
  \<open>change_run s shown seen changes\<close>: after some number of displays, \<open>s\<close> is the state, \<open>shown\<close> the last display, \<open>seen\<close> the
  numbers that were ever on display and \<open>changes\<close> everything told.  Between two displays the flows of the last one can change.
\<close>

inductive change_run :: "change_state \<Rightarrow> (u64 \<times> flow) list \<Rightarrow> u64 set \<Rightarrow> flow_change list \<Rightarrow> bool" where
  first_display: "change_run \<lparr>cs_keys = [], cs_first = [], cs_names = []\<rparr> [] {} []"
| next_display: "change_run s shown seen changes \<Longrightarrow> map fst previous = map fst shown \<Longrightarrow> distinct (map fst current) \<Longrightarrow> ends_kept s current
    \<Longrightarrow> detect_changes hash h \<rho> \<rho>' current previous now s = (s', new) \<Longrightarrow> change_run s' current (seen \<union> fst ` set current) (changes @ new)"

definition lives_told :: "change_state \<Rightarrow> (u64 \<times> flow) list \<Rightarrow> u64 set \<Rightarrow> flow_change list \<Rightarrow> u64 \<Rightarrow> bool" where
  "lives_told s shown seen changes n \<longleftrightarrow> (\<exists>l. read_life n changes (Some Unborn) = Some l \<and> known_life s n l
     \<and> (n \<in> fst ` set shown \<longrightarrow> n \<in> seen) \<and> (n \<notin> fst ` set shown \<longrightarrow> map_of (cs_keys s) n = None \<and> l = (if n \<in> seen then Ended else Unborn)))"

lemma detect_lives:
  assumes known: "lives_told s shown seen changes n" and ids: "map fst previous = map fst shown" "distinct (map fst shown)" "distinct (map fst current)"
    and kept: "ends_kept s current" and r: "detect_changes hash h \<rho> \<rho>' current previous now s = (s', new)"
  shows "lives_told s' current (seen \<union> fst ` set current) (changes @ new) n"
proof -
  have seen: "n \<in> fst ` set shown \<Longrightarrow> n \<in> seen" using known by (auto simp: lives_told_def)
  obtain l where l: "read_life n changes (Some Unborn) = Some l" "known_life s n l"
    "n \<notin> fst ` set shown \<longrightarrow> map_of (cs_keys s) n = None \<and> l = (if n \<in> seen then Ended else Unborn)"
    using known by (auto simp: lives_told_def)
  obtain s1 c1 where r1: "fold (told now (note_present hash h now)) (ranged \<rho> current) (s, []) = (s1, c1)" by fastforce
  have r2: "fold (told now (note_gone current)) (ranged \<rho>' previous) (s1, c1) = (s', new)" using r by (simp add: detect_changes_def r1)
  have d: "distinct (map fst (ranged \<rho> current))" "distinct (map fst (ranged \<rho>' previous))"
    using ids by (simp_all add: distinct_ranged)
  note others = note_leaves_others(1) [of hash h now] note_leaves_others(2) [of current]
  show ?thesis
  proof (cases "n \<in> fst ` set current")
    case True
    then obtain f where f: "(n, f) \<in> set current" by auto
    then have here: "map_of current n \<noteq> None" using ids(3) by simp
    have stay: "\<And>k. map_of (cs_keys s) n = Some k \<Longrightarrow> ck_end k \<noteq> FlowOngoing \<Longrightarrow> fl_end f \<noteq> FlowOngoing"
      using kept f by (fastforce simp: ends_kept_def)
    have "\<exists>l'. read_life n (snd (fold (told now (note_present hash h now)) (ranged \<rho> current) (s, []))) (Some l) = Some l'
      \<and> known_life (fst (fold (told now (note_present hash h now)) (ranged \<rho> current) (s, []))) n l' \<and> True"
    proof (rule told_entry [OF others(1) d(1) _ l(2)])
      fix s'' assume e: "map_of (cs_keys s'') n = map_of (cs_keys s) n" "known_life s'' n l"
      from note_present_life [OF e(2), of f hash h now] stay
      show "\<exists>l'. fold read_field (snd (note_present hash h now (n, f) s'')) (Some l) = Some l'
        \<and> known_life (fst (note_present hash h now (n, f) s'')) n l' \<and> True" by (simp add: e(1))
    qed (use f in simp_all)
    then obtain l' where l': "read_life n c1 (Some l) = Some l'" "known_life s1 n l'" unfolding r1 by auto
    have "\<exists>l''. read_life n (snd (fold (told now (note_gone current)) (ranged \<rho>' previous) (s1, c1))) (Some l) = Some l''
      \<and> known_life (fst (fold (told now (note_gone current)) (ranged \<rho>' previous) (s1, c1))) n l''"
    proof (cases "n \<in> fst ` set previous")
      case True
      then obtain g where "(n, g) \<in> set (ranged \<rho>' previous)" by auto
      from told_entry [OF others(2) d(2) this l'(2), of "\<lambda>_ _. True" c1 "Some l" now] l'(1) here
      show ?thesis by (simp add: note_gone_stays)
    next
      case False
      then have "n \<notin> fst ` set (ranged \<rho>' previous)" by simp
      from told_others [OF others(2) this, of now "(s1, c1)"] l' show ?thesis by (simp add: known_life_def)
    qed
    then show ?thesis using l(1) True by (simp add: lives_told_def r2)
  next
    case False
    then have gone: "map_of current n = None" by (simp add: map_of_eq_None_iff)
    have "n \<notin> fst ` set (ranged \<rho> current)" using False by simp
    note same = told_others [OF others(1) this, of now "(s, [])", unfolded r1]
    have k1: "map_of (cs_keys s1) n = map_of (cs_keys s) n" and c1: "read_life n c1 (Some l) = Some l" using same by simp_all
    have l1: "known_life s1 n l" using l(2) known_life_keys [OF k1] by simp
    show ?thesis
    proof (cases "n \<in> fst ` set previous")
      case True
      then obtain g where g: "(n, g) \<in> set (ranged \<rho>' previous)" by auto
      have "n \<in> fst ` set shown" using True ids(1) by (metis list.set_map)
      note was = seen [OF this]
      have "\<exists>l'. read_life n (snd (fold (told now (note_gone current)) (ranged \<rho>' previous) (s1, c1))) (Some l) = Some l'
        \<and> known_life (fst (fold (told now (note_gone current)) (ranged \<rho>' previous) (s1, c1))) n l'
        \<and> (l' = Ended \<and> map_of (cs_keys (fst (fold (told now (note_gone current)) (ranged \<rho>' previous) (s1, c1)))) n = None)"
        by (rule told_entry [OF others(2) d(2) g l1]) (use gone note_gone_life c1 in \<open>auto simp: known_life_def\<close>)
      then show ?thesis using l(1) was \<open>n \<notin> fst ` set current\<close> by (auto simp: lives_told_def r2)
    next
      case False
      then have "n \<notin> fst ` set (ranged \<rho>' previous)" by simp
      from told_others [OF others(2) this, of now "(s1, c1)"]
      show ?thesis using False l c1 k1 \<open>n \<notin> fst ` set current\<close> ids(1) by (simp add: lives_told_def r2 known_life_def) (metis list.set_map)
    qed
  qed
qed

lemma change_run_lives: "change_run s shown seen changes \<Longrightarrow> distinct (map fst shown) \<and> lives_told s shown seen changes n"
proof (induction rule: change_run.induct)
  case first_display
  show ?case by (simp add: lives_told_def known_life_def)
next
  case (next_display s shown seen changes previous current hash h \<rho> \<rho>' now s' new)
  then show ?case using detect_lives [of s shown seen changes n previous current hash h \<rho> \<rho>' now s' new] by simp
qed

end
