(* ===== verification/Host_State.thy ===== *)
theory Host_State imports Host_View Changes Collector begin

text \<open>
  The view of the host from one second to the next (\<^verbatim>\<open>internal/app/host_view_linux.go\<close>, second part).

  \<open>collect\<close> builds the connections from the collectors of the interfaces, and \<open>update_view\<close> (\<^verbatim>\<open>updateAt\<close>) gives them the
  numbers of the last view, keeps the totals of those that are gone, and remembers the final flow of each connection in a
  ring of \<open>max_flow_history\<close>.  A shown flow is a number into the heap \<open>hv_flow\<close>, because a connection keeps its pointer
  while it is open and a new one is taken once it has ended: \<open>hv_fresh\<close> is the next number to allocate.  \<open>tick_view\<close> is a
  second of the main loop: \<open>collect\<close>, then \<open>update_view\<close>; the naming of flows by the DNS queries of their process, which
  comes between them, is left out.

  The lemmas show that a remembered flow is never written again, whatever the later views, and that a connection that was
  shown as ended stays ended.
\<close>

section \<open>State\<close>

definition max_flow_history :: nat where
  "max_flow_history = 5000"

type_synonym seen_flow = "bytes \<times> nat"

record host_total =
  ht_io :: io_bytes
  ht_domain :: bool

record host_view =
  hv_next :: u64
  hv_ids :: "(seen_flow \<times> u64) list"
  hv_active :: "(u64 \<times> host_total) list"
  hv_displayed :: "(u64 \<times> nat) list"
  hv_history :: "nat list"
  hv_history_ids :: "u64 list"
  hv_history_next :: nat
  hv_changes :: change_state
  hv_expired :: io_bytes
  hv_expired_domain :: io_bytes
  hv_expired_flows :: u64
  hv_flow :: "nat \<Rightarrow> flow"
  hv_fresh :: nat

abbreviation shown_end :: "host_view \<Rightarrow> nat \<Rightarrow> flow_end" where
  "shown_end v r \<equiv> fl_end (hv_flow v r)"

definition write_flow :: "nat \<Rightarrow> flow \<Rightarrow> host_view \<Rightarrow> host_view" where
  "write_flow r f v = v\<lparr>hv_flow := (hv_flow v)(r := f)\<rparr>"

definition remember_flow :: "u64 \<Rightarrow> nat \<Rightarrow> host_view \<Rightarrow> host_view" where
  "remember_flow n r v = (if length (hv_history v) < max_flow_history
     then v\<lparr>hv_history := hv_history v @ [r], hv_history_ids := hv_history_ids v @ [n]\<rparr>
     else v\<lparr>hv_history := (hv_history v)[hv_history_next v := r], hv_history_ids := (hv_history_ids v)[hv_history_next v := n],
       hv_history_next := (hv_history_next v + 1) mod max_flow_history\<rparr>)"

definition end_reason :: "flow \<Rightarrow> int \<Rightarrow> flow_end" where
  "end_reason f now = (if fl_end f \<noteq> FlowOngoing then fl_end f
     else if fl_closed f then (if fl_tcp_state f = ''reset'' then FlowReset else FlowFin)
     else if 300 * second < time_sub now (fl_last f) then FlowIdle else FlowEvicted)"

definition end_shown :: "int \<Rightarrow> u64 \<Rightarrow> nat \<Rightarrow> host_view \<Rightarrow> host_view" where
  "end_shown now n r v = remember_flow n r (write_flow r ((hv_flow v r)\<lparr>fl_end := end_reason (hv_flow v r) now\<rparr>) v)"

section \<open>The connections of the interfaces\<close>

record host_source =
  hs_name :: bytes
  hs_netns :: u64
  hs_collector :: collector

record host_sum =
  ho_rx :: u64
  ho_tx :: u64
  ho_bytes :: u64
  ho_packets :: u64
  ho_retired :: "nat list"
  ho_members :: "(nat \<times> seen_flow list) list"
  ho_sources :: "(nat \<times> flow) list"

definition host_sum0 :: host_sum where
  "host_sum0 = \<lparr>ho_rx = 0, ho_tx = 0, ho_bytes = 0, ho_packets = 0, ho_retired = [], ho_members = [], ho_sources = []\<rparr>"

definition members_of :: "nat \<Rightarrow> host_sum \<Rightarrow> seen_flow list" where
  "members_of r sums = (case map_of (ho_members sums) r of None \<Rightarrow> [] | Some refs \<Rightarrow> refs)"

text \<open>The tuples of a connection that a NAT rewrote have one key.\<close>

definition observed_key :: "collector \<Rightarrow> flow \<Rightarrow> flow_key" where
  "observed_key c f = (case (fl_nat f, co_nat c) of (Some r, Some t) \<Rightarrow> ne_orig (nt_at t r) | _ \<Rightarrow> fl_key f)"

definition observations_of :: "host_source \<Rightarrow> ((flow_key \<times> u64) \<times> observation) list" where
  "observations_of s = (let c = hs_collector s in
     map (\<lambda>i. ((observed_key c (co_flow c i), hs_netns s), \<lparr>ob_flow = co_flow c i, ob_ref = (hs_name s, i), ob_interface = hs_name s\<rparr>))
       (map snd (co_flows c) @ co_retired c))"

definition by_key :: "host_source list \<Rightarrow> ((flow_key \<times> u64) \<times> observation list) list" where
  "by_key sources = fold (\<lambda>(key, x) m. AList.update key ((case map_of m key of None \<Rightarrow> [] | Some xs \<Rightarrow> xs) @ [x]) m)
     (concat (map observations_of sources)) []"

definition first_number :: "(seen_flow \<times> u64) list \<Rightarrow> seen_flow list \<Rightarrow> u64" where
  "first_number ids refs = (case find (\<lambda>n. n \<noteq> 0) (map (\<lambda>r. case map_of ids r of None \<Rightarrow> 0 | Some n \<Rightarrow> n) refs) of None \<Rightarrow> 0 | Some n \<Rightarrow> n)"

text \<open>The flow on display that the merged one is written into.\<close>

definition shown_before :: "observation list \<Rightarrow> host_view \<Rightarrow> host_sum \<Rightarrow> nat option" where
  "shown_before members v sums = (case map_of (hv_displayed v) (first_number (hv_ids v) (map ob_ref members)) of None \<Rightarrow> None
     | Some r \<Rightarrow> if list_all (\<lambda>x. fl_end (ob_flow x) = FlowOngoing) members \<and> shown_end v r = FlowOngoing \<and> length (members_of r sums) = 0
         then Some r else None)"

definition collect_one :: "streams \<Rightarrow> observation list \<Rightarrow> host_view \<times> host_sum \<Rightarrow> host_view \<times> host_sum" where
  "collect_one h members r = (case r of (v, sums) \<Rightarrow> case merge_observed h members of (merged, source) \<Rightarrow>
     let ref = (case shown_before members v sums of Some r \<Rightarrow> r | None \<Rightarrow> hv_fresh v);
       v1 = (case shown_before members v sums of Some r \<Rightarrow> v | None \<Rightarrow> v\<lparr>hv_fresh := Suc (hv_fresh v)\<rparr>) in
     (write_flow ref merged v1, sums\<lparr>ho_rx := ho_rx sums + fl_rx merged, ho_tx := ho_tx sums + fl_tx merged,
       ho_bytes := ho_bytes sums + (fl_rx merged + fl_tx merged), ho_packets := ho_packets sums + fl_packets merged,
       ho_retired := ho_retired sums @ [ref], ho_sources := AList.update ref source (ho_sources sums),
       ho_members := AList.update ref (members_of ref sums @ map ob_ref members) (ho_members sums)\<rparr>))"

definition host_groups :: "(flow_key \<times> u64 \<Rightarrow> nat) \<Rightarrow> (seen_flow \<Rightarrow> nat) \<Rightarrow> host_source list \<Rightarrow> observation list list" where
  "host_groups \<kappa> \<rho> sources = concat (map (\<lambda>(key, candidates). group_observations \<rho> candidates) (ranged \<kappa> (by_key sources)))"

definition collect :: "streams \<Rightarrow> (flow_key \<times> u64 \<Rightarrow> nat) \<Rightarrow> (seen_flow \<Rightarrow> nat) \<Rightarrow> host_source list \<Rightarrow> host_view \<Rightarrow> host_view \<times> host_sum" where
  "collect h \<kappa> \<rho> sources v = fold (collect_one h) (host_groups \<kappa> \<rho> sources) (v, host_sum0)"

section \<open>Numbers\<close>

record view_update =
  vu_view :: host_view
  vu_ids :: "(seen_flow \<times> u64) list"
  vu_active :: "(u64 \<times> host_total) list"
  vu_displayed :: "(u64 \<times> nat) list"
  vu_absorbed :: "u64 list"

definition total_of :: "streams \<Rightarrow> flow \<Rightarrow> host_total" where
  "total_of h f = \<lparr>ht_io = \<lparr>io_rx = fl_rx f, io_tx = fl_tx f\<rparr>,
     ht_domain = (case fl_domain f of None \<Rightarrow> False | Some d \<Rightarrow> listed (evidence_at h d))\<rparr>"

text \<open>The number of a connection: the first its observations had, unless another connection of this view took it.\<close>

definition take_number :: "seen_flow list \<Rightarrow> view_update \<Rightarrow> u64 \<times> view_update" where
  "take_number refs u = (let v = vu_view u; first = first_number (hv_ids v) refs;
     u1 = u\<lparr>vu_absorbed := filter (\<lambda>n. n \<noteq> 0) (map (\<lambda>r. case map_of (hv_ids v) r of None \<Rightarrow> 0 | Some n \<Rightarrow> n) refs) @ vu_absorbed u\<rparr> in
     if first = 0 \<or> map_of (vu_active u) first \<noteq> None
     then (hv_next v + 1, u1\<lparr>vu_view := v\<lparr>hv_next := hv_next v + 1\<rparr>\<rparr>) else (first, u1))"

text \<open>The flow that is shown of a connection: \<open>merged\<close> is where \<open>collect\<close> put it.\<close>

definition show_flow :: "u64 \<Rightarrow> nat \<Rightarrow> host_view \<Rightarrow> nat \<times> host_view" where
  "show_flow n merged v = (case map_of (hv_displayed v) n of
       None \<Rightarrow> (merged, v)
     | Some shown \<Rightarrow> if shown_end v shown \<noteq> FlowOngoing
         then (merged, write_flow merged ((hv_flow v merged)\<lparr>fl_end := shown_end v shown\<rparr>) v)
         else (shown, write_flow shown (hv_flow v merged) v))"

definition was_ended :: "u64 \<Rightarrow> host_view \<Rightarrow> bool" where
  "was_ended n v = (case map_of (hv_displayed v) n of None \<Rightarrow> False | Some shown \<Rightarrow> shown_end v shown \<noteq> FlowOngoing)"

definition finish_flow :: "int \<Rightarrow> u64 \<Rightarrow> nat \<Rightarrow> bool \<Rightarrow> host_view \<Rightarrow> host_view" where
  "finish_flow now n shown ended v = (let f = hv_flow v shown in
     if fl_end f \<noteq> FlowOngoing \<and> \<not> ended then remember_flow n shown v
     else if fl_end f = FlowOngoing \<and> fl_closed f \<and> late_event_window \<le> time_sub now (fl_last f) then end_shown now n shown v
     else v)"

definition update_one :: "streams \<Rightarrow> int \<Rightarrow> host_sum \<Rightarrow> nat \<Rightarrow> view_update \<Rightarrow> view_update" where
  "update_one h now sums merged u = (let refs = members_of merged sums in case take_number refs u of (n, u1) \<Rightarrow>
     let v = vu_view u1 in case show_flow n merged v of (shown, v1) \<Rightarrow>
     u1\<lparr>vu_ids := fold (\<lambda>r. AList.update r n) refs (vu_ids u1), vu_active := AList.update n (total_of h (hv_flow v merged)) (vu_active u1),
       vu_view := finish_flow now n shown (was_ended n v) v1, vu_displayed := AList.update n shown (vu_displayed u1)\<rparr>)"

text \<open>The total of a connection of the last view that is gone, and its final flow.\<close>

definition add_io :: "io_bytes \<Rightarrow> io_bytes \<Rightarrow> io_bytes" where
  "add_io a b = \<lparr>io_rx = io_rx a + io_rx b, io_tx = io_tx a + io_tx b\<rparr>"

definition keep_total :: "host_total \<Rightarrow> host_view \<Rightarrow> host_view" where
  "keep_total old v = (let v1 = v\<lparr>hv_expired := add_io (hv_expired v) (ht_io old), hv_expired_flows := hv_expired_flows v + 1\<rparr> in
     if ht_domain old then v1\<lparr>hv_expired_domain := add_io (hv_expired_domain v1) (ht_io old)\<rparr> else v1)"

definition finish_gone :: "int \<Rightarrow> u64 \<Rightarrow> host_view \<Rightarrow> host_view" where
  "finish_gone now n v = (case map_of (hv_displayed v) n of None \<Rightarrow> v
     | Some shown \<Rightarrow> if shown_end v shown = FlowOngoing then end_shown now n shown v else v)"

definition expire_total :: "int \<Rightarrow> (u64 \<times> host_total) list \<Rightarrow> u64 list \<Rightarrow> u64 \<times> host_total \<Rightarrow> host_view \<Rightarrow> host_view" where
  "expire_total now active absorbed entry v = (case entry of (n, old) \<Rightarrow>
     if map_of active n \<noteq> None \<or> n \<in> set absorbed then v else finish_gone now n (keep_total old v))"

definition shown_flows :: "host_view \<Rightarrow> (u64 \<times> nat) list \<Rightarrow> (u64 \<times> flow) list" where
  "shown_flows v displayed = map (\<lambda>(n, r). (n, hv_flow v r)) displayed"

record view_orders =
  vo_active :: "u64 \<Rightarrow> nat"
  vo_current :: "u64 \<Rightarrow> nat"
  vo_previous :: "u64 \<Rightarrow> nat"

definition update_view :: "(bytes \<Rightarrow> u64) \<Rightarrow> streams \<Rightarrow> view_orders \<Rightarrow> int \<Rightarrow> host_sum \<Rightarrow> host_view \<Rightarrow> host_view \<times> flow_change list" where
  "update_view hash h orders now sums v0 = (let
     u = fold (update_one h now sums) (ho_retired sums) \<lparr>vu_view = v0, vu_ids = [], vu_active = [], vu_displayed = [], vu_absorbed = []\<rparr>;
     v1 = fold (expire_total now (vu_active u) (vu_absorbed u)) (ranged (vo_active orders) (hv_active v0)) (vu_view u);
     old = hv_displayed v1;
     v2 = v1\<lparr>hv_ids := vu_ids u, hv_active := vu_active u, hv_displayed := vu_displayed u\<rparr> in
     case detect_changes hash h (vo_current orders) (vo_previous orders) (shown_flows v2 (vu_displayed u)) (shown_flows v2 old) now (hv_changes v2) of
       (s, changes) \<Rightarrow> (v2\<lparr>hv_changes := s\<rparr>, changes))"

definition tick_view :: "(bytes \<Rightarrow> u64) \<Rightarrow> streams \<Rightarrow> (flow_key \<times> u64 \<Rightarrow> nat) \<Rightarrow> (seen_flow \<Rightarrow> nat) \<Rightarrow> view_orders \<Rightarrow> int \<Rightarrow> host_source list
    \<Rightarrow> host_view \<Rightarrow> host_view \<times> flow_change list" where
  "tick_view hash h \<kappa> \<rho> orders now sources v = (case collect h \<kappa> \<rho> sources v of (v1, sums) \<Rightarrow> update_view hash h orders now sums v1)"

section \<open>Every observation is in one connection\<close>

lemma concat_put:
  "mset (concat (map snd (AList.update k ((case map_of m k of None \<Rightarrow> [] | Some xs \<Rightarrow> xs) @ [x]) m))) = add_mset x (mset (concat (map snd m)))"
  by (induction m) auto

lemma by_key_observations:
  "mset (concat (map snd (by_key sources))) = mset (map snd (concat (map observations_of sources)))"
proof -
  have "mset (concat (map snd (fold (\<lambda>(key, x) m. AList.update key ((case map_of m key of None \<Rightarrow> [] | Some xs \<Rightarrow> xs) @ [x]) m) xs m)))
    = mset (map snd xs) + mset (concat (map snd m))" for xs :: "((flow_key \<times> u64) \<times> observation) list" and m
    by (induction xs arbitrary: m) (auto simp: concat_put)
  from this [of "concat (map observations_of sources)" "[]"] show ?thesis by (simp add: by_key_def)
qed

lemma host_groups_observations:
  "mset (concat (host_groups \<kappa> \<rho> sources)) = mset (map snd (concat (map observations_of sources)))"
proof -
  have "mset (concat (concat (map (\<lambda>(key, candidates). group_observations \<rho> candidates) m))) = mset (concat (map snd m))"
    for m :: "((flow_key \<times> u64) \<times> observation list) list"
    by (induction m) (auto simp: group_observations_ok(1))
  from this [of "ranged \<kappa> (by_key sources)"] have "mset (concat (host_groups \<kappa> \<rho> sources)) = mset (concat (map snd (ranged \<kappa> (by_key sources))))"
    by (simp add: host_groups_def)
  also have "\<dots> = mset (concat (map snd (by_key sources)))"
  proof -
    have "mset (concat (map snd m)) = sum_mset (image_mset (\<lambda>x. mset (snd x)) (mset m))" for m :: "((flow_key \<times> u64) \<times> observation list) list"
      by (induction m) simp_all
    then show ?thesis by simp
  qed
  finally show ?thesis using by_key_observations by simp
qed

section \<open>Snapshots\<close>

text \<open>\<open>untouched E v v'\<close>: the step from \<open>v\<close> to \<open>v'\<close> leaves the ended flows \<open>E\<close> alone.\<close>

definition ended_at :: "nat set \<Rightarrow> host_view \<Rightarrow> bool" where
  "ended_at E v \<longleftrightarrow> (\<forall>r\<in>E. r < hv_fresh v \<and> shown_end v r \<noteq> FlowOngoing)"

definition untouched :: "nat set \<Rightarrow> host_view \<Rightarrow> host_view \<Rightarrow> bool" where
  "untouched E v v' \<longleftrightarrow> hv_fresh v \<le> hv_fresh v' \<and> (\<forall>r\<in>E. hv_flow v' r = hv_flow v r)"

lemma untouched_refl [simp]: "untouched E v v"
  by (simp add: untouched_def)

lemma untouched_trans: "untouched E v w \<Longrightarrow> untouched E w x \<Longrightarrow> untouched E v x"
  by (simp add: untouched_def)

lemma untouched_ended: "untouched E v v' \<Longrightarrow> ended_at E v \<Longrightarrow> ended_at E v'"
  by (fastforce simp: untouched_def ended_at_def)

lemma remember_fields [simp]:
  "hv_flow (remember_flow n r v) = hv_flow v" "hv_fresh (remember_flow n r v) = hv_fresh v" "hv_displayed (remember_flow n r v) = hv_displayed v"
  "hv_ids (remember_flow n r v) = hv_ids v" "hv_active (remember_flow n r v) = hv_active v" "hv_changes (remember_flow n r v) = hv_changes v"
  by (simp_all add: remember_flow_def)

lemma write_fields [simp]:
  "hv_flow (write_flow r f v) = (hv_flow v)(r := f)" "hv_fresh (write_flow r f v) = hv_fresh v" "hv_displayed (write_flow r f v) = hv_displayed v"
  "hv_history (write_flow r f v) = hv_history v" "hv_ids (write_flow r f v) = hv_ids v" "hv_active (write_flow r f v) = hv_active v"
  "hv_changes (write_flow r f v) = hv_changes v"
  by (simp_all add: write_flow_def)

lemma remember_history: "set (hv_history (remember_flow n r v)) \<subseteq> insert r (set (hv_history v))"
  by (auto simp: remember_flow_def dest!: set_update_subset_insert [THEN subsetD])

lemma end_reason_ended [simp]: "end_reason f now \<noteq> FlowOngoing"
  by (simp add: end_reason_def)

text \<open>The history holds ended flows, and what is on display is allocated.\<close>

definition view_ok :: "host_view \<Rightarrow> bool" where
  "view_ok v \<longleftrightarrow> ended_at (set (hv_history v)) v \<and> (\<forall>(n, r)\<in>set (hv_displayed v). r < hv_fresh v)"

definition view_step :: "nat set \<Rightarrow> host_view \<Rightarrow> host_view \<Rightarrow> bool" where
  "view_step E v v' \<longleftrightarrow> untouched E v v' \<and> (view_ok v \<longrightarrow> view_ok v') \<and> hv_displayed v' = hv_displayed v \<and> hv_ids v' = hv_ids v
     \<and> hv_changes v' = hv_changes v \<and> hv_active v' = hv_active v \<and> (\<forall>r. r < hv_fresh v \<and> shown_end v r \<noteq> FlowOngoing \<longrightarrow> shown_end v' r \<noteq> FlowOngoing)"

lemma view_step_refl [simp]: "view_step E v v"
  by (simp add: view_step_def)

lemma view_step_trans: "view_step E v w \<Longrightarrow> view_step E w x \<Longrightarrow> view_step E v x"
  unfolding view_step_def using untouched_trans by (fastforce simp: untouched_def)

lemma view_step_ended: "view_step E v v' \<Longrightarrow> ended_at E v \<Longrightarrow> ended_at E v'"
  unfolding view_step_def by (blast intro: untouched_ended)

lemma step_write:
  assumes "r \<notin> E" and "shown_end v r = FlowOngoing \<or> fl_end f \<noteq> FlowOngoing"
  shows "view_step E v (write_flow r f v)"
  using assms by (fastforce simp: view_step_def untouched_def view_ok_def ended_at_def)

lemma step_remember:
  assumes "shown_end v r \<noteq> FlowOngoing" and "r < hv_fresh v"
  shows "view_step E v (remember_flow n r v)"
  using assms remember_history [of n r v] by (fastforce simp: view_step_def untouched_def view_ok_def ended_at_def)

lemma step_end_shown:
  assumes "r \<notin> E" and "r < hv_fresh v"
  shows "view_step E v (end_shown now n r v)"
proof -
  let ?w = "write_flow r ((hv_flow v r)\<lparr>fl_end := end_reason (hv_flow v r) now\<rparr>) v"
  have "view_step E v ?w" using assms(1) by (intro step_write) simp_all
  moreover have "view_step E ?w (remember_flow n r ?w)" using assms(2) by (intro step_remember) simp_all
  ultimately show ?thesis unfolding end_shown_def by (rule view_step_trans)
qed

lemma ongoing_apart: "ended_at E v \<Longrightarrow> shown_end v r = FlowOngoing \<Longrightarrow> r \<notin> E"
  by (auto simp: ended_at_def)

section \<open>Collecting\<close>

lemma shown_before_ongoing: "shown_before members v sums = Some r \<Longrightarrow> shown_end v r = FlowOngoing"
  by (auto simp: shown_before_def split: option.splits if_splits)

lemma shown_before_shown: "shown_before members v sums = Some r \<Longrightarrow> view_ok v \<Longrightarrow> r < hv_fresh v"
  by (fastforce simp: shown_before_def view_ok_def split: option.splits if_splits dest!: map_of_SomeD)

definition merged_apart :: "nat set \<Rightarrow> host_view \<Rightarrow> host_sum \<Rightarrow> bool" where
  "merged_apart E v sums \<longleftrightarrow> (\<forall>r\<in>set (ho_retired sums). r \<notin> E \<and> r < hv_fresh v)"

lemma collect_one_step:
  assumes ended: "ended_at E v" and ok: "view_ok v" and apart: "merged_apart E v sums" and r: "collect_one h members (v, sums) = (v', sums')"
  shows "view_step E v v'" "merged_apart E v' sums'"
proof -
  obtain merged source where m: "merge_observed h members = (merged, source)" by fastforce
  have "view_step E v v' \<and> merged_apart E v' sums'"
  proof (cases "shown_before members v sums")
    case None
    let ?v = "v\<lparr>hv_fresh := Suc (hv_fresh v)\<rparr>"
    have v': "v' = write_flow (hv_fresh v) merged ?v" and s': "ho_retired sums' = ho_retired sums @ [hv_fresh v]"
      using r by (simp_all add: collect_one_def m None Let_def) auto
    have fresh: "hv_fresh v \<notin> E" "hv_fresh v \<notin> set (hv_history v)" using ended ok by (auto simp: ended_at_def view_ok_def)
    have "view_step E v v'" using fresh by (fastforce simp: v' view_step_def untouched_def view_ok_def ended_at_def less_Suc_eq)
    moreover have "merged_apart E v' sums'" using apart fresh by (auto simp: merged_apart_def v' s')
    ultimately show ?thesis ..
  next
    case (Some s)
    have v': "v' = write_flow s merged v" and s': "ho_retired sums' = ho_retired sums @ [s]"
      using r by (simp_all add: collect_one_def m Some Let_def) auto
    note going = shown_before_ongoing [OF Some]
    have out: "s \<notin> E" "s < hv_fresh v" using ongoing_apart [OF ended going] shown_before_shown [OF Some ok] by simp_all
    have "view_step E v v'" unfolding v' using out going by (intro step_write) simp_all
    moreover have "merged_apart E v' sums'" using apart out by (auto simp: merged_apart_def v' s')
    ultimately show ?thesis ..
  qed
  then show "view_step E v v'" "merged_apart E v' sums'" by simp_all
qed

lemma collect_step:
  assumes "ended_at E v" and "view_ok v" and "merged_apart E v sums" and "fold (collect_one h) gs (v, sums) = (v', sums')"
  shows "view_step E v v' \<and> merged_apart E v' sums'"
  using assms
proof (induction gs arbitrary: v sums)
  case (Cons g gs)
  obtain v1 s1 where one: "collect_one h g (v, sums) = (v1, s1)" by fastforce
  note step = collect_one_step [OF Cons.prems(1-3) one]
  have "view_ok v1" using step(1) Cons.prems(2) by (simp add: view_step_def)
  from Cons.IH [OF view_step_ended [OF step(1) Cons.prems(1)] this step(2)] Cons.prems(4) one
  show ?case using view_step_trans [OF step(1)] by simp
qed simp

section \<open>Updating\<close>

lemma take_number_view:
  "take_number refs u = (n, u') \<Longrightarrow> view_step E (vu_view u) (vu_view u') \<and> vu_displayed u' = vu_displayed u"
  by (auto simp: take_number_def Let_def view_step_def untouched_def view_ok_def ended_at_def split: if_splits)

lemma show_flow_step:
  assumes ended: "ended_at E v" and ok: "view_ok v" and merged: "merged \<notin> E" "merged < hv_fresh v" and r: "show_flow n merged v = (shown, v')"
  shows "view_step E v v'" "shown < hv_fresh v'" "was_ended n v \<Longrightarrow> shown_end v' shown \<noteq> FlowOngoing"
proof -
  have "view_step E v v' \<and> shown < hv_fresh v' \<and> (was_ended n v \<longrightarrow> shown_end v' shown \<noteq> FlowOngoing)"
  proof (cases "map_of (hv_displayed v) n")
    case None
    then show ?thesis using r merged by (simp add: show_flow_def was_ended_def)
  next
    case (Some s)
    have s: "s < hv_fresh v" using ok Some by (fastforce simp: view_ok_def dest: map_of_SomeD)
    show ?thesis
    proof (cases "shown_end v s = FlowOngoing")
      case True
      then have "v' = write_flow s (hv_flow v merged) v" "shown = s" using r Some by (auto simp: show_flow_def)
      then show ?thesis using step_write [OF ongoing_apart [OF ended True], of v] True s Some by (simp add: was_ended_def)
    next
      case False
      then have "v' = write_flow merged ((hv_flow v merged)\<lparr>fl_end := shown_end v s\<rparr>) v" "shown = merged"
        using r Some by (auto simp: show_flow_def)
      then show ?thesis using step_write [OF merged(1), of v "(hv_flow v merged)\<lparr>fl_end := shown_end v s\<rparr>"] False merged by simp
    qed
  qed
  then show "view_step E v v'" "shown < hv_fresh v'" "was_ended n v \<Longrightarrow> shown_end v' shown \<noteq> FlowOngoing" by simp_all
qed

lemma finish_flow_step:
  assumes "ended_at E v" and "shown < hv_fresh v"
  shows "view_step E v (finish_flow now n shown ended v)"
  using assms by (auto simp: finish_flow_def Let_def intro!: step_remember step_end_shown dest: ongoing_apart)

text \<open>What the new display shows is allocated, and what was ended is shown as ended.\<close>

definition display_ok :: "host_view \<Rightarrow> view_update \<Rightarrow> bool" where
  "display_ok v0 u \<longleftrightarrow> distinct (map fst (vu_displayed u)) \<and> (\<forall>(n, r)\<in>set (vu_displayed u). r < hv_fresh (vu_view u)
     \<and> (was_ended n v0 \<longrightarrow> shown_end (vu_view u) r \<noteq> FlowOngoing))"

lemma display_step:
  assumes "display_ok v0 u" and "view_step E (vu_view u) v'"
  shows "\<forall>(n, r)\<in>set (vu_displayed u). r < hv_fresh v' \<and> (was_ended n v0 \<longrightarrow> shown_end v' r \<noteq> FlowOngoing)"
  using assms by (fastforce simp: display_ok_def view_step_def untouched_def)

lemma was_ended_kept:
  assumes "view_step E v v'" and "view_ok v" and "was_ended n v"
  shows "was_ended n v'"
  using assms by (fastforce simp: was_ended_def view_step_def view_ok_def split: option.splits dest!: map_of_SomeD)

lemma update_one_step:
  assumes ended: "ended_at E (vu_view u)" and ok: "view_ok (vu_view u)" and merged: "merged \<notin> E" "merged < hv_fresh (vu_view u)"
    and before: "view_step {} v0 (vu_view u)" "view_ok v0" and shown: "display_ok v0 u"
  shows "view_step E (vu_view u) (vu_view (update_one h now sums merged u))" "display_ok v0 (update_one h now sums merged u)"
proof -
  obtain n u1 where t: "take_number (members_of merged sums) u = (n, u1)" by fastforce
  obtain s v1 where sh: "show_flow n merged (vu_view u1) = (s, v1)" by fastforce
  let ?v = "finish_flow now n s (was_ended n (vu_view u1)) v1"
  have u1: "view_step F (vu_view u) (vu_view u1)" "vu_displayed u1 = vu_displayed u" for F using take_number_view [OF t] by simp_all
  have e1: "ended_at E (vu_view u1)" by (rule view_step_ended [OF u1(1) ended])
  have ok1: "view_ok (vu_view u1)" using u1(1) ok by (simp add: view_step_def)
  have m1: "merged < hv_fresh (vu_view u1)" using u1(1) [of E] merged(2) by (auto simp: view_step_def untouched_def)
  note s = show_flow_step [OF e1 ok1 merged(1) m1 sh]
  note fin = finish_flow_step [OF view_step_ended [OF s(1) e1] s(2), of now n "was_ended n (vu_view u1)"]
  have step: "view_step E (vu_view u) ?v" by (rule view_step_trans [OF view_step_trans [OF u1(1) s(1)] fin])
  then show "view_step E (vu_view u) (vu_view (update_one h now sums merged u))" by (simp add: update_one_def Let_def t sh)
  have was: "was_ended n (vu_view u1)" if "was_ended n v0"
    using was_ended_kept [OF view_step_trans [OF before(1) u1(1)] before(2) that] .
  have "s < hv_fresh ?v \<and> (was_ended n v0 \<longrightarrow> shown_end ?v s \<noteq> FlowOngoing)"
    using s(2) s(3) [OF was] fin by (fastforce simp: view_step_def untouched_def)
  then have "display_ok v0 (u1\<lparr>vu_ids := ids, vu_active := act, vu_view := ?v, vu_displayed := AList.update n s (vu_displayed u1)\<rparr>)" for ids act
    using display_step [OF shown step] shown by (auto simp: display_ok_def u1(2) distinct_update dest!: update_entry)
  then show "display_ok v0 (update_one h now sums merged u)" by (simp add: update_one_def Let_def t sh)
qed

lemma update_all_step:
  assumes "ended_at E (vu_view u)" and "view_ok (vu_view u)" and "\<forall>r\<in>set rs. r \<notin> E \<and> r < hv_fresh (vu_view u)"
    and "view_step {} v0 (vu_view u)" and "view_ok v0" and "display_ok v0 u"
  shows "view_step E (vu_view u) (vu_view (fold (update_one h now sums) rs u)) \<and> display_ok v0 (fold (update_one h now sums) rs u)"
  using assms
proof (induction rs arbitrary: u)
  case (Cons r rs)
  let ?u = "update_one h now sums r u"
  have r: "r \<notin> E" "r < hv_fresh (vu_view u)" using Cons.prems(3) by simp_all
  note one = update_one_step [OF Cons.prems(1,2) r Cons.prems(4-6)]
  have empty: "view_step {} (vu_view u) (vu_view ?u)" for h using one(1) by (simp add: view_step_def untouched_def)
  have "view_ok (vu_view ?u)" "\<forall>r\<in>set rs. r \<notin> E \<and> r < hv_fresh (vu_view ?u)"
    using one(1) [of h now sums] Cons.prems(2,3) by (auto simp: view_step_def untouched_def)
  note IH = Cons.IH [OF view_step_ended [OF one(1) Cons.prems(1)] this view_step_trans [OF Cons.prems(4) empty] Cons.prems(5) one(2)]
  have "view_step E (vu_view u) (vu_view (fold (update_one h now sums) rs ?u))" by (rule view_step_trans [OF one(1)]) (use IH in blast)
  then show ?case using IH by simp
qed simp

lemma keep_total_step: "view_step E v (keep_total old v)"
  by (simp add: keep_total_def Let_def view_step_def untouched_def view_ok_def ended_at_def)

lemma finish_gone_step:
  assumes "ended_at E v" and "view_ok v"
  shows "view_step E v (finish_gone now n v)"
proof -
  have "view_step E v (end_shown now n shown v)" if "map_of (hv_displayed v) n = Some shown" "shown_end v shown = FlowOngoing" for shown
    using assms(2) that ongoing_apart [OF assms(1) that(2)] by (intro step_end_shown) (fastforce simp: view_ok_def dest: map_of_SomeD)+
  then show ?thesis by (simp add: finish_gone_def split: option.split)
qed

lemma expire_total_step:
  assumes "ended_at E v" and "view_ok v"
  shows "view_step E v (expire_total now active absorbed entry v)"
proof -
  obtain n old where e: "entry = (n, old)" by (cases entry)
  note k = keep_total_step [of E v old]
  have "view_ok (keep_total old v)" using k assms(2) by (simp add: view_step_def)
  from view_step_trans [OF k finish_gone_step [OF view_step_ended [OF k assms(1)] this]]
  show ?thesis by (simp add: e expire_total_def)
qed

lemma expire_totals_step:
  assumes "ended_at E v" and "view_ok v"
  shows "view_step E v (fold (expire_total now active absorbed) entries v)"
  using assms
proof (induction entries arbitrary: v)
  case (Cons e entries)
  note one = expire_total_step [OF Cons.prems, of now active absorbed e]
  have "view_ok (expire_total now active absorbed e v)" using one Cons.prems(2) by (simp add: view_step_def)
  from view_step_trans [OF one Cons.IH [OF view_step_ended [OF one Cons.prems(1)] this]] show ?case by simp
qed simp

section \<open>A second of the view\<close>

text \<open>What was told to have ended is shown as ended.\<close>

definition told_ok :: "host_view \<Rightarrow> bool" where
  "told_ok v \<longleftrightarrow> distinct (map fst (hv_displayed v)) \<and> (\<forall>n k. map_of (cs_keys (hv_changes v)) n = Some k \<longrightarrow>
     map_of (hv_displayed v) n \<noteq> None \<and> (ck_end k \<noteq> FlowOngoing \<longrightarrow> was_ended n v))"

lemma shown_flows_fst [simp]: "map fst (shown_flows v displayed) = map fst displayed"
  by (simp add: shown_flows_def case_prod_unfold comp_def)

lemma tick_view_ok:
  assumes ended: "ended_at E v" and ok: "view_ok v" and told: "told_ok v" and r: "tick_view hash h \<kappa> \<rho> orders now sources v = (v', new)"
  shows "untouched E v v'" "view_ok v'" "told_ok v'"
    and "\<exists>previous. map fst previous = map fst (hv_displayed v) \<and> ends_kept (hv_changes v) (shown_flows v' (hv_displayed v'))
      \<and> detect_changes hash h (vo_current orders) (vo_previous orders) (shown_flows v' (hv_displayed v')) previous now (hv_changes v) = (hv_changes v', new)"
proof -
  obtain v1 sums where c: "collect h \<kappa> \<rho> sources v = (v1, sums)" by fastforce
  have "merged_apart E v host_sum0" "merged_apart {} v host_sum0" by (simp_all add: merged_apart_def host_sum0_def)
  then have collected: "view_step E v v1 \<and> merged_apart E v1 sums" "view_step {} v v1"
    using collect_step [OF ended ok, of host_sum0 h] collect_step [of "{}" v host_sum0 h] ok c by (simp_all add: collect_def ended_at_def)
  have e1: "ended_at E v1" and ok1: "view_ok v1"
    using view_step_ended [of E v v1] collected ended ok by (simp_all add: view_step_def)
  define u0 where "u0 = \<lparr>vu_view = v1, vu_ids = [], vu_active = [], vu_displayed = [], vu_absorbed = []\<rparr>"
  define u where "u = fold (update_one h now sums) (ho_retired sums) u0"
  have u0: "vu_view u0 = v1" "display_ok v u0" by (simp_all add: u0_def display_ok_def)
  have "view_step E v1 (vu_view u) \<and> display_ok v u"
    using update_all_step [of E u0 "ho_retired sums" v h now sums] e1 ok1 ok collected u0 by (simp add: u_def merged_apart_def)
  then have updated: "view_step E v1 (vu_view u)" "display_ok v u" by simp_all
  have e2: "ended_at E (vu_view u)" and ok2: "view_ok (vu_view u)"
    using view_step_ended [OF updated(1) e1] updated(1) ok1 by (simp_all add: view_step_def)
  define w where "w = fold (expire_total now (vu_active u) (vu_absorbed u)) (ranged (vo_active orders) (hv_active v1)) (vu_view u)"
  have w: "view_step E (vu_view u) w" unfolding w_def by (rule expire_totals_step [OF e2 ok2])
  have okw: "view_ok w" using w ok2 by (simp add: view_step_def)
  have all: "view_step E v w"
    using collected(1) updated(1) w by (blast intro: view_step_trans)
  note shown = display_step [OF updated(2) w]
  define x where "x = w\<lparr>hv_ids := vu_ids u, hv_active := vu_active u, hv_displayed := vu_displayed u\<rparr>"
  define previous where "previous = shown_flows x (hv_displayed w)"
  have same: "hv_displayed w = hv_displayed v" "hv_changes x = hv_changes v" using all by (simp_all add: view_step_def x_def)
  obtain s where d: "detect_changes hash h (vo_current orders) (vo_previous orders) (shown_flows x (vu_displayed u)) previous now (hv_changes x) = (s, new)"
    and v': "v' = x\<lparr>hv_changes := s\<rparr>"
    using r unfolding tick_view_def c prod.case update_view_def Let_def u0_def [symmetric] u_def [symmetric] w_def [symmetric] x_def [symmetric]
      previous_def [symmetric] by (auto split: prod.splits)
  have shown': "shown_flows v' (hv_displayed v') = shown_flows x (vu_displayed u)" by (simp add: v' x_def shown_flows_def)
  show "untouched E v v'" using all by (simp add: view_step_def untouched_def v' x_def)
  show "view_ok v'" using okw shown by (auto simp: view_ok_def ended_at_def v' x_def)
  have kept: "ends_kept (hv_changes v) (shown_flows x (vu_displayed u))"
  proof -
    have "shown_end x r' \<noteq> FlowOngoing" if "(n, r') \<in> set (vu_displayed u)" "map_of (cs_keys (hv_changes v)) n = Some k" "ck_end k \<noteq> FlowOngoing" for n r' k
      using told that shown by (fastforce simp: told_ok_def x_def)
    then show ?thesis by (fastforce simp: ends_kept_def shown_flows_def split: option.split)
  qed
  then show "\<exists>previous. map fst previous = map fst (hv_displayed v) \<and> ends_kept (hv_changes v) (shown_flows v' (hv_displayed v'))
      \<and> detect_changes hash h (vo_current orders) (vo_previous orders) (shown_flows v' (hv_displayed v')) previous now (hv_changes v) = (hv_changes v', new)"
    unfolding shown' using d same by (intro exI [of _ previous]) (simp add: previous_def v')
  have dist: "distinct (map fst (vu_displayed u))" using updated(2) by (simp add: display_ok_def)
  have "map_of (vu_displayed u) n \<noteq> None \<and> (ck_end k \<noteq> FlowOngoing \<longrightarrow> was_ended n v')" if k: "map_of (cs_keys s) n = Some k" for n k
  proof -
    have known: "m \<in> fst ` set previous" if here: "map_of (cs_keys (hv_changes x)) m \<noteq> None" for m
    proof -
      obtain k' where "map_of (cs_keys (hv_changes v)) m = Some k'" using here same(2) by auto
      then have "map_of (hv_displayed v) m \<noteq> None" using told unfolding told_ok_def by blast
      then have "m \<in> set (map fst (hv_displayed v))" by (simp add: map_of_eq_None_iff)
      then have "m \<in> set (map fst previous)" by (simp only: previous_def shown_flows_fst same)
      then show ?thesis by simp
    qed
    obtain f where f: "(n, f) \<in> set (shown_flows x (vu_displayed u))" "ck_end k = fl_end f"
      using detect_keys [OF _ _ known d k] dist told unfolding told_ok_def previous_def shown_flows_fst same by blast
    then obtain r' where r': "(n, r') \<in> set (vu_displayed u)" "f = hv_flow x r'" by (auto simp: shown_flows_def)
    then have "map_of (vu_displayed u) n = Some r'" using dist by simp
    then show ?thesis using f r' by (simp add: was_ended_def v' x_def)
  qed
  then show "told_ok v'" using dist by (simp add: told_ok_def v' x_def)
qed

section \<open>Runs of the view\<close>

definition host_view0 :: "(nat \<Rightarrow> flow) \<Rightarrow> host_view" where
  "host_view0 heap = \<lparr>hv_next = 0, hv_ids = [], hv_active = [], hv_displayed = [], hv_history = [], hv_history_ids = [], hv_history_next = 0,
     hv_changes = \<lparr>cs_keys = [], cs_first = [], cs_names = []\<rparr>, hv_expired = io_bytes0, hv_expired_domain = io_bytes0, hv_expired_flows = 0,
     hv_flow = heap, hv_fresh = 0\<rparr>"

text \<open>\<open>view_run v seen changes\<close>: \<open>v\<close> is the view after some number of seconds, with whatever collectors in each of them.\<close>

inductive view_run :: "host_view \<Rightarrow> u64 set \<Rightarrow> flow_change list \<Rightarrow> bool" where
  first_view: "view_run (host_view0 heap) {} []"
| next_view: "view_run v seen changes \<Longrightarrow> tick_view hash h \<kappa> \<rho> orders now sources v = (v', new)
    \<Longrightarrow> view_run v' (seen \<union> fst ` set (hv_displayed v')) (changes @ new)"

inductive later_view :: "host_view \<Rightarrow> host_view \<Rightarrow> bool" where
  later_refl: "later_view v v"
| later_tick: "later_view v w \<Longrightarrow> tick_view hash h \<kappa> \<rho> orders now sources w = (x, new) \<Longrightarrow> later_view v x"

lemma ended_empty: "ended_at {} v"
  by (simp add: ended_at_def)

lemma view_run_ok: "view_run v seen changes \<Longrightarrow> view_ok v \<and> told_ok v \<and> change_run (hv_changes v) (shown_flows v (hv_displayed v)) seen changes"
proof (induction rule: view_run.induct)
  case (first_view heap)
  have "shown_flows (host_view0 heap) (hv_displayed (host_view0 heap)) = []" by (simp add: shown_flows_def host_view0_def)
  then show ?case using change_run.first_display by (simp add: view_ok_def ended_at_def told_ok_def host_view0_def)
next
  case (next_view v seen changes hash h \<kappa> \<rho> orders now sources v' new)
  note ok = tick_view_ok [OF ended_empty _ _ next_view.hyps(2)]
  obtain previous where p: "map fst previous = map fst (hv_displayed v)" "ends_kept (hv_changes v) (shown_flows v' (hv_displayed v'))"
    "detect_changes hash h (vo_current orders) (vo_previous orders) (shown_flows v' (hv_displayed v')) previous now (hv_changes v) = (hv_changes v', new)"
    using ok(4) next_view.IH by blast
  have "told_ok v'" using ok(3) next_view.IH by blast
  then have d: "distinct (map fst (shown_flows v' (hv_displayed v')))" by (simp add: told_ok_def)
  have "change_run (hv_changes v') (shown_flows v' (hv_displayed v')) (seen \<union> fst ` set (shown_flows v' (hv_displayed v'))) (changes @ new)"
    by (rule change_run.next_display [OF _ _ d p(2,3), of "shown_flows v (hv_displayed v)"]) (use next_view.IH p(1) in simp_all)
  moreover have "fst ` set (shown_flows v' (hv_displayed v')) = fst ` set (hv_displayed v')" by (metis list.set_map shown_flows_fst)
  ultimately show ?case using ok(2,3) next_view.IH by simp
qed

lemma later_view_ok:
  assumes "later_view v w" and "view_ok v" and "told_ok v"
  shows "view_ok w \<and> told_ok w \<and> untouched (set (hv_history v)) v w \<and> ended_at (set (hv_history v)) w"
  using assms
proof (induction rule: later_view.induct)
  case (later_refl v)
  then show ?case by (simp add: view_ok_def)
next
  case (later_tick v w hash h \<kappa> \<rho> orders now sources x new)
  then have w: "view_ok w" "told_ok w" "untouched (set (hv_history v)) v w" "ended_at (set (hv_history v)) w" by simp_all
  note ok = tick_view_ok [OF w(4,1,2) later_tick.hyps(2)]
  show ?case using ok(2,3) untouched_trans [OF w(3) ok(1)] untouched_ended [OF ok(1) w(4)] by simp
qed

end
