(* ===== verification/Frame_History.thy ===== *)
theory Frame_History imports Packet Go_Store begin

text \<open>
  The latest frames that a recording starts with (\<^verbatim>\<open>frameHistory\<close> in \<^verbatim>\<open>internal/app/capture_session.go\<close>).

  A frame keeps a copy of its packet and the number of its flow.  The lemmas show that the history counts its bytes
  right, never holds more than \<open>history_limit\<close> of them or a frame older than its age, and drops only the oldest frames.
\<close>

definition history_limit :: nat where
  "history_limit = 33554432"

record history_frame =
  hf_packet :: packet
  hf_flow :: nat

record frame_history =
  fh_frames :: "history_frame list"
  fh_bytes :: int
  fh_max_age :: int

definition kept_packet :: "packet \<Rightarrow> packet" where
  "kept_packet p = packet0\<lparr>k_interface := k_interface p, k_frame := k_frame p, k_frame_len := k_frame_len p,
     k_captured_at := k_captured_at p, k_outgoing := k_outgoing p, k_truncated := k_truncated p\<rparr>"

text \<open>\<^verbatim>\<open>now.Sub(seen) > limit\<close> for a limit that is not negative.\<close>

definition older :: "gotime \<Rightarrow> int \<Rightarrow> gotime \<Rightarrow> bool" where
  "older now limit seen = (case now of None \<Rightarrow> False | Some t \<Rightarrow> limit < time_sub t seen)"

fun trim_frames :: "gotime \<Rightarrow> int \<Rightarrow> int \<Rightarrow> history_frame list \<Rightarrow> int \<times> history_frame list" where
  "trim_frames now limit n [] = (n, [])"
| "trim_frames now limit n (x # xs) = (if int history_limit < n \<or> older now limit (k_captured_at (hf_packet x))
     then trim_frames now limit (n - int (length (k_frame (hf_packet x)))) xs else (n, x # xs))"

definition history_trim :: "gotime \<Rightarrow> frame_history \<Rightarrow> frame_history" where
  "history_trim now h = (case trim_frames now (fh_max_age h) (fh_bytes h) (fh_frames h) of (n, frames) \<Rightarrow> h\<lparr>fh_frames := frames, fh_bytes := n\<rparr>)"

definition history_add :: "packet \<Rightarrow> nat option \<Rightarrow> frame_history \<Rightarrow> frame_history" where
  "history_add p f h = (case f of None \<Rightarrow> h
     | Some i \<Rightarrow> if length (k_frame p) = 0 then h
       else history_trim (k_captured_at p) (h\<lparr>fh_frames := fh_frames h @ [\<lparr>hf_packet = kept_packet p, hf_flow = i\<rparr>],
         fh_bytes := fh_bytes h + int (length (k_frame p))\<rparr>))"

definition frame_bytes :: "history_frame list \<Rightarrow> int" where
  "frame_bytes frames = (\<Sum>x\<leftarrow>frames. int (length (k_frame (hf_packet x))))"

lemma frame_bytes_simps [simp]:
  "frame_bytes [] = 0" "frame_bytes (x # xs) = int (length (k_frame (hf_packet x))) + frame_bytes xs" "frame_bytes (xs @ ys) = frame_bytes xs + frame_bytes ys"
  by (simp_all add: frame_bytes_def)

definition fresh_enough :: "gotime \<Rightarrow> int \<Rightarrow> history_frame list \<Rightarrow> bool" where
  "fresh_enough now limit frames = (case frames of [] \<Rightarrow> True | x # xs \<Rightarrow> \<not> older now limit (k_captured_at (hf_packet x)))"

text \<open>A trim drops frames from the front, and only while it has to.\<close>

lemma trim_frames_spec:
  assumes "trim_frames now limit (frame_bytes frames) frames = (n, kept)"
  shows "\<exists>gone. frames = gone @ kept \<and> n = frame_bytes kept \<and> n \<le> int history_limit \<and> fresh_enough now limit kept
    \<and> (\<forall>g x xs. gone = g @ x # xs \<longrightarrow> int history_limit < frame_bytes (x # xs @ kept) \<or> older now limit (k_captured_at (hf_packet x)))"
  using assms
proof (induction frames)
  case Nil
  then show ?case by (simp add: fresh_enough_def)
next
  case (Cons y frames)
  show ?case
  proof (cases "int history_limit < frame_bytes (y # frames) \<or> older now limit (k_captured_at (hf_packet y))")
    case True
    then have "trim_frames now limit (frame_bytes frames) frames = (n, kept)" using Cons.prems by simp
    from Cons.IH [OF this] obtain gone where g: "frames = gone @ kept" "n = frame_bytes kept" "n \<le> int history_limit" "fresh_enough now limit kept"
      "\<forall>g x xs. gone = g @ x # xs \<longrightarrow> int history_limit < frame_bytes (x # xs @ kept) \<or> older now limit (k_captured_at (hf_packet x))" by blast
    have "int history_limit < frame_bytes (x # xs @ kept) \<or> older now limit (k_captured_at (hf_packet x))" if "y # gone = h @ x # xs" for h x xs
      using that True g by (cases h) auto
    then show ?thesis using g by (intro exI [of _ "y # gone"]) simp
  next
    case False
    then show ?thesis using Cons.prems by (intro exI [of _ "[]"]) (auto simp: fresh_enough_def)
  qed
qed

definition history_ok :: "frame_history \<Rightarrow> bool" where
  "history_ok h \<longleftrightarrow> fh_bytes h = frame_bytes (fh_frames h) \<and> fh_bytes h \<le> int history_limit"

lemma history_add_ok:
  assumes "history_ok h"
  shows "history_ok (history_add p f h)" "fh_max_age (history_add p f h) = fh_max_age h"
    and "\<exists>gone new. fh_frames h @ new = gone @ fh_frames (history_add p f h) \<and> length new \<le> 1"
proof -
  have "history_ok (history_add p f h) \<and> fh_max_age (history_add p f h) = fh_max_age h
    \<and> (\<exists>gone new. fh_frames h @ new = gone @ fh_frames (history_add p f h) \<and> length new \<le> 1)"
  proof (cases "f = None \<or> length (k_frame p) = 0")
    case True
    then have "history_add p f h = h" by (auto simp: history_add_def split: option.split)
    then show ?thesis using assms by (auto intro: exI [of _ "[]"])
  next
    case False
    then obtain i where i: "f = Some i" by auto
    define x where "x = \<lparr>hf_packet = kept_packet p, hf_flow = i\<rparr>"
    have n: "fh_bytes h + int (length (k_frame p)) = frame_bytes (fh_frames h @ [x])"
      using assms by (simp add: history_ok_def x_def kept_packet_def)
    obtain m kept where t: "trim_frames (k_captured_at p) (fh_max_age h) (frame_bytes (fh_frames h @ [x])) (fh_frames h @ [x]) = (m, kept)" by fastforce
    from trim_frames_spec [OF t] obtain gone where g: "fh_frames h @ [x] = gone @ kept" "m = frame_bytes kept" "m \<le> int history_limit" by blast
    have "history_add p f h = h\<lparr>fh_frames := kept, fh_bytes := m\<rparr>"
      using False t unfolding history_add_def i option.case x_def [symmetric] n history_trim_def by simp
    moreover have "\<exists>gone new. fh_frames h @ new = gone @ kept \<and> length new \<le> 1" using g(1) by (intro exI [of _ gone] exI [of _ "[x]"]) simp
    ultimately show ?thesis using g by (simp add: history_ok_def)
  qed
  then show "history_ok (history_add p f h)" "fh_max_age (history_add p f h) = fh_max_age h"
    "\<exists>gone new. fh_frames h @ new = gone @ fh_frames (history_add p f h) \<and> length new \<le> 1" by simp_all
qed

end
