(* ===== verification/Host_Run.thy ===== *)
theory Host_Run imports Collector_Run Host_State Frame_History begin

text \<open>
  Concrete runs of the host view for the witnesses of the properties: a view of one interface whose only connection has
  failed, and the view a second later, when the connection is gone; observations of two connections on two interfaces;
  and runs of the frame history.
\<close>

section \<open>Runs of the view\<close>

definition demo_failed :: collector where
  "demo_failed = demo_collector\<lparr>co_flow := (\<lambda>_. (flow0 (key_for (V4 [10, 0, 0, 1], 4000) (V4 [10, 0, 0, 2], 5000) 17))\<lparr>fl_rx := 60, fl_first := Some 1, fl_last := Some 1, fl_end := FlowFailed, fl_closed := True\<rparr>), co_next := 1,
     co_flows := [(key_for (V4 [10, 0, 0, 1], 4000) (V4 [10, 0, 0, 2], 5000) 17, 0)]\<rparr>"

definition demo_orders :: view_orders where
  "demo_orders = \<lparr>vo_active = (\<lambda>_. 0), vo_current = (\<lambda>_. 0), vo_previous = (\<lambda>_. 0)\<rparr>"

definition demo_tick :: "int \<Rightarrow> host_source list \<Rightarrow> host_view \<Rightarrow> host_view \<times> flow_change list" where
  "demo_tick now sources v = tick_view (\<lambda>_. 0) demo_streams (\<lambda>_. 0) (\<lambda>_. 0) demo_orders now sources v"

definition demo_source :: host_source where
  "demo_source = \<lparr>hs_name = lit ''eth0'', hs_netns = 1, hs_collector = demo_failed\<rparr>"

definition demo_view0 :: host_view where
  "demo_view0 = host_view0 (\<lambda>_. flow0 (key_for no_endpoint no_endpoint 0))"

definition demo_view :: host_view where
  "demo_view = fst (demo_tick 5 [demo_source] demo_view0)"

definition demo_later :: host_view where
  "demo_later = fst (demo_tick 9 [] demo_view)"

definition demo_changes :: "flow_change list" where
  "demo_changes = snd (demo_tick 5 [demo_source] demo_view0) @ snd (demo_tick 9 [] demo_view)"


lemma demo_merged: "fl_end (fst (merge_observed demo_streams [x])) = fl_end (ob_flow x)" if "fl_end (ob_flow x) = FlowFailed" "fl_app_protocol (ob_flow x) = []"
  using that by (simp add: merge_observed_def Let_def packet_source_def evidence_source_def merge_one_def merge_app_def)

lemma demo_view_fields: "hv_history demo_view = [0]" "hv_displayed demo_view = [(1, 0)]"
proof -
  let ?f = "co_flow demo_failed 0"
  define x where "x = \<lparr>ob_flow = ?f, ob_ref = (lit ''eth0'', 0), ob_interface = lit ''eth0''\<rparr>"
  have x: "ob_flow x = ?f" "ob_ref x = (lit ''eth0'', 0)" by (simp_all add: x_def)
  obtain m s where m: "merge_observed demo_streams [x] = (m, s)" by fastforce
  have "fl_end ?f = FlowFailed" "fl_app_protocol ?f = []" by (simp_all add: demo_failed_def flow0_def)
  then have failed: "fl_end m = FlowFailed" using demo_merged [of x] m by (simp add: x_def)
  let ?v = demo_view0
  have groups: "host_groups (\<lambda>_. 0) (\<lambda>_. 0) [demo_source] = [[x]]"
    by (simp add: x_def demo_source_def host_groups_def by_key_def observations_of_def demo_failed_def demo_collector_def new_collector_def
      observed_key_def ranged_def group_observations_def by_first_def grouping0_def flow0_def Let_def place_candidate_def find_group_def first_fit_def)
  have v: "hv_ids ?v = []" "hv_displayed ?v = []" "hv_fresh ?v = 0" "hv_active ?v = []" "hv_history ?v = []" "hv_next ?v = 0"
    by (simp_all add: demo_view0_def host_view0_def)
  have c: "collect demo_streams (\<lambda>_. 0) (\<lambda>_. 0) [demo_source] demo_view0
    = (write_flow 0 m (?v\<lparr>hv_fresh := 1\<rparr>), \<lparr>ho_rx = fl_rx m, ho_tx = fl_tx m, ho_bytes = fl_rx m + fl_tx m, ho_packets = fl_packets m, ho_retired = [0],
        ho_members = [(0, [(lit ''eth0'', 0)])], ho_sources = [(0, s)]\<rparr>)"
    by (simp add: collect_def groups collect_one_def m shown_before_def v x first_number_def members_of_def host_sum0_def Let_def)
  show "hv_history demo_view = [0]" "hv_displayed demo_view = [(1, 0)]"
    by (simp_all add: demo_view_def demo_tick_def tick_view_def c update_view_def Let_def update_one_def members_of_def take_number_def first_number_def v
      show_flow_def was_ended_def finish_flow_def failed write_flow_def ranged_def remember_flow_def max_flow_history_def split: prod.split)
qed

lemma demo_view_run: "view_run demo_view {1} (snd (demo_tick 5 [demo_source] demo_view0))"
proof -
  have start: "view_run demo_view0 {} []" unfolding demo_view0_def by (rule first_view)
  have tick: "tick_view (\<lambda>_. 0) demo_streams (\<lambda>_. 0) (\<lambda>_. 0) demo_orders 5 [demo_source] demo_view0
    = (demo_view, snd (demo_tick 5 [demo_source] demo_view0))" by (simp add: demo_view_def demo_tick_def)
  from next_view [OF start tick] show ?thesis by (simp add: demo_view_fields)
qed

lemma demo_later_view: "later_view demo_view demo_later"
  unfolding demo_later_def demo_tick_def by (rule later_tick [OF later_refl prod.collapse [symmetric]])

lemma expire_displayed: "hv_displayed (fold (expire_total now active absorbed) entries v) = hv_displayed v"
  by (rule fold_keeps) (auto simp: expire_total_def finish_gone_def keep_total_def end_shown_def Let_def split: prod.split option.split)

lemma demo_later_displayed: "hv_displayed demo_later = []"
  by (simp add: demo_later_def demo_tick_def tick_view_def collect_def host_groups_def by_key_def ranged_def update_view_def host_sum0_def Let_def split: prod.split)

lemma demo_later_run: "view_run demo_later {1} demo_changes"
proof -
  from next_view [OF demo_view_run, of "\<lambda>_. 0" demo_streams "\<lambda>_. 0" "\<lambda>_. 0" demo_orders 9 "[]" demo_later "snd (demo_tick 9 [] demo_view)"]
  show ?thesis by (simp add: demo_later_def demo_tick_def demo_changes_def demo_later_displayed [unfolded demo_later_def demo_tick_def])
qed

text \<open>Three observations of two connections: the same SYN on two interfaces, and another SYN on one of them.\<close>

definition demo_observations :: "observation list" where
  "demo_observations = [\<lparr>ob_flow = demo_seen\<lparr>fl_syn_seen := True, fl_syn_seq := 7\<rparr>, ob_ref = (lit ''eth0'', 0), ob_interface = lit ''eth0''\<rparr>,
     \<lparr>ob_flow = demo_seen\<lparr>fl_syn_seen := True, fl_syn_seq := 7, fl_rx := 90\<rparr>, ob_ref = (lit ''br0'', 0), ob_interface = lit ''br0''\<rparr>,
     \<lparr>ob_flow = demo_seen\<lparr>fl_syn_seen := True, fl_syn_seq := 8\<rparr>, ob_ref = (lit ''eth0'', 1), ob_interface = lit ''eth0''\<rparr>]"

section \<open>Runs of the frame history\<close>

text \<open>The history a run starts with.\<close>

definition history0 :: "int \<Rightarrow> frame_history" where
  "history0 limit = \<lparr>fh_frames = [], fh_bytes = 0, fh_max_age = limit\<rparr>"

text \<open>A packet is offered to the history, or time passes and it is trimmed.\<close>

datatype history_event = Offer packet "nat option" | Elapse int

fun history_step :: "history_event \<Rightarrow> frame_history \<Rightarrow> frame_history" where
  "history_step (Offer p f) h = history_add p f h"
| "history_step (Elapse now) h = history_trim (Some now) h"

text \<open>The frames of the packets that have a flow and bytes, and the times at which the history is trimmed.\<close>

fun offers :: "history_event \<Rightarrow> history_frame list" where
  "offers (Offer p f) = (case f of None \<Rightarrow> []
     | Some i \<Rightarrow> if length (k_frame p) = 0 then [] else [\<lparr>hf_packet = kept_packet p, hf_flow = i\<rparr>])"
| "offers (Elapse now) = []"

fun trims :: "history_event \<Rightarrow> gotime list" where
  "trims (Offer p f) = (if f = None \<or> length (k_frame p) = 0 then [] else [k_captured_at p])"
| "trims (Elapse now) = [Some now]"

definition offered :: "history_event list \<Rightarrow> history_frame list" where
  "offered es = concat (map offers es)"

definition trim_times :: "history_event list \<Rightarrow> gotime list" where
  "trim_times es = concat (map trims es)"

text \<open>Frames of at most 32 MiB of which none is older than the limit.\<close>

definition recent :: "int \<Rightarrow> int \<Rightarrow> history_frame list \<Rightarrow> bool" where
  "recent now limit frames \<longleftrightarrow> frame_bytes frames \<le> 33554432 \<and> (\<forall>x \<in> set frames. time_sub now (k_captured_at (hf_packet x)) \<le> limit)"

text \<open>The longest end of the frames that is recent.\<close>

definition longest_recent :: "int \<Rightarrow> int \<Rightarrow> history_frame list \<Rightarrow> history_frame list \<Rightarrow> bool" where
  "longest_recent now limit frames tail \<longleftrightarrow> (\<exists>n \<le> length frames. tail = drop n frames \<and> recent now limit tail
     \<and> (\<forall>k < n. \<not> recent now limit (drop k frames)))"

lemma frame_bytes_nonneg: "0 \<le> frame_bytes frames"
  by (induction frames) simp_all

lemma recent_shorter: "recent now limit (xs @ ys) \<Longrightarrow> recent now limit xs"
  using frame_bytes_nonneg [of ys] by (auto simp: recent_def)

lemma recent_earlier: "recent now' limit xs \<Longrightarrow> now \<le> now' \<Longrightarrow> recent now limit xs"
  by (fastforce simp: recent_def time_sub_def max_duration_def split: option.splits)

definition in_order :: "history_frame list \<Rightarrow> bool" where
  "in_order frames \<longleftrightarrow> (\<exists>us. map (\<lambda>x. k_captured_at (hf_packet x)) frames = map Some us \<and> sorted us)"

lemma in_order_append: "in_order (xs @ ys) \<Longrightarrow> in_order ys"
  unfolding in_order_def by (auto simp: append_eq_map_conv sorted_append)

lemma in_order_front:
  assumes "in_order frames" and "fresh_enough (Some now) limit frames" and "x \<in> set frames"
  shows "time_sub now (k_captured_at (hf_packet x)) \<le> limit"
proof -
  obtain y ys where y: "frames = y # ys" using assms(3) by (cases frames) auto
  obtain u us where u: "k_captured_at (hf_packet y) = Some u" "map (\<lambda>x. k_captured_at (hf_packet x)) ys = map Some us" "sorted (u # us)"
    using assms(1) unfolding in_order_def y by (auto simp: Cons_eq_map_conv)
  have "map (\<lambda>x. k_captured_at (hf_packet x)) frames = map Some (u # us)" using y u by simp
  then have "(\<lambda>x. k_captured_at (hf_packet x)) ` set frames = Some ` set (u # us)" by (metis set_map)
  then have "k_captured_at (hf_packet x) \<in> Some ` set (u # us)" using assms(3) by blast
  then obtain v where v: "k_captured_at (hf_packet x) = Some v" "u \<le> v" using u(3) by auto
  have "time_sub now (Some u) \<le> limit" using assms(2) u(1) by (simp add: fresh_enough_def older_def y)
  then show ?thesis using v by (auto simp: time_sub_def max_duration_def)
qed

text \<open>A trim of an end that was the longest recent one leaves the longest recent one.\<close>

lemma trim_longest:
  assumes order: "in_order frames" and n: "n \<le> length frames" "\<forall>k < n. \<not> recent now limit (drop k frames)"
    and t: "trim_frames (Some now) limit (frame_bytes (drop n frames)) (drop n frames) = (m, tail)"
  shows "m = frame_bytes tail \<and> longest_recent now limit frames tail"
proof -
  obtain gone where g: "drop n frames = gone @ tail" "m = frame_bytes tail" "m \<le> int history_limit" "fresh_enough (Some now) limit tail"
    "\<And>g x xs. gone = g @ x # xs \<Longrightarrow> int history_limit < frame_bytes (x # xs @ tail) \<or> older (Some now) limit (k_captured_at (hf_packet x))"
    using trim_frames_spec [OF t] by metis
  let ?n = "n + length gone"
  have split: "frames = (take n frames @ gone) @ tail" using g(1) append_take_drop_id [of n frames] by simp
  have "length frames = length (take n frames) + length gone + length tail" using arg_cong [OF split, of length] by simp
  then have len: "?n \<le> length frames" using n(1) by simp
  have tail: "tail = drop ?n frames" using arg_cong [OF g(1), of "drop (length gone)"] by (simp add: add.commute)
  have "in_order tail" using order in_order_append split by metis
  then have "recent now limit tail" using g(2,3) in_order_front [OF _ g(4)] by (simp add: recent_def history_limit_def)
  moreover have "\<not> recent now limit (drop k frames)" if k: "k < ?n" for k
  proof (cases "k < n")
    case True
    then show ?thesis using n(2) by simp
  next
    case False
    let ?j = "k - n"
    have j: "?j < length gone" using k False by simp
    have "drop k frames = drop ?j (drop n frames)" using False by simp
    also have "\<dots> = gone ! ?j # drop (Suc ?j) gone @ tail" using j unfolding g(1) by (simp add: Cons_nth_drop_Suc)
    finally have d: "drop k frames = gone ! ?j # drop (Suc ?j) gone @ tail" .
    from g(5) [OF id_take_nth_drop [OF j]] show ?thesis
      unfolding d by (auto simp: recent_def history_limit_def older_def not_le)
  qed
  ultimately show ?thesis using g(2) len tail by (auto simp: longest_recent_def)
qed

lemma longest_later:
  assumes old: "longest_recent now limit frames tail" and later: "frames \<noteq> [] \<longrightarrow> now \<le> now'" and order: "in_order (frames @ new)"
    and t: "trim_frames (Some now') limit (frame_bytes (tail @ new)) (tail @ new) = (m, tail')"
  shows "m = frame_bytes tail' \<and> longest_recent now' limit (frames @ new) tail'"
proof -
  obtain n where n: "n \<le> length frames" "tail = drop n frames" "\<forall>k < n. \<not> recent now limit (drop k frames)"
    using old by (auto simp: longest_recent_def)
  have "\<not> recent now' limit (drop k (frames @ new))" if "k < n" for k
  proof -
    have "frames \<noteq> []" using that n(1) by auto
    then show ?thesis using n(1,3) that later recent_earlier [of now' limit "drop k frames" now] recent_shorter by fastforce
  qed
  moreover have "tail @ new = drop n (frames @ new)" using n(1,2) by simp
  ultimately show ?thesis using trim_longest [OF order, of n now' limit m tail'] n(1) t by simp
qed

lemma offered_in_order:
  assumes "trim_times es = map Some ts" and "sorted ts"
  shows "\<exists>us. map (\<lambda>x. k_captured_at (hf_packet x)) (offered es) = map Some us \<and> sorted us \<and> set us \<subseteq> set ts"
  using assms
proof (induction es arbitrary: ts)
  case (Cons e es)
  show ?case
  proof (cases "trims e")
    case Nil
    then have "offers e = []" by (cases e) (auto split: option.splits if_splits)
    then show ?thesis using Cons Nil by (simp add: offered_def trim_times_def)
  next
    case (Cons u us)
    then have one: "trims e = [u]" by (cases e) (auto split: if_splits)
    then obtain t ts' where ts: "ts = t # ts'" "u = Some t" "trim_times es = map Some ts'"
      using Cons.prems(1) by (auto simp: trim_times_def Cons_eq_map_conv)
    obtain us where us: "map (\<lambda>x. k_captured_at (hf_packet x)) (offered es) = map Some us" "sorted us" "set us \<subseteq> set ts'"
      using Cons.IH [OF ts(3)] Cons.prems(2) ts(1) by auto
    have "offers e = [] \<or> map (\<lambda>x. k_captured_at (hf_packet x)) (offers e) = [Some t]"
      using one ts(2) by (cases e) (auto simp: kept_packet_def split: option.splits if_splits)
    then show ?thesis
    proof
      assume "offers e = []"
      then show ?thesis using us ts(1) by (intro exI [of _ us]) (auto simp: offered_def)
    next
      assume "map (\<lambda>x. k_captured_at (hf_packet x)) (offers e) = [Some t]"
      then show ?thesis using us ts(1) Cons.prems(2) by (intro exI [of _ "t # us"]) (auto simp: offered_def)
    qed
  qed
qed (simp add: offered_def trim_times_def)

lemma sorted_last: "sorted (ts @ [t]) \<Longrightarrow> u \<in> set ts \<Longrightarrow> u \<le> t"
  by (auto simp: sorted_append)

text \<open>What a history holds after any events, the trims at times that do not decrease.\<close>

lemma history_run:
  "trim_times es = map Some ts \<Longrightarrow> sorted ts \<Longrightarrow> fh_max_age (fold history_step es (history0 limit)) = limit
    \<and> fh_bytes (fold history_step es (history0 limit)) = frame_bytes (fh_frames (fold history_step es (history0 limit)))
    \<and> longest_recent (last ts) limit (offered es) (fh_frames (fold history_step es (history0 limit)))"
proof (induction es arbitrary: ts rule: rev_induct)
  case Nil
  then show ?case by (simp add: history0_def offered_def longest_recent_def recent_def)
next
  case (snoc e es)
  let ?h = "fold history_step es (history0 limit)"
  have times: "trim_times (es @ [e]) = trim_times es @ trims e" and off: "offered (es @ [e]) = offered es @ offers e"
    by (simp_all add: trim_times_def offered_def)
  show ?case
  proof (cases "trims e = []")
    case True
    then have "offers e = []" "history_step e ?h = ?h" by (cases e; auto simp: history_add_def split: option.splits if_splits)+
    moreover have "trim_times es = map Some ts" using snoc.prems(1) times True by simp
    from snoc.IH [OF this snoc.prems(2)] show ?thesis using off calculation by simp
  next
    case False
    obtain t where t: "trims e = [Some t]" "\<exists>ts'. ts = ts' @ [t]"
    proof -
      obtain u where u: "trims e = [u]" using False by (cases e) (auto split: if_splits)
      have "map Some ts = trim_times es @ [u]" using snoc.prems(1) times u by simp
      then show ?thesis using that u by (auto simp: map_eq_append_conv Cons_eq_map_conv map_eq_Cons_conv)
    qed
    then obtain ts' where ts: "ts = ts' @ [t]" by blast
    have old: "trim_times es = map Some ts'" "sorted ts'" using snoc.prems times t(1) ts by (simp_all add: sorted_append)
    note IH = snoc.IH [OF old]
    have order: "in_order (offered es @ offers e)"
      using offered_in_order [OF snoc.prems] unfolding off in_order_def by blast
    have later: "offered es \<noteq> [] \<longrightarrow> last ts' \<le> t"
    proof
      assume "offered es \<noteq> []"
      then have "ts' \<noteq> []" using offered_in_order [OF old] by auto
      then show "last ts' \<le> t" using sorted_last [of ts' t "last ts'"] snoc.prems(2) ts by simp
    qed
    obtain m tail where trim: "trim_frames (Some t) limit (frame_bytes (fh_frames ?h @ offers e)) (fh_frames ?h @ offers e) = (m, tail)" by fastforce
    have "history_step e ?h = ?h\<lparr>fh_frames := tail, fh_bytes := m\<rparr>"
    proof (cases e)
      case (Offer p f)
      then obtain i where i: "f = Some i" "length (k_frame p) \<noteq> 0" "k_captured_at p = Some t" using t(1) by (auto split: if_splits)
      then have x: "offers e = [\<lparr>hf_packet = kept_packet p, hf_flow = i\<rparr>]" using Offer by simp
      have n: "fh_bytes ?h + int (length (k_frame p)) = frame_bytes (fh_frames ?h @ offers e)" using IH x by (simp add: kept_packet_def)
      show ?thesis using trim IH i(2,3) unfolding Offer history_step.simps history_add_def i(1) option.case history_trim_def n
        by (simp add: x)
    next
      case (Elapse now)
      then show ?thesis using trim IH t(1) by (simp add: history_trim_def)
    qed
    moreover have "m = frame_bytes tail \<and> longest_recent t limit (offered es @ offers e) tail"
      by (rule longest_later [OF _ later order trim]) (use IH in simp)
    ultimately show ?thesis using IH off ts by simp
  qed
qed

text \<open>Frames of 0, 5 and 20 seconds, and a limit of ten.\<close>

definition demo_frame :: "int \<Rightarrow> packet" where
  "demo_frame t = packet0\<lparr>k_frame := [1, 2, 3], k_captured_at := Some (t * second)\<rparr>"

definition demo_events :: "history_event list" where
  "demo_events = [Offer (demo_frame 0) (Some 4), Offer (demo_frame 5) None, Offer (demo_frame 5) (Some 4), Offer (demo_frame 20) (Some 6), Elapse (24 * second)]"

lemma demo_events_run:
  "trim_times demo_events = map Some [0, 5 * second, 20 * second, 24 * second]"
  "offered demo_events = [\<lparr>hf_packet = kept_packet (demo_frame 0), hf_flow = 4\<rparr>, \<lparr>hf_packet = kept_packet (demo_frame 5), hf_flow = 4\<rparr>,
     \<lparr>hf_packet = kept_packet (demo_frame 20), hf_flow = 6\<rparr>]"
  "k_captured_at (kept_packet (demo_frame t)) = Some (t * second)" "length (k_frame (kept_packet (demo_frame t))) = 3"
  by (simp_all add: trim_times_def offered_def demo_events_def demo_frame_def kept_packet_def)

end
