(* ===== verification/Pcapng.thy ===== *)
theory Pcapng imports GoText Wire begin

text \<open>
  The recordings: \<^verbatim>\<open>internal/pcapng/writer.go\<close> and \<^verbatim>\<open>internal/pcapng/reader.go\<close>.

  The \<^verbatim>\<open>io.Writer\<close> is a parameter: a state and a function that takes the bytes, gives the new state, how many bytes
  it took and its error.  The \<^verbatim>\<open>io.Reader\<close> is the list of bytes that are left of the file, and the callback of \<^verbatim>\<open>Read\<close>
  a function on a state of the caller.  A time is in nanoseconds.

  The lemmas show that a recording is read back packet by packet, that no file panics the reader, and that the
  size limit is kept.
\<close>

section \<open>The writer\<close>

definition section_header :: u32 where
  "section_header = 0x0a0d0d0a"

definition interface_description :: u32 where
  "interface_description = 1"

definition enhanced_packet :: u32 where
  "enhanced_packet = 6"

definition ethernet_link_type :: u16 where
  "ethernet_link_type = 1"

definition max_snap_length :: nat where
  "max_snap_length = 65536"

definition err_limit :: err where
  "err_limit = Msg ''PCAPNG size limit reached''"

type_synonym 'o sink = "'o \<Rightarrow> bytes \<Rightarrow> 'o \<times> nat \<times> err option"

record 'o pcap_writer =
  pw_out :: 'o
  pw_max_bytes :: u64
  pw_bytes :: u64
  pw_packets :: u64
  pw_interfaces :: u32

definition append_padded :: "bytes \<Rightarrow> bytes \<Rightarrow> bytes" where
  "append_padded dst data = dst @ data @ replicate (nat ((- int (length data)) mod 4)) 0"

definition append_option :: "bytes \<Rightarrow> u16 \<Rightarrow> bytes \<Rightarrow> bytes" where
  "append_option dst kind v = append_padded (dst @ le16_bytes kind @ le16_bytes (of_nat (length v))) v"

definition pcap_block_bytes :: "u32 \<Rightarrow> bytes \<Rightarrow> bytes" where
  "pcap_block_bytes kind body = (let len = of_nat (length body + 12) in
     le32_bytes kind @ le32_bytes len @ body @ le32_bytes len)"

definition pcap_block :: "'o sink \<Rightarrow> u32 \<Rightarrow> bytes \<Rightarrow> 'o pcap_writer \<Rightarrow> 'o pcap_writer \<times> err option" where
  "pcap_block W kind body w = (if length body mod 4 \<noteq> 0 then (w, Some (Msg ''PCAPNG block body is not aligned''))
     else let len = of_nat (length body + 12) :: u32 in
       if 0 < pw_max_bytes w \<and> pw_max_bytes w < pw_bytes w + ucast len then (w, Some err_limit)
       else let block = pcap_block_bytes kind body in
         (case W (pw_out w) block of (out, n, er) \<Rightarrow> let w' = w\<lparr>pw_out := out, pw_bytes := pw_bytes w + of_nat n\<rparr> in
           (case er of Some e \<Rightarrow> (w', Some e)
            | None \<Rightarrow> if n \<noteq> length block then (w', Some (Msg ''short write'')) else (w', None))))"

definition section_body :: bytes where
  "section_body = le32_bytes 0x1a2b3c4d @ le16_bytes 1 @ le16_bytes 0 @ replicate 8 255"

definition interface_body :: "bytes \<Rightarrow> bytes" where
  "interface_body name = append_option (append_option (append_option
     (le16_bytes ethernet_link_type @ le16_bytes 0 @ le32_bytes (of_nat max_snap_length)) 2 name) 9 [6]) 0 []"

fun pcap_interfaces :: "'o sink \<Rightarrow> bytes list \<Rightarrow> 'o pcap_writer \<Rightarrow> 'o pcap_writer \<times> err option" where
  "pcap_interfaces W [] w = (w, None)"
| "pcap_interfaces W (name # names) w = (if 65535 < length name then (w, Some (Msg ''PCAPNG interface name is too long''))
     else case pcap_block W interface_description (interface_body name) w of
       (w', Some e) \<Rightarrow> (w', Some e) | (w', None) \<Rightarrow> pcap_interfaces W names w')"

text \<open>\<^verbatim>\<open>New\<close>: the writer is given with its error, because what was written stays written.\<close>

definition pcap_new :: "'o sink \<Rightarrow> 'o \<Rightarrow> bytes list \<Rightarrow> u64 \<Rightarrow> 'o pcap_writer \<times> err option" where
  "pcap_new W out names max_bytes = (let w = \<lparr>pw_out = out, pw_max_bytes = max_bytes, pw_bytes = 0, pw_packets = 0, pw_interfaces = 0\<rparr> in
     if length names = 0 then (w, Some (Msg ''PCAPNG needs at least one interface''))
     else if 4294967295 < length names then (w, Some (Msg ''too many PCAPNG interfaces''))
     else case pcap_block W section_header section_body w of
       (w1, Some e) \<Rightarrow> (w1, Some e)
     | (w1, None) \<Rightarrow> (case pcap_interfaces W names w1 of
         (w2, Some e) \<Rightarrow> (w2, Some e)
       | (w2, None) \<Rightarrow> (w2\<lparr>pw_interfaces := of_nat (length names)\<rparr>, None)))"

text \<open>\<^verbatim>\<open>UnixMicro\<close> of a time in nanoseconds, as the 64 bits that are written.\<close>

definition unix_micro :: "int \<Rightarrow> u64" where
  "unix_micro at = of_int (at div 1000)"

definition packet_body :: "u32 \<Rightarrow> bytes \<Rightarrow> int \<Rightarrow> int \<Rightarrow> bytes \<Rightarrow> bytes" where
  "packet_body interface_id frame wire_length at comment = (let
       stamp = unix_micro at;
       body = append_padded (le32_bytes interface_id @ le32_bytes (ucast (drop_bit 32 stamp)) @ le32_bytes (ucast stamp)
         @ le32_bytes (of_nat (length frame)) @ le32_bytes (of_int (max wire_length (int (length frame))))) frame in
     if comment \<noteq> [] then append_option (append_option body 1 comment) 0 [] else body)"

definition pcap_packet :: "'o sink \<Rightarrow> u32 \<Rightarrow> bytes \<Rightarrow> int \<Rightarrow> int \<Rightarrow> bytes \<Rightarrow> 'o pcap_writer \<Rightarrow> 'o pcap_writer \<times> err option" where
  "pcap_packet W interface_id frame wire_length at comment w =
     (if pw_interfaces w \<le> interface_id then (w, Some (MsgNum ''invalid PCAPNG interface '' (unat interface_id)))
      else if length frame = 0 \<or> max_snap_length < length frame then (w, Some (MsgNum ''invalid captured frame length '' (length frame)))
      else if 4294967295 < wire_length then (w, Some (MsgNum ''invalid wire length '' (nat wire_length)))
      else if 65535 < length comment then (w, Some (Msg ''PCAPNG comment is too long''))
      else case pcap_block W enhanced_packet (packet_body interface_id frame wire_length at comment) w of
        (w', Some e) \<Rightarrow> (w', Some e)
      | (w', None) \<Rightarrow> (w'\<lparr>pw_packets := pw_packets w' + 1\<rparr>, None))"

definition pcap_bytes :: "'o pcap_writer \<Rightarrow> u64" where
  "pcap_bytes w = pw_bytes w"

section \<open>The reader\<close>

record recorded_packet =
  d_interface :: bytes
  d_frame :: bytes
  d_wire_len :: u32
  d_at :: int
  d_comment :: bytes

definition padded_to_4 :: "nat \<Rightarrow> nat" where
  "padded_to_4 n = (n + 3) div 4 * 4"

function read_options :: "(u16 \<Rightarrow> bytes \<Rightarrow> 's \<Rightarrow> 's) \<Rightarrow> bytes \<Rightarrow> 's \<Rightarrow> 's go" where
  "read_options visit data s = (if length data = 0 then Ret s
     else if length data < 4 then Fail (Msg ''short PCAPNG option'')
     else gbind (gslice data 0 2) (\<lambda>k. gbind (le16 k) (\<lambda>kind. gbind (gslice data 2 4) (\<lambda>n. gbind (le16 n) (\<lambda>size16.
       let size = unat size16; rest = drop 4 data; padded = padded_to_4 size in
       if length rest < padded then Fail (Msg ''invalid PCAPNG option length'')
       else if kind = 0 then (if size \<noteq> 0 then Fail (Msg ''invalid PCAPNG option end'') else Ret s)
       else gbind (gslice rest 0 size) (\<lambda>v. read_options visit (drop padded rest) (visit kind v s)))))))"
  by pat_completeness auto
termination by (relation "measure (\<lambda>(visit, data, s). length data)") auto

declare read_options.simps [simp del]

text \<open>The option of an interface: its name and the resolution of its timestamps.\<close>

definition interface_option :: "u16 \<Rightarrow> bytes \<Rightarrow> bytes \<times> byte \<Rightarrow> bytes \<times> byte" where
  "interface_option kind v s = (case s of (name, resolution) \<Rightarrow>
     if kind = 2 then (v, resolution)
     else if kind = 9 then (name, if length v = 1 then hd v else resolution) else s)"

definition comment_option :: "u16 \<Rightarrow> bytes \<Rightarrow> bytes \<Rightarrow> bytes" where
  "comment_option kind v comment = (if kind = 1 then v else comment)"

definition read_interface :: "bytes \<Rightarrow> bytes go" where
  "read_interface body = gbind (any_c [Ret (length body < 8), gbind (gslice body 0 2) (\<lambda>x. gbind (le16 x) (\<lambda>v. Ret (v \<noteq> ethernet_link_type)))]) (\<lambda>bad.
     if bad then Fail (Msg ''unsupported PCAPNG interface'')
     else gbind (gfrom body 8) (\<lambda>options. gbind (read_options interface_option options ([], 6)) (\<lambda>(name, resolution).
       if name = [] \<or> resolution \<noteq> 6 then Fail (Msg ''PCAPNG interface needs a name and microsecond timestamps'') else Ret name)))"

definition read_packet :: "bytes list \<Rightarrow> bytes \<Rightarrow> recorded_packet go" where
  "read_packet names body = (if length body < 20 then Fail (Msg ''invalid PCAPNG packet block'')
     else gbind (gslice body 0 4) (\<lambda>x. gbind (le32 x) (\<lambda>ident. gbind (gslice body 12 16) (\<lambda>y. gbind (le32 y) (\<lambda>captured.
       gbind (gslice body 16 20) (\<lambda>z. gbind (le32 z) (\<lambda>wire.
       if length names \<le> unat ident \<or> captured = 0 \<or> max_snap_length < unat captured \<or> wire < captured
         \<or> length body < 20 + unat ((captured + 3) AND NOT 3) then Fail (Msg ''invalid PCAPNG packet length or interface'')
       else let option_start = 20 + unat ((captured + 3) AND NOT 3) in
         gbind (gfrom body option_start) (\<lambda>options. gbind (read_options comment_option options []) (\<lambda>comment.
         gbind (gslice body 4 8) (\<lambda>h. gbind (le32 h) (\<lambda>high. gbind (gslice body 8 12) (\<lambda>l. gbind (le32 l) (\<lambda>low.
         let stamp = (push_bit 32 (ucast high) OR ucast low) :: u64 in
         if 2 ^ 63 - 1 < stamp then Fail (Msg ''invalid PCAPNG timestamp'')
         else gbind (gidx names (unat ident)) (\<lambda>name. gbind (gslice body 20 (20 + unat captured)) (\<lambda>frame.
           Ret \<lparr>d_interface = name, d_frame = frame, d_wire_len = wire, d_at = 1000 * uint stamp, d_comment = comment\<rparr>)))))))))))))))"

text \<open>
  One block after its body was read: the names of the interfaces and whether the section was seen are the loop's
  variables.
\<close>

definition read_block :: "(recorded_packet \<Rightarrow> 's \<Rightarrow> 's \<times> err option) \<Rightarrow> u32 \<Rightarrow> bytes \<Rightarrow> bytes list \<Rightarrow> bool \<Rightarrow> 's
    \<Rightarrow> ('s \<times> (err + bytes list \<times> bool)) go" where
  "read_block visit kind body names seen s =
     (if \<not> seen \<and> kind \<noteq> section_header then Ret (s, Inl (Msg ''PCAPNG section header is missing''))
      else if kind = section_header then
        gbind (any_c [Ret seen, Ret (length body < 16), gbind (gslice body 0 4) (\<lambda>x. gbind (le32 x) (\<lambda>v. Ret (v \<noteq> 0x1a2b3c4d)))]) (\<lambda>bad.
        if bad then Ret (s, Inl (Msg ''unsupported PCAPNG section'')) else Ret (s, Inr (names, True)))
      else if kind = interface_description then
        gtry (read_interface body) (\<lambda>e. Ret (s, Inl e)) (\<lambda>name. Ret (s, Inr (names @ [name], seen)))
      else if kind = enhanced_packet then
        gtry (read_packet names body) (\<lambda>e. Ret (s, Inl e)) (\<lambda>p. case visit p s of
          (s', Some e) \<Rightarrow> Ret (s', Inl e) | (s', None) \<Rightarrow> Ret (s', Inr (names, seen)))
      else Ret (s, Inr (names, seen)))"

text \<open>\<^verbatim>\<open>Read\<close>: \<open>io.EOF\<close> at a block's start ends the file; a short read anywhere else is \<^verbatim>\<open>io.ErrUnexpectedEOF\<close>.\<close>

definition err_unexpected_eof :: err where
  "err_unexpected_eof = Msg ''unexpected EOF''"

function pcap_read :: "(recorded_packet \<Rightarrow> 's \<Rightarrow> 's \<times> err option) \<Rightarrow> bytes \<Rightarrow> bytes list \<Rightarrow> bool \<Rightarrow> 's \<Rightarrow> ('s \<times> err option) go" where
  "pcap_read visit r names seen s = (if length r = 0 then Ret (s, if \<not> seen then Some (Msg ''empty PCAPNG file'') else None)
     else if length r < 8 then Ret (s, Some (Wrapped ''read PCAPNG block header: '' err_unexpected_eof))
     else gbind (gslice r 0 4) (\<lambda>x. gbind (le32 x) (\<lambda>kind. gbind (gslice r 4 8) (\<lambda>y. gbind (le32 y) (\<lambda>size.
       if size < 12 \<or> unat size mod 4 \<noteq> 0 \<or> 2 ^ 20 < size then Ret (s, Some (MsgNum ''invalid PCAPNG block length '' (unat size)))
       else let rest = drop 8 r; n = unat size - 8 in
         if length rest < n then Ret (s, Some (Wrapped ''read PCAPNG block: '' (if length rest = 0 then Msg ''EOF'' else err_unexpected_eof)))
         else let body = take n rest in
           gbind (gfrom body (length body - 4)) (\<lambda>t. gbind (le32 t) (\<lambda>trailer.
           if trailer \<noteq> size then Ret (s, Some (Msg ''PCAPNG block length mismatch''))
           else gbind (gslice body 0 (length body - 4)) (\<lambda>body'. gbind (read_block visit kind body' names seen s) (\<lambda>(s', next).
             case next of Inl e \<Rightarrow> Ret (s', Some e)
             | Inr (names', seen') \<Rightarrow> pcap_read visit (drop n rest) names' seen' s')))))))))"
  by pat_completeness auto
termination by (relation "measure (\<lambda>(visit, r, names, seen, s). length r)") auto

declare pcap_read.simps [simp del]

section \<open>No file panics the reader\<close>

lemma padded_to_4_ge: "n \<le> padded_to_4 n"
  using div_mult_mod_eq [of "n + 3" 4] mod_less_divisor [of 4 "n + 3"] unfolding padded_to_4_def by linarith

lemma unat_and_not_mask: "n < LENGTH('a) \<Longrightarrow> unat (x AND NOT (mask n)) = unat (x :: 'a :: len word) div 2 ^ n * 2 ^ n"
proof -
  assume n: "n < LENGTH('a)"
  have "x AND NOT (mask n) = push_bit n (drop_bit n x)"
    by (rule bit_word_eqI) (auto simp: bit_simps)
  moreover have "unat (push_bit n (drop_bit n x)) = take_bit LENGTH('a) (push_bit n (drop_bit n (unat x)))"
    by (simp only: unsigned_push_bit_eq unsigned_drop_bit_eq) (use n in \<open>simp add: take_bit_push_bit take_bit_drop_bit\<close>)
  moreover have "take_bit LENGTH('a) (push_bit n (drop_bit n (unat x))) = push_bit n (drop_bit n (unat x))"
  proof (rule take_bit_nat_eq_self)
    have "push_bit n (drop_bit n (unat x)) \<le> unat x" by (simp add: push_bit_eq_mult drop_bit_eq_div)
    then show "push_bit n (drop_bit n (unat x)) < 2 ^ LENGTH('a)" using unsigned_less [of x, where ?'a = nat] by (rule le_less_trans)
  qed
  ultimately show ?thesis by (simp add: push_bit_eq_mult drop_bit_eq_div)
qed

lemma unat_and_not_3:
  assumes "unat (x :: u32) \<le> 65536"
  shows "unat ((x + 3) AND NOT 3) = padded_to_4 (unat x)"
proof -
  have "unat (x + 3) = unat x + 3" using assms by (subst unat_add_lem [THEN iffD1]) simp_all
  moreover have "(3 :: u32) = mask 2" by (simp add: mask_eq_exp_minus_1)
  ultimately show ?thesis using unat_and_not_mask [of 2 "x + 3"] by (simp add: padded_to_4_def)
qed

lemma read_options_gwp: "gwp (read_options visit data s) (\<lambda>_. True)"
proof (induction "length data" arbitrary: data s rule: less_induct)
  case less
  have pad: "unat v \<le> padded_to_4 (unat v)" for v :: u16 by (rule padded_to_4_ge)
  show ?case
    by (subst read_options.simps) (auto simp: wp_simps Let_def not_less intro: less order_trans [OF pad])
qed

lemma read_interface_gwp: "gwp (read_interface body) (\<lambda>_. True)"
  by (auto simp: read_interface_def wp_simps intro!: gwp_mono [OF read_options_gwp])

lemma read_packet_gwp: "gwp (read_packet names body) (\<lambda>p. d_interface p \<in> set names)"
proof -
  have c: "20 + unat c \<le> length body" if "unat c \<le> 65536" "\<not> length body < 20 + unat ((c + 3) AND NOT 3)" for c :: u32
    using that unat_and_not_3 [of c] padded_to_4_ge [of "unat c"] by simp
  show ?thesis
    by (auto simp: read_packet_def wp_simps max_snap_length_def Let_def not_less intro!: gwp_mono [OF read_options_gwp] dest: c)
qed

lemma returns_little [ret_simps]:
  "returns (le16 b) P \<longleftrightarrow> 2 \<le> length b \<and> P (of_nat (be_val (rev (take 2 b))))"
  "returns (le32 b) Q \<longleftrightarrow> 4 \<le> length b \<and> Q (of_nat (be_val (rev (take 4 b))))"
  by (auto simp: le16_def le32_def ret_simps)

lemma read_block_returns: "returns (read_block visit kind body names seen s) (\<lambda>_. True)"
proof -
  have i: "returns (gtry (read_interface body) (\<lambda>e. Ret (s, Inl e)) (\<lambda>name. Ret (s, Inr (names @ [name], seen)))) (\<lambda>_. True)"
    by (rule returns_try [OF read_interface_gwp]) simp_all
  have p: "returns (gtry (read_packet names body) (\<lambda>e. Ret (s, Inl e)) (\<lambda>p. case visit p s of
          (s', Some e) \<Rightarrow> Ret (s', Inl e) | (s', None) \<Rightarrow> Ret (s', Inr (names, seen)))) (\<lambda>_. True)"
    by (rule returns_try [OF read_packet_gwp]) (auto split: prod.splits option.splits)
  show ?thesis unfolding read_block_def using i p by (auto simp: ret_simps simp del: any_c.simps)
qed

lemma pcap_read_returns: "returns (pcap_read visit r names seen s) (\<lambda>_. True)"
proof (induction "length r" arbitrary: r names seen s rule: less_induct)
  case less
  have n: "12 \<le> unat size" if "12 \<le> size" for size :: u32
    using that by (simp add: word_le_nat_alt)
  show ?case
    by (subst pcap_read.simps)
      (auto simp: ret_simps Let_def not_less dest!: n split: prod.splits sum.splits
        intro!: returns_mono [OF read_block_returns] less)
qed

section \<open>A recording is read back\<close>

lemma append_option_Nil: "append_option dst kind v = dst @ append_option [] kind v"
  by (simp add: append_option_def append_padded_def)

lemma padding_length: "int (n + nat ((- int n) mod 4)) = int (padded_to_4 n)"
proof -
  have "int (nat ((- int n) mod 4)) = (- int n) mod 4" by simp
  moreover have "int n + (- int n) mod 4 = (int n + 3) div 4 * 4" by presburger
  ultimately show ?thesis by (simp add: padded_to_4_def)
qed

lemma padded_length: "length (append_padded dst data) = length dst + padded_to_4 (length data)"
  using padding_length [of "length data"] by (simp add: append_padded_def)

lemma option_length: "length (append_option [] kind v) = 4 + padded_to_4 (length v)"
  by (simp add: append_option_def padded_length)

lemma option_parts:
  assumes "length v < 65536"
  shows "gslice (append_option [] kind v @ rest) 0 2 = Ret (le16_bytes kind)"
    and "gslice (append_option [] kind v @ rest) 2 4 = Ret (le16_bytes (of_nat (length v)))"
    and "drop 4 (append_option [] kind v @ rest) = append_padded [] v @ rest"
  by (simp_all add: append_option_def append_padded_def gslice_def)

lemma read_options_written:
  assumes "length v < 65536" and "kind \<noteq> 0"
  shows "read_options visit (append_option [] kind v @ rest) s = read_options visit rest (visit kind v s)"
proof -
  let ?d = "append_option [] kind v @ rest"
  have l: "length ?d = 4 + padded_to_4 (length v) + length rest" by (simp add: option_length)
  have v: "gslice (append_padded [] v @ rest) 0 (length v) = Ret v" by (simp add: append_padded_def gslice_def)
  have d: "drop (padded_to_4 (length v)) (append_padded [] v @ rest) = rest"
    using padded_length [of "[]" v] by simp
  have p: "length (append_padded [] v @ rest) = padded_to_4 (length v) + length rest" by (simp add: padded_length)
  show ?thesis
    unfolding read_options.simps [of visit ?d s] l option_parts [OF assms(1)] le16_bytes gbind.simps Let_def
      unat_small16 [OF assms(1)] p v d
    using assms(2) by simp
qed

lemma read_options_end: "read_options visit (append_option [] 0 [] @ rest) s = Ret s"
proof -
  have l: "length (append_option [] 0 [] @ rest) = 4 + length rest" by (simp add: option_length padded_to_4_def)
  show ?thesis
    unfolding read_options.simps [of visit "append_option [] 0 [] @ rest" s] l option_parts [of "[]", simplified] le16_bytes gbind.simps Let_def
    by (simp add: padded_to_4_def)
qed

lemma read_options_Nil: "read_options visit [] s = Ret s"
  by (subst read_options.simps) simp

lemma read_interface_written:
  assumes "length name < 65536" and "name \<noteq> []"
  shows "read_interface (interface_body name) = Ret name"
proof -
  let ?h = "le16_bytes ethernet_link_type @ le16_bytes 0 @ le32_bytes (of_nat max_snap_length)"
  have b: "interface_body name = ?h @ append_option [] 2 name @ append_option [] 9 [6] @ append_option [] 0 [] @ []"
    unfolding interface_body_def by (simp add: append_option_Nil [of "_ @ _"] append_option_Nil [of "append_option _ _ _"])
  have o: "read_options interface_option (append_option [] 2 name @ append_option [] 9 [6] @ append_option [] 0 [] @ []) ([], 6) = Ret (name, 6)"
    using assms(1) read_options_written [of name 2 interface_option "append_option [] 9 [6] @ append_option [] 0 [] @ []" "([], 6)"]
      read_options_written [of "[6]" 9 interface_option "append_option [] 0 [] @ []" "(name, 6)"] read_options_end [of interface_option "[]" "(name, 6)"]
    by (simp add: interface_option_def)
  show ?thesis
    unfolding read_interface_def b using assms(2) o
    by (simp add: gslice_def gfrom_def)
qed

lemma interface_body_length: "length (interface_body name) = 24 + padded_to_4 (length name)"
  by (simp add: interface_body_def append_option_def padded_length padded_to_4_def)

lemma stamp_halves:
  "(push_bit 32 (ucast (ucast (drop_bit 32 stamp) :: u32)) OR ucast (ucast stamp :: u32) :: u64) = stamp"
  by (rule bit_word_eqI) (auto simp: bit_simps)

text \<open>What \<^verbatim>\<open>Packet\<close> accepts of a frame.\<close>

definition frame_ok :: "nat \<Rightarrow> u32 \<Rightarrow> bytes \<Rightarrow> int \<Rightarrow> int \<Rightarrow> bytes \<Rightarrow> bool" where
  "frame_ok interfaces ident frame wire at comment \<longleftrightarrow> unat ident < interfaces \<and> 0 < length frame \<and> length frame \<le> 65536
     \<and> wire < 2 ^ 32 \<and> length comment < 65536 \<and> 0 \<le> at div 1000 \<and> at div 1000 < 2 ^ 63"

lemma unat_of_int_small:
  assumes "0 \<le> z" and "z < 2 ^ 32"
  shows "unat (of_int z :: u32) = nat z"
proof -
  have e: "(of_int z :: u32) = of_nat (nat z)" using assms(1) by simp
  have "nat z < 2 ^ 32" using assms(2) by simp
  then have "unat (of_nat (nat z) :: u32) = nat z" by (subst unat_of_nat) simp
  then show ?thesis unfolding e .
qed

lemma read_packet_written:
  assumes "frame_ok (length names) ident frame wire at comment"
  shows "read_packet names (packet_body ident frame wire at comment)
    = Ret \<lparr>d_interface = names ! unat ident, d_frame = frame, d_wire_len = of_int (max wire (int (length frame))),
        d_at = at div 1000 * 1000, d_comment = comment\<rparr>"
proof -
  let ?stamp = "unix_micro at" and ?n = "length frame" and ?w = "of_int (max wire (int (length frame))) :: u32"
  let ?h = "le32_bytes ident @ le32_bytes (ucast (drop_bit 32 ?stamp)) @ le32_bytes (ucast ?stamp) @ le32_bytes (of_nat ?n) @ le32_bytes ?w"
  let ?o = "if comment \<noteq> [] then append_option [] 1 comment @ append_option [] 0 [] else []"
  note ok = assms [unfolded frame_ok_def]
  have b: "packet_body ident frame wire at comment = ?h @ append_padded [] frame @ ?o"
    by (simp add: packet_body_def Let_def append_option_def append_padded_def)
  have n: "unat (of_nat ?n :: u32) = ?n" using ok by (simp add: unat_of_nat)
  have w: "unat ?w = nat (max wire (int ?n))"
    using ok by (intro unat_of_int_small) auto
  have s: "uint ?stamp = at div 1000" using ok by (simp add: unix_micro_def unsigned_of_int take_bit_int_eq_self)
  have o: "read_options comment_option ?o [] = Ret comment"
    using ok read_options_end [of comment_option "[]"]
    by (auto simp: read_options_written read_options_Nil comment_option_def)
  let ?b = "?h @ append_padded [] frame @ ?o"
  have f: "gslice ?b 0 4 = Ret (le32_bytes ident)" "gslice ?b 12 16 = Ret (le32_bytes (of_nat ?n))" "gslice ?b 16 20 = Ret (le32_bytes ?w)"
    "gslice ?b 4 8 = Ret (le32_bytes (ucast (drop_bit 32 ?stamp)))" "gslice ?b 8 12 = Ret (le32_bytes (ucast ?stamp))"
    by (simp_all add: gslice_def del: ucast_drop_bit_eq)
  have fr: "gslice ?b 20 (20 + ?n) = Ret frame" by (simp add: gslice_def append_padded_def)
  have l: "length ?b = 20 + (padded_to_4 ?n + length ?o)" by (simp add: padded_length)
  have p: "unat ((of_nat ?n + 3 :: u32) AND NOT 3) = padded_to_4 ?n" using unat_and_not_3 [of "of_nat ?n"] ok n by simp
  have g: "gfrom ?b (20 + padded_to_4 ?n) = Ret ?o" unfolding gfrom_def l by (simp add: padded_length)
  have c: "(length names \<le> unat ident \<or> (of_nat ?n :: u32) = 0 \<or> max_snap_length < ?n \<or> ?w < of_nat ?n
      \<or> length ?b < 20 + padded_to_4 ?n) = False"
  proof -
    have "(of_nat ?n :: u32) \<noteq> 0"
    proof
      assume "(of_nat ?n :: u32) = 0"
      then have "unat (of_nat ?n :: u32) = 0" by (simp only: unat_0)
      then show False using n ok by simp
    qed
    moreover have "\<not> ?w < of_nat ?n" unfolding word_less_nat_alt n w by simp
    moreover have "\<not> length ?b < 20 + padded_to_4 ?n" unfolding l by simp
    ultimately show ?thesis using ok by (simp add: max_snap_length_def)
  qed
  have t: "\<not> 2 ^ 63 - 1 < ?stamp" using ok s by (simp add: word_less_def)
  have i: "gidx names (unat ident) = Ret (names ! unat ident)" using ok by simp
  show ?thesis
    unfolding read_packet_def b f le32_bytes gbind.simps Let_def n p c if_False g o stamp_halves if_not_P [OF t] i fr s
    using l by (simp add: mult.commute)
qed

text \<open>A block that was written, and what follows it.\<close>

definition block_fits :: "bytes \<Rightarrow> bool" where
  "block_fits body \<longleftrightarrow> length body mod 4 = 0 \<and> length body + 12 \<le> 2 ^ 20"

lemma block_size: "block_fits body \<Longrightarrow> unat (of_nat (length body + 12) :: u32) = length body + 12"
  by (simp add: block_fits_def unat_of_nat del: of_nat_add)

lemma block_length: "length (pcap_block_bytes kind body) = length body + 12"
  by (simp add: pcap_block_bytes_def Let_def)

lemma pcap_read_block:
  assumes "block_fits body"
  shows "pcap_read visit (pcap_block_bytes kind body @ rest) names seen s = gbind (read_block visit kind body names seen s) (\<lambda>(s', next).
    case next of Inl e \<Rightarrow> Ret (s', Some e) | Inr (names', seen') \<Rightarrow> pcap_read visit rest names' seen' s')"
proof -
  let ?size = "of_nat (length body + 12) :: u32"
  let ?r = "le32_bytes kind @ le32_bytes ?size @ body @ le32_bytes ?size @ rest"
  note u = block_size [OF assms]
  have n: "unat ?size - 8 = length body + 4" unfolding u by simp
  have ok: "(?size < 12 \<or> unat ?size mod 4 \<noteq> 0 \<or> 2 ^ 20 < ?size) = False"
    using assms unfolding word_less_nat_alt u block_fits_def by (simp add: mod_add_eq [symmetric])
  have f: "gslice ?r 0 4 = Ret (le32_bytes kind)" "gslice ?r 4 8 = Ret (le32_bytes ?size)" "drop 8 ?r = body @ le32_bytes ?size @ rest"
    by (simp_all add: gslice_def del: of_nat_add)
  have t: "take (length body + 4) (body @ le32_bytes ?size @ rest) = body @ le32_bytes ?size"
    "drop (length body + 4) (body @ le32_bytes ?size @ rest) = rest"
    by (simp_all del: of_nat_add)
  have l: "(length ?r = 0) = False" "(length ?r < 8) = False" "(length (body @ le32_bytes ?size @ rest) < length body + 4) = False"
    "length (body @ le32_bytes ?size) - 4 = length body" by (simp_all del: of_nat_add)
  have g: "gfrom (body @ le32_bytes ?size) (length body) = Ret (le32_bytes ?size)" "gslice (body @ le32_bytes ?size) 0 (length body) = Ret body"
    by (simp_all add: gfrom_def gslice_def del: of_nat_add)
  have r: "pcap_block_bytes kind body @ rest = ?r" by (simp add: pcap_block_bytes_def Let_def del: of_nat_add)
  have ne: "(?size \<noteq> ?size) = False" by simp
  show ?thesis
    unfolding r pcap_read.simps [of visit ?r] f l(1,2) le32_bytes gbind.simps Let_def ok if_False n l(3) t l(4) g ne ..
qed

lemma padded_mod [simp]: "padded_to_4 n mod 4 = 0" "4 dvd padded_to_4 n"
  by (simp_all add: padded_to_4_def)

lemma padded_le: "n \<le> m * 4 \<Longrightarrow> padded_to_4 n \<le> m * 4"
  unfolding padded_to_4_def by presburger

lemma interface_fits: "length name < 65536 \<Longrightarrow> block_fits (interface_body name)"
  using padded_le [of "length name" 16384] by (simp add: block_fits_def interface_body_length mod_add_eq [symmetric])

lemma packet_body_length:
  "length (packet_body ident frame wire at comment) = 20 + padded_to_4 (length frame)
    + (if comment \<noteq> [] then 8 + padded_to_4 (length comment) else 0)"
  by (simp add: packet_body_def Let_def append_option_def padded_length padded_to_4_def)

lemma packet_fits: "frame_ok n ident frame wire at comment \<Longrightarrow> block_fits (packet_body ident frame wire at comment)"
  using padded_le [of "length frame" 16384] padded_le [of "length comment" 16384]
  by (auto simp: block_fits_def packet_body_length frame_ok_def mod_add_eq [symmetric] simp flip: mod_add_left_eq mod_add_right_eq)

lemma section_fits: "block_fits section_body"
  by (simp add: block_fits_def section_body_def)

text \<open>The output is a buffer, the callback collects the packets.\<close>

definition buffer_sink :: "bytes sink" where
  "buffer_sink out b = (out @ b, length b, None)"

definition collect_packet :: "recorded_packet \<Rightarrow> recorded_packet list \<Rightarrow> recorded_packet list \<times> err option" where
  "collect_packet p s = (s @ [p], None)"

type_synonym frame_in = "u32 \<times> bytes \<times> int \<times> int \<times> bytes"

fun pcap_packets :: "'o sink \<Rightarrow> frame_in list \<Rightarrow> 'o pcap_writer \<Rightarrow> 'o pcap_writer \<times> err option" where
  "pcap_packets W [] w = (w, None)"
| "pcap_packets W ((ident, frame, wire, at, comment) # ps) w = (case pcap_packet W ident frame wire at comment w of
     (w', Some e) \<Rightarrow> (w', Some e) | (w', None) \<Rightarrow> pcap_packets W ps w')"

definition interfaces_bytes :: "bytes list \<Rightarrow> bytes" where
  "interfaces_bytes names = concat (map (\<lambda>name. pcap_block_bytes interface_description (interface_body name)) names)"

definition packets_bytes :: "frame_in list \<Rightarrow> bytes" where
  "packets_bytes ps = concat (map (\<lambda>(ident, frame, wire, at, comment). pcap_block_bytes enhanced_packet (packet_body ident frame wire at comment)) ps)"

definition frames_ok :: "nat \<Rightarrow> frame_in list \<Rightarrow> bool" where
  "frames_ok n ps \<longleftrightarrow> list_all (\<lambda>(ident, frame, wire, at, comment). frame_ok n ident frame wire at comment) ps"

definition recorded :: "bytes list \<Rightarrow> frame_in \<Rightarrow> recorded_packet" where
  "recorded names p = (case p of (ident, frame, wire, at, comment) \<Rightarrow>
     \<lparr>d_interface = names ! unat ident, d_frame = frame, d_wire_len = of_int (max wire (int (length frame))),
      d_at = at div 1000 * 1000, d_comment = comment\<rparr>)"

lemma pcap_block_written:
  assumes "block_fits body" and "pw_max_bytes w = 0"
  shows "\<exists>n. pcap_block buffer_sink kind body w = (w\<lparr>pw_out := pw_out w @ pcap_block_bytes kind body, pw_bytes := n\<rparr>, None)"
  using assms by (auto simp: pcap_block_def block_fits_def buffer_sink_def Let_def)

lemma pcap_interfaces_written:
  assumes "list_all (\<lambda>name. length name < 65536) names" and "pw_max_bytes w = 0"
  shows "\<exists>n. pcap_interfaces buffer_sink names w = (w\<lparr>pw_out := pw_out w @ interfaces_bytes names, pw_bytes := n\<rparr>, None)"
  using assms
proof (induction names arbitrary: w)
  case Nil
  then show ?case by (intro exI [of _ "pw_bytes w"]) (simp add: interfaces_bytes_def)
next
  case (Cons name names)
  obtain n where n: "pcap_block buffer_sink interface_description (interface_body name) w
      = (w\<lparr>pw_out := pw_out w @ pcap_block_bytes interface_description (interface_body name), pw_bytes := n\<rparr>, None)"
    using pcap_block_written [OF interface_fits [of name], of w interface_description] Cons.prems by auto
  show ?case
    using Cons.IH [of "w\<lparr>pw_out := pw_out w @ pcap_block_bytes interface_description (interface_body name), pw_bytes := n\<rparr>"] Cons.prems
    by (auto simp: n interfaces_bytes_def)
qed

lemma pcap_packets_written:
  assumes "frames_ok (unat (pw_interfaces w)) ps" and "pw_max_bytes w = 0"
  shows "\<exists>n m. pcap_packets buffer_sink ps w = (w\<lparr>pw_out := pw_out w @ packets_bytes ps, pw_bytes := n, pw_packets := m\<rparr>, None)"
  using assms
proof (induction ps arbitrary: w)
  case Nil
  then show ?case by (intro exI [of _ "pw_bytes w"] exI [of _ "pw_packets w"]) (simp add: packets_bytes_def)
next
  case (Cons p ps)
  obtain ident frame wire at comment where p: "p = (ident, frame, wire, at, comment)" by (cases p)
  have ok: "frame_ok (unat (pw_interfaces w)) ident frame wire at comment" using Cons.prems(1) by (simp add: frames_ok_def p)
  let ?b = "pcap_block_bytes enhanced_packet (packet_body ident frame wire at comment)"
  obtain n where n: "pcap_block buffer_sink enhanced_packet (packet_body ident frame wire at comment) w
      = (w\<lparr>pw_out := pw_out w @ ?b, pw_bytes := n\<rparr>, None)"
    using pcap_block_written [OF packet_fits [OF ok] Cons.prems(2), of enhanced_packet] by auto
  have "pcap_packet buffer_sink ident frame wire at comment w = (w\<lparr>pw_out := pw_out w @ ?b, pw_bytes := n, pw_packets := pw_packets w + 1\<rparr>, None)"
    using ok n by (simp add: pcap_packet_def frame_ok_def word_le_nat_alt max_snap_length_def)
  then show ?case
    using Cons.IH [of "w\<lparr>pw_out := pw_out w @ ?b, pw_bytes := n, pw_packets := pw_packets w + 1\<rparr>"] Cons.prems
    by (auto simp: p packets_bytes_def frames_ok_def)
qed

lemma pcap_read_interfaces:
  assumes "list_all (\<lambda>name. length name < 65536 \<and> name \<noteq> []) names"
  shows "pcap_read visit (interfaces_bytes names @ rest) known True s = pcap_read visit rest (known @ names) True s"
  using assms
proof (induction names arbitrary: known)
  case (Cons name names)
  have d: "interface_description \<noteq> section_header" by (simp add: interface_description_def section_header_def)
  have "pcap_read visit (pcap_block_bytes interface_description (interface_body name) @ interfaces_bytes names @ rest) known True s
      = pcap_read visit (interfaces_bytes names @ rest) (known @ [name]) True s"
    using Cons.prems by (subst pcap_read_block) (simp_all add: interface_fits read_block_def d read_interface_written)
  then show ?case using Cons by (simp add: interfaces_bytes_def)
qed (simp add: interfaces_bytes_def)

lemma pcap_read_packets:
  assumes "frames_ok (length names) ps"
  shows "pcap_read collect_packet (packets_bytes ps) names True s = Ret (s @ map (recorded names) ps, None)"
  using assms
proof (induction ps arbitrary: s)
  case Nil
  then show ?case by (subst pcap_read.simps) (simp add: packets_bytes_def)
next
  case (Cons p ps)
  obtain ident frame wire at comment where p: "p = (ident, frame, wire, at, comment)" by (cases p)
  have ok: "frame_ok (length names) ident frame wire at comment" using Cons.prems(1) by (simp add: frames_ok_def p)
  have d: "enhanced_packet \<noteq> section_header" "enhanced_packet \<noteq> interface_description"
    by (simp_all add: interface_description_def section_header_def enhanced_packet_def)
  have "pcap_read collect_packet (pcap_block_bytes enhanced_packet (packet_body ident frame wire at comment) @ packets_bytes ps) names True s
      = pcap_read collect_packet (packets_bytes ps) names True (s @ [recorded names p])"
    by (subst pcap_read_block [OF packet_fits [OF ok]])
      (simp add: read_block_def d read_packet_written [OF ok] collect_packet_def recorded_def p)
  then show ?case using Cons by (simp add: packets_bytes_def p frames_ok_def)
qed

lemma read_section: "read_block visit section_header section_body names False s = Ret (s, Inr (names, True))"
  by (simp add: read_block_def section_body_def gslice_def)

lemma recording_read_back:
  assumes "names \<noteq> []" and "length names < 2 ^ 32" and "list_all (\<lambda>name. length name < 65536 \<and> name \<noteq> []) names"
    and "frames_ok (length names) ps"
  shows "\<exists>w0 w. pcap_new buffer_sink [] names 0 = (w0, None) \<and> pcap_packets buffer_sink ps w0 = (w, None)
    \<and> pcap_read collect_packet (pw_out w) [] False [] = Ret (map (recorded names) ps, None)"
proof -
  let ?w = "\<lparr>pw_out = [], pw_max_bytes = 0, pw_bytes = 0, pw_packets = 0, pw_interfaces = 0\<rparr> :: bytes pcap_writer"
  let ?section = "pcap_block_bytes section_header section_body"
  obtain n1 where n1: "pcap_block buffer_sink section_header section_body ?w = (?w\<lparr>pw_out := ?section, pw_bytes := n1\<rparr>, None)"
    using pcap_block_written [OF section_fits, of ?w section_header] by auto
  have "list_all (\<lambda>name. length name < 65536) names" using assms(3) by (simp add: list_all_iff)
  then obtain n2 where n2: "pcap_interfaces buffer_sink names (?w\<lparr>pw_out := ?section, pw_bytes := n1\<rparr>)
      = (?w\<lparr>pw_out := ?section @ interfaces_bytes names, pw_bytes := n2\<rparr>, None)"
    using pcap_interfaces_written [of names "?w\<lparr>pw_out := ?section, pw_bytes := n1\<rparr>"] by auto
  let ?w0 = "?w\<lparr>pw_out := ?section @ interfaces_bytes names, pw_bytes := n2, pw_interfaces := of_nat (length names)\<rparr>"
  have new: "pcap_new buffer_sink [] names 0 = (?w0, None)"
    using assms(1,2) n1 n2 by (simp add: pcap_new_def Let_def)
  have i: "unat (pw_interfaces ?w0) = length names" using assms(2) by (simp add: unat_of_nat)
  obtain n m where ps: "pcap_packets buffer_sink ps ?w0 = (?w0\<lparr>pw_out := pw_out ?w0 @ packets_bytes ps, pw_bytes := n, pw_packets := m\<rparr>, None)"
    using pcap_packets_written [of ?w0 ps] assms(4) i by auto
  have "pcap_read collect_packet (?section @ interfaces_bytes names @ packets_bytes ps) [] False [] = Ret (map (recorded names) ps, None)"
    unfolding pcap_read_block [OF section_fits] read_section
    using pcap_read_interfaces [OF assms(3), of collect_packet "packets_bytes ps" "[]" "[]"] pcap_read_packets [OF assms(4), of "[]"] by simp
  then show ?thesis using new ps by simp
qed

section \<open>The size limit\<close>

definition limited :: "bytes pcap_writer \<Rightarrow> bool" where
  "limited w \<longleftrightarrow> 0 < pw_max_bytes w \<and> unat (pw_max_bytes w) < 2 ^ 63 \<and> unat (pw_bytes w) = length (pw_out w)
     \<and> length (pw_out w) \<le> unat (pw_max_bytes w)"

lemma pcap_block_limited:
  assumes "limited w" and "length body + 12 \<le> 2 ^ 20"
  shows "limited (fst (pcap_block buffer_sink kind body w)) \<and> pw_max_bytes (fst (pcap_block buffer_sink kind body w)) = pw_max_bytes w"
proof -
  let ?n = "length body + 12"
  have small: "unat (pw_bytes w) < 2 ^ 63" using assms(1) by (simp add: limited_def)
  have u32: "unat (of_nat ?n :: u32) = ?n" using assms(2) by (simp add: unat_of_nat del: of_nat_add)
  have u64: "unat (of_nat ?n :: u64) = ?n" using assms(2) by (simp add: unat_of_nat del: of_nat_add)
  have "ucast (of_nat ?n :: u32) = (of_nat ?n :: u64)"
    by (rule word_unat_eq_iff [THEN iffD2])
      (use u32 u64 assms(2) in \<open>simp add: unsigned_ucast_eq take_bit_nat_eq_self del: of_nat_add\<close>)
  moreover have sum: "unat (pw_bytes w + of_nat ?n) = unat (pw_bytes w) + ?n"
    using small assms(2) u64 by (subst unat_add_lem [THEN iffD1]) (simp_all del: of_nat_add)
  ultimately show ?thesis
    using assms(1) sum
    by (auto simp: pcap_block_def buffer_sink_def block_length limited_def Let_def word_less_nat_alt not_less simp del: of_nat_add)
qed

lemma packet_body_small:
  "length frame \<le> 65536 \<Longrightarrow> length comment < 65536 \<Longrightarrow> length (packet_body ident frame wire at comment) + 12 \<le> 2 ^ 20"
  using padded_le [of "length frame" 16384] padded_le [of "length comment" 16384]
  by (simp add: packet_body_length)

lemma pcap_packet_limited:
  assumes "limited w"
  shows "limited (fst (pcap_packet buffer_sink ident frame wire at comment w))
    \<and> pw_max_bytes (fst (pcap_packet buffer_sink ident frame wire at comment w)) = pw_max_bytes w"
proof (cases "length frame \<le> 65536 \<and> length comment < 65536")
  case True
  then show ?thesis
    using assms pcap_block_limited [OF assms packet_body_small, of frame comment enhanced_packet ident wire at]
    by (auto simp: pcap_packet_def limited_def split: prod.splits option.splits)
qed (use assms in \<open>auto simp: pcap_packet_def max_snap_length_def\<close>)

lemma pcap_packets_limited:
  "limited w \<Longrightarrow> limited (fst (pcap_packets buffer_sink ps w)) \<and> pw_max_bytes (fst (pcap_packets buffer_sink ps w)) = pw_max_bytes w"
proof (induction ps arbitrary: w)
  case (Cons p ps)
  obtain ident frame wire at comment where p: "p = (ident, frame, wire, at, comment)" by (cases p)
  show ?case using pcap_packet_limited [OF Cons.prems, of ident frame wire at comment] Cons.IH
    by (force simp: p split: prod.splits option.splits)
qed simp

lemma pcap_interfaces_limited:
  "limited w \<Longrightarrow> limited (fst (pcap_interfaces buffer_sink names w)) \<and> pw_max_bytes (fst (pcap_interfaces buffer_sink names w)) = pw_max_bytes w"
proof (induction names arbitrary: w)
  case (Cons name names)
  have "length (interface_body name) + 12 \<le> 2 ^ 20" if "length name \<le> 65535"
    using that interface_fits [of name] by (simp add: block_fits_def)
  then show ?case
    using Cons pcap_block_limited [OF Cons.prems, of "interface_body name" interface_description]
    by (force split: prod.splits option.splits)
qed simp

lemma pcap_new_limited:
  assumes "0 < max_bytes" and "unat max_bytes < 2 ^ 63"
  shows "limited (fst (pcap_new buffer_sink [] names max_bytes)) \<and> pw_max_bytes (fst (pcap_new buffer_sink [] names max_bytes)) = max_bytes"
proof -
  let ?w = "\<lparr>pw_out = [], pw_max_bytes = max_bytes, pw_bytes = 0, pw_packets = 0, pw_interfaces = 0\<rparr> :: bytes pcap_writer"
  have w: "limited ?w" using assms by (simp add: limited_def)
  have s: "length section_body + 12 \<le> 2 ^ 20" by (simp add: section_body_def)
  show ?thesis
    using w pcap_block_limited [OF w s, of section_header] pcap_interfaces_limited [of "fst (pcap_block buffer_sink section_header section_body ?w)" names]
    by (auto simp: pcap_new_def Let_def limited_def split: prod.splits option.splits)
qed

end
