(* ===== verification/Stream_Gap.thy ===== *)
theory Stream_Gap imports Demo Go_Map begin

text \<open>
  The gap of a client stream (\<^verbatim>\<open>gapSince\<close> in \<^verbatim>\<open>internal/domain/stream.go\<close>) over a run of segments: it dates from the run,
  and a byte that never arrived is never passed over, so a stream that goes on waits for it.
\<close>

section \<open>The times of a run\<close>

text \<open>Every time the stream remembers lies between \<open>lo\<close> and \<open>hi\<close>, and waiting bytes have a gap.\<close>

definition timed :: "int \<Rightarrow> int \<Rightarrow> stream \<Rightarrow> bool" where
  "timed lo hi s \<longleftrightarrow> (case r_gap_since s of None \<Rightarrow> r_pending_bytes s \<le> 0 | Some t \<Rightarrow> lo \<le> t \<and> t \<le> hi)
     \<and> (case r_last_progress s of None \<Rightarrow> False | Some t \<Rightarrow> lo \<le> t \<and> t \<le> hi)"

lemma timed_fail: "timed lo hi s \<Longrightarrow> timed lo hi (stream_fail x s)"
  by (auto simp: timed_def stream_fail_def Let_def split: option.splits)

lemma timed_push:
  assumes "stream_push \<Gamma> now s b = Ret s'" and "timed lo hi s" and "lo \<le> now" and "now \<le> hi"
  shows "timed lo hi s'"
proof -
  obtain p er where s': "s' = push_end (push_start now s (length b)) p er" using assms(1) by (auto simp: stream_push_eq)
  have start: "timed lo hi ((push_start now s (length b))\<lparr>r_parser := p\<rparr>)"
    using assms(2-4) by (auto simp: timed_def push_start_def split: option.splits)
  have none: "timed lo hi (t\<lparr>r_pending := [], r_pending_bytes := 0\<rparr>)" if "timed lo hi t" for t
    using that by (auto simp: timed_def split: option.splits)
  show ?thesis unfolding s' push_end_def Let_def using timed_fail [OF start] none [OF start] start by (simp split: option.split)
qed

lemma drain_scan_bytes: "drain_scan xs s = (s', c) \<Longrightarrow> r_pending_bytes s' \<le> r_pending_bytes s"
  by (induction xs s rule: drain_scan.induct) (fastforce simp: Let_def split: if_split_asm)+

lemma timed_less: "timed lo hi s \<Longrightarrow> r_pending_bytes s' \<le> r_pending_bytes s \<Longrightarrow> r_gap_since s' = r_gap_since s
    \<Longrightarrow> r_last_progress s' = r_last_progress s \<Longrightarrow> timed lo hi s'"
  by (auto simp: timed_def split: option.splits)

lemma timed_drain:
  "stream_drain \<Gamma> \<rho> now s = Ret s' \<Longrightarrow> timed lo hi s \<Longrightarrow> lo \<le> now \<Longrightarrow> now \<le> hi \<Longrightarrow> timed lo hi s'"
proof (induction s rule: measure_induct_rule [where f = "\<lambda>s. length (r_pending s)"])
  case (less s)
  show ?case
  proof (cases "r_failed s")
    case True
    then show ?thesis using less.prems by (simp add: stream_drain.simps [of \<Gamma> \<rho> now s])
  next
    case run: False
    obtain s1 c where scan: "drain_scan (range_order \<rho> (r_pending s)) s = (s1, c)" by fastforce
    note frame = drain_scan_frame [OF scan]
    have t1: "timed lo hi s1" by (rule timed_less [OF less.prems(2) drain_scan_bytes [OF scan]]) (use frame in simp_all)
    show ?thesis
    proof (cases c)
      case None
      have "timed lo hi (if r_pending_bytes s1 = 0 then s1\<lparr>r_gap_since := None\<rparr> else s1)"
        using t1 by (auto simp: timed_def split: option.splits)
      then show ?thesis using less.prems(1) run scan None by (simp add: stream_drain.simps [of \<Gamma> \<rho> now s])
    next
      case (Some x)
      obtain sq b where x: "x = (sq, b)" by (cases x)
      obtain fresh t where t: "stream_push \<Gamma> now (drop_segment sq b s1) fresh = Ret t" "stream_drain \<Gamma> \<rho> now t = Ret s'"
        using less.prems(1) run scan Some x by (auto simp: stream_drain.simps [of \<Gamma> \<rho> now s] Let_def gbind_eq_Ret)
      have "length (r_pending t) < length (r_pending s)"
        by (rule drain_turn_shrinks [of \<rho> s s1 sq b \<Gamma> now fresh]) (use scan Some x t in auto)
      moreover have "timed lo hi (drop_segment sq b s1)" by (rule timed_less [OF t1]) simp_all
      from timed_push [OF t(1) this less.prems(3,4)] have "timed lo hi t" .
      ultimately show ?thesis using less.IH t(2) less.prems(3,4) by blast
    qed
  qed
qed

lemma timed_park:
  assumes "timed lo hi s" and "lo \<le> now" and "now \<le> hi"
  shows "timed lo hi (stream_park now s sq b)"
proof -
  define t where "t = (if r_gap_since s = None then s\<lparr>r_gap_since := Some now\<rparr> else s)"
  have t: "timed lo hi t" "r_gap_since t \<noteq> None" using assms by (auto simp: t_def timed_def split: option.splits)
  then have "timed lo hi (t\<lparr>r_pending := x, r_pending_bytes := n\<rparr>)" for x n by (auto simp: timed_def)
  then show ?thesis
    unfolding stream_park_def t_def [symmetric] Let_def using t(1) timed_fail [OF t(1)] by simp
qed

lemma timed_add:
  assumes "stream_add \<Gamma> \<rho> now s sq b = Ret s'" and "timed lo hi s" and "lo \<le> now" and "now \<le> hi"
  shows "timed lo hi s'"
proof -
  consider "s' = s" | "s' = stream_park now s sq b"
    | fresh t where "stream_push \<Gamma> now s fresh = Ret t" "stream_drain \<Gamma> \<rho> now t = Ret s'"
    using assms(1) by (auto simp: stream_add_def Let_def gbind_eq_Ret split: if_split_asm)
  then show ?thesis
    by cases (use assms timed_park timed_push timed_drain in blast)+
qed

lemma timed_adds:
  "stream_adds \<Gamma> s xs = Ret s' \<Longrightarrow> timed lo hi s \<Longrightarrow> \<forall>(\<rho>, now, sq, b) \<in> set xs. lo \<le> now \<and> now \<le> hi \<Longrightarrow> timed lo hi s'"
proof (induction xs arbitrary: s)
  case (Cons a xs)
  obtain \<rho> now sq b where a: "a = (\<rho>, now, sq, b)" by (cases a)
  obtain t where t: "stream_add \<Gamma> \<rho> now s sq b = Ret t" "stream_adds \<Gamma> t xs = Ret s'" using Cons.prems(1) a by (auto simp: gbind_eq_Ret)
  have "timed lo hi t" using timed_add [OF t(1) Cons.prems(2)] Cons.prems(3) a by simp
  then show ?case using Cons.IH [OF t(2)] Cons.prems(3) by simp
qed simp

section \<open>A byte that never arrived\<close>

text \<open>The parser was not fed past the position \<open>p\<close>, and no waiting segment holds it.\<close>

definition before_gap :: "u32 \<Rightarrow> nat \<Rightarrow> stream \<Rightarrow> bool" where
  "before_gap isn p s \<longleftrightarrow> (\<exists>k \<le> p. r_expected s = isn + of_nat k)
     \<and> (\<forall>(sq, b) \<in> set (r_pending s). \<exists>i. sq = isn + of_nat i \<and> i + length b < 2 ^ 30 \<and> (p < i \<or> i + length b \<le> p))"

lemma before_gap_sub:
  "before_gap isn p s \<Longrightarrow> r_expected s' = r_expected s \<Longrightarrow> set (r_pending s') \<subseteq> set (r_pending s) \<Longrightarrow> before_gap isn p s'"
  unfolding before_gap_def by auto

lemma before_gap_push:
  assumes r: "stream_push \<Gamma> now s b = Ret s'" and gap: "before_gap isn p s" and k: "r_expected s = isn + of_nat k" "k + length b \<le> p"
  shows "before_gap isn p s'"
proof -
  obtain q er where s': "s' = push_end (push_start now s (length b)) q er" using r by (auto simp: stream_push_eq)
  have "r_expected s' = isn + of_nat (k + length b)" using k(1) by (simp add: s' push_end_frame add.assoc)
  moreover have "set (r_pending s') \<subseteq> set (r_pending s)" using stream_push_pending [OF r] by auto
  ultimately show ?thesis using gap k(2) unfolding before_gap_def by blast
qed

text \<open>The rest of a segment that reaches back to the expected byte, at \<open>k\<close>.\<close>

lemma rest_of_segment:
  assumes k: "k < 2 ^ 30" and i: "i + length b < 2 ^ 30" and e: "e = isn + of_nat k"
    and r: "gfrom_int b (neg32 (seq_diff (isn + of_nat i) e)) = Ret fresh" and d: "seq_diff (isn + of_nat i) e \<le> 0"
  shows "i \<le> k" "k + length fresh = max k (i + length b)"
proof -
  have sd: "seq_diff (isn + of_nat i) e = int i - int k" unfolding e by (rule seq_diff_offsets) (use k i in simp)+
  then show le: "i \<le> k" using d by simp
  have "neg32 (seq_diff (isn + of_nat i) e) = int (k - i)" using sd le k by (auto simp: neg32_def)
  then have "k - i \<le> length b" "fresh = drop (k - i) b" using r by (auto simp: gfrom_int_def split: if_splits)
  then show "k + length fresh = max k (i + length b)" using le by auto
qed

lemma buffer_ok_push:
  assumes r: "stream_push \<Gamma> now s b = Ret t" and ok: "buffer_ok s"
  shows "buffer_ok t"
proof -
  obtain p er where t: "t = push_end (push_start now s (length b)) p er" using r by (auto simp: stream_push_eq)
  have start: "buffer_ok ((push_start now s (length b))\<lparr>r_parser := p\<rparr>)" by (rule buffer_ok_same [OF ok]) (simp_all add: push_start_def)
  show ?thesis
    unfolding t push_end_def Let_def using start by (auto simp: stream_fail_def Let_def split: option.split)
qed

lemma before_gap_drain:
  "stream_drain \<Gamma> \<rho> now s = Ret s' \<Longrightarrow> before_gap isn p s \<Longrightarrow> p < 2 ^ 30 \<Longrightarrow> buffer_ok s \<Longrightarrow> before_gap isn p s'"
proof (induction s rule: measure_induct_rule [where f = "\<lambda>s. length (r_pending s)"])
  case (less s)
  show ?case
  proof (cases "r_failed s")
    case True
    then show ?thesis using less.prems by (simp add: stream_drain.simps [of \<Gamma> \<rho> now s])
  next
    case run: False
    have d: "distinct (map fst (r_pending s))" using less.prems(4) by (simp add: buffer_ok_def pend_ok_def)
    obtain s1 c where scan: "drain_scan (range_order \<rho> (r_pending s)) s = (s1, c)" by fastforce
    note frame = drain_scan_frame [OF scan]
    have sub: "set (range_order \<rho> (r_pending s)) \<subseteq> set (r_pending s)" by simp
    note ok = drain_scan_ok [OF scan less.prems(4) sub distinct_range_order [OF d]]
    have gap1: "before_gap isn p s1" by (rule before_gap_sub [OF less.prems(2)]) (use frame ok in simp_all)
    show ?thesis
    proof (cases c)
      case None
      then have "s' = s1 \<or> s' = s1\<lparr>r_gap_since := None\<rparr>" using less.prems(1) run scan by (auto simp: stream_drain.simps [of \<Gamma> \<rho> now s])
      then show ?thesis using gap1 by (auto simp: before_gap_def)
    next
      case (Some x)
      obtain sq b where x: "x = (sq, b)" by (cases x)
      have in1: "(sq, b) \<in> set (r_pending s1)" using ok Some x by auto
      let ?s2 = "drop_segment sq b s1"
      obtain fresh t where fresh: "gfrom_int b (neg32 (seq_diff sq (r_expected s1))) = Ret fresh"
        and t: "stream_push \<Gamma> now ?s2 fresh = Ret t" "stream_drain \<Gamma> \<rho> now t = Ret s'"
        using less.prems(1) run scan Some x by (auto simp: stream_drain.simps [of \<Gamma> \<rho> now s] Let_def gbind_eq_Ret)
      obtain k i where k: "k \<le> p" "r_expected s1 = isn + of_nat k" and i: "sq = isn + of_nat i" "i + length b < 2 ^ 30" "p < i \<or> i + length b \<le> p"
        using gap1 in1 unfolding before_gap_def by fast
      have found: "seq_diff sq (r_expected s1) \<le> 0"
        using drain_scan_found [of "range_order \<rho> (r_pending s)" s s1 sq b] scan Some x frame by simp
      have "k < 2 ^ 30" using k(1) less.prems(3) by simp
      note rest = rest_of_segment [OF this i(2) k(2) fresh [unfolded i(1)] found [unfolded i(1)]]
      have "before_gap isn p ?s2" by (rule before_gap_sub [OF gap1]) (auto simp: AList.delete_eq)
      from before_gap_push [OF t(1) this, of k] have gapt: "before_gap isn p t" using rest i(3) k by simp
      have "length (r_pending t) < length (r_pending s)"
        by (rule drain_turn_shrinks [of \<rho> s s1 sq b \<Gamma> now fresh]) (use scan Some x t in auto)
      moreover have "buffer_ok t"
      proof -
        have "buffer_ok ?s2" using buffer_ok_drop(1) [of s1 sq b] ok in1 by simp
        then show ?thesis by (rule buffer_ok_push [OF t(1)])
      qed
      ultimately show ?thesis using less.IH [OF _ t(2) gapt less.prems(3)] by blast
    qed
  qed
qed

text \<open>One segment, and a run of segments, of which none holds the byte at \<open>p\<close>.\<close>

lemma before_gap_park:
  assumes gap: "before_gap isn p s" and i: "sq = isn + of_nat i" "i + length b < 2 ^ 30" "p < i \<or> i + length b \<le> p"
  shows "before_gap isn p (stream_park now s sq b)"
proof -
  have "set (r_pending (stream_park now s sq b)) \<subseteq> insert (sq, b) (set (r_pending s))"
    by (auto simp: stream_park_def stream_fail_def Let_def dest: update_entry split: if_split_asm)
  moreover have "r_expected (stream_park now s sq b) = r_expected s" by (auto simp: stream_park_def stream_fail_def Let_def)
  ultimately show ?thesis using gap i unfolding before_gap_def by auto
qed

lemma before_gap_add:
  assumes r: "stream_add \<Gamma> \<rho> now s sq b = Ret s'" and gap: "before_gap isn p s" and p: "p < 2 ^ 30" and ok: "buffer_ok s"
    and i: "sq = isn + of_nat i" "i + length b < 2 ^ 30" "p < i \<or> i + length b \<le> p"
  shows "before_gap isn p s'"
proof -
  consider (same) "s' = s" | (park) "s' = stream_park now s sq b"
    | (push) fresh t where "seq_diff sq (r_expected s) \<le> 0" "gfrom_int b (neg32 (seq_diff sq (r_expected s))) = Ret fresh"
        "stream_push \<Gamma> now s fresh = Ret t" "stream_drain \<Gamma> \<rho> now t = Ret s'"
  proof -
    have z: "gfrom_int b (neg32 0) = Ret b" by (simp add: gfrom_int_def neg32_def)
    show ?thesis using r same park push z
      by (auto simp: stream_add_def Let_def gbind_eq_Ret not_less split: if_split_asm)
  qed
  then show ?thesis
  proof cases
    case same
    then show ?thesis using gap by simp
  next
    case park
    then show ?thesis using before_gap_park [OF gap i] by simp
  next
    case push
    obtain k where k: "k \<le> p" "r_expected s = isn + of_nat k" using gap unfolding before_gap_def by blast
    have "k < 2 ^ 30" using k(1) p by simp
    note rest = rest_of_segment [OF this i(2) k(2) push(2) [unfolded i(1)] push(1) [unfolded i(1)]]
    from before_gap_push [OF push(3) gap k(2)] have "before_gap isn p t" using rest i(3) k(1) by simp
    moreover have "buffer_ok t" by (rule buffer_ok_push [OF push(3) ok])
    ultimately show ?thesis using before_gap_drain [OF push(4) _ p] by simp
  qed
qed

definition misses :: "u32 \<Rightarrow> bytes \<Rightarrow> nat \<Rightarrow> arrival \<Rightarrow> bool" where
  "misses isn B p a \<longleftrightarrow> (case a of (\<rho>, now, sq, b) \<Rightarrow> \<exists>i. sq = isn + of_nat i \<and> i + length b \<le> length B \<and> (p < i \<or> i + length b \<le> p))"

lemma before_gap_adds:
  "stream_adds \<Gamma> s xs = Ret s' \<Longrightarrow> stream_ok s \<Longrightarrow> before_gap isn p s \<Longrightarrow> p < 2 ^ 30 \<Longrightarrow> length B < 2 ^ 30
   \<Longrightarrow> \<forall>a \<in> set xs. misses isn B p a \<Longrightarrow> before_gap isn p s'"
proof (induction xs arbitrary: s)
  case (Cons a xs)
  obtain \<rho> now sq b where a: "a = (\<rho>, now, sq, b)" by (cases a)
  obtain i where i: "sq = isn + of_nat i" "i + length b \<le> length B" "p < i \<or> i + length b \<le> p" using Cons.prems(6) a by (auto simp: misses_def)
  then have ib: "i + length b < 2 ^ 30" using Cons.prems(5) by simp
  obtain t where t: "stream_add \<Gamma> \<rho> now s sq b = Ret t" "stream_adds \<Gamma> t xs = Ret s'" using Cons.prems(1) a by (auto simp: gbind_eq_Ret)
  obtain k where k: "k \<le> p" "r_expected s = isn + of_nat k" using Cons.prems(3) unfolding before_gap_def by blast
  have "seq_diff sq (r_expected s) = int i - int k" unfolding i(1) k(2) by (rule seq_diff_offsets) (use ib k(1) Cons.prems(4) in simp)+
  then have "seq_diff sq (r_expected s) \<noteq> - (2 ^ 31)" using k(1) Cons.prems(4) by simp
  moreover have "length b < 2 ^ 30" using ib by simp
  ultimately have "runs s (stream_add \<Gamma> \<rho> now s sq b) stream_ok" using Cons.prems(2) by (intro stream_add_runs) auto
  then have "stream_ok t" using t(1) by (simp add: runs_def)
  moreover have "buffer_ok s" using Cons.prems(2) by (simp add: stream_ok_def stream_mid_def)
  from before_gap_add [OF t(1) Cons.prems(3,4) this i(1) ib i(3)] have "before_gap isn p t" .
  ultimately show ?case using Cons.IH [OF t(2)] Cons.prems(4-6) by simp
qed simp

section \<open>The time-out\<close>

lemma run_before_gap:
  assumes r: "stream_adds \<Gamma> (new_stream now0 isn) xs = Ret s" and a: "\<forall>a \<in> set xs. arrives isn B a" and B: "length B < 2 ^ 30"
    and lost: "\<forall>(i, n) \<in> offsets isn B xs. \<not> (i \<le> p \<and> p < i + n)" and p: "p < 2 ^ 30"
  shows "before_gap isn p s"
proof -
  have "misses isn B p x" if x: "x \<in> set xs" for x
  proof -
    obtain \<rho> now sq b where xx: "x = (\<rho>, now, sq, b)" by (cases x)
    obtain j where j: "sq = isn + of_nat j" "j + length b \<le> length B" "b = take (length b) (drop j B)"
      using a x xx by (auto simp: arrives_def segment_of_def)
    then have "(j, length b) \<in> offsets isn B xs" using x xx by (auto simp: offsets_def)
    then have "\<not> (j \<le> p \<and> p < j + length b)" using lost by auto
    then show ?thesis using j xx by (auto simp: misses_def)
  qed
  moreover have "before_gap isn p (new_stream now0 isn)" by (auto simp: before_gap_def new_stream_def stream0_def)
  ultimately show ?thesis using before_gap_adds [OF r stream_ok_new _ p B] by blast
qed

lemma waiting_segment:
  assumes r: "stream_adds \<Gamma> (new_stream now0 isn) xs = Ret s" and a: "\<forall>a \<in> set xs. arrives isn B a" and B: "length B < 2 ^ 30"
    and lost: "\<forall>(i, n) \<in> offsets isn B xs. \<not> (i \<le> p \<and> p < i + n)" and behind: "(i, n) \<in> offsets isn B xs" "p < i" "0 < n"
    and run: "\<not> r_failed s" "\<not> parser_finished (r_parser s)"
  shows "0 < r_pending_bytes s"
proof -
  obtain k where ok: "stream_ok s" and f: "fed \<Gamma> isn B (offsets isn B xs) s k" using stream_adds_new [OF r a B] run by auto
  have inB: "i + n \<le> length B" using behind(1) by (auto simp: offsets_def)
  have p: "p < 2 ^ 30" using behind(2) inB B by simp
  obtain k' where k': "k' \<le> p" "r_expected s = isn + of_nat k'" using run_before_gap [OF r a B lost p] unfolding before_gap_def by blast
  have k: "k \<le> length B" "r_expected s = isn + of_nat k" "kept isn (offsets isn B xs) k (r_pending s)" using f run by (auto simp: fed_def)
  have "k = k'" by (rule offset_inj [of isn]) (use k k' p B in simp_all)
  then have "n \<le> length (pend_get (isn + of_nat i) (r_pending s))" using k(3) behind k'(1) by (force simp: kept_def)
  then have "pend_get (isn + of_nat i) (r_pending s) \<noteq> []" using behind(3) by auto
  then obtain b where b: "(isn + of_nat i, b) \<in> set (r_pending s)" "b \<noteq> []"
    by (auto simp: pend_get_def dest: map_of_SomeD split: option.splits)
  have "length b \<le> pend_bytes (r_pending s)" unfolding pend_bytes_def using b(1) by (intro member_le_sum_list) force+
  then have "0 < pend_bytes (r_pending s)" using b(2) by (cases b) auto
  then show ?thesis using ok by (simp add: stream_ok_def stream_mid_def buffer_ok_def)
qed

lemma stream_adds_append:
  "stream_adds \<Gamma> s (xs @ ys) = gbind (stream_adds \<Gamma> s xs) (\<lambda>t. stream_adds \<Gamma> t ys)"
  by (induction xs arbitrary: s) (auto simp: gbind_assoc)

text \<open>What waits behind the lost byte, and what arrives behind it later, dates the gap no later than \<open>hi\<close>.\<close>

definition behind_gap :: "u32 \<Rightarrow> bytes \<Rightarrow> nat \<Rightarrow> arrival \<Rightarrow> bool" where
  "behind_gap isn B p a \<longleftrightarrow> (\<exists>i > p. i \<le> length B \<and> fst (snd (snd a)) = isn + of_nat i)"

lemma later_behind:
  assumes r: "stream_add \<Gamma> \<rho> now u sq c = Ret s" and run: "\<not> r_failed s" "\<not> parser_finished (r_parser s)"
    and gap: "before_gap isn p u" and i: "sq = isn + of_nat i" "p < i" "i < 2 ^ 30" and g: "r_gap_since u = Some g"
  shows "r_gap_since s = Some g"
proof (cases "r_failed u \<or> parser_finished (r_parser u) \<or> length c = 0")
  case True
  then have "s = u" using r unfolding stream_add_def by auto
  then show ?thesis using g by simp
next
  case False
  obtain k where k: "k \<le> p" "r_expected u = isn + of_nat k" using gap unfolding before_gap_def by blast
  have "seq_diff sq (r_expected u) = int i - int k" unfolding i(1) k(2) by (rule seq_diff_offsets) (use i k(1) in simp)+
  then have "0 < seq_diff sq (r_expected u)" using i(2) k(1) by simp
  then have "s = stream_park now u sq c" using r False by (simp add: stream_add_def)
  then show ?thesis using g run(1) by (simp add: stream_park_def stream_fail_def Let_def split: if_split_asm)
qed

lemma gap_dates:
  assumes B: "length B < 2 ^ 30" and behind: "(i, n) \<in> offsets isn B xs" "p < i" "0 < n"
    and early: "lo \<le> now0 \<and> now0 \<le> hi" "\<forall>(\<rho>, now, sq, b) \<in> set xs. lo \<le> now \<and> now \<le> hi"
  shows "stream_adds \<Gamma> (new_stream now0 isn) (xs @ zs) = Ret s \<Longrightarrow> \<not> r_failed s \<Longrightarrow> \<not> parser_finished (r_parser s)
    \<Longrightarrow> \<forall>a \<in> set (xs @ zs). arrives isn B a \<Longrightarrow> \<forall>(i, n) \<in> offsets isn B (xs @ zs). \<not> (i \<le> p \<and> p < i + n)
    \<Longrightarrow> \<forall>a \<in> set zs. behind_gap isn B p a \<Longrightarrow> \<exists>g. r_gap_since s = Some g \<and> lo \<le> g \<and> g \<le> hi"
proof (induction zs arbitrary: s rule: rev_induct)
  case Nil
  have "timed lo hi (new_stream now0 isn)" using early by (simp add: timed_def new_stream_def stream0_def)
  moreover have "stream_adds \<Gamma> (new_stream now0 isn) xs = Ret s" using Nil.prems(1) by simp
  ultimately have time: "timed lo hi s" using timed_adds early(2) by blast
  have "0 < r_pending_bytes s"
    using waiting_segment [of \<Gamma> now0 isn xs s B p i n] Nil.prems(1-5) B behind by simp
  then show ?case using time by (auto simp: timed_def split: option.splits)
next
  case (snoc z zs)
  obtain \<rho> now sq c where z: "z = (\<rho>, now, sq, c)" by (cases z)
  obtain u where u: "stream_adds \<Gamma> (new_stream now0 isn) (xs @ zs) = Ret u" "stream_add \<Gamma> \<rho> now u sq c = Ret s"
    using snoc.prems(1) stream_adds_append [of \<Gamma> _ "xs @ zs" "[z]"] by (auto simp: gbind_eq_Ret z)
  have run: "\<not> r_failed u" "\<not> parser_finished (r_parser u)" using u(2) snoc.prems(2,3) by (auto simp: stream_add_def)
  have lost: "\<forall>(i, n) \<in> offsets isn B (xs @ zs). \<not> (i \<le> p \<and> p < i + n)" using snoc.prems(5) by (fastforce simp: offsets_def)
  with snoc.IH [OF u(1) run] snoc.prems(4,6) obtain g where g: "r_gap_since u = Some g" "lo \<le> g" "g \<le> hi" by auto
  have p: "p < 2 ^ 30" using behind B by (auto simp: offsets_def)
  have "before_gap isn p u" by (rule run_before_gap [OF u(1) _ B lost p]) (use snoc.prems(4) in simp)
  moreover obtain j where "sq = isn + of_nat j" "p < j" "j \<le> length B" using snoc.prems(6) z by (auto simp: behind_gap_def)
  ultimately have "r_gap_since s = Some g" using later_behind [OF u(2) snoc.prems(2,3)] B g(1) by auto
  then show ?case using g by blast
qed

lemma gap_tick_late:
  assumes "\<not> r_failed s" "\<not> parser_finished (r_parser s)" and "0 < r_pending_bytes s" and "r_gap_since s = Some g" and "g + 10 * second < now"
  shows "r_failed (stream_tick now s)" "r_pending (stream_tick now s) = []" "r_pending_bytes (stream_tick now s) = 0"
    "e_parse_error (stream_evidence (stream_tick now s)) = Some (Msg ''TCP reassembly gap timeout'')"
  using assms by (simp_all add: stream_tick_def stream_fail_def Let_def time_sub_def max_duration_def stream_evidence_def)

lemma gap_tick_early:
  assumes "\<not> r_failed s" "\<not> parser_finished (r_parser s)" and "r_gap_since s = Some g" "r_last_progress s = Some l"
    and "now \<le> g + 10 * second" "now \<le> l + 30 * second"
  shows "\<not> r_failed (stream_tick now s)" "r_pending (stream_tick now s) = r_pending s" "r_parser (stream_tick now s) = r_parser s"
proof -
  have "\<not> time_sub now (r_gap_since s) > 10 * second" "\<not> time_sub now (r_last_progress s) > 30 * second"
    using assms(3-6) by (auto simp: time_sub_def max_duration_def max_def min_def)
  then show "\<not> r_failed (stream_tick now s)" "r_pending (stream_tick now s) = r_pending s" "r_parser (stream_tick now s) = r_parser s"
    using assms(1,2) by (simp_all add: stream_tick_def Let_def)
qed

text \<open>The last progress of a run whose times are in order is not before its first time.\<close>

lemma progress_dates:
  assumes "stream_adds \<Gamma> (new_stream now0 isn) xs = Ret s" and "\<forall>(\<rho>, t, sq, b) \<in> set xs. now0 \<le> t"
  shows "\<exists>l. r_last_progress s = Some l \<and> now0 \<le> l"
proof -
  define hi where "hi = Max (insert now0 ((\<lambda>(\<rho>, t, sq, b). t) ` set xs))"
  have "timed now0 hi (new_stream now0 isn)" by (simp add: timed_def new_stream_def stream0_def hi_def)
  moreover have "t \<le> hi" if "(\<rho>, t, sq, b) \<in> set xs" for \<rho> t sq b
    unfolding hi_def using that by (intro Max_ge) (auto intro!: image_eqI [of _ _ "(\<rho>, t, sq, b)"])
  ultimately have "timed now0 hi s" using timed_adds [OF assms(1), of now0 hi] assms(2) by fastforce
  then show ?thesis by (auto simp: timed_def split: option.splits)
qed

text \<open>
  The last bytes of the demonstration alone: 2 to 4 wait for 0 and 1, and 3 and 4 come again nine seconds later.
\<close>

definition demo_early :: "arrival list" where "demo_early = [(\<lambda>_ _. 0, 1, 1002, lit ''cde'')]"

definition demo_late :: "arrival list" where "demo_late = [(\<lambda>_ _. 0, 9 * second, 1003, lit ''de'')]"

definition demo_waiting :: stream where
  "demo_waiting = (new_stream 0 1000)\<lparr>r_pending := [(1002, lit ''cde''), (1003, lit ''de'')], r_pending_bytes := 5, r_gap_since := Some 1\<rparr>"

lemma demo_waits: "stream_adds demo_env (new_stream 0 1000) (demo_early @ demo_late) = Ret demo_waiting"
  by (simp add: demo_early_def demo_late_def demo_waiting_def stream_add_def new_stream_def stream0_def demo_kinds demo_seq stream_park_def
     Let_def max_pending_parts_def max_pending_bytes_def pend_get_def lit_def seq_diff_def)

lemma demo_waiting_runs: "\<not> r_failed demo_waiting" "\<not> parser_finished (r_parser demo_waiting)"
  by (simp_all add: demo_waiting_def new_stream_def stream0_def demo_kinds)

lemma demo_lost_arrives: "\<forall>a \<in> set (demo_early @ demo_late). arrives 1000 demo_bytes a"
proof -
  have "segment_of 1000 demo_bytes (1002, lit ''cde'')" "segment_of 1000 demo_bytes (1003, lit ''de'')"
    by (auto simp: segment_of_def demo_bytes_def lit_def intro: exI [of _ 2] exI [of _ 3])
  then show ?thesis by (simp add: demo_early_def demo_late_def arrives_def)
qed

lemma demo_hole:
  "\<forall>(i, n) \<in> offsets 1000 demo_bytes (demo_early @ demo_late). \<not> (i \<le> 0 \<and> 0 < i + n)"
  "(2, 3) \<in> offsets 1000 demo_bytes demo_early" "\<forall>a \<in> set demo_late. behind_gap 1000 demo_bytes 0 a"
  by (auto simp: offsets_def demo_early_def demo_late_def demo_bytes_def lit_def behind_gap_def intro!: exI [of _ 3])

end
