(* ===== verification/Trend.thy ===== *)
theory Trend imports GoText Go_Store Wire begin

text \<open>
  The traffic trends of the rows of a table (\<^verbatim>\<open>internal/app/trend.go\<close>): one ring of samples per row, its drawing as a
  line of block characters, and the store that owns the rings.

  The array of a ring is a list of 300 samples, its index \<open>g_newest\<close> an \<^verbatim>\<open>int32\<close> between \<open>-1\<close> and 299.  Ages and widths
  are \<^verbatim>\<open>int\<close>s.  The orders in which the code ranges over its maps are parameters.

  The lemmas show that a ring is the list of the last 300 samples, what each cell of a drawing shows, and that the store
  never keeps more than 500 rows.
\<close>

section \<open>The ring of a row\<close>

definition trend_seconds :: nat where
  "trend_seconds = 300"

definition trend_rows :: nat where
  "trend_rows = 500"

definition trend_row_stale :: int where
  "trend_row_stale = 5 * 60 * 1000 * 1000000"

record trend_ring =
  g_samples :: "u32 list"
  g_count :: u32
  g_newest :: int

definition trend_ring0 :: trend_ring where
  "trend_ring0 = \<lparr>g_samples = replicate trend_seconds 0, g_count = 0, g_newest = -1\<rparr>"

definition ring_add :: "u64 \<Rightarrow> trend_ring \<Rightarrow> trend_ring go" where
  "ring_add amount t = (let v = min amount 0xFFFFFFFF; newest = (g_newest t + 1) mod int trend_seconds in
     gbind (gput_int (g_samples t) newest (ucast v)) (\<lambda>samples.
     Ret (t\<lparr>g_samples := samples, g_newest := newest, g_count := if unat (g_count t) < trend_seconds then g_count t + 1 else g_count t\<rparr>)))"

definition ring_at :: "trend_ring \<Rightarrow> int \<Rightarrow> u32 option go" where
  "ring_at t age = (if age < 0 \<or> int (unat (g_count t)) \<le> age then Ret None
     else gbind (gidx_int (g_samples t) ((g_newest t - age + int trend_seconds) mod int trend_seconds)) (\<lambda>v. Ret (Some v)))"

definition ring_latest :: "trend_ring \<Rightarrow> u64 go" where
  "ring_latest t = (if g_count t = 0 then Ret 0 else gbind (gidx_int (g_samples t) (g_newest t)) (\<lambda>v. Ret (ucast v)))"

section \<open>Drawing\<close>

text \<open>\<^verbatim>\<open>sparkRunes\<close>: the eight block characters, and the blank of an empty cell.\<close>

definition spark_runes :: "nat list" where
  "spark_runes = [0x2581, 0x2582, 0x2583, 0x2584, 0x2585, 0x2586, 0x2587, 0x2588]"

definition blank :: nat where
  "blank = 32"

definition spark_rung :: "u32 \<Rightarrow> u32 \<Rightarrow> nat go" where
  "spark_rung v peak = (if v = 0 \<or> peak = 0 then Ret blank
     else let rung = ucast v * of_nat (length spark_runes) div (ucast peak + 1) :: u64 in
       gidx spark_runes (unat (min rung (of_nat (length spark_runes) - 1))))"

definition rune_string :: "nat list \<Rightarrow> bytes" where
  "rune_string cells = concat (map encode_rune cells)"

fun ring_peak :: "trend_ring \<Rightarrow> nat list \<Rightarrow> u32 \<Rightarrow> u32 go" where
  "ring_peak t [] peak = Ret peak"
| "ring_peak t (age # ages) peak = gbind (ring_at t (int age)) (\<lambda>r. ring_peak t ages (case r of
     Some v \<Rightarrow> if peak < v then v else peak | None \<Rightarrow> peak))"

fun spark_cells :: "trend_ring \<Rightarrow> int \<Rightarrow> u32 \<Rightarrow> nat list \<Rightarrow> nat list \<Rightarrow> nat list go" where
  "spark_cells t width peak [] cells = Ret cells"
| "spark_cells t width peak (age # ages) cells = gbind (ring_at t (int age)) (\<lambda>r. case r of
     None \<Rightarrow> Ret cells
   | Some v \<Rightarrow> let pos = width - 1 - int age in
       if pos < 0 then Ret cells
       else gbind (spark_rung v peak) (\<lambda>c. gbind (gput_int cells pos c) (spark_cells t width peak ages)))"

definition sparkn_cells :: "trend_ring \<Rightarrow> int \<Rightarrow> nat list go" where
  "sparkn_cells t width = (if width \<le> 0 then Ret []
     else let cells = replicate (nat width) blank in
       if g_count t = 0 then Ret cells
       else let shown = nat (min width (int (unat (g_count t)))) in
         gbind (ring_peak t [0..<shown] 0) (\<lambda>peak.
         if peak = 0 then Ret cells else spark_cells t width peak [0..<shown] cells))"

definition sparkn :: "trend_ring \<Rightarrow> int \<Rightarrow> bytes go" where
  "sparkn t width = gbind (sparkn_cells t width) (\<lambda>cells. Ret (rune_string cells))"

text \<open>\<^verbatim>\<open>sparkWindow\<close>: the maximum of each bucket of samples, and the cell it is drawn in.\<close>

fun bucket_maxima :: "trend_ring \<Rightarrow> int \<Rightarrow> int \<Rightarrow> nat list \<Rightarrow> u32 list \<Rightarrow> u32 \<Rightarrow> (u32 list \<times> u32) go" where
  "bucket_maxima t width seconds [] maxima peak = Ret (maxima, peak)"
| "bucket_maxima t width seconds (age # ages) maxima peak = gbind (ring_at t (int age)) (\<lambda>r. case r of
     None \<Rightarrow> Ret (maxima, peak)
   | Some v \<Rightarrow> let cell = width - 1 - int age * width div seconds in
       if cell < 0 then Ret (maxima, peak)
       else gbind (gidx_int maxima cell) (\<lambda>old. gbind (if old < v then gput_int maxima cell v else Ret maxima) (\<lambda>maxima'.
         bucket_maxima t width seconds ages maxima' (if peak < v then v else peak))))"

fun rung_cells :: "u32 list \<Rightarrow> u32 \<Rightarrow> nat list go" where
  "rung_cells [] peak = Ret []"
| "rung_cells (v # vs) peak = gbind (spark_rung v peak) (\<lambda>c. gbind (rung_cells vs peak) (\<lambda>cs. Ret (c # cs)))"

definition window_cells :: "trend_ring \<Rightarrow> int \<Rightarrow> int \<Rightarrow> nat list go" where
  "window_cells t seconds0 width = (if width \<le> 0 \<or> seconds0 \<le> 0 then Ret []
     else let cells = replicate (nat width) blank in
       if g_count t = 0 then Ret cells
       else let seconds = (if int (unat (g_count t)) < seconds0 then int (unat (g_count t)) else seconds0) in
         gbind (bucket_maxima t width seconds [0..<nat seconds] (replicate (nat width) 0) 0) (\<lambda>(maxima, peak).
         if peak = 0 then Ret cells else rung_cells maxima peak))"

definition spark_window :: "trend_ring \<Rightarrow> int \<Rightarrow> int \<Rightarrow> bytes go" where
  "spark_window t seconds width = gbind (window_cells t seconds width) (\<lambda>cells. Ret (rune_string cells))"

section \<open>The store\<close>

record trend_store =
  x_rings :: "(bytes \<times> trend_ring) list"
  x_unused :: "(bytes \<times> gotime) list"
  x_seen_rates :: "(bytes \<times> u64) list"
  x_now :: gotime

definition new_trend_store :: trend_store where
  "new_trend_store = \<lparr>x_rings = [], x_unused = [], x_seen_rates = [], x_now = None\<rparr>"

definition trend_tick :: "gotime \<Rightarrow> trend_store \<Rightarrow> trend_store" where
  "trend_tick now s = s\<lparr>x_now := now\<rparr>"

text \<open>The row that was unused first; the first row of the range when all are in use.\<close>

definition oldest_unused :: "(bytes \<times> gotime) list \<Rightarrow> gotime \<times> bytes" where
  "oldest_unused unused = fold (\<lambda>(identity, since) (when, oldest).
     if when = None \<or> time_before since when then (since, identity) else (when, oldest)) unused (None, [])"

definition evict_oldest :: "(bytes \<Rightarrow> nat) \<Rightarrow> trend_store \<Rightarrow> trend_store" where
  "evict_oldest \<rho> s = (let found = snd (oldest_unused (ranged \<rho> (x_unused s)));
     oldest = (if found = [] then (case ranged \<rho> (x_rings s) of [] \<Rightarrow> [] | (identity, _) # _ \<Rightarrow> identity) else found) in
     s\<lparr>x_unused := AList.delete oldest (x_unused s), x_rings := AList.delete oldest (x_rings s)\<rparr>)"

definition trend_add :: "(bytes \<Rightarrow> nat) \<Rightarrow> bytes \<Rightarrow> u64 \<Rightarrow> trend_store \<Rightarrow> trend_store go" where
  "trend_add \<rho> identity amount s0 = (if identity = [] then Ret s0
     else let s = s0\<lparr>x_unused := AList.delete identity (x_unused s0)\<rparr> in
       (case map_of (x_rings s) identity of
         Some r \<Rightarrow> gbind (ring_add amount r) (\<lambda>r'. Ret (s\<lparr>x_rings := AList.update identity r' (x_rings s)\<rparr>))
       | None \<Rightarrow> let s' = (if trend_rows \<le> length (x_rings s) then evict_oldest \<rho> s else s) in
           gbind (ring_add amount trend_ring0) (\<lambda>r'. Ret (s'\<lparr>x_rings := AList.update identity r' (x_rings s')\<rparr>))))"

definition mark_unused :: "bytes \<Rightarrow> trend_store \<Rightarrow> trend_store" where
  "mark_unused identity s = (if identity = [] then s
     else case map_of (x_rings s) identity of
       None \<Rightarrow> s
     | Some _ \<Rightarrow> (case map_of (x_unused s) identity of
         Some _ \<Rightarrow> s
       | None \<Rightarrow> s\<lparr>x_unused := AList.update identity (x_now s) (x_unused s)\<rparr>))"

definition trend_evict :: "trend_store \<Rightarrow> trend_store" where
  "trend_evict s = (let stale = (\<lambda>since. trend_row_stale \<le> time_diff (x_now s) since);
     gone = map fst (filter (\<lambda>x. stale (snd x)) (x_unused s)) in
     s\<lparr>x_unused := filter (\<lambda>x. fst x \<notin> set gone) (x_unused s), x_rings := filter (\<lambda>x. fst x \<notin> set gone) (x_rings s)\<rparr>)"

definition trend_ring_of :: "trend_store \<Rightarrow> bytes \<Rightarrow> trend_ring option" where
  "trend_ring_of s identity = map_of (x_rings s) identity"

text \<open>
  \<^verbatim>\<open>sampleTrends\<close> of \<^verbatim>\<open>internal/app/ui.go\<close> once a second: the shown rows with their rates add a sample, the other
  rows are marked.  \<open>\<rho> n\<close> is the order of the ranges of the \<open>n\<close>-th addition.
\<close>

fun trend_add_all :: "(nat \<Rightarrow> bytes \<Rightarrow> nat) \<Rightarrow> (bytes \<times> u64) list \<Rightarrow> trend_store \<Rightarrow> trend_store go" where
  "trend_add_all \<rho> [] s = Ret s"
| "trend_add_all \<rho> ((identity, rate) # rows) s = gbind (trend_add (\<rho> (length rows)) identity rate s) (trend_add_all \<rho> rows)"

definition mark_absent :: "(bytes \<times> u64) list \<Rightarrow> trend_store \<Rightarrow> trend_store" where
  "mark_absent seen s = fold (\<lambda>(identity, r) s. if map_of seen identity = None then mark_unused identity s else s) (x_rings s) s"

definition sample_trends :: "(nat \<Rightarrow> bytes \<Rightarrow> nat) \<Rightarrow> gotime \<Rightarrow> (bytes \<times> u64) list \<Rightarrow> trend_store \<Rightarrow> trend_store go" where
  "sample_trends \<rho> now rows s = gbind (trend_add_all \<rho> rows (trend_tick now s)) (\<lambda>s1.
     let seen = fold (\<lambda>(identity, rate). AList.update identity rate) rows [] in
     Ret (trend_evict (mark_absent seen (s1\<lparr>x_seen_rates := seen\<rparr>))))"

section \<open>A ring is the list of its last samples\<close>

definition ring_ok :: "trend_ring \<Rightarrow> bool" where
  "ring_ok t \<longleftrightarrow> length (g_samples t) = trend_seconds \<and> unat (g_count t) \<le> trend_seconds
     \<and> - 1 \<le> g_newest t \<and> g_newest t < int trend_seconds \<and> (g_count t = 0 \<or> 0 \<le> g_newest t)"

definition ring_slot :: "trend_ring \<Rightarrow> nat \<Rightarrow> nat" where
  "ring_slot t age = nat ((g_newest t - int age) mod int trend_seconds)"

definition ring_list :: "trend_ring \<Rightarrow> u32 list" where
  "ring_list t = map (\<lambda>age. g_samples t ! ring_slot t age) [0..<unat (g_count t)]"

definition clamp32 :: "u64 \<Rightarrow> u32" where
  "clamp32 amount = ucast (min amount 0xFFFFFFFF)"

lemma trend_seconds_pos [simp]: "0 < trend_seconds"
  by (simp add: trend_seconds_def)

lemma ring_slot_less [simp]: "ring_slot t age < trend_seconds"
  by (simp add: ring_slot_def nat_less_iff)

lemma length_ring_list [simp]: "length (ring_list t) = unat (g_count t)"
  by (simp add: ring_list_def)

lemma ring_ok0 [simp]: "ring_ok trend_ring0" "ring_list trend_ring0 = []"
  by (simp_all add: ring_ok_def trend_ring0_def ring_list_def)

lemma ring_add_Ret:
  assumes "ring_ok t"
  obtains t' where "ring_add amount t = Ret t'" "ring_ok t'" "ring_list t' = take trend_seconds (clamp32 amount # ring_list t)"
proof -
  let ?n = "(g_newest t + 1) mod int trend_seconds"
  let ?c = "if unat (g_count t) < trend_seconds then g_count t + 1 else g_count t"
  let ?t = "t\<lparr>g_samples := (g_samples t)[nat ?n := clamp32 amount], g_newest := ?n, g_count := ?c\<rparr>"
  have n: "0 \<le> ?n" "?n < int trend_seconds" by simp_all
  have c: "unat ?c = min trend_seconds (Suc (unat (g_count t)))"
    using assms by (auto simp: ring_ok_def unat_word_ariths trend_seconds_def)
  have r: "ring_add amount t = Ret ?t"
    using assms n by (simp add: ring_add_def Let_def gput_int_in ring_ok_def clamp32_def nat_less_iff)
  have ok: "ring_ok ?t" using assms n c by (auto simp: ring_ok_def intro: order_trans [OF _ n(1)])
  have slot: "ring_slot ?t (Suc k) = ring_slot t k" for k
  proof -
    have "(?n - int (Suc k)) mod int trend_seconds = (g_newest t + 1 - int (Suc k)) mod int trend_seconds" by (rule mod_diff_left_eq)
    then show ?thesis by (simp add: ring_slot_def)
  qed
  have slot0: "ring_slot ?t 0 = nat ?n" by (simp add: ring_slot_def)
  have other: "ring_slot ?t (Suc k) \<noteq> nat ?n" if "Suc k < trend_seconds" for k
  proof
    assume "ring_slot ?t (Suc k) = nat ?n"
    then have "(?n - int (Suc k)) mod int trend_seconds = ?n mod int trend_seconds"
      using n by (simp add: ring_slot_def nat_eq_iff2 del: of_nat_Suc)
    then have "int trend_seconds dvd int (Suc k)" by (metis mod_eq_dvd_iff minus_diff_eq diff_diff_eq2 add_diff_cancel_left' dvd_minus_iff diff_add_cancel diff_minus_eq_add add_uminus_conv_diff)
    then show False using that by (metis dvd_imp_le of_nat_dvd_iff zero_less_Suc not_le)
  qed
  have "ring_list ?t = take trend_seconds (clamp32 amount # ring_list t)"
  proof (rule nth_equalityI)
    show "length (ring_list ?t) = length (take trend_seconds (clamp32 amount # ring_list t))" using c by simp
    fix i assume i: "i < length (ring_list ?t)"
    show "ring_list ?t ! i = take trend_seconds (clamp32 amount # ring_list t) ! i"
    proof (cases i)
      case 0
      then show ?thesis using i n assms slot0 by (simp add: ring_list_def ring_ok_def nat_less_iff del: trend_ring.simps) 
    next
      case (Suc k)
      then have "Suc k < trend_seconds" "k < unat (g_count t)" using i c by auto
      moreover have "nat ?n \<noteq> ring_slot t k" using other [of k] slot [of k] calculation(1) by simp
      ultimately show ?thesis using i c Suc slot [of k] by (simp add: ring_list_def)
    qed
  qed
  then show thesis using that r ok by blast
qed

lemma ring_at_list:
  assumes "ring_ok t"
  shows "ring_at t (int age) = Ret (if age < unat (g_count t) then Some (ring_list t ! age) else None)"
proof -
  have "(g_newest t - int age + int trend_seconds) mod int trend_seconds = (g_newest t - int age) mod int trend_seconds" by simp
  moreover have "nat ((g_newest t - int age) mod int trend_seconds) < trend_seconds" by (simp add: nat_less_iff)
  ultimately show ?thesis
    using assms by (simp add: ring_at_def gidx_int_in ring_ok_def ring_list_def ring_slot_def, unfold uint_nat, linarith)
qed

lemma ring_latest_list:
  assumes "ring_ok t"
  shows "ring_latest t = Ret (if ring_list t = [] then 0 else ucast (hd (ring_list t)))"
proof (cases "g_count t = 0")
  case False
  then have c: "0 < unat (g_count t)" by (simp add: unat_gt_0)
  then have "hd (ring_list t) = g_samples t ! ring_slot t 0" by (simp add: ring_list_def hd_conv_nth)
  moreover have "ring_slot t 0 = nat (g_newest t)" using assms False by (simp add: ring_slot_def ring_ok_def)
  ultimately show ?thesis using assms False c by (auto simp: ring_latest_def ring_ok_def gidx_int_in nat_less_iff simp flip: length_0_conv)
qed (simp add: ring_latest_def ring_list_def)

interpretation trend_log: bounded_log ring_add ring_list ring_ok trend_seconds clamp32
proof
  show "returns (ring_add a s) (\<lambda>s'. ring_ok s' \<and> ring_list s' = take trend_seconds (clamp32 a # ring_list s))" if "ring_ok s" for a s
    by (rule ring_add_Ret [OF that, of a]) (simp add: returns_def)
  show "length (ring_list s) \<le> trend_seconds" if "ring_ok s" for s
    using that by (simp add: ring_ok_def)
qed

section \<open>What a cell shows\<close>

text \<open>The rung of a sample: the eighth of the scale it reaches.\<close>

definition rung :: "u32 \<Rightarrow> u32 \<Rightarrow> nat" where
  "rung v peak = (if v = 0 \<or> peak = 0 then blank else spark_runes ! min 7 (unat v * 8 div (unat peak + 1)))"

lemma spark_rung_Ret: "spark_rung v peak = Ret (rung v peak)"
proof (cases "v = 0 \<or> peak = 0")
  case False
  have v: "unat v < 4294967296" "unat peak < 4294967296" by (rule unat_u32_less)+
  have a: "unat (ucast v * 8 :: u64) = unat v * 8" using v(1) by (simp add: unat_word_ariths unsigned_ucast_eq take_bit_nat_eq_self)
  have b: "unat (ucast peak + 1 :: u64) = unat peak + 1" using v(2) by (simp add: unat_word_ariths unsigned_ucast_eq take_bit_nat_eq_self)
  have c: "unat (ucast v * 8 div (ucast peak + 1) :: u64) = unat v * 8 div (unat peak + 1)" by (simp add: unat_div a b)
  have m: "unat (min r (7 :: u64)) = min (unat r) 7" for r :: u64 by (simp add: min_def word_le_nat_alt)
  show ?thesis using False by (simp add: spark_rung_def Let_def spark_runes_def c m rung_def min.commute gidx_in)
qed (auto simp: spark_rung_def rung_def)

lemma rune_cases:
  assumes "i < 8"
  shows "(spark_runes ! i = 0x2588 \<longleftrightarrow> i = 7) \<and> spark_runes ! i \<noteq> blank"
proof -
  have "i = 0 \<or> i = 1 \<or> i = 2 \<or> i = 3 \<or> i = 4 \<or> i = 5 \<or> i = 6 \<or> i = 7" using assms by linarith
  then show ?thesis by (elim disjE) (simp_all add: spark_runes_def blank_def)
qed

lemma min_7: "min 7 n < (8 :: nat)"
  by linarith

lemma rung_blank: "rung v peak = blank \<longleftrightarrow> v = 0 \<or> peak = 0"
  using rune_cases [OF min_7] by (simp add: rung_def)

lemma rung_top: "rung v v = 0x2588 \<longleftrightarrow> 7 \<le> unat v"
proof (cases "v = 0")
  case False
  have "min 7 (unat v * 8 div (unat v + 1)) = 7 \<longleftrightarrow> 7 * (unat v + 1) \<le> unat v * 8"
    using less_eq_div_iff_mult_less_eq [of "unat v + 1" 7 "unat v * 8"] by (simp add: min_def not_le) linarith
  then show ?thesis using False rune_cases [OF min_7, of "unat v * 8 div (unat v + 1)"] by (simp add: rung_def)
qed (simp add: rung_def blank_def)

text \<open>\<^verbatim>\<open>sparkn\<close>: the last samples, right-aligned; \<open>maximum\<close> is their scale.\<close>

definition maximum :: "u32 list \<Rightarrow> u32" where
  "maximum vs = fold max vs 0"

definition spark_line :: "nat \<Rightarrow> u32 list \<Rightarrow> nat list" where
  "spark_line width vs = replicate (width - length vs) blank @ rev (map (\<lambda>v. rung v (maximum vs)) vs)"

lemma map_nth_range: "length xs = unat n \<Longrightarrow> map (\<lambda>i. xs ! i) [0..<unat n] = xs"
  by (metis map_nth)

lemma ring_peak_Ret:
  assumes "ring_ok t" and "n \<le> unat (g_count t)"
  shows "ring_peak t [0..<n] 0 = Ret (maximum (take n (ring_list t)))"
proof -
  have "ring_peak t ages p = Ret (fold max (map (\<lambda>age. ring_list t ! age) ages) p)" if "\<forall>age \<in> set ages. age < unat (g_count t)" for ages p
    using that
  proof (induction ages arbitrary: p)
    case (Cons age ages)
    have "(if p < x then x else p) = max x p" for x :: u32 by (auto simp: max_def)
    then show ?case using Cons by (simp add: ring_at_list [OF assms(1)])
  qed simp
  moreover have "map (\<lambda>age. ring_list t ! age) [0..<n] = take n (ring_list t)"
    using assms(2) by (simp add: list_eq_iff_nth_eq)
  ultimately show ?thesis using assms(2) by (simp add: maximum_def)
qed

lemma spark_cells_Ret:
  assumes "ring_ok t" and "length cells = width" and "start + length vs \<le> width" and "start + length vs \<le> unat (g_count t)"
    and "vs = take (length vs) (drop start (ring_list t))" and "0 < width"
  shows "spark_cells t (int width) peak [start ..< start + length vs] cells
    = Ret (take (width - start - length vs) cells @ rev (map (\<lambda>v. rung v peak) vs) @ drop (width - start) cells)"
  using assms(2-5)
proof (induction vs arbitrary: start cells)
  case (Cons v vs)
  have s: "start < width" "start < unat (g_count t)" using Cons.prems by auto
  have v: "ring_list t ! start = v"
    using Cons.prems(4) s(2) by (metis Cons_nth_drop_Suc length_Cons length_ring_list list.inject take_Suc_Cons)
  have vs: "vs = take (length vs) (drop (Suc start) (ring_list t))"
    using Cons.prems(4) s(2) by (metis Cons_nth_drop_Suc length_Cons length_ring_list list.inject take_Suc_Cons)
  let ?p = "width - 1 - start"
  have p: "int width - 1 - int start = int ?p" "nat (int width - 1 - int start) = width - Suc start" "?p < width" using s(1) by auto
  have r: "[start ..< start + length (v # vs)] = start # [Suc start ..< Suc start + length vs]" using upt_conv_Cons [of start "start + length (v # vs)"] by simp
  have "spark_cells t (int width) peak [start ..< start + length (v # vs)] cells
      = spark_cells t (int width) peak [Suc start ..< Suc start + length vs] (cells[?p := rung v peak])"
    unfolding r using Cons.prems(1) p s by (simp add: ring_at_list [OF assms(1)] v spark_rung_Ret gput_int_in Let_def)
  also have "\<dots> = Ret (take (width - Suc start - length vs) (cells[?p := rung v peak]) @ rev (map (\<lambda>v. rung v peak) vs)
      @ drop (width - Suc start) (cells[?p := rung v peak]))"
    using Cons.prems vs by (intro Cons.IH) auto
  also have "drop (width - Suc start) (cells[?p := rung v peak]) = rung v peak # drop (width - start) cells"
    using Cons.prems(1) p s(1) using Cons_nth_drop_Suc [of ?p cells] by (simp add: drop_update_swap Suc_diff_Suc flip: Cons_nth_drop_Suc)
  also have "take (width - Suc start - length vs) (cells[?p := rung v peak]) = take (width - start - length (v # vs)) cells"
    using Cons.prems(2) by (simp add: take_update_swap list_update_beyond)
  finally show ?case by simp
qed (simp)

lemma maximum_0: "maximum vs = 0 \<longleftrightarrow> list_all (\<lambda>v. v = 0) vs"
proof -
  have "fold max vs m = 0 \<longleftrightarrow> m = 0 \<and> list_all (\<lambda>v. v = 0) vs" for m :: u32
  proof (induction vs arbitrary: m)
    case (Cons v vs)
    have "max v m = 0 \<longleftrightarrow> v = 0 \<and> m = 0" by (metis max.absorb1 max.cobounded1 max.cobounded2 word_le_0_iff max.idem)
    then show ?case using Cons by auto
  qed simp
  then show ?thesis by (simp add: maximum_def)
qed

lemma spark_line_blank: "list_all (\<lambda>v. v = 0) vs \<Longrightarrow> length vs \<le> width \<Longrightarrow> spark_line width vs = replicate width blank"
  by (auto simp: spark_line_def list_all_iff rung_def map_replicate_const replicate_add [symmetric] cong: map_cong)

lemma sparkn_Ret:
  assumes "ring_ok t"
  shows "sparkn_cells t width = Ret (spark_line (nat width) (take (nat width) (ring_list t)))"
proof (cases "width \<le> 0 \<or> g_count t = 0")
  case True
  then show ?thesis by (auto simp: sparkn_cells_def spark_line_def ring_list_def)
next
  case False
  define w where "w = nat width"
  define n where "n = min w (unat (g_count t))"
  have w: "width = int w" "0 < w" using False by (auto simp: w_def)
  have "min (int w) (int (unat (g_count t))) = int n" unfolding n_def by (rule of_nat_min [symmetric])
  then have shown: "nat (min width (int (unat (g_count t)))) = n" using w(1) by (metis nat_int)
  have vs: "take w (ring_list t) = take n (ring_list t)" by (simp add: n_def min_def)
  have len: "length (take n (ring_list t)) = n" by (simp add: n_def)
  have peak: "ring_peak t [0..<n] 0 = Ret (maximum (take n (ring_list t)))"
    using ring_peak_Ret [OF assms, of n] by (simp add: n_def)
  have cells: "spark_cells t (int w) p [0..<n] (replicate w blank)
      = Ret (replicate (w - n) blank @ rev (map (\<lambda>v. rung v p) (take n (ring_list t))))" for p
    using spark_cells_Ret [OF assms, of "replicate w blank" w 0 "take n (ring_list t)" p] w(2) by (simp add: n_def)
  have shown': "nat (min (int w) (uint (g_count t))) = n" using shown w(1) by simp
  have blanks: "spark_line w (take n (ring_list t)) = replicate w blank" if "maximum (take n (ring_list t)) = 0"
    using that spark_line_blank [of "take n (ring_list t)" w] by (simp add: maximum_0 n_def)
  have m: "min (unat (g_count t)) n = n" by (simp add: n_def)
  have "sparkn_cells t (int w) = Ret (spark_line w (take n (ring_list t)))"
    using False w(2) blanks by (simp add: sparkn_cells_def w(1) shown' peak cells Let_def spark_line_def m)
  then show ?thesis by (simp add: w(1) vs)
qed

text \<open>\<^verbatim>\<open>sparkWindow\<close>: each cell shows the largest of the samples that fall into it.\<close>

definition window_cell :: "nat \<Rightarrow> nat \<Rightarrow> nat \<Rightarrow> nat" where
  "window_cell width seconds age = width - 1 - age * width div seconds"

definition bucket :: "nat \<Rightarrow> u32 list \<Rightarrow> nat \<Rightarrow> u32 list" where
  "bucket width vs i = map (\<lambda>age. vs ! age) (filter (\<lambda>age. window_cell width (length vs) age = i) [0..<length vs])"

definition window_line :: "nat \<Rightarrow> u32 list \<Rightarrow> nat list" where
  "window_line width vs = map (\<lambda>i. rung (maximum (bucket width vs i)) (maximum vs)) [0..<width]"

lemma rung_cells_Ret: "rung_cells vs p = Ret (map (\<lambda>v. rung v p) vs)"
  by (induction vs) (simp_all add: spark_rung_Ret)

lemma window_cell_int:
  assumes "0 < width" and "age < seconds"
  shows "int width - 1 - int age * int width div int seconds = int (window_cell width seconds age)" and "window_cell width seconds age < width"
proof -
  have "age * width div seconds < width" using assms by (simp add: div_less_iff_less_mult mult.commute)
  then show "int width - 1 - int age * int width div int seconds = int (window_cell width seconds age)"
    by (simp add: window_cell_def of_nat_diff flip: of_nat_mult of_nat_div)
  show "window_cell width seconds age < width" using assms(1) by (simp add: window_cell_def)
qed

lemma bucket_maxima_Ret:
  assumes "ring_ok t" and "0 < width" and "seconds \<le> unat (g_count t)"
    and "\<forall>age \<in> set ages. age < seconds" and "length maxima = width"
  shows "bucket_maxima t (int width) (int seconds) ages maxima p
    = Ret (map (\<lambda>i. fold max (map (\<lambda>age. ring_list t ! age) (filter (\<lambda>age. window_cell width seconds age = i) ages)) (maxima ! i)) [0..<width],
        fold max (map (\<lambda>age. ring_list t ! age) ages) p)"
  using assms(4,5)
proof (induction ages arbitrary: maxima p)
  case Nil
  then show ?case by (simp add: list_eq_iff_nth_eq)
next
  case (Cons age ages)
  have age: "age < seconds" "age < unat (g_count t)" using Cons.prems(1) assms(3) by auto
  let ?cell = "window_cell width seconds age" and ?v = "ring_list t ! age"
  note cell = window_cell_int [OF assms(2) age(1)]
  have m: "(if a < b then b else a) = max b a" for a b :: u32 by (auto simp: max_def)
  have put: "(if maxima ! ?cell < ?v then gput_int maxima (int ?cell) ?v else Ret maxima) = Ret (maxima[?cell := max ?v (maxima ! ?cell)])"
    using cell(2) Cons.prems(2) by (auto simp: gput_int_in max_def)
  have "bucket_maxima t (int width) (int seconds) (age # ages) maxima p
      = bucket_maxima t (int width) (int seconds) ages (maxima[?cell := max ?v (maxima ! ?cell)]) (max ?v p)"
    using cell(2) Cons.prems(2) age(2) by (simp add: ring_at_list [OF assms(1)] cell(1) gidx_int_in put m Let_def)
  also have "\<dots> = Ret (map (\<lambda>i. fold max (map (\<lambda>age. ring_list t ! age) (filter (\<lambda>age. window_cell width seconds age = i) ages))
        (maxima[?cell := max ?v (maxima ! ?cell)] ! i)) [0..<width],
        fold max (map (\<lambda>age. ring_list t ! age) ages) (max ?v p))"
    using Cons by simp
  finally show ?case using Cons.prems(2) by (auto simp: nth_list_update intro!: map_cong)
qed

lemma window_Ret:
  assumes "ring_ok t"
  shows "window_cells t seconds width = Ret (if width \<le> 0 \<or> seconds \<le> 0 then [] else window_line (nat width) (take (nat seconds) (ring_list t)))"
proof (cases "width \<le> 0 \<or> seconds \<le> 0 \<or> g_count t = 0")
  case True
  have "ring_list t = []" if "g_count t = 0" using that by (simp add: ring_list_def)
  then show ?thesis using True
    by (auto simp: window_cells_def window_line_def bucket_def maximum_def rung_def map_replicate_const)
next
  case False
  define w where "w = nat width"
  define n where "n = min (nat seconds) (unat (g_count t))"
  have w: "width = int w" "0 < w" using False by (auto simp: w_def)
  have u: "uint (g_count t) = int (unat (g_count t))" by simp
  have c: "0 < unat (g_count t)" using False by (simp add: unat_gt_0)
  have "(if int m < seconds then int m else seconds) = int (min (nat seconds) m)" for m using False by (auto simp: min_def)
  then have n: "(if int (unat (g_count t)) < seconds then int (unat (g_count t)) else seconds) = int n" unfolding n_def .
  have n_le: "n \<le> unat (g_count t)" "0 < n" using False c by (simp_all add: n_def)
  have vs: "take (nat seconds) (ring_list t) = take n (ring_list t)" by (simp add: n_def min_def)
  have len: "length (take n (ring_list t)) = n" using n_le(1) by simp
  have nth: "map (\<lambda>age. ring_list t ! age) ages = map (\<lambda>age. take n (ring_list t) ! age) ages" if "\<forall>age \<in> set ages. age < n" for ages
    using that by simp
  have "map (\<lambda>age. ring_list t ! age) [0..<n] = take n (ring_list t)" using n_le(1) by (simp add: list_eq_iff_nth_eq)
  then have "bucket_maxima t (int w) (int n) [0..<n] (replicate w 0) 0
      = Ret (map (\<lambda>i. maximum (bucket w (take n (ring_list t)) i)) [0..<w], maximum (take n (ring_list t)))"
    using bucket_maxima_Ret [OF assms w(2) n_le(1), of "[0..<n]" "replicate w 0" 0] len
    by (simp add: bucket_def maximum_def nth cong: map_cong)
  moreover have "replicate w blank = window_line w (take n (ring_list t))" if "maximum (take n (ring_list t)) = 0"
    using that by (simp add: window_line_def rung_def map_replicate_const)
  ultimately have "window_cells t seconds (int w) = Ret (window_line w (take n (ring_list t)))"
    unfolding window_cells_def Let_def n using False w(2) by (simp add: rung_cells_Ret window_line_def comp_def)
  then show ?thesis using False by (simp add: w(1) vs)
qed

section \<open>The store is bounded\<close>

definition trend_ok :: "trend_store \<Rightarrow> bool" where
  "trend_ok s \<longleftrightarrow> map_ok trend_rows (\<lambda>identity r. identity \<noteq> [] \<and> ring_ok r) (x_rings s)
     \<and> distinct (map fst (x_unused s)) \<and> fst ` set (x_unused s) \<subseteq> fst ` set (x_rings s)"

lemma trend_ok_new [simp]: "trend_ok new_trend_store"
  by (simp add: trend_ok_def new_trend_store_def)

lemma oldest_unused_in:
  assumes "unused \<noteq> []"
  shows "snd (oldest_unused unused) \<in> fst ` set unused"
proof -
  let ?f = "\<lambda>(identity, since) (when, oldest). if when = None \<or> time_before since when then (since, identity) else (when, oldest)"
  have "snd (fold ?f xs acc) \<in> insert (snd acc) (fst ` set xs)" for xs :: "(bytes \<times> gotime) list" and acc :: "gotime \<times> bytes"
  proof (induction xs arbitrary: acc)
    case (Cons x xs)
    have "snd (?f x acc) \<in> {snd acc, fst x}" by (auto split: prod.splits)
    then show ?case using Cons [of "?f x acc"] by auto
  qed simp
  note all = this
  obtain identity since xs where u: "unused = (identity, since) # xs" using assms by (cases unused) auto
  show ?thesis using all [of xs "(since, identity)"] by (auto simp: oldest_unused_def u)
qed

text \<open>The row that is dropped has been unused for the longest time.\<close>

lemma oldest_unused_first:
  assumes "list_all (\<lambda>(_, since). since \<noteq> None) unused" and "unused \<noteq> []"
  shows "\<exists>since. (snd (oldest_unused unused), since) \<in> set unused \<and> (\<forall>(_, other) \<in> set unused. \<not> time_before other since)"
proof -
  let ?f = "\<lambda>(identity, since) (when, oldest). if when = None \<or> time_before since when then (since, identity) else (when, oldest)"
  define inv where "inv seen acc \<longleftrightarrow> (case acc of (when, oldest) \<Rightarrow> (oldest, when) \<in> set seen \<and> when \<noteq> None
      \<and> (\<forall>(_, other) \<in> set seen. \<not> time_before other when))" for seen :: "(bytes \<times> gotime) list" and acc :: "gotime \<times> bytes"
  have step: "inv (x # seen) (?f x acc)" if "inv seen acc" "snd x \<noteq> None" for x seen acc
    using that by (cases x; cases acc) (auto simp: inv_def intro: time_before_trans)
  have "inv (rev xs @ seen) (fold ?f xs acc)" if "inv seen acc" "list_all (\<lambda>(_, since). since \<noteq> None) xs" for xs seen acc
    using that
  proof (induction xs arbitrary: seen acc)
    case (Cons x xs)
    then show ?case using Cons.IH [OF step [OF Cons.prems(1), of x]] by (auto split: prod.splits)
  qed simp
  moreover obtain identity since xs where u: "unused = (identity, since) # xs" using assms(2) by (cases unused) auto
  moreover have "inv [(identity, since)] (since, identity)" using assms(1) by (simp add: inv_def u)
  ultimately have "inv (rev xs @ [(identity, since)]) (oldest_unused unused)" using assms(1) by (auto simp: oldest_unused_def)
  then show ?thesis by (auto simp: inv_def u split: prod.splits)
qed

lemma evict_oldest_ok:
  assumes "trend_ok s" and "x_rings s \<noteq> []"
  shows "trend_ok (evict_oldest \<rho> s) \<and> length (x_rings (evict_oldest \<rho> s)) < length (x_rings s)"
proof -
  define found where "found = snd (oldest_unused (ranged \<rho> (x_unused s)))"
  define oldest where "oldest = (if found = [] then (case ranged \<rho> (x_rings s) of [] \<Rightarrow> [] | (identity, _) # _ \<Rightarrow> identity) else found)"
  have e: "evict_oldest \<rho> s = s\<lparr>x_unused := AList.delete oldest (x_unused s), x_rings := AList.delete oldest (x_rings s)\<rparr>"
    by (simp add: evict_oldest_def found_def oldest_def Let_def)
  have unused: "found \<in> fst ` set (x_unused s)" if "x_unused s \<noteq> []"
    using oldest_unused_in [of "ranged \<rho> (x_unused s)"] that by (simp add: found_def)
  have "oldest \<in> fst ` set (x_rings s)"
  proof (cases "found = []")
    case True
    obtain x xs where x: "ranged \<rho> (x_rings s) = x # xs" using assms(2) by (metis list.exhaust ranged_eq_Nil)
    then have "x \<in> set (x_rings s)" by (metis list.set_intros(1) set_ranged)
    moreover have "oldest = fst x" using x True by (simp add: oldest_def split: prod.splits)
    ultimately show ?thesis by simp
  next
    case False
    then have "x_unused s \<noteq> []" by (auto simp: found_def oldest_unused_def)
    then show ?thesis using unused assms(1) False by (auto simp: oldest_def trend_ok_def)
  qed
  moreover have d: "distinct (map fst (x_rings s))" "distinct (map fst (x_unused s))" using assms(1) by (simp_all add: trend_ok_def map_ok_def)
  ultimately show ?thesis
    using assms length_delete_in [OF d(1), of oldest]
    by (auto simp: e trend_ok_def map_ok_delete delete_keys distinct_delete)
qed

lemma trend_add_ok:
  assumes "trend_ok s"
  shows "returns (trend_add \<rho> identity amount s) (\<lambda>s'. trend_ok s' \<and> x_now s' = x_now s \<and>
    (identity \<noteq> [] \<longrightarrow> (\<exists>r. trend_ring_of s' identity = Some r \<and>
       ring_list r = take trend_seconds (clamp32 amount # (case trend_ring_of s identity of None \<Rightarrow> [] | Some r0 \<Rightarrow> ring_list r0)))))"
proof (cases "identity = []")
  case False
  let ?s = "s\<lparr>x_unused := AList.delete identity (x_unused s)\<rparr>"
  have s: "trend_ok ?s" using assms by (auto simp: trend_ok_def delete_keys distinct_delete)
  have put: "trend_ok (s1\<lparr>x_rings := AList.update identity r (x_rings s1)\<rparr>)"
    if "trend_ok s1" "ring_ok r" "map_of (x_rings s1) identity \<noteq> None \<or> length (x_rings s1) < trend_rows" for s1 r
    using that False map_ok_put [of trend_rows "\<lambda>identity r. identity \<noteq> [] \<and> ring_ok r" "x_rings s1" identity r]
    by (auto simp: trend_ok_def dom_update [symmetric] dom_map_of_conv_image_fst [symmetric] update_conv')
  show ?thesis
  proof (cases "map_of (x_rings s) identity")
    case (Some r)
    then have "ring_ok r" using assms by (auto simp: trend_ok_def dest: map_ok_get)
    then obtain r' where r': "ring_add amount r = Ret r'" "ring_ok r'" "ring_list r' = take trend_seconds (clamp32 amount # ring_list r)"
      by (rule ring_add_Ret)
    then show ?thesis using False Some put [OF s r'(2)] by (auto simp: trend_add_def trend_ring_of_def update_conv')
  next
    case None
    let ?s1 = "if trend_rows \<le> length (x_rings ?s) then evict_oldest \<rho> ?s else ?s"
    obtain r' where r': "ring_add amount trend_ring0 = Ret r'" "ring_ok r'" "ring_list r' = take trend_seconds [clamp32 amount]"
      using ring_add_Ret [OF ring_ok0(1)] by (metis ring_ok0(2))
    have "x_rings ?s \<noteq> []" if "trend_rows \<le> length (x_rings ?s)" using that by (auto simp: trend_rows_def)
    then have "trend_ok ?s1" "length (x_rings ?s1) < trend_rows"
      using s evict_oldest_ok [OF s, of \<rho>] by (auto simp: trend_ok_def map_ok_def not_le)
    then have "trend_ok (?s1\<lparr>x_rings := AList.update identity r' (x_rings ?s1)\<rparr>)" using put r'(2) by blast
    moreover have "x_now ?s1 = x_now s" by (simp add: evict_oldest_def Let_def)
    ultimately show ?thesis using False None r' by (simp add: trend_add_def trend_ring_of_def update_conv' Let_def)
  qed
qed (use assms in \<open>simp add: trend_add_def\<close>)

lemma mark_unused_ok: "trend_ok s \<Longrightarrow> trend_ok (mark_unused identity s)"
  by (auto simp: mark_unused_def trend_ok_def distinct_update dom_update [symmetric] dom_map_of_conv_image_fst [symmetric] update_conv'
      split: option.splits)

lemma keys_filter: "fst ` {x \<in> m. fst x \<notin> gone} = fst ` m - gone"
  by force

lemma trend_evict_ok: "trend_ok s \<Longrightarrow> trend_ok (trend_evict s)"
  by (auto simp: trend_evict_def trend_ok_def Let_def map_ok_def list_all_iff distinct_map_filter keys_filter
      intro: order_trans [OF length_filter_le])

lemma trend_add_all_ok: "trend_ok s \<Longrightarrow> returns (trend_add_all \<rho> rows s) trend_ok"
proof (induction rows arbitrary: s)
  case (Cons row rows)
  obtain identity rate where row: "row = (identity, rate)" by (cases row)
  show ?case unfolding row trend_add_all.simps
    by (rule returns_bind [OF trend_add_ok [OF Cons.prems]]) (simp add: Cons.IH)
qed simp

lemma sample_trends_ok:
  assumes "trend_ok s"
  shows "returns (sample_trends \<rho> now rows s) trend_ok"
proof -
  have mark: "trend_ok s' \<Longrightarrow> trend_ok (mark_absent seen s')" for seen s'
  proof -
    have "trend_ok s' \<Longrightarrow> trend_ok (fold (\<lambda>(identity, r) s. if map_of seen identity = None then mark_unused identity s else s) xs s')" for xs
      by (induction xs arbitrary: s') (auto simp: mark_unused_ok)
    then show "trend_ok s' \<Longrightarrow> trend_ok (mark_absent seen s')" by (simp add: mark_absent_def)
  qed
  have seen: "trend_ok (s1\<lparr>x_seen_rates := seen\<rparr>) = trend_ok s1" for s1 seen by (simp add: trend_ok_def)
  have "trend_ok (trend_tick now s)" using assms by (simp add: trend_tick_def trend_ok_def)
  then show ?thesis unfolding sample_trends_def Let_def
    by (rule returns_bind [OF trend_add_all_ok]) (simp add: trend_evict_ok mark seen)
qed

end
