(* ===== verification/Spec2Isabelle.thy ===== *)
theory Spec2Isabelle imports Chunk_Line Fragments Host_Run Pcapng Stream_Gap Trend begin

text \<open>
  \<^bold>\<open>What is verified.\<close> socktrail (Go, module under \<^verbatim>\<open>src\<close>) captures the
  packets of the interfaces of a Linux host, assigns them to flows, names the flows by what their plaintext says (HTTP,
  TLS, QUIC, DNS, proxies), takes what eBPF probes say of the sockets, and shows, streams and records the connections.
  Everything on the wire comes from a peer that is not trusted, and nothing in the program recovers from a panic. This
  library models the path from a frame to the connection on display, and proves that it computes what it promises,
  within its bounds, or where it does not.

  \<^bold>\<open>The parts and how they interact.\<close> \<^verbatim>\<open>capture.Decode\<close> turns a frame into a
  packet; \<^verbatim>\<open>collector.packetAt\<close> finds its flow and feeds the parsers of the flow
  (\<^verbatim>\<open>domain.Stream\<close> for TCP, \<^verbatim>\<open>quicinitial.Tracker\<close> for QUIC,
  \<^verbatim>\<open>appproto\<close> for the rest) and the DNS cache; \<^verbatim>\<open>collector.eventAt\<close> and
  its kin apply the events of the probes to the same table; \<^verbatim>\<open>collector.expire\<close> runs once a
  second; \<^verbatim>\<open>hostViewState\<close> merges the tables of all interfaces into connections, numbers them,
  and \<^verbatim>\<open>detectChanges\<close> says what a consumer of the live stream is told;
  \<^verbatim>\<open>trendStore\<close> samples the rows; \<^verbatim>\<open>frameHistory\<close> and
  \<^verbatim>\<open>pcapng\<close> make the recordings.

  \<^bold>\<open>The theories.\<close> Each opens with the files it models and what its lemmas show; definitions keep
  the names of the source, in the order of the source.
    \<^item> Shared: \<^verbatim>\<open>Prelude\<close> (bytes, words, the result type \<open>go\<close> of a Go
      function, checked indexing and slicing), \<^verbatim>\<open>GoText\<close> (the text and address functions of the
      standard library), \<^verbatim>\<open>Wire\<close> (fields at offsets), \<^verbatim>\<open>Go_Map\<close> and
      \<^verbatim>\<open>Go_Store\<close> (maps, arrays, iteration orders), \<^verbatim>\<open>Segments\<close> (waiting
      TCP segments, 32-bit distances).
    \<^item> \<^verbatim>\<open>internal/capture\<close>: \<^verbatim>\<open>Packet\<close>
      (\<^verbatim>\<open>packet.go\<close>).
    \<^item> \<^verbatim>\<open>internal/domain\<close>: \<^verbatim>\<open>Names\<close>,
      \<^verbatim>\<open>Evidence\<close>, \<^verbatim>\<open>Sniff\<close>, \<^verbatim>\<open>Parser\<close> and
      \<^verbatim>\<open>Stream\<close> (\<^verbatim>\<open>stream.go\<close>, \<^verbatim>\<open>quic.go\<close>),
      \<^verbatim>\<open>Tls_Hello\<close> and \<^verbatim>\<open>Tls_Parser\<close>
      (\<^verbatim>\<open>tls.go\<close>), \<^verbatim>\<open>Ja4\<close> (\<^verbatim>\<open>ja4.go\<close>),
      \<^verbatim>\<open>Http_Parser\<close> (\<^verbatim>\<open>http.go\<close>),
      \<^verbatim>\<open>Http2_Parser\<close> (\<^verbatim>\<open>http2.go\<close>), \<^verbatim>\<open>Upgrade\<close>
      (\<^verbatim>\<open>upgrade.go\<close>), \<^verbatim>\<open>Server_Hello\<close> and
      \<^verbatim>\<open>Server_Flight\<close> (\<^verbatim>\<open>tls_server.go\<close>),
      \<^verbatim>\<open>Dns\<close> (\<^verbatim>\<open>dns.go\<close>); \<^verbatim>\<open>Stream_Gap\<close> (how a
      stream with a lost byte times out) and \<^verbatim>\<open>Chunk_Line\<close> (a limit of \<^verbatim>\<open>http.go\<close>
      that depends on the division) are lemmas only.
    \<^item> \<^verbatim>\<open>internal/quicinitial\<close>: \<^verbatim>\<open>Quic_Initial\<close>.
      \<^verbatim>\<open>internal/appproto\<close>: \<^verbatim>\<open>App_Proto\<close>.
      \<^verbatim>\<open>internal/pcapng\<close>: \<^verbatim>\<open>Pcapng\<close>.
    \<^item> \<^verbatim>\<open>internal/app\<close>, a flow: \<^verbatim>\<open>Flow_Key\<close>,
      \<^verbatim>\<open>Flow\<close> (\<^verbatim>\<open>app_linux.go\<close>, \<^verbatim>\<open>l2.go\<close>,
      \<^verbatim>\<open>interfaces_linux.go\<close>), \<^verbatim>\<open>Tcp_Health\<close>
      (\<^verbatim>\<open>tcp_health.go\<close>), \<^verbatim>\<open>Dns_State\<close>
      (\<^verbatim>\<open>appdetail.go\<close>), \<^verbatim>\<open>Attempts\<close>
      (\<^verbatim>\<open>attempts.go\<close>).
    \<^item> \<^verbatim>\<open>internal/app\<close>, the flow table: \<^verbatim>\<open>Collector\<close> (state and
      shared operations, with \<^verbatim>\<open>nat_linux.go\<close>), \<^verbatim>\<open>Collect_Packet\<close>
      (\<^verbatim>\<open>packetAt\<close>, \<^verbatim>\<open>icmp.go\<close>),
      \<^verbatim>\<open>Collect_Event\<close> (\<^verbatim>\<open>eventAt\<close>, \<^verbatim>\<open>tlsEvent\<close>,
      \<^verbatim>\<open>expire\<close>, \<^verbatim>\<open>connect_result.go\<close>,
      \<^verbatim>\<open>drops_linux.go\<close>), \<^verbatim>\<open>Collect_Socket\<close>
      (\<^verbatim>\<open>socket_streams.go\<close>, \<^verbatim>\<open>procnet_linux.go\<close>),
      \<^verbatim>\<open>Flow_Table\<close>, \<^verbatim>\<open>Flow_Invariant\<close> and
      \<^verbatim>\<open>Collector_Run\<close> (its invariant over any run of the operations),
      \<^verbatim>\<open>Fragments\<close> (the fragments of a datagram are counted together).
    \<^item> \<^verbatim>\<open>internal/app\<close>, the host: \<^verbatim>\<open>Host_View\<close> and
      \<^verbatim>\<open>Host_State\<close> (\<^verbatim>\<open>host_view_linux.go\<close>),
      \<^verbatim>\<open>Changes\<close> (\<^verbatim>\<open>changes.go\<close>), \<^verbatim>\<open>Trend\<close>
      (\<^verbatim>\<open>trend.go\<close>), \<^verbatim>\<open>Frame_History\<close>
      (\<^verbatim>\<open>capture_session.go\<close>).
    \<^item> \<^verbatim>\<open>Demo\<close> and \<^verbatim>\<open>Host_Run\<close>: concrete inputs for the witnesses;
      \<^verbatim>\<open>Host_Run\<close> also has the runs of the frame history.

  \<^bold>\<open>How Go is modelled.\<close> A struct is a record with its fields in order, a byte slice or a string a
  list of bytes, a fixed-width integer a word, \<^verbatim>\<open>int\<close> and durations an \<open>int\<close> where
  the values stay far from 63 bits, a time the nanoseconds on one clock (\<open>None\<close> is the zero time where the
  code tests for it). A function that can fail or panic returns \<open>Ret\<close>, \<open>Fail\<close> or
  \<open>Panic\<close>; every index and slice of the source is a checked one. A map is an association list with distinct
  keys, and where the order of a \<^verbatim>\<open>range\<close> can matter the order is a parameter
  (\<open>\<rho>\<close>, \<open>\<kappa>\<close>, \<open>\<omega>\<close>, or a field of \<open>ambient\<close> and
  \<open>view_orders\<close>): the theorems hold for every order. Pointers that are shared are numbers into an explicit
  heap: \<open>st_at\<close> for streams, \<open>co_flow\<close> for flows, \<open>co_sockets\<close> and
  \<open>so_at\<close> for socket streams, \<open>nt_at\<close> for NAT entries, \<open>hv_flow\<close> for the flows on
  display; a pointer with one owner is an \<open>option\<close>. A loop is structural recursion, a fold, or a function
  with a measure: nothing runs on fuel. Where a loop of the source could turn without progress the definition gives
  \<open>Panic\<close> there, so the lemmas that it returns also show that it ends.

  \<^bold>\<open>Parameters.\<close> What is not in the repository is an argument: the Unicode tables,
  \<^verbatim>\<open>fmt\<close>'s quoting, SHA-256 and the HPACK decoder (\<open>env\<close>), HKDF, AES and AES-GCM
  (\<open>quic_crypto\<close>), the string hash of \<^verbatim>\<open>hash/maphash\<close>, the
  \<^verbatim>\<open>io.Writer\<close> of a recording, the owner of a socket as \<^verbatim>\<open>/proc\<close> tells
  it (\<open>iv_owner\<close>), and the clock. No theorem assumes anything of them but \<open>unicode_upper\<close>
  (ASCII letters map as in ASCII, the replacement character has no upper case), and each such theorem has a witness with
  a concrete environment.

  \<^bold>\<open>What the groups of lemmas show.\<close> Robustness: no frame, DNS message, payload, QUIC datagram,
  certificate or recording panics its reader, and where a panic is possible (a sequence number exactly \<open>2 ^
  31\<close> away, an upgrade command behind bytes that are not UTF-8) the theorems give the input. Reassembly: whatever
  the order, overlap and repetition of TCP segments and QUIC fragments, the parsers are fed a prefix of what the client
  sent, each byte once, and a byte that never comes ends the stream in time; what a parser takes in pieces without an
  error it takes alike in one (locale \<open>segmented\<close>, interpreted
  for HTTP, HTTP/2 and TLS). Round trips: DNS, IPv4 with UDP, DER, packet numbers, recordings. Bounds: buffers, caches,
  rings and tables (locale \<open>bounded_log\<close>, interpreted for the trend rings and the retransmission ranges).
  The flow table: its invariant and the balance of its bytes over any run of its operations
  (\<open>collector_step\<close>), room for new flows, the joining and counting of fragments. The host view: grouping and merging of
  observations, remembered flows that are never written again, and the lives that the reports of changes read as.

  \<^bold>\<open>Bounds.\<close> The segment theorems need segments below \<open>2 ^ 30\<close> bytes and streams below
  \<open>2 ^ 30\<close> bytes, so that the signed distance of two positions is their difference; a captured payload has
  at most 16 KiB. The parsers take any length.

  \<^bold>\<open>Not modelled.\<close> The command line, the main loop and its goroutines, the terminal interface, the
  JSON and message-pack encoders and their sockets, and what reads \<^verbatim>\<open>/proc\<close>, netlink, files and
  eBPF maps: input and output around the models. The display filter, GeoIP and the process table only read flows.
  Between \<^verbatim>\<open>collect\<close> and \<^verbatim>\<open>updateAt\<close> the main loop also names flows by
  the DNS queries of their process (\<^verbatim>\<open>dns_process.go\<close>), which writes no remembered flow and is
  left out of \<open>tick_view\<close>. The names a flow has are those its streams have; what a PROXY header or an HTTP
  request claims is not checked by the program and so by no theorem.
\<close>

section \<open>Properties\<close>

text \<open>
  C1. Whatever the order, overlap, repetition and iteration order of the segments of a client stream B, a connection
  that did not fail has fed its parser pieces whose concatenation is a prefix of B: every byte at most once and in
  order. Its parser is what those pieces make of a fresh parser.
\<close>

theorem stream_reassembly:
  assumes "stream_adds \<Gamma> (new_stream now isn) xs = Ret s" and "\<forall>a \<in> set xs. arrives isn B a" and "length B < 2 ^ 30"
  shows "r_failed s \<or> (\<exists>j chunks er. concat chunks = take j B \<and> feed_all (parser_feed \<Gamma>) parser0 chunks = Ret (r_parser s, er))"
  using stream_adds_new [OF assms] by (auto simp: fed_def fed_prefix_def)

lemma stream_reassembly_witness:
  "\<exists>j chunks er. concat chunks = take j demo_bytes \<and> feed_all (parser_feed demo_env) parser0 chunks = Ret (r_parser demo_stream, er)"
  using stream_reassembly [OF demo_run demo_arrives] demo_running by simp

text \<open>
  C2. Once every byte of the client stream B lies in some segment that arrived, a connection that neither failed nor
  finished early has fed its parser all of B: no gap is forgotten and no waiting segment is lost.
\<close>

theorem stream_complete:
  assumes "stream_adds \<Gamma> (new_stream now isn) xs = Ret s" and "\<forall>a \<in> set xs. arrives isn B a" and "length B < 2 ^ 30"
    and "\<forall>p < length B. \<exists>(i, n) \<in> offsets isn B xs. i \<le> p \<and> p < i + n"
    and "\<not> r_failed s" and "\<not> parser_finished (r_parser s)"
  shows "\<exists>chunks. concat chunks = B \<and> feed_all (parser_feed \<Gamma>) parser0 chunks = Ret (r_parser s, None)"
  by (rule stream_adds_complete [OF assms])

lemma stream_complete_witness:
  "\<exists>chunks. concat chunks = demo_bytes \<and> feed_all (parser_feed demo_env) parser0 chunks = Ret (r_parser demo_stream, None)"
  by (rule stream_complete [OF demo_run demo_arrives _ demo_covered demo_running]) simp

text \<open>
  C3. Adding a segment of fewer than 2^30 bytes to a stream in its invariant, at any sequence distance but the most
  negative one, either returns a stream that again is in the invariant (at most 64 pending parts and 64 KiB, their
  total equal to the counter, every waiting part behind a gap), or panics in the search for an upgrade command of a
  connection whose protocol is not settled yet.
\<close>

theorem stream_add_bounded:
  assumes "stream_ok s" and "length b < 2 ^ 30" and "seq_diff sq (r_expected s) \<noteq> - (2 ^ 31)"
  shows "(\<exists>s'. stream_add \<Gamma> \<rho> now s sq b = Ret s' \<and> stream_ok s' \<and> length (r_pending s') \<le> 64
      \<and> r_pending_bytes s' = int (pend_bytes (r_pending s')) \<and> pend_bytes (r_pending s') \<le> 65536)
    \<or> stream_add \<Gamma> \<rho> now s sq b = Panic \<and> stream_risk s"
  using stream_add_runs [OF assms(1,2), of sq \<Gamma> \<rho> now] assms(3)
  by (auto simp: runs_def returns_def stream_ok_def stream_mid_def buffer_ok_def max_pending_parts_def max_pending_bytes_def)

lemma stream_add_bounded_witness:
  "(\<exists>s'. stream_add demo_env (\<lambda>_ _. 0) 1 (new_stream 0 1000) 1002 (lit ''cde'') = Ret s' \<and> stream_ok s' \<and> length (r_pending s') \<le> 64
      \<and> r_pending_bytes s' = int (pend_bytes (r_pending s')) \<and> pend_bytes (r_pending s') \<le> 65536)
    \<or> stream_add demo_env (\<lambda>_ _. 0) 1 (new_stream 0 1000) 1002 (lit ''cde'') = Panic \<and> stream_risk (new_stream 0 1000)"
  by (rule stream_add_bounded [OF stream_ok_new]) (simp_all add: lit_def new_stream_def stream0_def demo_seq)

text \<open>
  C4. Whatever packets, events, sockets, drops, hints, inventories and expiries a collector sees, in any order: every
  byte it counted is with a flow of the table, with an expired one or with the packets that found no room; the table
  keeps within its limit and has one flow of a key.
\<close>

theorem collector_books:
  assumes "collector_step\<^sup>*\<^sup>* (new_collector room port loopback index dns table sockets streams) c"
  shows "co_rx_bytes c = (\<Sum>i\<leftarrow>all_flows c. fl_rx (co_flow c i)) + co_expired_rx c + co_unindexed_rx c
    \<and> co_tx_bytes c = (\<Sum>i\<leftarrow>all_flows c. fl_tx (co_flow c i)) + co_expired_tx c + co_unindexed_tx c
    \<and> co_bytes c = co_rx_bytes c + co_tx_bytes c
    \<and> length (co_flows c) + length (co_retired c) \<le> co_max_flows c
    \<and> distinct (map fst (co_flows c)) \<and> list_all (\<lambda>(key, i). fl_key (co_flow c i) = key) (co_flows c)"
  using collector_run_ok [OF assms new_collector_ok]
  by (auto simp: collector_ok_def books_owe_def table_ok_def live_bytes_def list_all_iff)

lemma collector_books_witness:
  "co_rx_bytes demo_after = (\<Sum>i\<leftarrow>all_flows demo_after. fl_rx (co_flow demo_after i)) + co_expired_rx demo_after + co_unindexed_rx demo_after
    \<and> length (co_flows demo_after) = 1"
  using collector_books [OF demo_reached [unfolded demo_collector_def]] demo_after_fields by simp

text \<open>
  C5. One packet crashes the program: a TCP segment with payload from the client of a known connection, whose sequence
  number is exactly 2^31 away from the expected one, panics the collector.
\<close>

theorem packet_crash:
  assumes "\<not> k_fragmented p" and "k_protocol p = 6" and "k_ether_type p = 0" and "\<not> k_syn p" and "snd (k_source p) \<notin> {53, 5353, 5355}"
    and "k_payload p \<noteq> []" and "k_payload_len p \<le> length (k_payload p)" and "accept_port c (k_source p) (k_destination p)"
    and "flow_at (packet_key p) c = Some i" and "fl_wire_domain (co_flow c i) = Some w" and "fl_wire_client (co_flow c i) = k_source p"
    and "\<not> r_failed (st_at (co_streams c) w)" and "\<not> parser_finished (r_parser (st_at (co_streams c) w))"
    and "k_tcp_seq p = r_expected (st_at (co_streams c) w) + 2 ^ 31"
  shows "packet_at A now p c = Panic"
proof -
  have "seq_diff (r + 2 ^ 31) r = - (2 ^ 31)" for r :: u32 unfolding seq_diff_def add_diff_cancel_left' by simp
  then show ?thesis using assms by (intro packet_panics) simp_all
qed

lemma packet_crash_witness: "packet_at demo_ambient 6 demo_segment demo_connection = Panic"
proof (rule packet_crash)
  show "flow_at (packet_key demo_segment) demo_connection = Some 0" by (simp add: demo_connection_def)
  show "fl_wire_domain (co_flow demo_connection 0) = Some 0" by (simp add: demo_connection_def)
  show "fl_wire_client (co_flow demo_connection 0) = k_source demo_segment" by (simp add: demo_connection_def)
  show "\<not> r_failed (st_at (co_streams demo_connection) 0)" "\<not> parser_finished (r_parser (st_at (co_streams demo_connection) 0))"
    by (simp_all add: demo_connection_def demo_collector_def new_collector_def demo_streams_def) code_simp+
  show "k_tcp_seq demo_segment = r_expected (st_at (co_streams demo_connection) 0) + 2 ^ 31"
    by (simp add: demo_connection_def demo_collector_def new_collector_def demo_streams_def demo_segment_def)
qed (simp_all add: demo_segment_def packet0_def demo_connection_def demo_collector_def new_collector_def accept_port_def)

text \<open>
  C6. The first client bytes EHLO, one byte that is not UTF-8, and STARTTLS panic the parser: the position found in
  the upper-cased copy, in which the bad byte became three, is past the end of the original.
\<close>

theorem starttls_crash:
  assumes "unicode_upper (uni_upper \<Gamma>)"
  shows "parser_feed \<Gamma> parser0 (lit ''EHLO '' @ [255] @ lit ''STARTTLS'' @ [13, 10]) = Panic"
  using parser_feed_bad_starttls [OF assms] by (simp add: bad_starttls_def)

lemma starttls_crash_witness: "parser_feed demo_env parser0 (lit ''EHLO '' @ [255] @ lit ''STARTTLS'' @ [13, 10]) = Panic"
  by (rule starttls_crash [OF demo_unicode])

text \<open>
  C7. Feeding any bytes to a parser in its invariant either returns or is the upper-case crash, which needs a byte
  outside ASCII and a parser that can still reach the search for an upgrade command. Whatever returns, with an error
  or without, has at most 256 distinct HTTP hosts, and a server name and ALPN protocols of printable bytes (nothing is
  claimed of the proxy fields and the host names, which may hold control bytes); without an error the parser is in its
  invariant again.
\<close>

theorem parser_feed_invariant:
  assumes "parser_ok p"
  shows "(\<exists>p' er. parser_feed \<Gamma> p d = Ret (p', er) \<and> printable (e_sni (s_evidence p')) \<and> list_all printable (e_alpn (s_evidence p'))
      \<and> distinct (map fst (e_hosts (s_evidence p'))) \<and> length (e_hosts (s_evidence p')) \<le> 256 \<and> (er = None \<longrightarrow> parser_ok p'))
    \<or> (parser_feed \<Gamma> p d = Panic \<and> \<not> ascii_input p d \<and> upgrade_risk p)"
  using parser_feed_cases [OF parser_ok_mid [OF assms], of \<Gamma> d]
  by (auto simp: returns_def feed_post_def ev_ok_def ev_printable_def hosts_ok_def max_http_hosts_def)

lemma parser_feed_invariant_witness:
  "\<exists>p' er. parser_feed demo_env parser0 (lit ''GET / HTTP/1.1'') = Ret (p', er) \<and> printable (e_sni (s_evidence p')) \<and> list_all printable (e_alpn (s_evidence p'))
      \<and> distinct (map fst (e_hosts (s_evidence p'))) \<and> length (e_hosts (s_evidence p')) \<le> 256 \<and> (er = None \<longrightarrow> parser_ok p')"
proof -
  have "ascii_input parser0 (lit ''GET / HTTP/1.1'')" by (simp add: ascii_input_def parser0_def http_parser0_def is_ascii_def lit_def)
  then show ?thesis using parser_feed_invariant [OF parser_ok0, of demo_env "lit ''GET / HTTP/1.1''"] by simp
qed

text \<open>
  C8. A datagram of any bytes, with any keys and any iteration order, neither panics nor spins: Add returns, and the
  tracker stays in its invariant (at most 64 fragments and 64 KiB + 4 bytes of CRYPTO data, the counter equal to their
  sum, every fragment behind a gap, nothing kept once it is done). A ClientHello it returns is one whole handshake
  message of at most 64 KiB, given out once, by an authenticated packet.
\<close>

theorem quic_add_safe:
  assumes "quic_ok t"
  shows "\<exists>r. quic_add X \<rho> now datagram t = Ret r \<and> result_ok r"
  using quic_add_ok [OF assms] by (auto simp: returns_def)

lemma quic_add_safe_witness:
  "\<exists>r. quic_add \<lparr>hkdf_extract = \<lambda>s _. Some s, hkdf_expand = \<lambda>s _ n. Some (replicate n 0), aes_block = \<lambda>_ b. b, gcm_open = \<lambda>_ _ c _. Some c\<rparr>
     (\<lambda>_ _. 0) (Some 7) [0xc0, 0, 0, 0, 1, 0, 0] quic_tracker0 = Ret r \<and> result_ok r"
  by (rule quic_add_safe [OF quic_ok_new])

text \<open>
  C9. The final flow that the host view remembers of a connection is a snapshot: no later second of the view, with
  whatever collectors and numbers, writes it again, and it says that the connection ended.
\<close>

theorem snapshots_kept:
  assumes "view_run v seen changes" and "later_view v w" and "r \<in> set (hv_history v)"
  shows "hv_flow w r = hv_flow v r \<and> fl_end (hv_flow w r) \<noteq> FlowOngoing"
proof -
  have "view_ok v \<and> told_ok v" using view_run_ok [OF assms(1)] by blast
  then show ?thesis using later_view_ok [OF assms(2)] assms(3) by (auto simp: untouched_def ended_at_def)
qed

lemma snapshots_kept_witness:
  "hv_history demo_view = [0] \<and> hv_flow demo_later 0 = hv_flow demo_view 0 \<and> fl_end (hv_flow demo_later 0) \<noteq> FlowOngoing"
proof -
  have "hv_flow demo_later 0 = hv_flow demo_view 0 \<and> fl_end (hv_flow demo_later 0) \<noteq> FlowOngoing"
    by (rule snapshots_kept [OF demo_view_run demo_later_view]) (simp add: demo_view_fields)
  then show ?thesis using demo_view_fields(1) by blast
qed

text \<open>
  C10. No frame, however short or malformed, panics the packet decoder; a packet it returns points into the frame,
  carries at most 16 KiB of payload, has a payload only with ports and ports only on an unfragmented packet or a first
  fragment, and a TCP payload shorter than on the wire is marked as truncated.
\<close>

theorem decode_safe: "\<exists>r. decode frame outgoing = Ret r \<and> counted frame r"
  using decode_returns by (auto simp: returns_def)

text \<open>
  C11. What the live stream is told of one connection number reads as lives: nothing before new, no second new before
  an end; and a number that is not on display was told to have ended if it ever was on display, and was never told of
  otherwise.
\<close>

theorem change_lives:
  assumes "view_run v seen changes"
  shows "\<exists>l. read_life n changes (Some Unborn) = Some l
    \<and> (n \<in> fst ` set (hv_displayed v) \<or> l = (if n \<in> seen then Ended else Unborn))"
proof -
  have "change_run (hv_changes v) (shown_flows v (hv_displayed v)) seen changes" using view_run_ok [OF assms] by blast
  from change_run_lives [OF this, of n] have "lives_told (hv_changes v) (shown_flows v (hv_displayed v)) seen changes n" by simp
  moreover have "fst ` set (shown_flows v (hv_displayed v)) = fst ` set (hv_displayed v)" by (metis list.set_map shown_flows_fst)
  ultimately show ?thesis by (auto simp: lives_told_def)
qed

lemma change_lives_witness: "hv_displayed demo_later = [] \<and> read_life 1 demo_changes (Some Unborn) = Some Ended"
  using change_lives [OF demo_later_run, of 1] by (simp add: demo_later_displayed)

text \<open>
  C12. The CRYPTO frames of a client handshake B, in any order, with any overlap and any iteration order of the
  fragment map: if no limit stopped the tracker, the bytes it put together are exactly the longest prefix of B that
  the frames cover. The result therefore depends neither on the order of the frames nor on that of the map.
\<close>

theorem quic_reassembly:
  assumes "crypto_run \<rho> xs quic_tracker0 = Ret (t, None)" and "list_all (\<lambda>(start, data). part_of B start data) xs"
    and "length B \<le> max_crypto_bytes"
  shows "i_crypto t = take (length (i_crypto t)) B \<and> (\<forall>n. {0 ..< n} \<subseteq> spans xs \<longleftrightarrow> n \<le> length (i_crypto t))"
  by (rule crypto_run_prefix [OF assms(3,2,1)])

lemma quic_reassembly_witness:
  "\<exists>t :: quic_tracker. i_crypto t = take (length (i_crypto t)) [1, 2, 3 :: byte] \<and> (\<forall>n. {0 ..< n} \<subseteq> spans [(0, [1]), (0, [1])] \<longleftrightarrow> n \<le> length (i_crypto t))"
proof -
  have "add_crypto (\<lambda>_ _. 0) 0 [1] quic_tracker0 = Ret (quic_tracker0\<lparr>i_crypto := [1]\<rparr>, None)"
    by (simp add: add_crypto_def max_crypto_bytes_def quic_tracker0_def) (subst pull_parts.simps, simp add: fragment_order_def)
  moreover have "add_crypto (\<lambda>_ _. 0) 0 [1] (quic_tracker0\<lparr>i_crypto := [1]\<rparr>) = Ret (quic_tracker0\<lparr>i_crypto := [1]\<rparr>, None)"
    by (simp add: add_crypto_def max_crypto_bytes_def quic_tracker0_def)
  ultimately have "crypto_run (\<lambda>_ _. 0) [(0, [1]), (0, [1])] quic_tracker0 = Ret (quic_tracker0\<lparr>i_crypto := [1]\<rparr>, None)" by simp
  then show ?thesis
    by - (rule exI, rule quic_reassembly, assumption, simp_all add: part_of_def max_crypto_bytes_def)
qed

text \<open>
  C13. The host view puts every flow of every interface into exactly one connection, and a connection has at most one
  flow of an interface, no two flows that are apart in time and no two different SYN numbers, whatever the order in
  which the maps are walked and equal times are sorted.
\<close>

theorem observations_grouped:
  "mset (concat (host_groups \<kappa> \<rho> sources)) = mset (map snd (concat (map observations_of sources)))
    \<and> list_all (\<lambda>members. members \<noteq> [] \<and> distinct (map ob_interface members)
        \<and> sorted_wrt (\<lambda>other candidate. \<not> apart candidate other) members
        \<and> card (fl_syn_seq ` ob_flow ` {x \<in> set members. fl_syn_seen (ob_flow x)}) \<le> 1) (host_groups \<kappa> \<rho> sources)"
proof -
  have one: "members \<noteq> [] \<and> distinct (map ob_interface members) \<and> sorted_wrt (\<lambda>other candidate. \<not> apart candidate other) members
    \<and> card (fl_syn_seq ` ob_flow ` {x \<in> set members. fl_syn_seen (ob_flow x)}) \<le> 1" if "one_connection members" for members
  proof -
    have "\<forall>a\<in>fl_syn_seq ` ob_flow ` {x \<in> set members. fl_syn_seen (ob_flow x)}. \<forall>b\<in>fl_syn_seq ` ob_flow ` {x \<in> set members. fl_syn_seen (ob_flow x)}. a = b"
      by (clarsimp simp del: One_nat_def) (erule (3) one_connection_syn [OF that])
    then have "card (fl_syn_seq ` ob_flow ` {x \<in> set members. fl_syn_seen (ob_flow x)}) \<le> Suc 0" 
      by (rule iffD2 [OF card_le_Suc0_iff_eq, rotated]) simp
    then show ?thesis using that one_connection_interfaces [OF that] by (simp add: one_connection_def)
  qed
  have "list_all one_connection (host_groups \<kappa> \<rho> sources)"
    using group_observations_ok(2) by (fastforce simp: host_groups_def list_all_iff)
  then show ?thesis using host_groups_observations [of \<kappa> \<rho> sources] one by (simp add: list_all_iff)
qed

text \<open>
  C14. Where the parser skips n uncaptured bytes, feeding it any n bytes instead would have led to the same parser:
  the bytes the capture left out could not have changed the evidence.
\<close>

theorem skip_equals_feed:
  assumes "parser_ok p" and "parser_skip p (length d) = Ret p'" and "d \<noteq> []" and "\<not> parser_finished p"
  shows "parser_feed \<Gamma> p d = Ret (p', None)"
  by (rule parser_skip_feed [OF assms])

lemma skip_equals_feed_witness: "parser_feed demo_env demo_body (replicate 100 7) = Ret (demo_body\<lparr>s_http := (s_http demo_body)\<lparr>p_remaining := 20\<rparr>\<rparr>, None)"
  by (rule skip_equals_feed [OF demo_body_ok]) (simp_all add: demo_body_skip demo_body_running)

text \<open>
  C15. Where the HTTP parser takes a division of a request stream into nonempty pieces without an error, and neither
  starts nor ends in a tunnel, it takes the whole in one piece too, to the same parser state and the same evidence.
\<close>

theorem http_segmentation:
  assumes "feed_all (http_consumer \<Gamma>) s (x # xs) = Ret (t, None)" and "\<forall>y \<in> set xs. y \<noteq> []"
    and "p_state (fst s) \<notin> {HttpTunnel, HttpH2C}" and "p_state (fst t) \<notin> {HttpTunnel, HttpH2C}"
  shows "http_consumer \<Gamma> s (concat (x # xs)) = Ret (t, None)"
  by (rule http_feed_pieces [OF assms])

lemma http_segmentation_witness:
  "http_consumer demo_env (http_parser0, evidence0) (concat [[71], [69, 84]]) = Ret ((http_parser0\<lparr>p_buffer := [71, 69, 84]\<rparr>, evidence0), None)"
proof (rule http_segmentation)
  show "feed_all (http_consumer demo_env) (http_parser0, evidence0) [[71], [69, 84]] = Ret ((http_parser0\<lparr>p_buffer := [71, 69, 84]\<rparr>, evidence0), None)"
    by (simp add: http_consumer_def http_header_waits http_parser0_def crlf2_def max_http_header_def)
qed (simp_all add: http_parser0_def)

text \<open>
  C16. Where the ClientHello parser takes a division of the client bytes into nonempty pieces without an error, and
  they are within its size limit, it takes the whole in one piece too, to the same state and the same evidence.
\<close>

theorem tls_segmentation:
  assumes "feed_all (tls_consumer \<Gamma>) s (x # xs) = Ret (t, None)" and "\<forall>y \<in> set xs. y \<noteq> []"
    and "length (t_record (fst s)) + length (concat (x # xs)) \<le> max_client_hello + 2 * 18432"
  shows "tls_consumer \<Gamma> s (concat (x # xs)) = Ret (t, None)"
  by (rule tls_feed_segments [OF assms])

lemma tls_segmentation_witness:
  "tls_consumer demo_env (tls_parser0, evidence0) (concat [[22, 3], [1, 0, 2, 9]]) = Ret ((tls_parser0\<lparr>t_record := [22, 3, 1, 0, 2, 9]\<rparr>, evidence0), None)"
proof (rule tls_segmentation)
  show "feed_all (tls_consumer demo_env) (tls_parser0, evidence0) [[22, 3], [1, 0, 2, 9]] = Ret ((tls_parser0\<lparr>t_record := [22, 3, 1, 0, 2, 9]\<rparr>, evidence0), None)"
    by (simp add: tls_consumer_def tls_feed_def tls_parser0_def tls_loop.simps max_client_hello_def gbyte_def be16_def be_val_def)
qed (simp_all add: tls_parser0_def max_client_hello_def)

text \<open>
  C17. Where the HTTP/2 parser takes a division of the client bytes into nonempty pieces without an error, it takes
  the whole in one piece too, to the same state and the same evidence.
\<close>

theorem h2_segmentation:
  assumes "feed_all (h2_consumer \<Gamma>) s (x # xs) = Ret (t, None)" and "\<forall>y \<in> set xs. y \<noteq> []"
  shows "h2_consumer \<Gamma> s (concat (x # xs)) = Ret (t, None)"
  by (rule h2_feed_segments [OF assms])

lemma h2_segmentation_witness:
  "h2_consumer demo_env (h2_parser0, evidence0) (concat [[0, 0, 4], [4, 0]]) = Ret ((h2_parser0\<lparr>h2_header := [0, 0, 4, 4, 0]\<rparr>, evidence0), None)"
proof (rule h2_segmentation)
  show "feed_all (h2_consumer demo_env) (h2_parser0, evidence0) [[0, 0, 4], [4, 0]] = Ret ((h2_parser0\<lparr>h2_header := [0, 0, 4, 4, 0]\<rparr>, evidence0), None)"
    by code_simp
qed simp

text \<open>
  C18. In a collector that any run reached, a packet of an unknown key finds room while some flow of the table can go,
  even if the table is full: the packet gets a flow of its key.
\<close>

theorem room_for_new_flows:
  assumes "collector_step\<^sup>*\<^sup>* (new_collector room port loopback index dns table sockets streams) c"
    and "(old, i) \<in> set (co_flows c)" and "disposable (co_flow c i)" and "flow_at (packet_key p) c = None"
  shows "\<exists>j c'. find_flow A now p (packet_key p) (count_bytes p c) = (Some j, c') \<and> flow_at (packet_key p) c' = Some j
    \<and> fl_key (co_flow c' j) = packet_key p"
  using assms collector_run_ok [OF assms(1) new_collector_ok] by (intro found_room)

lemma room_for_new_flows_witness:
  "length (co_flows demo_after) = co_max_flows demo_after
    \<and> (\<exists>j c'. find_flow demo_ambient 6 demo_segment (packet_key demo_segment) (count_bytes demo_segment demo_after) = (Some j, c')
      \<and> flow_at (packet_key demo_segment) c' = Some j \<and> fl_key (co_flow c' j) = packet_key demo_segment)"
proof -
  have "fk_protocol (packet_key demo_segment) = 6" by (simp add: demo_segment_def packet_key_def packet0_def Let_def key_for_def)
  then have "flow_at (packet_key demo_segment) demo_after = None" using demo_datagram_ends by (auto simp: demo_after_fields)
  moreover have "disposable (co_flow demo_after 0)"
    by (simp add: demo_after_fields disposable_def demo_seen_def demo_opened_fields demo_datagram_ends)
  ultimately show ?thesis
    using room_for_new_flows [OF demo_reached [unfolded demo_collector_def], of "packet_key demo_datagram" 0 demo_segment] by (simp add: demo_after_fields)
qed

text \<open>
  C19. A server segment, at any sequence distance but the most negative one, is taken without a panic: buffers stay
  within 64 KiB and 64 parts, waiting segments stay behind a gap, and every field of the evidence but the three the
  server decides (TLS version, ALPN, certificate names) is left as it was, while the server ALPN and the certificate
  names stay printable and the names at most eight.
\<close>

theorem server_flight_bounded:
  assumes "flight_inv f" and "\<not> f_done f" and "length b < 2 ^ 30" and "f_started f \<Longrightarrow> seq_diff sq (f_expected f) \<noteq> - (2 ^ 31)"
  shows "\<exists>f' e'. flight_segment \<Gamma> \<rho> now f sq b n e = Ret (f', e') \<and> flight_inv f' \<and> client_part e' = client_part e \<and> (server_names_ok e \<longrightarrow> server_names_ok e')
    \<and> length (f_record f') \<le> 65536 \<and> length (f_handshake f') \<le> 65536 \<and> length (flight_pending f') \<le> 64"
  using flight_segment_returns [OF assms, of \<Gamma> \<rho> now n e]
  by (auto simp: returns_def client_side_def flight_inv_def flight_ok_def max_server_flight_def max_pending_parts_def)

lemma server_flight_bounded_witness:
  "\<exists>f' e'. flight_segment demo_env (\<lambda>_ _. 0) 1 server_flight0 7 [22, 3, 3, 0, 9] 5 evidence0 = Ret (f', e') \<and> flight_inv f' \<and> client_part e' = client_part evidence0 \<and> server_names_ok e'
    \<and> length (f_record f') \<le> 65536 \<and> length (f_handshake f') \<le> 65536 \<and> length (flight_pending f') \<le> 64"
proof -
  have "server_names_ok evidence0" by (simp add: server_names_ok_def evidence0_def names_ok_def)
  then show ?thesis
    using server_flight_bounded [OF flight_inv0, of "[22, 3, 3, 0, 9]" 7 demo_env "\<lambda>_ _. 0" 1 5 evidence0] by (auto simp: server_flight0_def)
qed

text \<open>
  C20. The later fragments of a datagram are counted where its first fragment is: once packetAt took the first one
  with room for its header, then in any later state that still has that header and a flow of its key, a later
  fragment, which carries no ports itself, adds its bytes to that flow and to no other.
\<close>

theorem fragments_join:
  assumes "first_fragment p" and "length (co_fragments c) < max_fragments" and "packet_at A now p c = Ret c1"
    and "map_of (co_fragments c2) (header_key p) = map_of (co_fragments c1) (header_key p)"
    and "later_fragment p q" and "accept_port c2 (k_source p) (k_destination p)" and "flow_at (packet_key p) c2 = Some i"
    and "packet_at A' now' q c2 = Ret d"
  shows "flow_at (packet_key p) d = Some i \<and> fl_rx (co_flow d i) = fl_rx (co_flow c2 i) + rx_due q
    \<and> fl_tx (co_flow d i) = fl_tx (co_flow c2 i) + tx_due q
    \<and> (\<forall>j. j \<noteq> i \<longrightarrow> fl_rx (co_flow d j) = fl_rx (co_flow c2 j) \<and> fl_tx (co_flow d j) = fl_tx (co_flow c2 j))"
  using later_counted [OF assms] by blast

lemma fragments_join_witness:
  "\<exists>c d. packet_at demo_ambient 5 demo_head demo_collector = Ret c \<and> packet_at demo_ambient 5 demo_tail c = Ret d
    \<and> flow_at (packet_key demo_head) d = Some 0 \<and> fl_rx (co_flow d 0) = fl_rx (co_flow c 0) + 40"
proof -
  obtain c where c: "packet_at demo_ambient 5 demo_head demo_collector = Ret c" "co_pending_socket c = []" "co_pending_tls c = []"
    "flow_at (packet_key demo_head) c = Some 0" "co_filter_port c = 0" using demo_head_taken by blast
  note j = join_later [OF demo_fragments(1,3) _ demo_fragments(2), of c 5]
  have same: "map_of (co_fragments c) (header_key demo_head) = map_of (co_fragments (snd (join_fragment 5 demo_head demo_collector))) (header_key demo_head)"
    using packet_fragments [OF c(1)] by (simp add: demo_ambient_def)
  obtain d where d: "packet_at demo_ambient 5 demo_tail c = Ret d" using demo_tail_taken [OF c(2,3,5,4) j(1) [OF same] j(2) [OF same]] by blast
  have "accept_port c (k_source demo_head) (k_destination demo_head)" using c(5) by (simp add: accept_port_def)
  from fragments_join [OF demo_fragments(1,3) c(1) refl demo_fragments(2) this c(4) d] show ?thesis
    using c(1) d by (auto simp: demo_tail_def packet0_def)
qed

text \<open>
  C21. Feeding bytes to the HTTP parser keeps at most 256 distinct hosts and a body length below 2^63, and it never
  panics outside a tunnel.
\<close>

theorem http_hosts_bounded:
  assumes "hosts_ok e" and "http_ok p"
  shows "\<exists>p' e' er. http_feed \<Gamma> p d e = Ret (p', e', er) \<and> length (e_hosts e') \<le> 256 \<and> distinct (map fst (e_hosts e'))
    \<and> (er = None \<longrightarrow> p_remaining p' < 2 ^ 63)"
  using http_feed_returns [OF assms, of \<Gamma> d]
  by (auto simp: returns_def http_post_def hosts_ok_def max_http_hosts_def http_inv_def body_limit_def)

lemma http_hosts_bounded_witness:
  "\<exists>p' e' er. http_feed demo_env http_parser0 [71] evidence0 = Ret (p', e', er) \<and> length (e_hosts e') \<le> 256 \<and> distinct (map fst (e_hosts e'))
    \<and> (er = None \<longrightarrow> p_remaining p' < 2 ^ 63)"
  by (rule http_hosts_bounded) (simp_all add: hosts_ok_def evidence0_def)

text \<open>
  C22. A client byte that the capture lost ends the connection in bounded time. In any run of segments of one byte
  sequence no segment holds the byte at position p, one behind it has arrived by the time hi, and after hi only
  segments behind it arrive. If the stream still runs, a tick more than ten seconds after hi fails it, releases what
  waits and records the reason: what arrives behind the gap does not put it off. A tick at most ten seconds after the
  start leaves the stream running with all that waits.
\<close>

theorem gap_times_out:
  assumes "stream_adds \<Gamma> (new_stream now0 isn) (xs @ zs) = Ret s" and "\<forall>a \<in> set (xs @ zs). arrives isn B a" and "length B < 2 ^ 30"
    and "\<forall>(i, n) \<in> offsets isn B (xs @ zs). \<not> (i \<le> p \<and> p < i + n)" and "(i, n) \<in> offsets isn B xs" and "p < i" and "0 < n"
    and "\<forall>a \<in> set zs. behind_gap isn B p a" and "\<not> r_failed s" and "\<not> parser_finished (r_parser s)"
    and "\<forall>(\<rho>, t, sq, b) \<in> set xs. now0 \<le> t \<and> t \<le> hi" and "\<forall>(\<rho>, t, sq, b) \<in> set zs. hi \<le> t" and "now0 \<le> hi"
  shows "(hi + 10 * second < now \<longrightarrow> r_failed (stream_tick now s) \<and> r_pending (stream_tick now s) = [] \<and> r_pending_bytes (stream_tick now s) = 0
      \<and> e_parse_error (stream_evidence (stream_tick now s)) = Some (Msg ''TCP reassembly gap timeout''))
    \<and> (now \<le> now0 + 10 * second \<longrightarrow> \<not> r_failed (stream_tick now s) \<and> r_pending (stream_tick now s) = r_pending s
      \<and> r_parser (stream_tick now s) = r_parser s)"
proof -
  have "(i, n) \<in> offsets isn B (xs @ zs)" using assms(5) by (auto simp: offsets_def)
  from waiting_segment [OF assms(1-4) this assms(6,7,9,10)] have n: "0 < r_pending_bytes s" .
  obtain g where g: "r_gap_since s = Some g" "now0 \<le> g" "g \<le> hi"
    using gap_dates [OF assms(3,5,6,7) _ assms(11) assms(1,9,10,2,4,8)] assms(13) by auto
  have "\<forall>(\<rho>, t, sq, b) \<in> set (xs @ zs). now0 \<le> t" using assms(11-13) by fastforce
  from progress_dates [OF assms(1) this] obtain l where l: "r_last_progress s = Some l" "now0 \<le> l" by blast
  show ?thesis using gap_tick_late [OF assms(9,10) n g(1), of now] gap_tick_early [OF assms(9,10) g(1) l(1), of now] g l by auto
qed

lemma gap_times_out_witness:
  "r_failed (stream_tick (11 * second) demo_waiting) \<and> r_pending (stream_tick (11 * second) demo_waiting) = []
    \<and> r_pending (stream_tick (10 * second) demo_waiting) = [(1002, lit ''cde''), (1003, lit ''de'')]"
proof -
  have times: "\<forall>(\<rho>, t, sq, b) \<in> set demo_early. 0 \<le> t \<and> t \<le> 1" "\<forall>(\<rho>, t, sq, b) \<in> set demo_late. 1 \<le> t"
    by (simp_all add: demo_early_def demo_late_def)
  note gap = gap_times_out [OF demo_waits demo_lost_arrives _ demo_hole(1) demo_hole(2) _ _ demo_hole(3) demo_waiting_runs times]
  have "r_pending demo_waiting = [(1002, lit ''cde''), (1003, lit ''de'')]" by (simp add: demo_waiting_def)
  then show ?thesis using gap [of "11 * second"] gap [of "10 * second"] by simp
qed

text \<open>
  C23. Whatever responses and expiries the DNS cache sees, at whatever times, no message panics and the cache holds at
  most 16,384 addresses, each with one to four different names.
\<close>

theorem dns_cache_bounded: "\<exists>c. dns_run \<Gamma> ops [] = Ret c \<and> cache_ok None c"
  using dns_run_bounded [of "[]" \<Gamma> ops] by (auto simp: returns_def)

text \<open>
  C24. A recording is read back: New writes the section and the interfaces, Packet the frames, and Read gives each
  frame in order with the name of its interface, its bytes, its length on the wire, its time in whole microseconds and
  its comment.
\<close>

theorem pcap_roundtrip:
  assumes "names \<noteq> []" and "length names < 2 ^ 32" and "list_all (\<lambda>name. length name < 65536 \<and> name \<noteq> []) names"
    and "frames_ok (length names) ps"
  shows "\<exists>w0 w. pcap_new buffer_sink [] names 0 = (w0, None) \<and> pcap_packets buffer_sink ps w0 = (w, None)
    \<and> pcap_read collect_packet (pw_out w) [] False [] = Ret (map (recorded names) ps, None)"
  by (rule recording_read_back [OF assms])

lemma pcap_roundtrip_witness:
  "\<exists>w0 w. pcap_new buffer_sink [] [lit ''lo''] 0 = (w0, None) \<and> pcap_packets buffer_sink [(0, [1, 2, 3], 1500, 1234567, lit ''pid'')] w0 = (w, None)
    \<and> pcap_read collect_packet (pw_out w) [] False [] = Ret (map (recorded [lit ''lo'']) [(0, [1, 2, 3], 1500, 1234567, lit ''pid'')], None)"
  by (rule pcap_roundtrip) (simp_all add: frames_ok_def frame_ok_def lit_def max_snap_length_def)

text \<open>
  C25. A connection seen on several interfaces counts the bytes and packets of one observation, of those with the most
  bytes, never their sum, and takes its name from an observation with the best evidence.
\<close>

theorem merged_counts:
  assumes "members \<noteq> []" and "merge_observed h members = (merged, source)"
  shows "(\<exists>x\<in>set members. source = ob_flow x \<and> fl_rx merged = fl_rx (ob_flow x) \<and> fl_tx merged = fl_tx (ob_flow x) \<and> fl_packets merged = fl_packets (ob_flow x))
    \<and> list_all (\<lambda>x. fl_rx (ob_flow x) + fl_tx (ob_flow x) \<le> fl_rx merged + fl_tx merged) members
    \<and> list_all (\<lambda>x. domain_score h (ob_flow x) \<le> domain_score h (evidence_source h members)) members
    \<and> fl_domain merged = fl_domain (evidence_source h members) \<and> (\<exists>x\<in>set members. evidence_source h members = ob_flow x)"
  using merge_observed_counts [OF assms(2)] packet_source_best [OF assms(1)] evidence_source_best(1) [OF assms(1), of h] evidence_source_best(2) [OF assms(1), of _ h]
  by (auto simp: flow_counts_def list_all_iff)

lemma merged_counts_witness: "fl_rx (fst (merge_observed demo_streams demo_observations)) + fl_tx (fst (merge_observed demo_streams demo_observations)) \<ge> 90"
  using merged_counts [of demo_observations demo_streams, OF _ surjective_pairing]
  by (simp add: demo_observations_def demo_seen_def demo_opened_fields)

text \<open>
  C26. A packet number sent in its n lowest bytes (1 to 4) is found again from the largest number so far whenever it
  lies in the window of half its range around the next number, as RFC 9000 A.3 asks; the 64-bit arithmetic does not
  wrap.
\<close>

theorem packet_number_found:
  assumes "i_has_pn t" and "1 \<le> n" and "n \<le> 4" and "unat (i_largest_pn t) < 2 ^ 62" and "pn < 2 ^ 62"
    and "unat (i_largest_pn t) + 1 < pn + 2 ^ (8 * n - 1)" and "pn \<le> unat (i_largest_pn t) + 1 + 2 ^ (8 * n - 1)"
  shows "packet_number t (of_nat (pn mod 2 ^ (8 * n))) n = of_nat pn"
  by (rule packet_number_window [OF assms])

lemma packet_number_found_witness:
  "packet_number (quic_tracker0\<lparr>i_has_pn := True, i_largest_pn := 0xa82f30ea\<rparr>) 0x9b32 2 = 0xa82f9b32"
  using packet_number_found [of "quic_tracker0\<lparr>i_has_pn := True, i_largest_pn := 0xa82f30ea\<rparr>" 2 "0xa82f9b32"] by simp

text \<open>
  C27. A response as a resolver writes it, with one question and any number of answers that point back to it, is read
  back: the normalised name and every address with its time to live, in order.
\<close>

theorem dns_roundtrip:
  assumes "list_all label_ok ls" and "valid_hostname (join ls (lit ''.''))" and "list_all written_ok as"
    and "length as < 65536" and "qtype \<in> {1, 28}"
  shows "dns_answer_records \<Gamma> (dns_response ident qtype ls as) = Ret (normalize_name \<Gamma> (join ls (lit ''.'')), map written_record as)"
  by (rule dns_answer_records_written [OF assms])

lemma dns_roundtrip_witness:
  "dns_answer_records demo_env (dns_response 7 1 [lit ''a'', lit ''io''] [(V4 [10, 0, 0, 1], 60), (V6 (replicate 16 1) [], 5)])
    = Ret (normalize_name demo_env (join [lit ''a'', lit ''io''] (lit ''.'')), map written_record [(V4 [10, 0, 0, 1], 60), (V6 (replicate 16 1) [], 5)])"
proof -
  have "\<not> has_prefix (replicate 16 (1 :: byte)) v4_prefix" by (simp add: v4_prefix_def numeral_eq_Suc)
  then show ?thesis
    by (intro dns_roundtrip) (simp_all add: label_ok_def lit_def valid_hostname_def written_ok_def record_ok_def)
qed

text \<open>
  C28. An IPv4 packet without options that carries a UDP datagram of up to 1,024 bytes is read back: addresses, ports,
  length and payload are those it was built from.
\<close>

theorem ipv4_udp_roundtrip:
  assumes "length data \<le> 1024" and "length src = 4" and "length dst = 4"
  shows "decode (ethernet_frame ether_ipv4 (ipv4_udp src dst sp dp data)) outgoing = Ret (Some (udp_packet src dst sp dp data outgoing))"
  using decode_ethernet_frame [of ether_ipv4] decode_ipv4_built [OF assms]
  by (simp add: ether_ipv4_def ether_vlan_def ether_qinq_def ether_pppoe_def decode_network_def)

lemma ipv4_udp_roundtrip_witness:
  "decode (ethernet_frame ether_ipv4 (ipv4_udp [10, 0, 0, 1] [10, 0, 0, 2] 53 40000 [1, 2, 3])) True
    = Ret (Some (udp_packet [10, 0, 0, 1] [10, 0, 0, 2] 53 40000 [1, 2, 3] True))"
  by (rule ipv4_udp_roundtrip) simp_all

text \<open>
  C29. Whatever bytes a server sends as its certificate, at most eight names come out of it and each consists of
  printable ASCII.
\<close>

theorem certificate_names_safe:
  "length (certificate_names \<Gamma> c) \<le> 8 \<and> list_all (list_all (\<lambda>x. 33 \<le> x \<and> x \<le> 126)) (certificate_names \<Gamma> c)"
  using certificate_names_ok [of \<Gamma> c]
  by (auto simp: names_ok_def max_certificate_names_def list_all_iff printable_def not_less)

text \<open>
  C30. Every payload is classified on every pair of ports: the checks of TCP and UDP return, none indexes past the
  payload, and the direction of the packet does not matter.
\<close>

theorem app_detection_safe:
  "(\<exists>r. app_tcp payload source destination = Ret r \<and> app_tcp payload destination source = Ret r)
    \<and> (\<exists>r. app_udp payload source destination = Ret r \<and> app_udp payload destination source = Ret r)"
  using app_tcp_total [of payload source destination] app_udp_total [of payload source destination]
  unfolding app_swap [of payload destination source] by (auto simp: returns_def)

text \<open>
  C31. What the tracker gives out is what the domain page takes: a ClientHello returned by Add passes every check of
  NewQUICClientHello on the message header, which is then decided by the parse of its body alone.
\<close>

theorem quic_hello_accepted:
  assumes "quic_ok t"
  shows "\<exists>t' hello a er. quic_add X \<rho> now datagram t = Ret (t', hello, a, er) \<and> (case hello of None \<Rightarrow> True
    | Some h \<Rightarrow> new_quic_client_hello \<Gamma> h = gbind (parse_client_hello \<Gamma> (drop 4 h)) (\<lambda>hello.
        Ret (evidence_stream (evidence0\<lparr>e_kind := KQuic, e_sni := h_sni hello, e_no_sni := h_sni hello = [], e_ech := h_ech hello,
          e_alpn := h_alpn hello, e_ja4 := Some (fingerprint \<Gamma> (h_ja4 hello) 113)\<rparr>))))"
proof -
  obtain t' hello a er where r: "quic_add X \<rho> now datagram t = Ret (t', hello, a, er)" "result_ok (t', hello, a, er)"
    using quic_add_ok [OF assms, of X \<rho> now datagram] unfolding returns_def by (metis prod_cases4)
  then show ?thesis using whole_hello_taken by (auto simp: result_ok_def split: option.splits)
qed

lemma quic_hello_accepted_witness:
  "\<exists>t' hello a er. quic_add \<lparr>hkdf_extract = \<lambda>s _. Some s, hkdf_expand = \<lambda>s _ n. Some (replicate n 0), aes_block = \<lambda>_ b. b, gcm_open = \<lambda>_ _ c _. Some c\<rparr>
     (\<lambda>_ _. 0) (Some 7) [0xc0, 0, 0, 0, 1, 0, 0] quic_tracker0 = Ret (t', hello, a, er) \<and> (case hello of None \<Rightarrow> True
    | Some h \<Rightarrow> new_quic_client_hello demo_env h = gbind (parse_client_hello demo_env (drop 4 h)) (\<lambda>hello.
        Ret (evidence_stream (evidence0\<lparr>e_kind := KQuic, e_sni := h_sni hello, e_no_sni := h_sni hello = [], e_ech := h_ech hello,
          e_alpn := h_alpn hello, e_ja4 := Some (fingerprint demo_env (h_ja4 hello) 113)\<rparr>))))"
  by (rule quic_hello_accepted [OF quic_ok_new])

text \<open>
  C32. Looking for the connection of an observation by its SYN number finds what a search of all connections finds,
  when every observation has its SYN.
\<close>

theorem syn_index:
  assumes "list_all (\<lambda>x. fl_syn_seen (ob_flow x)) observed"
  shows "group_observations \<rho> observed = fold place_plain (by_first \<rho> observed) []"
  using assms group_observations_plain by (simp add: list_all_iff)

lemma syn_index_witness: "group_observations (\<lambda>_. 0) demo_observations = fold place_plain (by_first (\<lambda>_. 0) demo_observations) []"
  by (rule syn_index) (simp add: demo_observations_def)

text \<open>
  C33. The ring of a row is the list of its samples: after any history of additions, the sample of an age is that of
  the history, clamped to 32 bits, for the last 300 additions, and there is none for an older age.
\<close>

theorem trend_history:
  "\<exists>t. gfold ring_add samples trend_ring0 = Ret t \<and> ring_at t (int age)
    = Ret (if age < min trend_seconds (length samples) then Some (clamp32 (rev samples ! age)) else None)"
proof -
  obtain t where t: "gfold ring_add samples trend_ring0 = Ret t" "ring_ok t" "ring_list t = take trend_seconds (rev (map clamp32 samples))"
    using trend_log.all_added [of trend_ring0 samples] by (auto simp: returns_def)
  have "unat (g_count t) = min trend_seconds (length samples)" using t(3) length_ring_list [of t] by simp
  then show ?thesis using t(1) ring_at_list [OF t(2), of age] by (auto simp: t(3) rev_map)
qed

text \<open>
  C34. Reading any file ends, whatever its bytes and whatever the callback does: every block is consumed or refused
  with an error, and no length in it makes the reader index outside a block.
\<close>

theorem pcap_read_safe: "\<exists>r. pcap_read visit file names seen s = Ret r"
proof -
  have "returns (pcap_read visit file names seen s) (\<lambda>_. True)" by (rule pcap_read_returns)
  then show ?thesis by (auto simp: returns_def)
qed

text \<open>
  C35. Over packets and ticks whose times do not decrease, the frame history holds exactly the longest end of the
  frames offered to it that is at most 32 MiB and of which none is older than the limit at the last trim: no such
  frame is lost, none is too many, the order is kept, and the byte counter is right.
\<close>

theorem history_frames:
  assumes "trim_times es = map Some ts" and "sorted ts"
  shows "let h = fold history_step es (history0 limit) in
    fh_bytes h = (\<Sum>x\<leftarrow>fh_frames h. int (length (k_frame (hf_packet x))))
    \<and> (\<exists>n \<le> length (offered es). fh_frames h = drop n (offered es) \<and> recent (last ts) limit (fh_frames h)
      \<and> (\<forall>k < n. \<not> recent (last ts) limit (drop k (offered es))))"
  using history_run [OF assms, of limit] unfolding longest_recent_def frame_bytes_def Let_def by simp

lemma history_frames_witness: "fh_frames (fold history_step demo_events (history0 (10 * second))) = [\<lparr>hf_packet = kept_packet (demo_frame 20), hf_flow = 6\<rparr>]"
proof -
  let ?h = "fold history_step demo_events (history0 (10 * second))" and ?now = "24 * second" and ?x = "\<lparr>hf_packet = kept_packet (demo_frame 20), hf_flow = 6\<rparr>"
  have "length (offered demo_events) = 3" "sorted [0, 5 * second, 20 * second, ?now]" "last [0, 5 * second, 20 * second, ?now] = ?now"
    by (simp_all add: demo_events_run(2))
  then obtain n where n: "n \<le> 3" "fh_frames ?h = drop n (offered demo_events)" "recent ?now (10 * second) (fh_frames ?h)"
    "\<forall>k < n. \<not> recent ?now (10 * second) (drop k (offered demo_events))"
    using history_frames [OF demo_events_run(1), of "10 * second"] unfolding Let_def by metis
  have two: "recent ?now (10 * second) [?x]" by (simp add: recent_def demo_events_run(3,4) time_sub_def max_duration_def)
  have long: "\<not> recent ?now (10 * second) (drop 0 (offered demo_events))" "\<not> recent ?now (10 * second) (drop 1 (offered demo_events))"
    unfolding demo_events_run(2) by (simp_all add: recent_def demo_events_run(3,4) time_sub_def max_duration_def)
  have "n \<noteq> 0" "n \<noteq> 1" using long n(3) unfolding n(2) by metis+
  moreover have "drop 2 (offered demo_events) = [?x]" by (simp add: demo_events_run(2))
  then have "n \<noteq> 3" using n(4) [rule_format, of 2] two by auto
  ultimately have "n = 2" using n(1) by linarith
  then show ?thesis using n(2) by (simp add: demo_events_run(2))
qed

text \<open>
  C36. A recording with a size limit never outgrows it, however many packets are offered: what was written is at most
  the limit, and the byte counter is its exact size.
\<close>

theorem pcap_limit:
  assumes "0 < max_bytes" and "unat max_bytes < 2 ^ 63" and "pcap_new buffer_sink [] names max_bytes = (w0, None)"
    and "pcap_packets buffer_sink ps w0 = (w, er)"
  shows "length (pw_out w) \<le> unat max_bytes \<and> unat (pcap_bytes w) = length (pw_out w)"
proof -
  have "limited w0" "pw_max_bytes w0 = max_bytes" using pcap_new_limited [OF assms(1,2), of names] assms(3) by simp_all
  then have "limited w" "pw_max_bytes w = max_bytes" using pcap_packets_limited [of w0 ps] assms(4) by simp_all
  then show ?thesis by (simp add: limited_def pcap_bytes_def)
qed

lemma pcap_limit_witness:
  "\<exists>w er. pcap_packets buffer_sink [(0, [1, 2, 3], 3, 5, []), (0, [1, 2, 3], 3, 5, [])] (fst (pcap_new buffer_sink [] [lit ''lo''] 110)) = (w, er)
     \<and> length (pw_out w) \<le> unat (110 :: u64) \<and> unat (pcap_bytes w) = length (pw_out w)"
proof -
  have "snd (pcap_new buffer_sink [] [lit ''lo''] 110) = None"
    by (simp add: pcap_new_def Let_def pcap_block_def buffer_sink_def section_body_def interface_body_def append_option_def append_padded_def
        pcap_block_bytes_def lit_def)
  then obtain w0 where w0: "pcap_new buffer_sink [] [lit ''lo''] 110 = (w0, None)" by (metis prod.collapse)
  obtain w er where w: "pcap_packets buffer_sink [(0, [1, 2, 3], 3, 5, []), (0, [1, 2, 3], 3, 5, [])] w0 = (w, er)" by fastforce
  then show ?thesis using pcap_limit [OF _ _ w0 w] w0 by simp
qed

text \<open>
  C37. The hot path of retransmission detection, which compares a segment with the recorded ranges only when it starts
  behind the furthest of them, finds the same retransmissions as comparing every segment, over any run of packets of a
  connection within 2^30 bytes of a base per direction.
\<close>

theorem retransmission_shortcut:
  assumes "list_all (\<lambda>(p, clock). packet_from bases p) ps"
  shows "gfold (\<lambda>(p, clock). health_observe p loopback clock) ps tcp_health0
    = gfold (\<lambda>(p, clock). health_observe_with False p loopback clock) ps tcp_health0"
  using health_run_shortcut [OF health_from0 assms, of loopback] by (simp add: health_observe_def [abs_def])

lemma retransmission_shortcut_witness:
  "gfold (\<lambda>(p, clock). health_observe p False clock) [(packet0\<lparr>k_protocol := 6, k_tcp_seq := 1000, k_payload := [1, 2]\<rparr>, 5)] tcp_health0
    = gfold (\<lambda>(p, clock). health_observe_with False p False clock) [(packet0\<lparr>k_protocol := 6, k_tcp_seq := 1000, k_payload := [1, 2]\<rparr>, 5)] tcp_health0"
proof (rule retransmission_shortcut [of "(1000, 1000)"])
  have "payload_from 1000 (packet0\<lparr>k_protocol := 6, k_tcp_seq := 1000, k_payload := [1, 2]\<rparr>)"
    unfolding payload_from_def by (rule exI [of _ 0]) (simp add: packet_span_def packet0_def)
  then show "list_all (\<lambda>(p, clock). packet_from (1000, 1000) p) [(packet0\<lparr>k_protocol := 6, k_tcp_seq := 1000, k_payload := [1, 2]\<rparr>, 5)]"
    by (simp add: packet_from_def at_side_0)
qed

text \<open>
  C38. A key is what two directions share and nothing else: the reply to a packet (endpoints exchanged, the same echo
  identifier for a ping) has the key of the packet, and two packets of a protocol without ICMP have one key only if
  they have the same two endpoints.
\<close>

theorem flow_key_directions:
  "(answers q p \<longrightarrow> packet_key q = packet_key p)
    \<and> (k_ether_type p = 0 \<and> k_ether_type q = 0 \<and> k_protocol p \<notin> {1, 58} \<and> k_protocol q \<notin> {1, 58} \<longrightarrow>
        (packet_key q = packet_key p) = (k_protocol q = k_protocol p
          \<and> (k_source q = k_source p \<and> k_destination q = k_destination p \<or> k_source q = k_destination p \<and> k_destination q = k_source p)))"
  by (auto simp: packet_key_answers packet_key_plain key_for_eq)

lemma flow_key_directions_witness:
  "packet_key (packet0\<lparr>k_source := (V4 [10, 0, 0, 2], 80), k_destination := (V4 [10, 0, 0, 1], 999), k_protocol := 6\<rparr>)
    = packet_key (packet0\<lparr>k_source := (V4 [10, 0, 0, 1], 999), k_destination := (V4 [10, 0, 0, 2], 80), k_protocol := 6\<rparr>)"
  using flow_key_directions [of "packet0\<lparr>k_source := (V4 [10, 0, 0, 2], 80), k_destination := (V4 [10, 0, 0, 1], 999), k_protocol := 6\<rparr>"
    "packet0\<lparr>k_source := (V4 [10, 0, 0, 1], 999), k_destination := (V4 [10, 0, 0, 2], 80), k_protocol := 6\<rparr>"]
  by (simp add: packet0_def)

text \<open>
  C39. One VLAN tag of either kind, with any tag control information and any addresses, is transparent: the packet
  behind it is decoded as if the tag were not there.
\<close>

theorem vlan_transparent:
  assumes "length macs = 12" and "length tci = 2" and "v \<in> {ether_vlan, ether_qinq}" and "t \<notin> {ether_vlan, ether_qinq, ether_pppoe}"
  shows "decode (macs @ be16_bytes v @ tci @ be16_bytes t @ data) outgoing = decode_network data t outgoing"
  by (rule decode_vlan_frame [OF assms])

lemma vlan_transparent_witness:
  "decode (replicate 12 0 @ be16_bytes ether_vlan @ [0, 7] @ be16_bytes ether_arp @ [1]) True = decode_network [1] ether_arp True"
  by (rule vlan_transparent) (simp_all add: ether_vlan_def ether_qinq_def ether_pppoe_def ether_arp_def)

text \<open>
  C40. A DNS flow after any messages, malformed ones included: every message is taken without a panic, and the recent
  questions are the last eight, newest first, under consecutive numbers that end in the count of questions.
\<close>

theorem dns_queries_listed:
  assumes "length ps < 2 ^ 64"
  shows "\<exists>s r. gfold (\<lambda>(p, addresses). dns_state_observe \<Gamma> p addresses) ps dns_state0 = Ret s \<and> recent_queries s = Ret r
    \<and> map (unat \<circ> dq_sequence) r
      = rev [Suc (unat (ds_queries s) - min (unat (ds_queries s)) max_recent_dns_queries) ..< Suc (unat (ds_queries s))]"
proof -
  have "unat (ds_queries dns_state0) + length ps < 2 ^ 64" using assms by (simp add: dns_state0_def)
  then obtain s where s: "gfold (\<lambda>(p, addresses). dns_state_observe \<Gamma> p addresses) ps dns_state0 = Ret s" "dns_state_ok s"
    using dns_run_ok [OF dns_state_ok0, of ps \<Gamma>] by (auto simp: returns_def)
  then show ?thesis using recent_queries_Ret [OF s(2)] by (auto simp: returns_def)
qed

lemma dns_queries_listed_witness:
  "\<exists>s r. gfold (\<lambda>(p, addresses). dns_state_observe demo_env p addresses) [(packet0\<lparr>k_payload := replicate 12 0\<rparr>, [])] dns_state0 = Ret s
    \<and> recent_queries s = Ret r
    \<and> map (unat \<circ> dq_sequence) r
      = rev [Suc (unat (ds_queries s) - min (unat (ds_queries s)) max_recent_dns_queries) ..< Suc (unat (ds_queries s))]"
  by (rule dns_queries_listed) simp

section \<open>Further results\<close>

text \<open>
  A single segment crashes the program: if its sequence number is exactly 2^31 away from the expected one, the negated
  32-bit distance stays negative and the slice of the payload panics, whatever a running connection has received so
  far.
\<close>

theorem stream_add_crash:
  assumes "\<not> r_failed s" and "\<not> parser_finished (r_parser s)" and "b \<noteq> []"
  shows "stream_add \<Gamma> \<rho> now s (r_expected s + 2 ^ 31) b = Panic"
  using stream_add_panics [OF assms, of "r_expected s + 2 ^ 31"] by (simp add: seq_diff_def)

text \<open>
  Splitting the first DER element off an encoding returns its tag, its contents and the bytes after it, for all
  contents below 2^24 bytes.
\<close>

theorem der_roundtrip:
  assumes "length x < 2 ^ 24"
  shows "der_element (der_encode t x @ rest) = Some (t, x, rest)"
  by (rule der_element_encode [OF assms])

text \<open>
  A header block on a stream number that was already counted is a trailer: it changes no host counter and returns no
  error.
\<close>

theorem h2_trailers_not_counted:
  assumes "h2_stream p \<le> h2_last p" and "h2_request \<Gamma> fs p e = Ret (p', e', er)"
  shows "e_hosts e' = e_hosts e \<and> er = None"
  by (rule h2_request_trailer [OF assms])

text \<open>
  The destination a SOCKS5 client names reaches the evidence only as printable ASCII.
\<close>

theorem socks_target_printable:
  assumes "socks5_handshake \<Gamma> b = Ret (u, t, ok)"
  shows "printable t"
  by (rule socks5_target_printable [OF assms])

text \<open>
  The port field of a PROXY version 1 line is copied unchecked into the client text: control bytes of the peer, here
  an escape sequence, reach what the terminal prints.
\<close>

theorem proxy_v1_control_bytes:
  "proxy_v1_header (lit ''PROXY TCP4 192.0.2.9 192.0.2.1 '' @ [27] @ lit ''[2J 443'' @ [13, 10]) = Ret (41, lit ''192.0.2.9:'' @ [27] @ lit ''[2J'', True)"
  using bad_proxy_v1_client by (simp add: bad_proxy_v1_def)

text \<open>
  The zone of an IPv6 literal passes normalizeHTTPHost unchecked: a Host header with an escape byte in its zone is
  returned as it is, although the comment says that control bytes never reach the terminal.
\<close>

theorem host_zone_control_bytes:
  "normalize_http_host \<Gamma> (lit ''::%'' @ [27] @ lit ''[31m'') = lit ''::%'' @ [27] @ lit ''[31m''"
  using bad_zone_host [of \<Gamma>] by (simp add: bad_zone_def)

text \<open>
  A chunk-size line of 256 bytes is taken when it comes with its line end, and the same bytes are refused as too long
  when a segment ends between the carriage return and the line feed: whether the parser takes a stream can depend on
  its division.
\<close>

theorem http_chunk_line_cut:
  "http_consumer \<Gamma> (http_parser0\<lparr>p_state := HttpChunkSize\<rparr>, e) (long_chunk_line @ [13, 10])
     = Ret ((http_parser0\<lparr>p_state := HttpChunkData, p_remaining := 1\<rparr>, e), None)
   \<and> (\<exists>s. http_consumer \<Gamma> (http_parser0\<lparr>p_state := HttpChunkSize\<rparr>, e) (long_chunk_line @ [13]) = Ret (s, Some (Msg ''HTTP chunk size line limit'')))"
  using long_line_whole long_line_pieces by blast

text \<open>
  When the responses came in order, a lookup answers the name that was first seen last among those seen before the
  connection started (with one second of grace); without one, a caller that allows later answers gets the oldest name,
  and every other caller gets none.
\<close>

theorem dns_lookup_latest:
  assumes "dns_run \<Gamma> ops [] = Ret c" and "sorted (t # map op_time ops)" and "list_all (\<lambda>x. n_name x \<noteq> []) (names_of c a)"
  shows "dns_lookup c a at later =
    (if names_before at (names_of c a) \<noteq> [] then n_name (last (names_before at (names_of c a)))
     else if later \<and> names_of c a \<noteq> [] then n_name (hd (names_of c a)) else [])"
  using dns_run_in_order [of t "[]" ops \<Gamma>] assms by (intro dns_lookup_spec) auto

text \<open>
  A name that is resolved again does not become the answer: after a, then b, then a again were resolved to one
  address, a connection that starts after all three is given b, although a was resolved to the address most recently.
\<close>

theorem dns_lookup_stale:
  assumes "unmap (q_address r) = q_address r" and "a \<noteq> b" and "t1 \<le> at + second" and "t0 \<le> at + second"
  shows "dns_lookup (observe_records a [r] t2 (observe_records b [r] t1 (observe_records a [r] t0 []))) (q_address r) at later = b"
  by (rule dns_lookup_repeated [OF assms])

text \<open>
  Two contradicting CRYPTO frames are refused in one order and accepted in the other: a frame that overlaps earlier
  data with other bytes is a conflicting retransmission, but data that arrive in order are not compared with the
  fragment they overlap.
\<close>

theorem quic_conflict_order:
  assumes "0 < start" and "part \<noteq> []" and "start + length part \<le> length data" and "length data \<le> max_crypto_bytes"
    and "take (length part) (drop start data) \<noteq> part"
  shows "(\<exists>t. crypto_run \<rho> [(start, part), (0, data)] quic_tracker0 = Ret (t, None) \<and> i_crypto t = data)
    \<and> (\<exists>t. crypto_run \<rho> [(0, data), (start, part)] quic_tracker0 = Ret (t, Some (Msg ''conflicting QUIC CRYPTO retransmission'')))"
  using conflict_order [OF assms] by blast

text \<open>
  The two readings of the QUIC long header agree: every packet the QUIC tracker splits off a datagram is one the
  detection takes for QUIC.
\<close>

theorem quic_detection_agrees:
  assumes "split_long_packet data = Ret (Some r)"
  shows "quic_long_header data = Ret True"
  by (rule split_is_quic [OF assms])

text \<open>
  The line of a row: its last samples, right-aligned, each as the eighth of the largest of them it reaches; a sample
  of zero and a missing one are blank, and nothing else is. The largest sample fills its cell when it is at least 7.
\<close>

theorem trend_line_drawn:
  assumes "ring_ok t"
  shows "sparkn_cells t (int width) = Ret (replicate (width - unat (g_count t)) blank
      @ rev (map (\<lambda>v. rung v (maximum (take width (ring_list t)))) (take width (ring_list t))))
    \<and> (rung v p = blank \<longleftrightarrow> v = 0 \<or> p = 0) \<and> (rung v v = 0x2588 \<longleftrightarrow> 7 \<le> unat v)"
  using sparkn_Ret [OF assms, of "int width"] by (auto simp: spark_line_def min_def rung_blank rung_top)

text \<open>
  The line of the last seconds compressed into a width: every cell shows the largest of the samples that fall into it,
  so no peak is lost; a history that is shorter than the width is stretched over it.
\<close>

theorem trend_window_drawn:
  assumes "ring_ok t" and "0 < width" and "0 < seconds"
  shows "window_cells t (int seconds) (int width) = Ret (map (\<lambda>i. rung
      (maximum (bucket width (take seconds (ring_list t)) i)) (maximum (take seconds (ring_list t)))) [0..<width])"
  using window_Ret [OF assms(1), of "int seconds" "int width"] assms(2,3) by (simp add: window_line_def)

text \<open>
  A second of sampling, whatever rows the table shows and in whatever order the maps are walked, returns and keeps the
  store in order: at most 500 rows, every one with a sound ring, and only existing rows marked as unused.
\<close>

theorem trend_store_bounded:
  assumes "trend_ok s"
  shows "\<exists>s'. sample_trends \<rho> now rows s = Ret s' \<and> trend_ok s' \<and> length (x_rings s') \<le> trend_rows"
  using sample_trends_ok [OF assms, of \<rho> now rows] by (auto simp: returns_def trend_ok_def map_ok_def)

text \<open>
  Whatever order the reports of the kernel arrive in, the retransmissions, the segments and the time of the latest
  metrics of a socket only grow, and the other socket of the connection is not touched.
\<close>

theorem kernel_counters_grow:
  assumes "h_kernel h = Some k" and "side = 0 \<or> side = 1"
  shows "\<exists>k'. h_kernel (observe_kernel side info h) = Some k' \<and> at_side (1 - side) k' = at_side (1 - side) k
    \<and> ti_retransmits (at_side side k) \<le> ti_retransmits (at_side side k') \<and> ti_segs_out (at_side side k) \<le> ti_segs_out (at_side side k')
    \<and> tm_sampled_ns (ti_metrics (at_side side k)) \<le> tm_sampled_ns (ti_metrics (at_side side k'))"
  using assms by (auto simp: observe_kernel_def merge_info_grows)

end
